(* ===== verification/CPrelude.thy ===== *)
theory CPrelude
  imports Main "HOL-Library.Word" "HOL-Library.Monad_Syntax" "HOL-Library.Multiset"
    "HOL-Library.Signed_Division"
begin

text \<open>
  What the component theories share.

  \<^item> A C operation is a function into \<open>option\<close>: \<open>None\<close> means that the C code has run into
    undefined behaviour (a null pointer is dereferenced, a byte outside of the allocated
    block is read or written, a signed addition overflows), \<open>Some r\<close> is a defined run with
    result \<open>r\<close>. A theorem of the form \<open>f x = Some y\<close> therefore also states that the run is
    memory safe.
  \<^item> \<open>mrd\<close> and \<open>mwr\<close> read and write an array at an index, \<open>mrdi\<close> and \<open>mwri\<close> do so at a signed
    index, \<open>mget\<close> and \<open>mput\<close> read and write a range of it, as \<open>memcpy\<close> does.
  \<^item> \<open>alloc\<close> is the allocator as the code sees it: the list of the outcomes of its next
    calls. The rest of the calls succeed when the list is exhausted.
\<close>

unbundle bit_operations_syntax

named_theorems ub_simps \<open>evaluation of array accesses that stay inside their block\<close>

type_synonym u8 = "8 word"
type_synonym u32 = "32 word"
type_synonym u64 = "64 word"
type_synonym bytes = "8 word list"
type_synonym alloc = "bool list"

section \<open>The allocator\<close>

fun alloc_next :: "alloc \<Rightarrow> bool \<times> alloc" where
  "alloc_next [] = (True, [])"
| "alloc_next (ok # rest) = (ok, rest)"

section \<open>Signed arithmetic\<close>

definition INT_MAX :: int where
  "INT_MAX = 2147483647"

definition INT_MIN :: int where
  "INT_MIN = -2147483648"

text \<open>The value of a signed 32-bit expression: undefined when it does not fit.\<close>

definition cint :: "int \<Rightarrow> int option" where
  "cint x = (if INT_MIN \<le> x \<and> x \<le> INT_MAX then Some x else None)"

lemma cint_in [simp, ub_simps]: "INT_MIN \<le> x \<Longrightarrow> x \<le> INT_MAX \<Longrightarrow> cint x = Some x"
  by (simp add: cint_def)

lemma cint_Some_iff: "cint x = Some y \<longleftrightarrow> y = x \<and> INT_MIN \<le> x \<and> x \<le> INT_MAX"
  by (auto simp: cint_def)

section \<open>Array accesses\<close>

definition mrd :: "'a list \<Rightarrow> nat \<Rightarrow> 'a option" where
  "mrd m i = (if i < length m then Some (m ! i) else None)"

definition mwr :: "'a list \<Rightarrow> nat \<Rightarrow> 'a \<Rightarrow> 'a list option" where
  "mwr m i v = (if i < length m then Some (m[i := v]) else None)"

definition mrdi :: "'a list \<Rightarrow> int \<Rightarrow> 'a option" where
  "mrdi m i = (if 0 \<le> i then mrd m (nat i) else None)"

definition mwri :: "'a list \<Rightarrow> int \<Rightarrow> 'a \<Rightarrow> 'a list option" where
  "mwri m i v = (if 0 \<le> i then mwr m (nat i) v else None)"

lemma mrd_in [simp, ub_simps]: "i < length m \<Longrightarrow> mrd m i = Some (m ! i)"
  by (simp add: mrd_def)

lemma mrd_out [simp]: "length m \<le> i \<Longrightarrow> mrd m i = None"
  by (simp add: mrd_def)

lemma mrd_Some_iff: "mrd m i = Some v \<longleftrightarrow> i < length m \<and> m ! i = v"
  by (auto simp: mrd_def)

lemma mwr_in [simp, ub_simps]: "i < length m \<Longrightarrow> mwr m i v = Some (m[i := v])"
  by (simp add: mwr_def)

lemma mwr_out [simp]: "length m \<le> i \<Longrightarrow> mwr m i v = None"
  by (simp add: mwr_def)

lemma mwr_Some_iff: "mwr m i v = Some m' \<longleftrightarrow> i < length m \<and> m' = m[i := v]"
  by (auto simp: mwr_def)

lemma mrdi_in [simp, ub_simps]: "0 \<le> i \<Longrightarrow> i < int (length m) \<Longrightarrow> mrdi m i = Some (m ! nat i)"
  by (simp add: mrdi_def nat_less_iff)

lemma mwri_in [simp, ub_simps]: "0 \<le> i \<Longrightarrow> i < int (length m) \<Longrightarrow> mwri m i v = Some (m[nat i := v])"
  by (simp add: mwri_def nat_less_iff)

section \<open>Ranges of an array\<close>

definition mget :: "'a list \<Rightarrow> nat \<Rightarrow> nat \<Rightarrow> 'a list option" where
  "mget m i n = (if i + n \<le> length m then Some (take n (drop i m)) else None)"

definition mput :: "'a list \<Rightarrow> nat \<Rightarrow> 'a list \<Rightarrow> 'a list option" where
  "mput m i xs = (if i + length xs \<le> length m then Some (take i m @ xs @ drop (i + length xs) m) else None)"

lemma mget_in [simp, ub_simps]: "i + n \<le> length m \<Longrightarrow> mget m i n = Some (take n (drop i m))"
  by (simp add: mget_def)

lemma mget_Some_iff: "mget m i n = Some xs \<longleftrightarrow> i + n \<le> length m \<and> xs = take n (drop i m)"
  by (auto simp: mget_def)

lemma mput_Some_iff:
  "mput m i xs = Some m' \<longleftrightarrow> i + length xs \<le> length m \<and> m' = take i m @ xs @ drop (i + length xs) m"
  by (auto simp: mput_def)

lemma mput_None [simp]: "length m < i + length xs \<Longrightarrow> mput m i xs = None"
  by (simp add: mput_def)

lemma mput_length: "mput m i xs = Some m' \<Longrightarrow> length m' = length m"
  by (auto simp: mput_Some_iff)

lemma mput_Nil [simp]: "i \<le> length m \<Longrightarrow> mput m i [] = Some m"
  by (simp add: mput_def)

lemma mwr_mput: "mwr m i x = mput m i [x]"
  by (auto simp: mwr_def mput_def upd_conv_take_nth_drop)

text \<open>Adjacent writes are one write.\<close>

lemma mput_append:
  "Option.bind (mput m i xs) (\<lambda>m'. mput m' (i + length xs) ys) = mput m i (xs @ ys)"
  by (auto simp: mput_def ac_simps)

lemma mput_app:
  assumes "mput m i xs = Some m'" "j = i + length xs"
  shows "mput m' j ys = mput m i (xs @ ys)"
  using mput_append [of m i xs ys] assms by simp

lemma mput_bind:
  "Option.bind (mput m i xs) (\<lambda>m'. Option.bind (mput m' (i + length xs) ys) f) =
   Option.bind (mput m i (xs @ ys)) f"
  by (simp only: mput_append [symmetric] Option.bind_assoc)

text \<open>Three and four single writes in a row are one write.\<close>

lemma three_put:
  fixes dest :: "'a list"
  shows "Option.bind (mput dest p [x]) (\<lambda>d. Option.bind (mput d (Suc p) [y])
      (\<lambda>d. Option.bind (mput d (Suc (Suc p)) [z]) k)) = Option.bind (mput dest p [x, y, z]) k"
proof -
  note 1 = mput_bind [of dest p "[x]" "[y]"] mput_bind [of dest p "[x, y]" "[z]"]
  show ?thesis by (simp add: 1 [simplified])
qed

lemma quad_put:
  fixes dest :: "'a list"
  shows "do { dest \<leftarrow> mwr dest p v0; dest \<leftarrow> mwr dest (p + 1) v1; dest \<leftarrow> mwr dest (p + 2) v2;
        dest \<leftarrow> mwr dest (p + 3) v3; k dest } = Option.bind (mput dest p [v0, v1, v2, v3]) k"
proof -
  note 1 = mput_bind [of dest p "[v0]" "[v1]"] mput_bind [of dest p "[v0, v1]" "[v2]"]
    mput_bind [of dest p "[v0, v1, v2]" "[v3]"]
  show ?thesis
    unfolding mwr_mput by (simp add: 1 [simplified] numeral_3_eq_3)
qed

section \<open>Bytes\<close>

text \<open>\<open>strlen\<close> reads up to the first NUL byte: undefined when there is none in the block.\<close>

definition c_strlen :: "bytes \<Rightarrow> nat option" where
  "c_strlen m = (if 0 \<in> set m then Some (length (takeWhile (\<lambda>c. c \<noteq> 0) m)) else None)"

lemma unat8_lt [simp]: "unat (x :: u8) < 256"
  using unsigned_less [of x, where 'a = nat] by simp

lemma uint8_lt [simp]: "uint (x :: u8) < 256"
  using unsigned_less [of x, where 'a = int] by simp

lemma unat8_inject [simp]: "unat (x :: u8) = unat y \<longleftrightarrow> x = y"
  by (simp add: word_unat_eq_iff)

lemma unat8_of_nat: "n < 256 \<Longrightarrow> unat (of_nat n :: u8) = n"
  by (simp add: unat_of_nat)

section \<open>Signed division\<close>

text \<open>\<open>sdiv\<close> and \<open>smod\<close> truncate towards zero, as C does.\<close>

lemma sdiv_nonneg [simp]: "0 \<le> a \<Longrightarrow> 0 \<le> (b :: int) \<Longrightarrow> a sdiv b = a div b"
  by (cases "a = 0"; cases "b = 0") (auto simp: signed_divide_int_def)

lemma smod_nonneg [simp]: "0 \<le> a \<Longrightarrow> 0 \<le> (b :: int) \<Longrightarrow> a smod b = a mod b"
  by (cases "a = 0") (auto simp: signed_modulo_int_def)

end
