(* ===== verification/Comparator.thy ===== *)
theory Comparator
  imports CPrelude
begin

text \<open>
  The contract of a comparison callback (\<open>CompareFunc\<close> of \<open>common_define.h\<close>, whose result is
  negative, zero or positive) and the reference operations on lists that are sorted by one:
  insertion, replacement and deletion of one element, and lookup. The ordered containers are
  specified by these; the string comparisons of the repository are shown to satisfy the
  contract in their own theories.
\<close>

section \<open>The contract\<close>

locale comparator =
  fixes cmp :: "'a \<Rightarrow> 'a \<Rightarrow> int"
  assumes cmp_swap: "0 < cmp x y \<longleftrightarrow> cmp y x < 0"
    and cmp_trans: "cmp x y \<le> 0 \<Longrightarrow> cmp y z \<le> 0 \<Longrightarrow> cmp x z \<le> 0"
begin

lemma cmp_refl [simp]: "cmp x x = 0"
  using cmp_swap [of x x] by linarith

lemma cmp_eq_sym: "cmp x y = 0 \<longleftrightarrow> cmp y x = 0"
  using cmp_swap [of x y] cmp_swap [of y x] by linarith

lemma cmp_le_less_trans: "cmp x y \<le> 0 \<Longrightarrow> cmp y z < 0 \<Longrightarrow> cmp x z < 0"
  using cmp_trans [of z x y] cmp_swap [of z x] cmp_swap [of z y] by linarith

lemma cmp_less_le_trans: "cmp x y < 0 \<Longrightarrow> cmp y z \<le> 0 \<Longrightarrow> cmp x z < 0"
  using cmp_trans [of y z x] cmp_swap [of z x] cmp_swap [of y x] by linarith

lemma cmp_eq_trans: "cmp x y = 0 \<Longrightarrow> cmp y z = 0 \<Longrightarrow> cmp x z = 0"
  using cmp_trans [of x y z] cmp_trans [of z y x] cmp_swap [of z x] cmp_swap [of x z]
    cmp_eq_sym [of x y] cmp_eq_sym [of y z]
  by linarith

lemma cmp_less_trans: "cmp x y < 0 \<Longrightarrow> cmp y z < 0 \<Longrightarrow> cmp x z < 0"
  using cmp_le_less_trans [of x y z] by simp

end

section \<open>Reference operations on sorted lists\<close>

definition sorted_cmp :: "('a \<Rightarrow> 'a \<Rightarrow> int) \<Rightarrow> 'a list \<Rightarrow> bool" where
  "sorted_cmp cmp = sorted_wrt (\<lambda>x y. cmp x y < 0)"

fun ins_sorted :: "('a \<Rightarrow> 'a \<Rightarrow> int) \<Rightarrow> 'a \<Rightarrow> 'a list \<Rightarrow> 'a list" where
  "ins_sorted cmp x [] = [x]"
| "ins_sorted cmp x (y # ys) =
     (if cmp y x < 0 then y # ins_sorted cmp x ys
      else if cmp y x = 0 then y # ys else x # y # ys)"

fun rep_sorted :: "('a \<Rightarrow> 'a \<Rightarrow> int) \<Rightarrow> 'a \<Rightarrow> 'a list \<Rightarrow> 'a list" where
  "rep_sorted cmp x [] = [x]"
| "rep_sorted cmp x (y # ys) =
     (if cmp y x < 0 then y # rep_sorted cmp x ys
      else if cmp y x = 0 then x # ys else x # y # ys)"

fun del_sorted :: "('a \<Rightarrow> 'a \<Rightarrow> int) \<Rightarrow> 'a \<Rightarrow> 'a list \<Rightarrow> 'a list" where
  "del_sorted cmp x [] = []"
| "del_sorted cmp x (y # ys) = (if cmp y x = 0 then ys else y # del_sorted cmp x ys)"

fun find_sorted :: "('a \<Rightarrow> 'a \<Rightarrow> int) \<Rightarrow> 'a \<Rightarrow> 'a list \<Rightarrow> 'a option" where
  "find_sorted cmp x [] = None"
| "find_sorted cmp x (y # ys) = (if cmp y x = 0 then Some y else find_sorted cmp x ys)"

fun find_ge_sorted :: "('a \<Rightarrow> 'a \<Rightarrow> int) \<Rightarrow> 'a \<Rightarrow> 'a list \<Rightarrow> 'a option" where
  "find_ge_sorted cmp x [] = None"
| "find_ge_sorted cmp x (y # ys) = (if cmp y x < 0 then find_ge_sorted cmp x ys else Some y)"

definition present :: "('a \<Rightarrow> 'a \<Rightarrow> int) \<Rightarrow> 'a \<Rightarrow> 'a list \<Rightarrow> bool" where
  "present cmp x xs \<longleftrightarrow> (\<exists>y \<in> set xs. cmp y x = 0)"

lemma sorted_cmp_simps [simp]:
  "sorted_cmp cmp []"
  "sorted_cmp cmp (x # xs) \<longleftrightarrow> (\<forall>y \<in> set xs. cmp x y < 0) \<and> sorted_cmp cmp xs"
  "sorted_cmp cmp (xs @ ys) \<longleftrightarrow>
     sorted_cmp cmp xs \<and> sorted_cmp cmp ys \<and> (\<forall>x \<in> set xs. \<forall>y \<in> set ys. cmp x y < 0)"
  by (auto simp: sorted_cmp_def sorted_wrt_append)

lemma present_simps [simp]:
  "\<not> present cmp x []"
  "present cmp x (y # ys) \<longleftrightarrow> cmp y x = 0 \<or> present cmp x ys"
  "present cmp x (xs @ ys) \<longleftrightarrow> present cmp x xs \<or> present cmp x ys"
  by (auto simp: present_def)

lemma present_iff_find: "present cmp x xs \<longleftrightarrow> find_sorted cmp x xs \<noteq> None"
  by (induction xs) auto

context comparator
begin

lemma not_present_right: "0 < cmp d x \<Longrightarrow> \<forall>y \<in> set rs. cmp d y < 0 \<Longrightarrow> \<not> present cmp x rs"
  unfolding present_def
proof (intro notI, elim bexE)
  fix y
  assume "0 < cmp d x" "\<forall>y \<in> set rs. cmp d y < 0" "y \<in> set rs" "cmp y x = 0"
  then have "cmp x y < 0"
    using cmp_less_trans [of x d y] cmp_swap [of d x] by simp
  with \<open>cmp y x = 0\<close> show False
    using cmp_eq_sym [of y x] by simp
qed

lemma not_present_left: "cmp d x \<le> 0 \<Longrightarrow> \<forall>y \<in> set ls. cmp y d < 0 \<Longrightarrow> \<not> present cmp x ls"
  unfolding present_def by (fastforce dest: cmp_less_le_trans)

lemma not_present_beside: "cmp d x = 0 \<Longrightarrow> \<forall>y \<in> set rs. cmp d y < 0 \<Longrightarrow> \<not> present cmp x rs"
  unfolding present_def
proof (intro notI, elim bexE)
  fix y
  assume "cmp d x = 0" "\<forall>y \<in> set rs. cmp d y < 0" "y \<in> set rs" "cmp y x = 0"
  then have "cmp x y < 0"
    using cmp_le_less_trans [of x d y] cmp_eq_sym [of d x] by simp
  with \<open>cmp y x = 0\<close> show False
    using cmp_eq_sym [of y x] by simp
qed

lemma left_less: "cmp d x \<le> 0 \<Longrightarrow> \<forall>y \<in> set ls. cmp y d < 0 \<Longrightarrow> \<forall>y \<in> set ls. cmp y x < 0"
  using cmp_less_le_trans by blast

lemma right_greater: "0 < cmp d x \<Longrightarrow> \<forall>y \<in> set rs. cmp d y < 0 \<Longrightarrow> \<forall>y \<in> set rs. 0 < cmp y x"
  using cmp_swap cmp_less_trans [of x d] by blast

lemma del_not_present: "\<not> present cmp x xs \<Longrightarrow> del_sorted cmp x xs = xs"
  by (induction xs) auto

lemma del_append: "\<not> present cmp x xs \<Longrightarrow> del_sorted cmp x (xs @ ys) = xs @ del_sorted cmp x ys"
  by (induction xs) auto

lemma del_append_left: "present cmp x xs \<Longrightarrow> del_sorted cmp x (xs @ ys) = del_sorted cmp x xs @ ys"
  by (induction xs) auto

lemma find_append: "\<not> present cmp x xs \<Longrightarrow> find_sorted cmp x (xs @ ys) = find_sorted cmp x ys"
  by (induction xs) auto

lemma find_append_left:
  "\<not> present cmp x ys \<Longrightarrow> find_sorted cmp x (xs @ ys) = find_sorted cmp x xs"
  by (induction xs) (auto simp: present_iff_find)

lemma ins_append_right:
  "\<forall>y \<in> set xs. cmp y x < 0 \<Longrightarrow> ins_sorted cmp x (xs @ ys) = xs @ ins_sorted cmp x ys"
  "\<forall>y \<in> set xs. cmp y x < 0 \<Longrightarrow> rep_sorted cmp x (xs @ ys) = xs @ rep_sorted cmp x ys"
  "\<forall>y \<in> set xs. cmp y x < 0 \<Longrightarrow> find_ge_sorted cmp x (xs @ ys) = find_ge_sorted cmp x ys"
  by (induction xs) auto

lemma ins_append_left:
  "0 < cmp d x \<Longrightarrow> ins_sorted cmp x (xs @ d # ys) = ins_sorted cmp x xs @ d # ys"
  "0 < cmp d x \<Longrightarrow> rep_sorted cmp x (xs @ d # ys) = rep_sorted cmp x xs @ d # ys"
  by (induction xs) auto

lemma find_ge_append_left:
  "0 < cmp d x \<Longrightarrow> find_ge_sorted cmp x (xs @ d # ys) =
     (case find_ge_sorted cmp x xs of None \<Rightarrow> Some d | Some y \<Rightarrow> Some y)"
  by (induction xs) auto

text \<open>What the reference operations do to the set of elements, and that they keep the order.\<close>

lemma set_ins_sorted: "set (ins_sorted cmp x xs) = (if present cmp x xs then set xs else insert x (set xs))"
  if "sorted_cmp cmp xs"
  using that
proof (induction xs)
  case Nil
  then show ?case by simp
next
  case (Cons y ys)
  have "\<not> present cmp x ys" if "0 < cmp y x"
    using that Cons.prems not_present_right by auto
  then show ?case
    using Cons by auto
qed

lemma sorted_ins_sorted: "sorted_cmp cmp xs \<Longrightarrow> sorted_cmp cmp (ins_sorted cmp x xs)"
proof (induction xs)
  case Nil
  then show ?case by simp
next
  case (Cons y ys)
  have "cmp x z < 0" if "0 < cmp y x" "z \<in> set ys" for z
    using that Cons.prems cmp_swap [of y x] cmp_less_trans [of x y z] by simp
  then show ?case
    using Cons cmp_swap [of y x] by (auto simp: set_ins_sorted)
qed

lemma set_rep_sorted:
  "sorted_cmp cmp xs \<Longrightarrow> set (rep_sorted cmp x xs) = insert x {y \<in> set xs. cmp y x \<noteq> 0}"
proof (induction xs)
  case Nil
  then show ?case by simp
next
  case (Cons y ys)
  have "\<not> present cmp x ys" if "0 < cmp y x"
    using that Cons.prems not_present_right by auto
  moreover have "\<not> present cmp x ys" if "cmp y x = 0"
    using not_present_beside [of y x ys] that Cons.prems by simp
  ultimately show ?case
    using Cons by (auto simp: present_def)
qed

lemma sorted_rep_sorted: "sorted_cmp cmp xs \<Longrightarrow> sorted_cmp cmp (rep_sorted cmp x xs)"
proof (induction xs)
  case Nil
  then show ?case by simp
next
  case (Cons y ys)
  have "cmp x z < 0" if "0 < cmp y x" "z \<in> set ys" for z
    using that Cons.prems cmp_swap [of y x] cmp_less_trans [of x y z] by simp
  moreover have "cmp x z < 0" if "cmp y x = 0" "z \<in> set ys" for z
    using that Cons.prems cmp_eq_sym [of y x] cmp_le_less_trans [of x y z] by simp
  ultimately show ?case
    using Cons cmp_swap [of y x] by (auto simp: set_rep_sorted)
qed

lemma set_del_sorted:
  "sorted_cmp cmp xs \<Longrightarrow> set (del_sorted cmp x xs) = {y \<in> set xs. cmp y x \<noteq> 0}"
proof (induction xs)
  case Nil
  then show ?case by simp
next
  case (Cons y ys)
  have "\<not> present cmp x ys" if "cmp y x = 0"
    using not_present_beside [of y x ys] that Cons.prems by simp
  then show ?case
    using Cons by (auto simp: present_def)
qed

lemma sorted_del_sorted: "sorted_cmp cmp xs \<Longrightarrow> sorted_cmp cmp (del_sorted cmp x xs)"
  by (induction xs) (auto simp: set_del_sorted)

end

lemma comparator_int: "comparator (\<lambda>x y :: int. x - y)"
  by unfold_locales auto

end
