(* ===== verification/History.thy ===== *)
theory History
  imports CPrelude
begin

text \<open>
  Histories of operations on a component: a client that runs a list of operations, its abstract counterpart, and the interface \<open>store\<close> of
  a component that refines a specification step by step. The hash table and the AVL tree implement it.
\<close>

section \<open>Histories\<close>

text \<open>A client that runs a list of operations; the results come back with the last state.\<close>

fun run_history :: "('op \<Rightarrow> 's \<Rightarrow> (int \<times> 's) option) \<Rightarrow> 'op list \<Rightarrow> 's \<Rightarrow> (int list \<times> 's) option" where
  "run_history step [] s = Some ([], s)"
| "run_history step (op # ops) s = do {
     (r, s) \<leftarrow> step op s;
     (rs, s) \<leftarrow> run_history step ops s;
     Some (r # rs, s)
   }"

text \<open>The same history on the abstract side: each result allows a set of next states.\<close>

fun spec_run :: "('op \<Rightarrow> int \<Rightarrow> 'm \<Rightarrow> 'm \<Rightarrow> bool) \<Rightarrow> 'op list \<Rightarrow> int list \<Rightarrow> 'm \<Rightarrow> 'm \<Rightarrow> bool" where
  "spec_run spec [] [] m m' \<longleftrightarrow> m' = m"
| "spec_run spec (op # ops) (r # rs) m m' \<longleftrightarrow> (\<exists>m1. spec op r m m1 \<and> spec_run spec ops rs m1 m')"
| "spec_run spec _ _ m m' \<longleftrightarrow> False"

lemma spec_run_Cons: "spec_run spec (op # ops) rs m m' \<longleftrightarrow> (\<exists>r rs'. rs = r # rs' \<and> (\<exists>m1. spec op r m m1 \<and> spec_run spec ops rs' m1 m'))"
  by (cases rs) auto

lemma spec_run_Nil: "spec_run spec [] rs m m' \<longleftrightarrow> rs = [] \<and> m' = m"
  by (cases rs) auto

text \<open>
  The interface of a store whose operations always return, keep its invariant and do what the specification
  allows for their result.
\<close>

locale store =
  fixes step :: "'op \<Rightarrow> 's \<Rightarrow> (int \<times> 's) option" and good :: "'s \<Rightarrow> bool" and legal :: "'op \<Rightarrow> bool"
    and view :: "'s \<Rightarrow> 'm" and spec :: "'op \<Rightarrow> int \<Rightarrow> 'm \<Rightarrow> 'm \<Rightarrow> bool"
  assumes step_ok: "good s \<Longrightarrow> legal op \<Longrightarrow> \<exists>r s'. step op s = Some (r, s') \<and> good s' \<and> spec op r (view s) (view s')"
begin

lemma run_refines:
  "good s \<Longrightarrow> \<forall>op \<in> set ops. legal op \<Longrightarrow>
   \<exists>rs s'. run_history step ops s = Some (rs, s') \<and> good s' \<and> spec_run spec ops rs (view s) (view s')"
proof (induction ops arbitrary: s)
  case (Cons op ops)
  from step_ok [OF Cons.prems(1), of op] Cons.prems(2) obtain r s1 where
    s1: "step op s = Some (r, s1)" "good s1" "spec op r (view s) (view s1)" by auto
  from Cons.IH [OF s1(2)] Cons.prems(2) obtain rs s2 where
    "run_history step ops s1 = Some (rs, s2)" "good s2" "spec_run spec ops rs (view s1) (view s2)" by auto
  with s1 show ?case by auto
qed simp

end

end
