(* ===== verification/AvlTree.thy ===== *)
theory AvlTree
  imports Comparator History
begin

text \<open>
  The AVL tree of \<open>libs/fastcommon/src/avl_tree.c\<close>. A \<open>struct tagAVLTreeNode *\<close> is a value of
  \<open>AVLTreeNode\<close> (the nodes of a tree are reached through one parent only, so no node is
  shared); an \<open>AVLTreeNode **\<close> parameter is the tree that is passed in and the tree that is
  returned in its place; \<open>int *taller\<close> and \<open>int *shorter\<close> are threaded the same way. The
  callbacks \<open>free_data_func\<close> and \<open>data_op_func\<close> act on a state \<open>'w\<close> of the caller. The flag
  \<open>malloc_ok\<close> is the outcome of the one \<open>malloc\<close> an insertion performs. \<open>None\<close> is a null
  pointer dereference.
\<close>

section \<open>Nodes and trees\<close>

definition ENOMEM :: int where
  "ENOMEM = 12"

datatype 'a AVLTreeNode =
    NULL
  | AVLTreeNode (node_data: 'a) (left: "'a AVLTreeNode") (right: "'a AVLTreeNode") (balance: int)

record ('a, 'w) AVLTreeInfo =
  root :: "'a AVLTreeNode"
  free_data_func :: "('a \<Rightarrow> 'w \<Rightarrow> 'w) option"
  compare_func :: "'a \<Rightarrow> 'a \<Rightarrow> int"

definition avl_tree_init ::
    "('a \<Rightarrow> 'w \<Rightarrow> 'w) option \<Rightarrow> ('a \<Rightarrow> 'a \<Rightarrow> int) \<Rightarrow> ('a, 'w) AVLTreeInfo" where
  "avl_tree_init free_func cmp = \<lparr>root = NULL, free_data_func = free_func, compare_func = cmp\<rparr>"

definition call_free :: "('a \<Rightarrow> 'w \<Rightarrow> 'w) option \<Rightarrow> 'a \<Rightarrow> 'w \<Rightarrow> 'w" where
  "call_free f d w = (case f of None \<Rightarrow> w | Some g \<Rightarrow> g d w)"

fun avl_tree_destroy_loop ::
    "('a \<Rightarrow> 'w \<Rightarrow> 'w) option \<Rightarrow> 'a AVLTreeNode \<Rightarrow> 'w \<Rightarrow> 'w option" where
  "avl_tree_destroy_loop f NULL w = None"
| "avl_tree_destroy_loop f (AVLTreeNode d l r b) w = do {
     w \<leftarrow> (if l \<noteq> NULL then avl_tree_destroy_loop f l w else Some w);
     w \<leftarrow> (if r \<noteq> NULL then avl_tree_destroy_loop f r w else Some w);
     Some (call_free f d w)
   }"

definition avl_tree_destroy ::
    "('a, 'w) AVLTreeInfo \<Rightarrow> 'w \<Rightarrow> (('a, 'w) AVLTreeInfo \<times> 'w) option" where
  "avl_tree_destroy tree w =
     (if root tree \<noteq> NULL
      then do { w \<leftarrow> avl_tree_destroy_loop (free_data_func tree) (root tree) w;
                Some (tree\<lparr>root := NULL\<rparr>, w) }
      else Some (tree, w))"

definition createTreeNode :: "bool \<Rightarrow> 'a \<Rightarrow> 'a AVLTreeNode" where
  "createTreeNode malloc_ok target_data =
     (if malloc_ok then AVLTreeNode target_data NULL NULL 0 else NULL)"

section \<open>Rotations\<close>

fun avlRotateLeft :: "'a AVLTreeNode \<Rightarrow> 'a AVLTreeNode option" where
  "avlRotateLeft (AVLTreeNode d l (AVLTreeNode rd rl rr rb) b) =
     Some (AVLTreeNode rd (AVLTreeNode d l rl b) rr rb)"
| "avlRotateLeft _ = None"

fun avlRotateRight :: "'a AVLTreeNode \<Rightarrow> 'a AVLTreeNode option" where
  "avlRotateRight (AVLTreeNode d (AVLTreeNode ld ll lr lb) r b) =
     Some (AVLTreeNode ld ll (AVLTreeNode d lr r b) lb)"
| "avlRotateRight _ = None"

text \<open>The inner \<open>switch (rightsub->balance)\<close>: the new balances of the node and of its left child.\<close>

definition left_double_balance :: "int \<Rightarrow> int \<Rightarrow> int \<Rightarrow> int \<times> int" where
  "left_double_balance grandchild b lb =
     (if grandchild = -1 then (1, 0)
      else if grandchild = 0 then (0, 0)
      else if grandchild = 1 then (0, -1)
      else (b, lb))"

text \<open>The mirror image \<open>switch (leftsub->balance)\<close>.\<close>

definition right_double_balance :: "int \<Rightarrow> int \<Rightarrow> int \<Rightarrow> int \<times> int" where
  "right_double_balance grandchild b rb =
     (if grandchild = 1 then (-1, 0)
      else if grandchild = 0 then (0, 0)
      else if grandchild = -1 then (0, 1)
      else (b, rb))"

fun avlLeftBalanceWhenInsert :: "'a AVLTreeNode \<Rightarrow> int \<Rightarrow> ('a AVLTreeNode \<times> int) option" where
  "avlLeftBalanceWhenInsert (AVLTreeNode d (AVLTreeNode ld ll lr lb) r b) taller =
     (if lb = -1 then do {
        t \<leftarrow> avlRotateRight (AVLTreeNode d (AVLTreeNode ld ll lr 0) r 0);
        Some (t, 0)
      } else if lb = 0 then
        Some (AVLTreeNode d (AVLTreeNode ld ll lr lb) r b, taller)
      else if lb = 1 then (case lr of
        NULL \<Rightarrow> None
      | AVLTreeNode gd gl gr gb \<Rightarrow>
          (let (b', lb') = left_double_balance gb b lb in do {
             l' \<leftarrow> avlRotateLeft (AVLTreeNode ld ll (AVLTreeNode gd gl gr 0) lb');
             t \<leftarrow> avlRotateRight (AVLTreeNode d l' r b');
             Some (t, 0)
           }))
      else Some (AVLTreeNode d (AVLTreeNode ld ll lr lb) r b, taller))"
| "avlLeftBalanceWhenInsert _ taller = None"

fun avlRightBalanceWhenInsert :: "'a AVLTreeNode \<Rightarrow> int \<Rightarrow> ('a AVLTreeNode \<times> int) option" where
  "avlRightBalanceWhenInsert (AVLTreeNode d l (AVLTreeNode rd rl rr rb) b) taller =
     (if rb = 1 then do {
        t \<leftarrow> avlRotateLeft (AVLTreeNode d l (AVLTreeNode rd rl rr 0) 0);
        Some (t, 0)
      } else if rb = 0 then
        Some (AVLTreeNode d l (AVLTreeNode rd rl rr rb) b, taller)
      else if rb = -1 then (case rl of
        NULL \<Rightarrow> None
      | AVLTreeNode gd gl gr gb \<Rightarrow>
          (let (b', rb') = right_double_balance gb b rb in do {
             r' \<leftarrow> avlRotateRight (AVLTreeNode rd (AVLTreeNode gd gl gr 0) rr rb');
             t \<leftarrow> avlRotateLeft (AVLTreeNode d l r' b');
             Some (t, 0)
           }))
      else Some (AVLTreeNode d l (AVLTreeNode rd rl rr rb) b, taller))"
| "avlRightBalanceWhenInsert _ taller = None"

section \<open>Insertion and replacement\<close>

text \<open>The two \<open>switch ((*pCurrentNode)->balance)\<close> after the recursive calls.\<close>

definition insert_left_switch ::
    "'a \<Rightarrow> 'a AVLTreeNode \<Rightarrow> 'a AVLTreeNode \<Rightarrow> int \<Rightarrow> int \<Rightarrow> ('a AVLTreeNode \<times> int) option" where
  "insert_left_switch d l r b taller =
     (if taller \<noteq> 0 then
        (if b = -1 then avlLeftBalanceWhenInsert (AVLTreeNode d l r b) taller
         else if b = 0 then Some (AVLTreeNode d l r (-1), taller)
         else if b = 1 then Some (AVLTreeNode d l r 0, 0)
         else Some (AVLTreeNode d l r b, taller))
      else Some (AVLTreeNode d l r b, taller))"

definition insert_right_switch ::
    "'a \<Rightarrow> 'a AVLTreeNode \<Rightarrow> 'a AVLTreeNode \<Rightarrow> int \<Rightarrow> int \<Rightarrow> ('a AVLTreeNode \<times> int) option" where
  "insert_right_switch d l r b taller =
     (if taller \<noteq> 0 then
        (if b = -1 then Some (AVLTreeNode d l r 0, 0)
         else if b = 0 then Some (AVLTreeNode d l r 1, taller)
         else if b = 1 then avlRightBalanceWhenInsert (AVLTreeNode d l r b) taller
         else Some (AVLTreeNode d l r b, taller))
      else Some (AVLTreeNode d l r b, taller))"

fun avl_tree_insert_loop ::
    "('a \<Rightarrow> 'a \<Rightarrow> int) \<Rightarrow> bool \<Rightarrow> 'a AVLTreeNode \<Rightarrow> 'a \<Rightarrow> int \<Rightarrow>
     (int \<times> 'a AVLTreeNode \<times> int) option" where
  "avl_tree_insert_loop cmp malloc_ok NULL target_data taller =
     (let cur = createTreeNode malloc_ok target_data in
      if cur \<noteq> NULL then Some (1, cur, 1) else Some (- ENOMEM, cur, taller))"
| "avl_tree_insert_loop cmp malloc_ok (AVLTreeNode d l r b) target_data taller =
     (let nCompRes = cmp d target_data in
      if nCompRes > 0 then do {
        (success, l', taller) \<leftarrow> avl_tree_insert_loop cmp malloc_ok l target_data taller;
        (cur, taller) \<leftarrow> insert_left_switch d l' r b taller;
        Some (success, cur, taller)
      } else if nCompRes < 0 then do {
        (success, r', taller) \<leftarrow> avl_tree_insert_loop cmp malloc_ok r target_data taller;
        (cur, taller) \<leftarrow> insert_right_switch d l r' b taller;
        Some (success, cur, taller)
      } else Some (0, AVLTreeNode d l r b, taller))"

definition avl_tree_insert ::
    "bool \<Rightarrow> ('a, 'w) AVLTreeInfo \<Rightarrow> 'a \<Rightarrow> (int \<times> ('a, 'w) AVLTreeInfo) option" where
  "avl_tree_insert malloc_ok tree d = do {
     (success, t, taller) \<leftarrow> avl_tree_insert_loop (compare_func tree) malloc_ok (root tree) d 0;
     Some (success, tree\<lparr>root := t\<rparr>)
   }"

fun avl_tree_replace_loop ::
    "('a \<Rightarrow> 'a \<Rightarrow> int) \<Rightarrow> ('a \<Rightarrow> 'w \<Rightarrow> 'w) option \<Rightarrow> bool \<Rightarrow> 'a AVLTreeNode \<Rightarrow> 'a \<Rightarrow> int \<Rightarrow> 'w \<Rightarrow>
     (int \<times> 'a AVLTreeNode \<times> int \<times> 'w) option" where
  "avl_tree_replace_loop cmp f malloc_ok NULL target_data taller w =
     (let cur = createTreeNode malloc_ok target_data in
      if cur \<noteq> NULL then Some (1, cur, 1, w) else Some (- ENOMEM, cur, taller, w))"
| "avl_tree_replace_loop cmp f malloc_ok (AVLTreeNode d l r b) target_data taller w =
     (let nCompRes = cmp d target_data in
      if nCompRes > 0 then do {
        (success, l', taller, w) \<leftarrow> avl_tree_replace_loop cmp f malloc_ok l target_data taller w;
        (cur, taller) \<leftarrow> insert_left_switch d l' r b taller;
        Some (success, cur, taller, w)
      } else if nCompRes < 0 then do {
        (success, r', taller, w) \<leftarrow> avl_tree_replace_loop cmp f malloc_ok r target_data taller w;
        (cur, taller) \<leftarrow> insert_right_switch d l r' b taller;
        Some (success, cur, taller, w)
      } else Some (0, AVLTreeNode target_data l r b, taller, call_free f d w))"

definition avl_tree_replace ::
    "bool \<Rightarrow> ('a, 'w) AVLTreeInfo \<Rightarrow> 'a \<Rightarrow> 'w \<Rightarrow> (int \<times> ('a, 'w) AVLTreeInfo \<times> 'w) option" where
  "avl_tree_replace malloc_ok tree d w = do {
     (success, t, taller, w) \<leftarrow>
       avl_tree_replace_loop (compare_func tree) (free_data_func tree) malloc_ok (root tree) d 0 w;
     Some (success, tree\<lparr>root := t\<rparr>, w)
   }"

section \<open>Searching\<close>

text \<open>
  \<open>avl_tree_find_loop\<close> returns a node or a null pointer; its caller reads the data of the node only. The other functions return a datum,
  which is a \<open>void *\<close>: \<open>null\<close> is the null pointer among the data.
\<close>

fun avl_tree_find_loop :: "('a \<Rightarrow> 'a \<Rightarrow> int) \<Rightarrow> 'a AVLTreeNode \<Rightarrow> 'a \<Rightarrow> 'a option option" where
  "avl_tree_find_loop cmp NULL target_data = None"
| "avl_tree_find_loop cmp (AVLTreeNode d l r b) target_data =
     (let nCompRes = cmp d target_data in
      if nCompRes > 0 then
        (if l = NULL then Some None else avl_tree_find_loop cmp l target_data)
      else if nCompRes < 0 then
        (if r = NULL then Some None else avl_tree_find_loop cmp r target_data)
      else Some (Some d))"

definition avl_tree_find :: "'a \<Rightarrow> ('a, 'w) AVLTreeInfo \<Rightarrow> 'a \<Rightarrow> 'a option" where
  "avl_tree_find null tree target_data =
     (if root tree = NULL then Some null
      else do {
        found \<leftarrow> avl_tree_find_loop (compare_func tree) (root tree) target_data;
        Some (case found of None \<Rightarrow> null | Some d \<Rightarrow> d)
      })"

fun avl_tree_find_ge_loop :: "'a \<Rightarrow> ('a \<Rightarrow> 'a \<Rightarrow> int) \<Rightarrow> 'a AVLTreeNode \<Rightarrow> 'a \<Rightarrow> 'a option" where
  "avl_tree_find_ge_loop null cmp NULL target_data = None"
| "avl_tree_find_ge_loop null cmp (AVLTreeNode d l r b) target_data =
     (let nCompRes = cmp d target_data in
      if nCompRes > 0 then
        (if l = NULL then Some d
         else do {
           found \<leftarrow> avl_tree_find_ge_loop null cmp l target_data;
           Some (if found \<noteq> null then found else d)
         })
      else if nCompRes < 0 then
        (if r = NULL then Some null else avl_tree_find_ge_loop null cmp r target_data)
      else Some d)"

definition avl_tree_find_ge :: "'a \<Rightarrow> ('a, 'w) AVLTreeInfo \<Rightarrow> 'a \<Rightarrow> 'a option" where
  "avl_tree_find_ge null tree target_data =
     (if root tree = NULL then Some null
      else avl_tree_find_ge_loop null (compare_func tree) (root tree) target_data)"

section \<open>Deletion\<close>

fun avlLeftBalanceWhenDelete :: "'a AVLTreeNode \<Rightarrow> int \<Rightarrow> ('a AVLTreeNode \<times> int) option" where
  "avlLeftBalanceWhenDelete (AVLTreeNode d (AVLTreeNode ld ll lr lb) r b) shorter =
     (if lb = -1 then do {
        t \<leftarrow> avlRotateRight (AVLTreeNode d (AVLTreeNode ld ll lr 0) r 0);
        Some (t, shorter)
      } else if lb = 0 then do {
        t \<leftarrow> avlRotateRight (AVLTreeNode d (AVLTreeNode ld ll lr 1) r b);
        Some (t, 0)
      } else if lb = 1 then (case lr of
        NULL \<Rightarrow> None
      | AVLTreeNode gd gl gr gb \<Rightarrow>
          (let (b', lb') = left_double_balance gb b lb in do {
             l' \<leftarrow> avlRotateLeft (AVLTreeNode ld ll (AVLTreeNode gd gl gr 0) lb');
             t \<leftarrow> avlRotateRight (AVLTreeNode d l' r b');
             Some (t, shorter)
           }))
      else Some (AVLTreeNode d (AVLTreeNode ld ll lr lb) r b, shorter))"
| "avlLeftBalanceWhenDelete _ shorter = None"

fun avlRightBalanceWhenDelete :: "'a AVLTreeNode \<Rightarrow> int \<Rightarrow> ('a AVLTreeNode \<times> int) option" where
  "avlRightBalanceWhenDelete (AVLTreeNode d l (AVLTreeNode rd rl rr rb) b) shorter =
     (if rb = 1 then do {
        t \<leftarrow> avlRotateLeft (AVLTreeNode d l (AVLTreeNode rd rl rr 0) 0);
        Some (t, shorter)
      } else if rb = 0 then do {
        t \<leftarrow> avlRotateLeft (AVLTreeNode d l (AVLTreeNode rd rl rr (-1)) b);
        Some (t, 0)
      } else if rb = -1 then (case rl of
        NULL \<Rightarrow> None
      | AVLTreeNode gd gl gr gb \<Rightarrow>
          (let (b', rb') = right_double_balance gb b rb in do {
             r' \<leftarrow> avlRotateRight (AVLTreeNode rd (AVLTreeNode gd gl gr 0) rr rb');
             t \<leftarrow> avlRotateLeft (AVLTreeNode d l r' b');
             Some (t, shorter)
           }))
      else Some (AVLTreeNode d l (AVLTreeNode rd rl rr rb) b, shorter))"
| "avlRightBalanceWhenDelete _ shorter = None"

definition delete_left_switch ::
    "'a \<Rightarrow> 'a AVLTreeNode \<Rightarrow> 'a AVLTreeNode \<Rightarrow> int \<Rightarrow> int \<Rightarrow> ('a AVLTreeNode \<times> int) option" where
  "delete_left_switch d l r b shorter =
     (if shorter \<noteq> 0 then
        (if b = -1 then Some (AVLTreeNode d l r 0, shorter)
         else if b = 0 then Some (AVLTreeNode d l r 1, 0)
         else if b = 1 then avlRightBalanceWhenDelete (AVLTreeNode d l r b) shorter
         else Some (AVLTreeNode d l r b, shorter))
      else Some (AVLTreeNode d l r b, shorter))"

definition delete_right_switch ::
    "'a \<Rightarrow> 'a AVLTreeNode \<Rightarrow> 'a AVLTreeNode \<Rightarrow> int \<Rightarrow> int \<Rightarrow> ('a AVLTreeNode \<times> int) option" where
  "delete_right_switch d l r b shorter =
     (if shorter \<noteq> 0 then
        (if b = -1 then avlLeftBalanceWhenDelete (AVLTreeNode d l r b) shorter
         else if b = 0 then Some (AVLTreeNode d l r (-1), 0)
         else if b = 1 then Some (AVLTreeNode d l r 0, shorter)
         else Some (AVLTreeNode d l r b, shorter))
      else Some (AVLTreeNode d l r b, shorter))"

text \<open>
  \<open>avl_tree_delete_loop\<close> has two modes. With \<open>pDeletedDataNode\<close> set it removes the greatest node
  of the subtree and stores that node's data in \<open>*pDeletedDataNode\<close>, an ancestor:
  \<open>delete_greatest_loop\<close> returns the data, and the caller, whose node is the ancestor, stores it.
  Without it, the node that compares equal to \<open>target_data\<close> is removed.
\<close>

fun delete_greatest_loop ::
    "'a AVLTreeNode \<Rightarrow> int \<Rightarrow> (int \<times> 'a \<times> 'a AVLTreeNode \<times> int) option" where
  "delete_greatest_loop NULL shorter = None"
| "delete_greatest_loop (AVLTreeNode d l r b) shorter =
     (if r = NULL then Some (1, d, l, 1)
      else do {
        (result, moved, r', shorter) \<leftarrow> delete_greatest_loop r shorter;
        (cur, shorter) \<leftarrow> delete_right_switch d l r' b shorter;
        Some (result, moved, cur, shorter)
      })"

fun avl_tree_delete_loop ::
    "('a \<Rightarrow> 'a \<Rightarrow> int) \<Rightarrow> ('a \<Rightarrow> 'w \<Rightarrow> 'w) option \<Rightarrow> 'a AVLTreeNode \<Rightarrow> 'a \<Rightarrow> int \<Rightarrow> 'w \<Rightarrow>
     (int \<times> 'a AVLTreeNode \<times> int \<times> 'w) option" where
  "avl_tree_delete_loop cmp f NULL target_data shorter w = None"
| "avl_tree_delete_loop cmp f (AVLTreeNode d l r b) target_data shorter w =
     (let nCompRes = cmp d target_data in
      if nCompRes > 0 then
        (if l = NULL then Some (0, AVLTreeNode d l r b, shorter, w)
         else do {
           (result, l', shorter, w) \<leftarrow> avl_tree_delete_loop cmp f l target_data shorter w;
           (cur, shorter) \<leftarrow> delete_left_switch d l' r b shorter;
           Some (result, cur, shorter, w)
         })
      else if nCompRes < 0 then
        (if r = NULL then Some (0, AVLTreeNode d l r b, shorter, w)
         else do {
           (result, r', shorter, w) \<leftarrow> avl_tree_delete_loop cmp f r target_data shorter w;
           (cur, shorter) \<leftarrow> delete_right_switch d l r' b shorter;
           Some (result, cur, shorter, w)
         })
      else
        (let w = call_free f d w in
         if l = NULL then Some (1, r, 1, w)
         else if r = NULL then Some (1, l, 1, w)
         else do {
           (result, moved, l', shorter) \<leftarrow> delete_greatest_loop l shorter;
           (cur, shorter) \<leftarrow> delete_left_switch moved l' r b shorter;
           Some (1, cur, shorter, w)
         }))"

definition avl_tree_delete ::
    "('a, 'w) AVLTreeInfo \<Rightarrow> 'a \<Rightarrow> 'w \<Rightarrow> (int \<times> ('a, 'w) AVLTreeInfo \<times> 'w) option" where
  "avl_tree_delete tree d w =
     (if root tree = NULL then Some (0, tree, w)
      else do {
        (result, t, shorter, w) \<leftarrow>
          avl_tree_delete_loop (compare_func tree) (free_data_func tree) (root tree) d 0 w;
        Some (result, tree\<lparr>root := t\<rparr>, w)
      })"

section \<open>Walking, counting, measuring\<close>

fun avl_tree_walk_loop ::
    "('a \<Rightarrow> 'w \<Rightarrow> int \<times> 'w) \<Rightarrow> 'a AVLTreeNode \<Rightarrow> 'w \<Rightarrow> (int \<times> 'w) option" where
  "avl_tree_walk_loop data_op NULL w = None"
| "avl_tree_walk_loop data_op (AVLTreeNode d l r b) w = do {
     (result, w) \<leftarrow> (if l \<noteq> NULL then avl_tree_walk_loop data_op l w else Some (0, w));
     if result \<noteq> 0 then Some (result, w)
     else (let (result, w) = data_op d w in
       if result \<noteq> 0 then Some (result, w)
       else if r \<noteq> NULL then avl_tree_walk_loop data_op r w
       else Some (result, w))
   }"

definition avl_tree_walk ::
    "('a, 'v) AVLTreeInfo \<Rightarrow> ('a \<Rightarrow> 'w \<Rightarrow> int \<times> 'w) \<Rightarrow> 'w \<Rightarrow> (int \<times> 'w) option" where
  "avl_tree_walk tree data_op w =
     (if root tree = NULL then Some (0, w) else avl_tree_walk_loop data_op (root tree) w)"

fun avl_tree_count_loop :: "'a AVLTreeNode \<Rightarrow> int \<Rightarrow> int option" where
  "avl_tree_count_loop NULL cnt = None"
| "avl_tree_count_loop (AVLTreeNode d l r b) cnt = do {
     cnt \<leftarrow> (if l \<noteq> NULL then avl_tree_count_loop l cnt else Some cnt);
     cnt \<leftarrow> cint (cnt + 1);
     if r \<noteq> NULL then avl_tree_count_loop r cnt else Some cnt
   }"

definition avl_tree_count :: "('a, 'w) AVLTreeInfo \<Rightarrow> int option" where
  "avl_tree_count tree = (if root tree = NULL then Some 0 else avl_tree_count_loop (root tree) 0)"

fun avl_tree_depth_while :: "'a AVLTreeNode \<Rightarrow> int \<Rightarrow> int" where
  "avl_tree_depth_while NULL depth = depth"
| "avl_tree_depth_while (AVLTreeNode d l r b) depth =
     avl_tree_depth_while (if b = -1 then l else r) (depth + 1)"

definition avl_tree_depth :: "('a, 'w) AVLTreeInfo \<Rightarrow> int" where
  "avl_tree_depth tree = (if root tree = NULL then 0 else avl_tree_depth_while (root tree) 0)"

section \<open>The balance invariant\<close>

fun inorder :: "'a AVLTreeNode \<Rightarrow> 'a list" where
  "inorder NULL = []"
| "inorder (AVLTreeNode d l r b) = inorder l @ d # inorder r"

fun height :: "'a AVLTreeNode \<Rightarrow> nat" where
  "height NULL = 0"
| "height (AVLTreeNode d l r b) = Suc (max (height l) (height r))"

fun avl :: "'a AVLTreeNode \<Rightarrow> bool" where
  "avl NULL \<longleftrightarrow> True"
| "avl (AVLTreeNode d l r b) \<longleftrightarrow>
     b = int (height r) - int (height l) \<and> -1 \<le> b \<and> b \<le> 1 \<and> avl l \<and> avl r"

lemma height_0_iff [simp]: "height t = 0 \<longleftrightarrow> t = NULL"
  by (cases t) auto

lemma inorder_Nil_iff [simp]: "inorder t = [] \<longleftrightarrow> t = NULL"
  by (cases t) auto

text \<open>What an insertion tells its caller: the subtree kept its height, or grew by one.\<close>

definition grown :: "nat \<Rightarrow> 'a AVLTreeNode \<Rightarrow> int \<Rightarrow> bool" where
  "grown h t taller \<longleftrightarrow>
     taller = 0 \<and> height t = h \<or>
     taller = 1 \<and> height t = Suc h \<and> (h = 0 \<or> (t \<noteq> NULL \<and> balance t \<noteq> 0))"

text \<open>What a deletion tells its caller: the subtree kept its height, or lost one.\<close>

definition shrunk :: "nat \<Rightarrow> 'a AVLTreeNode \<Rightarrow> int \<Rightarrow> bool" where
  "shrunk h t shorter \<longleftrightarrow>
     shorter = 0 \<and> height t = h \<or> shorter = 1 \<and> Suc (height t) = h"

lemmas balance_defs = left_double_balance_def right_double_balance_def
  insert_left_switch_def insert_right_switch_def delete_left_switch_def delete_right_switch_def

lemma avl_balanceE:
  assumes "avl (AVLTreeNode d l r b)"
  obtains (lh) "b = -1" "height l = Suc (height r)"
    | (eh) "b = 0" "height l = height r"
    | (rh) "b = 1" "height r = Suc (height l)"
  using assms by fastforce

lemma insert_left_switch_ok:
  assumes l': "avl l'" and r: "avl r" and g: "grown h l' taller"
    and b: "b = int (height r) - int h" "-1 \<le> b" "b \<le> 1"
  obtains t taller' where "insert_left_switch d l' r b taller = Some (t, taller')"
    and "avl t" and "inorder t = inorder l' @ d # inorder r"
    and "grown (Suc (max h (height r))) t taller'"
proof -
  have "\<exists>t taller'. insert_left_switch d l' r b taller = Some (t, taller') \<and>
      avl t \<and> inorder t = inorder l' @ d # inorder r \<and> grown (Suc (max h (height r))) t taller'"
  proof (cases "taller = 0 \<or> b \<noteq> -1")
    case True
    with assms show ?thesis
      by (auto simp: insert_left_switch_def grown_def max_def)
  next
    case False
    with g b have t1: "taller = 1" "height l' = Suc h" "b = -1" "h = Suc (height r)"
      by (auto simp: grown_def)
    with g obtain ld ll lr lb where L: "l' = AVLTreeNode ld ll lr lb" "lb \<noteq> 0"
      by (cases l') (auto simp: grown_def)
    with l' have "lb = -1 \<or> lb = 1" by auto
    then show ?thesis
    proof
      assume "lb = -1"
      with L l' r t1 show ?thesis
        by (auto simp: insert_left_switch_def grown_def)
    next
      assume lb: "lb = 1"
      with L l' t1 have "lr \<noteq> NULL" by auto
      then obtain gd gl gr gb where "lr = AVLTreeNode gd gl gr gb"
        by (cases lr) auto
      with lb L l' r t1 show ?thesis
        by (auto simp: insert_left_switch_def grown_def left_double_balance_def max_def split: if_splits)
    qed
  qed
  then show thesis using that by blast
qed

lemma insert_right_switch_ok:
  assumes l: "avl l" and r': "avl r'" and g: "grown h r' taller"
    and b: "b = int h - int (height l)" "-1 \<le> b" "b \<le> 1"
  obtains t taller' where "insert_right_switch d l r' b taller = Some (t, taller')"
    and "avl t" and "inorder t = inorder l @ d # inorder r'"
    and "grown (Suc (max (height l) h)) t taller'"
proof -
  have "\<exists>t taller'. insert_right_switch d l r' b taller = Some (t, taller') \<and>
      avl t \<and> inorder t = inorder l @ d # inorder r' \<and> grown (Suc (max (height l) h)) t taller'"
  proof (cases "taller = 0 \<or> b \<noteq> 1")
    case True
    with assms show ?thesis
      by (auto simp: insert_right_switch_def grown_def max_def)
  next
    case False
    with g b have t1: "taller = 1" "height r' = Suc h" "b = 1" "h = Suc (height l)"
      by (auto simp: grown_def)
    with g obtain dr rl rr br where R: "r' = AVLTreeNode dr rl rr br" "br \<noteq> 0"
      by (cases r') (auto simp: grown_def)
    with r' have "br = 1 \<or> br = -1" by auto
    then show ?thesis
    proof
      assume "br = 1"
      with R r' l t1 show ?thesis
        by (auto simp: insert_right_switch_def grown_def)
    next
      assume br: "br = -1"
      with R r' t1 have "rl \<noteq> NULL" by auto
      then obtain gd gl gr gb where "rl = AVLTreeNode gd gl gr gb"
        by (cases rl) auto
      with br R r' l t1 show ?thesis
        by (auto simp: insert_right_switch_def grown_def right_double_balance_def max_def
            split: if_splits)
    qed
  qed
  then show thesis using that by blast
qed

lemma delete_left_switch_ok:
  assumes l': "avl l'" and r: "avl r" and g: "shrunk h l' shorter"
    and b: "b = int (height r) - int h" "-1 \<le> b" "b \<le> 1"
  obtains t shorter' where "delete_left_switch d l' r b shorter = Some (t, shorter')"
    and "avl t" and "inorder t = inorder l' @ d # inorder r"
    and "shrunk (Suc (max h (height r))) t shorter'"
proof -
  have "\<exists>t shorter'. delete_left_switch d l' r b shorter = Some (t, shorter') \<and>
      avl t \<and> inorder t = inorder l' @ d # inorder r \<and> shrunk (Suc (max h (height r))) t shorter'"
  proof (cases "shorter = 0 \<or> b \<noteq> 1")
    case True
    with assms show ?thesis
      by (auto simp: delete_left_switch_def shrunk_def max_def)
  next
    case False
    with g b have t1: "shorter = 1" "h = Suc (height l')" "b = 1" "height r = Suc (Suc (height l'))"
      by (auto simp: shrunk_def)
    then obtain dr rl rr br where R: "r = AVLTreeNode dr rl rr br"
      by (cases r) auto
    with r have "br = 1 \<or> br = 0 \<or> br = -1" by auto
    then consider "br = 1 \<or> br = 0" | "br = -1" by blast
    then show ?thesis
    proof cases
      case 1
      with R r l' t1 show ?thesis
        by (auto simp: delete_left_switch_def shrunk_def max_def split: if_splits)
    next
      case 2
      with R r t1 have "rl \<noteq> NULL" by auto
      then obtain gd gl gr gb where "rl = AVLTreeNode gd gl gr gb"
        by (cases rl) auto
      with 2 R r l' t1 show ?thesis
        by (auto simp: delete_left_switch_def shrunk_def right_double_balance_def max_def
            split: if_splits)
    qed
  qed
  then show thesis using that by blast
qed

lemma delete_right_switch_ok:
  assumes l: "avl l" and r': "avl r'" and g: "shrunk h r' shorter"
    and b: "b = int h - int (height l)" "-1 \<le> b" "b \<le> 1"
  obtains t shorter' where "delete_right_switch d l r' b shorter = Some (t, shorter')"
    and "avl t" and "inorder t = inorder l @ d # inorder r'"
    and "shrunk (Suc (max (height l) h)) t shorter'"
proof -
  have "\<exists>t shorter'. delete_right_switch d l r' b shorter = Some (t, shorter') \<and>
      avl t \<and> inorder t = inorder l @ d # inorder r' \<and> shrunk (Suc (max (height l) h)) t shorter'"
  proof (cases "shorter = 0 \<or> b \<noteq> -1")
    case True
    with assms show ?thesis
      by (auto simp: delete_right_switch_def shrunk_def max_def)
  next
    case False
    with g b have t1: "shorter = 1" "h = Suc (height r')" "b = -1" "height l = Suc (Suc (height r'))"
      by (auto simp: shrunk_def)
    then obtain ld ll lr lb where L: "l = AVLTreeNode ld ll lr lb"
      by (cases l) auto
    with l have "lb = 1 \<or> lb = 0 \<or> lb = -1" by auto
    then consider "lb = -1 \<or> lb = 0" | "lb = 1" by blast
    then show ?thesis
    proof cases
      case 1
      with L l r' t1 show ?thesis
        by (auto simp: delete_right_switch_def shrunk_def max_def split: if_splits)
    next
      case 2
      with L l t1 have "lr \<noteq> NULL" by auto
      then obtain gd gl gr gb where "lr = AVLTreeNode gd gl gr gb"
        by (cases lr) auto
      with 2 L l r' t1 show ?thesis
        by (auto simp: delete_right_switch_def shrunk_def left_double_balance_def max_def
            split: if_splits)
    qed
  qed
  then show thesis using that by blast
qed

section \<open>The loops against the sorted lists\<close>

lemma ins_present:
  assumes "comparator cmp" "sorted_cmp cmp xs" "present cmp x xs"
  shows "ins_sorted cmp x xs = xs"
  using assms(2,3)
proof (induction xs)
  case (Cons y ys)
  then show ?case
    using comparator.not_present_right [OF assms(1), of y x ys]
    by (cases "cmp y x" "0::int" rule: linorder_cases) auto
qed simp

lemma insert_switch_idle [simp]:
  "insert_left_switch d l r b 0 = Some (AVLTreeNode d l r b, 0)"
  "insert_right_switch d l r b 0 = Some (AVLTreeNode d l r b, 0)"
  "delete_left_switch d l r b 0 = Some (AVLTreeNode d l r b, 0)"
  "delete_right_switch d l r b 0 = Some (AVLTreeNode d l r b, 0)"
  by (simp_all add: balance_defs)

lemma insert_loop_no_memory:
  "fst (the (avl_tree_insert_loop cmp False t x 0)) \<in> {0, - ENOMEM} \<and>
   avl_tree_insert_loop cmp False t x 0 =
     Some (fst (the (avl_tree_insert_loop cmp False t x 0)), t, 0)"
  by (induction t) (auto simp: createTreeNode_def Let_def bind_eq_Some_conv)

context comparator
begin

lemma ins_right:
  assumes "sorted_cmp cmp (ls @ d # rs)" "cmp d x < 0"
  shows "ins_sorted cmp x (ls @ d # rs) = ls @ d # ins_sorted cmp x rs"
    and "rep_sorted cmp x (ls @ d # rs) = ls @ d # rep_sorted cmp x rs"
    and "find_ge_sorted cmp x (ls @ d # rs) = find_ge_sorted cmp x rs"
  using assms left_less [of d x ls] by (simp_all add: ins_append_right)

lemma ins_here:
  assumes "sorted_cmp cmp (ls @ d # rs)" "cmp d x = 0"
  shows "ins_sorted cmp x (ls @ d # rs) = ls @ d # rs"
    and "rep_sorted cmp x (ls @ d # rs) = ls @ x # rs"
    and "find_ge_sorted cmp x (ls @ d # rs) = Some d"
  using assms left_less [of d x ls] by (simp_all add: ins_append_right)

lemma insert_loop_ok:
  assumes "avl t" "sorted_cmp cmp (inorder t)"
  shows "\<exists>t' taller.
    avl_tree_insert_loop cmp ok t x 0 =
      Some (if present cmp x (inorder t) then 0 else if ok then 1 else - ENOMEM, t', taller) \<and>
    avl t' \<and> grown (height t) t' taller \<and>
    inorder t' = (if ok then ins_sorted cmp x (inorder t) else inorder t)"
  using assms
proof (induction t)
  case NULL
  then show ?case by (simp add: createTreeNode_def grown_def)
next
  case (AVLTreeNode d l r b)
  let ?t = "AVLTreeNode d l r b"
  from AVLTreeNode.prems have s: "sorted_cmp cmp (inorder l @ d # inorder r)" by simp
  from AVLTreeNode.prems have b: "avl l" "avl r" "b = int (height r) - int (height l)" "-1 \<le> b" "b \<le> 1"
    by auto
  consider (lt) "0 < cmp d x" | (gt) "cmp d x < 0" | (eq) "cmp d x = 0" by linarith
  then show ?case
  proof cases
    case lt
    then have np: "\<not> present cmp x (inorder r)" "cmp d x \<noteq> 0"
      using s not_present_right [of d x "inorder r"] by auto
    obtain l' tl where IH: "avl_tree_insert_loop cmp ok l x 0 =
        Some (if present cmp x (inorder l) then 0 else if ok then 1 else - ENOMEM, l', tl)"
      "avl l'" "grown (height l) l' tl"
      "inorder l' = (if ok then ins_sorted cmp x (inorder l) else inorder l)"
      using AVLTreeNode.IH(1) b s by auto
    show ?thesis
      by (rule insert_left_switch_ok [OF IH(2) b(2) IH(3) b(3-5), of d])
        (use lt IH s np in \<open>auto simp: ins_append_left\<close>)
  next
    case gt
    then have np: "\<not> present cmp x (inorder l)" "cmp d x \<noteq> 0"
      using s not_present_left [of d x "inorder l"] by auto
    obtain r' tl where IH: "avl_tree_insert_loop cmp ok r x 0 =
        Some (if present cmp x (inorder r) then 0 else if ok then 1 else - ENOMEM, r', tl)"
      "avl r'" "grown (height r) r' tl"
      "inorder r' = (if ok then ins_sorted cmp x (inorder r) else inorder r)"
      using AVLTreeNode.IH(2) b s by auto
    show ?thesis
      by (rule insert_right_switch_ok [OF b(1) IH(2,3) b(3-5), of d])
        (use gt IH s np in \<open>auto simp: ins_right\<close>)
  next
    case eq
    with AVLTreeNode.prems s show ?thesis
      by (auto simp: ins_here grown_def)
  qed
qed

lemma replace_loop_ok:
  assumes "avl t" "sorted_cmp cmp (inorder t)"
  shows "\<exists>t' taller.
    avl_tree_replace_loop cmp f ok t x 0 w =
      Some (if present cmp x (inorder t) then 0 else if ok then 1 else - ENOMEM, t', taller,
        case find_sorted cmp x (inorder t) of None \<Rightarrow> w | Some old \<Rightarrow> call_free f old w) \<and>
    avl t' \<and> grown (height t) t' taller \<and>
    inorder t' = (if ok \<or> present cmp x (inorder t) then rep_sorted cmp x (inorder t) else inorder t)"
  using assms
proof (induction t)
  case NULL
  then show ?case by (simp add: createTreeNode_def grown_def)
next
  case (AVLTreeNode d l r b)
  from AVLTreeNode.prems have s: "sorted_cmp cmp (inorder l @ d # inorder r)" by simp
  from AVLTreeNode.prems have b: "avl l" "avl r" "b = int (height r) - int (height l)" "-1 \<le> b" "b \<le> 1"
    by auto
  consider (lt) "0 < cmp d x" | (gt) "cmp d x < 0" | (eq) "cmp d x = 0" by linarith
  then show ?case
  proof cases
    case lt
    then have np: "\<not> present cmp x (inorder r)" "cmp d x \<noteq> 0"
      using s not_present_right [of d x "inorder r"] by auto
    then have f: "find_sorted cmp x (inorder l @ d # inorder r) = find_sorted cmp x (inorder l)"
      using np by (simp add: find_append_left)
    obtain l' tl where IH: "avl_tree_replace_loop cmp f ok l x 0 w =
        Some (if present cmp x (inorder l) then 0 else if ok then 1 else - ENOMEM, l', tl,
          case find_sorted cmp x (inorder l) of None \<Rightarrow> w | Some old \<Rightarrow> call_free f old w)"
      "avl l'" "grown (height l) l' tl"
      "inorder l' = (if ok \<or> present cmp x (inorder l) then rep_sorted cmp x (inorder l) else inorder l)"
      using AVLTreeNode.IH(1) b s by auto
    show ?thesis
      by (rule insert_left_switch_ok [OF IH(2) b(2) IH(3) b(3-5), of d])
        (use lt IH s np f in \<open>auto simp: ins_append_left\<close>)
  next
    case gt
    then have np: "\<not> present cmp x (inorder l)" "cmp d x \<noteq> 0"
      using s not_present_left [of d x "inorder l"] by auto
    then have f: "find_sorted cmp x (inorder l @ d # inorder r) = find_sorted cmp x (inorder r)"
      using np by (simp add: find_append)
    obtain r' tl where IH: "avl_tree_replace_loop cmp f ok r x 0 w =
        Some (if present cmp x (inorder r) then 0 else if ok then 1 else - ENOMEM, r', tl,
          case find_sorted cmp x (inorder r) of None \<Rightarrow> w | Some old \<Rightarrow> call_free f old w)"
      "avl r'" "grown (height r) r' tl"
      "inorder r' = (if ok \<or> present cmp x (inorder r) then rep_sorted cmp x (inorder r) else inorder r)"
      using AVLTreeNode.IH(2) b s by auto
    show ?thesis
      by (rule insert_right_switch_ok [OF b(1) IH(2,3) b(3-5), of d])
        (use gt IH s np f in \<open>auto simp: ins_right\<close>)
  next
    case eq
    with AVLTreeNode.prems s not_present_left [of d x "inorder l"] show ?thesis
      by (auto simp: ins_here grown_def find_append)
  qed
qed

end

lemma delete_greatest_loop_ok:
  assumes "avl t" "t \<noteq> NULL"
  shows "\<exists>m t' s. delete_greatest_loop t 0 = Some (1, m, t', s) \<and>
    avl t' \<and> shrunk (height t) t' s \<and> inorder t = inorder t' @ [m]"
  using assms
proof (induction t)
  case NULL
  then show ?case by simp
next
  case (AVLTreeNode d l r b)
  from AVLTreeNode.prems have b: "avl l" "avl r" "b = int (height r) - int (height l)" "-1 \<le> b" "b \<le> 1"
    by auto
  show ?case
  proof (cases "r = NULL")
    case True
    with b show ?thesis by (auto simp: shrunk_def)
  next
    case False
    with AVLTreeNode.IH(2) b obtain m r' s where IH: "delete_greatest_loop r 0 = Some (1, m, r', s)"
      "avl r'" "shrunk (height r) r' s" "inorder r = inorder r' @ [m]"
      by blast
    show ?thesis
      by (rule delete_right_switch_ok [OF b(1) IH(2,3) b(3-5), of d]) (use False IH in auto)
  qed
qed

context comparator
begin

lemma delete_loop_ok:
  assumes "avl t" "t \<noteq> NULL" "sorted_cmp cmp (inorder t)"
  shows "\<exists>t' s.
    avl_tree_delete_loop cmp f t x 0 w =
      Some (if present cmp x (inorder t) then 1 else 0, t', s,
        case find_sorted cmp x (inorder t) of None \<Rightarrow> w | Some old \<Rightarrow> call_free f old w) \<and>
    avl t' \<and> shrunk (height t) t' s \<and> inorder t' = del_sorted cmp x (inorder t)"
  using assms
proof (induction t)
  case NULL
  then show ?case by simp
next
  case (AVLTreeNode d l r b)
  let ?w = "\<lambda>t. case find_sorted cmp x (inorder t) of None \<Rightarrow> w | Some old \<Rightarrow> call_free f old w"
  from AVLTreeNode.prems have s: "sorted_cmp cmp (inorder l @ d # inorder r)" by simp
  from AVLTreeNode.prems have b: "avl l" "avl r" "b = int (height r) - int (height l)" "-1 \<le> b" "b \<le> 1"
    by auto
  consider (lt) "0 < cmp d x" | (gt) "cmp d x < 0" | (eq) "cmp d x = 0" by linarith
  then show ?case
  proof cases
    case lt
    then have np: "\<not> present cmp x (inorder r)" "cmp d x \<noteq> 0"
      using s not_present_right [of d x "inorder r"] by auto
    then have f: "find_sorted cmp x (inorder l @ d # inorder r) = find_sorted cmp x (inorder l)"
      "del_sorted cmp x (inorder l @ d # inorder r) = del_sorted cmp x (inorder l) @ d # inorder r"
      by (cases "present cmp x (inorder l)";
          simp add: find_append_left del_append del_append_left del_not_present)+
    show ?thesis
    proof (cases "l = NULL")
      case True
      with lt np f AVLTreeNode.prems show ?thesis by (auto simp: shrunk_def)
    next
      case False
      then obtain l' sh where IH: "avl_tree_delete_loop cmp f l x 0 w =
          Some (if present cmp x (inorder l) then 1 else 0, l', sh, ?w l)"
        "avl l'" "shrunk (height l) l' sh" "inorder l' = del_sorted cmp x (inorder l)"
        using AVLTreeNode.IH(1) b s by auto
      show ?thesis
        by (rule delete_left_switch_ok [OF IH(2) b(2) IH(3) b(3-5), of d])
          (use lt IH s np f False in auto)
    qed
  next
    case gt
    then have np: "\<not> present cmp x (inorder l)" "cmp d x \<noteq> 0"
      using s not_present_left [of d x "inorder l"] by auto
    then have f: "find_sorted cmp x (inorder l @ d # inorder r) = find_sorted cmp x (inorder r)"
      "del_sorted cmp x (inorder l @ d # inorder r) = inorder l @ d # del_sorted cmp x (inorder r)"
      by (simp_all add: find_append del_append)
    show ?thesis
    proof (cases "r = NULL")
      case True
      with gt np f AVLTreeNode.prems show ?thesis by (auto simp: shrunk_def)
    next
      case False
      then obtain r' sh where IH: "avl_tree_delete_loop cmp f r x 0 w =
          Some (if present cmp x (inorder r) then 1 else 0, r', sh, ?w r)"
        "avl r'" "shrunk (height r) r' sh" "inorder r' = del_sorted cmp x (inorder r)"
        using AVLTreeNode.IH(2) b s by auto
      show ?thesis
        by (rule delete_right_switch_ok [OF b(1) IH(2,3) b(3-5), of d])
          (use gt IH s np f False in auto)
    qed
  next
    case eq
    then have np: "\<not> present cmp x (inorder l)" "\<not> present cmp x (inorder r)"
      using s not_present_left [of d x "inorder l"] not_present_beside [of d x "inorder r"] by auto
    with eq have f: "find_sorted cmp x (inorder l @ d # inorder r) = Some d"
      "del_sorted cmp x (inorder l @ d # inorder r) = inorder l @ inorder r"
      by (simp_all add: find_append del_append)
    show ?thesis
    proof (cases "l = NULL \<or> r = NULL")
      case True
      with eq f AVLTreeNode.prems show ?thesis
        by (cases "l = NULL") (auto simp: shrunk_def Let_def)
    next
      case False
      then obtain m l' sh where G: "delete_greatest_loop l 0 = Some (1, m, l', sh)"
        "avl l'" "shrunk (height l) l' sh" "inorder l = inorder l' @ [m]"
        using delete_greatest_loop_ok [OF b(1)] by blast
      show ?thesis
        by (rule delete_left_switch_ok [OF G(2) b(2) G(3) b(3-5), of m])
          (use eq G f False in auto)
    qed
  qed
qed

lemma find_ge_sorted_in: "find_ge_sorted cmp x xs = Some y \<Longrightarrow> y \<in> set xs"
  by (induction xs) (auto split: if_splits)

lemma find_loop_ok:
  assumes "t \<noteq> NULL" "sorted_cmp cmp (inorder t)"
  shows "avl_tree_find_loop cmp t x = Some (find_sorted cmp x (inorder t))"
  using assms
proof (induction t)
  case NULL
  then show ?case by simp
next
  case (AVLTreeNode d l r b)
  then have s: "sorted_cmp cmp (inorder l @ d # inorder r)" by simp
  consider (lt) "0 < cmp d x" | (gt) "cmp d x < 0" | (eq) "cmp d x = 0" by linarith
  then show ?case
  proof cases
    case lt
    then have "\<not> present cmp x (d # inorder r)"
      using s not_present_right [of d x "inorder r"] by auto
    with lt AVLTreeNode s show ?thesis
      by (auto simp: find_append_left)
  next
    case gt
    then have "\<not> present cmp x (inorder l)"
      using s not_present_left [of d x "inorder l"] by auto
    with gt AVLTreeNode s show ?thesis
      by (auto simp: find_append)
  next
    case eq
    then have "\<not> present cmp x (inorder l)"
      using s not_present_left [of d x "inorder l"] by auto
    with eq show ?thesis by (simp add: find_append)
  qed
qed

lemma find_ge_loop_ok:
  assumes "t \<noteq> NULL" "sorted_cmp cmp (inorder t)" "null \<notin> set (inorder t)"
  shows "avl_tree_find_ge_loop null cmp t x =
    Some (case find_ge_sorted cmp x (inorder t) of None \<Rightarrow> null | Some y \<Rightarrow> y)"
  using assms
proof (induction t)
  case NULL
  then show ?case by simp
next
  case (AVLTreeNode d l r b)
  then have s: "sorted_cmp cmp (inorder l @ d # inorder r)" by simp
  consider (lt) "0 < cmp d x" | (gt) "cmp d x < 0" | (eq) "cmp d x = 0" by linarith
  then show ?case
  proof cases
    case lt
    have "y \<in> set (inorder l)" if "find_ge_sorted cmp x (inorder l) = Some y" for y
      using that by (rule find_ge_sorted_in)
    with lt AVLTreeNode s show ?thesis
      by (auto simp: find_ge_append_left split: option.splits)
  next
    case gt
    with AVLTreeNode s show ?thesis
      by (auto simp: ins_right)
  next
    case eq
    with s show ?thesis by (simp add: ins_here)
  qed
qed

end

section \<open>Walking, counting, destroying\<close>

fun walk_list :: "('a \<Rightarrow> 'w \<Rightarrow> int \<times> 'w) \<Rightarrow> 'a list \<Rightarrow> 'w \<Rightarrow> int \<times> 'w" where
  "walk_list op [] w = (0, w)"
| "walk_list op (x # xs) w =
     (let (result, w') = op x w in if result \<noteq> 0 then (result, w') else walk_list op xs w')"

lemma walk_list_append:
  "walk_list op (xs @ ys) w =
     (let (result, w') = walk_list op xs w in if result \<noteq> 0 then (result, w') else walk_list op ys w')"
  by (induction xs arbitrary: w) (auto simp: Let_def split: prod.splits)

lemma walk_loop_ok: "t \<noteq> NULL \<Longrightarrow> avl_tree_walk_loop op t w = Some (walk_list op (inorder t) w)"
proof (induction t arbitrary: w)
  case (AVLTreeNode d l r b)
  then show ?case
    by (cases "l = NULL"; cases "r = NULL")
      (auto simp: walk_list_append Let_def split: prod.splits)
qed simp

lemma count_loop_ok:
  "t \<noteq> NULL \<Longrightarrow> 0 \<le> cnt \<Longrightarrow> cnt + int (length (inorder t)) \<le> INT_MAX \<Longrightarrow>
   avl_tree_count_loop t cnt = Some (cnt + int (length (inorder t)))"
proof (induction t arbitrary: cnt)
  case (AVLTreeNode d l r b)
  then show ?case
    by (cases "l = NULL"; cases "r = NULL") (auto simp: INT_MIN_def)
qed simp

lemma depth_while_ok: "avl t \<Longrightarrow> avl_tree_depth_while t n = n + int (height t)"
  by (induction t n rule: avl_tree_depth_while.induct) auto

fun postorder :: "'a AVLTreeNode \<Rightarrow> 'a list" where
  "postorder NULL = []"
| "postorder (AVLTreeNode d l r b) = postorder l @ postorder r @ [d]"

lemma mset_postorder: "mset (postorder t) = mset (inorder t)"
  by (induction t) auto

lemma destroy_loop_ok:
  "t \<noteq> NULL \<Longrightarrow> avl_tree_destroy_loop f t w = Some (fold (call_free f) (postorder t) w)"
proof (induction t arbitrary: w)
  case (AVLTreeNode d l r b)
  then show ?case
    by (cases "l = NULL"; cases "r = NULL") auto
qed simp

text \<open>The number of nodes is exponential in the height, so every search is logarithmic.\<close>

lemma avl_height_size: "avl t \<Longrightarrow> 2 ^ (height t div 2) \<le> Suc (length (inorder t))"
proof (induction t)
  case (AVLTreeNode d l r b)
  let ?m = "min (height l) (height r)"
  have h: "height (AVLTreeNode d l r b) \<le> ?m + 2"
    using AVLTreeNode.prems by auto
  have "2 ^ (height (AVLTreeNode d l r b) div 2) \<le> (2::nat) ^ Suc (?m div 2)"
    using h by (intro power_increasing) auto
  also have "\<dots> = 2 ^ (?m div 2) + 2 ^ (?m div 2)" by simp
  also have "\<dots> \<le> 2 ^ (height l div 2) + 2 ^ (height r div 2)"
    by (intro add_mono power_increasing div_le_mono) auto
  also have "\<dots> \<le> Suc (length (inorder l)) + Suc (length (inorder r))"
    using AVLTreeNode by (intro add_mono) auto
  finally show ?case by simp
qed simp

section \<open>The operations on the tree structure\<close>

definition avl_elems :: "('a, 'w) AVLTreeInfo \<Rightarrow> 'a list" where
  "avl_elems tree = inorder (root tree)"

definition avl_tree_inv :: "('a, 'w) AVLTreeInfo \<Rightarrow> bool" where
  "avl_tree_inv tree \<longleftrightarrow> avl (root tree) \<and> sorted_cmp (compare_func tree) (avl_elems tree)"

lemmas avl_tree_defs = avl_elems_def avl_tree_inv_def avl_tree_insert_def avl_tree_replace_def
  avl_tree_delete_def avl_tree_find_def avl_tree_find_ge_def

lemma avl_tree_inv_init [simp]: "avl_tree_inv (avl_tree_init f cmp)" "avl_elems (avl_tree_init f cmp) = []"
  by (simp_all add: avl_tree_inv_def avl_elems_def avl_tree_init_def)

lemma avl_tree_insert_ok:
  assumes "comparator (compare_func tree)" and "avl_tree_inv tree"
  shows "\<exists>tree'. avl_tree_insert malloc_ok tree x =
      Some (if present (compare_func tree) x (avl_elems tree) then 0
            else if malloc_ok then 1 else - ENOMEM, tree') \<and>
    avl_tree_inv tree' \<and> compare_func tree' = compare_func tree \<and>
    free_data_func tree' = free_data_func tree \<and>
    (malloc_ok \<longrightarrow> avl_elems tree' = ins_sorted (compare_func tree) x (avl_elems tree)) \<and>
    (\<not> malloc_ok \<longrightarrow> tree' = tree)"
proof -
  obtain t tl where "avl_tree_insert_loop (compare_func tree) malloc_ok (root tree) x 0 =
      Some (if present (compare_func tree) x (inorder (root tree)) then 0
            else if malloc_ok then 1 else - ENOMEM, t, tl)" "avl t"
    "inorder t = (if malloc_ok then ins_sorted (compare_func tree) x (inorder (root tree))
                  else inorder (root tree))"
    using comparator.insert_loop_ok [OF assms(1)] assms(2) by (metis avl_tree_defs(1,2))
  moreover have "t = root tree" if "\<not> malloc_ok"
    using insert_loop_no_memory [of "compare_func tree" "root tree" x] calculation(1) that by auto
  ultimately show ?thesis
    using assms(2) comparator.sorted_ins_sorted [OF assms(1)] by (auto simp: avl_tree_defs)
qed

text \<open>
  C13: Insertion. On a balanced tree in the order of its comparison callback the insertion never
  dereferences a null pointer; it returns 1 and adds the element when it was not there, returns
  0 and changes nothing when an equal one was, and returns \<open>-ENOMEM\<close> and changes nothing when
  the node cannot be allocated; balance and order are kept in every case.
\<close>

theorem avl_tree_insert_correct:
  assumes "comparator (compare_func tree)" and "avl_tree_inv tree"
  shows "\<exists>tree'. avl_tree_insert malloc_ok tree x =
      Some (if present (compare_func tree) x (avl_elems tree) then 0
            else if malloc_ok then 1 else - ENOMEM, tree') \<and>
    avl_tree_inv tree' \<and> compare_func tree' = compare_func tree \<and>
    free_data_func tree' = free_data_func tree \<and>
    (malloc_ok \<longrightarrow> avl_elems tree' = ins_sorted (compare_func tree) x (avl_elems tree)) \<and>
    (\<not> malloc_ok \<longrightarrow> tree' = tree)"
  using assms by (rule avl_tree_insert_ok)

theorem avl_tree_insert_correct_witness:
  "\<exists>tree'. avl_tree_insert True (avl_tree_init None (\<lambda>x y. x - y) :: (int, unit) AVLTreeInfo) 7 =
     Some (1, tree') \<and> avl_elems tree' = [7]"
  using avl_tree_insert_correct [of "avl_tree_init None (\<lambda>x y. x - y) :: (int, unit) AVLTreeInfo" True 7]
    comparator_int
  by (auto simp: avl_tree_init_def avl_tree_inv_def avl_elems_def)

text \<open>
  Replacement. As insertion, but an element that compares equal is handed to the free
  callback exactly once and the new one takes its place; nothing is freed otherwise.
\<close>

lemma avl_tree_replace_ok:
  assumes "comparator (compare_func tree)" and "avl_tree_inv tree"
  shows "\<exists>tree'. avl_tree_replace malloc_ok tree x w =
      Some (if present (compare_func tree) x (avl_elems tree) then 0
            else if malloc_ok then 1 else - ENOMEM, tree',
            case find_sorted (compare_func tree) x (avl_elems tree) of
              None \<Rightarrow> w | Some old \<Rightarrow> call_free (free_data_func tree) old w) \<and>
    avl_tree_inv tree' \<and> compare_func tree' = compare_func tree \<and>
    free_data_func tree' = free_data_func tree \<and>
    avl_elems tree' =
      (if malloc_ok \<or> present (compare_func tree) x (avl_elems tree)
       then rep_sorted (compare_func tree) x (avl_elems tree) else avl_elems tree)"
  using comparator.replace_loop_ok [OF assms(1), of "root tree" "free_data_func tree" malloc_ok x w]
    comparator.sorted_rep_sorted [OF assms(1)] assms(2)
  by (auto simp: avl_tree_defs)

lemma avl_tree_delete_ok:
  assumes "comparator (compare_func tree)" and "avl_tree_inv tree"
  shows "\<exists>tree'. avl_tree_delete tree x w =
      Some (if present (compare_func tree) x (avl_elems tree) then 1 else 0, tree',
            case find_sorted (compare_func tree) x (avl_elems tree) of
              None \<Rightarrow> w | Some old \<Rightarrow> call_free (free_data_func tree) old w) \<and>
    avl_tree_inv tree' \<and> compare_func tree' = compare_func tree \<and>
    free_data_func tree' = free_data_func tree \<and>
    avl_elems tree' = del_sorted (compare_func tree) x (avl_elems tree)"
proof (cases "root tree = NULL")
  case True
  with assms show ?thesis by (auto simp: avl_tree_defs)
next
  case False
  then show ?thesis
    using comparator.delete_loop_ok [OF assms(1), of "root tree" "free_data_func tree" x w]
      comparator.sorted_del_sorted [OF assms(1)] assms(2)
    by (auto simp: avl_tree_defs)
qed

text \<open>
  C14: Deletion. On a balanced, ordered tree the deletion never dereferences a null pointer,
  returns whether an equal element was there, hands exactly that element to the free callback,
  removes exactly it, and keeps balance and order.
\<close>

theorem avl_tree_delete_correct:
  assumes "comparator (compare_func tree)" and "avl_tree_inv tree"
  shows "\<exists>tree'. avl_tree_delete tree x w =
      Some (if present (compare_func tree) x (avl_elems tree) then 1 else 0, tree',
            case find_sorted (compare_func tree) x (avl_elems tree) of
              None \<Rightarrow> w | Some old \<Rightarrow> call_free (free_data_func tree) old w) \<and>
    avl_tree_inv tree' \<and> compare_func tree' = compare_func tree \<and>
    avl_elems tree' = del_sorted (compare_func tree) x (avl_elems tree)"
  using avl_tree_delete_ok [OF assms] by blast

definition avl_example :: "(int, int list) AVLTreeInfo" where
  "avl_example =
     \<lparr>root = AVLTreeNode 4 (AVLTreeNode 2 NULL (AVLTreeNode 3 NULL NULL 0) 1)
                           (AVLTreeNode 8 NULL NULL 0) (-1),
      free_data_func = Some (#), compare_func = (\<lambda>x y. x - y)\<rparr>"

lemma avl_example_simps [simp]:
  "compare_func avl_example = (\<lambda>x y. x - y)" "free_data_func avl_example = Some (#)"
  "avl_elems avl_example = [2, 3, 4, 8]" "avl_tree_inv avl_example"
  by (simp_all add: avl_example_def avl_tree_inv_def avl_elems_def)

theorem avl_tree_delete_correct_witness:
  "\<exists>tree'. avl_tree_delete avl_example 4 [] = Some (1, tree', [4]) \<and> avl_elems tree' = [2, 3, 8]"
  using avl_tree_delete_correct [of avl_example 4 "[]"] comparator_int
  by (auto simp: call_free_def)

lemma find_sorted_Some: "find_sorted cmp x xs = Some y \<Longrightarrow> y \<in> set xs \<and> cmp y x = 0"
  by (induction xs) (auto split: if_splits)

lemma find_sorted_None: "find_sorted cmp x xs = None \<longleftrightarrow> (\<forall>y \<in> set xs. cmp y x \<noteq> 0)"
  by (induction xs) auto

lemma find_ge_sorted_None: "find_ge_sorted cmp x xs = None \<longleftrightarrow> (\<forall>y \<in> set xs. cmp y x < 0)"
  by (induction xs) auto

lemma find_ge_sorted_Some:
  "sorted_cmp cmp xs \<Longrightarrow> find_ge_sorted cmp x xs = Some y \<Longrightarrow>
   y \<in> set xs \<and> 0 \<le> cmp y x \<and> (\<forall>z \<in> set xs. cmp z x < 0 \<or> z = y \<or> cmp y z < 0)"
  by (induction xs) (auto split: if_splits)

lemma find_ge_loop_total: "t \<noteq> NULL \<Longrightarrow> \<exists>found. avl_tree_find_ge_loop null cmp t x = Some found"
  by (induction t) (auto simp: Let_def)

text \<open>
  C15: Lookup, in a tree that holds no null pointer as a datum. \<open>avl_tree_find\<close> returns a stored element that compares equal to the
  target, or NULL exactly when there is none; \<open>avl_tree_find_ge\<close> returns the least stored element that is not below the target, or NULL
  exactly when every stored element is below it. (A stored null pointer cannot be told from a miss, as the last statement shows for
  \<open>avl_tree_find\<close>: without the condition the result is NULL or an equal element.)
\<close>

theorem avl_tree_find_correct:
  assumes "comparator (compare_func tree)" and "avl_tree_inv tree"
  shows "\<exists>found found_ge. avl_tree_find null tree x = Some found \<and> avl_tree_find_ge null tree x = Some found_ge \<and>
    (null \<notin> set (avl_elems tree) \<longrightarrow>
      (if found = null then \<forall>y \<in> set (avl_elems tree). compare_func tree y x \<noteq> 0
       else found \<in> set (avl_elems tree) \<and> compare_func tree found x = 0) \<and>
      (if found_ge = null then \<forall>y \<in> set (avl_elems tree). compare_func tree y x < 0
       else found_ge \<in> set (avl_elems tree) \<and> 0 \<le> compare_func tree found_ge x \<and>
         (\<forall>z \<in> set (avl_elems tree). compare_func tree z x < 0 \<or> z = found_ge \<or> compare_func tree found_ge z < 0))) \<and>
    (found = null \<or> found \<in> set (avl_elems tree) \<and> compare_func tree found x = 0)"
proof -
  let ?find = "find_sorted (compare_func tree) x (avl_elems tree)"
  let ?ge = "find_ge_sorted (compare_func tree) x (avl_elems tree)"
  have s: "sorted_cmp (compare_func tree) (avl_elems tree)"
    using assms(2) by (simp add: avl_tree_inv_def)
  have f: "avl_tree_find null tree x = Some (case ?find of None \<Rightarrow> null | Some y \<Rightarrow> y)"
    using comparator.find_loop_ok [OF assms(1)] s
    by (auto simp: avl_tree_find_def avl_elems_def)
  have e: "?find = None \<longleftrightarrow> (\<forall>y \<in> set (avl_elems tree). compare_func tree y x \<noteq> 0)"
    "?find = Some y \<Longrightarrow> y \<in> set (avl_elems tree) \<and> compare_func tree y x = 0" for y
    by (simp_all add: find_sorted_None find_sorted_Some)
  obtain g where g: "avl_tree_find_ge null tree x = Some g"
    using find_ge_loop_total [of "root tree" null "compare_func tree" x]
    by (cases "root tree = NULL") (auto simp: avl_tree_find_ge_def)
  show ?thesis
  proof (cases "null \<in> set (avl_elems tree)")
    case True
    then show ?thesis using f g e(2) by (cases ?find) auto
  next
    case False
    then have "g = (case ?ge of None \<Rightarrow> null | Some y \<Rightarrow> y)"
      using comparator.find_ge_loop_ok [OF assms(1), of "root tree" null x] s g
      by (auto simp: avl_tree_find_ge_def avl_elems_def split: if_splits)
    moreover have "?ge = None \<longleftrightarrow> (\<forall>y \<in> set (avl_elems tree). compare_func tree y x < 0)"
      "?ge = Some y \<Longrightarrow> y \<in> set (avl_elems tree) \<and> 0 \<le> compare_func tree y x \<and>
         (\<forall>z \<in> set (avl_elems tree). compare_func tree z x < 0 \<or> z = y \<or> compare_func tree y z < 0)" for y
      using find_ge_sorted_Some [OF s] by (simp_all add: find_ge_sorted_None)
    ultimately show ?thesis using f g e False by (cases ?find; cases ?ge) auto
  qed
qed

theorem avl_tree_find_correct_witness:
  "avl_tree_find 0 avl_example 5 = Some 0 \<and> avl_tree_find_ge 0 avl_example 5 = Some 8"
  using avl_tree_find_correct [of avl_example 0 5] comparator_int
  by (auto split: if_splits)

text \<open>
  C16: Balance makes every path short: on a balanced tree \<open>avl_tree_depth\<close>, which follows the
  balance factors down from the root, returns the true height, and the number of elements is
  exponential in half of it.
\<close>

theorem avl_tree_depth_logarithmic:
  assumes "avl_tree_inv tree"
  shows "avl_tree_depth tree = int (height (root tree)) \<and>
    2 ^ (nat (avl_tree_depth tree) div 2) \<le> Suc (length (avl_elems tree))"
  using assms avl_height_size [of "root tree"]
  by (auto simp: avl_tree_depth_def avl_tree_inv_def avl_elems_def depth_while_ok)

theorem avl_tree_depth_logarithmic_witness:
  "avl_tree_depth avl_example = 3 \<and> (2::nat) ^ 1 \<le> Suc 4"
proof -
  have "avl_tree_depth avl_example = int (height (root avl_example))"
    using avl_tree_depth_logarithmic [of avl_example] by simp
  then show ?thesis by (simp add: avl_example_def)
qed

text \<open>
  Traversal. The walk calls the callback on the elements in ascending order and stops at
  the first non-zero result, which it returns; counting gives the number of elements while it
  fits an \<open>int\<close>; destroying the tree hands every element to the free callback exactly once and
  leaves it empty.
\<close>

theorem avl_tree_traversals:
  assumes "int (length (avl_elems tree)) \<le> INT_MAX"
  shows "avl_tree_walk tree data_op w = Some (walk_list data_op (avl_elems tree) w) \<and>
    avl_tree_count tree = Some (int (length (avl_elems tree))) \<and>
    (\<exists>order. mset order = mset (avl_elems tree) \<and>
      avl_tree_destroy tree w' =
        Some (tree\<lparr>root := NULL\<rparr>, fold (call_free (free_data_func tree)) order w'))"
proof (intro conjI exI)
  show "avl_tree_walk tree data_op w = Some (walk_list data_op (avl_elems tree) w)"
    by (auto simp: avl_tree_walk_def avl_elems_def walk_loop_ok)
  show "avl_tree_count tree = Some (int (length (avl_elems tree)))"
    using assms by (auto simp: avl_tree_count_def avl_elems_def count_loop_ok)
  show "mset (postorder (root tree)) = mset (avl_elems tree)"
    by (simp add: avl_elems_def mset_postorder)
  show "avl_tree_destroy tree w' =
      Some (tree\<lparr>root := NULL\<rparr>, fold (call_free (free_data_func tree)) (postorder (root tree)) w')"
    by (cases "root tree = NULL") (auto simp: avl_tree_destroy_def destroy_loop_ok)
qed

theorem avl_tree_traversals_witness:
  "avl_tree_count avl_example = Some 4"
  using avl_tree_traversals [of avl_example "\<lambda>_ w. (0, w)" "()" "[]"] by (simp add: INT_MAX_def)

section \<open>Histories of a tree\<close>

text \<open>The operations of a client; those that may call \<open>malloc\<close> come with the outcome of the call.\<close>

datatype 'a avl_op = AvlInsert 'a bool | AvlReplace 'a bool | AvlDelete 'a

fun avl_step :: "'a avl_op \<Rightarrow> ('a, 'w) AVLTreeInfo \<times> 'w \<Rightarrow> (int \<times> ('a, 'w) AVLTreeInfo \<times> 'w) option" where
  "avl_step (AvlInsert x malloc_ok) (tree, w) = do { (r, tree) \<leftarrow> avl_tree_insert malloc_ok tree x; Some (r, tree, w) }"
| "avl_step (AvlReplace x malloc_ok) (tree, w) = avl_tree_replace malloc_ok tree x w"
| "avl_step (AvlDelete x) (tree, w) = avl_tree_delete tree x w"

text \<open>The result, the sorted list of the elements and the state of the callbacks, as they have to be.\<close>

fun avl_spec :: "('a \<Rightarrow> 'a \<Rightarrow> int) \<Rightarrow> ('a \<Rightarrow> 'w \<Rightarrow> 'w) option \<Rightarrow> 'a avl_op \<Rightarrow> 'a list \<times> 'w \<Rightarrow> int \<times> 'a list \<times> 'w" where
  "avl_spec cmp f (AvlInsert x malloc_ok) (xs, w) =
     (if present cmp x xs then (0, xs, w) else if malloc_ok then (1, ins_sorted cmp x xs, w) else (- ENOMEM, xs, w))"
| "avl_spec cmp f (AvlReplace x malloc_ok) (xs, w) =
     (case find_sorted cmp x xs of
        Some old \<Rightarrow> (0, rep_sorted cmp x xs, call_free f old w)
      | None \<Rightarrow> if malloc_ok then (1, rep_sorted cmp x xs, w) else (- ENOMEM, xs, w))"
| "avl_spec cmp f (AvlDelete x) (xs, w) =
     (case find_sorted cmp x xs of
        Some old \<Rightarrow> (1, del_sorted cmp x xs, call_free f old w)
      | None \<Rightarrow> (0, xs, w))"

definition avl_good :: "('a \<Rightarrow> 'a \<Rightarrow> int) \<Rightarrow> ('a \<Rightarrow> 'w \<Rightarrow> 'w) option \<Rightarrow> ('a, 'w) AVLTreeInfo \<times> 'w \<Rightarrow> bool" where
  "avl_good cmp f s \<longleftrightarrow> comparator cmp \<and> avl_tree_inv (fst s) \<and> compare_func (fst s) = cmp \<and> free_data_func (fst s) = f"

definition avl_view :: "('a, 'w) AVLTreeInfo \<times> 'w \<Rightarrow> 'a list \<times> 'w" where
  "avl_view s = (avl_elems (fst s), snd s)"

lemma ins_sorted_present: "comparator cmp \<Longrightarrow> sorted_cmp cmp xs \<Longrightarrow> present cmp x xs \<Longrightarrow> ins_sorted cmp x xs = xs"
proof (induction xs)
  case (Cons y ys)
  have "\<not> present cmp x ys" if "0 < cmp y x"
    using comparator.not_present_right [OF Cons.prems(1) that] Cons.prems(2) by simp
  then show ?case using Cons by (cases "0 < cmp y x") auto
qed simp

lemma avl_step_ok:
  assumes "avl_good cmp f s"
  shows "\<exists>r s'. avl_step op s = Some (r, s') \<and> avl_good cmp f s' \<and> (r, avl_view s') = avl_spec cmp f op (avl_view s)"
proof -
  obtain tree w where s: "s = (tree, w)" by (cases s)
  have g: "comparator (compare_func tree)" "avl_tree_inv tree" "compare_func tree = cmp" "free_data_func tree = f"
    using assms by (auto simp: avl_good_def s)
  have srt: "sorted_cmp cmp (avl_elems tree)" using g by (simp add: avl_tree_inv_def)
  have p: "present cmp x (avl_elems tree) \<longleftrightarrow> find_sorted cmp x (avl_elems tree) \<noteq> None" for x by (rule present_iff_find)
  have c: "comparator cmp" using g by simp
  show ?thesis
  proof (cases op)
    case (AvlInsert x ok)
    from avl_tree_insert_ok [OF g(1,2), of ok x, unfolded g(3,4)] obtain tree' where
      "avl_tree_insert ok tree x = Some (if present cmp x (avl_elems tree) then 0 else if ok then 1 else - ENOMEM, tree')"
      "avl_tree_inv tree'" "compare_func tree' = cmp" "free_data_func tree' = f"
      "ok \<Longrightarrow> avl_elems tree' = ins_sorted cmp x (avl_elems tree)" "\<not> ok \<Longrightarrow> tree' = tree"
      by blast
    then show ?thesis using ins_sorted_present [OF c srt, of x] c
      by (cases ok) (auto simp: s AvlInsert avl_good_def avl_view_def)
  next
    case (AvlReplace x ok)
    from avl_tree_replace_ok [OF g(1,2), of ok x w, unfolded g(3,4)] obtain tree' where
      "avl_tree_replace ok tree x w = Some (if present cmp x (avl_elems tree) then 0 else if ok then 1 else - ENOMEM, tree',
          case find_sorted cmp x (avl_elems tree) of None \<Rightarrow> w | Some old \<Rightarrow> call_free f old w)"
      "avl_tree_inv tree'" "compare_func tree' = cmp" "free_data_func tree' = f"
      "avl_elems tree' = (if ok \<or> present cmp x (avl_elems tree) then rep_sorted cmp x (avl_elems tree) else avl_elems tree)"
      by blast
    then show ?thesis using p [of x] c
      by (auto simp: s AvlReplace avl_good_def avl_view_def split: option.splits)
  next
    case (AvlDelete x)
    from avl_tree_delete_ok [OF g(1,2), of x w, unfolded g(3,4)] obtain tree' where
      "avl_tree_delete tree x w = Some (if present cmp x (avl_elems tree) then 1 else 0, tree',
          case find_sorted cmp x (avl_elems tree) of None \<Rightarrow> w | Some old \<Rightarrow> call_free f old w)"
      "avl_tree_inv tree'" "compare_func tree' = cmp" "free_data_func tree' = f"
      "avl_elems tree' = del_sorted cmp x (avl_elems tree)"
      by blast
    then show ?thesis using p [of x] comparator.del_not_present [OF c, of x "avl_elems tree"] c
      by (auto simp: s AvlDelete avl_good_def avl_view_def split: option.splits)
  qed
qed

interpretation avl: store avl_step "avl_good cmp f" "\<lambda>_. True" avl_view "\<lambda>op r m m'. (r, m') = avl_spec cmp f op m"
  by unfold_locales (rule avl_step_ok)

text \<open>
  C3: Histories. Whatever sequence of insertions, replacements and deletions runs on a freshly initialised
  tree, and whichever of their \<open>malloc\<close> calls fail, no call dereferences a null pointer, the tree stays balanced and ordered, and every
  result, the elements and the data given to the free callback are those the reference operations compute on a sorted list: an operation
  whose \<open>malloc\<close> fails returns \<open>-ENOMEM\<close> and changes nothing.
\<close>

theorem avl_tree_history:
  fixes free_func :: "('a \<Rightarrow> 'w \<Rightarrow> 'w) option"
  assumes "comparator cmp"
  shows "\<exists>rs tree w'. run_history avl_step ops (avl_tree_init free_func cmp, w) = Some (rs, tree, w') \<and> avl_tree_inv tree \<and>
    spec_run (\<lambda>op r m m'. (r, m') = avl_spec cmp free_func op m) ops rs ([], w) (avl_elems tree, w')"
proof -
  have "avl_good cmp free_func (avl_tree_init free_func cmp, w)"
    using assms by (simp add: avl_good_def) (simp add: avl_tree_init_def)
  from avl.run_refines [OF this, of ops] show ?thesis by (auto simp: avl_good_def avl_view_def)
qed

theorem avl_tree_history_witness:
  "\<exists>rs tree w'. run_history avl_step [AvlInsert 1 True, AvlInsert 2 True, AvlInsert 5 False, AvlInsert 3 True, AvlDelete 2]
      (avl_tree_init (Some (#)) (\<lambda>x y. x - y) :: (int, int list) AVLTreeInfo, []) = Some (rs, tree, w') \<and>
    rs = [1, 1, - ENOMEM, 1, 1] \<and> avl_elems tree = [1, 3] \<and> w' = [2]"
proof -
  let ?ops = "[AvlInsert 1 True, AvlInsert 2 True, AvlInsert 5 False, AvlInsert 3 True, AvlDelete 2] :: int avl_op list"
  obtain rs tree w' where r: "run_history avl_step ?ops (avl_tree_init (Some (#)) (\<lambda>x y. x - y), []) = Some (rs, tree, w')"
    and s: "spec_run (\<lambda>op r m m'. (r, m') = avl_spec (\<lambda>x y. x - y) (Some (#)) op m) ?ops rs ([], []) (avl_elems tree, w')"
    using avl_tree_history [OF comparator_int, of ?ops "Some (#)" "[]"] by blast
  from s have "rs = [1, 1, - ENOMEM, 1, 1] \<and> avl_elems tree = [1, 3] \<and> w' = [2]"
    by (auto simp: spec_run_Cons spec_run_Nil call_free_def)
  with r show ?thesis by blast
qed

end
