(* ===== verification/PQueue.thy ===== *)
theory PQueue
  imports CPrelude
begin

text \<open>
  The binary-heap priority queue of \<open>libs/pqueue/pqueue.c\<close>. An element is a pointer \<open>'e\<close> to an
  object of the caller; the callbacks read and write the priority and the position stored in
  these objects, which live in the caller's state \<open>'w\<close>. \<open>qd\<close> is the block \<open>q->d\<close>; a slot that
  was never written is \<open>None\<close>, and reading it (or any slot outside of the block) is undefined,
  as is a null pointer dereference. Sizes are \<open>nat\<close>: only the byte counts handed to \<open>malloc\<close>
  and \<open>realloc\<close> can exceed \<open>size_t\<close>, and \<open>block_slots\<close> says how many slots such a request gets.
\<close>

section \<open>State\<close>

record ('e, 'w) pqueue_cb =
  cmppri :: "u64 \<Rightarrow> u64 \<Rightarrow> int"
  getpri :: "'e \<Rightarrow> 'w \<Rightarrow> u64"
  setpri :: "'e \<Rightarrow> u64 \<Rightarrow> 'w \<Rightarrow> 'w"
  getpos :: "'e \<Rightarrow> 'w \<Rightarrow> nat"
  setpos :: "'e \<Rightarrow> nat \<Rightarrow> 'w \<Rightarrow> 'w"

record ('e, 'w) pqueue_t =
  qsize :: nat
  qavail :: nat
  qstep :: nat
  qcb :: "('e, 'w) pqueue_cb"
  qd :: "'e option list"

definition slot :: "('e, 'w) pqueue_t \<Rightarrow> nat \<Rightarrow> 'e option" where
  "slot q i = Option.bind (mrd (qd q) i) id"

definition set_slot :: "('e, 'w) pqueue_t \<Rightarrow> nat \<Rightarrow> 'e \<Rightarrow> ('e, 'w) pqueue_t option" where
  "set_slot q i e = map_option (\<lambda>d. q\<lparr>qd := d\<rparr>) (mwr (qd q) i (Some e))"

text \<open>The slots in a block of \<open>n * sizeof(void *)\<close> bytes, computed in \<open>size_t\<close>.\<close>

definition block_slots :: "nat \<Rightarrow> nat" where
  "block_slots n = (n * 8 mod 2 ^ 64) div 8"

definition left_child :: "nat \<Rightarrow> nat" where "left_child i = 2 * i"
definition right_child :: "nat \<Rightarrow> nat" where "right_child i = 2 * i + 1"
definition parent :: "nat \<Rightarrow> nat" where "parent i = i div 2"

section \<open>Operations\<close>

definition pqueue_init ::
    "alloc \<Rightarrow> nat \<Rightarrow> ('e, 'w) pqueue_cb \<Rightarrow> ('e, 'w) pqueue_t option \<times> alloc" where
  "pqueue_init al n cb =
     (let (ok, al) = alloc_next al in
      if \<not> ok then (None, al)
      else (let (ok, al) = alloc_next al in
        if \<not> ok then (None, al)
        else (Some \<lparr>qsize = 1, qavail = n + 1, qstep = n + 1, qcb = cb,
                    qd = replicate (block_slots (n + 1)) None\<rparr>, al)))"

definition pqueue_size :: "('e, 'w) pqueue_t \<Rightarrow> nat" where
  "pqueue_size q = qsize q - 1"

function bubble_up_loop ::
    "('e, 'w) pqueue_t \<Rightarrow> u64 \<Rightarrow> nat \<Rightarrow> 'w \<Rightarrow> (('e, 'w) pqueue_t \<times> nat \<times> 'w) option" where
  "bubble_up_loop q moving_pri i w =
     (if 1 < i then do {
        p \<leftarrow> slot q (parent i);
        if cmppri (qcb q) (getpri (qcb q) p w) moving_pri \<noteq> 0 then do {
          q \<leftarrow> set_slot q i p;
          bubble_up_loop q moving_pri (parent i) (setpos (qcb q) p i w)
        } else Some (q, i, w)
      } else Some (q, i, w))"
  by pat_completeness auto
termination
  by (relation "measure (\<lambda>(q, m, i, w). i)") (auto simp: parent_def)

declare bubble_up_loop.simps [simp del]

definition bubble_up ::
    "('e, 'w) pqueue_t \<Rightarrow> nat \<Rightarrow> 'w \<Rightarrow> (('e, 'w) pqueue_t \<times> 'w) option" where
  "bubble_up q i w = do {
     moving_node \<leftarrow> slot q i;
     (q, i, w) \<leftarrow> bubble_up_loop q (getpri (qcb q) moving_node w) i w;
     q \<leftarrow> set_slot q i moving_node;
     Some (q, setpos (qcb q) moving_node i w)
   }"

definition maxchild :: "('e, 'w) pqueue_t \<Rightarrow> nat \<Rightarrow> 'w \<Rightarrow> nat option" where
  "maxchild q i w =
     (let child_node = left_child i in
      if qsize q \<le> child_node then Some 0
      else if child_node + 1 < qsize q then do {
        a \<leftarrow> slot q child_node;
        b \<leftarrow> slot q (child_node + 1);
        Some (if cmppri (qcb q) (getpri (qcb q) a w) (getpri (qcb q) b w) \<noteq> 0
              then child_node + 1 else child_node)
      } else Some child_node)"

lemma maxchild_range: "maxchild q i w = Some c \<Longrightarrow> c \<noteq> 0 \<Longrightarrow> i < c \<and> c < qsize q"
  by (auto simp: maxchild_def Let_def left_child_def bind_eq_Some_conv split: if_splits)

lemma set_slot_fields:
  assumes "set_slot q i e = Some q'"
  shows "qsize q' = qsize q" "qcb q' = qcb q" "qavail q' = qavail q" "qstep q' = qstep q"
    "qd q' = (qd q)[i := Some e]" "length (qd q') = length (qd q)"
  using assms by (auto simp: set_slot_def mwr_Some_iff)

function percolate_down_loop ::
    "('e, 'w) pqueue_t \<Rightarrow> u64 \<Rightarrow> nat \<Rightarrow> 'w \<Rightarrow> (('e, 'w) pqueue_t \<times> nat \<times> 'w) option" where
  "percolate_down_loop q moving_pri i w = do {
     child_node \<leftarrow> maxchild q i w;
     if child_node \<noteq> 0 then do {
       c \<leftarrow> slot q child_node;
       if cmppri (qcb q) moving_pri (getpri (qcb q) c w) \<noteq> 0 then do {
         q' \<leftarrow> set_slot q i c;
         percolate_down_loop q' moving_pri child_node (setpos (qcb q) c i w)
       } else Some (q, i, w)
     } else Some (q, i, w)
   }"
  by pat_completeness auto
termination
proof (relation "measure (\<lambda>(q, m, i, w). qsize q - i)", goal_cases)
  case (2 q moving_pri i w c e q')
  then show ?case
    using maxchild_range [of q i w c] by (auto dest: set_slot_fields(1))
qed auto

declare percolate_down_loop.simps [simp del]

definition percolate_down ::
    "('e, 'w) pqueue_t \<Rightarrow> nat \<Rightarrow> 'w \<Rightarrow> (('e, 'w) pqueue_t \<times> 'w) option" where
  "percolate_down q i w = do {
     moving_node \<leftarrow> slot q i;
     (q, i, w) \<leftarrow> percolate_down_loop q (getpri (qcb q) moving_node w) i w;
     q \<leftarrow> set_slot q i moving_node;
     Some (q, setpos (qcb q) moving_node i w)
   }"

text \<open>
  \<open>realloc\<close> keeps the slots that fit the new block. The queue pointer is not NULL in the model;
  a NULL queue returns 1 at once.
\<close>

definition resize_block :: "'e option list \<Rightarrow> nat \<Rightarrow> 'e option list" where
  "resize_block d n = take n d @ replicate (n - length d) None"

definition pqueue_insert ::
    "alloc \<Rightarrow> ('e, 'w) pqueue_t \<Rightarrow> 'e \<Rightarrow> 'w \<Rightarrow> (int \<times> ('e, 'w) pqueue_t \<times> 'w \<times> alloc) option" where
  "pqueue_insert al q e w =
     (let (ok, q, al) =
        (if qavail q \<le> qsize q then
           (let newsize = qsize q + qstep q; (ok, al) = alloc_next al in
            if ok then (True, q\<lparr>qd := resize_block (qd q) (block_slots newsize), qavail := newsize\<rparr>, al)
            else (False, q, al))
         else (True, q, al)) in
      if \<not> ok then Some (1, q, w, al)
      else do {
        q' \<leftarrow> set_slot (q\<lparr>qsize := qsize q + 1\<rparr>) (qsize q) e;
        (q, w) \<leftarrow> bubble_up q' (qsize q) w;
        Some (0, q, w, al)
      })"

definition pqueue_change_priority ::
    "('e, 'w) pqueue_t \<Rightarrow> u64 \<Rightarrow> 'e \<Rightarrow> 'w \<Rightarrow> (('e, 'w) pqueue_t \<times> 'w) option" where
  "pqueue_change_priority q new_pri e w =
     (let old_pri = getpri (qcb q) e w;
          w = setpri (qcb q) e new_pri w;
          posn = getpos (qcb q) e w in
      if cmppri (qcb q) old_pri new_pri \<noteq> 0 then bubble_up q posn w else percolate_down q posn w)"

definition pqueue_remove ::
    "('e, 'w) pqueue_t \<Rightarrow> 'e \<Rightarrow> 'w \<Rightarrow> (int \<times> ('e, 'w) pqueue_t \<times> 'w) option" where
  "pqueue_remove q e w = do {
     let posn = getpos (qcb q) e w;
     last \<leftarrow> slot q (qsize q - 1);
     q \<leftarrow> set_slot (q\<lparr>qsize := qsize q - 1\<rparr>) posn last;
     (q, w) \<leftarrow> (if cmppri (qcb q) (getpri (qcb q) e w) (getpri (qcb q) last w) \<noteq> 0
               then bubble_up q posn w else percolate_down q posn w);
     Some (0, q, w)
   }"

definition pqueue_pop ::
    "('e, 'w) pqueue_t \<Rightarrow> 'w \<Rightarrow> ('e option \<times> ('e, 'w) pqueue_t \<times> 'w) option" where
  "pqueue_pop q w =
     (if qsize q = 1 then Some (None, q, w)
      else do {
        head \<leftarrow> slot q 1;
        last \<leftarrow> slot q (qsize q - 1);
        q \<leftarrow> set_slot (q\<lparr>qsize := qsize q - 1\<rparr>) 1 last;
        (q, w) \<leftarrow> percolate_down q 1 w;
        Some (Some head, q, w)
      })"

definition pqueue_peek :: "('e, 'w) pqueue_t \<Rightarrow> 'e option option" where
  "pqueue_peek q = (if qsize q = 1 then Some None else map_option Some (slot q 1))"

text \<open>
  The rows of \<open>pqueue_dump\<close>: position, left, right, parent, \<open>maxchild\<close> and the entry. Its
  counter is an \<open>int\<close>.
\<close>

fun dump_rows ::
    "('e, 'w) pqueue_t \<Rightarrow> 'w \<Rightarrow> nat list \<Rightarrow> (nat \<times> nat \<times> nat \<times> nat \<times> nat \<times> 'e) list option" where
  "dump_rows q w [] = Some []"
| "dump_rows q w (i # is) = do {
     _ \<leftarrow> cint (int (right_child i));
     m \<leftarrow> maxchild q i w;
     e \<leftarrow> slot q i;
     map_option (\<lambda>rows. (i, left_child i, right_child i, parent i, m, e) # rows) (dump_rows q w is)
   }"

definition pqueue_dump ::
    "('e, 'w) pqueue_t \<Rightarrow> 'w \<Rightarrow> (nat \<times> nat \<times> nat \<times> nat \<times> nat \<times> 'e) list option" where
  "pqueue_dump q w = dump_rows q w [1..<qsize q]"

text \<open>The callbacks of the copy that \<open>pqueue_print\<close> empties: they leave the objects alone.\<close>

definition set_pos_nop :: "'e \<Rightarrow> nat \<Rightarrow> 'w \<Rightarrow> 'w" where
  "set_pos_nop e n w = w"

definition set_pri_nop :: "'e \<Rightarrow> u64 \<Rightarrow> 'w \<Rightarrow> 'w" where
  "set_pri_nop e p w = w"

text \<open>
  The loop \<open>while ((e = pqueue_pop(dup))) print(out, e)\<close>: the elements printed, in order. The
  first argument bounds the number of iterations, \<open>None\<close> when it is too small.
\<close>

fun print_loop :: "nat \<Rightarrow> ('e, 'w) pqueue_t \<Rightarrow> 'w \<Rightarrow> 'e list option" where
  "print_loop 0 dup w = None"
| "print_loop (Suc fuel) dup w = do {
     (e, dup, w) \<leftarrow> pqueue_pop dup w;
     case e of None \<Rightarrow> Some []
     | Some e \<Rightarrow> map_option (\<lambda>es. e # es) (print_loop fuel dup w)
   }"

definition pqueue_print :: "alloc \<Rightarrow> ('e, 'w) pqueue_t \<Rightarrow> 'w \<Rightarrow> 'e list option" where
  "pqueue_print al q w =
     (case fst (pqueue_init al (qsize q) ((qcb q)\<lparr>setpri := set_pri_nop, setpos := set_pos_nop\<rparr>)) of
        None \<Rightarrow> None
      | Some dup \<Rightarrow>
          if qsize q \<le> length (qd dup) \<and> qsize q \<le> length (qd q)
          then print_loop (qsize q)
                 (dup\<lparr>qsize := qsize q, qavail := qavail q, qstep := qstep q,
                      qd := take (qsize q) (qd q) @ drop (qsize q) (qd dup)\<rparr>) w
          else None)"

text \<open>
  The recursion of \<open>subtree_is_valid\<close>, with a bound on its depth. \<open>pos\<close> is an \<open>int\<close>, so
  doubling it can overflow.
\<close>

fun subtree_is_valid :: "nat \<Rightarrow> ('e, 'w) pqueue_t \<Rightarrow> nat \<Rightarrow> 'w \<Rightarrow> int option" where
  "subtree_is_valid 0 q pos w = None"
| "subtree_is_valid (Suc fuel) q pos w = do {
     _ \<leftarrow> cint (int (left_child pos));
     l \<leftarrow> (if left_child pos < qsize q then do {
            a \<leftarrow> slot q pos;
            b \<leftarrow> slot q (left_child pos);
            if cmppri (qcb q) (getpri (qcb q) a w) (getpri (qcb q) b w) \<noteq> 0 then Some 0
            else subtree_is_valid fuel q (left_child pos) w
          } else Some 1);
     if l = 0 then Some 0
     else do {
       _ \<leftarrow> cint (int (right_child pos));
       if right_child pos < qsize q then do {
         a \<leftarrow> slot q pos;
         b \<leftarrow> slot q (right_child pos);
         if cmppri (qcb q) (getpri (qcb q) a w) (getpri (qcb q) b w) \<noteq> 0 then Some 0
         else subtree_is_valid fuel q (right_child pos) w
       } else Some 1
     }
   }"

definition pqueue_is_valid :: "('e, 'w) pqueue_t \<Rightarrow> 'w \<Rightarrow> int option" where
  "pqueue_is_valid q w = subtree_is_valid (qsize q + 1) q 1 w"

section \<open>The heap order\<close>

text \<open>
  The queue as the function \<open>arr q\<close> from positions to elements. The loops keep the moving node
  out of the array: their invariants speak of the array with the moving node put into the hole.
\<close>

definition arr :: "('e, 'w) pqueue_t \<Rightarrow> nat \<Rightarrow> 'e" where
  "arr q j = the (qd q ! j)"

definition queue_mset :: "('e, 'w) pqueue_t \<Rightarrow> 'e multiset" where
  "queue_mset q = image_mset (arr q) (mset_set {1..<qsize q})"

definition heap_on :: "('e, 'w) pqueue_cb \<Rightarrow> ('e \<Rightarrow> u64) \<Rightarrow> (nat \<Rightarrow> 'e) \<Rightarrow> nat \<Rightarrow> bool" where
  "heap_on cb P H n \<longleftrightarrow>
     (\<forall>j. 2 \<le> j \<and> j < n \<longrightarrow> cmppri cb (P (H (parent j))) (P (H j)) = 0)"

definition grand_ok :: "('e, 'w) pqueue_cb \<Rightarrow> ('e \<Rightarrow> u64) \<Rightarrow> (nat \<Rightarrow> 'e) \<Rightarrow> nat \<Rightarrow> nat \<Rightarrow> bool" where
  "grand_ok cb P H n i \<longleftrightarrow>
     (\<forall>c. 2 \<le> i \<and> c < n \<and> parent c = i \<longrightarrow> cmppri cb (P (H (parent i))) (P (H c)) = 0)"

definition up_inv :: "('e, 'w) pqueue_cb \<Rightarrow> ('e \<Rightarrow> u64) \<Rightarrow> (nat \<Rightarrow> 'e) \<Rightarrow> nat \<Rightarrow> nat \<Rightarrow> bool" where
  "up_inv cb P H n i \<longleftrightarrow>
     (\<forall>j. 2 \<le> j \<and> j < n \<and> j \<noteq> i \<longrightarrow> cmppri cb (P (H (parent j))) (P (H j)) = 0) \<and> grand_ok cb P H n i"

definition down_inv :: "('e, 'w) pqueue_cb \<Rightarrow> ('e \<Rightarrow> u64) \<Rightarrow> (nat \<Rightarrow> 'e) \<Rightarrow> nat \<Rightarrow> nat \<Rightarrow> bool" where
  "down_inv cb P H n i \<longleftrightarrow>
     (\<forall>j. 2 \<le> j \<and> j < n \<and> parent j \<noteq> i \<longrightarrow> cmppri cb (P (H (parent j))) (P (H j)) = 0) \<and>
     grand_ok cb P H n i"

lemmas heap_defs = heap_on_def up_inv_def down_inv_def grand_ok_def

text \<open>
  The contract of the callbacks. \<open>cmppri next curr\<close> is non-zero when \<open>next\<close> has to give way to
  \<open>curr\<close>: a strict weak order. Storing a position changes no priority.
\<close>

locale pri_callbacks =
  fixes cb :: "('e, 'w) pqueue_cb"
  assumes getpri_setpos: "getpri cb a (setpos cb b n w) = getpri cb a w"
    and pri_asym: "cmppri cb x y \<noteq> 0 \<Longrightarrow> cmppri cb y x = 0"
    and pri_neg_trans: "cmppri cb x y = 0 \<Longrightarrow> cmppri cb y z = 0 \<Longrightarrow> cmppri cb x z = 0"
begin

lemma up_step:
  assumes inv: "up_inv cb P H n i" and i: "1 < i" "i < n"
    and worse: "cmppri cb (P (H (parent i))) (P (H i)) \<noteq> 0"
  shows "up_inv cb P (H(i := H (parent i), parent i := H i)) n (parent i)"
proof -
  let ?p = "parent i"
  have p: "?p < i" "1 \<le> ?p" using i by (auto simp: parent_def)
  have edge: "cmppri cb (P (H (parent j))) (P (H j)) = 0" if "2 \<le> j" "j < n" "j \<noteq> i" for j
    using inv that by (auto simp: up_inv_def)
  have grand: "cmppri cb (P (H ?p)) (P (H c)) = 0" if "c < n" "parent c = i" for c
    using inv i that by (auto simp: up_inv_def grand_ok_def)
  have up: "cmppri cb (P (H i)) (P (H ?p)) = 0"
    using worse by (rule pri_asym)
  let ?H = "H(i := H ?p, ?p := H i)"
  have "cmppri cb (P (?H (parent j))) (P (?H j)) = 0" if j: "2 \<le> j" "j < n" "j \<noteq> ?p" for j
  proof -
    have pj: "parent j < j" using j by (simp add: parent_def)
    consider "j = i" | "parent j = i" "j \<noteq> i" | "parent j = ?p" "j \<noteq> i"
      | "parent j \<noteq> i" "parent j \<noteq> ?p" "j \<noteq> i" by blast
    then show ?thesis
    proof cases
      case 1
      with up p show ?thesis by simp
    next
      case 2
      with grand j p show ?thesis by simp
    next
      case 3
      with edge [of j] j have "cmppri cb (P (H ?p)) (P (H j)) = 0" by simp
      with 3 up pri_neg_trans [of "P (H i)" "P (H ?p)" "P (H j)"] j show ?thesis by simp
    next
      case 4
      with edge [of j] j show ?thesis by simp
    qed
  qed
  moreover have "cmppri cb (P (?H (parent ?p))) (P (?H c)) = 0"
    if c: "2 \<le> ?p" "c < n" "parent c = ?p" for c
  proof -
    have pp: "parent ?p < ?p" "c \<noteq> ?p" using c by (auto simp: parent_def)
    have "cmppri cb (P (H (parent ?p))) (P (H ?p)) = 0"
      using edge [of ?p] c p i by simp
    moreover have "c \<noteq> i \<Longrightarrow> cmppri cb (P (H ?p)) (P (H c)) = 0"
      using edge [of c] c by (auto simp: parent_def)
    ultimately show ?thesis
      using pp p pri_neg_trans [of "P (H (parent ?p))" "P (H ?p)" "P (H c)"] by auto
  qed
  ultimately show ?thesis by (auto simp: up_inv_def grand_ok_def)
qed

lemma up_stop: "up_inv cb P H n i \<Longrightarrow> i \<le> 1 \<or> cmppri cb (P (H (parent i))) (P (H i)) = 0 \<Longrightarrow>
    heap_on cb P H n"
  by (auto simp: up_inv_def heap_on_def)

lemma down_step:
  assumes inv: "down_inv cb P H n i" and i: "1 \<le> i" and c: "2 \<le> c" "c < n" "parent c = i"
    and worse: "cmppri cb (P (H i)) (P (H c)) \<noteq> 0"
    and best: "\<And>s. 2 \<le> s \<Longrightarrow> s < n \<Longrightarrow> parent s = i \<Longrightarrow> s \<noteq> c \<Longrightarrow> cmppri cb (P (H c)) (P (H s)) = 0"
  shows "down_inv cb P (H(i := H c, c := H i)) n c"
proof -
  have ic: "i < c" using c i by (auto simp: parent_def)
  have edge: "cmppri cb (P (H (parent j))) (P (H j)) = 0" if "2 \<le> j" "j < n" "parent j \<noteq> i" for j
    using inv that by (auto simp: down_inv_def)
  have grand: "cmppri cb (P (H (parent i))) (P (H c)) = 0" if "2 \<le> i"
    using inv that c by (auto simp: down_inv_def grand_ok_def)
  have up: "cmppri cb (P (H c)) (P (H i)) = 0"
    using worse by (rule pri_asym)
  let ?H = "H(i := H c, c := H i)"
  have "cmppri cb (P (?H (parent j))) (P (?H j)) = 0" if j: "2 \<le> j" "j < n" "parent j \<noteq> c" for j
  proof -
    have pj: "parent j < j" using j by (simp add: parent_def)
    consider "j = i" | "j = c" | "parent j = i" "j \<noteq> c" | "parent j \<noteq> i" "j \<noteq> i" "j \<noteq> c" by blast
    then show ?thesis
    proof cases
      case 1
      with grand j pj ic show ?thesis by simp
    next
      case 2
      with up c ic show ?thesis by simp
    next
      case 3
      with best [of j] j pj ic show ?thesis by simp
    next
      case 4
      with edge [of j] j show ?thesis by simp
    qed
  qed
  moreover have "cmppri cb (P (?H (parent c))) (P (?H c')) = 0" if "c' < n" "parent c' = c" for c'
  proof -
    have "c < c'" using that c by (auto simp: parent_def)
    with edge [of c'] that c ic show ?thesis by auto
  qed
  ultimately show ?thesis by (auto simp: down_inv_def grand_ok_def)
qed

lemma down_stop:
  assumes "down_inv cb P H n i"
    and "\<And>s. 2 \<le> s \<Longrightarrow> s < n \<Longrightarrow> parent s = i \<Longrightarrow> cmppri cb (P (H i)) (P (H s)) = 0"
  shows "heap_on cb P H n"
  using assms by (auto simp: down_inv_def heap_on_def)

lemma heap_root_best:
  assumes heap: "heap_on cb P H n" and refl: "cmppri cb (P (H 1)) (P (H 1)) = 0"
  shows "1 \<le> j \<Longrightarrow> j < n \<Longrightarrow> cmppri cb (P (H 1)) (P (H j)) = 0"
proof (induction j rule: less_induct)
  case (less j)
  show ?case
  proof (cases "j = 1")
    case False
    then have "parent j < j" "1 \<le> parent j" "parent j < n"
      using less.prems by (auto simp: parent_def)
    then have "cmppri cb (P (H 1)) (P (H (parent j))) = 0" using less.IH by blast
    moreover have "cmppri cb (P (H (parent j))) (P (H j)) = 0"
      using heap less.prems False by (auto simp: heap_on_def)
    ultimately show ?thesis by (rule pri_neg_trans)
  qed (use refl in simp)
qed

lemma pri_irrefl: "cmppri cb x x = 0"
  using pri_asym [of x x] by blast

end

lemma image_mset_swap:
  assumes "i \<in> S" "k \<in> S" "finite S"
  shows "image_mset (H(i := H k, k := H i)) (mset_set S) = image_mset H (mset_set S)"
proof -
  let ?t = "\<lambda>x. if x = i then k else if x = k then i else x"
  have "inj_on ?t S" by (auto simp: inj_on_def)
  moreover have "?t ` S = S"
  proof
    show "?t ` S \<subseteq> S" using assms by auto
    show "S \<subseteq> ?t ` S"
    proof
      fix x assume "x \<in> S"
      moreover have "x = ?t (?t x)" by auto
      moreover have "?t x \<in> S" using assms \<open>x \<in> S\<close> by auto
      ultimately show "x \<in> ?t ` S" by blast
    qed
  qed
  ultimately have t: "image_mset ?t (mset_set S) = mset_set S"
    by (simp only: image_mset_mset_set)
  have "H(i := H k, k := H i) = (\<lambda>x. H (?t x))"
    by (rule ext) simp
  then have "image_mset (H(i := H k, k := H i)) (mset_set S) =
      image_mset H (image_mset ?t (mset_set S))"
    by (simp only: multiset.map_comp comp_def)
  then show ?thesis by (simp only: t)
qed

section \<open>The two loops\<close>

definition slots_ok :: "('e, 'w) pqueue_t \<Rightarrow> bool" where
  "slots_ok q \<longleftrightarrow> 1 \<le> qsize q \<and> qsize q \<le> length (qd q) \<and> (\<forall>j. 1 \<le> j \<and> j < qsize q \<longrightarrow> qd q ! j \<noteq> None)"

text \<open>What no loop changes.\<close>

definition frame :: "('e, 'w) pqueue_t \<Rightarrow> ('e, 'w) pqueue_t \<Rightarrow> bool" where
  "frame q q' \<longleftrightarrow> qsize q' = qsize q \<and> qcb q' = qcb q \<and> qavail q' = qavail q \<and> qstep q' = qstep q \<and>
     length (qd q') = length (qd q) \<and> slots_ok q'"

lemma slot_ok [simp]: "slots_ok q \<Longrightarrow> 1 \<le> i \<Longrightarrow> i < qsize q \<Longrightarrow> slot q i = Some (arr q i)"
  by (auto simp: slots_ok_def slot_def arr_def)

lemma set_slot_ok:
  assumes "slots_ok q" "1 \<le> i" "i < qsize q"
  shows "\<exists>q'. set_slot q i e = Some q' \<and> frame q q' \<and> arr q' = (arr q)(i := e)"
proof (intro exI [of _ "q\<lparr>qd := (qd q)[i := Some e]\<rparr>"] conjI)
  show "set_slot q i e = Some (q\<lparr>qd := (qd q)[i := Some e]\<rparr>)"
    using assms by (simp add: set_slot_def slots_ok_def)
  show "frame q (q\<lparr>qd := (qd q)[i := Some e]\<rparr>)"
    using assms by (simp add: frame_def slots_ok_def nth_list_update)
  show "arr (q\<lparr>qd := (qd q)[i := Some e]\<rparr>) = (arr q)(i := e)"
    using assms by (simp add: arr_def slots_ok_def fun_eq_iff nth_list_update)
qed

lemma frame_trans: "frame q q1 \<Longrightarrow> frame q1 q2 \<Longrightarrow> frame q q2"
  by (simp add: frame_def)

lemma frame_refl [simp]: "slots_ok q \<Longrightarrow> frame q q"
  by (simp add: frame_def)

lemma frameD:
  assumes "frame q q'"
  shows "qsize q' = qsize q" "qcb q' = qcb q" "qavail q' = qavail q" "qstep q' = qstep q"
    "length (qd q') = length (qd q)" "slots_ok q'"
  using assms by (simp_all add: frame_def)

definition pos_hole :: "('e, 'w) pqueue_t \<Rightarrow> nat \<Rightarrow> 'e \<Rightarrow> 'w \<Rightarrow> bool" where
  "pos_hole q i m w \<longleftrightarrow>
     (\<forall>j. 1 \<le> j \<and> j < qsize q \<and> j \<noteq> i \<longrightarrow> getpos (qcb q) (arr q j) w = j \<and> arr q j \<noteq> m)"

definition pos_ok :: "('e, 'w) pqueue_t \<Rightarrow> 'w \<Rightarrow> bool" where
  "pos_ok q w \<longleftrightarrow> (\<forall>j. 1 \<le> j \<and> j < qsize q \<longrightarrow> getpos (qcb q) (arr q j) w = j)"

text \<open>
  What a loop that started with the hole at \<open>i\<close> and stopped with the hole at \<open>i'\<close> has done:
  with the moving node \<open>m\<close> in the hole the array is a heap of the same elements, and no
  priority has changed.
\<close>

definition settled ::
    "('e, 'w) pqueue_t \<Rightarrow> nat \<Rightarrow> 'w \<Rightarrow> 'e \<Rightarrow> ('e, 'w) pqueue_t \<Rightarrow> nat \<Rightarrow> 'w \<Rightarrow> bool" where
  "settled q i w m q' i' w' \<longleftrightarrow>
     frame q q' \<and> 1 \<le> i' \<and> i' < qsize q \<and>
     heap_on (qcb q) (\<lambda>e. getpri (qcb q) e w) ((arr q')(i' := m)) (qsize q) \<and>
     image_mset ((arr q')(i' := m)) (mset_set {1..<qsize q}) =
       image_mset ((arr q)(i := m)) (mset_set {1..<qsize q}) \<and>
     (\<forall>e. getpri (qcb q) e w' = getpri (qcb q) e w)"

lemma hole_moves:
  assumes "1 \<le> i" "i < n" "1 \<le> k" "k < (n :: nat)" "i \<noteq> k"
  shows "A(i := A k, k := m) = (A(i := m))(i := (A(i := m)) k, k := (A(i := m)) i)"
    and "image_mset (A(i := A k, k := m)) (mset_set {1..<n}) = image_mset (A(i := m)) (mset_set {1..<n})"
proof -
  show eq: "A(i := A k, k := m) = (A(i := m))(i := (A(i := m)) k, k := (A(i := m)) i)"
    using assms by (auto simp: fun_eq_iff)
  show "image_mset (A(i := A k, k := m)) (mset_set {1..<n}) = image_mset (A(i := m)) (mset_set {1..<n})"
    unfolding eq using assms by (intro image_mset_swap) auto
qed

context pri_callbacks
begin

lemma bubble_up_loop_ok:
  assumes "qcb q = cb" "slots_ok q" "1 \<le> i" "i < qsize q"
    and "up_inv cb (\<lambda>e. getpri cb e w) ((arr q)(i := m)) (qsize q) i"
  shows "\<exists>q' i' w'. bubble_up_loop q (getpri cb m w) i w = Some (q', i', w') \<and> settled q i w m q' i' w'"
  using assms
proof (induction i arbitrary: q w rule: less_induct)
  case (less i)
  let ?P = "\<lambda>e. getpri cb e w" and ?p = "parent i"
  show ?case
  proof (cases "1 < i \<and> cmppri cb (?P (arr q ?p)) (?P m) \<noteq> 0")
    case False
    then have "i \<le> 1 \<or> cmppri cb (?P (((arr q)(i := m)) ?p)) (?P (((arr q)(i := m)) i)) = 0"
      by (cases "1 < i") (auto simp: parent_def)
    then have "heap_on cb ?P ((arr q)(i := m)) (qsize q)"
      by (rule up_stop [OF less.prems(5)])
    moreover have "bubble_up_loop q (?P m) i w = Some (q, i, w)"
    proof (cases "1 < i")
      case True
      then have "1 \<le> ?p" "?p < qsize q" using less.prems by (auto simp: parent_def)
      with True False less.prems show ?thesis by (subst bubble_up_loop.simps) simp
    qed (subst bubble_up_loop.simps, simp)
    ultimately show ?thesis
      using less.prems by (auto simp: settled_def)
  next
    case True
    then have p: "1 \<le> ?p" "?p < i" "?p < qsize q" using less.prems by (auto simp: parent_def)
    obtain q1 where q1: "set_slot q i (arr q ?p) = Some q1" "frame q q1"
        "arr q1 = (arr q)(i := arr q ?p)"
      using set_slot_ok [OF less.prems(2-4)] by blast
    let ?w1 = "setpos cb (arr q ?p) i w"
    have P1: "(\<lambda>e. getpri cb e ?w1) = ?P" by (simp add: getpri_setpos)
    let ?H = "(arr q)(i := m)"
    have eq: "(arr q1)(?p := m) = ?H(i := ?H ?p, ?p := ?H i)"
      using q1(3) p by (auto simp: fun_eq_iff)
    have inv: "up_inv cb ?P ((arr q1)(?p := m)) (qsize q) ?p"
      unfolding eq using p less.prems(4) True by (intro up_step [OF less.prems(5)]) auto
    have "up_inv cb (\<lambda>e. getpri cb e ?w1) ((arr q1)(?p := m)) (qsize q1) ?p"
      using inv frameD(1) [OF q1(2)] by (simp only: P1)
    then obtain q' i' w' where L: "bubble_up_loop q1 (?P m) ?p ?w1 = Some (q', i', w')"
        "settled q1 ?p ?w1 m q' i' w'"
      using less.IH [OF p(2), of q1 ?w1] p(1,3) less.prems(1) frameD [OF q1(2)]
      by (simp only: getpri_setpos) blast
    have "settled q i w m q' i' w'"
      using L(2) q1 p less.prems hole_moves(2) [of i "qsize q" ?p "arr q" m] frameD [OF q1(2)]
      unfolding settled_def by (auto simp: getpri_setpos intro: frame_trans)
    moreover have "bubble_up_loop q (?P m) i w = Some (q', i', w')"
      using True p q1 L(1) less.prems frameD(2) [OF q1(2)] by (subst bubble_up_loop.simps) simp
    ultimately show ?thesis by blast
  qed
qed

lemma maxchild_ok:
  assumes "qcb q = cb" "slots_ok q" "1 \<le> i" "i < qsize q"
  obtains "maxchild q i w = Some 0" "\<And>s. parent s = i \<Longrightarrow> 2 \<le> s \<Longrightarrow> \<not> s < qsize q"
    | c where "maxchild q i w = Some c" "2 \<le> c" "c < qsize q" "parent c = i" "c \<noteq> 0"
      "\<And>s. 2 \<le> s \<Longrightarrow> s < qsize q \<Longrightarrow> parent s = i \<Longrightarrow>
         cmppri cb (getpri cb (arr q c) w) (getpri cb (arr q s) w) = 0"
proof -
  have ch: "s = 2 * i \<or> s = 2 * i + 1" if "parent s = i" for s
    using that by (auto simp: parent_def)
  let ?le = "\<lambda>c s. cmppri cb (getpri cb (arr q c) w) (getpri cb (arr q s) w) = 0"
  consider "qsize q \<le> 2 * i" | "2 * i < qsize q" "qsize q \<le> 2 * i + 1" | "2 * i + 1 < qsize q"
    by linarith
  then show thesis
  proof cases
    case 1
    then have "maxchild q i w = Some 0" by (simp add: maxchild_def left_child_def)
    moreover have "\<not> s < qsize q" if "parent s = i" for s
      using ch [OF that] 1 by auto
    ultimately show ?thesis by (rule that(1))
  next
    case 2
    have "maxchild q i w = Some (2 * i)" using 2 by (simp add: maxchild_def left_child_def)
    moreover have "?le (2 * i) s" if "s < qsize q" "parent s = i" for s
      using ch [OF that(2)] that 2 by (auto simp: pri_irrefl)
    ultimately show ?thesis
      using 2 assms(3) by (intro that(2) [of "2 * i"]) (auto simp: parent_def)
  next
    case 3
    have m: "maxchild q i w = Some (if ?le (2 * i) (2 * i + 1) then 2 * i else 2 * i + 1)"
      using 3 assms by (simp add: maxchild_def left_child_def)
    have "?le (2 * i) s" if "?le (2 * i) (2 * i + 1)" "parent s = i" for s
      using ch [OF that(2)] that(1) by (auto simp: pri_irrefl)
    moreover have "?le (2 * i + 1) s" if "\<not> ?le (2 * i) (2 * i + 1)" "parent s = i" for s
      using ch [OF that(2)] pri_asym [OF that(1)] by (auto simp: pri_irrefl)
    ultimately show ?thesis
      using 3 assms(3) m
      by (intro that(2) [of "if ?le (2 * i) (2 * i + 1) then 2 * i else 2 * i + 1"])
        (auto simp: parent_def split: if_splits)
  qed
qed

lemma percolate_down_loop_ok:
  assumes "qcb q = cb" "slots_ok q" "1 \<le> i" "i < qsize q"
    and "down_inv cb (\<lambda>e. getpri cb e w) ((arr q)(i := m)) (qsize q) i"
  shows "\<exists>q' i' w'. percolate_down_loop q (getpri cb m w) i w = Some (q', i', w') \<and>
    settled q i w m q' i' w'"
  using assms
proof (induction "qsize q - i" arbitrary: q w i rule: less_induct)
  case less
  let ?P = "\<lambda>e. getpri cb e w"
  have stop: "\<exists>q' i' w'. percolate_down_loop q (?P m) i w = Some (q', i', w') \<and> settled q i w m q' i' w'"
    if "percolate_down_loop q (?P m) i w = Some (q, i, w)" "heap_on cb ?P ((arr q)(i := m)) (qsize q)"
    using that less.prems by (auto simp: settled_def)
  from less.prems(1-4) show ?case
  proof (cases rule: maxchild_ok [where w = w])
    case 1
    then show ?thesis
      using less.prems by (intro stop down_stop [OF less.prems(5)])
        (auto simp: percolate_down_loop.simps [of q "getpri cb m w" i w])
  next
    case (2 c)
    have ic: "i < c" using 2 less.prems by (auto simp: parent_def)
    show ?thesis
    proof (cases "cmppri cb (?P m) (?P (arr q c)) = 0")
      case True
      have "cmppri cb (?P m) (?P (arr q s)) = 0" if "2 \<le> s" "s < qsize q" "parent s = i" for s
        using True 2(6) [OF that] by (rule pri_neg_trans)
      moreover have "s \<noteq> i" if "2 \<le> s" "parent s = i" for s
        using that by (auto simp: parent_def)
      ultimately have "heap_on cb ?P ((arr q)(i := m)) (qsize q)"
        by (intro down_stop [OF less.prems(5)]) auto
      moreover have "percolate_down_loop q (?P m) i w = Some (q, i, w)"
        using True 2 less.prems by (subst percolate_down_loop.simps) simp
      ultimately show ?thesis by (intro stop)
    next
      case False
      obtain q1 where q1: "set_slot q i (arr q c) = Some q1" "frame q q1"
          "arr q1 = (arr q)(i := arr q c)"
        using set_slot_ok [OF less.prems(2-4)] by blast
      let ?w1 = "setpos cb (arr q c) i w"
      have P1: "(\<lambda>e. getpri cb e ?w1) = ?P" by (simp add: getpri_setpos)
      let ?H = "(arr q)(i := m)"
      have eq: "(arr q1)(c := m) = ?H(i := ?H c, c := ?H i)"
        using q1(3) ic by (auto simp: fun_eq_iff)
      have "s \<noteq> i" if "2 \<le> s" "parent s = i" for s
        using that by (auto simp: parent_def)
      then have inv: "down_inv cb ?P ((arr q1)(c := m)) (qsize q) c"
        unfolding eq using ic 2 less.prems(3) False by (intro down_step [OF less.prems(5)]) auto
      have "down_inv cb (\<lambda>e. getpri cb e ?w1) ((arr q1)(c := m)) (qsize q1) c"
        using inv frameD(1) [OF q1(2)] by (simp only: P1)
      moreover have "qsize q1 - c < qsize q - i" "1 \<le> c" "c < qsize q1"
        using ic 2 frameD(1) [OF q1(2)] by auto
      ultimately obtain q' i' w' where L: "percolate_down_loop q1 (?P m) c ?w1 = Some (q', i', w')"
          "settled q1 c ?w1 m q' i' w'"
        using less.hyps [of q1 c ?w1] less.prems(1) frameD [OF q1(2)]
        by (simp only: getpri_setpos) blast
      have "settled q i w m q' i' w'"
        using L(2) q1 ic 2 less.prems hole_moves(2) [of i "qsize q" c "arr q" m] frameD [OF q1(2)]
        unfolding settled_def by (auto simp: getpri_setpos intro: frame_trans)
      moreover have "percolate_down_loop q (?P m) i w = Some (q', i', w')"
        using False ic 2 q1 L(1) less.prems frameD(2) [OF q1(2)]
        by (subst percolate_down_loop.simps) simp
      ultimately show ?thesis by blast
    qed
  qed
qed

end

section \<open>Sifting up and down\<close>

definition pq_inv :: "('e, 'w) pqueue_t \<Rightarrow> 'w \<Rightarrow> bool" where
  "pq_inv q w \<longleftrightarrow>
     slots_ok q \<and> heap_on (qcb q) (\<lambda>e. getpri (qcb q) e w) (arr q) (qsize q)"

text \<open>The state after a sift that started from \<open>(q, w)\<close>.\<close>

definition sifted :: "('e, 'w) pqueue_t \<Rightarrow> 'w \<Rightarrow> ('e, 'w) pqueue_t \<Rightarrow> 'w \<Rightarrow> bool" where
  "sifted q w q' w' \<longleftrightarrow> frame q q' \<and> pq_inv q' w' \<and> queue_mset q' = queue_mset q \<and>
     (\<forall>e. getpri (qcb q) e w' = getpri (qcb q) e w)"

context pri_callbacks
begin

lemma finish_sift:
  assumes s: "settled q i w m q' i' w'" and q: "qcb q = cb" "arr q i = m"
  shows "\<exists>q''. set_slot q' i' m = Some q'' \<and> arr q'' = (arr q')(i' := m) \<and>
    sifted q w q'' (setpos cb m i' w')"
proof -
  from s have f: "frame q q'" and i': "1 \<le> i'" "i' < qsize q"
    by (auto simp: settled_def)
  then obtain q'' where q'': "set_slot q' i' m = Some q''" "frame q' q''" "arr q'' = (arr q')(i' := m)"
    using set_slot_ok [of q' i' m] frameD [OF f] by auto
  have "(\<lambda>e. getpri cb e (setpos cb m i' w')) = (\<lambda>e. getpri cb e w)"
    using s q by (auto simp: settled_def getpri_setpos)
  then have "pq_inv q'' (setpos cb m i' w')"
    using s q q'' frameD [OF f] frameD [OF q''(2)] by (auto simp: settled_def pq_inv_def)
  moreover have "(arr q)(i := m) = arr q" using q by auto
  then have "queue_mset q'' = queue_mset q"
    using s q'' frameD [OF f] frameD [OF q''(2)] by (auto simp: settled_def queue_mset_def)
  ultimately show ?thesis
    using s q q'' frame_trans [OF f q''(2)] by (auto simp: sifted_def settled_def getpri_setpos)
qed

lemma bubble_up_ok:
  assumes "qcb q = cb" "slots_ok q" "1 \<le> i" "i < qsize q"
    and "up_inv cb (\<lambda>e. getpri cb e w) (arr q) (qsize q) i"
  shows "\<exists>q' w'. bubble_up q i w = Some (q', w') \<and> sifted q w q' w'"
proof -
  have eq: "(arr q)(i := arr q i) = arr q" by auto
  obtain q1 i1 w1 where L: "bubble_up_loop q (getpri cb (arr q i) w) i w = Some (q1, i1, w1)"
      "settled q i w (arr q i) q1 i1 w1"
    using bubble_up_loop_ok [OF assms(1-4), of w "arr q i"] assms(5) eq by auto
  obtain q2 where q2: "set_slot q1 i1 (arr q i) = Some q2" "sifted q w q2 (setpos cb (arr q i) i1 w1)"
    using finish_sift [OF L(2) assms(1)] by blast
  have "qcb q1 = cb"
    using L(2) assms(1) by (auto simp: settled_def frame_def)
  then have "qcb q2 = cb"
    using set_slot_fields(2) [OF q2(1)] by simp
  with L(1) q2 show ?thesis
    using assms(1-4) by (simp add: bubble_up_def)
qed

lemma percolate_down_ok:
  assumes "qcb q = cb" "slots_ok q" "1 \<le> i" "i < qsize q"
    and "down_inv cb (\<lambda>e. getpri cb e w) (arr q) (qsize q) i"
  shows "\<exists>q' w'. percolate_down q i w = Some (q', w') \<and> sifted q w q' w'"
proof -
  have eq: "(arr q)(i := arr q i) = arr q" by auto
  obtain q1 i1 w1 where L: "percolate_down_loop q (getpri cb (arr q i) w) i w = Some (q1, i1, w1)"
      "settled q i w (arr q i) q1 i1 w1"
    using percolate_down_loop_ok [OF assms(1-4), of w "arr q i"] assms(5) eq by auto
  obtain q2 where q2: "set_slot q1 i1 (arr q i) = Some q2" "sifted q w q2 (setpos cb (arr q i) i1 w1)"
    using finish_sift [OF L(2) assms(1)] by blast
  have "qcb q1 = cb"
    using L(2) assms(1) by (auto simp: settled_def frame_def)
  then have "qcb q2 = cb"
    using set_slot_fields(2) [OF q2(1)] by simp
  with L(1) q2 show ?thesis
    using assms(1-4) by (simp add: percolate_down_def)
qed

end

text \<open>
  The rest of the callbacks' contract: a stored position is read back and storing it moves no
  other element; storing a priority changes that priority only.
\<close>

locale pos_callbacks = pri_callbacks cb for cb :: "('e, 'w) pqueue_cb" +
  assumes getpos_setpos: "getpos cb a (setpos cb b n w) = (if a = b then n else getpos cb a w)"
    and getpri_setpri: "getpri cb a (setpri cb b p w) = (if a = b then p else getpri cb a w)"
    and getpos_setpri: "getpos cb a (setpri cb b p w) = getpos cb a w"
begin

lemma pos_hole_moves:
  assumes "qcb q = cb" "pos_hole q i m w" "1 \<le> k" "k < qsize q" "k \<noteq> i"
    and "frame q q1" "arr q1 = (arr q)(i := arr q k)"
  shows "pos_hole q1 k m (setpos cb (arr q k) i w)"
  unfolding pos_hole_def
proof (intro allI impI)
  fix j
  assume j: "1 \<le> j \<and> j < qsize q1 \<and> j \<noteq> k"
  have n: "qsize q1 = qsize q" "qcb q1 = cb" using frameD [OF assms(6)] assms(1) by auto
  have hole: "getpos cb (arr q j) w = j \<and> arr q j \<noteq> m" if "1 \<le> j" "j < qsize q" "j \<noteq> i" for j
    using assms(1,2) that by (auto simp: pos_hole_def)
  show "getpos (qcb q1) (arr q1 j) (setpos cb (arr q k) i w) = j \<and> arr q1 j \<noteq> m"
  proof (cases "j = i")
    case True
    with hole [of k] assms(3-5,7) n show ?thesis by (simp add: getpos_setpos)
  next
    case False
    with hole [of j] hole [of k] j n assms(3-5) have "arr q j \<noteq> arr q k" by auto
    with False hole [of j] j n assms(7) show ?thesis by (simp add: getpos_setpos)
  qed
qed

lemma bubble_up_loop_pos:
  assumes "qcb q = cb" "slots_ok q" "1 \<le> i" "i < qsize q" "pos_hole q i m w"
    and "bubble_up_loop q mp i w = Some (q', i', w')"
  shows "pos_hole q' i' m w' \<and> qcb q' = cb"
  using assms
proof (induction i arbitrary: q w rule: less_induct)
  case (less i)
  let ?p = "parent i"
  show ?case
  proof (cases "1 < i \<and> cmppri cb (getpri cb (arr q ?p) w) mp \<noteq> 0")
    case True
    then have p: "1 \<le> ?p" "?p < i" "?p < qsize q" using less.prems by (auto simp: parent_def)
    obtain q1 where q1: "set_slot q i (arr q ?p) = Some q1" "frame q q1"
        "arr q1 = (arr q)(i := arr q ?p)"
      using set_slot_ok [OF less.prems(2-4)] by blast
    have "bubble_up_loop q1 mp ?p (setpos cb (arr q ?p) i w) = Some (q', i', w')"
      using less.prems(6) True p q1 less.prems(1,2) frameD(2) [OF q1(2)]
      by (subst (asm) bubble_up_loop.simps) simp
    moreover have "pos_hole q1 ?p m (setpos cb (arr q ?p) i w)"
      using pos_hole_moves [OF less.prems(1,5) p(1,3) _ q1(2,3)] p by simp
    ultimately show ?thesis
      using less.IH [OF p(2), of q1] p q1 less.prems(1) frameD [OF q1(2)] by simp
  next
    case False
    have "(q', i', w') = (q, i, w)"
    proof (cases "1 < i")
      case True
      then have "1 \<le> ?p" "?p < qsize q" using less.prems by (auto simp: parent_def)
      with True False less.prems show ?thesis by (subst (asm) bubble_up_loop.simps) simp
    next
      case False
      with less.prems(6) show ?thesis by (subst (asm) bubble_up_loop.simps) simp
    qed
    with less.prems show ?thesis by simp
  qed
qed

lemma percolate_down_loop_pos:
  assumes "qcb q = cb" "slots_ok q" "1 \<le> i" "i < qsize q" "pos_hole q i m w"
    and "percolate_down_loop q mp i w = Some (q', i', w')"
  shows "pos_hole q' i' m w' \<and> qcb q' = cb"
  using assms
proof (induction "qsize q - i" arbitrary: q w i rule: less_induct)
  case less
  from less.prems(1-4) show ?case
  proof (cases rule: maxchild_ok [where w = w])
    case 1
    with less.prems show ?thesis by (subst (asm) percolate_down_loop.simps) simp
  next
    case (2 c)
    have ic: "i < c" using 2 less.prems by (auto simp: parent_def)
    show ?thesis
    proof (cases "cmppri cb mp (getpri cb (arr q c) w) = 0")
      case True
      with 2 less.prems show ?thesis by (subst (asm) percolate_down_loop.simps) simp
    next
      case False
      obtain q1 where q1: "set_slot q i (arr q c) = Some q1" "frame q q1"
          "arr q1 = (arr q)(i := arr q c)"
        using set_slot_ok [OF less.prems(2-4)] by blast
      have "percolate_down_loop q1 mp c (setpos cb (arr q c) i w) = Some (q', i', w')"
        using less.prems(6) False ic 2 q1 less.prems(1,2) frameD(2) [OF q1(2)]
        by (subst (asm) percolate_down_loop.simps) simp
      moreover have "pos_hole q1 c m (setpos cb (arr q c) i w)"
        using pos_hole_moves [OF less.prems(1,5) _ 2(3) _ q1(2,3)] ic 2 by simp
      moreover have "qsize q1 - c < qsize q - i" "1 \<le> c" "c < qsize q1"
        using ic 2 frameD(1) [OF q1(2)] by auto
      ultimately show ?thesis
        using less.hyps [of q1 c] less.prems(1) frameD [OF q1(2)] by simp
    qed
  qed
qed

lemma finish_pos:
  assumes "pos_hole q' i' m w'" "qcb q' = cb" "set_slot q' i' m = Some q''"
  shows "pos_ok q'' (setpos cb m i' w')"
proof -
  have "qcb q'' = cb" "qsize q'' = qsize q'" "arr q'' = (arr q')(i' := m)"
    using set_slot_fields [OF assms(3)] assms(2,3)
    by (auto simp: arr_def fun_eq_iff set_slot_def mwr_Some_iff nth_list_update)
  then show ?thesis
    using assms by (auto simp: pos_ok_def pos_hole_def getpos_setpos)
qed

lemma bubble_up_pos:
  assumes "qcb q = cb" "slots_ok q" "1 \<le> i" "i < qsize q" "pos_hole q i (arr q i) w"
    and "bubble_up q i w = Some (q', w')"
  shows "pos_ok q' w'"
proof -
  obtain q1 i1 w1 where 1: "bubble_up_loop q (getpri cb (arr q i) w) i w = Some (q1, i1, w1)"
      "set_slot q1 i1 (arr q i) = Some q'" "w' = setpos (qcb q') (arr q i) i1 w1"
    using assms by (auto simp: bubble_up_def bind_eq_Some_conv)
  have 2: "pos_hole q1 i1 (arr q i) w1 \<and> qcb q1 = cb"
    using bubble_up_loop_pos [OF assms(1-5) 1(1)] .
  then have "qcb q' = cb" using set_slot_fields(2) [OF 1(2)] by simp
  with 1(3) 2 show ?thesis
    using finish_pos [of q1 i1 "arr q i" w1 q'] 1(2) by simp
qed

lemma percolate_down_pos:
  assumes "qcb q = cb" "slots_ok q" "1 \<le> i" "i < qsize q" "pos_hole q i (arr q i) w"
    and "percolate_down q i w = Some (q', w')"
  shows "pos_ok q' w'"
proof -
  obtain q1 i1 w1 where 1: "percolate_down_loop q (getpri cb (arr q i) w) i w = Some (q1, i1, w1)"
      "set_slot q1 i1 (arr q i) = Some q'" "w' = setpos (qcb q') (arr q i) i1 w1"
    using assms by (auto simp: percolate_down_def bind_eq_Some_conv)
  have 2: "pos_hole q1 i1 (arr q i) w1 \<and> qcb q1 = cb"
    using percolate_down_loop_pos [OF assms(1-5) 1(1)] .
  then have "qcb q' = cb" using set_slot_fields(2) [OF 1(2)] by simp
  with 1(3) 2 show ?thesis
    using finish_pos [of q1 i1 "arr q i" w1 q'] 1(2) by simp
qed

end

section \<open>The operations\<close>

text \<open>The block is as long as \<open>avail\<close> says, and there is room to grow.\<close>

definition cap_ok :: "('e, 'w) pqueue_t \<Rightarrow> bool" where
  "cap_ok q \<longleftrightarrow> length (qd q) = qavail q \<and> qsize q \<le> qavail q \<and> 1 \<le> qstep q"

lemma frame_cap_ok: "frame q q' \<Longrightarrow> cap_ok q \<Longrightarrow> cap_ok q'"
  by (simp add: frame_def cap_ok_def)

lemma pq_inv_slots: "pq_inv q w \<Longrightarrow> slots_ok q"
  by (simp add: pq_inv_def)

lemma block_slots_small: "n < 2 ^ 61 \<Longrightarrow> block_slots n = n"
  by (simp add: block_slots_def)

lemma upto_Suc: "1 \<le> n \<Longrightarrow> {1..<Suc n} = insert n {1..<n}"
  by auto

lemma image_upto_Suc:
  assumes "1 \<le> (n :: nat)"
  shows "image_mset F (mset_set {1..<Suc n}) = add_mset (F n) (image_mset F (mset_set {1..<n}))"
proof -
  have "mset_set {1..<Suc n} = add_mset n (mset_set {1..<n})"
    unfolding upto_Suc [OF assms] by (rule mset_set.insert) auto
  then show ?thesis by simp
qed

lemma image_upto_cong:
  assumes "\<And>j. 1 \<le> j \<Longrightarrow> j < (n :: nat) \<Longrightarrow> F j = G j"
  shows "image_mset F (mset_set {1..<n}) = image_mset G (mset_set {1..<n})"
  using assms by (intro image_mset_cong) auto

lemma queue_mset_insert:
  assumes "1 \<le> qsize q" "qsize q' = Suc (qsize q)" "\<And>j. j < qsize q \<Longrightarrow> arr q' j = arr q j"
  shows "queue_mset q' = add_mset (arr q' (qsize q)) (queue_mset q)"
  using assms image_upto_cong [of "qsize q" "arr q'" "arr q"]
  by (simp only: queue_mset_def image_upto_Suc)

lemma queue_mset_replace:
  assumes p: "1 \<le> p" "p \<le> n" and n: "qsize q = Suc n" "qsize q' = n"
    and a: "\<And>j. j < n \<Longrightarrow> arr q' j = (if j = p then arr q n else arr q j)"
  shows "queue_mset q = add_mset (arr q p) (queue_mset q')"
proof -
  let ?H = "(arr q)(p := arr q n, n := arr q p)"
  have n1: "1 \<le> n" using p by simp
  have "image_mset (arr q) (mset_set {1..<Suc n}) = image_mset ?H (mset_set {1..<Suc n})"
    using p by (intro image_mset_swap [symmetric]) auto
  also have "\<dots> = add_mset (arr q p) (image_mset ?H (mset_set {1..<n}))"
    using image_upto_Suc [OF n1, of ?H] by simp
  also have "image_mset ?H (mset_set {1..<n}) = image_mset (arr q') (mset_set {1..<n})"
    using a by (intro image_upto_cong) auto
  finally show ?thesis using n by (simp add: queue_mset_def)
qed

lemma arr_in_queue: "1 \<le> j \<Longrightarrow> j < qsize q \<Longrightarrow> arr q j \<in># queue_mset q"
  by (simp add: queue_mset_def)

lemma queue_member_iff: "e \<in># queue_mset q \<longleftrightarrow> (\<exists>j. 1 \<le> j \<and> j < qsize q \<and> arr q j = e)"
  by (auto simp: queue_mset_def)

text \<open>The last element of the queue moves to position \<open>p\<close> of the queue that is one shorter.\<close>

lemma drop_last:
  assumes s: "slots_ok q" and n: "qsize q = Suc n" and p: "1 \<le> p" "p \<le> n"
  shows "\<exists>q'. set_slot (q\<lparr>qsize := n\<rparr>) p (arr q n) = Some q' \<and> slots_ok q' \<and> qsize q' = n \<and>
     qcb q' = qcb q \<and> qavail q' = qavail q \<and> qstep q' = qstep q \<and> length (qd q') = length (qd q) \<and>
     slot q' p = Some (arr q n) \<and> (\<forall>j. arr q' j = (if j = p then arr q n else arr q j)) \<and>
     queue_mset q = add_mset (arr q p) (queue_mset q')"
proof -
  have len: "p < length (qd q)" using s n p by (simp add: slots_ok_def)
  let ?q = "q\<lparr>qsize := n, qd := (qd q)[p := Some (arr q n)]\<rparr>"
  have 1: "set_slot (q\<lparr>qsize := n\<rparr>) p (arr q n) = Some ?q"
    using len by (simp add: set_slot_def)
  have 2: "slots_ok ?q"
    using s n p len by (simp add: slots_ok_def nth_list_update)
  have 3: "\<forall>j. arr ?q j = (if j = p then arr q n else arr q j)"
    using len by (simp add: arr_def nth_list_update)
  have 4: "queue_mset q = add_mset (arr q p) (queue_mset ?q)"
    using 3 by (intro queue_mset_replace [OF p n]) simp_all
  show ?thesis
    using len by (intro exI [of _ ?q] conjI 1 2 3 4) (simp_all add: slot_def)
qed

text \<open>A node beyond the end of the heap has no children, so sifting it down writes it back.\<close>

lemma percolate_down_end:
  assumes "slot q i = Some e" "qsize q \<le> i"
  shows "percolate_down q i w = Some (q, setpos (qcb q) e i w)"
proof -
  from assms(1) have i: "i < length (qd q)" "qd q ! i = Some e"
    by (auto simp: slot_def bind_eq_Some_conv mrd_Some_iff)
  have "maxchild q i w = Some 0" using assms(2) by (simp add: maxchild_def left_child_def)
  then have "percolate_down_loop q (getpri (qcb q) e w) i w = Some (q, i, w)"
    by (subst percolate_down_loop.simps) simp
  moreover have "set_slot q i e = Some q"
    using i list_update_id [of "qd q" i] by (simp add: set_slot_def)
  ultimately show ?thesis using assms(1) by (simp add: percolate_down_def)
qed

context pri_callbacks
begin

text \<open>When one key of a heap changes, the test of the code tells which way the node has to go.\<close>

lemma key_change:
  assumes heap: "heap_on cb P H n" and i: "1 \<le> i" "i < n" and n': "n' \<le> n"
    and same: "\<And>j. 1 \<le> j \<Longrightarrow> j < n' \<Longrightarrow> j \<noteq> i \<Longrightarrow> P' (H' j) = P (H j)"
  shows "cmppri cb (P (H i)) (P' (H' i)) \<noteq> 0 \<Longrightarrow> i < n' \<Longrightarrow> up_inv cb P' H' n' i"
    and "cmppri cb (P (H i)) (P' (H' i)) = 0 \<Longrightarrow> i < n' \<Longrightarrow> down_inv cb P' H' n' i"
    and "n' \<le> i \<Longrightarrow> heap_on cb P' H' n'"
proof -
  let ?le = "\<lambda>x y. cmppri cb x y = 0"
  have edge: "?le (P (H (parent j))) (P (H j))" if "2 \<le> j" "j < n'" for j
    using heap that n' by (auto simp: heap_on_def)
  have par: "1 \<le> parent j \<and> parent j < j" if "2 \<le> j" for j
    using that by (auto simp: parent_def)
  have K: "P' (H' j) = P (H j)" "P' (H' (parent j)) = (if parent j = i then P' (H' i) else P (H (parent j)))"
    if "2 \<le> j" "j < n'" "j \<noteq> i" for j
    using same that par [OF that(1)] by auto
  have grand: "grand_ok cb P' H' n' i" if "i < n'"
    unfolding grand_ok_def
  proof (intro allI impI)
    fix c assume c: "2 \<le> i \<and> c < n' \<and> parent c = i"
    then have c2: "2 \<le> c" "c \<noteq> i" by (auto simp: parent_def)
    have "?le (P (H (parent i))) (P (H i))" "?le (P (H i)) (P (H c))"
      using edge [of i] edge [of c] c c2 that by auto
    then have "?le (P (H (parent i))) (P (H c))" by (rule pri_neg_trans)
    then show "?le (P' (H' (parent i))) (P' (H' c))"
      using same [of c] same [of "parent i"] par [of i] c c2 that by auto
  qed
  show "up_inv cb P' H' n' i" if new: "\<not> ?le (P (H i)) (P' (H' i))" and i': "i < n'"
    unfolding up_inv_def
  proof (intro conjI grand allI impI i')
    fix j assume j: "2 \<le> j \<and> j < n' \<and> j \<noteq> i"
    show "?le (P' (H' (parent j))) (P' (H' j))"
    proof (cases "parent j = i")
      case True
      have "?le (P' (H' i)) (P (H i))" using new by (rule pri_asym)
      then have "?le (P' (H' i)) (P (H j))"
        using edge [of j] j True by (auto intro: pri_neg_trans)
      then show ?thesis using K [of j] j True by simp
    next
      case False
      then show ?thesis using K [of j] edge [of j] j by simp
    qed
  qed
  show "down_inv cb P' H' n' i" if old: "?le (P (H i)) (P' (H' i))" and i': "i < n'"
    unfolding down_inv_def
  proof (intro conjI grand allI impI i')
    fix j assume j: "2 \<le> j \<and> j < n' \<and> parent j \<noteq> i"
    show "?le (P' (H' (parent j))) (P' (H' j))"
    proof (cases "j = i")
      case True
      have "?le (P (H (parent i))) (P (H i))" using edge [of i] j True by simp
      then have "?le (P (H (parent i))) (P' (H' i))" using old by (rule pri_neg_trans)
      then show ?thesis using same [of "parent i"] par [of i] j True by simp
    next
      case False
      then show ?thesis using K [of j] edge [of j] j by simp
    qed
  qed
  show "heap_on cb P' H' n'" if "n' \<le> i"
    unfolding heap_on_def
  proof (intro allI impI)
    fix j assume j: "2 \<le> j \<and> j < n'"
    then have "j \<noteq> i" "parent j \<noteq> i" using that par [of j] by auto
    then show "?le (P' (H' (parent j))) (P' (H' j))" using K [of j] edge [of j] j by simp
  qed
qed

lemma insert_up_inv:
  assumes "heap_on cb P H n" "\<And>j. j < n \<Longrightarrow> H' j = H j"
  shows "up_inv cb P H' (Suc n) n"
proof -
  have "cmppri cb (P (H' (parent j))) (P (H' j)) = 0" if "2 \<le> j" "j < n" for j
  proof -
    have "parent j < n" using that by (simp add: parent_def)
    with assms that show ?thesis by (simp add: heap_on_def)
  qed
  moreover have "\<not> (c < Suc n \<and> parent c = n)" if "2 \<le> n" for c
    using that by (auto simp: parent_def)
  ultimately show ?thesis by (auto simp: up_inv_def grand_ok_def)
qed

text \<open>The new slot of \<open>pqueue_insert\<close>, after the block has grown if it had to.\<close>

lemma insert_slot:
  assumes inv: "qcb q = cb" "pq_inv q w" and d: "qsize q < length d" "\<And>j. j < qsize q \<Longrightarrow> d ! j = qd q ! j"
  shows "\<exists>q'. set_slot (q\<lparr>qd := d, qavail := a, qsize := qsize q + 1\<rparr>) (qsize q) e = Some q' \<and>
    slots_ok q' \<and> qsize q' = Suc (qsize q) \<and> qcb q' = cb \<and> qavail q' = a \<and> qstep q' = qstep q \<and>
    length (qd q') = length d \<and> arr q' (qsize q) = e \<and> (\<forall>j < qsize q. arr q' j = arr q j) \<and>
    queue_mset q' = add_mset e (queue_mset q) \<and>
    up_inv cb (\<lambda>e. getpri cb e w) (arr q') (Suc (qsize q)) (qsize q)"
proof -
  let ?n = "qsize q" and ?q = "q\<lparr>qd := d[qsize q := Some e], qavail := a, qsize := qsize q + 1\<rparr>"
  have s: "slots_ok q" "heap_on cb (\<lambda>e. getpri cb e w) (arr q) ?n" using inv by (auto simp: pq_inv_def)
  have arr: "arr ?q ?n = e" "\<forall>j < ?n. arr ?q j = arr q j"
    using d by (simp_all add: arr_def)
  have "slots_ok ?q"
    using s(1) d by (auto simp: slots_ok_def nth_list_update less_Suc_eq)
  moreover have "queue_mset ?q = add_mset e (queue_mset q)"
    using queue_mset_insert [of q ?q] arr s(1) by (simp add: slots_ok_def)
  moreover have "up_inv cb (\<lambda>e. getpri cb e w) (arr ?q) (Suc ?n) ?n"
    using arr by (intro insert_up_inv [OF s(2)]) simp
  moreover have "set_slot (q\<lparr>qd := d, qavail := a, qsize := ?n + 1\<rparr>) ?n e = Some ?q"
    using d by (simp add: set_slot_def)
  ultimately show ?thesis
    using arr d inv(1) by (intro exI [of _ ?q]) simp
qed

lemma insert_grown:
  assumes inv: "qcb q = cb" "pq_inv q w" "cap_ok q"
    and room: "qsize q + qstep q < 2 ^ 61" "qsize q < qavail q \<or> fst (alloc_next al)"
  obtains q1 where "slots_ok q1" "qsize q1 = Suc (qsize q)" "qcb q1 = cb" "cap_ok q1"
    "arr q1 (qsize q) = e" "\<forall>j < qsize q. arr q1 j = arr q j" "queue_mset q1 = add_mset e (queue_mset q)"
    "up_inv cb (\<lambda>e. getpri cb e w) (arr q1) (qsize q1) (qsize q)"
    "pqueue_insert al q e w = (case bubble_up q1 (qsize q) w of None \<Rightarrow> None
       | Some (q', w') \<Rightarrow> Some (0, q', w', if qsize q < qavail q then al else snd (alloc_next al)))"
proof (cases "qsize q < qavail q")
  case True
  have len: "qsize q < length (qd q)" "length (qd q) = qavail q" using True inv(3) by (auto simp: cap_ok_def)
  obtain q1 where q1: "set_slot (q\<lparr>qd := qd q, qavail := qavail q, qsize := qsize q + 1\<rparr>) (qsize q) e = Some q1"
    and R: "slots_ok q1" "qsize q1 = Suc (qsize q)" "qcb q1 = cb" "qavail q1 = qavail q" "qstep q1 = qstep q"
     "length (qd q1) = length (qd q)" "arr q1 (qsize q) = e" "\<forall>j < qsize q. arr q1 j = arr q j"
     "queue_mset q1 = add_mset e (queue_mset q)"
     "up_inv cb (\<lambda>e. getpri cb e w) (arr q1) (Suc (qsize q)) (qsize q)"
    using insert_slot [OF inv(1,2) len(1), of "qavail q" e] by auto
  have "cap_ok q1" using R len inv(3) True by (simp add: cap_ok_def)
  moreover have "pqueue_insert al q e w = (case bubble_up q1 (qsize q) w of None \<Rightarrow> None
       | Some (q', w') \<Rightarrow> Some (0, q', w', if qsize q < qavail q then al else snd (alloc_next al)))"
    using True q1 by (simp add: pqueue_insert_def split: option.split)
  ultimately show thesis using that [of q1] R by simp
next
  case False
  then obtain al' where al': "alloc_next al = (True, al')" using room(2) by (cases "alloc_next al") auto
  let ?N = "qsize q + qstep q" and ?d = "resize_block (qd q) (qsize q + qstep q)"
  have n: "qsize q = qavail q" "length (qd q) = qavail q" "1 \<le> qstep q" using False inv(3) by (auto simp: cap_ok_def)
  have d: "length ?d = ?N" "\<And>j. j < qsize q \<Longrightarrow> ?d ! j = qd q ! j"
    using n by (auto simp: resize_block_def nth_append)
  have len: "qsize q < length ?d" using d n by simp
  obtain q1 where q1: "set_slot (q\<lparr>qd := ?d, qavail := ?N, qsize := qsize q + 1\<rparr>) (qsize q) e = Some q1"
    and R: "slots_ok q1" "qsize q1 = Suc (qsize q)" "qcb q1 = cb" "qavail q1 = ?N" "qstep q1 = qstep q"
     "length (qd q1) = length ?d" "arr q1 (qsize q) = e" "\<forall>j < qsize q. arr q1 j = arr q j"
     "queue_mset q1 = add_mset e (queue_mset q)"
     "up_inv cb (\<lambda>e. getpri cb e w) (arr q1) (Suc (qsize q)) (qsize q)"
    using insert_slot [OF inv(1,2) len d(2), of ?N e] by auto
  have "cap_ok q1" using R d n by (simp add: cap_ok_def)
  moreover have "pqueue_insert al q e w = (case bubble_up q1 (qsize q) w of None \<Rightarrow> None
       | Some (q', w') \<Rightarrow> Some (0, q', w', if qsize q < qavail q then al else snd (alloc_next al)))"
    using False q1 al' room(1) by (simp add: pqueue_insert_def block_slots_small Let_def split: option.split)
  ultimately show thesis using that [of q1] R by simp
qed

lemma sifted_keeps:
  assumes "sifted q w q' w'" "qcb q = cb"
  shows "pq_inv q' w'" "queue_mset q' = queue_mset q" "qcb q' = cb" "frame q q'" "qsize q' = qsize q"
    "getpri cb e w' = getpri cb e w"
  using assms by (auto simp: sifted_def frame_def)

lemma insert_ok:
  assumes inv: "qcb q = cb" "pq_inv q w" "cap_ok q"
    and room: "qsize q + qstep q < 2 ^ 61" "qsize q < qavail q \<or> fst (alloc_next al)"
  shows "\<exists>q' w' al'. pqueue_insert al q e w = Some (0, q', w', al') \<and> qcb q' = cb \<and> pq_inv q' w' \<and>
    cap_ok q' \<and> queue_mset q' = add_mset e (queue_mset q) \<and> (\<forall>x. getpri cb x w' = getpri cb x w)"
proof -
  have n1: "1 \<le> qsize q" using inv(2) by (simp add: pq_inv_def slots_ok_def)
  obtain q1 where Q: "slots_ok q1" "qsize q1 = Suc (qsize q)" "qcb q1 = cb" "cap_ok q1"
      "queue_mset q1 = add_mset e (queue_mset q)"
      "up_inv cb (\<lambda>e. getpri cb e w) (arr q1) (qsize q1) (qsize q)"
    and ins: "pqueue_insert al q e w = (case bubble_up q1 (qsize q) w of None \<Rightarrow> None
       | Some (q', w') \<Rightarrow> Some (0, q', w', if qsize q < qavail q then al else snd (alloc_next al)))"
    by (rule insert_grown [OF assms, of e])
  have lt: "qsize q < qsize q1" using Q(2) by simp
  obtain q' w' where B: "bubble_up q1 (qsize q) w = Some (q', w')" "sifted q1 w q' w'"
    using bubble_up_ok [OF Q(3,1) n1 lt Q(6)] by blast
  show ?thesis
    using sifted_keeps [OF B(2) Q(3)] frame_cap_ok [of q1 q'] Q(4,5) B(1) ins by simp
qed

lemma insert_fails:
  assumes "cap_ok q" "qavail q \<le> qsize q" "\<not> fst (alloc_next al)"
  shows "pqueue_insert al q e w = Some (1, q, w, snd (alloc_next al))"
  using assms by (cases "alloc_next al") (simp add: pqueue_insert_def)

lemma peek_ok:
  assumes "qcb q = cb" "pq_inv q w" "2 \<le> qsize q"
  shows "pqueue_peek q = Some (Some (arr q 1)) \<and> arr q 1 \<in># queue_mset q \<and>
    (\<forall>x \<in># queue_mset q. cmppri cb (getpri cb (arr q 1) w) (getpri cb x w) = 0)"
proof -
  have "heap_on cb (\<lambda>e. getpri cb e w) (arr q) (qsize q)" "slots_ok q"
    using assms by (auto simp: pq_inv_def)
  then have "cmppri cb (getpri cb (arr q 1) w) (getpri cb (arr q j) w) = 0" if "1 \<le> j" "j < qsize q" for j
    using heap_root_best [of "\<lambda>e. getpri cb e w" "arr q" "qsize q" j] pri_irrefl that by blast
  then show ?thesis
    using assms(3) \<open>slots_ok q\<close> by (auto simp: pqueue_peek_def queue_mset_def)
qed

lemma pop_ok:
  assumes inv: "qcb q = cb" "pq_inv q w" and ne: "2 \<le> qsize q"
  shows "\<exists>q' w'. pqueue_pop q w = Some (Some (arr q 1), q', w') \<and> qcb q' = cb \<and> pq_inv q' w' \<and>
    (cap_ok q \<longrightarrow> cap_ok q') \<and> qsize q = Suc (qsize q') \<and>
    queue_mset q = add_mset (arr q 1) (queue_mset q') \<and> (\<forall>x. getpri cb x w' = getpri cb x w)"
proof -
  let ?P = "\<lambda>e. getpri cb e w"
  obtain n where n: "qsize q = Suc n" "1 \<le> n" using ne by (cases "qsize q") auto
  have s: "slots_ok q" and heap: "heap_on cb ?P (arr q) (Suc n)" using inv n by (auto simp: pq_inv_def)
  obtain q1 where q1: "set_slot (q\<lparr>qsize := n\<rparr>) 1 (arr q n) = Some q1"
    and Q: "slots_ok q1" "qsize q1 = n" "qcb q1 = qcb q" "qavail q1 = qavail q" "qstep q1 = qstep q"
      "length (qd q1) = length (qd q)" "slot q1 1 = Some (arr q n)"
      "\<forall>j. arr q1 j = (if j = 1 then arr q n else arr q j)" "queue_mset q = add_mset (arr q 1) (queue_mset q1)"
    using drop_last [OF s n(1) order_refl n(2)] by auto
  have cap: "cap_ok q \<Longrightarrow> cap_ok q1" using Q n by (simp add: cap_ok_def)
  have pop: "pqueue_pop q w = (case percolate_down q1 1 w of None \<Rightarrow> None
      | Some (q', w') \<Rightarrow> Some (Some (arr q 1), q', w'))"
    using s n q1 by (simp add: pqueue_pop_def split: option.split)
  have cb1: "qcb q1 = cb" using Q inv by simp
  show ?thesis
  proof (cases "n = 1")
    case True
    then have "percolate_down q1 1 w = Some (q1, setpos cb (arr q n) 1 w)"
      using percolate_down_end [OF Q(7)] Q(2) cb1 by simp
    moreover have "pq_inv q1 (setpos cb (arr q n) 1 w)" using Q True by (simp add: pq_inv_def heap_on_def)
    moreover have "\<forall>x. getpri cb x (setpos cb (arr q n) 1 w) = getpri cb x w" by (simp add: getpri_setpos)
    ultimately show ?thesis using pop Q cap cb1 n by simp
  next
    case False
    then have lt: "1 < qsize q1" using n Q by simp
    have root: "cmppri cb (?P (arr q 1)) (?P (arr q1 1)) = 0"
      using heap_root_best [OF heap pri_irrefl, of n] n Q(8) by simp
    have "down_inv cb ?P (arr q1) n 1"
      using False n Q(8) by (intro key_change(2) [where P = ?P and H = "arr q" and n = "Suc n"] heap root) auto
    then obtain q' w' where B: "percolate_down q1 1 w = Some (q', w')" "sifted q1 w q' w'"
      using percolate_down_ok [OF cb1 Q(1) order_refl lt, of w] Q(2) by auto
    show ?thesis
      using sifted_keeps [OF B(2) cb1] frame_cap_ok [of q1 q'] Q(2,9) cap B(1) pop n by simp
  qed
qed

end

text \<open>\<open>pqueue_remove\<close> and \<open>pqueue_change_priority\<close> find the element through its stored position.\<close>

definition sift_at ::
    "('e, 'w) pqueue_t \<Rightarrow> bool \<Rightarrow> nat \<Rightarrow> 'w \<Rightarrow> (('e, 'w) pqueue_t \<times> 'w) option" where
  "sift_at q b i w = (if b then bubble_up q i w else percolate_down q i w)"

context pri_callbacks
begin

lemma sift_at_ok:
  assumes q: "qcb q = cb" "slots_ok q" "1 \<le> i" "i < qsize q"
    and heap: "heap_on cb P H n" "qsize q \<le> n"
    and same: "\<And>j. 1 \<le> j \<Longrightarrow> j < qsize q \<Longrightarrow> j \<noteq> i \<Longrightarrow> getpri cb (arr q j) w = P (H j)"
  shows "\<exists>q' w'. sift_at q (cmppri cb (P (H i)) (getpri cb (arr q i) w) \<noteq> 0) i w = Some (q', w') \<and>
    sifted q w q' w'"
proof -
  let ?P = "\<lambda>e. getpri cb e w"
  have lt: "i < n" using q(4) heap(2) by simp
  note kc = key_change [where P' = ?P and H' = "arr q", OF heap(1) q(3) lt heap(2), OF same]
  show ?thesis
  proof (cases "cmppri cb (P (H i)) (?P (arr q i)) = 0")
    case True
    then show ?thesis
      using percolate_down_ok [OF q, of w] kc(2) q(4) by (simp add: sift_at_def)
  next
    case False
    then show ?thesis
      using bubble_up_ok [OF q, of w] kc(1) q(4) by (simp add: sift_at_def)
  qed
qed

end

context pos_callbacks
begin

lemma sift_at_pos:
  assumes "qcb q = cb" "slots_ok q" "1 \<le> i" "i < qsize q" "pos_hole q i (arr q i) w"
    and "sift_at q b i w = Some (q', w')"
  shows "pos_ok q' w'"
  using assms bubble_up_pos [OF assms(1-5)] percolate_down_pos [OF assms(1-5)]
  by (cases b) (simp_all add: sift_at_def)

lemma pos_ok_distinct:
  assumes "pos_ok q w" "1 \<le> i" "i < qsize q" "1 \<le> j" "j < qsize q"
  shows "arr q i = arr q j \<longleftrightarrow> i = j"
  using assms unfolding pos_ok_def by metis

lemma insert_pos:
  assumes inv: "qcb q = cb" "pq_inv q w" "cap_ok q" "pos_ok q w"
    and room: "qsize q + qstep q < 2 ^ 61" "qsize q < qavail q \<or> fst (alloc_next al)"
    and new: "e \<notin># queue_mset q" and ins: "pqueue_insert al q e w = Some (0, q', w', al')"
  shows "pos_ok q' w'"
proof -
  have n1: "1 \<le> qsize q" using inv(2) by (simp add: pq_inv_def slots_ok_def)
  obtain q1 where Q: "slots_ok q1" "qsize q1 = Suc (qsize q)" "qcb q1 = cb"
      "arr q1 (qsize q) = e" "\<forall>j < qsize q. arr q1 j = arr q j"
    and i: "pqueue_insert al q e w = (case bubble_up q1 (qsize q) w of None \<Rightarrow> None
       | Some (q', w') \<Rightarrow> Some (0, q', w', if qsize q < qavail q then al else snd (alloc_next al)))"
    by (rule insert_grown [OF inv(1-3) room, of e])
  have "pos_hole q1 (qsize q) (arr q1 (qsize q)) w"
    using inv(1,4) new Q by (auto simp: pos_hole_def pos_ok_def queue_member_iff less_Suc_eq)
  moreover have "bubble_up q1 (qsize q) w = Some (q', w')"
    using i ins by (auto split: option.splits)
  moreover have "qsize q < qsize q1" using Q(2) by simp
  ultimately show ?thesis using bubble_up_pos [OF Q(3,1) n1] by blast
qed

lemma change_priority_ok:
  assumes inv: "qcb q = cb" "pq_inv q w" "pos_ok q w" and e: "e \<in># queue_mset q"
  shows "\<exists>q' w'. pqueue_change_priority q p e w = Some (q', w') \<and> qcb q' = cb \<and> pq_inv q' w' \<and>
    pos_ok q' w' \<and> (cap_ok q \<longrightarrow> cap_ok q') \<and> queue_mset q' = queue_mset q \<and>
    (\<forall>x. getpri cb x w' = (if x = e then p else getpri cb x w))"
proof -
  let ?w = "setpri cb e p w" and ?P = "\<lambda>e. getpri cb e w"
  obtain i where i: "1 \<le> i" "i < qsize q" "arr q i = e" using e by (auto simp: queue_member_iff)
  have s: "slots_ok q" and heap: "heap_on cb ?P (arr q) (qsize q)" using inv by (auto simp: pq_inv_def)
  have other: "arr q j \<noteq> e" if "1 \<le> j" "j < qsize q" "j \<noteq> i" for j
    using pos_ok_distinct [OF inv(3) that(1,2) i(1,2)] i(3) that(3) by simp
  have "getpri cb (arr q j) ?w = ?P (arr q j)" if "1 \<le> j" "j < qsize q" "j \<noteq> i" for j
    using other [OF that] by (simp add: getpri_setpri)
  then obtain q' w' where S: "sift_at q (cmppri cb (?P e) p \<noteq> 0) i ?w = Some (q', w')" "sifted q ?w q' w'"
    using sift_at_ok [OF inv(1) s i(1,2) heap order_refl, of ?w] i(3) by (auto simp: getpri_setpri)
  have "getpos cb e ?w = i" using inv(1,3) i by (auto simp: pos_ok_def getpos_setpri)
  then have "pqueue_change_priority q p e w = Some (q', w')"
    using S(1) inv(1) by (simp add: pqueue_change_priority_def sift_at_def)
  moreover have "pos_hole q i (arr q i) ?w"
    using inv(1,3) other i(3) by (auto simp: pos_hole_def pos_ok_def getpos_setpri)
  then have "pos_ok q' w'" using sift_at_pos [OF inv(1) s i(1,2) _ S(1)] by simp
  ultimately show ?thesis
    using sifted_keeps [OF S(2) inv(1)] frame_cap_ok [of q q'] by (simp add: getpri_setpri)
qed

lemma remove_ok:
  assumes inv: "qcb q = cb" "pq_inv q w" "pos_ok q w" and e: "e \<in># queue_mset q"
  shows "\<exists>q' w'. pqueue_remove q e w = Some (0, q', w') \<and> qcb q' = cb \<and> pq_inv q' w' \<and>
    pos_ok q' w' \<and> (cap_ok q \<longrightarrow> cap_ok q') \<and> queue_mset q = add_mset e (queue_mset q') \<and>
    (\<forall>x. getpri cb x w' = getpri cb x w)"
proof -
  let ?P = "\<lambda>e. getpri cb e w"
  obtain i where i: "1 \<le> i" "i < qsize q" "arr q i = e" using e by (auto simp: queue_member_iff)
  obtain n where n: "qsize q = Suc n" "i \<le> n" "1 \<le> n" using i by (cases "qsize q") auto
  have s: "slots_ok q" and heap: "heap_on cb ?P (arr q) (Suc n)" using inv n by (auto simp: pq_inv_def)
  have pos: "getpos cb e w = i" using inv(1,3) i by (auto simp: pos_ok_def)
  obtain q1 where q1: "set_slot (q\<lparr>qsize := n\<rparr>) i (arr q n) = Some q1"
    and Q: "slots_ok q1" "qsize q1 = n" "qcb q1 = qcb q" "qavail q1 = qavail q" "qstep q1 = qstep q"
      "length (qd q1) = length (qd q)" "slot q1 i = Some (arr q n)"
      "\<forall>j. arr q1 j = (if j = i then arr q n else arr q j)" "queue_mset q = add_mset e (queue_mset q1)"
    using drop_last [OF s n(1) i(1) n(2)] i(3) by auto
  have cb1: "qcb q1 = cb" using Q inv by simp
  have cap: "cap_ok q \<Longrightarrow> cap_ok q1" using Q n by (simp add: cap_ok_def)
  have rem: "pqueue_remove q e w =
      (case sift_at q1 (cmppri cb (?P e) (?P (arr q n)) \<noteq> 0) i w of None \<Rightarrow> None
       | Some (q', w') \<Rightarrow> Some (0, q', w'))"
    using s n q1 pos inv(1) cb1 by (simp add: pqueue_remove_def sift_at_def split: option.split)
  show ?thesis
  proof (cases "i = n")
    case True
    have "sift_at q1 (cmppri cb (?P e) (?P (arr q n)) \<noteq> 0) i w = Some (q1, setpos cb e i w)"
      using percolate_down_end [OF Q(7)] Q(2) cb1 True i(3) by (simp add: sift_at_def pri_irrefl)
    moreover have eq: "getpri cb x (setpos cb e i w) = ?P x" for x by (simp add: getpri_setpos)
    moreover have "pq_inv q1 (setpos cb e i w)"
      using key_change(3) [OF heap i(1), of n "\<lambda>x. getpri cb x (setpos cb e i w)" "arr q1"] Q True cb1 n eq
      by (simp add: pq_inv_def)
    moreover have "arr q j \<noteq> e" if "1 \<le> j" "j < n" for j
      using pos_ok_distinct [OF inv(3), of j i] that i n True by auto
    then have "pos_ok q1 (setpos cb e i w)"
      using inv(1,3) Q cb1 True n by (auto simp: pos_ok_def getpos_setpos)
    ultimately show ?thesis using rem Q(9) cap cb1 n by simp
  next
    case False
    then have lt: "i < qsize q1" using n Q by simp
    have "?P (arr q1 j) = ?P (arr q j)" if "j \<noteq> i" for j using Q(8) that by simp
    then obtain q' w' where S: "sift_at q1 (cmppri cb (?P e) (?P (arr q n)) \<noteq> 0) i w = Some (q', w')"
        "sifted q1 w q' w'"
      using sift_at_ok [OF cb1 Q(1) i(1) lt heap, of w] Q(2,8) i(3) by auto
    have "arr q j \<noteq> arr q n" if "1 \<le> j" "j < n" for j
      using pos_ok_distinct [OF inv(3), of j n] that n by auto
    then have "pos_hole q1 i (arr q1 i) w"
      using inv(1,3) Q n(1) by (auto simp: pos_hole_def pos_ok_def)
    then have "pos_ok q' w'" using sift_at_pos [OF cb1 Q(1) i(1) lt _ S(1)] by simp
    then show ?thesis
      using sifted_keeps [OF S(2) cb1] frame_cap_ok [of q1 q'] Q(9) cap S(1) rem by simp
  qed
qed

lemma pop_pos:
  assumes inv: "qcb q = cb" "pq_inv q w" "pos_ok q w" and ne: "2 \<le> qsize q"
    and pop: "pqueue_pop q w = Some (x, q', w')"
  shows "pos_ok q' w'"
proof -
  obtain n where n: "qsize q = Suc n" "1 \<le> n" using ne by (cases "qsize q") auto
  have s: "slots_ok q" using inv by (auto simp: pq_inv_def)
  obtain q1 where q1: "set_slot (q\<lparr>qsize := n\<rparr>) 1 (arr q n) = Some q1"
    and Q: "slots_ok q1" "qsize q1 = n" "qcb q1 = qcb q" "slot q1 1 = Some (arr q n)"
      "\<forall>j. arr q1 j = (if j = 1 then arr q n else arr q j)"
    using drop_last [OF s n(1) order_refl n(2)] by auto
  have cb1: "qcb q1 = cb" using Q inv by simp
  have down: "percolate_down q1 1 w = Some (q', w')"
    using s n q1 pop by (simp add: pqueue_pop_def bind_eq_Some_conv split: option.splits prod.splits)
  show ?thesis
  proof (cases "n = 1")
    case True
    then show ?thesis
      using down percolate_down_end [OF Q(4), of w] Q(2) by (simp add: pos_ok_def) 
  next
    case False
    have "arr q j \<noteq> arr q n" if "1 \<le> j" "j < n" for j
      using pos_ok_distinct [OF inv(3), of j n] that n by auto
    then have "pos_hole q1 1 (arr q1 1) w"
      using inv(1,3) Q n(1) by (auto simp: pos_hole_def pos_ok_def)
    then show ?thesis
      using percolate_down_pos [OF cb1 Q(1) order_refl _ _ down] False n Q(2) by simp
  qed
qed

end

section \<open>Validity check and heap sort\<close>

text \<open>\<open>anc i j\<close>: node \<open>i\<close> is node \<open>j\<close> or one of its ancestors.\<close>

definition anc :: "nat \<Rightarrow> nat \<Rightarrow> bool" where
  "anc i j \<longleftrightarrow> (\<exists>k. j div 2 ^ k = i)"

lemma anc_unfold: "anc i j \<longleftrightarrow> j = i \<or> anc (left_child i) j \<or> anc (right_child i) j"
proof
  assume "anc i j"
  then obtain k where k: "j div 2 ^ k = i" by (auto simp: anc_def)
  show "j = i \<or> anc (left_child i) j \<or> anc (right_child i) j"
  proof (cases k)
    case 0
    with k show ?thesis by simp
  next
    case (Suc k')
    then have "j div 2 ^ k' div 2 = i" using k by (simp add: div_mult2_eq [symmetric] mult.commute)
    then have "j div 2 ^ k' = 2 * i \<or> j div 2 ^ k' = 2 * i + 1" by linarith
    then show ?thesis by (auto simp: anc_def left_child_def right_child_def)
  qed
next
  have up: "anc i j" if c: "anc c j" "c div 2 = i" for c
  proof -
    obtain k where "j div 2 ^ k = c" using c(1) by (auto simp: anc_def)
    then have "j div 2 ^ Suc k = i" using c(2) by (simp only: power_Suc2 div_mult2_eq)
    then show ?thesis unfolding anc_def by blast
  qed
  assume "j = i \<or> anc (left_child i) j \<or> anc (right_child i) j"
  then show "anc i j"
  proof (elim disjE)
    assume "j = i"
    then have "j div 2 ^ 0 = i" by simp
    then show ?thesis unfolding anc_def by blast
  qed (auto intro: up simp: left_child_def right_child_def)
qed

lemma anc_le: "anc i j \<Longrightarrow> i \<le> j"
  by (auto simp: anc_def)

lemma anc_root: "1 \<le> j \<Longrightarrow> anc 1 j"
proof (induction j rule: less_induct)
  case (less j)
  show ?case
  proof (cases "j = 1")
    case False
    then have "anc 1 (j div 2)" using less by simp
    then obtain k where "j div 2 div 2 ^ k = 1" by (auto simp: anc_def)
    then have "j div 2 ^ Suc k = 1" by (simp add: div_mult2_eq)
    then show ?thesis unfolding anc_def by blast
  qed (auto simp: anc_def intro: exI [of _ 0])
qed

definition subtree_heap :: "('e, 'w) pqueue_t \<Rightarrow> 'w \<Rightarrow> nat \<Rightarrow> bool" where
  "subtree_heap q w i \<longleftrightarrow> (\<forall>j. 2 \<le> j \<and> j < qsize q \<and> anc i (parent j) \<longrightarrow>
     cmppri (qcb q) (getpri (qcb q) (arr q (parent j)) w) (getpri (qcb q) (arr q j) w) = 0)"

lemma parent_eq: "2 \<le> j \<Longrightarrow> parent j = i \<longleftrightarrow> j = left_child i \<or> j = right_child i"
  by (auto simp: parent_def left_child_def right_child_def)

lemma subtree_heap_unfold:
  fixes q :: "('e, 'w) pqueue_t" and w :: 'w
  assumes "1 \<le> i"
  defines "le \<equiv> \<lambda>a b. cmppri (qcb q) (getpri (qcb q) (arr q a) w) (getpri (qcb q) (arr q b) w) = 0"
  shows "subtree_heap q w i \<longleftrightarrow>
    (left_child i < qsize q \<longrightarrow> le i (left_child i) \<and> subtree_heap q w (left_child i)) \<and>
    (right_child i < qsize q \<longrightarrow> le i (right_child i) \<and> subtree_heap q w (right_child i))"
proof -
  have big: "qsize q \<le> c \<Longrightarrow> subtree_heap q w c" for c
    unfolding subtree_heap_def using anc_le [of c] by (fastforce simp: parent_def)
  have kids: "2 \<le> left_child i" "2 \<le> right_child i"
    "parent (left_child i) = i" "parent (right_child i) = i"
    using assms(1) by (auto simp: left_child_def right_child_def parent_def)
  have "subtree_heap q w i \<longleftrightarrow> subtree_heap q w (left_child i) \<and> subtree_heap q w (right_child i) \<and>
      (\<forall>j. 2 \<le> j \<and> j < qsize q \<and> parent j = i \<longrightarrow> le i j)"
    unfolding subtree_heap_def le_def anc_unfold [of i] by blast
  also have "(\<forall>j. 2 \<le> j \<and> j < qsize q \<and> parent j = i \<longrightarrow> le i j) \<longleftrightarrow>
      (left_child i < qsize q \<longrightarrow> le i (left_child i)) \<and> (right_child i < qsize q \<longrightarrow> le i (right_child i))"
    using kids parent_eq by metis
  finally show ?thesis using big [of "left_child i"] big [of "right_child i"] by linarith
qed

lemma subtree_is_valid_ok:
  assumes "slots_ok q" "1 \<le> i" "i < qsize q \<or> i = 1" "qsize q < fuel + i" "qsize q \<le> 2 ^ 30"
  shows "subtree_is_valid fuel q i w = Some (if subtree_heap q w i then 1 else 0)"
  using assms
proof (induction fuel arbitrary: i)
  case 0
  then show ?case by (auto simp: slots_ok_def)
next
  case (Suc fuel)
  have kids: "1 \<le> left_child i" "1 \<le> right_child i" "qsize q < fuel + left_child i"
    "qsize q < fuel + right_child i" "left_child i < right_child i"
    using Suc.prems by (auto simp: left_child_def right_child_def)
  have int: "cint (int (left_child i)) = Some (int (left_child i))"
    "cint (int (right_child i)) = Some (int (right_child i))"
    using Suc.prems(3,5) by (auto simp: cint_def INT_MAX_def INT_MIN_def left_child_def right_child_def)
  have sub: "subtree_is_valid fuel q c w = Some (if subtree_heap q w c then 1 else 0)"
    if "c = left_child i \<or> c = right_child i" "c < qsize q" for c
    using Suc.IH [of c] Suc.prems(1,5) kids that by auto
  have i: "left_child i < qsize q \<or> right_child i < qsize q \<Longrightarrow> i < qsize q"
    by (auto simp: left_child_def right_child_def)
  show ?case
    using Suc.prems(1,2) i kids sub [of "left_child i"] sub [of "right_child i"]
      subtree_heap_unfold [OF Suc.prems(2), of q w]
    by (cases "left_child i < qsize q"; cases "right_child i < qsize q") (simp_all add: int)
qed

lemma pqueue_is_valid_ok:
  assumes "slots_ok q" "qsize q \<le> 2 ^ 30"
  shows "pqueue_is_valid q w = Some (if pq_inv q w then 1 else 0)"
proof -
  have "subtree_heap q w 1 = heap_on (qcb q) (\<lambda>e. getpri (qcb q) e w) (arr q) (qsize q)"
    using anc_root by (auto simp: subtree_heap_def heap_on_def parent_def)
  then show ?thesis
    using subtree_is_valid_ok [OF assms(1), of 1 "qsize q + 1" w] assms
    by (simp add: pqueue_is_valid_def pq_inv_def)
qed

lemma print_callbacks:
  "pri_callbacks cb \<Longrightarrow> pri_callbacks (cb\<lparr>setpri := set_pri_nop, setpos := set_pos_nop\<rparr>)"
proof (rule pri_callbacks.intro, goal_cases)
  case (2 x y)
  then show ?case using pri_callbacks.pri_asym [of cb x y] by simp
next
  case (3 x y z)
  then show ?case using pri_callbacks.pri_neg_trans [of cb x y z] by simp
qed (simp add: set_pos_nop_def)

context pri_callbacks
begin

lemma print_loop_ok:
  assumes "qcb q = cb" "pq_inv q w" "qsize q \<le> fuel"
  shows "\<exists>es. print_loop fuel q w = Some es \<and> mset es = queue_mset q \<and>
    sorted_wrt (\<lambda>a b. cmppri cb (getpri cb a w) (getpri cb b w) = 0) es"
  using assms
proof (induction fuel arbitrary: q w)
  case 0
  then show ?case by (simp add: pq_inv_def slots_ok_def)
next
  case (Suc fuel)
  show ?case
  proof (cases "2 \<le> qsize q")
    case False
    then have "qsize q = 1" using Suc.prems(2) by (simp add: pq_inv_def slots_ok_def)
    then show ?thesis by (simp add: pqueue_pop_def queue_mset_def)
  next
    case True
    obtain q' w' where P: "pqueue_pop q w = Some (Some (arr q 1), q', w')" "qcb q' = cb" "pq_inv q' w'"
        "qsize q = Suc (qsize q')" "queue_mset q = add_mset (arr q 1) (queue_mset q')"
        "\<forall>x. getpri cb x w' = getpri cb x w"
      using pop_ok [OF Suc.prems(1,2) True] by blast
    then obtain es where es: "print_loop fuel q' w' = Some es" "mset es = queue_mset q'"
        "sorted_wrt (\<lambda>a b. cmppri cb (getpri cb a w') (getpri cb b w') = 0) es"
      using Suc.IH [of q' w'] Suc.prems(3) by auto
    have "\<forall>x \<in> set es. cmppri cb (getpri cb (arr q 1) w) (getpri cb x w) = 0"
      using peek_ok [OF Suc.prems(1,2) True] P(5) es(2) by (metis set_mset_mset union_iff add_mset_add_single)
    then show ?thesis using P es by simp
  qed
qed

end

lemma pqueue_print_ok:
  assumes cb: "pri_callbacks (qcb q)" and inv: "pq_inv q w" "qsize q + 1 < 2 ^ 61"
    and al: "fst (alloc_next al)" "fst (alloc_next (snd (alloc_next al)))"
  shows "\<exists>es. pqueue_print al q w = Some es \<and> mset es = queue_mset q \<and>
    sorted_wrt (\<lambda>a b. cmppri (qcb q) (getpri (qcb q) a w) (getpri (qcb q) b w) = 0) es"
proof -
  let ?cb = "(qcb q)\<lparr>setpri := set_pri_nop, setpos := set_pos_nop\<rparr>"
  obtain al' al'' where a: "alloc_next al = (True, al')" "alloc_next al' = (True, al'')"
    using al by (metis prod.collapse snd_conv)
  let ?d = "take (qsize q) (qd q) @ drop (qsize q) (replicate (qsize q + 1) None)"
  let ?dup = "\<lparr>qsize = qsize q, qavail = qavail q, qstep = qstep q, qcb = ?cb, qd = ?d\<rparr>"
  have s: "slots_ok q" and heap: "heap_on (qcb q) (\<lambda>e. getpri (qcb q) e w) (arr q) (qsize q)"
    using inv by (auto simp: pq_inv_def)
  have len: "qsize q \<le> length (qd q)" "1 \<le> qsize q" using s by (auto simp: slots_ok_def)
  have print: "pqueue_print al q w = print_loop (qsize q) ?dup w"
    using a inv(2) len by (simp add: pqueue_print_def pqueue_init_def block_slots_small)
  have arr: "arr ?dup j = arr q j" if "j < qsize q" for j
    using that len by (simp add: arr_def nth_append)
  have par: "parent j < qsize q" if "j < qsize q" for j using that by (simp add: parent_def)
  have "slots_ok ?dup" using s len by (auto simp: slots_ok_def nth_append)
  then have "pq_inv ?dup w"
    using heap arr par by (simp add: pq_inv_def heap_on_def)
  moreover have "queue_mset ?dup = queue_mset q"
    unfolding queue_mset_def using arr by (simp only: pqueue_t.simps) (intro image_upto_cong)
  ultimately show ?thesis
    using pri_callbacks.print_loop_ok [OF print_callbacks [OF cb], of ?dup w "qsize q"] print by simp
qed

section \<open>The queue as a client sees it\<close>

definition queue_inv :: "('e, 'w) pqueue_t \<Rightarrow> 'w \<Rightarrow> bool" where
  "queue_inv q w \<longleftrightarrow> pq_inv q w \<and> pos_ok q w \<and> cap_ok q"

datatype 'e pq_cmd = CInsert 'e | CPop | CRemove 'e | CChange 'e u64
datatype 'e pq_event = Done | NoMemory | Popped 'e | Empty

fun pq_exec ::
    "'e pq_cmd \<Rightarrow> ('e, 'w) pqueue_t \<times> 'w \<times> alloc \<Rightarrow> ('e pq_event \<times> ('e, 'w) pqueue_t \<times> 'w \<times> alloc) option" where
  "pq_exec (CInsert e) (q, w, al) = do {
     (r, q, w, al) \<leftarrow> pqueue_insert al q e w;
     Some (if r = 0 then Done else NoMemory, q, w, al)
   }"
| "pq_exec CPop (q, w, al) = do {
     (x, q, w) \<leftarrow> pqueue_pop q w;
     Some (case x of None \<Rightarrow> Empty | Some e \<Rightarrow> Popped e, q, w, al)
   }"
| "pq_exec (CRemove e) (q, w, al) = do { (r, q, w) \<leftarrow> pqueue_remove q e w; Some (Done, q, w, al) }"
| "pq_exec (CChange e p) (q, w, al) = do { (q, w) \<leftarrow> pqueue_change_priority q p e w; Some (Done, q, w, al) }"

text \<open>What the client may ask: no element twice, no element that is not in the queue.\<close>

fun legal :: "'e pq_cmd \<Rightarrow> ('e, 'w) pqueue_t \<Rightarrow> bool" where
  "legal (CInsert e) q \<longleftrightarrow> e \<notin># queue_mset q \<and> qsize q + qstep q < 2 ^ 61"
| "legal CPop q \<longleftrightarrow> True"
| "legal (CRemove e) q \<longleftrightarrow> e \<in># queue_mset q"
| "legal (CChange e p) q \<longleftrightarrow> e \<in># queue_mset q"

inductive pq_reach :: "('e, 'w) pqueue_cb \<Rightarrow> ('e, 'w) pqueue_t \<times> 'w \<times> alloc \<Rightarrow> bool" for cb where
  pq_start: "pqueue_init al n cb = (Some q, al') \<Longrightarrow> n + 1 < 2 ^ 61 \<Longrightarrow> pq_reach cb (q, w, al')"
| pq_step: "pq_reach cb (q, w, al) \<Longrightarrow> legal c q \<Longrightarrow> pq_exec c (q, w, al) = Some (ev, s') \<Longrightarrow> pq_reach cb s'"

text \<open>
  The specification: a multiset of elements and their priorities. A failed \<open>realloc\<close> leaves it
  alone; \<open>pop\<close> removes an element that no other element is better than.
\<close>

fun spec_step ::
    "(u64 \<Rightarrow> u64 \<Rightarrow> int) \<Rightarrow> 'e multiset \<times> ('e \<Rightarrow> u64) \<Rightarrow> 'e pq_cmd \<Rightarrow> 'e pq_event \<Rightarrow> 'e multiset \<times> ('e \<Rightarrow> u64) \<Rightarrow> bool"
where
  "spec_step worse (M, P) (CInsert e) ev (M', P') \<longleftrightarrow>
     P' = P \<and> (ev = Done \<and> M' = add_mset e M \<or> ev = NoMemory \<and> M' = M)"
| "spec_step worse (M, P) CPop ev (M', P') \<longleftrightarrow> P' = P \<and>
     (if M = {#} then ev = Empty \<and> M' = {#}
      else (\<exists>e. ev = Popped e \<and> M = add_mset e M' \<and> (\<forall>x \<in># M. worse (P e) (P x) = 0)))"
| "spec_step worse (M, P) (CRemove e) ev (M', P') \<longleftrightarrow> P' = P \<and> ev = Done \<and> M = add_mset e M'"
| "spec_step worse (M, P) (CChange e p) ev (M', P') \<longleftrightarrow> P' = P(e := p) \<and> ev = Done \<and> M' = M"

definition pq_abs :: "('e, 'w) pqueue_t \<Rightarrow> 'w \<Rightarrow> 'e multiset \<times> ('e \<Rightarrow> u64)" where
  "pq_abs q w = (queue_mset q, \<lambda>e. getpri (qcb q) e w)"

lemma queue_empty_iff: "slots_ok q \<Longrightarrow> queue_mset q = {#} \<longleftrightarrow> qsize q = 1"
  by (auto simp: queue_mset_def slots_ok_def mset_set_empty_iff)

lemma queue_inv_init:
  assumes "pqueue_init al n cb = (Some q, al')" "n + 1 < 2 ^ 61"
  shows "queue_inv q w" "qcb q = cb" "queue_mset q = {#}"
  using assms
  by (auto simp: pqueue_init_def queue_inv_def pq_inv_def slots_ok_def heap_on_def pos_ok_def cap_ok_def
      queue_mset_def block_slots_small split: prod.splits if_splits)

context pos_callbacks
begin

lemma insert_full:
  assumes "qcb q = cb" "queue_inv q w" "e \<notin># queue_mset q" "qsize q + qstep q < 2 ^ 61"
    and "qsize q < qavail q \<or> fst (alloc_next al)"
  shows "\<exists>q' w' al'. pqueue_insert al q e w = Some (0, q', w', al') \<and> qcb q' = cb \<and> queue_inv q' w' \<and>
    queue_mset q' = add_mset e (queue_mset q) \<and> (\<forall>x. getpri cb x w' = getpri cb x w)"
  using assms insert_ok [of q w al e] insert_pos [of q w al e] by (auto simp: queue_inv_def)

lemma pop_full:
  assumes "qcb q = cb" "queue_inv q w" "queue_mset q \<noteq> {#}"
  shows "\<exists>e q' w'. pqueue_pop q w = Some (Some e, q', w') \<and> pqueue_peek q = Some (Some e) \<and>
    qcb q' = cb \<and> queue_inv q' w' \<and> queue_mset q = add_mset e (queue_mset q') \<and>
    (\<forall>x \<in># queue_mset q. cmppri cb (getpri cb e w) (getpri cb x w) = 0) \<and>
    (\<forall>x. getpri cb x w' = getpri cb x w)"
proof -
  have inv: "pq_inv q w" "pos_ok q w" "cap_ok q" "slots_ok q" using assms by (auto simp: queue_inv_def pq_inv_def)
  then have ne: "2 \<le> qsize q" using assms(3) queue_empty_iff [of q] by (auto simp: slots_ok_def)
  obtain q' w' where P: "pqueue_pop q w = Some (Some (arr q 1), q', w')" "qcb q' = cb" "pq_inv q' w'"
      "cap_ok q'" "queue_mset q = add_mset (arr q 1) (queue_mset q')" "\<forall>x. getpri cb x w' = getpri cb x w"
    using pop_ok [OF assms(1) inv(1) ne] inv(3) by blast
  show ?thesis
    using P peek_ok [OF assms(1) inv(1) ne] pop_pos [OF assms(1) inv(1,2) ne P(1)]
    by (intro exI [of _ "arr q 1"] exI [of _ q'] exI [of _ w']) (simp add: queue_inv_def)
qed

lemma exec_refines:
  assumes "qcb q = cb" "queue_inv q w" "legal c q"
  shows "\<exists>ev q' w' al'. pq_exec c (q, w, al) = Some (ev, q', w', al') \<and> qcb q' = cb \<and> queue_inv q' w' \<and>
    spec_step (cmppri cb) (pq_abs q w) c ev (pq_abs q' w')"
proof (cases c)
  case (CInsert e)
  show ?thesis
  proof (cases "qsize q < qavail q \<or> fst (alloc_next al)")
    case True
    then show ?thesis
      using insert_full [OF assms(1,2), of e al] assms(1,3) CInsert by (auto simp: pq_abs_def)
  next
    case False
    then show ?thesis
      using insert_fails [of q al e w] assms CInsert by (auto simp: pq_abs_def queue_inv_def)
  qed
next
  case CPop
  show ?thesis
  proof (cases "queue_mset q = {#}")
    case True
    then have "pqueue_pop q w = Some (None, q, w)"
      using queue_empty_iff [of q] assms(2) by (simp add: pqueue_pop_def queue_inv_def pq_inv_def)
    then show ?thesis using True assms CPop by (simp add: pq_abs_def)
  next
    case False
    obtain e q' w' where P: "pqueue_pop q w = Some (Some e, q', w')"
        "qcb q' = cb" "queue_inv q' w'" "queue_mset q = add_mset e (queue_mset q')"
        "\<forall>x \<in># queue_mset q. cmppri cb (getpri cb e w) (getpri cb x w) = 0"
        "\<forall>x. getpri cb x w' = getpri cb x w"
      using pop_full [OF assms(1,2) False] by blast
    have "spec_step (cmppri cb) (pq_abs q w) CPop (Popped e) (pq_abs q' w')"
      using P False assms(1) by (auto simp: pq_abs_def)
    then show ?thesis using P(1-3) CPop by simp
  qed
next
  case (CRemove e)
  then show ?thesis
    using remove_ok [OF assms(1), of w e] assms by (auto simp: pq_abs_def queue_inv_def)
next
  case (CChange e p)
  then show ?thesis
    using change_priority_ok [OF assms(1), of w e p] assms by (auto simp: pq_abs_def queue_inv_def fun_eq_iff)
qed

lemma reach_inv: "pq_reach cb s \<Longrightarrow> case s of (q, w, al) \<Rightarrow> qcb q = cb \<and> queue_inv q w"
proof (induction rule: pq_reach.induct)
  case (pq_start al n q al' w)
  then show ?case using queue_inv_init [of al n cb q al'] by simp
next
  case (pq_step q w al c ev s')
  obtain ev1 q1 w1 al1 where E: "pq_exec c (q, w, al) = Some (ev1, q1, w1, al1)" "qcb q1 = cb"
      "queue_inv q1 w1"
    using exec_refines [of q w c al] pq_step.IH pq_step.hyps(2) by blast
  have "s' = (q1, w1, al1)" using E(1) pq_step.hyps(3) by simp
  then show ?case using E(2,3) by simp
qed

end

section \<open>The callbacks of the sample program\<close>

text \<open>
  The nodes of \<open>test/pqueue/sample.c\<close>, in a memory that maps addresses to nodes: the smallest
  priority is served last, as \<open>cmp_pri\<close> says.
\<close>

record node_t =
  npri :: u64
  nval :: int
  npos :: nat

definition cmp_pri :: "u64 \<Rightarrow> u64 \<Rightarrow> int" where
  "cmp_pri nxt cur = (if nxt < cur then 1 else 0)"

definition get_pri :: "nat \<Rightarrow> (nat \<Rightarrow> node_t) \<Rightarrow> u64" where
  "get_pri a w = npri (w a)"

definition set_pri :: "nat \<Rightarrow> u64 \<Rightarrow> (nat \<Rightarrow> node_t) \<Rightarrow> (nat \<Rightarrow> node_t)" where
  "set_pri a pri w = w(a := (w a)\<lparr>npri := pri\<rparr>)"

definition get_pos :: "nat \<Rightarrow> (nat \<Rightarrow> node_t) \<Rightarrow> nat" where
  "get_pos a w = npos (w a)"

definition set_pos :: "nat \<Rightarrow> nat \<Rightarrow> (nat \<Rightarrow> node_t) \<Rightarrow> (nat \<Rightarrow> node_t)" where
  "set_pos a pos w = w(a := (w a)\<lparr>npos := pos\<rparr>)"

definition sample_cb :: "(nat, nat \<Rightarrow> node_t) pqueue_cb" where
  "sample_cb = \<lparr>cmppri = cmp_pri, getpri = get_pri, setpri = set_pri, getpos = get_pos, setpos = set_pos\<rparr>"

lemmas sample_defs = sample_cb_def cmp_pri_def get_pri_def set_pri_def get_pos_def set_pos_def

interpretation sample: pos_callbacks sample_cb
  by unfold_locales (auto simp: sample_defs split: if_splits)

definition sample_mem :: "nat \<Rightarrow> node_t" where
  "sample_mem a = \<lparr>npri = of_nat (10 - a), nval = 0, npos = a\<rparr>"

definition sample_q :: "(nat, nat \<Rightarrow> node_t) pqueue_t" where
  "sample_q = \<lparr>qsize = 4, qavail = 4, qstep = 4, qcb = sample_cb, qd = [None, Some 1, Some 2, Some 3]\<rparr>"

lemma sample_facts:
  "queue_inv sample_q sample_mem" "qcb sample_q = sample_cb" "queue_mset sample_q = {#1, 2, 3#}"
proof -
  have a: "arr sample_q j = j" if "1 \<le> j" "j < 4" for j
  proof -
    have "j = 1 \<or> j = 2 \<or> j = 3" using that by auto
    then show ?thesis by (auto simp: arr_def sample_q_def)
  qed
  have j: "2 \<le> j \<and> j < 4 \<longleftrightarrow> j = 2 \<or> j = (3 :: nat)" "1 \<le> i \<and> i < 4 \<longleftrightarrow> i = 1 \<or> i = 2 \<or> i = (3 :: nat)" for i j
    by auto
  show cb: "qcb sample_q = sample_cb" by (simp add: sample_q_def)
  have "heap_on sample_cb (\<lambda>e. getpri sample_cb e sample_mem) (arr sample_q) 4"
    unfolding heap_on_def j by (auto simp: a parent_def sample_defs sample_mem_def)
  moreover have "slots_ok sample_q"
    unfolding slots_ok_def by (auto simp: sample_q_def nth_Cons split: nat.split)
  moreover have "pos_ok sample_q sample_mem"
    unfolding pos_ok_def cb using a by (auto simp: sample_q_def sample_defs sample_mem_def)
  moreover have "cap_ok sample_q" by (simp add: cap_ok_def sample_q_def)
  moreover have "qsize sample_q = 4" by (simp add: sample_q_def)
  ultimately show "queue_inv sample_q sample_mem" by (simp add: queue_inv_def pq_inv_def cb)
  have "{1..<4} = {1, 2, 3 :: nat}" by auto
  then show "queue_mset sample_q = {#1, 2, 3#}"
    using a \<open>qsize sample_q = 4\<close> by (simp add: queue_mset_def)
qed

section \<open>Properties\<close>

text \<open>
  C4: A client that never inserts an element twice and only removes or re-prioritises elements of
  the queue never drives the code into undefined behaviour, whatever the allocator does: in every
  reachable state each further operation returns, and it acts on the multiset of elements and
  their priorities as the specification of a priority queue says.
\<close>

theorem pqueue_refines:
  assumes "pos_callbacks cb" "pq_reach cb (q, w, al)" "legal c q"
  shows "\<exists>ev q' w' al'. pq_exec c (q, w, al) = Some (ev, q', w', al') \<and>
    spec_step (cmppri cb) (pq_abs q w) c ev (pq_abs q' w')"
  using pos_callbacks.reach_inv [OF assms(1,2)]
    pos_callbacks.exec_refines [OF assms(1), of q w c al] assms(3) by auto

theorem pqueue_refines_witness:
  "\<exists>q w ev q' w' al'. pq_reach sample_cb (q, w, [False]) \<and> queue_mset q = {#7#} \<and>
    pq_exec (CChange 7 3) (q, w, [False]) = Some (ev, q', w', al') \<and>
    spec_step (cmppri sample_cb) (pq_abs q w) (CChange 7 3) ev (pq_abs q' w')"
proof -
  obtain q0 where q0: "pqueue_init [True, True, False] 1 sample_cb = (Some q0, [False])"
    by (simp add: pqueue_init_def)
  then have "qsize q0 = 1" "qavail q0 = 2" "qstep q0 = 2" by (auto simp: pqueue_init_def)
  note inv = queue_inv_init [OF q0]
  have start: "pq_reach sample_cb (q0, sample_mem, [False])" by (rule pq_start [OF q0]) simp
  obtain q w al' where I: "pqueue_insert [False] q0 7 sample_mem = Some (0, q, w, al')"
      "queue_mset q = {#7#}"
    using sample.insert_full [of q0 sample_mem 7 "[False]"] inv \<open>qsize q0 = 1\<close> \<open>qavail q0 = 2\<close> \<open>qstep q0 = 2\<close>
    by auto
  have "al' = [False]"
    using I(1) \<open>qsize q0 = 1\<close> \<open>qavail q0 = 2\<close> by (auto simp: pqueue_insert_def bind_eq_Some_conv)
  then have "pq_reach sample_cb (q, w, [False])"
    using pq_step [OF start, of "CInsert 7"] I(1) inv \<open>qsize q0 = 1\<close> \<open>qstep q0 = 2\<close> by simp
  moreover have "legal (CChange 7 3) q" using I(2) by simp
  ultimately show ?thesis
    using pqueue_refines [OF sample.pos_callbacks_axioms] I(2) by blast
qed

text \<open>
  \<open>pqueue_insert\<close> adds the element, growing the block when it is full; only a full queue whose
  \<open>realloc\<close> fails returns 1, and then nothing has changed.
\<close>

theorem pqueue_insert_spec:
  assumes "pos_callbacks cb" "qcb q = cb" "queue_inv q w" "e \<notin># queue_mset q" "qsize q + qstep q < 2 ^ 61"
  shows "if qsize q < qavail q \<or> fst (alloc_next al)
    then (\<exists>q' w' al'. pqueue_insert al q e w = Some (0, q', w', al') \<and> queue_inv q' w' \<and>
           queue_mset q' = add_mset e (queue_mset q))
    else pqueue_insert al q e w = Some (1, q, w, snd (alloc_next al))"
  using pos_callbacks.insert_full [OF assms, of al] assms(3) pri_callbacks.insert_fails [of cb q al e w]
    pos_callbacks.axioms(1) [OF assms(1)] by (auto simp: queue_inv_def)

theorem pqueue_insert_spec_witness:
  "(\<exists>q' w' al'. pqueue_insert [] sample_q 4 sample_mem = Some (0, q', w', al') \<and>
     queue_mset q' = {#1, 2, 3, 4#}) \<and>
   pqueue_insert [False] sample_q 4 sample_mem = Some (1, sample_q, sample_mem, [])"
proof -
  have q: "qsize sample_q = 4" "qavail sample_q = 4" "qstep sample_q = 4" by (simp_all add: sample_q_def)
  note P = pqueue_insert_spec [OF sample.pos_callbacks_axioms sample_facts(2,1), of 4]
  show ?thesis using P [of "[]"] P [of "[False]"] q sample_facts(3) by auto
qed

text \<open>
  \<open>pqueue_pop\<close> on a non-empty queue returns the element that \<open>pqueue_peek\<close> shows, no other
  element of the queue is better, and exactly this element is gone.
\<close>

theorem pqueue_pop_best:
  assumes "pos_callbacks cb" "qcb q = cb" "queue_inv q w" "queue_mset q \<noteq> {#}"
  shows "\<exists>e q' w'. pqueue_pop q w = Some (Some e, q', w') \<and> pqueue_peek q = Some (Some e) \<and>
    queue_inv q' w' \<and> queue_mset q = add_mset e (queue_mset q') \<and> pqueue_size q = Suc (pqueue_size q') \<and>
    (\<forall>x \<in># queue_mset q. cmppri cb (getpri cb e w) (getpri cb x w) = 0)"
proof -
  obtain e q' w' where P: "pqueue_pop q w = Some (Some e, q', w')" "pqueue_peek q = Some (Some e)"
    "queue_inv q' w'" "queue_mset q = add_mset e (queue_mset q')"
    "\<forall>x \<in># queue_mset q. cmppri cb (getpri cb e w) (getpri cb x w) = 0"
    using pos_callbacks.pop_full [OF assms] by blast
  then have "size (queue_mset q) = Suc (size (queue_mset q'))" by simp
  then have "pqueue_size q = Suc (pqueue_size q')" by (simp add: queue_mset_def pqueue_size_def)
  with P show ?thesis by blast
qed

theorem pqueue_pop_best_witness:
  "\<exists>e q' w'. pqueue_pop sample_q sample_mem = Some (Some e, q', w') \<and> queue_inv q' w'"
proof -
  have "queue_mset sample_q \<noteq> {#}" by (simp add: sample_facts(3))
  from pqueue_pop_best [OF sample.pos_callbacks_axioms sample_facts(2,1) this] show ?thesis by blast
qed

text \<open>
  \<open>pqueue_remove\<close> takes any element of the queue out of the middle of the heap and
  \<open>pqueue_change_priority\<close> gives it a new priority; both keep the heap order and the stored
  positions.
\<close>

theorem pqueue_remove_change:
  assumes "pos_callbacks cb" "qcb q = cb" "queue_inv q w" "e \<in># queue_mset q"
  shows "(\<exists>q' w'. pqueue_remove q e w = Some (0, q', w') \<and> queue_inv q' w' \<and>
      queue_mset q = add_mset e (queue_mset q')) \<and>
    (\<exists>q' w'. pqueue_change_priority q p e w = Some (q', w') \<and> queue_inv q' w' \<and>
      queue_mset q' = queue_mset q \<and> getpri cb e w' = p)"
  using pos_callbacks.remove_ok [OF assms(1,2), of w e]
    pos_callbacks.change_priority_ok [OF assms(1,2), of w e p] assms(3,4) by (auto simp: queue_inv_def)

theorem pqueue_remove_change_witness:
  "(\<exists>q' w'. pqueue_remove sample_q 1 sample_mem = Some (0, q', w') \<and> queue_mset q' = {#2, 3#}) \<and>
   (\<exists>q' w'. pqueue_change_priority sample_q 1 1 sample_mem = Some (q', w') \<and> queue_mset q' = {#1, 2, 3#})"
  using pqueue_remove_change [OF sample.pos_callbacks_axioms sample_facts(2,1), of 1 1]
  by (auto simp: sample_facts(3))

text \<open>
  \<open>pqueue_is_valid\<close> returns 1 exactly when the queue is a heap (for queues whose positions
  fit the \<open>int\<close> it uses).
\<close>

theorem pqueue_is_valid_iff:
  assumes "slots_ok q" "qsize q \<le> 2 ^ 30"
  shows "pqueue_is_valid q w = Some (if heap_on (qcb q) (\<lambda>e. getpri (qcb q) e w) (arr q) (qsize q) then 1 else 0)"
  using pqueue_is_valid_ok [OF assms, of w] assms(1) by (simp add: pq_inv_def)

theorem pqueue_is_valid_iff_witness:
  "pqueue_is_valid sample_q sample_mem = Some 1"
proof -
  have "slots_ok sample_q" "qsize sample_q \<le> 2 ^ 30"
    using sample_facts(1) by (auto simp: queue_inv_def pq_inv_def sample_q_def)
  from pqueue_is_valid_iff [OF this, of sample_mem] show ?thesis
    using sample_facts(1) by (simp add: queue_inv_def pq_inv_def)
qed

text \<open>
  \<open>pqueue_print\<close> writes every element of the queue once, best first: heap sort on a copy, when
  the copy can be allocated.
\<close>

theorem pqueue_print_sorts:
  assumes "pri_callbacks (qcb q)" "pq_inv q w" "qsize q + 1 < 2 ^ 61"
    "fst (alloc_next al)" "fst (alloc_next (snd (alloc_next al)))"
  shows "\<exists>es. pqueue_print al q w = Some es \<and> mset es = queue_mset q \<and>
    sorted_wrt (\<lambda>a b. cmppri (qcb q) (getpri (qcb q) a w) (getpri (qcb q) b w) = 0) es"
  using assms by (rule pqueue_print_ok)

theorem pqueue_print_sorts_witness:
  "\<exists>es. pqueue_print [] sample_q sample_mem = Some es \<and> mset es = {#1, 2, 3#}"
proof -
  have "pri_callbacks (qcb sample_q)" "pq_inv sample_q sample_mem" "qsize sample_q + 1 < 2 ^ 61"
    using sample.pri_callbacks_axioms sample_facts(1,2) by (auto simp: queue_inv_def sample_q_def)
  from pqueue_print_sorts [OF this, of "[]"] show ?thesis by (auto simp: sample_facts(3))
qed

text \<open>
  \<open>pqueue_init\<close> multiplies the number of slots by the size of a pointer without checking the
  product: for \<open>n = 2^61 - 1\<close> it asks for 0 bytes, returns a queue with \<open>avail = 2^61\<close>, and the
  first \<open>pqueue_insert\<close> writes outside of the block.
\<close>

theorem pqueue_init_overflow:
  "\<exists>q. pqueue_init [] (2 ^ 61 - 1) cb = (Some q, []) \<and> qavail q = 2 ^ 61 \<and> qd q = [] \<and>
     pqueue_insert [] q e w = None"
  by (simp add: pqueue_init_def block_slots_def pqueue_insert_def set_slot_def)

end
