(* ===== verification/Base64.thy ===== *)
theory Base64
  imports CPrelude
begin

text \<open>
  The base64 codec of \<open>fastcommon/src/base64.c\<close>. The context is the struct of \<open>base64.h\<close>;
  \<open>dest\<close> is the caller's buffer and \<open>pDest\<close> the index the code writes at next; the functions
  return the buffer and \<open>*dest_len\<close>, \<open>None\<close> when they leave a buffer. The \<open>int\<close> \<open>combined\<close> never
  has more than 24 bits and is a \<open>u32\<close>; \<open>linePos\<close> is at most 4 more than what was written.
\<close>

section \<open>Context\<close>

record base64_context =
  line_separator :: bytes
  line_sep_len :: int
  line_length :: int
  valueToChar :: bytes
  charToValue :: "int list"
  pad_ch :: int

definition BASE64_IGNORE :: int where "BASE64_IGNORE = -1"
definition BASE64_PAD :: int where "BASE64_PAD = -2"

definition base64_set_line_length :: "base64_context \<Rightarrow> int \<Rightarrow> base64_context" where
  "base64_set_line_length context len = context\<lparr>line_length := (len sdiv 4) * 4\<rparr>"

text \<open>The argument is the string without its terminator; \<open>snprintf\<close> returns its full length.\<close>

definition base64_set_line_separator :: "base64_context \<Rightarrow> bytes \<Rightarrow> base64_context" where
  "base64_set_line_separator context pLineSeparator =
     (let written = take 15 pLineSeparator @ [0];
          context = context\<lparr>line_separator := written @ drop (length written) (line_separator context),
                            line_sep_len := int (length pLineSeparator)\<rparr> in
      if 16 \<le> line_sep_len context then context\<lparr>line_sep_len := 15\<rparr> else context)"

definition base64_init_ex :: "int \<Rightarrow> u8 \<Rightarrow> u8 \<Rightarrow> u8 \<Rightarrow> base64_context" where
  "base64_init_ex nLineLength chPlus chSplash chPad =
     (let vtc = replicate 64 0;
          vtc = fold (\<lambda>i v. v[i := of_nat (65 + i)]) [0..<26] vtc;
          vtc = fold (\<lambda>i v. v[i + 26 := of_nat (97 + i)]) [0..<26] vtc;
          vtc = fold (\<lambda>i v. v[i + 52 := of_nat (48 + i)]) [0..<10] vtc;
          vtc = vtc[62 := chPlus];
          vtc = vtc[63 := chSplash];
          ctv = replicate 256 BASE64_IGNORE;
          ctv = fold (\<lambda>i m. m[unat (vtc ! i) := int i]) [0..<64] ctv in
      \<lparr>line_separator = 10 # replicate 15 0, line_sep_len = 1, line_length = nLineLength,
       valueToChar = vtc, charToValue = ctv[unat chPad := BASE64_PAD], pad_ch = int (unat chPad)\<rparr>)"

section \<open>Encoding\<close>

definition base64_get_encode_length :: "base64_context \<Rightarrow> int \<Rightarrow> int option" where
  "base64_get_encode_length context nSrcLen = do {
     n \<leftarrow> cint (nSrcLen + 2);
     outputLength \<leftarrow> cint ((n sdiv 3) * 4);
     if line_length context \<noteq> 0 then do {
       s \<leftarrow> cint (outputLength + line_length context);
       let lines = (s - 1) sdiv line_length context - 1;
       if 0 < lines then do {
         extra \<leftarrow> cint (lines * line_sep_len context);
         cint (outputLength + extra)
       } else Some outputLength
     } else Some outputLength
   }"

text \<open>The four 6-bit values of three bytes.\<close>

definition combine3 :: "u8 \<Rightarrow> u8 \<Rightarrow> u8 \<Rightarrow> u32" where
  "combine3 a b c = push_bit 16 (ucast a) OR push_bit 8 (ucast b) OR ucast c"

definition sextets :: "u32 \<Rightarrow> nat list" where
  "sextets combined =
     (let c3 = combined AND 0x3f; combined = drop_bit 6 combined;
          c2 = combined AND 0x3f; combined = drop_bit 6 combined;
          c1 = combined AND 0x3f; combined = drop_bit 6 combined;
          c0 = combined AND 0x3f in
      [unat c0, unat c1, unat c2, unat c3])"

text \<open>The loop over the groups of three bytes from \<open>pRaw\<close> to \<open>pEnd\<close>.\<close>

fun encode_groups ::
    "base64_context \<Rightarrow> bytes \<Rightarrow> int \<times> bytes \<times> nat \<Rightarrow> (int \<times> bytes \<times> nat) option" where
  "encode_groups context (a # b # c # raw) (linePos, dest, pDest) = do {
     linePos \<leftarrow> cint (linePos + 4);
     (linePos, dest, pDest) \<leftarrow>
       (if line_length context < linePos then
          (if line_length context \<noteq> 0 then do {
             sep \<leftarrow> mget (line_separator context) 0 (nat (line_sep_len context));
             dest \<leftarrow> mput dest pDest sep;
             Some (4, dest, pDest + nat (line_sep_len context))
           } else Some (4, dest, pDest))
        else Some (linePos, dest, pDest));
     let cs = sextets (combine3 a b c);
     v0 \<leftarrow> mrd (valueToChar context) (cs ! 0);
     v1 \<leftarrow> mrd (valueToChar context) (cs ! 1);
     v2 \<leftarrow> mrd (valueToChar context) (cs ! 2);
     v3 \<leftarrow> mrd (valueToChar context) (cs ! 3);
     dest \<leftarrow> mwr dest pDest v0;
     dest \<leftarrow> mwr dest (pDest + 1) v1;
     dest \<leftarrow> mwr dest (pDest + 2) v2;
     dest \<leftarrow> mwr dest (pDest + 3) v3;
     encode_groups context raw (linePos, dest, pDest + 4)
   }"
| "encode_groups context raw st = Some st"

definition base64_encode_ex ::
    "base64_context \<Rightarrow> bytes \<Rightarrow> int \<Rightarrow> bytes \<Rightarrow> bool \<Rightarrow> (bytes \<times> int) option" where
  "base64_encode_ex context src nSrcLen dest bPad =
     (if nSrcLen \<le> 0 then do { dest \<leftarrow> mwr dest 0 0; Some (dest, 0) }
      else if int (length src) < nSrcLen then None
      else do {
        let n = nat nSrcLen;
        let lens0 = n div 3 * 3;
        let leftover = n - lens0;
        let szPad = (if leftover = 1 then [src ! (n - 1), 0, 0]
                     else if leftover = 2 then [src ! (n - 2), src ! (n - 1), 0] else [0, 0, 0]);
        (linePos, dest, pDest) \<leftarrow> encode_groups context (take lens0 src) (0, dest, 0);
        (linePos, dest, pDest) \<leftarrow>
          (if leftover = 0 then Some (linePos, dest, pDest)
           else encode_groups context szPad (linePos, dest, pDest));
        dest \<leftarrow> mwr dest pDest 0;
        dest_len \<leftarrow> cint (int pDest);
        let pad = word_of_int (pad_ch context);
        if leftover = 1 then
          (if bPad then do {
             dest \<leftarrow> mwri dest (int pDest - 1) pad;
             dest \<leftarrow> mwri dest (int pDest - 2) pad;
             Some (dest, dest_len)
           } else do { dest \<leftarrow> mwri dest (int pDest - 2) 0; Some (dest, dest_len - 2) })
        else if leftover = 2 then
          (if bPad then do { dest \<leftarrow> mwri dest (int pDest - 1) pad; Some (dest, dest_len) }
           else do { dest \<leftarrow> mwri dest (int pDest - 1) 0; Some (dest, dest_len - 1) })
        else Some (dest, dest_len)
      })"

section \<open>Decoding\<close>

record decoder =
  cycle :: nat
  combined :: u32
  dummies :: int
  dbuf :: bytes
  dpos :: nat

definition decode_value :: "int \<Rightarrow> decoder \<Rightarrow> decoder option" where
  "decode_value v d =
     (let v32 = word_of_int v in
      if cycle d = 0 then Some (d\<lparr>combined := v32, cycle := 1\<rparr>)
      else if cycle d = 1 then Some (d\<lparr>combined := push_bit 6 (combined d) OR v32, cycle := 2\<rparr>)
      else if cycle d = 2 then Some (d\<lparr>combined := push_bit 6 (combined d) OR v32, cycle := 3\<rparr>)
      else do {
        let comb = push_bit 6 (combined d) OR v32;
        b \<leftarrow> mwr (dbuf d) (dpos d) (ucast (drop_bit 16 comb));
        b \<leftarrow> mwr b (dpos d + 1) (ucast (drop_bit 8 (comb AND 0x0000FF00)));
        b \<leftarrow> mwr b (dpos d + 2) (ucast (comb AND 0x000000FF));
        Some (d\<lparr>combined := comb, dbuf := b, dpos := dpos d + 3, cycle := 0\<rparr>)
      })"

fun decode_loop :: "base64_context \<Rightarrow> bytes \<Rightarrow> decoder \<Rightarrow> decoder option" where
  "decode_loop context [] d = Some d"
| "decode_loop context (ch # src) d = do {
     v \<leftarrow> mrd (charToValue context) (unat ch);
     d \<leftarrow> (if v = BASE64_IGNORE then Some d
           else if v = BASE64_PAD then decode_value 0 (d\<lparr>dummies := dummies d + 1\<rparr>)
           else decode_value v d);
     decode_loop context src d
   }"

definition base64_decode ::
    "base64_context \<Rightarrow> bytes \<Rightarrow> int \<Rightarrow> bytes \<Rightarrow> (bytes \<times> int) option" where
  "base64_decode context src nSrcLen dest =
     (if int (length src) < nSrcLen then None
      else do {
        d \<leftarrow> decode_loop context (take (nat nSrcLen) src)
              \<lparr>cycle = 0, combined = 0, dummies = 0, dbuf = dest, dpos = 0\<rparr>;
        if cycle d \<noteq> 0 then do { dest \<leftarrow> mwr (dbuf d) 0 0; Some (dest, 0) }
        else do {
          let dest_len = int (dpos d) - dummies d;
          dest \<leftarrow> mwri (dbuf d) dest_len 0;
          Some (dest, dest_len)
        }
      })"

text \<open>
  The input is completed with pad characters in a buffer of 256 bytes, or in a block from
  \<open>malloc\<close> when it is longer.
\<close>

definition base64_decode_auto ::
    "alloc \<Rightarrow> base64_context \<Rightarrow> bytes \<Rightarrow> int \<Rightarrow> bytes \<Rightarrow> (bytes \<times> int) option" where
  "base64_decode_auto al context src nSrcLen dest =
     (let nRemain = nSrcLen smod 4 in
      if nRemain = 0 then base64_decode context src nSrcLen dest
      else do {
        let nPadLen = 4 - nRemain;
        nNewLen \<leftarrow> cint (nSrcLen + nPadLen);
        if 0 \<le> nNewLen \<and> nNewLen \<le> 256 \<or> fst (alloc_next al) then do {
          buff \<leftarrow> (if nSrcLen < 0 then None else mget src 0 (nat nSrcLen));
          base64_decode context (buff @ replicate (nat nPadLen) (word_of_int (pad_ch context))) nNewLen dest
        } else do { dest \<leftarrow> mwr dest 0 0; Some (dest, 0) }
      })"

section \<open>Three bytes and their four sextets\<close>

definition sextet :: "u32 \<Rightarrow> nat \<Rightarrow> u32" where
  "sextet x k = drop_bit (6 * k) x AND mask 6"

lemma mask6: "(0x3f :: u32) = mask 6" by (simp add: mask_eq_exp_minus_1)

lemma sextets_eq: "sextets x = [unat (sextet x 3), unat (sextet x 2), unat (sextet x 1), unat (sextet x 0)]"
  unfolding sextets_def sextet_def mask6 Let_def by simp

lemma bit_sextet: "bit (sextet x k) n \<longleftrightarrow> n < 6 \<and> bit x (n + 6 * k)"
  by (auto simp: sextet_def bit_simps add.commute dest: bit_imp_le_length)

lemma sextet_lt: "unat (sextet x k) < 64"
  using and_mask_less' [of 6 "drop_bit (6 * k) x"] by (simp add: sextet_def word_less_nat_alt)

lemma merge_sextets:
  "push_bit 6 (push_bit 6 (push_bit 6 (sextet x 3) OR sextet x 2) OR sextet x 1) OR sextet x 0 =
   x AND mask 24"
proof (rule bit_word_eqI)
  fix n assume n: "n < LENGTH(32)"
  consider "n < 6" | "6 \<le> n" "n < 12" | "12 \<le> n" "n < 18" | "18 \<le> n" "n < 24" | "24 \<le> n" by linarith
  then show "bit (push_bit 6 (push_bit 6 (push_bit 6 (sextet x 3) OR sextet x 2) OR sextet x 1) OR sextet x 0) n \<longleftrightarrow>
    bit (x AND mask 24) n"
    using n by cases (auto simp: bit_sextet bit_simps)
qed

lemma combine3_mask: "combine3 a b c AND mask 24 = combine3 a b c"
proof (rule bit_word_eqI)
  fix n assume "n < LENGTH(32)"
  then show "bit (combine3 a b c AND mask 24) n \<longleftrightarrow> bit (combine3 a b c) n"
    by (auto simp: combine3_def bit_simps dest: bit_imp_le_length)
qed

lemma split3:
  "ucast (drop_bit 16 (combine3 a b c)) = a"
  "ucast (drop_bit 8 (combine3 a b c AND 0x0000FF00)) = b"
  "ucast (combine3 a b c AND 0x000000FF) = c"
proof -
  have m: "(0x0000FF00 :: u32) = push_bit 8 (mask 8)" "(0x000000FF :: u32) = mask 8"
    by (simp_all add: mask_eq_exp_minus_1)
  show "ucast (drop_bit 16 (combine3 a b c)) = a"
    by (rule bit_word_eqI) (auto simp: combine3_def bit_simps dest: bit_imp_le_length)
  show "ucast (drop_bit 8 (combine3 a b c AND 0x0000FF00)) = b" unfolding m
    by (rule bit_word_eqI) (auto simp: combine3_def bit_simps dest: bit_imp_le_length)
  show "ucast (combine3 a b c AND 0x000000FF) = c" unfolding m
    by (rule bit_word_eqI) (auto simp: combine3_def bit_simps dest: bit_imp_le_length)
qed

lemma sextet_zero:
  "sextet (combine3 a b 0) 0 = 0" "sextet (combine3 a 0 0) 1 = 0" "sextet (combine3 a 0 0) 0 = 0"
  by (rule bit_word_eqI; auto simp: bit_sextet combine3_def bit_simps dest: bit_imp_le_length)+

section \<open>Well-formed contexts\<close>

definition separator :: "base64_context \<Rightarrow> bytes" where
  "separator context = take (nat (line_sep_len context)) (line_separator context)"

definition b64_ok :: "base64_context \<Rightarrow> bool" where
  "b64_ok context \<longleftrightarrow>
     length (valueToChar context) = 64 \<and> length (charToValue context) = 256 \<and>
     (\<forall>i < 64. charToValue context ! unat (valueToChar context ! i) = int i) \<and>
     0 \<le> pad_ch context \<and> pad_ch context < 256 \<and> charToValue context ! nat (pad_ch context) = BASE64_PAD \<and>
     length (line_separator context) = 16 \<and> 0 \<le> line_sep_len context \<and> line_sep_len context \<le> 15 \<and>
     (\<forall>s \<in> set (separator context). charToValue context ! unat s = BASE64_IGNORE) \<and>
     0 \<le> line_length context"

lemma fold_update_length: "length (fold (\<lambda>i v. v[i + k := f i]) [0..<n] m) = length m"
  by (induction n) simp_all

lemma fold_update_nth:
  assumes "j < length m"
  shows "fold (\<lambda>i v. v[i + k := f i]) [0..<n] m ! j = (if k \<le> j \<and> j < k + n then f (j - k) else m ! j)"
proof (induction n)
  case (Suc n)
  then show ?case
    using assms by (cases "j = n + k") (auto simp: fold_update_length)
qed auto

lemmas fold_update_length0 = fold_update_length [where k = 0, simplified]
lemmas fold_update_nth0 = fold_update_nth [where k = 0, simplified]

lemma fold_index_nth:
  assumes "inj_on g {0..<n}" "\<And>i. i < n \<Longrightarrow> g i < length m"
  shows "length (fold (\<lambda>i m. m[g i := f i]) [0..<n] m) = length m \<and>
    (\<forall>i < n. fold (\<lambda>i m. m[g i := f i]) [0..<n] m ! g i = f i) \<and>
    (\<forall>j < length m. j \<notin> g ` {0..<n} \<longrightarrow> fold (\<lambda>i m. m[g i := f i]) [0..<n] m ! j = m ! j)"
  using assms
proof (induction n)
  case (Suc n)
  have "inj_on g {0..<n}" using Suc.prems(1) by (rule inj_on_subset) auto
  moreover have "g n \<noteq> g i" "g i \<noteq> g n" if "i < n" for i
    using inj_onD [OF Suc.prems(1), of n i] that by auto
  ultimately show ?case using Suc by (auto simp: nth_list_update less_Suc_eq)
qed simp

definition digit_char :: "u8 \<Rightarrow> u8 \<Rightarrow> nat \<Rightarrow> u8" where
  "digit_char p s i = (if i < 26 then of_nat (65 + i) else if i < 52 then of_nat (97 + (i - 26))
     else if i < 62 then of_nat (48 + (i - 52)) else if i = 62 then p else s)"

definition alphabet :: "u8 \<Rightarrow> u8 \<Rightarrow> bytes" where
  "alphabet p s = map (digit_char p s) [0..<64]"

lemma alphabet_nth: "i < 64 \<Longrightarrow> alphabet p s ! i = digit_char p s i"
  unfolding alphabet_def by (simp del: upt_rec_numeral)

lemma alphabet_length: "length (alphabet p s) = 64"
  unfolding alphabet_def by (simp del: upt_rec_numeral)

lemma init_fields:
  "valueToChar (base64_init_ex n p s d) = alphabet p s"
  "charToValue (base64_init_ex n p s d) =
     (fold (\<lambda>i m. m[unat (alphabet p s ! i) := int i]) [0..<64] (replicate 256 (-1)))[unat d := -2]"
  "line_length (base64_init_ex n p s d) = n" "line_sep_len (base64_init_ex n p s d) = 1"
  "line_separator (base64_init_ex n p s d) = 10 # replicate 15 0"
  "pad_ch (base64_init_ex n p s d) = int (unat d)"
proof -
  define v1 where "v1 = fold (\<lambda>i v. v[i := of_nat (65 + i)]) [0..<26] (replicate 64 (0 :: u8))"
  define v2 where "v2 = fold (\<lambda>i v. v[i + 26 := of_nat (97 + i)]) [0..<26] v1"
  define v3 where "v3 = fold (\<lambda>i v. v[i + 52 := of_nat (48 + i)]) [0..<10] v2"
  have len: "length v1 = 64" "length v2 = 64" "length v3 = 64"
    unfolding v1_def v2_def v3_def by (simp_all only: fold_update_length fold_update_length0 length_replicate)
  have v1: "v1 ! i = (if i < 26 then of_nat (65 + i) else 0)" if "i < 64" for i
    unfolding v1_def using that by (subst fold_update_nth0) (auto simp: nth_replicate simp del: upt_rec_numeral)
  have v2: "v2 ! i = (if 26 \<le> i \<and> i < 26 + 26 then of_nat (97 + (i - 26)) else v1 ! i)" if "i < 64" for i
    unfolding v2_def using that len by (intro fold_update_nth) simp
  have v3: "v3 ! i = (if 52 \<le> i \<and> i < 52 + 10 then of_nat (48 + (i - 52)) else v2 ! i)" if "i < 64" for i
    unfolding v3_def using that len by (intro fold_update_nth) simp
  have "v3[62 := p, 63 := s] = alphabet p s"
  proof (rule nth_equalityI)
    show "length (v3[62 := p, 63 := s]) = length (alphabet p s)"
      by (simp add: len alphabet_length)
    fix i assume "i < length (v3[62 := p, 63 := s])"
    then have i: "i < 64" by (simp add: len)
    show "v3[62 := p, 63 := s] ! i = alphabet p s ! i"
      using i len by (auto simp: nth_list_update v1 v2 v3 alphabet_nth digit_char_def)
  qed
  then show "valueToChar (base64_init_ex n p s d) = alphabet p s"
    "charToValue (base64_init_ex n p s d) =
     (fold (\<lambda>i m. m[unat (alphabet p s ! i) := int i]) [0..<64] (replicate 256 (-1)))[unat d := -2]"
    unfolding base64_init_ex_def Let_def BASE64_IGNORE_def BASE64_PAD_def v1_def v2_def v3_def
    by (simp_all only: base64_context.simps)
qed (simp_all add: base64_init_ex_def Let_def)

definition plain_digit :: "u8 \<Rightarrow> bool" where
  "plain_digit c \<longleftrightarrow> (48 \<le> unat c \<and> unat c < 58) \<or> (65 \<le> unat c \<and> unat c < 91) \<or> (97 \<le> unat c \<and> unat c < 123)"

lemma digit_char_unat:
  assumes "i < 62"
  shows "unat (digit_char p s i) = (if i < 26 then 65 + i else if i < 52 then 71 + i else i - 4)"
  using assms unfolding digit_char_def by (simp only: unat8_of_nat if_True if_False split: if_split) auto

lemma digit_char_plain: "i < 62 \<Longrightarrow> plain_digit (digit_char p s i)"
  by (auto simp: plain_digit_def digit_char_unat)

lemma digit_char_last: "digit_char p s 62 = p" "digit_char p s 63 = s"
  by (simp_all add: digit_char_def)

lemma alphabet_cases: "i < 64 \<Longrightarrow> i < 62 \<or> i = 62 \<or> i = (63 :: nat)"
  by auto

lemma digit_char_cases: "i < 64 \<Longrightarrow> plain_digit (digit_char p s i) \<or> digit_char p s i = p \<or> digit_char p s i = s"
  using alphabet_cases [of i] digit_char_plain [of i p s] digit_char_last [of p s] by auto

lemma alphabet_inj:
  assumes "\<not> plain_digit p" "\<not> plain_digit s" "p \<noteq> s"
  shows "inj_on (\<lambda>i. unat (alphabet p s ! i)) {0..<64}"
proof (rule inj_onI)
  fix i j assume ij: "i \<in> {0..<64}" "j \<in> {0..<64}" "unat (alphabet p s ! i) = unat (alphabet p s ! j)"
  then have eq: "digit_char p s i = digit_char p s j" by (simp add: alphabet_nth)
  have low: "k < 62 \<Longrightarrow> digit_char p s k \<noteq> p \<and> digit_char p s k \<noteq> s" for k
    using digit_char_plain [of k p s] assms by auto
  show "i = j"
  proof (cases "i < 62 \<and> j < 62")
    case True
    then have "unat (digit_char p s i) = unat (digit_char p s j)" using eq by simp
    then show ?thesis using True by (simp add: digit_char_unat split: if_splits)
  next
    case False
    then show ?thesis
      using ij(1,2) eq low [of i] low [of j] digit_char_last [of p s] alphabet_cases [of i] alphabet_cases [of j] assms(3)
      by auto
  qed
qed

lemma init_ok:
  assumes "\<not> plain_digit p" "\<not> plain_digit s" "p \<noteq> s" "\<not> plain_digit d" "d \<noteq> p" "d \<noteq> s" "0 \<le> n"
    and "10 \<notin> {p, s, d}"
  shows "b64_ok (base64_init_ex n p s d)"
proof -
  let ?g = "\<lambda>i. unat (alphabet p s ! i)" and ?c = "base64_init_ex n p s d"
  have m: "length (charToValue ?c) = 256 \<and> (\<forall>i < 64. charToValue ?c ! ?g i = int i) \<and>
     charToValue ?c ! unat d = -2 \<and> charToValue ?c ! 10 = -1"
  proof -
    note F = fold_index_nth [OF alphabet_inj [OF assms(1-3)], of "replicate 256 (-1 :: int)" int]
    have digit: "alphabet p s ! i \<noteq> d \<and> alphabet p s ! i \<noteq> 10" if "i < 64" for i
    proof -
      have "\<not> plain_digit 10" by (simp add: plain_digit_def)
      then show ?thesis using digit_char_cases [OF that, of p s] assms that by (auto simp: alphabet_nth)
    qed
    have ne: "unat d \<noteq> ?g i" "10 \<noteq> ?g i" if "i < 64" for i
      using digit [OF that] unat8_inject [of "alphabet p s ! i" d]
        unat8_inject [of "alphabet p s ! i" 10] by (auto simp del: unat8_inject)
    have "unat d \<noteq> 10" using assms(8) unat8_inject [of d 10] by (auto simp del: unat8_inject)
    moreover have "10 \<notin> ?g ` {0..<64}" using ne(2) by fastforce
    ultimately show ?thesis using F ne(1) by (simp add: init_fields nth_list_update)
  qed
  have "separator ?c = [10]" by (simp add: separator_def init_fields)
  then show ?thesis
    using m assms(7)
    by (simp add: b64_ok_def init_fields alphabet_length BASE64_PAD_def BASE64_IGNORE_def)
qed

text \<open>Setting the line length or a separator that the decoder ignores keeps the context well formed.\<close>

lemma set_line_length_ok: "b64_ok c \<Longrightarrow> 0 \<le> n \<Longrightarrow> b64_ok (base64_set_line_length c n)"
  by (simp add: b64_ok_def base64_set_line_length_def separator_def)

lemma set_line_separator_ok:
  assumes "b64_ok c" "\<forall>s \<in> set sep. charToValue c ! unat s = BASE64_IGNORE"
  shows "b64_ok (base64_set_line_separator c sep)"
    and "separator (base64_set_line_separator c sep) = take 15 sep"
proof -
  let ?c = "base64_set_line_separator c sep"
  have f: "line_separator ?c = (take 15 sep @ [0]) @ drop (length (take 15 sep @ [0])) (line_separator c)"
      "line_sep_len ?c = int (min 15 (length sep))" "charToValue ?c = charToValue c" "valueToChar ?c = valueToChar c"
      "pad_ch ?c = pad_ch c" "line_length ?c = line_length c"
    by (auto simp: base64_set_line_separator_def Let_def)
  show sep: "separator ?c = take 15 sep"
    unfolding separator_def f by (simp add: min_def)
  have "set (take 15 sep) \<subseteq> set sep" by (rule set_take_subset)
  then show "b64_ok ?c"
    using assms f sep by (auto simp: b64_ok_def)
qed

section \<open>What the encoder writes\<close>

definition quad :: "base64_context \<Rightarrow> u8 \<Rightarrow> u8 \<Rightarrow> u8 \<Rightarrow> bytes" where
  "quad context a b c = map (\<lambda>i. valueToChar context ! i) (sextets (combine3 a b c))"

definition line_break :: "base64_context \<Rightarrow> int \<Rightarrow> bytes" where
  "line_break context lp =
     (if line_length context < lp + 4 \<and> line_length context \<noteq> 0 then separator context else [])"

definition next_pos :: "base64_context \<Rightarrow> int \<Rightarrow> int" where
  "next_pos context lp = (if line_length context < lp + 4 then 4 else lp + 4)"

text \<open>The text of complete groups, starting at column \<open>lp\<close>, and the column it ends at.\<close>

fun enc_out :: "base64_context \<Rightarrow> bytes \<Rightarrow> int \<Rightarrow> bytes" where
  "enc_out context (a # b # c # raw) lp =
     line_break context lp @ quad context a b c @ enc_out context raw (next_pos context lp)"
| "enc_out context raw lp = []"

fun enc_col :: "base64_context \<Rightarrow> bytes \<Rightarrow> int \<Rightarrow> int" where
  "enc_col context (a # b # c # raw) lp = enc_col context raw (next_pos context lp)"
| "enc_col context raw lp = lp"

lemma length_quad [simp]: "length (quad context a b c) = 4"
  by (simp add: quad_def sextets_eq)

lemma length_separator: "b64_ok context \<Longrightarrow> length (separator context) = nat (line_sep_len context)"
  by (auto simp: b64_ok_def separator_def)

lemma line_break_put:
  assumes "b64_ok context" "p \<le> length dest"
  shows "(if line_length context < lp + 4 then
          (if line_length context \<noteq> 0 then do {
             sep \<leftarrow> mget (line_separator context) 0 (nat (line_sep_len context));
             dest \<leftarrow> mput dest p sep;
             Some (4, dest, p + nat (line_sep_len context))
           } else Some (4, dest, p))
        else Some (lp + 4, dest, p)) =
    map_option (\<lambda>d. (next_pos context lp, d, p + length (line_break context lp)))
      (mput dest p (line_break context lp))"
proof -
  have "mget (line_separator context) 0 (nat (line_sep_len context)) = Some (separator context)"
    using assms(1) by (simp add: b64_ok_def separator_def nat_le_iff)
  then show ?thesis
    using length_separator [OF assms(1)] assms(2)
    by (auto simp: line_break_def next_pos_def map_conv_bind_option comp_def)
qed

lemma sextet_chars:
  fixes a b c :: u8
  assumes "b64_ok context"
  defines "cs \<equiv> sextets (combine3 a b c)"
  shows "mrd (valueToChar context) (cs ! 0) = Some (quad context a b c ! 0)"
    "mrd (valueToChar context) (cs ! 1) = Some (quad context a b c ! 1)"
    "mrd (valueToChar context) (cs ! 2) = Some (quad context a b c ! 2)"
    "mrd (valueToChar context) (cs ! 3) = Some (quad context a b c ! 3)"
    "quad context a b c = [quad context a b c ! 0, quad context a b c ! 1, quad context a b c ! 2, quad context a b c ! 3]"
  using assms(1) sextet_lt unfolding cs_def by (simp_all add: b64_ok_def sextets_eq quad_def)

lemma next_pos_bounds: "0 \<le> lp \<Longrightarrow> 0 \<le> next_pos context lp \<and> next_pos context lp \<le> lp + 4"
  by (simp add: next_pos_def)

lemma enc_col_bounds:
  "0 \<le> lp \<Longrightarrow> 0 \<le> enc_col context raw lp \<and> enc_col context raw lp \<le> lp + 4 * int (length raw div 3)"
proof (induction "context" raw lp rule: enc_col.induct)
  case (1 ctx a b c raw lp)
  have "length (a # b # c # raw) div 3 = length raw div 3 + 1" by simp
  then show ?case using 1 next_pos_bounds [of lp ctx] by (auto simp del: length_Cons)
qed simp_all

lemma encode_groups_put:
  assumes "b64_ok context" "p \<le> length dest" "0 \<le> lp" "lp + 4 * int (length raw div 3) \<le> INT_MAX"
  shows "encode_groups context raw (lp, dest, p) =
    map_option (\<lambda>d. (enc_col context raw lp, d, p + length (enc_out context raw lp)))
      (mput dest p (enc_out context raw lp))"
  using assms
proof (induction "context" raw lp arbitrary: dest p rule: enc_out.induct)
  case (1 ctx a b c raw lp)
  let ?L = "line_break ctx lp" and ?Q = "quad ctx a b c" and ?lp = "next_pos ctx lp"
  let ?R = "enc_out ctx raw ?lp"
  let ?p = "p + length ?L"
  let ?k = "\<lambda>d. encode_groups ctx raw (?lp, d, ?p + 4)"
  have "length (a # b # c # raw) div 3 = length raw div 3 + 1" by simp
  with 1(5) have fits: "lp + 4 + 4 * int (length raw div 3) \<le> INT_MAX" by (simp del: length_Cons)
  then have c: "cint (lp + 4) = Some (lp + 4)" using 1(4) by (simp add: cint_def INT_MIN_def)
  have lp: "0 \<le> ?lp" "?lp + 4 * int (length raw div 3) \<le> INT_MAX" using next_pos_bounds [OF 1(4), of ctx] fits by auto
  have "encode_groups ctx (a # b # c # raw) (lp, dest, p) =
      Option.bind (mput dest p ?L) (\<lambda>d. Option.bind (mput d ?p ?Q) ?k)"
    unfolding encode_groups.simps Let_def c bind.bind_lunit line_break_put [OF 1(2,3)] sextet_chars(1-4) [OF 1(2)]
    by (simp only: map_conv_bind_option Option.bind_assoc bind.bind_lunit prod.case quad_put o_apply
        sextet_chars(5) [OF 1(2), symmetric])
  also have "\<dots> = Option.bind (mput dest p (?L @ ?Q)) ?k"
    by (rule mput_bind)
  also have "\<dots> = Option.bind (mput dest p (?L @ ?Q)) (\<lambda>d. Option.bind (mput d (p + length (?L @ ?Q)) ?R)
      (\<lambda>d. Some (enc_col ctx raw ?lp, d, p + length (?L @ ?Q @ ?R))))"
  proof (rule Option.bind_cong [OF refl])
    fix d assume "mput dest p (?L @ ?Q) = Some d"
    then have "?p + 4 \<le> length d" by (auto simp: mput_Some_iff)
    then show "?k d = Option.bind (mput d (p + length (?L @ ?Q)) ?R)
      (\<lambda>d. Some (enc_col ctx raw ?lp, d, p + length (?L @ ?Q @ ?R)))"
      using 1(1) [OF 1(2), of "?p + 4" d, OF _ lp] by (simp add: map_conv_bind_option comp_def ac_simps)
  qed
  also have "\<dots> = Option.bind (mput dest p (?L @ ?Q @ ?R)) (\<lambda>d. Some (enc_col ctx raw ?lp, d, p + length (?L @ ?Q @ ?R)))"
    unfolding mput_bind by simp
  finally show ?case by (simp add: map_conv_bind_option comp_def)
qed simp_all

text \<open>Two runs of the loop are one run over both inputs.\<close>

lemma enc_out_append:
  assumes "length xs mod 3 = 0"
  shows "enc_out context (xs @ ys) lp = enc_out context xs lp @ enc_out context ys (enc_col context xs lp)"
  using assms by (induction "context" xs lp rule: enc_out.induct) (auto simp: mod_Suc split: if_splits)

definition zero_pad :: "bytes \<Rightarrow> bytes" where
  "zero_pad xs = xs @ replicate ((3 - length xs mod 3) mod 3) 0"

text \<open>The padded text of the whole input.\<close>

definition n_pads :: "nat \<Rightarrow> nat" where
  "n_pads n = (3 - n mod 3) mod 3"

definition enc_text :: "base64_context \<Rightarrow> bytes \<Rightarrow> bytes" where
  "enc_text context xs =
     (let out = enc_out context (zero_pad xs) 0 in
      take (length out - n_pads (length xs)) out @ replicate (n_pads (length xs)) (word_of_int (pad_ch context)))"

lemma enc_out_ends:
  assumes "length xs mod 3 = 0" "xs \<noteq> []"
  shows "4 \<le> length (enc_out context xs lp)"
proof -
  obtain a b c ys where "xs = a # b # c # ys"
    using assms by (cases xs; cases "tl xs"; cases "tl (tl xs)") auto
  then show ?thesis by simp
qed

section \<open>The encoder as a whole\<close>

lemma zero_pad_length: "length (zero_pad xs) = (length xs + 2) div 3 * 3"
proof -
  have "n + (3 - n mod 3) mod 3 = (n + 2) div 3 * 3" for n :: nat
    by (cases "n mod 3 = 0") (auto, presburger+)
  then show ?thesis by (simp add: zero_pad_def)
qed

lemma zero_pad_split:
  assumes "n \<le> length src"
  defines "m \<equiv> n div 3 * 3"
  shows "zero_pad (take n src) = take m src @
    (if n - m = 1 then [src ! (n - 1), 0, 0] else if n - m = 2 then [src ! (n - 2), src ! (n - 1), 0] else [])"
    and "n - m < 3"
proof -
  have mod: "n mod 3 = n - m" unfolding m_def by (simp add: minus_div_mult_eq_mod)
  then show lt: "n - m < 3" by (metis mod_less_divisor zero_less_numeral)
  have le: "m \<le> n" by (simp add: m_def)
  have len: "min (length src) n = n" using assms(1) by simp
  have split: "take n src = take m src @ take (n - m) (drop m src)"
    using le by (metis le_add_diff_inverse take_add)
  have zp: "zero_pad (take n src) = take n src @ replicate ((3 - n mod 3) mod 3) 0"
    by (simp add: zero_pad_def len)
  consider "n - m = 0" | "n - m = 1" | "n - m = 2" using lt by linarith
  then show "zero_pad (take n src) = take m src @
    (if n - m = 1 then [src ! (n - 1), 0, 0] else if n - m = 2 then [src ! (n - 2), src ! (n - 1), 0] else [])"
  proof cases
    case 1
    then have "n = m" using le by simp
    then show ?thesis using mod zp by simp
  next
    case 2
    then have m: "m = n - 1" "m < length src" "n - 1 < length src" using assms(1) by auto
    then have "take 1 (drop m src) = [src ! (n - 1)]" by (simp add: take_Suc_conv_app_nth)
    then show ?thesis unfolding zp using 2 mod split by (simp add: numeral_2_eq_2)
  next
    case 3
    then have m: "m = n - 2" "m < length src" "Suc m < length src" "n - 1 = Suc m" using assms(1) by auto
    then have "take 2 (drop m src) = [src ! (n - 2), src ! (n - 1)]"
      by (simp add: numeral_2_eq_2 take_Suc_conv_app_nth)
    then show ?thesis unfolding zp using 3 mod split by simp
  qed
qed

text \<open>The two loops write the text of the completed groups.\<close>

lemma two_loops:
  fixes dest :: bytes
  assumes ok: "b64_ok context" and n: "n \<le> length src" and fits: "4 * int ((n + 2) div 3) \<le> INT_MAX"
  defines "m \<equiv> n div 3 * 3" and "out \<equiv> enc_out context (zero_pad (take n src)) 0"
  defines "szPad \<equiv> (if n - m = 1 then [src ! (n - 1), 0, 0]
     else if n - m = 2 then [src ! (n - 2), src ! (n - 1), 0] else [0, 0, 0 :: u8])"
  shows "do {
      (linePos, dest, pDest) \<leftarrow> encode_groups context (take m src) (0, dest, 0);
      (linePos, dest, pDest) \<leftarrow>
        (if n - m = 0 then Some (linePos, dest, pDest)
         else encode_groups context szPad (linePos, dest, pDest));
      f dest pDest } = Option.bind (mput dest 0 out) (\<lambda>d. f d (length out))"
proof -
  note z = zero_pad_split [OF n, folded m_def]
  let ?out1 = "enc_out context (take m src) 0"
  let ?col = "enc_col context (take m src) 0"
  have "m \<le> length src" using n by (simp add: m_def)
  then have mult: "length (take m src) mod 3 = 0" by (simp add: m_def min_def)
  have lm: "length (take m src) div 3 = n div 3" "n div 3 \<le> (n + 2) div 3"
    using \<open>m \<le> length src\<close> by (simp_all add: m_def div_le_mono)
  have g1: "encode_groups context (take m src) (0, dest, 0) =
      map_option (\<lambda>d. (?col, d, length ?out1)) (mput dest 0 ?out1)"
    using encode_groups_put [OF ok, of 0 dest 0 "take m src"] lm fits by simp
  have col: "0 \<le> ?col" "?col \<le> 4 * int (n div 3)" using enc_col_bounds [of 0 "context" "take m src"] lm by simp_all
  show ?thesis
  proof (cases "n - m = 0")
    case True
    then have "out = ?out1" using z(1) by (simp add: out_def)
    then show ?thesis using True by (simp add: g1 map_conv_bind_option comp_def)
  next
    case False
    then have out: "out = ?out1 @ enc_out context szPad ?col"
      using z enc_out_append [OF mult] by (auto simp: out_def szPad_def)
    have g2: "encode_groups context szPad (?col, d, length ?out1) =
        map_option (\<lambda>d. (enc_col context szPad ?col, d, length out)) (mput d (0 + length ?out1) (enc_out context szPad ?col))"
      if "mput dest 0 ?out1 = Some d" for d
    proof -
      have "(n + 2) div 3 = n div 3 + 1" using False by (simp add: m_def)
      then have "?col + 4 * int (length szPad div 3) \<le> INT_MAX" using col fits by (simp add: szPad_def)
      then show ?thesis using that encode_groups_put [OF ok, of "length ?out1" d ?col szPad] col(1) by (auto simp: out mput_Some_iff)
    qed
    have "Option.bind (mput dest 0 ?out1) (\<lambda>d. Option.bind (encode_groups context szPad (?col, d, length ?out1))
        (\<lambda>(l, d, p). f d p)) =
      Option.bind (mput dest 0 ?out1) (\<lambda>d. Option.bind (mput d (0 + length ?out1) (enc_out context szPad ?col))
        (\<lambda>d. f d (length out)))"
      by (rule Option.bind_cong [OF refl]) (simp add: g2 map_conv_bind_option comp_def)
    also have "\<dots> = Option.bind (mput dest 0 out) (\<lambda>d. f d (length out))"
      unfolding mput_bind out ..
    finally show ?thesis using False by (simp add: g1 map_conv_bind_option comp_def)
  qed
qed

lemma put_front: "length xs \<le> length m \<Longrightarrow> mput m 0 xs = Some (xs @ drop (length xs) m)"
  by (simp add: mput_def)

lemma drop_Cons_ex: "n < length xs \<Longrightarrow> \<exists>y. drop n xs = y # drop (Suc n) xs"
  by (metis Cons_nth_drop_Suc)

lemma last_two:
  assumes "2 \<le> length xs"
  obtains ys a b where "xs = ys @ [a, b]"
proof -
  obtain zs b where 1: "xs = zs @ [b]" using assms by (cases xs rule: rev_cases) auto
  then obtain ys a where "zs = ys @ [a]" using assms by (cases zs rule: rev_cases) auto
  then show thesis using 1 that by simp
qed

lemma n_pads_mod: "n_pads n = (if n - n div 3 * 3 = 1 then 2 else if n - n div 3 * 3 = 2 then 1 else 0)"
proof -
  have "n - n div 3 * 3 = n mod 3" by (simp add: minus_div_mult_eq_mod)
  moreover have "n mod 3 = 0 \<or> n mod 3 = 1 \<or> n mod 3 = 2" by auto
  ultimately show ?thesis by (auto simp: n_pads_def)
qed

lemma out_long: "xs \<noteq> [] \<Longrightarrow> 4 \<le> length (enc_out context (zero_pad xs) lp)"
  by (rule enc_out_ends) (simp add: zero_pad_length, simp add: zero_pad_def)

lemma length_enc_text: "length (enc_text context xs) = length (enc_out context (zero_pad xs) 0)"
proof (cases "xs = []")
  case True
  then show ?thesis by (simp add: enc_text_def zero_pad_def n_pads_def)
next
  case False
  have "n_pads (length xs) \<le> 2" by (simp add: n_pads_mod)
  then show ?thesis using out_long [OF False, of "context" 0] by (simp add: enc_text_def Let_def)
qed

lemma enc_out_length_ge: "length xs mod 3 = 0 \<Longrightarrow> length xs div 3 * 4 \<le> length (enc_out context xs lp)"
  by (induction "context" xs lp rule: enc_out.induct) (auto simp: mod_Suc div_Suc split: if_splits)

lemma length_enc_text_ge: "(length xs + 2) div 3 * 4 \<le> length (enc_text context xs)"
  using enc_out_length_ge [of "zero_pad xs" "context" 0] by (simp add: length_enc_text zero_pad_length)

lemma encode_ok:
  assumes ok: "b64_ok context" and n: "0 < n" "n \<le> length src"
    and fits: "int (length (enc_text context (take n src))) \<le> INT_MAX" and room: "length (enc_text context (take n src)) < length dest"
  defines "tx \<equiv> enc_text context (take n src)" and "k \<equiv> n_pads n"
  shows "base64_encode_ex context src (int n) dest True =
      Some (tx @ [0] @ drop (length tx + 1) dest, int (length tx))"
    and "\<exists>rest. base64_encode_ex context src (int n) dest False =
      Some (take (length tx - k) tx @ [0] @ rest, int (length tx - k)) \<and>
      length (take (length tx - k) tx @ [0] @ rest) = length dest"
proof -
  let ?out = "enc_out context (zero_pad (take n src)) 0" and ?pad = "word_of_int (pad_ch context) :: u8"
  have ne: "take n src \<noteq> []" using n by auto
  have out4: "4 \<le> length ?out" using out_long [OF ne] .
  have len: "length tx = length ?out" by (simp add: tx_def length_enc_text)
  obtain y where y: "drop (length ?out) dest = y # drop (Suc (length ?out)) dest"
    using drop_Cons_ex [of "length ?out" dest] room len by (auto simp: tx_def)
  obtain o1 a b where o: "?out = o1 @ [a, b]" using last_two [of ?out] out4 by auto
  have put: "mput dest 0 ?out = Some (?out @ y # drop (Suc (length ?out)) dest)"
    using put_front [of ?out dest] room len y by (simp add: tx_def)
  have tx: "tx = take (length ?out - k) ?out @ replicate k ?pad"
    using n(2) by (simp add: tx_def enc_text_def Let_def k_def)
  have enc: "base64_encode_ex context src (int n) dest bPad =
      Option.bind (mput dest 0 ?out) (\<lambda>dest. do {
        dest \<leftarrow> mwr dest (length ?out) 0;
        if n - n div 3 * 3 = 1 then
          (if bPad then do {
             dest \<leftarrow> mwri dest (int (length ?out) - 1) ?pad;
             dest \<leftarrow> mwri dest (int (length ?out) - 2) ?pad;
             Some (dest, int (length ?out))
           } else do { dest \<leftarrow> mwri dest (int (length ?out) - 2) 0; Some (dest, int (length ?out) - 2) })
        else if n - n div 3 * 3 = 2 then
          (if bPad then do { dest \<leftarrow> mwri dest (int (length ?out) - 1) ?pad; Some (dest, int (length ?out)) }
           else do { dest \<leftarrow> mwri dest (int (length ?out) - 1) 0; Some (dest, int (length ?out) - 1) })
        else Some (dest, int (length ?out)) })" for bPad
  proof -
    have "4 * int ((n + 2) div 3) \<le> INT_MAX"
      using length_enc_text_ge [of "take n src" "context"] fits n(2) by simp
    note two = two_loops [OF ok n(2) this]
    have "cint (int (length ?out)) = Some (int (length ?out))" using fits len by (simp add: tx_def cint_def INT_MIN_def)
    then show ?thesis unfolding base64_encode_ex_def Let_def nat_int two using n by simp
  qed
  have idx: "nat (int (length o1) + 1) = Suc (length o1)" by simp
  show "base64_encode_ex context src (int n) dest True =
      Some (tx @ [0] @ drop (length tx + 1) dest, int (length tx))"
    unfolding enc put len using out4
    by (auto simp: o mwri_def list_update_append tx k_def n_pads_mod idx nat_add_distrib numeral_2_eq_2)
  show "\<exists>rest. base64_encode_ex context src (int n) dest False =
      Some (take (length tx - k) tx @ [0] @ rest, int (length tx - k)) \<and>
      length (take (length tx - k) tx @ [0] @ rest) = length dest"
  proof -
    let ?R = "drop (Suc (length ?out)) dest"
    have L: "length dest = Suc (length ?out + length ?R)" using room len by (simp add: tx_def)
    consider "n - n div 3 * 3 = 0" | "n - n div 3 * 3 = 1" | "n - n div 3 * 3 = 2"
      using zero_pad_split(2) [OF n(2)] by linarith
    then show ?thesis
    proof cases
      case 1
      then show ?thesis unfolding enc put len using L out4
        by (intro exI [of _ ?R]) (simp add: o list_update_append tx k_def n_pads_mod)
    next
      case 2
      then show ?thesis unfolding enc put len using L out4
        by (intro exI [of _ "b # 0 # ?R"])
          (simp add: o mwri_def list_update_append tx k_def n_pads_mod idx nat_add_distrib)
    next
      case 3
      then show ?thesis unfolding enc put len using L out4
        by (intro exI [of _ "0 # ?R"])
          (simp add: o mwri_def list_update_append tx k_def n_pads_mod idx nat_add_distrib)
    qed
  qed
qed

text \<open>The number of line breaks, for line lengths that are multiples of 4.\<close>

lemma enc_out_length_plain:
  assumes "line_length context = 0" "length xs mod 3 = 0"
  shows "length (enc_out context xs lp) = length xs div 3 * 4"
  using assms by (induction "context" xs lp rule: enc_out.induct)
    (auto simp: line_break_def mod_Suc div_Suc split: if_splits)

lemma enc_out_length_wrap:
  assumes "line_length context = 4 * int m" "1 \<le> m" "length xs = 3 * g" "1 \<le> j" "j \<le> m"
  shows "length (enc_out context xs (4 * int j)) = 4 * g + (j + g - 1) div m * length (separator context)"
  using assms(3-5)
proof (induction g arbitrary: xs j)
  case 0
  then show ?case by simp
next
  case (Suc g)
  obtain a b c ys where xs: "xs = a # b # c # ys" "length ys = 3 * g"
    using Suc.prems(1) by (cases xs; cases "tl xs"; cases "tl (tl xs)") auto
  show ?case
  proof (cases "j = m")
    case True
    have "next_pos context (4 * int j) = 4 * int 1"
      using True assms(1,2) by (simp add: next_pos_def)
    then have "length (enc_out context ys (next_pos context (4 * int j))) =
        4 * g + (1 + g - 1) div m * length (separator context)"
      using Suc.IH [OF xs(2), of 1] assms(2) by simp
    moreover have "line_break context (4 * int j) = separator context"
      using True assms(1,2) by (simp add: line_break_def)
    moreover have "(m + g) div m = Suc (g div m)" using div_add_self1 [of m g] assms(2) by simp
    ultimately show ?thesis using True assms(2) by (simp add: xs)
  next
    case False
    then have "next_pos context (4 * int j) = 4 * int (Suc j)" "line_break context (4 * int j) = []"
      using assms(1) Suc.prems(3) by (auto simp: next_pos_def line_break_def)
    then show ?thesis using Suc.IH [OF xs(2), of "Suc j"] False Suc.prems by (simp add: xs)
  qed
qed

lemma enc_out_length_start:
  assumes "line_length context = 4 * int m" "1 \<le> m" "length xs = 3 * g" "1 \<le> g"
  shows "length (enc_out context xs 0) = 4 * g + (g - 1) div m * length (separator context)"
proof -
  obtain g' where g': "g = Suc g'" using assms(4) by (cases g) auto
  obtain a b c ys where xs: "xs = a # b # c # ys" "length ys = 3 * (g - 1)"
    using assms(3) g' by (cases xs; cases "tl xs"; cases "tl (tl xs)") auto
  have "next_pos context 0 = 4 * int 1" "line_break context 0 = []"
    using assms(1,2) by (simp_all add: next_pos_def line_break_def)
  then show ?thesis
    using enc_out_length_wrap [OF assms(1,2) xs(2), of 1] assms(2,4) by (simp add: xs)
qed

section \<open>Decoding what was encoded\<close>

abbreviation char_value :: "base64_context \<Rightarrow> u8 \<Rightarrow> int" where
  "char_value context ch \<equiv> charToValue context ! unat ch"

definition plain_value :: "int \<Rightarrow> int" where
  "plain_value v = (if v = BASE64_PAD then 0 else v)"

definition pad_count :: "int \<Rightarrow> int" where
  "pad_count v = (if v = BASE64_PAD then 1 else 0)"

definition merge4 :: "int \<Rightarrow> int \<Rightarrow> int \<Rightarrow> int \<Rightarrow> u32" where
  "merge4 v0 v1 v2 v3 = push_bit 6 (push_bit 6 (push_bit 6 (word_of_int (plain_value v0)) OR
     word_of_int (plain_value v1)) OR word_of_int (plain_value v2)) OR word_of_int (plain_value v3)"

lemma decode_loop_step:
  assumes "length (charToValue context) = 256" "char_value context ch \<noteq> BASE64_IGNORE"
  shows "decode_loop context (ch # src) d = Option.bind
    (decode_value (plain_value (char_value context ch)) (d\<lparr>dummies := dummies d + pad_count (char_value context ch)\<rparr>))
    (decode_loop context src)"
  using assms by (simp add: plain_value_def pad_count_def)

lemma decode_loop_ignore:
  assumes "length (charToValue context) = 256" "\<forall>s \<in> set sep. char_value context s = BASE64_IGNORE"
  shows "decode_loop context (sep @ src) d = decode_loop context src d"
  using assms(2) by (induction sep) (simp_all add: assms(1))

lemma decode_four:
  assumes "length (charToValue context) = 256" "cycle d = 0"
    and "\<forall>c \<in> set [c0, c1, c2, c3]. char_value context c \<noteq> BASE64_IGNORE"
  defines "comb \<equiv> merge4 (char_value context c0) (char_value context c1) (char_value context c2) (char_value context c3)"
  shows "decode_loop context (c0 # c1 # c2 # c3 # src) d =
    Option.bind (mput (dbuf d) (dpos d)
        [ucast (drop_bit 16 comb), ucast (drop_bit 8 (comb AND 0x0000FF00)), ucast (comb AND 0x000000FF)])
      (\<lambda>b. decode_loop context src
        (d\<lparr>combined := comb, dbuf := b, dpos := dpos d + 3,
           dummies := dummies d + pad_count (char_value context c0) + pad_count (char_value context c1) +
             pad_count (char_value context c2) + pad_count (char_value context c3)\<rparr>))"
proof -
  obtain cy co du bu po where d: "d = \<lparr>cycle = cy, combined = co, dummies = du, dbuf = bu, dpos = po\<rparr>"
    by (cases d)
  show ?thesis
    using assms(2,3) unfolding comb_def d
    by (simp add: decode_loop_step [OF assms(1)] decode_value_def Let_def merge4_def mwr_mput three_put d
        del: decode_loop.simps)
qed

definition pad_char :: "base64_context \<Rightarrow> u8" where
  "pad_char context = word_of_int (pad_ch context)"

lemma pad_char_value: "b64_ok context \<Longrightarrow> char_value context (pad_char context) = BASE64_PAD"
  by (auto simp: b64_ok_def pad_char_def unsigned_of_int take_bit_int_eq_self)

text \<open>The group with its last \<open>k\<close> characters replaced by pad characters.\<close>

definition padded_quad :: "base64_context \<Rightarrow> nat \<Rightarrow> u8 \<Rightarrow> u8 \<Rightarrow> u8 \<Rightarrow> bytes" where
  "padded_quad context k a b c = take (4 - k) (quad context a b c) @ replicate k (pad_char context)"

lemma quad_values:
  assumes "b64_ok context"
  shows "map (char_value context) (quad context a b c) = map int (sextets (combine3 a b c))"
  using assms sextet_lt by (simp add: quad_def sextets_eq b64_ok_def)

lemma word_of_sextet: "(word_of_int (int (unat (sextet x k))) :: u32) = sextet x k"
  by simp

lemma quad_list:
  obtains c0 c1 c2 c3 where "quad context a b c = [c0, c1, c2, c3]"
  by (simp add: quad_def sextets_eq)

lemma decode_padded_quad:
  assumes ok: "b64_ok context" and d: "cycle d = 0"
    and k: "k = 0 \<or> k = 1 \<and> c = 0 \<or> k = 2 \<and> b = 0 \<and> c = 0"
  shows "decode_loop context (padded_quad context k a b c @ src) d =
    Option.bind (mput (dbuf d) (dpos d) [a, b, c]) (\<lambda>m. decode_loop context src
      (d\<lparr>combined := combine3 a b c, dbuf := m, dpos := dpos d + 3, dummies := dummies d + int k\<rparr>))"
proof -
  obtain c0 c1 c2 c3 where q: "quad context a b c = [c0, c1, c2, c3]" by (rule quad_list)
  let ?x = "combine3 a b c" and ?p = "pad_char context"
  have v: "char_value context c0 = int (unat (sextet ?x 3))" "char_value context c1 = int (unat (sextet ?x 2))"
    "char_value context c2 = int (unat (sextet ?x 1))" "char_value context c3 = int (unat (sextet ?x 0))"
    using quad_values [OF ok, of a b c] by (simp_all add: q sextets_eq)
  have p: "char_value context ?p = BASE64_PAD" using pad_char_value [OF ok] .
  have len: "length (charToValue context) = 256" using ok by (simp add: b64_ok_def)
  define e2 e3 where "e2 = (if 2 \<le> k then ?p else c2)" and "e3 = (if 1 \<le> k then ?p else c3)"
  have pq: "padded_quad context k a b c = [c0, c1, e2, e3]"
    using k by (auto simp: padded_quad_def q e2_def e3_def numeral_2_eq_2)
  have pv: "plain_value (int i) = int i" "pad_count (int i) = 0" for i
    by (simp_all add: plain_value_def pad_count_def BASE64_PAD_def)
  have pp: "plain_value BASE64_PAD = 0" "pad_count BASE64_PAD = 1"
    by (simp_all add: plain_value_def pad_count_def)
  define n1 n0 where "n1 = unat (sextet ?x 1)" and "n0 = unat (sextet ?x 0)"
  have "1 \<le> k \<Longrightarrow> c = 0" "2 \<le> k \<Longrightarrow> b = 0 \<and> c = 0" using k by auto
  then have z: "1 \<le> k \<Longrightarrow> n0 = 0" "2 \<le> k \<Longrightarrow> n1 = 0"
    using sextet_zero(1) [of a b] sextet_zero(2) [of a] by (auto simp: n0_def n1_def)
  have vn: "char_value context c2 = int n1" "char_value context c3 = int n0"
    using v(3,4) by (simp_all only: n1_def n0_def)
  have ev: "plain_value (char_value context e2) = int n1" "plain_value (char_value context e3) = int n0"
    "pad_count (char_value context e2) + pad_count (char_value context e3) = int k"
    using k z by (auto simp: e2_def e3_def vn p pv pp)
  have comb: "merge4 (char_value context c0) (char_value context c1) (char_value context e2) (char_value context e3) = ?x"
    unfolding merge4_def ev n1_def n0_def v(1,2) pv word_of_sextet merge_sextets combine3_mask ..
  have nonneg: "0 \<le> char_value context c0" "0 \<le> char_value context c1"
    by (simp_all only: v of_nat_0_le_iff)
  have ig: "\<forall>c \<in> set [c0, c1, e2, e3]. char_value context c \<noteq> BASE64_IGNORE"
    using nonneg by (auto simp: vn p e2_def e3_def BASE64_IGNORE_def BASE64_PAD_def)
  show ?thesis
    using decode_four [OF len d ig, of src] unfolding comb unfolding split3 v(1,2) pv pq append.simps
    by (simp only: add_0_right add.assoc ev(3))
qed

lemma line_break_ignored:
  assumes "b64_ok context"
  shows "decode_loop context (line_break context lp @ src) d = decode_loop context src d"
  using assms by (intro decode_loop_ignore) (auto simp: b64_ok_def line_break_def)

lemma decode_groups:
  assumes "b64_ok context" "length raw mod 3 = 0" "cycle d = 0" "mput (dbuf d) (dpos d) raw = Some m"
  shows "\<exists>x. decode_loop context (enc_out context raw lp @ src) d =
    decode_loop context src (d\<lparr>combined := x, dbuf := m, dpos := dpos d + length raw\<rparr>)"
  using assms
proof (induction "context" raw lp arbitrary: d m rule: enc_out.induct)
  case (1 ctx a b c raw lp)
  have q: "quad ctx a b c = padded_quad ctx 0 a b c" by (simp add: padded_quad_def)
  have room: "dpos d + length (a # b # c # raw) \<le> length (dbuf d)" using 1(5) by (simp add: mput_Some_iff)
  then obtain m1 where m1: "mput (dbuf d) (dpos d) [a, b, c] = Some m1" by (auto simp: mput_def)
  let ?d = "d\<lparr>combined := combine3 a b c, dbuf := m1, dpos := dpos d + 3\<rparr>"
  have "mput (dbuf ?d) (dpos ?d) raw = Some m"
    using mput_app [OF m1, of "dpos d + 3" raw] 1(5) by simp
  then obtain x where x: "decode_loop ctx (enc_out ctx raw (next_pos ctx lp) @ src) ?d =
      decode_loop ctx src (?d\<lparr>combined := x, dbuf := m, dpos := dpos ?d + length raw\<rparr>)"
    using 1(1) [OF 1(2), of ?d m] 1(3,4) by (auto simp: mod_Suc split: if_splits)
  have "decode_loop ctx (enc_out ctx (a # b # c # raw) lp @ src) d =
      decode_loop ctx (enc_out ctx raw (next_pos ctx lp) @ src) ?d"
    using decode_padded_quad [OF 1(2,4), of 0] 1(2) m1 by (simp add: line_break_ignored q)
  then show ?case unfolding x by (intro exI [of _ x]) (simp add: eval_nat_numeral)
next
  case "2_1"
  then have "m = dbuf d" by (simp add: mput_Some_iff)
  then show ?case by (intro exI [of _ "combined d"]) simp
qed (simp_all add: mod_Suc)

lemma n_pads_le: "n_pads n \<le> 2"
  by (simp add: n_pads_mod)

lemma zero_pad_prefix: "zero_pad xs = xs @ replicate (n_pads (length xs)) 0"
  by (simp add: zero_pad_def n_pads_def)

lemma zero_pad_length_eq: "length (zero_pad xs) = length xs + n_pads (length xs)"
  by (simp add: zero_pad_prefix)

lemma decode_enc_text:
  assumes ok: "b64_ok context" and m: "mput dest 0 (zero_pad xs) = Some m"
  shows "\<exists>x. decode_loop context (enc_text context xs)
      \<lparr>cycle = 0, combined = 0, dummies = 0, dbuf = dest, dpos = 0\<rparr> =
    Some \<lparr>cycle = 0, combined = x, dummies = int (n_pads (length xs)), dbuf = m, dpos = length (zero_pad xs)\<rparr>"
proof -
  let ?n = "length xs" and ?m = "length xs div 3 * 3" and ?k = "n_pads (length xs)"
  let ?d = "\<lparr>cycle = 0, combined = 0, dummies = 0, dbuf = dest, dpos = 0\<rparr>"
  have mult: "length (zero_pad xs) mod 3 = 0" by (simp add: zero_pad_length)
  show ?thesis
  proof (cases "?n - ?m = 0")
    case True
    then have k: "?k = 0" by (simp add: n_pads_mod)
    then have "enc_text context xs = enc_out context (zero_pad xs) 0" by (simp add: enc_text_def)
    then show ?thesis
      using decode_groups [OF ok mult, of ?d m 0 "[]"] m k by auto
  next
    case False
    obtain a b c where abc: "zero_pad xs = take ?m xs @ [a, b, c]"
      "?k = 1 \<and> c = 0 \<or> ?k = 2 \<and> b = 0 \<and> c = 0"
    proof -
      have "?n - ?m = 1 \<or> ?n - ?m = 2" using zero_pad_split(2) [of ?n xs] False by linarith
      then show thesis using zero_pad_split(1) [of ?n xs] that by (elim disjE) (simp_all add: n_pads_mod)
    qed
    have "length (take ?m xs) = ?m" by (simp add: min_absorb2)
    then have m3: "length (take ?m xs) mod 3 = 0" by (simp only: mod_mult_self2_is_0)
    let ?A = "enc_out context (take ?m xs) 0" and ?c = "enc_col context (take ?m xs) 0"
    have "enc_out context (zero_pad xs) 0 = ?A @ line_break context ?c @ quad context a b c"
      unfolding abc enc_out_append [OF m3] by simp
    then have t: "enc_text context xs = ?A @ line_break context ?c @ padded_quad context ?k a b c"
      using n_pads_le [of ?n] by (simp add: enc_text_def Let_def padded_quad_def pad_char_def)
    have len: "length (take ?m xs) + 3 \<le> length dest"
      using m abc(1) by (auto simp: mput_Some_iff)
    then obtain m1 where m1: "mput dest 0 (take ?m xs) = Some m1" by (auto simp: mput_def)
    obtain x where x: "decode_loop context (?A @ line_break context ?c @ padded_quad context ?k a b c) ?d =
      decode_loop context (line_break context ?c @ padded_quad context ?k a b c)
        (?d\<lparr>combined := x, dbuf := m1, dpos := 0 + length (take ?m xs)\<rparr>)"
      using decode_groups [OF ok m3, of ?d m1 0] m1 by auto
    have "mput m1 (0 + length (take ?m xs)) [a, b, c] = Some m"
      using mput_app [OF m1 refl, of "[a, b, c]"] m abc(1) by simp
    then show ?thesis
      using x decode_padded_quad [OF ok, of "?d\<lparr>combined := x, dbuf := m1, dpos := 0 + length (take ?m xs)\<rparr>" ?k c b a "[]"]
        abc by (auto simp: t line_break_ignored [OF ok])
  qed
qed

lemma decode_ok:
  assumes ok: "b64_ok context" and src: "take (nat len) src = enc_text context xs" "0 \<le> len" "len \<le> int (length src)"
    and room: "length (zero_pad xs) \<le> length dest" "length xs < length dest"
  shows "\<exists>d. base64_decode context src len dest = Some (d, int (length xs)) \<and> length d = length dest \<and>
    take (length xs) d = xs \<and> d ! length xs = 0"
proof -
  obtain m where m: "mput dest 0 (zero_pad xs) = Some m" using room by (simp add: mput_def)
  then have m': "m = zero_pad xs @ drop (length (zero_pad xs)) dest" by (simp add: mput_Some_iff)
  obtain x where "decode_loop context (enc_text context xs)
      \<lparr>cycle = 0, combined = 0, dummies = 0, dbuf = dest, dpos = 0\<rparr> =
    Some \<lparr>cycle = 0, combined = x, dummies = int (n_pads (length xs)), dbuf = m, dpos = length (zero_pad xs)\<rparr>"
    using decode_enc_text [OF ok m] by blast
  then have "base64_decode context src len dest = Some (m[length xs := 0], int (length xs))"
    using src room mput_length [OF m] by (simp add: base64_decode_def zero_pad_length_eq mwri_def)
  moreover have "take (length xs) (m[length xs := 0]) = xs" by (simp add: m' zero_pad_prefix)
  ultimately show ?thesis using mput_length [OF m] room by simp
qed

lemma length_enc_text_plain:
  assumes "line_length context = 0"
  shows "length (enc_text context xs) = (length xs + 2) div 3 * 4"
proof -
  have "length (zero_pad xs) mod 3 = 0" by (simp add: zero_pad_length)
  then show ?thesis
    using enc_out_length_plain [OF assms, of "zero_pad xs" 0] by (simp add: length_enc_text zero_pad_length)
qed

lemma get_encode_length_ok:
  assumes ok: "b64_ok context" "4 dvd line_length context"
    and fits: "int (length (enc_text context xs)) + line_length context \<le> INT_MAX"
  shows "base64_get_encode_length context (int (length xs)) = Some (int (length (enc_text context xs)))"
proof -
  let ?n = "length xs" and ?L = "length (enc_text context xs)"
  define g where "g = (?n + 2) div 3"
  have zl: "length (zero_pad xs) = 3 * g" by (simp add: zero_pad_length g_def)
  have ng: "?n \<le> 3 * g" by (simp add: g_def)
  have ll0: "0 \<le> line_length context" using ok(1) by (simp add: b64_ok_def)
  then obtain m where m: "line_length context = 4 * int m"
    using ok(2) by (metis dvdE nonneg_int_cases zero_le_mult_iff not_numeral_le_zero)
  have sep: "int (length (separator context)) = line_sep_len context"
    using ok(1) length_separator [OF ok(1)] by (simp add: b64_ok_def)
  have div: "(int ?n + 2) div 3 = int g" by (simp add: g_def zdiv_int)
  have L: "?L = 4 * g + (if m = 0 \<or> g = 0 then 0 else (g - 1) div m * length (separator context))"
  proof (cases "m = 0")
    case True
    then show ?thesis using length_enc_text_plain [of "context" xs] m by (simp add: g_def)
  next
    case False
    then show ?thesis
      using enc_out_length_start [OF m _ zl] zl by (cases "g = 0") (auto simp: length_enc_text)
  qed
  have s1: "cint (int ?n + 2) = Some (int ?n + 2)" "cint (int g * 4) = Some (int g * 4)"
    using fits L ll0 ng by (auto simp: cint_def INT_MAX_def INT_MIN_def)
  show ?thesis
  proof (cases "m = 0")
    case True
    then show ?thesis using m L s1 div by (simp add: base64_get_encode_length_def)
  next
    case False
    have s2: "cint (int g * 4 + line_length context) = Some (int g * 4 + line_length context)"
      using fits L ll0 by (auto simp: cint_def INT_MAX_def INT_MIN_def)
    have "(int g * 4 + 4 * int m - 1) sdiv (4 * int m) - 1 = (if g = 0 then -1 else int ((g - 1) div m)) + (if g = 0 then 0 else 0)"
    proof -
      have e: "int g * 4 + 4 * int m - 1 = (int g * 4 - 1) + 4 * int m" by simp
      have "(int g * 4 + 4 * int m - 1) div (4 * int m) = (int g * 4 - 1) div (4 * int m) + 1"
        unfolding e
        using div_add_self2 [of "4 * int m" "int g * 4 - 1"] False by simp
      moreover have "(int g * 4 - 1) div (4 * int m) = (int g * 4 - 1) div 4 div int m"
        by (simp add: zdiv_zmult2_eq)
      moreover have "(int g * 4 - 1) div 4 = int g - 1" by simp
      moreover have "(int g - 1) div int m = (if g = 0 then -1 else int ((g - 1) div m))"
        using False by (auto simp: zdiv_int of_nat_diff div_eq_minus1)
      ultimately show ?thesis using False by simp
    qed
    moreover have "g \<noteq> 0 \<Longrightarrow> cint (int ((g - 1) div m) * line_sep_len context) = Some (int ((g - 1) div m) * line_sep_len context)"
      "g \<noteq> 0 \<Longrightarrow> cint (int g * 4 + int ((g - 1) div m) * line_sep_len context) =
         Some (int g * 4 + int ((g - 1) div m) * line_sep_len context)"
    proof -
      define e where "e = (g - 1) div m * length (separator context)"
      have e: "int ((g - 1) div m) * line_sep_len context = int e" by (simp add: e_def flip: sep)
      assume "g \<noteq> 0"
      then have "?L = 4 * g + e" using L False by (simp add: e_def)
      then show "cint (int ((g - 1) div m) * line_sep_len context) = Some (int ((g - 1) div m) * line_sep_len context)"
        "cint (int g * 4 + int ((g - 1) div m) * line_sep_len context) =
         Some (int g * 4 + int ((g - 1) div m) * line_sep_len context)"
        unfolding e using fits ll0 by (simp_all add: cint_def INT_MAX_def INT_MIN_def)
    qed
    ultimately show ?thesis
      using False m L s1 s2 div sep
      by (cases "g = 0") (auto simp: base64_get_encode_length_def Let_def)
  qed
qed

section \<open>Arbitrary input to the decoder\<close>

text \<open>The characters that count: those that the context does not ignore.\<close>

definition data_chars :: "base64_context \<Rightarrow> bytes \<Rightarrow> nat" where
  "data_chars context src = length (filter (\<lambda>ch. char_value context ch \<noteq> BASE64_IGNORE) src)"

definition pad_chars :: "base64_context \<Rightarrow> bytes \<Rightarrow> nat" where
  "pad_chars context src = length (filter (\<lambda>ch. char_value context ch = BASE64_PAD) src)"

lemma decode_value_ok:
  assumes "cycle d < 4" "dpos d + (if cycle d = 3 then 3 else 0) \<le> length (dbuf d)"
  shows "\<exists>d'. decode_value v d = Some d' \<and> length (dbuf d') = length (dbuf d) \<and> dummies d' = dummies d \<and>
    cycle d' = (cycle d + 1) mod 4 \<and> dpos d' = dpos d + (if cycle d = 3 then 3 else 0)"
proof -
  have "cycle d = 0 \<or> cycle d = 1 \<or> cycle d = 2 \<or> cycle d = 3" using assms(1) by auto
  then show ?thesis using assms(2) by (elim disjE) (simp_all add: decode_value_def Let_def)
qed

lemma cycle_step:
  assumes "c < (4 :: nat)"
  shows "Suc (c + k) div 4 = (if c = 3 then 1 else 0) + ((c + 1) mod 4 + k) div 4"
    and "Suc (c + k) mod 4 = ((c + 1) mod 4 + k) mod 4"
proof -
  have c: "c = 0 \<or> c = 1 \<or> c = 2 \<or> c = 3" using assms by auto
  then show "Suc (c + k) div 4 = (if c = 3 then 1 else 0) + ((c + 1) mod 4 + k) div 4" by (elim disjE) auto
  from c show "Suc (c + k) mod 4 = ((c + 1) mod 4 + k) mod 4" by (elim disjE) auto
qed

lemma decode_loop_counts:
  assumes "length (charToValue context) = 256" "cycle d < 4"
    and "dpos d + 3 * ((cycle d + data_chars context src) div 4) \<le> length (dbuf d)"
  shows "\<exists>d'. decode_loop context src d = Some d' \<and> length (dbuf d') = length (dbuf d) \<and>
    cycle d' = (cycle d + data_chars context src) mod 4 \<and>
    dpos d' = dpos d + 3 * ((cycle d + data_chars context src) div 4) \<and>
    dummies d' = dummies d + int (pad_chars context src)"
  using assms(2,3)
proof (induction src arbitrary: d)
  case Nil
  then show ?case by (simp add: data_chars_def pad_chars_def)
next
  case (Cons ch src)
  show ?case
  proof (cases "char_value context ch = BASE64_IGNORE")
    case True
    then have "data_chars context (ch # src) = data_chars context src" "pad_chars context (ch # src) = pad_chars context src"
      by (simp_all add: data_chars_def pad_chars_def BASE64_IGNORE_def BASE64_PAD_def)
    then show ?thesis using Cons.IH [of d] Cons.prems True assms(1) by simp
  next
    case False
    let ?v = "char_value context ch"
    have n: "data_chars context (ch # src) = Suc (data_chars context src)"
      "int (pad_chars context (ch # src)) = pad_count ?v + int (pad_chars context src)"
      using False by (simp_all add: data_chars_def pad_chars_def pad_count_def)
    let ?d = "d\<lparr>dummies := dummies d + pad_count ?v\<rparr>"
    have cy: "(Suc (cycle d + k)) div 4 = (if cycle d = 3 then 1 else 0) + ((cycle d + 1) mod 4 + k) div 4"
      "(Suc (cycle d + k)) mod 4 = ((cycle d + 1) mod 4 + k) mod 4" for k
      using cycle_step [OF Cons.prems(1)] by auto
    obtain d' where d': "decode_value (plain_value ?v) ?d = Some d'" "length (dbuf d') = length (dbuf d)"
        "dummies d' = dummies d + pad_count ?v" "cycle d' = (cycle d + 1) mod 4"
        "dpos d' = dpos d + (if cycle d = 3 then 3 else 0)"
      using decode_value_ok [of ?d "plain_value ?v"] Cons.prems n cy(1) [of "data_chars context src"]
      by (auto split: if_splits)
    have "dpos d' + 3 * ((cycle d' + data_chars context src) div 4) \<le> length (dbuf d')"
      using Cons.prems(2) n d' cy(1) [of "data_chars context src"] by (auto split: if_splits)
    then show ?thesis
      using Cons.IH [of d'] d' n cy [of "data_chars context src"] decode_loop_step [OF assms(1) False, of src d]
      by (auto split: if_splits)
  qed
qed

lemma base64_decode_counts:
  assumes "length (charToValue context) = 256" "0 \<le> len" "len \<le> int (length src)"
  defines "chars \<equiv> take (nat len) src"
  defines "n \<equiv> data_chars context chars" and "k \<equiv> pad_chars context chars"
  assumes room: "3 * (n div 4) \<le> length dest" "dest \<noteq> []"
  shows "n mod 4 \<noteq> 0 \<Longrightarrow> \<exists>d. base64_decode context src len dest = Some (d, 0) \<and> length d = length dest \<and> d ! 0 = 0"
    and "n mod 4 = 0 \<Longrightarrow> 3 * (n div 4) < k \<Longrightarrow> base64_decode context src len dest = None"
    and "n mod 4 = 0 \<Longrightarrow> k \<le> 3 * (n div 4) \<Longrightarrow> 3 * (n div 4) - k < length dest \<Longrightarrow>
      \<exists>d. base64_decode context src len dest = Some (d, int (3 * (n div 4) - k)) \<and> length d = length dest \<and>
        d ! (3 * (n div 4) - k) = 0"
proof -
  let ?d = "\<lparr>cycle = 0, combined = 0, dummies = 0, dbuf = dest, dpos = 0\<rparr>"
  obtain d' where d': "decode_loop context chars ?d = Some d'" "length (dbuf d') = length dest"
      "cycle d' = n mod 4" "dpos d' = 3 * (n div 4)" "dummies d' = int k"
    using decode_loop_counts [OF assms(1), of ?d chars] room(1) by (auto simp: n_def k_def)
  have D: "base64_decode context src len dest = (if cycle d' \<noteq> 0 then do { dest \<leftarrow> mwr (dbuf d') 0 0; Some (dest, 0) }
        else do { dest \<leftarrow> mwri (dbuf d') (int (dpos d') - dummies d') 0; Some (dest, int (dpos d') - dummies d') })"
    using d'(1) assms(2,3) by (simp add: base64_decode_def chars_def Let_def)
  have "0 < length dest" using room(2) by simp
  then show "n mod 4 \<noteq> 0 \<Longrightarrow> \<exists>d. base64_decode context src len dest = Some (d, 0) \<and> length d = length dest \<and> d ! 0 = 0"
    unfolding D using d' by simp
  show "n mod 4 = 0 \<Longrightarrow> 3 * (n div 4) < k \<Longrightarrow> base64_decode context src len dest = None"
    unfolding D using d' by (simp add: mwri_def)
  show "\<exists>d. base64_decode context src len dest = Some (d, int (3 * (n div 4) - k)) \<and> length d = length dest \<and>
        d ! (3 * (n div 4) - k) = 0"
    if "n mod 4 = 0" "k \<le> 3 * (n div 4)" "3 * (n div 4) - k < length dest"
  proof -
    have "int (3 * (n div 4)) - int k = int (3 * (n div 4) - k)" using that(2) by (simp add: of_nat_diff)
    then show ?thesis unfolding D using d' that by (simp add: mwri_def del: of_nat_diff)
  qed
qed

section \<open>Properties\<close>

lemma std_ok: "b64_ok (base64_init_ex n 43 47 61)" if "0 \<le> n"
  using that by (intro init_ok) (auto simp: plain_digit_def)

lemma std_values:
  "charToValue (base64_init_ex 0 43 47 61) ! 77 = 12" "charToValue (base64_init_ex 0 43 47 61) ! 10 = -1"
  "charToValue (base64_init_ex 0 43 47 61) ! 61 = -2"
  by code_simp+

lemma auto_roundtrip_ok:
  assumes ok: "b64_ok context" and plain: "line_length context = 0"
    and n: "0 < n" "n \<le> length src" and fits: "int ((n + 2) div 3 * 4) \<le> INT_MAX"
    and room: "(n + 2) div 3 * 4 < length buf" "(n + 2) div 3 * 3 < length dest"
    and al: "(n + 2) div 3 * 4 \<le> 256 \<or> fst (alloc_next al)"
  shows "\<exists>e len d. base64_encode_ex context src (int n) buf False = Some (e, len) \<and>
    base64_decode_auto al context e len dest = Some (d, int n) \<and> take n d = take n src"
proof -
  let ?xs = "take n src" and ?k = "n_pads n" and ?g = "(n + 2) div 3"
  let ?T = "enc_text context ?xs"
  have nx: "length ?xs = n" using n by simp
  have L: "length ?T = ?g * 4" using length_enc_text_plain [OF plain, of ?xs] nx by simp
  have g1: "1 \<le> ?g" using n(1) by (simp add: Suc_leI div_greater_zero_iff)
  obtain rest where E: "base64_encode_ex context src (int n) buf False =
      Some (take (length ?T - ?k) ?T @ [0] @ rest, int (length ?T - ?k))"
    using encode_ok(2) [OF ok n, of buf] room(1) L fits by auto
  let ?e = "take (length ?T - ?k) ?T @ [0] @ rest" and ?len = "int (length ?T - ?k)"
  have T: "?T = take (length ?T - ?k) ?T @ replicate ?k (pad_char context)"
  proof -
    define out where "out = enc_out context (zero_pad ?xs) 0"
    have "?T = take (length out - ?k) out @ replicate ?k (pad_char context)" "length ?T = length out"
      using nx length_enc_text [of "context" ?xs] by (simp_all add: enc_text_def out_def Let_def pad_char_def)
    then show ?thesis by simp
  qed
  have D: "\<exists>d. base64_decode context s l dest = Some (d, int n) \<and> take n d = ?xs"
    if "take (nat l) s = ?T" "0 \<le> l" "l \<le> int (length s)" for s l
    using decode_ok [OF ok that, of dest] room(2) n nx zero_pad_length [of ?xs] zero_pad_length_eq [of ?xs]
    by auto
  have k: "?k = 0 \<or> ?k = 1 \<or> ?k = 2" using n_pads_le [of n] by auto
  have "\<exists>d. base64_decode_auto al context ?e ?len dest = Some (d, int n) \<and> take n d = ?xs"
  proof (cases "?k = 0")
    case True
    then have "?len smod 4 = 0" using L by simp
    then show ?thesis
      using D [of ?len ?e] True by (simp add: base64_decode_auto_def)
  next
    case False
    have "?k \<le> ?g * 4" using k g1 by linarith
    then have len: "?len = int ?g * 4 - int ?k" unfolding L by (simp only: of_nat_diff of_nat_mult of_nat_numeral)
    have "(int ?g * 4 - int ?k) mod 4 = 4 - int ?k"
      using k False by (elim disjE) (simp_all add: mod_diff_left_eq [symmetric] mod_minus_eq)
    then have md: "?len smod 4 = 4 - int ?k" using len by (simp add: smod_nonneg)
    have new: "?len + (4 - (4 - int ?k)) = int ?g * 4" using len by simp
    have "base64_decode_auto al context ?e ?len dest = base64_decode context ?T (int ?g * 4) dest"
    proof -
      have "cint (int ?g * 4) = Some (int ?g * 4)" using fits by (auto simp: cint_def INT_MAX_def INT_MIN_def)
      moreover have "int ?g * 4 \<le> 256 \<or> fst (alloc_next al)" using al by auto
      moreover have "mget ?e 0 (nat ?len) = Some (take (length ?T - ?k) ?T)" by simp
      ultimately show ?thesis
        using md new k False T unfolding base64_decode_auto_def Let_def
        by (simp only: pad_char_def [symmetric]) auto
    qed
    then show ?thesis using D [of "int ?g * 4" ?T] L by simp
  qed
  then show ?thesis using E by blast
qed

text \<open>
  The context that \<open>base64_init_ex\<close> builds is well formed for every choice of the two extra
  digits and the pad character that keeps them apart from each other, from the letters and digits
  and from the newline; setting a line length or a separator of ignored characters keeps it so.
\<close>

theorem base64_context_ok:
  assumes "\<not> plain_digit p" "\<not> plain_digit s" "\<not> plain_digit d" "distinct [p, s, d, 10]" "0 \<le> n" "0 \<le> len"
    and "\<forall>c \<in> set sep. charToValue (base64_init_ex n p s d) ! unat c = BASE64_IGNORE"
  shows "b64_ok (base64_init_ex n p s d) \<and>
    b64_ok (base64_set_line_separator (base64_set_line_length (base64_init_ex n p s d) len) sep)"
proof -
  have ok: "b64_ok (base64_init_ex n p s d)" using assms(1-5) by (intro init_ok) auto
  have "charToValue (base64_set_line_length c m) = charToValue c" for c m
    by (simp add: base64_set_line_length_def)
  then have "b64_ok (base64_set_line_separator (base64_set_line_length (base64_init_ex n p s d) len) sep)"
    using assms(7) by (intro set_line_separator_ok(1) set_line_length_ok ok assms(6)) (simp only:)
  with ok show ?thesis by blast
qed

theorem base64_context_ok_witness:
  "b64_ok (base64_init_ex 76 45 95 46) \<and>
   b64_ok (base64_set_line_separator (base64_set_line_length (base64_init_ex 76 45 95 46) 63) [13, 10])"
proof -
  have "\<forall>c \<in> set [13, 10]. charToValue (base64_init_ex 76 45 95 46) ! unat (c :: u8) = BASE64_IGNORE"
    by code_simp
  then show ?thesis by (intro base64_context_ok) (auto simp: plain_digit_def)
qed

text \<open>
  C17: A buffer of \<open>base64_get_encode_length\<close> characters and a terminator is enough: encoding with
  padding returns, writes exactly that many characters and a terminator, and touches nothing behind
  it, when the line length is a multiple of 4.
\<close>

theorem base64_encode_length_exact:
  assumes "b64_ok context" "4 dvd line_length context" "0 < n" "n \<le> length src"
    and "int (length (enc_text context (take n src))) + line_length context \<le> INT_MAX"
    and "base64_get_encode_length context (int n) = Some len" "len < int (length dest)"
  shows "\<exists>d. base64_encode_ex context src (int n) dest True = Some (d, len) \<and>
    length d = length dest \<and> d ! nat len = 0 \<and> drop (nat len + 1) d = drop (nat len + 1) dest"
proof -
  have len: "len = int (length (enc_text context (take n src)))"
    using get_encode_length_ok [OF assms(1,2,5)] assms(4,6) by simp
  then have room: "length (enc_text context (take n src)) < length dest" using assms(7) by simp
  define t where "t = enc_text context (take n src)"
  have ll0: "0 \<le> line_length context" using assms(1) by (simp add: b64_ok_def)
  have "base64_encode_ex context src (int n) dest True = Some (t @ [0] @ drop (length t + 1) dest, len)"
    using encode_ok(1) [OF assms(1,3,4) _ room] assms(5) ll0 by (simp add: t_def len)
  moreover have "length (t @ [0] @ drop (length t + 1) dest) = length dest" using room by (simp add: t_def)
  moreover have "nat len = length t" by (simp add: t_def len)
  ultimately show ?thesis by (intro exI [of _ "t @ [0] @ drop (length t + 1) dest"]) (simp add: nth_append)
qed

theorem base64_encode_length_exact_witness:
  "\<exists>d. base64_encode_ex (base64_init_ex 4 43 47 61) [77, 97, 110, 77] 4 (replicate 10 1) True = Some (d, 9) \<and>
     d ! 9 = 0"
proof -
  let ?c = "base64_init_ex 4 43 47 61"
  have ok: "b64_ok ?c" by (rule std_ok) simp
  have L: "length (enc_text ?c [77, 97, 110, 77]) = 9"
    by code_simp
  have "base64_get_encode_length ?c (int 4) = Some 9"
    by (simp add: base64_get_encode_length_def init_fields Let_def cint_def INT_MAX_def INT_MIN_def)
  then show ?thesis
    using base64_encode_length_exact [OF ok, of 4 "[77, 97, 110, 77]" 9 "replicate 10 1"] L
    by (auto simp: init_fields INT_MAX_def)
qed

text \<open>
  C5: Decoding the padded encoding of a non-empty byte string gives the bytes back, their number, and a terminator behind them. The
  context is a well-formed one: its line length is any natural number, its separator any string of at most 15 characters that the decoder
  ignores; and the length of the encoded text fits into an \<open>int\<close>.
\<close>

theorem base64_roundtrip:
  assumes "b64_ok context" "0 < n" "n \<le> length src" "int (length (enc_text context (take n src))) \<le> INT_MAX"
    and "length (enc_text context (take n src)) < length buf" "(n + 2) div 3 * 3 < length dest"
  shows "\<exists>e len d. base64_encode_ex context src (int n) buf True = Some (e, len) \<and>
    base64_decode context e len dest = Some (d, int n) \<and> take n d = take n src \<and> d ! n = 0"
proof -
  let ?T = "enc_text context (take n src)"
  have "length (zero_pad (take n src)) \<le> length dest" "length (take n src) < length dest" "length (take n src) = n"
    using assms(3,6) zero_pad_length [of "take n src"] zero_pad_length_eq [of "take n src"] by auto
  then show ?thesis
    using encode_ok(1) [OF assms(1-5)]
      decode_ok [OF assms(1), of "int (length ?T)" "?T @ [0] @ drop (length ?T + 1) buf" "take n src" dest]
    by auto
qed

theorem base64_roundtrip_witness:
  "\<exists>e len d. base64_encode_ex (base64_init_ex 0 43 47 61) [77, 97] 2 (replicate 5 1) True = Some (e, len) \<and>
     base64_decode (base64_init_ex 0 43 47 61) e len (replicate 4 1) = Some (d, 2) \<and> take 2 d = [77, 97]"
proof -
  let ?c = "base64_init_ex 0 43 47 61"
  have ok: "b64_ok ?c" by (rule std_ok) simp
  have "length (enc_text ?c [77, 97]) = 4" using length_enc_text_plain [of ?c "[77, 97]"] by (simp add: init_fields)
  then show ?thesis
    using base64_roundtrip [OF ok, of 2 "[77, 97]" "replicate 5 1" "replicate 4 1"] by (auto simp: INT_MAX_def)
qed

text \<open>
  Encoding without padding and without line breaks is undone by \<open>base64_decode_auto\<close>, which
  puts the missing pad characters back, in its own buffer or in a block from \<open>malloc\<close>.
\<close>

theorem base64_auto_roundtrip:
  assumes "b64_ok context" "line_length context = 0" "0 < n" "n \<le> length src"
    and "int ((n + 2) div 3 * 4) \<le> INT_MAX"
    and "(n + 2) div 3 * 4 < length buf" "(n + 2) div 3 * 3 < length dest"
    and "(n + 2) div 3 * 4 \<le> 256 \<or> fst (alloc_next al)"
  shows "\<exists>e len d. base64_encode_ex context src (int n) buf False = Some (e, len) \<and>
    base64_decode_auto al context e len dest = Some (d, int n) \<and> take n d = take n src"
  using assms by (rule auto_roundtrip_ok)

theorem base64_auto_roundtrip_witness:
  "\<exists>e len d. base64_encode_ex (base64_init_ex 0 43 47 61) [77, 97] 2 (replicate 5 1) False = Some (e, len) \<and>
     base64_decode_auto [False] (base64_init_ex 0 43 47 61) e len (replicate 4 1) = Some (d, 2) \<and> take 2 d = [77, 97]"
  using base64_auto_roundtrip [of "base64_init_ex 0 43 47 61" 2 "[77, 97]" "replicate 5 1" "replicate 4 1" "[False]"]
    std_ok [of 0] by (auto simp: init_fields INT_MAX_def)

text \<open>
  C18: Decoding of arbitrary characters into a destination with more than three bytes for every four of those that are not ignored. When the
  number \<open>n\<close> of these is no multiple of 4 the result is the empty string, terminated, of length 0. When it is one, the length is
  \<open>3 * (n div 4)\<close> less the number \<open>k\<close> of pad characters, wherever they stand, and the terminator is stored at that place: this is a place of the
  destination when \<open>k \<le> 3 * (n div 4)\<close>; when there are more pad characters than decoded bytes, as in \<open>====\<close>, the terminator goes in front of
  the destination, which is undefined. No other byte outside of the destination is written.
\<close>

theorem base64_decode_any:
  assumes "b64_ok context" "0 \<le> len" "len \<le> INT_MAX" "len \<le> int (length src)"
    and "n = data_chars context (take (nat len) src)" "k = pad_chars context (take (nat len) src)" "3 * (n div 4) < length dest"
  shows "if n mod 4 \<noteq> 0 then \<exists>d. base64_decode context src len dest = Some (d, 0) \<and> length d = length dest \<and> d ! 0 = 0
    else if k \<le> 3 * (n div 4) then \<exists>d. base64_decode context src len dest = Some (d, int (3 * (n div 4) - k)) \<and>
      length d = length dest \<and> d ! (3 * (n div 4) - k) = 0
    else base64_decode context src len dest = None"
proof -
  have c: "length (charToValue context) = 256" using assms(1) by (simp add: b64_ok_def)
  note D = base64_decode_counts [OF c assms(2,4), of dest, folded assms(5,6)]
  have room: "3 * (n div 4) \<le> length dest" "dest \<noteq> []" "3 * (n div 4) - k < length dest"
    using assms(7) by auto
  show ?thesis using D(1) [OF room(1,2)] D(2) [OF room(1,2)] D(3) [OF room(1,2) _ _ room(3)] by (simp add: not_le)
qed

theorem base64_decode_any_witness:
  "(\<exists>d. base64_decode (base64_init_ex 0 43 47 61) [77, 10, 77] 3 [1, 1] = Some (d, 0) \<and> length d = 2 \<and> d ! 0 = 0) \<and>
   base64_decode (base64_init_ex 0 43 47 61) [61, 61, 61, 61] 4 (replicate 8 1) = None"
proof -
  have "charToValue (base64_init_ex 0 43 47 61) ! 77 = 12" "charToValue (base64_init_ex 0 43 47 61) ! 10 = -1"
    "charToValue (base64_init_ex 0 43 47 61) ! 61 = -2"
    by (simp_all only: std_values)
  then have c: "2 = data_chars (base64_init_ex 0 43 47 61) [77, 10, 77]"
    "0 = pad_chars (base64_init_ex 0 43 47 61) [77, 10, 77]"
    "4 = data_chars (base64_init_ex 0 43 47 61) [61, 61, 61, 61]"
    "4 = pad_chars (base64_init_ex 0 43 47 61) [61, 61, 61, 61]"
    by (simp_all add: data_chars_def pad_chars_def BASE64_IGNORE_def BASE64_PAD_def)
  have ok: "b64_ok (base64_init_ex 0 43 47 61)" by (rule std_ok) simp
  have "take (nat 3) [77, 10, 77] = [77, 10, 77 :: u8]" "take (nat 4) [61, 61, 61, 61] = [61, 61, 61, 61 :: u8]" by simp_all
  note D = base64_decode_any [OF ok, of 3 "[77, 10, 77]" 2 0 "[1, 1]", unfolded this, OF _ _ _ c(1,2)]
    base64_decode_any [OF ok, of 4 "[61, 61, 61, 61]" 4 4 "replicate 8 1", unfolded this, OF _ _ _ c(3,4)]
  from D(1) have "\<exists>d. base64_decode (base64_init_ex 0 43 47 61) [77, 10, 77] 3 [1, 1] = Some (d, 0) \<and> length d = 2 \<and> d ! 0 = 0"
    by (simp add: INT_MAX_def numeral_2_eq_2)
  moreover from D(2) have "base64_decode (base64_init_ex 0 43 47 61) [61, 61, 61, 61] 4 (replicate 8 1) = None"
    by (simp add: INT_MAX_def)
  ultimately show ?thesis by blast
qed

text \<open>
  \<open>base64_decode\<close> subtracts one from the length for every pad character, wherever it stands: input
  with more pad characters than decoded bytes, such as \<open>====\<close>, makes it store the terminator in
  front of the destination.
\<close>

theorem base64_decode_underflow:
  assumes "b64_ok context" "0 \<le> len" "len \<le> int (length src)"
    and "data_chars context (take (nat len) src) mod 4 = 0"
    and "3 * (data_chars context (take (nat len) src) div 4) < pad_chars context (take (nat len) src)"
    and "3 * (data_chars context (take (nat len) src) div 4) \<le> length dest" "dest \<noteq> []"
  shows "base64_decode context src len dest = None"
  using assms base64_decode_counts(2) [of "context" len src dest] by (simp add: b64_ok_def)

theorem base64_decode_underflow_witness:
  "base64_decode (base64_init_ex 0 43 47 61) [61, 61, 61, 61] 4 (replicate 8 1) = None"
proof -
  have "charToValue (base64_init_ex 0 43 47 61) ! 61 = -2"
    by (simp only: std_values)
  then have "data_chars (base64_init_ex 0 43 47 61) [61, 61, 61, 61] = 4"
    "pad_chars (base64_init_ex 0 43 47 61) [61, 61, 61, 61] = 4"
    by (simp_all add: data_chars_def pad_chars_def BASE64_IGNORE_def BASE64_PAD_def)
  then show ?thesis
    using base64_decode_underflow [OF std_ok, of 0 4 "[61, 61, 61, 61]" "replicate 8 1"] by simp
qed

text \<open>
  \<open>base64_init_ex\<close> takes any line length, but \<open>base64_get_encode_length\<close> is right for multiples
  of 4 only: with lines of 5 characters it announces 23 characters for 15 bytes, and encoding them
  overruns a buffer of that size and a terminator. And \<open>base64_decode_auto\<close> counts line breaks as
  data: it returns nothing for the unpadded encoding of 4 bytes in lines of 4 characters.
\<close>

theorem base64_line_length_bugs:
  "base64_get_encode_length (base64_init_ex 5 43 47 61) 15 = Some 23 \<and>
   base64_encode_ex (base64_init_ex 5 43 47 61) (replicate 15 77) 15 (replicate 24 0) True = None \<and>
   (case base64_encode_ex (base64_init_ex 4 43 47 61) [77, 97, 110, 77] 4 (replicate 10 1) False of
      None \<Rightarrow> False
    | Some (e, len) \<Rightarrow>
        map_option snd (base64_decode_auto [] (base64_init_ex 4 43 47 61) e len (replicate 10 1)) = Some 0)"
  by code_simp

end
