(* ===== verification/Md5.thy ===== *)
theory Md5
  imports CPrelude
begin

text \<open>
  The MD5 digest of \<open>fastcommon/src/md5.c\<close>. \<open>UINT4\<close> is a 32-bit word, the context is the struct
  of \<open>md5.h\<close>. A block given to \<open>my_md5_update\<close> has exactly \<open>inputLen\<close> readable bytes; the index
  \<open>i\<close> of its loop is an \<open>unsigned int\<close> and wraps. The loop is a partial function, so a run that
  does not end is \<open>None\<close> like one that reads outside of the input.
\<close>

section \<open>The compression function\<close>

definition S11 :: nat where "S11 = 7"
definition S12 :: nat where "S12 = 12"
definition S13 :: nat where "S13 = 17"
definition S14 :: nat where "S14 = 22"
definition S21 :: nat where "S21 = 5"
definition S22 :: nat where "S22 = 9"
definition S23 :: nat where "S23 = 14"
definition S24 :: nat where "S24 = 20"
definition S31 :: nat where "S31 = 4"
definition S32 :: nat where "S32 = 11"
definition S33 :: nat where "S33 = 16"
definition S34 :: nat where "S34 = 23"
definition S41 :: nat where "S41 = 6"
definition S42 :: nat where "S42 = 10"
definition S43 :: nat where "S43 = 15"
definition S44 :: nat where "S44 = 21"

definition md5_F :: "u32 \<Rightarrow> u32 \<Rightarrow> u32 \<Rightarrow> u32" where
  "md5_F x y z = (x AND y) OR (NOT x AND z)"

definition md5_G :: "u32 \<Rightarrow> u32 \<Rightarrow> u32 \<Rightarrow> u32" where
  "md5_G x y z = (x AND z) OR (y AND NOT z)"

definition md5_H :: "u32 \<Rightarrow> u32 \<Rightarrow> u32 \<Rightarrow> u32" where
  "md5_H x y z = x XOR y XOR z"

definition md5_I :: "u32 \<Rightarrow> u32 \<Rightarrow> u32 \<Rightarrow> u32" where
  "md5_I x y z = y XOR (x OR NOT z)"

definition ROTATE_LEFT :: "u32 \<Rightarrow> nat \<Rightarrow> u32" where
  "ROTATE_LEFT x n = push_bit n x OR drop_bit (32 - n) x"

definition FF :: "u32 \<Rightarrow> u32 \<Rightarrow> u32 \<Rightarrow> u32 \<Rightarrow> u32 \<Rightarrow> nat \<Rightarrow> u32 \<Rightarrow> u32" where
  "FF a b c d x s ac =
     (let a = a + (md5_F b c d + x + ac); a = ROTATE_LEFT a s in a + b)"

definition GG :: "u32 \<Rightarrow> u32 \<Rightarrow> u32 \<Rightarrow> u32 \<Rightarrow> u32 \<Rightarrow> nat \<Rightarrow> u32 \<Rightarrow> u32" where
  "GG a b c d x s ac =
     (let a = a + (md5_G b c d + x + ac); a = ROTATE_LEFT a s in a + b)"

definition HH :: "u32 \<Rightarrow> u32 \<Rightarrow> u32 \<Rightarrow> u32 \<Rightarrow> u32 \<Rightarrow> nat \<Rightarrow> u32 \<Rightarrow> u32" where
  "HH a b c d x s ac =
     (let a = a + (md5_H b c d + x + ac); a = ROTATE_LEFT a s in a + b)"

definition II :: "u32 \<Rightarrow> u32 \<Rightarrow> u32 \<Rightarrow> u32 \<Rightarrow> u32 \<Rightarrow> nat \<Rightarrow> u32 \<Rightarrow> u32" where
  "II a b c d x s ac =
     (let a = a + (md5_I b c d + x + ac); a = ROTATE_LEFT a s in a + b)"

text \<open>The 64 steps of \<open>MD5Transform\<close> on its local variables.\<close>

definition MD5_rounds :: "u32 list \<Rightarrow> u32 \<times> u32 \<times> u32 \<times> u32 \<Rightarrow> u32 \<times> u32 \<times> u32 \<times> u32" where
  "MD5_rounds x st = (case st of (a, b, c, d) \<Rightarrow>
     (let a = FF a b c d (x ! 0) S11 0xd76aa478;
          d = FF d a b c (x ! 1) S12 0xe8c7b756;
          c = FF c d a b (x ! 2) S13 0x242070db;
          b = FF b c d a (x ! 3) S14 0xc1bdceee;
          a = FF a b c d (x ! 4) S11 0xf57c0faf;
          d = FF d a b c (x ! 5) S12 0x4787c62a;
          c = FF c d a b (x ! 6) S13 0xa8304613;
          b = FF b c d a (x ! 7) S14 0xfd469501;
          a = FF a b c d (x ! 8) S11 0x698098d8;
          d = FF d a b c (x ! 9) S12 0x8b44f7af;
          c = FF c d a b (x ! 10) S13 0xffff5bb1;
          b = FF b c d a (x ! 11) S14 0x895cd7be;
          a = FF a b c d (x ! 12) S11 0x6b901122;
          d = FF d a b c (x ! 13) S12 0xfd987193;
          c = FF c d a b (x ! 14) S13 0xa679438e;
          b = FF b c d a (x ! 15) S14 0x49b40821;
          a = GG a b c d (x ! 1) S21 0xf61e2562;
          d = GG d a b c (x ! 6) S22 0xc040b340;
          c = GG c d a b (x ! 11) S23 0x265e5a51;
          b = GG b c d a (x ! 0) S24 0xe9b6c7aa;
          a = GG a b c d (x ! 5) S21 0xd62f105d;
          d = GG d a b c (x ! 10) S22 0x2441453;
          c = GG c d a b (x ! 15) S23 0xd8a1e681;
          b = GG b c d a (x ! 4) S24 0xe7d3fbc8;
          a = GG a b c d (x ! 9) S21 0x21e1cde6;
          d = GG d a b c (x ! 14) S22 0xc33707d6;
          c = GG c d a b (x ! 3) S23 0xf4d50d87;
          b = GG b c d a (x ! 8) S24 0x455a14ed;
          a = GG a b c d (x ! 13) S21 0xa9e3e905;
          d = GG d a b c (x ! 2) S22 0xfcefa3f8;
          c = GG c d a b (x ! 7) S23 0x676f02d9;
          b = GG b c d a (x ! 12) S24 0x8d2a4c8a;
          a = HH a b c d (x ! 5) S31 0xfffa3942;
          d = HH d a b c (x ! 8) S32 0x8771f681;
          c = HH c d a b (x ! 11) S33 0x6d9d6122;
          b = HH b c d a (x ! 14) S34 0xfde5380c;
          a = HH a b c d (x ! 1) S31 0xa4beea44;
          d = HH d a b c (x ! 4) S32 0x4bdecfa9;
          c = HH c d a b (x ! 7) S33 0xf6bb4b60;
          b = HH b c d a (x ! 10) S34 0xbebfbc70;
          a = HH a b c d (x ! 13) S31 0x289b7ec6;
          d = HH d a b c (x ! 0) S32 0xeaa127fa;
          c = HH c d a b (x ! 3) S33 0xd4ef3085;
          b = HH b c d a (x ! 6) S34 0x4881d05;
          a = HH a b c d (x ! 9) S31 0xd9d4d039;
          d = HH d a b c (x ! 12) S32 0xe6db99e5;
          c = HH c d a b (x ! 15) S33 0x1fa27cf8;
          b = HH b c d a (x ! 2) S34 0xc4ac5665;
          a = II a b c d (x ! 0) S41 0xf4292244;
          d = II d a b c (x ! 7) S42 0x432aff97;
          c = II c d a b (x ! 14) S43 0xab9423a7;
          b = II b c d a (x ! 5) S44 0xfc93a039;
          a = II a b c d (x ! 12) S41 0x655b59c3;
          d = II d a b c (x ! 3) S42 0x8f0ccc92;
          c = II c d a b (x ! 10) S43 0xffeff47d;
          b = II b c d a (x ! 1) S44 0x85845dd1;
          a = II a b c d (x ! 8) S41 0x6fa87e4f;
          d = II d a b c (x ! 15) S42 0xfe2ce6e0;
          c = II c d a b (x ! 6) S43 0xa3014314;
          b = II b c d a (x ! 13) S44 0x4e0811a1;
          a = II a b c d (x ! 4) S41 0xf7537e82;
          d = II d a b c (x ! 11) S42 0xbd3af235;
          c = II c d a b (x ! 2) S43 0x2ad7d2bb;
          b = II b c d a (x ! 9) S44 0xeb86d391 in
      (a, b, c, d)))"

function Decode_loop :: "nat \<Rightarrow> nat \<Rightarrow> nat \<Rightarrow> bytes \<Rightarrow> u32 list \<Rightarrow> u32 list option" where
  "Decode_loop i j len input out =
     (if j < len then do {
        b0 \<leftarrow> mrd input j;
        b1 \<leftarrow> mrd input (j + 1);
        b2 \<leftarrow> mrd input (j + 2);
        b3 \<leftarrow> mrd input (j + 3);
        out \<leftarrow> mwr out i (ucast b0 OR push_bit 8 (ucast b1) OR push_bit 16 (ucast b2) OR push_bit 24 (ucast b3));
        Decode_loop (i + 1) (j + 4) len input out
      } else Some out)"
  by pat_completeness auto
termination by (relation "measure (\<lambda>(i, j, len, input, out). len - j)") auto

declare Decode_loop.simps [simp del]

definition Decode :: "u32 list \<Rightarrow> bytes \<Rightarrow> nat \<Rightarrow> u32 list option" where
  "Decode out input len = Decode_loop 0 0 len input out"

function Encode_loop :: "nat \<Rightarrow> nat \<Rightarrow> nat \<Rightarrow> u32 list \<Rightarrow> bytes \<Rightarrow> bytes option" where
  "Encode_loop i j len input out =
     (if j < len then do {
        w \<leftarrow> mrd input i;
        out \<leftarrow> mwr out j (ucast (w AND 0xff));
        out \<leftarrow> mwr out (j + 1) (ucast (drop_bit 8 w AND 0xff));
        out \<leftarrow> mwr out (j + 2) (ucast (drop_bit 16 w AND 0xff));
        out \<leftarrow> mwr out (j + 3) (ucast (drop_bit 24 w AND 0xff));
        Encode_loop (i + 1) (j + 4) len input out
      } else Some out)"
  by pat_completeness auto
termination by (relation "measure (\<lambda>(i, j, len, input, out). len - j)") auto

declare Encode_loop.simps [simp del]

definition Encode :: "bytes \<Rightarrow> u32 list \<Rightarrow> nat \<Rightarrow> bytes option" where
  "Encode out input len = Encode_loop 0 0 len input out"

definition MD5Transform :: "u32 list \<Rightarrow> bytes \<Rightarrow> u32 list option" where
  "MD5Transform state block = do {
     x \<leftarrow> Decode (replicate 16 0) block 64;
     let (a, b, c, d) = MD5_rounds x (state ! 0, state ! 1, state ! 2, state ! 3);
     Some [state ! 0 + a, state ! 1 + b, state ! 2 + c, state ! 3 + d]
   }"

section \<open>The context\<close>

record md5_ctx =
  md5_state :: "u32 list"
  md5_count :: "u32 list"
  md5_buffer :: bytes

definition MD5_memcpy :: "bytes \<Rightarrow> nat \<Rightarrow> bytes \<Rightarrow> nat \<Rightarrow> nat \<Rightarrow> bytes option" where
  "MD5_memcpy out i input j len = do { xs \<leftarrow> mget input j len; mput out i xs }"

definition PADDING :: bytes where
  "PADDING = 0x80 # replicate 63 0"

text \<open>\<open>my_md5_init\<close> leaves the buffer as it is.\<close>

definition my_md5_init :: "md5_ctx \<Rightarrow> md5_ctx" where
  "my_md5_init context =
     context\<lparr>md5_count := [0, 0], md5_state := [0x67452301, 0xefcdab89, 0x98badcfe, 0x10325476]\<rparr>"

partial_function (option) update_loop :: "u32 list \<Rightarrow> bytes \<Rightarrow> u32 \<Rightarrow> u32 \<Rightarrow> (u32 list \<times> u32) option" where
  "update_loop state input inputLen i =
     (if i + 63 < inputLen then do {
        block \<leftarrow> mget input (unat i) 64;
        state \<leftarrow> MD5Transform state block;
        update_loop state input inputLen (i + 64)
      } else Some (state, i))"

declare update_loop.simps [code]

definition my_md5_update :: "md5_ctx \<Rightarrow> bytes \<Rightarrow> u32 \<Rightarrow> md5_ctx option" where
  "my_md5_update context input inputLen = do {
     let index = drop_bit 3 (md5_count context ! 0) AND 0x3F;
     let count0 = md5_count context ! 0 + push_bit 3 inputLen;
     let count1 = (if count0 < push_bit 3 inputLen then md5_count context ! 1 + 1 else md5_count context ! 1);
     let count1 = count1 + drop_bit 29 inputLen;
     let context = context\<lparr>md5_count := [count0, count1]\<rparr>;
     let partLen = 64 - index;
     (context, i, index) \<leftarrow>
       (if partLen \<le> inputLen then do {
          buf \<leftarrow> MD5_memcpy (md5_buffer context) (unat index) input 0 (unat partLen);
          state \<leftarrow> MD5Transform (md5_state context) buf;
          (state, i) \<leftarrow> update_loop state input inputLen partLen;
          Some (context\<lparr>md5_buffer := buf, md5_state := state\<rparr>, i, 0)
        } else Some (context, 0, index));
     buf \<leftarrow> MD5_memcpy (md5_buffer context) (unat index) input (unat i) (unat (inputLen - i));
     Some (context\<lparr>md5_buffer := buf\<rparr>)
   }"

text \<open>\<open>my_md5_final\<close> returns the digest and the context filled with zeros.\<close>

definition my_md5_final :: "bytes \<Rightarrow> md5_ctx \<Rightarrow> (bytes \<times> md5_ctx) option" where
  "my_md5_final digest context = do {
     bits \<leftarrow> Encode (replicate 8 0) (md5_count context) 8;
     let index = drop_bit 3 (md5_count context ! 0) AND 0x3f;
     let padLen = (if index < 56 then 56 - index else 120 - index);
     context \<leftarrow> my_md5_update context PADDING padLen;
     context \<leftarrow> my_md5_update context bits 8;
     digest \<leftarrow> Encode digest (md5_state context) 16;
     Some (digest, \<lparr>md5_state = replicate 4 0, md5_count = replicate 2 0, md5_buffer = replicate 64 0\<rparr>)
   }"

section \<open>Digest of a buffer, a string, a file\<close>

text \<open>The first argument is the uninitialised \<open>MD5_CTX\<close> on the stack.\<close>

definition my_md5_buffer :: "md5_ctx \<Rightarrow> bytes \<Rightarrow> u32 \<Rightarrow> bytes \<Rightarrow> (int \<times> bytes) option" where
  "my_md5_buffer context buffer len digest = do {
     context \<leftarrow> my_md5_update (my_md5_init context) buffer len;
     (digest, context) \<leftarrow> my_md5_final digest context;
     Some (0, digest)
   }"

definition my_md5_string :: "md5_ctx \<Rightarrow> bytes \<Rightarrow> bytes \<Rightarrow> (int \<times> bytes) option" where
  "my_md5_string context str digest = do {
     n \<leftarrow> c_strlen str;
     let len = of_nat n;
     context \<leftarrow> my_md5_update (my_md5_init context) str len;
     (digest, context) \<leftarrow> my_md5_final digest context;
     Some (0, digest)
   }"

text \<open>
  A file is what the calls of \<open>fread(buffer, 1, 1024, file)\<close> return, up to the first that
  returns nothing; \<open>None\<close> when it cannot be opened.
\<close>

fun md5_file_loop :: "md5_ctx \<Rightarrow> bytes list \<Rightarrow> md5_ctx option" where
  "md5_file_loop context [] = Some context"
| "md5_file_loop context (buffer # rest) =
     (if buffer = [] then Some context
      else do {
        context \<leftarrow> my_md5_update context buffer (of_nat (length buffer));
        md5_file_loop context rest
      })"

definition my_md5_file :: "md5_ctx \<Rightarrow> bytes list option \<Rightarrow> bytes \<Rightarrow> (int \<times> bytes) option" where
  "my_md5_file context file digest =
     (case file of None \<Rightarrow> Some (-1, digest)
      | Some chunks \<Rightarrow> do {
          context \<leftarrow> md5_file_loop (my_md5_init context) chunks;
          (digest, context) \<leftarrow> my_md5_final digest context;
          Some (0, digest)
        })"

section \<open>RFC 1321 in table form\<close>

text \<open>
  The algorithm as a loop over 64 steps, with nothing of the program in it: step \<open>i\<close> uses the round
  function, the word and the rotation amount that formulas give, the library's rotation of words,
  and the constant \<open>floor (2^32 * abs (sin (i + 1)))\<close> of the RFC's table. The test suite of the RFC
  (\<open>md5_test_suite\<close> below) fixes the table.
\<close>

definition md5_K :: "u32 list" where
  "md5_K = [
     0xd76aa478, 0xe8c7b756, 0x242070db, 0xc1bdceee, 0xf57c0faf, 0x4787c62a,
     0xa8304613, 0xfd469501, 0x698098d8, 0x8b44f7af, 0xffff5bb1, 0x895cd7be,
     0x6b901122, 0xfd987193, 0xa679438e, 0x49b40821, 0xf61e2562, 0xc040b340,
     0x265e5a51, 0xe9b6c7aa, 0xd62f105d, 0x2441453, 0xd8a1e681, 0xe7d3fbc8,
     0x21e1cde6, 0xc33707d6, 0xf4d50d87, 0x455a14ed, 0xa9e3e905, 0xfcefa3f8,
     0x676f02d9, 0x8d2a4c8a, 0xfffa3942, 0x8771f681, 0x6d9d6122, 0xfde5380c,
     0xa4beea44, 0x4bdecfa9, 0xf6bb4b60, 0xbebfbc70, 0x289b7ec6, 0xeaa127fa,
     0xd4ef3085, 0x4881d05, 0xd9d4d039, 0xe6db99e5, 0x1fa27cf8, 0xc4ac5665,
     0xf4292244, 0x432aff97, 0xab9423a7, 0xfc93a039, 0x655b59c3, 0x8f0ccc92,
     0xffeff47d, 0x85845dd1, 0x6fa87e4f, 0xfe2ce6e0, 0xa3014314, 0x4e0811a1,
     0xf7537e82, 0xbd3af235, 0x2ad7d2bb, 0xeb86d391]"

definition round_fun :: "nat \<Rightarrow> u32 \<Rightarrow> u32 \<Rightarrow> u32 \<Rightarrow> u32" where
  "round_fun r b c d = (if r = 0 then (b AND c) OR (NOT b AND d) else if r = 1 then (d AND b) OR (NOT d AND c)
     else if r = 2 then b XOR c XOR d else c XOR (b OR NOT d))"

definition round_word :: "nat \<Rightarrow> nat" where
  "round_word i = (if i < 16 then i else if i < 32 then (5 * i + 1) mod 16
     else if i < 48 then (3 * i + 5) mod 16 else 7 * i mod 16)"

definition round_rot :: "nat \<Rightarrow> nat" where
  "round_rot i = [[7, 12, 17, 22], [5, 9, 14, 20], [4, 11, 16, 23], [6, 10, 15, 21]] ! (i div 16) ! (i mod 4)"

definition md5_step :: "u32 list \<Rightarrow> nat \<Rightarrow> u32 \<times> u32 \<times> u32 \<times> u32 \<Rightarrow> u32 \<times> u32 \<times> u32 \<times> u32" where
  "md5_step x i st = (case st of (a, b, c, d) \<Rightarrow>
     (d, b + word_rotl (round_rot i) (a + round_fun (i div 16) b c d + md5_K ! i + x ! round_word i), b, c))"

definition md5_steps :: "u32 list \<Rightarrow> u32 \<times> u32 \<times> u32 \<times> u32 \<Rightarrow> u32 \<times> u32 \<times> u32 \<times> u32" where
  "md5_steps x st = fold (md5_step x) [0..<64] st"

lemma fold_let:
  assumes "md5_step x i (a, b, c, d) = (d, e, b, c)" "\<And>v. fold (md5_step x) is (d, v, b, c) = B v"
  shows "fold (md5_step x) (i # is) (a, b, c, d) = Let e B"
  using assms by simp

lemma round_words:
  "round_word 0 = 0" "round_word 1 = 1" "round_word 2 = 2" "round_word 3 = 3"
  "round_word 4 = 4" "round_word 5 = 5" "round_word 6 = 6" "round_word 7 = 7"
  "round_word 8 = 8" "round_word 9 = 9" "round_word 10 = 10" "round_word 11 = 11"
  "round_word 12 = 12" "round_word 13 = 13" "round_word 14 = 14" "round_word 15 = 15"
  "round_word 16 = 1" "round_word 17 = 6" "round_word 18 = 11" "round_word 19 = 0"
  "round_word 20 = 5" "round_word 21 = 10" "round_word 22 = 15" "round_word 23 = 4"
  "round_word 24 = 9" "round_word 25 = 14" "round_word 26 = 3" "round_word 27 = 8"
  "round_word 28 = 13" "round_word 29 = 2" "round_word 30 = 7" "round_word 31 = 12"
  "round_word 32 = 5" "round_word 33 = 8" "round_word 34 = 11" "round_word 35 = 14"
  "round_word 36 = 1" "round_word 37 = 4" "round_word 38 = 7" "round_word 39 = 10"
  "round_word 40 = 13" "round_word 41 = 0" "round_word 42 = 3" "round_word 43 = 6"
  "round_word 44 = 9" "round_word 45 = 12" "round_word 46 = 15" "round_word 47 = 2"
  "round_word 48 = 0" "round_word 49 = 7" "round_word 50 = 14" "round_word 51 = 5"
  "round_word 52 = 12" "round_word 53 = 3" "round_word 54 = 10" "round_word 55 = 1"
  "round_word 56 = 8" "round_word 57 = 15" "round_word 58 = 6" "round_word 59 = 13"
  "round_word 60 = 4" "round_word 61 = 11" "round_word 62 = 2" "round_word 63 = 9"
  by (simp_all add: round_word_def)

lemmas step_defs = round_words round_words(2) [simplified] md5_step_def round_fun_def round_rot_def md5_K_def
  FF_def GG_def HH_def II_def md5_F_def md5_G_def md5_H_def md5_I_def
  S11_def S12_def S13_def S14_def S21_def S22_def S23_def S24_def
  S31_def S32_def S33_def S34_def S41_def S42_def S43_def S44_def

lemma upt_64: "[0..<64] = [0, 1, 2, 3, 4, 5, 6, 7, 8, 9, 10, 11, 12, 13, 14, 15, 16, 17, 18, 19, 20, 21, 22,
  23, 24, 25, 26, 27, 28, 29, 30, 31, 32, 33, 34, 35, 36, 37, 38, 39, 40, 41, 42, 43, 44, 45, 46, 47, 48, 49,
  50, 51, 52, 53, 54, 55, 56, 57, 58, 59, 60, 61, 62, 63 :: nat]"
  by (simp add: upt_rec)

lemma ROTATE_LEFT_rotl: "n < 32 \<Longrightarrow> ROTATE_LEFT x n = word_rotl n x"
  by (rule bit_word_eqI)
    (auto simp: ROTATE_LEFT_def bit_word_rotl_iff bit_or_iff bit_push_bit_iff bit_drop_bit_eq mod_if
      split: nat_diff_split dest: bit_imp_le_length, metis add.commute add_left_cancel, metis add.commute add_left_cancel)

lemma MD5_rounds_steps: "MD5_rounds x st = md5_steps x st"
proof -
  obtain a b c d where st: "st = (a, b, c, d)" by (cases st) auto
  have "fold (md5_step x) [0..<64] (a, b, c, d) = MD5_rounds x (a, b, c, d)"
    unfolding upt_64 MD5_rounds_def prod.case
    by (intro fold_let) (simp_all add: step_defs ROTATE_LEFT_rotl Let_def ac_simps)
  then show ?thesis by (simp add: st md5_steps_def)
qed

section \<open>Words and bytes\<close>

definition le32 :: "u8 \<Rightarrow> u8 \<Rightarrow> u8 \<Rightarrow> u8 \<Rightarrow> u32" where
  "le32 a b c d = ucast a OR push_bit 8 (ucast b) OR push_bit 16 (ucast c) OR push_bit 24 (ucast d)"

definition le_bytes :: "u32 \<Rightarrow> bytes" where
  "le_bytes w = [ucast (w AND 0xff), ucast (drop_bit 8 w AND 0xff), ucast (drop_bit 16 w AND 0xff), ucast (drop_bit 24 w AND 0xff)]"

fun le_words :: "bytes \<Rightarrow> u32 list" where
  "le_words (a # b # c # d # r) = le32 a b c d # le_words r"
| "le_words r = []"

lemma length_le_bytes [simp]: "length (le_bytes w) = 4"
  by (simp add: le_bytes_def)

lemma length_concat_le_bytes [simp]: "length (concat (map le_bytes ws)) = 4 * length ws"
  by (induction ws) simp_all

lemma length_le_words: "length (le_words xs) = length xs div 4"
  by (induction xs rule: le_words.induct) simp_all

lemma le_words_le_bytes: "le_words (le_bytes w) = [w]"
proof -
  have m: "(0xff :: u32) = mask 8" by (simp add: mask_eq_exp_minus_1)
  have "le32 (ucast (w AND 0xff)) (ucast (drop_bit 8 w AND 0xff)) (ucast (drop_bit 16 w AND 0xff))
      (ucast (drop_bit 24 w AND 0xff)) = w"
  proof (rule bit_word_eqI)
    fix n assume n: "n < LENGTH(32)"
    consider "n < 8" | "8 \<le> n" "n < 16" | "16 \<le> n" "n < 24" | "24 \<le> n" "n < 32" using n by fastforce
    then show "bit (le32 (ucast (w AND 0xff)) (ucast (drop_bit 8 w AND 0xff)) (ucast (drop_bit 16 w AND 0xff))
      (ucast (drop_bit 24 w AND 0xff))) n \<longleftrightarrow> bit w n"
      unfolding m le32_def by cases (auto simp: bit_simps)
  qed
  then show ?thesis by (simp add: le_bytes_def)
qed

lemma Decode_loop_ok:
  assumes "len = 4 * n" "j = 4 * i" "i \<le> n" "len \<le> length input" "n \<le> length out"
  shows "Decode_loop i j len input out = Some (take i out @ le_words (take (len - j) (drop j input)) @ drop n out)"
  using assms(2,3,5)
proof (induction "n - i" arbitrary: i j out)
  case 0
  then show ?case using assms(1) by (subst Decode_loop.simps) simp
next
  case (Suc k)
  have lt: "i < n" "j < len" "j + 4 \<le> len" using Suc.hyps(2) Suc.prems assms(1) by auto
  then have inp: "j + 3 < length input" using assms(4) by simp
  let ?w = "le32 (input ! j) (input ! (j + 1)) (input ! (j + 2)) (input ! (j + 3))"
  have d: "take (len - j) (drop j input) =
      input ! j # input ! (j + 1) # input ! (j + 2) # input ! (j + 3) # take (len - (j + 4)) (drop (j + 4) input)"
  proof -
    have "drop j input = input ! j # input ! (j + 1) # input ! (j + 2) # input ! (j + 3) # drop (j + 4) input"
      using inp by (simp add: Cons_nth_drop_Suc eval_nat_numeral)
    moreover have "len - j = Suc (Suc (Suc (Suc (len - (j + 4)))))" using lt by simp
    ultimately show ?thesis by simp
  qed
  have "Decode_loop i j len input out = Decode_loop (i + 1) (j + 4) len input (out[i := ?w])"
    using lt inp Suc.prems by (subst Decode_loop.simps) (simp add: le32_def)
  also have "\<dots> = Some (take (i + 1) (out[i := ?w]) @ le_words (take (len - (j + 4)) (drop (j + 4) input)) @ drop n (out[i := ?w]))"
    using Suc.hyps Suc.prems lt by (intro Suc.hyps(1)) auto
  also have "take (i + 1) (out[i := ?w]) = take i out @ [?w]"
    using lt Suc.prems by (simp add: take_Suc_conv_app_nth)
  finally show ?case using lt by (simp add: d)
qed

lemma Decode_block:
  assumes "length block = 64"
  shows "Decode (replicate 16 0) block 64 = Some (le_words block)"
  using Decode_loop_ok [of 64 16 0 0 block "replicate 16 0"] assms by (simp add: Decode_def)

lemma four_writes:
  fixes dest :: "'a list"
  assumes "p + 4 \<le> length dest"
  shows "do { dest \<leftarrow> mwr dest p v0; dest \<leftarrow> mwr dest (p + 1) v1; dest \<leftarrow> mwr dest (p + 2) v2;
        dest \<leftarrow> mwr dest (p + 3) v3; k dest } = k (take p dest @ [v0, v1, v2, v3] @ drop (p + 4) dest)"
  unfolding quad_put using assms by (simp add: mput_def eval_nat_numeral)

lemma Encode_loop_ok:
  assumes "len = 4 * n" "j = 4 * i" "i \<le> n" "n \<le> length input" "len \<le> length out"
  shows "Encode_loop i j len input out =
    Some (take j out @ concat (map le_bytes (take (n - i) (drop i input))) @ drop len out)"
  using assms(2,3,5)
proof (induction "n - i" arbitrary: i j out)
  case 0
  then show ?case using assms(1) by (subst Encode_loop.simps) simp
next
  case (Suc k)
  have lt: "i < n" "j < len" "j + 4 \<le> len" using Suc.hyps(2) Suc.prems assms(1) by auto
  let ?out = "take j out @ le_bytes (input ! i) @ drop (j + 4) out"
  have "Encode_loop i j len input out = Encode_loop (i + 1) (j + 4) len input ?out"
    using lt Suc.prems assms(4) by (subst Encode_loop.simps) (simp add: four_writes [simplified] le_bytes_def del: mwr_in)
  also have "\<dots> = Some (take (j + 4) ?out @ concat (map le_bytes (take (n - (i + 1)) (drop (i + 1) input))) @ drop len ?out)"
    using Suc.hyps Suc.prems lt by (intro Suc.hyps(1)) auto
  also have "take (j + 4) ?out = take j out @ le_bytes (input ! i)"
    using lt Suc.prems by simp
  also have "drop len ?out = drop len out"
    using lt Suc.prems by simp
  finally have "Encode_loop i j len input out =
    Some (take j out @ concat (map le_bytes (input ! i # take (n - (i + 1)) (drop (i + 1) input))) @ drop len out)"
    by simp
  also have "input ! i # take (n - (i + 1)) (drop (i + 1) input) = take (n - i) (drop i input)"
    using lt assms(4) by (simp add: take_Cons' Cons_nth_drop_Suc [symmetric])
  finally show ?case .
qed

lemma Encode_ok:
  assumes "4 * length ws \<le> length out" "n = 4 * length ws"
  shows "Encode out ws n = Some (concat (map le_bytes ws) @ drop n out)"
  using Encode_loop_ok [of n "length ws" 0 0 ws out] assms by (simp add: Encode_def)

section \<open>Blocks\<close>

definition md5_compress :: "u32 list \<Rightarrow> bytes \<Rightarrow> u32 list" where
  "md5_compress st block =
     (let (a, b, c, d) = md5_steps (le_words block) (st ! 0, st ! 1, st ! 2, st ! 3) in
      [st ! 0 + a, st ! 1 + b, st ! 2 + c, st ! 3 + d])"

lemma MD5Transform_ok: "length block = 64 \<Longrightarrow> MD5Transform st block = Some (md5_compress st block)"
  by (simp add: MD5Transform_def Decode_block MD5_rounds_steps md5_compress_def split: prod.splits)

function digest_blocks :: "u32 list \<Rightarrow> bytes \<Rightarrow> u32 list" where
  "digest_blocks st msg =
     (if length msg < 64 then st else digest_blocks (md5_compress st (take 64 msg)) (drop 64 msg))"
  by pat_completeness auto
termination by (relation "measure (\<lambda>(st, msg). length msg)") auto

declare digest_blocks.simps [simp del]

definition rest :: "bytes \<Rightarrow> bytes" where
  "rest msg = drop (length msg div 64 * 64) msg"

lemma length_rest: "length (rest msg) = length msg mod 64"
  by (simp add: rest_def minus_div_mult_eq_mod)

lemma digest_blocks_short: "length msg < 64 \<Longrightarrow> digest_blocks st msg = st"
  by (subst digest_blocks.simps) simp

lemma digest_blocks_long:
  "64 \<le> length msg \<Longrightarrow> digest_blocks st msg = digest_blocks (md5_compress st (take 64 msg)) (drop 64 msg)"
  by (subst digest_blocks.simps) simp

lemma rest_long: "64 \<le> length msg \<Longrightarrow> rest (drop 64 msg) = rest msg"
  by (simp add: rest_def le_div_geq add.commute)

lemma digest_blocks_append: "digest_blocks st (msg @ xs) = digest_blocks (digest_blocks st msg) (rest msg @ xs)"
proof (induction st msg rule: digest_blocks.induct)
  case (1 st msg)
  show ?case
  proof (cases "length msg < 64")
    case True
    then show ?thesis by (simp add: digest_blocks_short rest_def)
  next
    case False
    then show ?thesis
      using 1 [OF False] by (simp add: digest_blocks_long [of "msg @ xs"] digest_blocks_long [of msg] rest_long)
  qed
qed

lemma rest_append: "rest (msg @ xs) = rest (rest msg @ xs)"
proof -
  let ?k = "length msg div 64"
  have "length (msg @ xs) = ?k * 64 + length (rest msg @ xs)" by (simp add: length_rest)
  then have d: "length (msg @ xs) div 64 = ?k + length (rest msg @ xs) div 64" by simp
  have "drop (?k * 64) (msg @ xs) = rest msg @ xs" by (simp add: rest_def)
  moreover have "rest (msg @ xs) = drop (length (rest msg @ xs) div 64 * 64) (drop (?k * 64) (msg @ xs))"
    unfolding rest_def [of "msg @ xs"] d by (simp add: drop_drop add.commute distrib_right)
  ultimately show ?thesis by (simp add: rest_def [of "rest msg @ xs"])
qed

section \<open>The streaming invariant\<close>

definition md5_IV :: "u32 list" where
  "md5_IV = [0x67452301, 0xefcdab89, 0x98badcfe, 0x10325476]"

text \<open>The context after the bytes \<open>msg\<close>, in whatever pieces they came.\<close>

definition md5_holds :: "md5_ctx \<Rightarrow> bytes \<Rightarrow> bool" where
  "md5_holds context msg \<longleftrightarrow>
     md5_state context = digest_blocks md5_IV msg \<and>
     md5_count context = [of_nat (8 * length msg), of_nat (8 * length msg div 2 ^ 32)] \<and>
     length (md5_buffer context) = 64 \<and>
     take (length msg mod 64) (md5_buffer context) = rest msg"

lemma unat32_of_nat: "n < 2 ^ 32 \<Longrightarrow> unat (of_nat n :: u32) = n"
  by (simp add: unat_of_nat)

lemma unat32_mod: "unat (of_nat n :: u32) = n mod 2 ^ 32"
  by (simp add: unat_of_nat)

lemma index_value:
  "unat (drop_bit 3 (of_nat (8 * n) :: u32) AND 0x3F) = n mod 64"
proof -
  have m: "(0x3F :: u32) = mask 6" by (simp add: mask_eq_exp_minus_1)
  have u: "unat (of_nat (8 * n) :: u32) = 8 * n mod 2 ^ 32"
    by (simp only: unat32_mod)
  have "unat (drop_bit 3 (of_nat (8 * n) :: u32) AND 0x3F) = unat (of_nat (8 * n) :: u32) div 2 ^ 3 mod 2 ^ 6"
    unfolding m take_bit_eq_mask [symmetric] unsigned_take_bit_eq unsigned_drop_bit_eq
    by (simp add: drop_bit_eq_div take_bit_eq_mod u del: of_nat_mult)
  also have "\<dots> = (8 * n mod 2 ^ 32) div 8 mod 64" unfolding u by simp
  also have "(8 * n mod 2 ^ 32) div 8 = n mod 2 ^ 29"
    using mult_mod_right [of 8 n "2 ^ 29"] by simp
  also have "n mod 2 ^ 29 mod 64 = n mod 64" by (simp add: mod_mod_cancel)
  finally show ?thesis .
qed

lemma index_word: "drop_bit 3 (of_nat (8 * n) :: u32) AND 0x3F = of_nat (n mod 64)"
proof (rule word_unat_eq_iff [THEN iffD2])
  have "n mod 64 < 64" by simp
  then have "n mod 64 < 2 ^ 32" by (rule less_trans) simp
  then show "unat (drop_bit 3 (of_nat (8 * n) :: u32) AND 0x3F) = unat (of_nat (n mod 64) :: u32)"
    by (simp only: index_value unat32_of_nat)
qed

lemma count_update:
  fixes m n :: nat
  assumes "n < 2 ^ 32"
  defines "c0 \<equiv> of_nat (8 * m) + push_bit 3 (of_nat n) :: u32"
  shows "c0 = of_nat (8 * (m + n))"
    and "(if c0 < push_bit 3 (of_nat n) then of_nat (8 * m div 2 ^ 32) + 1 else of_nat (8 * m div 2 ^ 32)) +
      drop_bit 29 (of_nat n) = (of_nat (8 * (m + n) div 2 ^ 32) :: u32)"
proof -
  have p: "push_bit 3 (of_nat n) = (of_nat (8 * n) :: u32)"
    by (simp add: push_bit_eq_mult)
  show c0: "c0 = of_nat (8 * (m + n))"
    unfolding c0_def p by (simp add: algebra_simps)
  let ?M = "2 ^ 32 :: nat" and ?A = "8 * m" and ?B = "8 * n"
  have lt: "c0 < push_bit 3 (of_nat n) \<longleftrightarrow> (?A + ?B) mod ?M < ?B mod ?M"
    unfolding c0 p word_less_nat_alt unat32_mod distrib_left ..
  have d: "drop_bit 29 (of_nat n) = (of_nat (?B div ?M) :: u32)"
  proof (rule word_unat_eq_iff [THEN iffD2])
    have "unat (drop_bit 29 (of_nat n :: u32)) = n div 2 ^ 29"
      unfolding unsigned_drop_bit_eq unat32_of_nat [OF assms(1)]
      by (simp add: drop_bit_eq_div take_bit_nat_eq_self [OF assms(1), simplified])
    moreover have "?B div ?M = n div 2 ^ 29" by simp
    moreover have "n div 2 ^ 29 < ?M" using assms(1) by (meson div_le_dividend le_less_trans)
    ultimately show "unat (drop_bit 29 (of_nat n :: u32)) = unat (of_nat (?B div ?M) :: u32)"
      by (simp only: unat32_of_nat)
  qed
  have carry: "(?A + ?B) div ?M = ?A div ?M + ?B div ?M + (if (?A + ?B) mod ?M < ?B mod ?M then 1 else 0)"
  proof -
    have "(?A + ?B) div ?M = ?A div ?M + ?B div ?M + (?A mod ?M + ?B mod ?M) div ?M" by (rule div_add1_eq)
    moreover have "(?A + ?B) mod ?M = (?A mod ?M + ?B mod ?M) mod ?M" by (simp only: mod_add_eq)
    moreover have "?A mod ?M < ?M" "?B mod ?M < ?M" by simp_all
    moreover have "(x + y) div M = (if (x + y) mod M < y then 1 else 0)" if "x < M" "y < M" for x y M :: nat
      using that by (cases "x + y < M") (auto simp: le_div_geq le_mod_geq not_less)
    ultimately show ?thesis by presburger
  qed
  have "8 * (m + n) = ?A + ?B" by simp
  then show "(if c0 < push_bit 3 (of_nat n) then of_nat (8 * m div 2 ^ 32) + 1 else of_nat (8 * m div 2 ^ 32)) +
      drop_bit 29 (of_nat n) = (of_nat (8 * (m + n) div 2 ^ 32) :: u32)"
    unfolding lt d by (simp only: carry of_nat_add) (simp split: if_split)
qed

lemma update_loop_ok:
  assumes len: "len \<le> length input" "len + 63 < 2 ^ 32" and i: "i \<le> len"
  shows "update_loop st input (of_nat len) (of_nat i) =
    Some (digest_blocks st (drop i (take len input)), of_nat (i + (len - i) div 64 * 64))"
  using i
proof (induction "len - i" arbitrary: i st rule: less_induct)
  case less
  have w: "unat (of_nat i :: u32) = i" "unat (of_nat len :: u32) = len" "unat (of_nat (i + 63) :: u32) = i + 63"
    using less.prems len by (intro unat32_of_nat; simp)+
  have cmp: "of_nat i + 63 < (of_nat len :: u32) \<longleftrightarrow> i + 63 < len"
    using w(2,3) by (simp add: word_less_nat_alt)
  show ?case
  proof (cases "i + 63 < len")
    case False
    then show ?thesis using cmp by (subst update_loop.simps) (simp add: digest_blocks_short)
  next
    case True
    then have b: "take 64 (drop i (take len input)) = take 64 (drop i input)" "length (take 64 (drop i input)) = 64"
      using len by (auto simp: drop_take min_def)
    have "update_loop st input (of_nat len) (of_nat i) =
        update_loop (md5_compress st (take 64 (drop i input))) input (of_nat len) (of_nat (i + 64))"
      using True cmp w(1) len b(2) by (subst update_loop.simps) (simp add: MD5Transform_ok add.commute)
    also have "\<dots> = Some (digest_blocks (md5_compress st (take 64 (drop i input))) (drop (i + 64) (take len input)),
        of_nat (i + 64 + (len - (i + 64)) div 64 * 64))"
      using True by (intro less.hyps) auto
    also have "digest_blocks (md5_compress st (take 64 (drop i input))) (drop (i + 64) (take len input)) =
        digest_blocks st (drop i (take len input))"
      using True len b by (subst digest_blocks_long [of "drop i (take len input)"]) (auto simp: add.commute)
    also have "i + 64 + (len - (i + 64)) div 64 * 64 = i + (len - i) div 64 * 64"
      using True by (simp add: le_div_geq [of 64 "len - i"])
    finally show ?thesis .
  qed
qed

lemma MD5_memcpy_ok:
  assumes "j + n \<le> length input" "i + n \<le> length out"
  shows "MD5_memcpy out i input j n = Some (take i out @ take n (drop j input) @ drop (i + n) out)"
  using assms by (simp add: MD5_memcpy_def mput_def)

lemma my_md5_update_abs:
  assumes "md5_count context = [A, A1]" "drop_bit 3 A AND 0x3F = K" "A + push_bit 3 N = B0"
    and "(if A + push_bit 3 N < push_bit 3 N then A1 + 1 else A1) + drop_bit 29 N = B1" "64 - K = P"
  shows "my_md5_update context input N =
    (let context = context\<lparr>md5_count := [B0, B1]\<rparr> in do {
     (context, i, index) \<leftarrow>
       (if P \<le> N then do {
          buf \<leftarrow> MD5_memcpy (md5_buffer context) (unat K) input 0 (unat P);
          state \<leftarrow> MD5Transform (md5_state context) buf;
          (state, i) \<leftarrow> update_loop state input N P;
          Some (context\<lparr>md5_buffer := buf, md5_state := state\<rparr>, i, 0)
        } else Some (context, 0, K));
     buf \<leftarrow> MD5_memcpy (md5_buffer context) (unat index) input (unat i) (unat (N - i));
     Some (context\<lparr>md5_buffer := buf\<rparr>) })"
  unfolding my_md5_update_def Let_def assms(1) nth_Cons_0 nth_Cons_Suc One_nat_def assms(2,3,5) assms(4) [unfolded assms(3)] ..

lemma md5_update_short:
  assumes "md5_count context = [A, A1]" "drop_bit 3 A AND 0x3F = K" "A + push_bit 3 N = B0"
    and "(if A + push_bit 3 N < push_bit 3 N then A1 + 1 else A1) + drop_bit 29 N = B1" "64 - K = P"
    and "\<not> P \<le> N" "unat K = k" "unat N = n" "MD5_memcpy (md5_buffer context) k input 0 n = Some B"
  shows "my_md5_update context input N = Some (context\<lparr>md5_count := [B0, B1], md5_buffer := B\<rparr>)"
  unfolding my_md5_update_abs [OF assms(1-5)] using assms(6-9) by simp

lemma md5_update_long:
  assumes "md5_count context = [A, A1]" "drop_bit 3 A AND 0x3F = K" "A + push_bit 3 N = B0"
    and "(if A + push_bit 3 N < push_bit 3 N then A1 + 1 else A1) + drop_bit 29 N = B1" "64 - K = P"
    and "P \<le> N" "unat K = k" "unat P = p" "MD5_memcpy (md5_buffer context) k input 0 p = Some F"
    and "MD5Transform (md5_state context) F = Some T" "update_loop T input N P = Some (S, I)"
    and "unat I = i" "unat (N - I) = l" "MD5_memcpy F 0 input i l = Some B"
  shows "my_md5_update context input N = Some (context\<lparr>md5_count := [B0, B1], md5_buffer := B, md5_state := S\<rparr>)"
  unfolding my_md5_update_abs [OF assms(1-5)] using assms(6-14) by simp

lemma md5_update_ok:
  assumes inv: "md5_holds context msg" and len: "len \<le> length input" "len + 63 < 2 ^ 32"
  shows "\<exists>context'. my_md5_update context input (of_nat len) = Some context' \<and>
    md5_holds context' (msg @ take len input)"
proof -
  let ?m = "length msg" and ?buf = "md5_buffer context" and ?xs = "take len input"
  define k where "k = length msg mod 64"
  have k: "k < 64" by (simp add: k_def)
  have S: "md5_state context = digest_blocks md5_IV msg" "length ?buf = 64" "take k ?buf = rest msg"
    "md5_count context = [of_nat (8 * ?m), of_nat (8 * ?m div 2 ^ 32)]"
    using inv by (auto simp: md5_holds_def k_def)
  have lr: "length (rest msg) = k" by (simp add: length_rest k_def)
  have len32: "len < 2 ^ 32" using len by simp
  have idx: "drop_bit 3 (of_nat (8 * ?m) :: u32) AND 0x3F = of_nat k" by (simp only: index_word k_def)
  have kw: "unat (of_nat k :: u32) = k" using k by (intro unat32_of_nat) simp
  have part: "64 - of_nat k = (of_nat (64 - k) :: u32)" using k by (simp add: of_nat_diff)
  have partn: "unat (of_nat (64 - k) :: u32) = 64 - k" by (intro unat32_of_nat) simp
  have lenw: "unat (of_nat len :: u32) = len" by (rule unat32_of_nat [OF len32])
  have le: "of_nat (64 - k) \<le> (of_nat len :: u32) \<longleftrightarrow> 64 - k \<le> len"
    unfolding word_le_nat_alt partn lenw ..
  define C where "C = [of_nat (8 * (?m + len)), of_nat (8 * (?m + len) div 2 ^ 32) :: u32]"
  have holds: "md5_holds (context\<lparr>md5_count := C, md5_buffer := b, md5_state := st\<rparr>) (msg @ ?xs)"
    if "st = digest_blocks md5_IV (msg @ ?xs)" "length b = 64" "take (length (rest (msg @ ?xs))) b = rest (msg @ ?xs)" for b st
    using that len by (simp add: md5_holds_def C_def length_rest min_absorb2)
  have dbl: "digest_blocks md5_IV (msg @ ?xs) = digest_blocks (digest_blocks md5_IV msg) (rest msg @ ?xs)"
    by (rule digest_blocks_append)
  show ?thesis
  proof (cases "64 - k \<le> len")
    case False
    then have room: "k + len < 64" by simp
    let ?b = "take k ?buf @ ?xs @ drop (k + len) ?buf"
    have "MD5_memcpy ?buf k input 0 len = Some ?b"
      using MD5_memcpy_ok [of 0 len input k ?buf] len room S(2) by simp
    moreover have nle: "\<not> of_nat (64 - k) \<le> (of_nat len :: u32)" unfolding le using False .
    ultimately have run: "my_md5_update context input (of_nat len) =
        Some (context\<lparr>md5_count := C, md5_buffer := ?b\<rparr>)"
      unfolding C_def by (intro md5_update_short [OF S(4) idx count_update [OF len32] part nle kw lenw])
    have "digest_blocks md5_IV (msg @ ?xs) = md5_state context"
      unfolding dbl S(1) using room lr len by (intro digest_blocks_short) simp
    moreover have "rest (msg @ ?xs) = rest msg @ ?xs"
      using room lr len by (subst rest_append) (simp add: rest_def)
    ultimately have "md5_holds (context\<lparr>md5_count := C, md5_buffer := ?b, md5_state := md5_state context\<rparr>) (msg @ ?xs)"
      using S(2,3) room lr len by (intro holds) simp_all
    then show ?thesis using run by (intro exI [of _ "context\<lparr>md5_count := C, md5_buffer := ?b\<rparr>"]) simp
  next
    case True
    define p where "p = 64 - k"
    define F where "F = take k ?buf @ take p input"
    define i where "i = p + (len - p) div 64 * 64"
    define st where "st = digest_blocks (md5_compress (md5_state context) F) (drop p ?xs)"
    define b where "b = take (len - i) (drop i input) @ drop (len - i) F"
    have p64: "64 - k = p" by (simp add: p_def)
    have p: "p \<le> len" "k + p = 64" "p \<le> 64" using True k by (simp_all add: p_def)
    have F: "MD5_memcpy ?buf k input 0 p = Some F" "length F = 64"
      using MD5_memcpy_ok [of 0 p input k ?buf] len(1) p k S(2) by (auto simp: F_def min_def)
    have loop: "update_loop (md5_compress (md5_state context) F) input (of_nat len) (of_nat p) = Some (st, of_nat i)"
      unfolding st_def i_def by (rule update_loop_ok [OF len p(1)])
    have i: "i \<le> len" "len - i = (len - p) mod 64" "len - i < 64"
    proof -
      have "(len - p) div 64 * 64 + (len - p) mod 64 = len - p" by (rule div_mult_mod_eq)
      then show "i \<le> len" "len - i = (len - p) mod 64" "len - i < 64"
        using p(1) mod_less_divisor [of 64 "len - p"] unfolding i_def by linarith+
    qed
    have iw: "unat (of_nat i :: u32) = i" using i(1) len32 by (intro unat32_of_nat) simp
    have dw: "unat (of_nat len - of_nat i :: u32) = len - i"
    proof -
      have "of_nat len - of_nat i = (of_nat (len - i) :: u32)" using i(1) by (simp only: of_nat_diff)
      moreover have "unat (of_nat (len - i) :: u32) = len - i" using len32 by (intro unat32_of_nat) simp
      ultimately show ?thesis by simp
    qed
    have c2: "MD5_memcpy F 0 input i (len - i) = Some b"
      using MD5_memcpy_ok [of i "len - i" input 0 F] i(1,3) len(1) F(2) by (simp add: b_def)
    have ple: "of_nat p \<le> (of_nat len :: u32)" using le True by (simp add: p_def)
    have run: "my_md5_update context input (of_nat len) =
        Some (context\<lparr>md5_count := C, md5_buffer := b, md5_state := st\<rparr>)"
      unfolding C_def
      by (rule md5_update_long [OF S(4) idx count_update [OF len32] part [folded p_def] ple kw
            partn [folded p_def] F(1) MD5Transform_ok [OF F(2)] loop iw dw c2])
    have f': "F = take 64 (rest msg @ ?xs)" "drop p ?xs = drop 64 (rest msg @ ?xs)" "64 \<le> length (rest msg @ ?xs)"
      using S(3) lr p len p64 by (simp_all add: F_def min_def)
    have "st = digest_blocks md5_IV (msg @ ?xs)"
      unfolding dbl digest_blocks_long [OF f'(3)] st_def S(1) f'(1,2) ..
    moreover have "rest (msg @ ?xs) = rest (drop p ?xs)"
      unfolding f'(2) rest_long [OF f'(3)] by (rule rest_append)
    then have r: "rest (msg @ ?xs) = take (len - i) (drop i input)"
      using len p(1) by (simp add: rest_def drop_take i_def add.commute)
    have lr': "length (rest (msg @ ?xs)) = len - i" unfolding r using i len by simp
    have "length b = 64" using i(1,3) len(1) F(2) by (simp add: b_def)
    moreover have "take (length (rest (msg @ ?xs))) b = rest (msg @ ?xs)"
      unfolding lr' r b_def using i len by simp
    ultimately have "md5_holds (context\<lparr>md5_count := C, md5_buffer := b, md5_state := st\<rparr>) (msg @ ?xs)"
      by (intro holds)
    then show ?thesis using run by blast
  qed
qed

lemma md5_init_ok: "length (md5_buffer context) = 64 \<Longrightarrow> md5_holds (my_md5_init context) []"
  by (simp add: md5_holds_def my_md5_init_def md5_IV_def digest_blocks_short rest_def)

section \<open>The digest\<close>

definition md5_padded :: "bytes \<Rightarrow> bytes" where
  "md5_padded msg = msg @ [0x80] @ replicate ((119 - length msg mod 64) mod 64) 0 @
     le_bytes (of_nat (8 * length msg)) @ le_bytes (of_nat (8 * length msg div 2 ^ 32))"

definition md5_spec :: "bytes \<Rightarrow> bytes" where
  "md5_spec msg = concat (map le_bytes (digest_blocks md5_IV (md5_padded msg)))"

lemma md5_final_run:
  assumes "Encode (replicate 8 0) (md5_count context) 8 = Some bits" "md5_count context ! 0 = A"
    and "drop_bit 3 A AND 0x3f = K" "(if K < 56 then 56 - K else 120 - K) = P"
    and "my_md5_update context PADDING P = Some c1" "my_md5_update c1 bits 8 = Some c2"
    and "Encode digest (md5_state c2) 16 = Some d"
  shows "\<exists>c. my_md5_final digest context = Some (d, c)"
  using assms(1,5-7) unfolding my_md5_final_def Let_def assms(2) assms(3) assms(4) by simp

lemma md5_final_ok:
  assumes inv: "md5_holds context msg" and d: "16 \<le> length digest"
  shows "\<exists>context'. my_md5_final digest context = Some (md5_spec msg @ drop 16 digest, context')"
proof -
  let ?m = "length msg" and ?bits = "le_bytes (of_nat (8 * length msg)) @ le_bytes (of_nat (8 * length msg div 2 ^ 32))"
  have C: "md5_count context = [of_nat (8 * ?m), of_nat (8 * ?m div 2 ^ 32)]" using inv by (simp add: md5_holds_def)
  let ?index = "drop_bit 3 (of_nat (8 * ?m) :: u32) AND 0x3F"
  define k where "k = ?m mod 64"
  have k: "k < 64" by (simp add: k_def)
  have idxw: "?index = of_nat k" by (simp only: index_word k_def)
  have kw: "unat (of_nat k :: u32) = k" using k by (intro unat32_of_nat) simp
  define p where "p = (if k < 56 then 56 - k else 120 - k)"
  have p: "1 \<le> p" "p \<le> 64" "p - 1 = (119 - k) mod 64" using k by (auto simp: p_def mod_if)
  have lt: "(of_nat k :: u32) < 56 \<longleftrightarrow> k < 56" using kw by (simp add: word_less_nat_alt)
  have pw: "(if of_nat k < (56 :: u32) then 56 - of_nat k else 120 - of_nat k) = (of_nat p :: u32)"
    unfolding lt p_def using k by (simp add: of_nat_diff)
  have "take p PADDING = 0x80 # replicate (p - 1) 0" using p by (cases p) (simp_all add: PADDING_def min_def)
  then have pad: "take p PADDING = [0x80] @ replicate ((119 - ?m mod 64) mod 64) 0" using p(3) by (simp add: k_def)
  have "p \<le> length PADDING" "p + 63 < 2 ^ 32" using p(2) by (simp_all add: PADDING_def)
  then obtain c1 where c1: "my_md5_update context PADDING (of_nat p) = Some c1"
      "md5_holds c1 (msg @ take p PADDING)"
    using md5_update_ok [OF inv, of p PADDING] by blast
  have b8: "length ?bits = 8" by simp
  obtain c2 where c2: "my_md5_update c1 ?bits (of_nat 8) = Some c2"
      "md5_holds c2 ((msg @ take p PADDING) @ take 8 ?bits)"
    using md5_update_ok [OF c1(2), of 8 ?bits] by auto
  have padded: "(msg @ take p PADDING) @ take 8 ?bits = md5_padded msg"
    unfolding pad md5_padded_def by simp
  have "length (md5_state c2) = 4"
  proof -
    have "length (digest_blocks st xs) = 4" if "length st = 4" for st xs
      using that
    proof (induction st xs rule: digest_blocks.induct)
      case (1 st xs)
      then show ?case
        by (subst digest_blocks.simps) (auto simp: md5_compress_def split: prod.splits)
    qed
    then show ?thesis using c2(2) by (simp add: md5_holds_def md5_IV_def)
  qed
  then have D: "Encode digest (md5_state c2) 16 = Some (concat (map le_bytes (md5_state c2)) @ drop 16 digest)"
    using d by (intro Encode_ok) simp_all
  have st: "md5_state c2 = digest_blocks md5_IV (md5_padded msg)"
    using c2(2) unfolding padded by (simp add: md5_holds_def)
  have "Encode (replicate 8 0) [x, y] 8 = Some (le_bytes x @ le_bytes y)" for x y
  proof -
    have "4 * length [x, y] \<le> length (replicate 8 (0 :: u8))" "8 = 4 * length [x, y]" by simp_all
    from Encode_ok [OF this] show ?thesis
      by (simp only: list.map concat.simps drop_replicate diff_self_eq_0 replicate_0 append_Nil2)
  qed
  then have bits: "Encode (replicate 8 0) (md5_count context) 8 = Some ?bits" unfolding C .
  have C0: "md5_count context ! 0 = of_nat (8 * ?m)" unfolding C by (rule nth_Cons_0)
  have "my_md5_update c1 ?bits 8 = Some c2" using c2(1) by (simp only: of_nat_numeral)
  from md5_final_run [OF bits C0 idxw pw c1(1) this D] show ?thesis
    by (simp only: st md5_spec_def)
qed

section \<open>Properties\<close>

lemma md5_file_loop_ok:
  assumes "md5_holds context msg" "\<forall>c \<in> set chunks. length c \<le> 1024"
  shows "\<exists>context'. md5_file_loop context chunks = Some context' \<and>
    md5_holds context' (msg @ concat (takeWhile (\<lambda>c. c \<noteq> []) chunks))"
  using assms
proof (induction chunks arbitrary: "context" msg)
  case (Cons c chunks)
  show ?case
  proof (cases "c = []")
    case False
    have "length c + 63 < 2 ^ 32" using Cons.prems(2) by simp
    then obtain context' where 1: "my_md5_update context c (of_nat (length c)) = Some context'"
        "md5_holds context' (msg @ c)"
      using md5_update_ok [OF Cons.prems(1), of "length c" c] by auto
    have "\<forall>c \<in> set chunks. length c \<le> 1024" using Cons.prems(2) by simp
    from Cons.IH [OF 1(2) this] show ?thesis using 1(1) False by simp
  qed (use Cons.prems in simp)
qed simp

lemma md5_buffer_ok:
  assumes "length (md5_buffer context) = 64" "len \<le> length buffer" "len + 63 < 2 ^ 32" "16 \<le> length digest"
  shows "my_md5_buffer context buffer (of_nat len) digest = Some (0, md5_spec (take len buffer) @ drop 16 digest)"
proof -
  obtain c where c: "my_md5_update (my_md5_init context) buffer (of_nat len) = Some c" "md5_holds c (take len buffer)"
    using md5_update_ok [OF md5_init_ok [OF assms(1)] assms(2,3)] by auto
  obtain c' where "my_md5_final digest c = Some (md5_spec (take len buffer) @ drop 16 digest, c')"
    using md5_final_ok [OF c(2) assms(4)] by blast
  then show ?thesis using c(1) by (simp add: my_md5_buffer_def)
qed

text \<open>Test vectors of the RFC's suite: \<open>""\<close>, \<open>"abc"\<close> and the 80 digits, whose padding takes two blocks.\<close>

lemma rot_eval: "0 < n \<Longrightarrow> n < 32 \<Longrightarrow> word_rotl n (x :: u32) =
   word_of_int (uint x mod 2 ^ (32 - n) * 2 ^ n + uint x div 2 ^ (32 - n))"
proof -
  assume n: "0 < n" "n < 32"
  have "word_rotl n x = push_bit n (take_bit (32 - n) x) OR drop_bit (32 - n) x"
    by (rule bit_word_eqI) (use n in \<open>auto simp: ROTATE_LEFT_rotl [symmetric] ROTATE_LEFT_def bit_simps\<close>)
  also have "\<dots> = push_bit n (take_bit (32 - n) x) + drop_bit (32 - n) x"
    by (rule disjunctive_add [symmetric]) (use n in \<open>auto simp: bit_simps dest: bit_imp_le_length\<close>)
  also have "\<dots> = word_of_int (push_bit n (take_bit (32 - n) (uint x)) + drop_bit (32 - n) (uint x))"
   using n by transfer (simp add: take_bit_push_bit take_bit_drop_bit min_def, arith)
  finally show ?thesis by (simp add: push_bit_eq_mult take_bit_eq_mod drop_bit_eq_div)
qed


lemma replicate_numeral: "replicate (numeral n) x = x # replicate (pred_numeral n) x"
  by (simp add: numeral_eq_Suc)
lemma md5_chain_length: "digest_blocks st msg = (if msg = [] then st else if length msg < 64 then st else digest_blocks (md5_compress st (take 64 msg)) (drop 64 msg))"
  by (auto simp: digest_blocks.simps [of st msg] digest_blocks_short)

lemmas digest_eval = md5_spec_def md5_chain_length md5_compress_def md5_steps_def upt_64 md5_IV_def
  md5_padded_def le_bytes_def le32_def replicate_numeral step_defs rot_eval

lemma md5_test_empty:
  "md5_spec [] =
     [0xd4, 0x1d, 0x8c, 0xd9, 0x8f, 0x0, 0xb2, 0x4, 0xe9, 0x80, 0x9, 0x98, 0xec, 0xf8, 0x42, 0x7e]"
  by (simp add: digest_eval)

lemma md5_test_abc:
  "md5_spec [97, 98, 99] =
     [0x90, 0x1, 0x50, 0x98, 0x3c, 0xd2, 0x4f, 0xb0, 0xd6, 0x96, 0x3f, 0x7d, 0x28, 0xe1, 0x7f, 0x72]"
  by (simp add: digest_eval)

lemma md5_test_digits:
  "md5_spec [49, 50, 51, 52, 53, 54, 55, 56, 57, 48, 49, 50, 51, 52, 53, 54, 55, 56, 57, 48, 49, 50, 51, 52,
      53, 54, 55, 56, 57, 48, 49, 50, 51, 52, 53, 54, 55, 56, 57, 48, 49, 50, 51, 52, 53, 54, 55, 56,
      57, 48, 49, 50, 51, 52, 53, 54, 55, 56, 57, 48, 49, 50, 51, 52, 53, 54, 55, 56, 57, 48, 49, 50,
      51, 52, 53, 54, 55, 56, 57, 48] =
     [0x57, 0xed, 0xf4, 0xa2, 0x2b, 0xe3, 0xc9, 0x55, 0xac, 0x49, 0xda, 0x2e, 0x21, 0x7, 0xb6, 0x7a]"
  by (simp add: digest_eval)

lemmas md5_test_suite = md5_test_empty md5_test_abc md5_test_digits

text \<open>A fresh context, for the witnesses.\<close>

definition md5_zero :: md5_ctx where
  "md5_zero = \<lparr>md5_state = replicate 4 0, md5_count = replicate 2 0, md5_buffer = replicate 64 0\<rparr>"

lemma md5_zero_buffer: "length (md5_buffer md5_zero) = 64"
  by (simp add: md5_zero_def)

text \<open>
  C20: The 64 unrolled steps of \<open>MD5Transform\<close> are the steps of RFC 1321 in their order, with the
  tabulated constants, words and rotation amounts; its \<open>ROTATE_LEFT\<close> is the rotation of words.
\<close>

theorem md5_transform_rfc: "MD5_rounds x st = md5_steps x st"
  by (rule MD5_rounds_steps)

text \<open>
  C19: \<open>my_md5_update\<close> keeps the streaming invariant: a context that has taken in \<open>msg\<close>, in whatever
  pieces, has taken in \<open>msg\<close> and the new bytes afterwards: state, 64-bit bit count and buffered
  rest. It returns and reads no byte outside of its input for every length below 2^32 - 63.
\<close>

theorem md5_update_stream:
  assumes "md5_holds context msg" "len \<le> length input" "len + 63 < 2 ^ 32"
  shows "\<exists>context'. my_md5_update context input (of_nat len) = Some context' \<and>
    md5_holds context' (msg @ take len input)"
  using assms by (rule md5_update_ok)

theorem md5_update_stream_witness:
  "\<exists>context'. my_md5_update (my_md5_init md5_zero) [97, 98, 99] 2 = Some context' \<and> md5_holds context' [97, 98]"
  using md5_update_stream [OF md5_init_ok [OF md5_zero_buffer], of 2 "[97, 98, 99]"] by auto

text \<open>
  C7: \<open>my_md5_buffer\<close>, for a length below 2^32 - 63, and \<open>my_md5_string\<close>, for a string of that length,
  return 0 and store the MD5 digest of the message (padding, length and all blocks as in RFC 1321)
  in the first 16 bytes of \<open>digest\<close>; \<open>my_md5_file\<close> stores the digest of the file's contents however
  \<open>fread\<close> cuts them. The specification shares nothing with the program (it rotates with the library's
  \<open>word_rotl\<close>) and gives the digests that the RFC prints for its test vectors (\<open>md5_test_suite\<close>; the
  witness stores the digest of \<open>"abc"\<close>).
\<close>

theorem md5_digest_rfc:
  assumes "length (md5_buffer context) = 64" "16 \<le> length digest"
    and "len \<le> length buffer" "len + 63 < 2 ^ 32"
    and "0 \<in> set str" "length (takeWhile (\<lambda>c. c \<noteq> 0) str) + 63 < 2 ^ 32"
    and "\<forall>c \<in> set chunks. length c \<le> 1024"
  shows "my_md5_buffer context buffer (of_nat len) digest = Some (0, md5_spec (take len buffer) @ drop 16 digest) \<and>
    my_md5_string context str digest = Some (0, md5_spec (takeWhile (\<lambda>c. c \<noteq> 0) str) @ drop 16 digest) \<and>
    my_md5_file context (Some chunks) digest =
      Some (0, md5_spec (concat (takeWhile (\<lambda>c. c \<noteq> []) chunks)) @ drop 16 digest)"
proof (intro conjI)
  show "my_md5_buffer context buffer (of_nat len) digest = Some (0, md5_spec (take len buffer) @ drop 16 digest)"
    using assms(1,3,4,2) by (rule md5_buffer_ok)
  let ?s = "takeWhile (\<lambda>c. c \<noteq> 0) str"
  have "my_md5_string context str digest = my_md5_buffer context str (of_nat (length ?s)) digest"
    using assms(5) by (simp add: my_md5_string_def my_md5_buffer_def c_strlen_def)
  moreover have "take (length ?s) str = ?s" by (simp add: takeWhile_eq_take [symmetric])
  moreover have "length ?s \<le> length str" by (rule length_takeWhile_le)
  ultimately show "my_md5_string context str digest = Some (0, md5_spec ?s @ drop 16 digest)"
    using md5_buffer_ok [OF assms(1) _ assms(6,2), of str] by simp
  let ?f = "concat (takeWhile (\<lambda>c. c \<noteq> []) chunks)"
  obtain c where c: "md5_file_loop (my_md5_init context) chunks = Some c" "md5_holds c ?f"
    using md5_file_loop_ok [OF md5_init_ok [OF assms(1)] assms(7)] by auto
  obtain c' where "my_md5_final digest c = Some (md5_spec ?f @ drop 16 digest, c')"
    using md5_final_ok [OF c(2) assms(2)] by blast
  then show "my_md5_file context (Some chunks) digest = Some (0, md5_spec ?f @ drop 16 digest)"
    using c(1) by (simp add: my_md5_file_def)
qed

theorem md5_digest_rfc_witness:
  "\<exists>abc. abc = [0x90, 0x1, 0x50, 0x98, 0x3c, 0xd2, 0x4f, 0xb0,
       0xd6, 0x96, 0x3f, 0x7d, 0x28, 0xe1, 0x7f, 0x72] \<and>
     my_md5_buffer md5_zero [97, 98, 99] 3 (replicate 16 0) = Some (0, abc) \<and>
     my_md5_string md5_zero [97, 98, 99, 0] (replicate 16 0) = Some (0, abc) \<and>
     my_md5_file md5_zero (Some [[97], [98, 99], []]) (replicate 16 0) = Some (0, abc)"
  using md5_digest_rfc [OF md5_zero_buffer, of "replicate 16 0" 3 "[97, 98, 99]" "[97, 98, 99, 0]" "[[97], [98, 99], []]"]
  by (simp add: md5_test_abc)

lemma le_words_append: "length xs mod 4 = 0 \<Longrightarrow> le_words (xs @ ys) = le_words xs @ le_words ys"
  by (induction xs rule: le_words.induct) (auto simp: mod_Suc split: if_splits)

lemma le_words_concat: "le_words (concat (map le_bytes ws)) = ws"
  by (induction ws) (simp_all add: le_words_append le_words_le_bytes)

text \<open>
  \<open>Decode\<close> undoes \<open>Encode\<close>: sixteen words written as 64 little-endian bytes are read back.
\<close>

theorem md5_encode_decode:
  assumes "length ws = 16" "64 \<le> length buf"
  shows "\<exists>block. Encode buf ws 64 = Some block \<and> Decode (replicate 16 0) (take 64 block) 64 = Some ws"
proof -
  have "Encode buf ws 64 = Some (concat (map le_bytes ws) @ drop 64 buf)"
    using assms by (intro Encode_ok) simp_all
  moreover have "take 64 (concat (map le_bytes ws) @ drop 64 buf) = concat (map le_bytes ws)"
    using assms(1) by simp
  moreover have "Decode (replicate 16 0) (concat (map le_bytes ws)) 64 = Some ws"
    using Decode_block [of "concat (map le_bytes ws)"] assms(1) by (simp add: le_words_concat)
  ultimately show ?thesis by simp
qed

theorem md5_encode_decode_witness:
  "\<exists>block. Encode (replicate 64 0) (replicate 16 0xdeadbeef) 64 = Some block \<and>
     Decode (replicate 16 0) (take 64 block) 64 = Some (replicate 16 0xdeadbeef)"
  by (rule md5_encode_decode) simp_all

lemma update_loop_wraps:
  assumes "length input = 2 ^ 32 - 1" "i + 64 * n = 2 ^ 32 - 63"
  shows "update_loop st input 0xffffffff (of_nat i) = None"
  using assms(2)
proof (induction n arbitrary: i st)
  case 0
  then have i: "i = 2 ^ 32 - 63" by simp
  have w: "unat (of_nat i :: u32) = i" unfolding i by (intro unat32_of_nat) simp
  have "(of_nat i :: u32) + 63 = of_nat (2 ^ 32)" unfolding i by (simp flip: of_nat_add)
  also have "\<dots> = 0" by simp
  finally have z: "(of_nat i :: u32) + 63 = 0" .
  have "\<not> i + 64 \<le> length input" unfolding assms(1) i by simp
  then have g: "mget input i 64 = None" unfolding mget_def by (rule if_not_P)
  have "(0 :: u32) < 0xffffffff" by simp
  then show ?case unfolding update_loop.simps [of st input "0xffffffff" "of_nat i"] z w g by simp
next
  case (Suc n)
  have le: "i + 63 < 2 ^ 32 - 1" "i + 64 \<le> length input" "i < 2 ^ 32" "i + 63 < 2 ^ 32" using Suc.prems assms(1) by auto
  have w: "unat (of_nat i :: u32) = i" by (rule unat32_of_nat [OF le(3)])
  have "unat (of_nat (i + 63) :: u32) = i + 63" by (rule unat32_of_nat [OF le(4)])
  then have c: "(of_nat i :: u32) + 63 < 0xffffffff" using le(1) by (simp add: word_less_nat_alt)
  have "length (take 64 (drop i input)) = 64" using le(2) by simp
  then have t: "MD5Transform st (take 64 (drop i input)) = Some (md5_compress st (take 64 (drop i input)))"
    by (rule MD5Transform_ok)
  have n: "(of_nat i :: u32) + 64 = of_nat (i + 64)" by simp
  have "i + 64 + 64 * n = 2 ^ 32 - 63" using Suc.prems by simp
  from Suc.IH [OF this] show ?case
    unfolding update_loop.simps [of st input "0xffffffff" "of_nat i"] n w mget_in [OF le(2)] using c t by simp
qed

text \<open>
  The loop condition \<open>i + 63 < inputLen\<close> of \<open>my_md5_update\<close> is computed modulo 2^32: with 63
  bytes buffered and an input of 2^32 - 1 bytes the sum wraps to 0 at the end of the input and
  \<open>MD5Transform\<close> reads behind it.
\<close>

theorem md5_update_wraps:
  assumes "md5_holds context msg" "length msg mod 64 = 63" "length input = 2 ^ 32 - 1"
  shows "my_md5_update context input 0xffffffff = None"
proof -
  have b: "length (md5_buffer context) = 64" and C: "md5_count context =
      [of_nat (8 * length msg), of_nat (8 * length msg div 2 ^ 32)]"
    using assms(1) by (auto simp: md5_holds_def)
  have K: "drop_bit 3 (of_nat (8 * length msg) :: u32) AND 0x3F = 63"
    unfolding index_word assms(2) by simp
  have P: "64 - (63 :: u32) = 1" by simp
  have l: "update_loop st input 0xffffffff 1 = None" for st
    using update_loop_wraps [OF assms(3), of 1 67108863 st] by simp
  have "\<exists>F. MD5_memcpy (md5_buffer context) (unat (63 :: u32)) input 0 (unat (1 :: u32)) = Some F \<and> length F = 64"
    using MD5_memcpy_ok [of 0 1 input 63 "md5_buffer context"] b assms(3) by simp
  then obtain F where F: "MD5_memcpy (md5_buffer context) (unat (63 :: u32)) input 0 (unat (1 :: u32)) = Some F" "length F = 64"
    by blast
  have "(1 :: u32) \<le> 0xffffffff" by simp
  then show ?thesis
    unfolding my_md5_update_abs [OF C K refl refl P] Let_def
    using F(1) l MD5Transform_ok [OF F(2)] by simp
qed

theorem md5_update_wraps_witness:
  "\<exists>context. md5_holds context (replicate 63 0) \<and>
     my_md5_update context (replicate (2 ^ 32 - 1) 0) 0xffffffff = None"
proof -
  obtain c where c: "md5_holds c (replicate 63 0)"
    using md5_update_ok [OF md5_init_ok [OF md5_zero_buffer], of 63 "replicate 63 0"] by auto
  have "length (replicate (2 ^ 32 - 1) (0 :: u8)) = 2 ^ 32 - 1" by (rule length_replicate)
  moreover have "length (replicate 63 (0 :: u8)) mod 64 = 63" by simp
  ultimately show ?thesis using md5_update_wraps [OF c] c by blast
qed

end
