(* ===== verification/Chain.thy ===== *)
theory Chain
  imports CPrelude Comparator
begin

text \<open>
  The singly linked list of \<open>fastcommon/src/chain.c\<close> on an explicit heap: an address is a number, a
  pointer an address or NULL. \<open>malloc\<close> returns addresses that were never used before, \<open>free\<close>
  removes the node, so that every access to a freed node is undefined, like a NULL dereference.
  \<open>freed\<close> lists the data given to \<open>freeDataFunc\<close>, in order. The loops follow \<open>next\<close> pointers and
  are partial functions: a cyclic list makes them \<open>None\<close>.
\<close>

section \<open>State\<close>

type_synonym ptr = "nat option"

record 'd chain_node =
  ndata :: 'd
  nnext :: ptr

record 'd chain_list =
  ctype :: int
  chead :: ptr
  ctail :: ptr
  freeDataFunc :: bool
  compareFunc :: "('d \<Rightarrow> 'd \<Rightarrow> int) option"

record 'd chain_heap =
  cells :: "nat \<Rightarrow> 'd chain_node option"
  fresh :: nat
  freed :: "'d list"

definition CHAIN_TYPE_INSERT :: int where "CHAIN_TYPE_INSERT = 0"
definition CHAIN_TYPE_APPEND :: int where "CHAIN_TYPE_APPEND = 1"
definition CHAIN_TYPE_SORTED :: int where "CHAIN_TYPE_SORTED = 2"
definition EINVAL :: int where "EINVAL = 22"
definition ENOMEM :: int where "ENOMEM = 12"

definition deref :: "'d chain_heap \<Rightarrow> ptr \<Rightarrow> 'd chain_node option" where
  "deref h p = Option.bind p (cells h)"

definition set_next :: "'d chain_heap \<Rightarrow> ptr \<Rightarrow> ptr \<Rightarrow> 'd chain_heap option" where
  "set_next h p q = do { a \<leftarrow> p; n \<leftarrow> cells h a; Some (h\<lparr>cells := (cells h)(a \<mapsto> n\<lparr>nnext := q\<rparr>)\<rparr>) }"

text \<open>\<open>malloc\<close> of a node; its fields are set at once, since the code sets both before any use.\<close>

definition new_node :: "'d chain_heap \<Rightarrow> 'd \<Rightarrow> ptr \<Rightarrow> nat \<times> 'd chain_heap" where
  "new_node h d q =
     (fresh h, h\<lparr>cells := (cells h)(fresh h \<mapsto> \<lparr>ndata = d, nnext = q\<rparr>), fresh := fresh h + 1\<rparr>)"

section \<open>Operations\<close>

definition chain_init :: "int \<Rightarrow> bool \<Rightarrow> ('d \<Rightarrow> 'd \<Rightarrow> int) option \<Rightarrow> 'd chain_list" where
  "chain_init type fre cmp =
     \<lparr>ctype = type, chead = None, ctail = None, freeDataFunc = fre, compareFunc = cmp\<rparr>"

definition freeChainNode :: "'d chain_list \<Rightarrow> 'd chain_heap \<Rightarrow> ptr \<Rightarrow> 'd chain_heap option" where
  "freeChainNode l h p = do {
     a \<leftarrow> p;
     n \<leftarrow> cells h a;
     Some (h\<lparr>cells := (cells h)(a := None),
             freed := (if freeDataFunc l then freed h @ [ndata n] else freed h)\<rparr>)
   }"

partial_function (option) destroy_loop :: "'d chain_list \<Rightarrow> 'd chain_heap \<Rightarrow> ptr \<Rightarrow> 'd chain_heap option" where
  "destroy_loop l h pNode =
     (if pNode = None then Some h
      else do {
        n \<leftarrow> deref h pNode;
        h \<leftarrow> freeChainNode l h pNode;
        destroy_loop l h (nnext n)
      })"

definition chain_destroy :: "'d chain_list \<Rightarrow> 'd chain_heap \<Rightarrow> ('d chain_list \<times> 'd chain_heap) option" where
  "chain_destroy l h =
     (if chead l = None then Some (l, h)
      else do { h \<leftarrow> destroy_loop l h (chead l); Some (l\<lparr>chead := None, ctail := None\<rparr>, h) })"

type_synonym 'd chain_result = "(int \<times> 'd chain_list \<times> 'd chain_heap \<times> alloc) option"

definition insertNodePrior :: "alloc \<Rightarrow> 'd chain_list \<Rightarrow> 'd chain_heap \<Rightarrow> 'd \<Rightarrow> 'd chain_result" where
  "insertNodePrior al l h data =
     (let (ok, al) = alloc_next al in
      if \<not> ok then Some (ENOMEM, l, h, al)
      else let (pNode, h) = new_node h data (chead l);
               l = l\<lparr>chead := Some pNode\<rparr>;
               l = (if ctail l = None then l\<lparr>ctail := Some pNode\<rparr> else l) in
           Some (0, l, h, al))"

definition appendNode :: "alloc \<Rightarrow> 'd chain_list \<Rightarrow> 'd chain_heap \<Rightarrow> 'd \<Rightarrow> 'd chain_result" where
  "appendNode al l h data =
     (let (ok, al) = alloc_next al in
      if \<not> ok then Some (ENOMEM, l, h, al)
      else do {
        let (pNode, h) = new_node h data None;
        h \<leftarrow> (if ctail l \<noteq> None then set_next h (ctail l) (Some pNode) else Some h);
        let l = l\<lparr>ctail := Some pNode\<rparr>;
        let l = (if chead l = None then l\<lparr>chead := Some pNode\<rparr> else l);
        Some (0, l, h, al)
      })"

text \<open>The search of \<open>insertNodeAsc\<close>: \<open>pPrevious\<close> and \<open>pNode\<close> where it stops.\<close>

partial_function (option) asc_loop ::
    "('d \<Rightarrow> 'd \<Rightarrow> int) \<Rightarrow> 'd chain_heap \<Rightarrow> 'd \<Rightarrow> ptr \<Rightarrow> ptr \<Rightarrow> (ptr \<times> ptr) option" where
  "asc_loop cmp h data pPrevious pNode =
     (if pNode = None then Some (pPrevious, pNode)
      else do {
        n \<leftarrow> deref h pNode;
        if cmp (ndata n) data < 0 then asc_loop cmp h data pNode (nnext n)
        else Some (pPrevious, pNode)
      })"

definition insertNodeAsc :: "alloc \<Rightarrow> 'd chain_list \<Rightarrow> 'd chain_heap \<Rightarrow> 'd \<Rightarrow> 'd chain_result" where
  "insertNodeAsc al l h data =
     (case compareFunc l of None \<Rightarrow> Some (EINVAL, l, h, al)
      | Some cmp \<Rightarrow>
        (let (ok, al) = alloc_next al in
         if \<not> ok then Some (ENOMEM, l, h, al)
         else do {
           (pPrevious, pNode) \<leftarrow> asc_loop cmp h data None (chead l);
           let (pNew, h) = new_node h data pNode;
           (l, h) \<leftarrow> (if pPrevious = None then Some (l\<lparr>chead := Some pNew\<rparr>, h)
                     else do { h \<leftarrow> set_next h pPrevious (Some pNew); Some (l, h) });
           let l = (if pNode = None then l\<lparr>ctail := Some pNew\<rparr> else l);
           Some (0, l, h, al)
         }))"

definition addNode :: "alloc \<Rightarrow> 'd chain_list \<Rightarrow> 'd chain_heap \<Rightarrow> 'd \<Rightarrow> 'd chain_result" where
  "addNode al l h data =
     (if ctype l = CHAIN_TYPE_INSERT then insertNodePrior al l h data
      else if ctype l = CHAIN_TYPE_APPEND then appendNode al l h data
      else insertNodeAsc al l h data)"

definition deleteNodeEx ::
    "'d chain_list \<Rightarrow> 'd chain_heap \<Rightarrow> ptr \<Rightarrow> ptr \<Rightarrow> ('d chain_list \<times> 'd chain_heap) option" where
  "deleteNodeEx l h pPreviousNode pDeletedNode = do {
     n \<leftarrow> deref h pDeletedNode;
     (l, h) \<leftarrow> (if pDeletedNode = chead l then Some (l\<lparr>chead := nnext n\<rparr>, h)
               else do { h \<leftarrow> set_next h pPreviousNode (nnext n); Some (l, h) });
     let l = (if pDeletedNode = ctail l then l\<lparr>ctail := pPreviousNode\<rparr> else l);
     h \<leftarrow> freeChainNode l h pDeletedNode;
     Some (l, h)
   }"

partial_function (option) cut_loop ::
    "'d chain_list \<Rightarrow> 'd chain_heap \<Rightarrow> ptr \<Rightarrow> ptr \<Rightarrow> 'd chain_heap option" where
  "cut_loop l h pNode pDeletedNext =
     (if pNode = None \<or> pNode = pDeletedNext then Some h
      else do {
        n \<leftarrow> deref h pNode;
        h \<leftarrow> freeChainNode l h pNode;
        cut_loop l h (nnext n) pDeletedNext
      })"

definition deleteToNodePrevious ::
    "'d chain_list \<Rightarrow> 'd chain_heap \<Rightarrow> ptr \<Rightarrow> ptr \<Rightarrow> ('d chain_list \<times> 'd chain_heap) option" where
  "deleteToNodePrevious l h pPreviousNode pDeletedNext = do {
     (pNode, l, h) \<leftarrow>
       (if pPreviousNode = None then Some (chead l, l\<lparr>chead := pDeletedNext\<rparr>, h)
        else do {
          n \<leftarrow> deref h pPreviousNode;
          h \<leftarrow> set_next h pPreviousNode pDeletedNext;
          Some (nnext n, l, h)
        });
     h \<leftarrow> cut_loop l h pNode pDeletedNext;
     Some (if pDeletedNext = None then l\<lparr>ctail := pPreviousNode\<rparr> else l, h)
   }"

definition chain_pop_head ::
    "'d chain_list \<Rightarrow> 'd chain_heap \<Rightarrow> ('d option \<times> 'd chain_list \<times> 'd chain_heap) option" where
  "chain_pop_head l h =
     (if chead l = None then Some (None, l, h)
      else do {
        n \<leftarrow> deref h (chead l);
        a \<leftarrow> chead l;
        let l = l\<lparr>chead := nnext n\<rparr>;
        let l = (if chead l = None then l\<lparr>ctail := None\<rparr> else l);
        Some (Some (ndata n), l, h\<lparr>cells := (cells h)(a := None)\<rparr>)
      })"

partial_function (option) count_loop :: "'d chain_heap \<Rightarrow> ptr \<Rightarrow> int \<Rightarrow> int option" where
  "count_loop h pNode c =
     (if pNode = None then Some c
      else do { c \<leftarrow> cint (c + 1); n \<leftarrow> deref h pNode; count_loop h (nnext n) c })"

definition chain_count :: "'d chain_list \<Rightarrow> 'd chain_heap \<Rightarrow> int option" where
  "chain_count l h = count_loop h (chead l) 0"

partial_function (option) delete_loop ::
    "('d \<Rightarrow> 'd \<Rightarrow> int) \<Rightarrow> 'd \<Rightarrow> bool \<Rightarrow> 'd chain_list \<Rightarrow> 'd chain_heap \<Rightarrow> ptr \<Rightarrow> ptr \<Rightarrow> int
      \<Rightarrow> (int \<times> 'd chain_list \<times> 'd chain_heap) option" where
  "delete_loop cmp data bDeleteAll l h pPrevious pNode nCount =
     (if pNode = None then Some (nCount, l, h)
      else do {
        n \<leftarrow> deref h pNode;
        if cmp (ndata n) data = 0 then do {
          (l, h) \<leftarrow> deleteNodeEx l h pPrevious pNode;
          nCount \<leftarrow> cint (nCount + 1);
          if \<not> bDeleteAll then Some (nCount, l, h)
          else delete_loop cmp data bDeleteAll l h pPrevious (nnext n) nCount
        }
        else if 0 < cmp (ndata n) data \<and> ctype l = CHAIN_TYPE_SORTED then Some (nCount, l, h)
        else delete_loop cmp data bDeleteAll l h pNode (nnext n) nCount
      })"

definition deleteNode ::
    "'d chain_list \<Rightarrow> 'd chain_heap \<Rightarrow> 'd \<Rightarrow> bool \<Rightarrow> (int \<times> 'd chain_list \<times> 'd chain_heap) option" where
  "deleteNode l h data bDeleteAll =
     (case compareFunc l of None \<Rightarrow> Some (- EINVAL, l, h)
      | Some cmp \<Rightarrow> delete_loop cmp data bDeleteAll l h None (chead l) 0)"

definition deleteOne :: "'d chain_list \<Rightarrow> 'd chain_heap \<Rightarrow> 'd \<Rightarrow> (int \<times> 'd chain_list \<times> 'd chain_heap) option" where
  "deleteOne l h data = deleteNode l h data False"

definition deleteAll :: "'d chain_list \<Rightarrow> 'd chain_heap \<Rightarrow> 'd \<Rightarrow> (int \<times> 'd chain_list \<times> 'd chain_heap) option" where
  "deleteAll l h data = deleteNode l h data True"

declare destroy_loop.simps [code] asc_loop.simps [code] cut_loop.simps [code] count_loop.simps [code]
  delete_loop.simps [code]

section \<open>Lists in the heap\<close>

fun seg :: "(nat \<Rightarrow> 'd chain_node option) \<Rightarrow> ptr \<Rightarrow> nat list \<Rightarrow> ptr \<Rightarrow> bool" where
  "seg c p [] q \<longleftrightarrow> p = q"
| "seg c p (a # as) q \<longleftrightarrow> p = Some a \<and> (\<exists>n. c a = Some n \<and> seg c (nnext n) as q)"

definition dat :: "(nat \<Rightarrow> 'd chain_node option) \<Rightarrow> nat \<Rightarrow> 'd" where
  "dat c a = ndata (the (c a))"

definition last_ptr :: "nat list \<Rightarrow> ptr" where
  "last_ptr as = (if as = [] then None else Some (last as))"

lemma seg_append: "seg c p (as @ bs) q \<longleftrightarrow> (\<exists>r. seg c p as r \<and> seg c r bs q)"
  by (induction as arbitrary: p) auto

lemma seg_upd [simp]: "a \<notin> set as \<Longrightarrow> seg (c(a := x)) p as q = seg c p as q"
  by (induction as arbitrary: p) auto

lemma map_dat_upd [simp]: "a \<notin> set as \<Longrightarrow> map (dat (c(a := x))) as = map (dat c) as"
  by (auto simp: dat_def)

lemma last_ptr_simps [simp]: "last_ptr [] = None" "last_ptr (as @ [a]) = Some a"
  by (simp_all add: last_ptr_def)

lemma seg_first: "seg c p as None \<Longrightarrow> p = None \<longleftrightarrow> as = []"
  by (cases as) auto

text \<open>Redirecting the last node of a segment.\<close>

lemma seg_set_last:
  assumes "seg c p (as @ [a]) r" "distinct (as @ [a])"
  shows "\<exists>n. c a = Some n \<and> seg (c(a \<mapsto> n\<lparr>nnext := q\<rparr>)) p (as @ [a]) q"
  using assms by (auto simp: seg_append)

text \<open>
  \<open>chain_rep G l h as ds\<close>: the list \<open>l\<close> owns the nodes \<open>as\<close> of the heap, in this order, their data
  are \<open>ds\<close>; the rest of the heap is \<open>G\<close>.
\<close>

definition chain_rep ::
    "(nat \<Rightarrow> 'd chain_node option) \<Rightarrow> 'd chain_list \<Rightarrow> 'd chain_heap \<Rightarrow> nat list \<Rightarrow> 'd list \<Rightarrow> bool" where
  "chain_rep G l h as ds \<longleftrightarrow>
     seg (cells h) (chead l) as None \<and> distinct as \<and> ds = map (dat (cells h)) as \<and>
     ctail l = last_ptr as \<and> (\<forall>a. a \<notin> set as \<longrightarrow> cells h a = G a) \<and> set as \<inter> dom G = {} \<and>
     (\<forall>a \<in> set as \<union> dom G. a < fresh h)"

lemma chain_repD:
  assumes "chain_rep G l h as ds"
  shows "seg (cells h) (chead l) as None" "distinct as" "ds = map (dat (cells h)) as"
    "ctail l = last_ptr as" "\<And>a. a \<notin> set as \<Longrightarrow> cells h a = G a" "set as \<inter> dom G = {}"
    "\<And>a. a \<in> set as \<union> dom G \<Longrightarrow> a < fresh h"
  using assms by (auto simp: chain_rep_def)

lemma rep_length: "chain_rep G l h as ds \<Longrightarrow> length ds = length as"
  by (simp add: chain_rep_def)

lemma rep_fresh:
  assumes "chain_rep G l h as ds"
  shows "fresh h \<notin> set as" "G (fresh h) = None" "cells h (fresh h) = None"
proof -
  show 1: "fresh h \<notin> set as" using chain_repD(7) [OF assms] by blast
  show 2: "G (fresh h) = None" using chain_repD(7) [OF assms] by (metis domIff UnCI less_irrefl)
  show "cells h (fresh h) = None" using chain_repD(5) [OF assms 1] 2 by simp
qed

lemma rep_head: "chain_rep G l h as ds \<Longrightarrow> chead l = (if as = [] then None else Some (hd as))"
  by (cases as) (auto simp: chain_rep_def)

lemma rep_other: "chain_rep G l h as ds \<Longrightarrow> chead l' = chead l \<Longrightarrow> ctail l' = ctail l \<Longrightarrow> chain_rep G l' h as ds"
  by (simp add: chain_rep_def)

text \<open>Inserting a new node between \<open>pre\<close> and \<open>suf\<close>.\<close>

lemma rep_insert:
  assumes rep: "chain_rep G l h (pre @ suf) (ds1 @ ds2)" "length ds1 = length pre"
    and h': "cells h' = (case rev pre of [] \<Rightarrow> c1 | p # _ \<Rightarrow> c1(p \<mapsto> (the (cells h p))\<lparr>nnext := Some (fresh h)\<rparr>))"
      "c1 = (cells h)(fresh h \<mapsto> \<lparr>ndata = d, nnext = q\<rparr>)" "fresh h' = fresh h + 1"
    and q: "q = (if suf = [] then None else Some (hd suf))"
    and l': "chead l' = (if pre = [] then Some (fresh h) else chead l)"
      "ctail l' = (if suf = [] then Some (fresh h) else ctail l)"
  shows "chain_rep G l' h' (pre @ fresh h # suf) (ds1 @ d # ds2)"
proof -
  note R = chain_repD [OF rep(1)] and F = rep_fresh [OF rep(1)]
  obtain r where r: "seg (cells h) (chead l) pre r" "seg (cells h) r suf None"
    using R(1) by (auto simp: seg_append)
  have rq: "r = q" using r(2) q by (cases suf) auto
  have fr: "fresh h \<notin> set pre" "fresh h \<notin> set suf" using F(1) by auto
  have ds: "ds1 = map (dat (cells h)) pre" "ds2 = map (dat (cells h)) suf"
    using R(3) rep(2) by (simp_all add: append_eq_append_conv)
  have c1: "seg c1 (chead l) pre q" "seg c1 q suf None" "c1 (fresh h) = Some \<lparr>ndata = d, nnext = q\<rparr>"
    "map (dat c1) pre = ds1" "map (dat c1) suf = ds2" "dat c1 (fresh h) = d"
    using r rq fr h'(2) ds by (auto simp: dat_def)
  have tail: "ctail l' = last_ptr (pre @ fresh h # suf)"
    using l'(2) R(4) by (cases suf rule: rev_cases) (auto simp: last_ptr_def)
  show ?thesis
  proof (cases pre rule: rev_cases)
    case Nil
    then have "cells h' = c1" using h'(1) by simp
    then show ?thesis
      using c1 l' Nil R F tail h'(2,3) unfolding chain_rep_def by (auto simp: less_Suc_eq)
  next
    case (snoc pre' p)
    obtain n where n: "c1 p = Some n" "seg (c1(p \<mapsto> n\<lparr>nnext := Some (fresh h)\<rparr>)) (chead l) pre (Some (fresh h))"
      using seg_set_last [of c1 "chead l" pre' p q "Some (fresh h)"] c1(1) R(2) snoc by auto
    have pf: "p \<noteq> fresh h" "p \<notin> set suf" "p \<in> set pre" using snoc fr R(2) by auto
    have cp: "cells h p = Some n" using n(1) pf(1) h'(2) by simp
    have c': "cells h' = c1(p \<mapsto> n\<lparr>nnext := Some (fresh h)\<rparr>)" using h'(1) snoc cp by simp
    have d': "dat (cells h') a = dat c1 a" for a using n(1) by (auto simp: c' dat_def)
    have "seg (cells h') (chead l) (pre @ fresh h # suf) None"
      unfolding seg_append using n(2) c1(2,3) pf by (intro exI [of _ "Some (fresh h)"]) (simp add: c')
    moreover have "ds1 @ d # ds2 = map (dat (cells h')) (pre @ fresh h # suf)"
      using c1(4-6) by (simp add: d' cong: map_cong)
    moreover have "chead l' = chead l" using l'(1) snoc by simp
    ultimately show ?thesis
      using R F tail pf(3) h'(2,3) unfolding chain_rep_def by (auto simp: less_Suc_eq c')
  qed
qed

definition same_list :: "'d chain_list \<Rightarrow> 'd chain_list \<Rightarrow> bool" where
  "same_list l l' \<longleftrightarrow> ctype l' = ctype l \<and> freeDataFunc l' = freeDataFunc l \<and> compareFunc l' = compareFunc l"

lemma same_list_simps [simp]:
  "same_list l l" "same_list l (l'\<lparr>chead := p\<rparr>) = same_list l l'" "same_list l (l'\<lparr>ctail := p\<rparr>) = same_list l l'"
  by (simp_all add: same_list_def)

lemma same_list_trans: "same_list l l1 \<Longrightarrow> same_list l1 l2 \<Longrightarrow> same_list l l2"
  by (simp add: same_list_def)

definition free_log :: "'d chain_list \<Rightarrow> 'd list \<Rightarrow> 'd list" where
  "free_log l ds = (if freeDataFunc l then ds else [])"

lemma free_log_simps [simp]:
  "free_log l [] = []" "free_log l (xs @ ys) = free_log l xs @ free_log l ys"
  by (simp_all add: free_log_def)

lemma free_log_Cons: "free_log l (a # ds) = free_log l [a] @ free_log l ds"
  by (simp add: free_log_def)

lemma rep_cell:
  assumes "chain_rep G l h (pre @ a # suf) (ds1 @ d # ds2)" "length ds1 = length pre"
  shows "cells h a = Some \<lparr>ndata = d, nnext = (if suf = [] then None else Some (hd suf))\<rparr>"
proof -
  note R = chain_repD [OF assms(1)]
  obtain n where n: "cells h a = Some n" "seg (cells h) (nnext n) suf None" using R(1) by (auto simp: seg_append)
  have "ds1 @ d # ds2 = map (dat (cells h)) pre @ dat (cells h) a # map (dat (cells h)) suf" using R(3) by simp
  then have "dat (cells h) a = d" using assms(2) by (simp add: append_eq_append_conv)
  then have "ndata n = d" using n(1) by (simp add: dat_def)
  moreover have "nnext n = (if suf = [] then None else Some (hd suf))" using n(2) by (cases suf) auto
  ultimately show ?thesis using n(1) by (cases n) simp
qed

text \<open>Taking the node \<open>a\<close> out of the list and out of the heap.\<close>

lemma rep_unlink:
  assumes rep: "chain_rep G l h (pre @ a # suf) (ds1 @ d # ds2)" "length ds1 = length pre"
    and h': "cells h' = (case rev pre of [] \<Rightarrow> cells h
        | p # _ \<Rightarrow> (cells h)(p \<mapsto> (the (cells h p))\<lparr>nnext := nnext (the (cells h a))\<rparr>))(a := None)"
      "fresh h' = fresh h"
    and l': "chead l' = (if pre = [] then nnext (the (cells h a)) else chead l)"
      "ctail l' = (if suf = [] then last_ptr pre else ctail l)"
  shows "chain_rep G l' h' (pre @ suf) (ds1 @ ds2)"
proof -
  note R = chain_repD [OF rep(1)]
  obtain r n where r: "seg (cells h) (chead l) pre (Some a)" "cells h a = Some n" "seg (cells h) (nnext n) suf None"
    using R(1) by (auto simp: seg_append)
  have na: "a \<notin> set pre" "a \<notin> set suf" "distinct pre" "distinct suf" "set pre \<inter> set suf = {}" using R(2) by auto
  have "ds1 @ d # ds2 = map (dat (cells h)) pre @ dat (cells h) a # map (dat (cells h)) suf" using R(3) by simp
  then have ds: "ds1 = map (dat (cells h)) pre" "ds2 = map (dat (cells h)) suf"
    using rep(2) by (simp_all add: append_eq_append_conv)
  have Ga: "G a = None" using R(6) by (auto simp: domIff disjoint_iff)
  have tail: "ctail l' = last_ptr (pre @ suf)"
    using l'(2) R(4) by (cases suf rule: rev_cases) (auto simp: last_ptr_def)
  show ?thesis
  proof (cases pre rule: rev_cases)
    case Nil
    have c': "cells h' = (cells h)(a := None)" using h'(1) Nil by simp
    have "seg (cells h') (chead l') suf None" using r na l'(1) Nil by (simp add: c')
    moreover have "ds2 = map (dat (cells h')) suf" using ds(2) na(2) by (simp add: c')
    ultimately show ?thesis
      using R tail na Ga ds Nil h'(2) by (auto simp: chain_rep_def c')
  next
    case (snoc pre' p)
    obtain m where m: "cells h p = Some m" "seg ((cells h)(p \<mapsto> m\<lparr>nnext := nnext n\<rparr>)) (chead l) pre (nnext n)"
      using seg_set_last [of "cells h" "chead l" pre' p "Some a" "nnext n"] r(1) na(3) snoc by auto
    have pa: "p \<noteq> a" "p \<notin> set suf" "p \<in> set pre" using snoc na by auto
    have c': "cells h' = (cells h)(p \<mapsto> m\<lparr>nnext := nnext n\<rparr>, a := None)" using h'(1) snoc m(1) r(2) by simp
    have "seg (cells h') (chead l') (pre @ suf) None"
      unfolding seg_append using m(2) r(3) na pa l'(1) snoc by (intro exI [of _ "nnext n"]) (simp add: c')
    moreover have "dat (cells h') b = dat (cells h) b" if "b \<noteq> a" for b using that m(1) by (auto simp: c' dat_def)
    then have "map (dat (cells h')) bs = map (dat (cells h)) bs" if "a \<notin> set bs" for bs
      using that by (metis (no_types, lifting) map_eq_conv)
    then have "ds1 @ ds2 = map (dat (cells h')) (pre @ suf)"
      using ds na(1,2) by simp
    ultimately show ?thesis
      using R tail na Ga pa h'(2) by (auto simp: chain_rep_def c')
  qed
qed

lemma last_ptr_not_head:
  "distinct (pre @ a # suf) \<Longrightarrow> (if pre @ a # suf = [] then None else Some (hd (pre @ a # suf))) = Some a \<longleftrightarrow> pre = []"
  by (cases pre) auto

lemma deleteNodeEx_ok:
  assumes rep: "chain_rep G l h (pre @ a # suf) (ds1 @ d # ds2)" "length ds1 = length pre"
  shows "\<exists>l' h'. deleteNodeEx l h (last_ptr pre) (Some a) = Some (l', h') \<and>
    chain_rep G l' h' (pre @ suf) (ds1 @ ds2) \<and> same_list l l' \<and> freed h' = freed h @ free_log l [d]"
proof -
  note R = chain_repD [OF rep(1)]
  let ?n = "\<lparr>ndata = d, nnext = (if suf = [] then None else Some (hd suf))\<rparr>"
  have n: "cells h a = Some ?n" by (rule rep_cell [OF rep])
  have hd: "chead l = Some a \<longleftrightarrow> pre = []" using rep_head [OF rep(1)] last_ptr_not_head [OF R(2)] by simp
  have tl: "ctail l = Some a \<longleftrightarrow> suf = []" using R(2,4) by (cases suf rule: rev_cases) (auto simp: last_ptr_def)
  show ?thesis
  proof (cases pre rule: rev_cases)
    case Nil
    let ?l = "(if suf = [] then l\<lparr>chead := nnext ?n, ctail := None\<rparr> else l\<lparr>chead := nnext ?n\<rparr>)"
    let ?h = "h\<lparr>cells := (cells h)(a := None), freed := freed h @ free_log l [d]\<rparr>"
    have "deleteNodeEx l h (last_ptr pre) (Some a) = Some (?l, ?h)"
      using Nil hd tl n by (auto simp: deleteNodeEx_def deref_def freeChainNode_def free_log_def Let_def)
    moreover have "chain_rep G ?l ?h (pre @ suf) (ds1 @ ds2)"
      using Nil n by (intro rep_unlink [OF rep]) auto
    ultimately show ?thesis by (intro exI [of _ ?l] exI [of _ ?h]) auto
  next
    case (snoc pre' p)
    obtain m where m: "cells h p = Some m" using R(1) snoc by (auto simp: seg_append)
    have pa: "p \<noteq> a" using R(2) snoc by auto
    let ?l = "(if suf = [] then l\<lparr>ctail := Some p\<rparr> else l)"
    let ?h = "h\<lparr>cells := (cells h)(p \<mapsto> m\<lparr>nnext := nnext ?n\<rparr>, a := None), freed := freed h @ free_log l [d]\<rparr>"
    have "deleteNodeEx l h (last_ptr pre) (Some a) = Some (?l, ?h)"
      using snoc hd tl n m pa
      by (auto simp: deleteNodeEx_def deref_def freeChainNode_def free_log_def Let_def set_next_def)
    moreover have "chain_rep G ?l ?h (pre @ suf) (ds1 @ ds2)"
      using snoc n m by (intro rep_unlink [OF rep]) auto
    ultimately show ?thesis by (intro exI [of _ ?l] exI [of _ ?h]) auto
  qed
qed

section \<open>The loops\<close>

text \<open>What \<open>deleteNode\<close> does to the data: number of deletions, rest, deleted data.\<close>

fun del_list :: "('d \<Rightarrow> 'd \<Rightarrow> int) \<Rightarrow> 'd \<Rightarrow> bool \<Rightarrow> bool \<Rightarrow> 'd list \<Rightarrow> nat \<times> 'd list \<times> 'd list" where
  "del_list cmp d every srt [] = (0, [], [])"
| "del_list cmp d every srt (x # xs) =
     (if cmp x d = 0 then
        (if every then (case del_list cmp d every srt xs of (n, r, f) \<Rightarrow> (Suc n, r, x # f)) else (1, xs, [x]))
      else if 0 < cmp x d \<and> srt then (0, x # xs, [])
      else (case del_list cmp d every srt xs of (n, r, f) \<Rightarrow> (n, x # r, f)))"

lemma chain_delete_loop_ok:
  assumes "chain_rep G l h (pre @ suf) (ds1 @ ds2)" "length ds1 = length pre"
    and "0 \<le> k" "k + int (length suf) \<le> INT_MAX"
    and "del_list cmp d every (ctype l = CHAIN_TYPE_SORTED) ds2 = (n, r, f)"
  shows "\<exists>l' h' as. delete_loop cmp d every l h (last_ptr pre) (if suf = [] then None else Some (hd suf)) k =
      Some (k + int n, l', h') \<and> chain_rep G l' h' as (ds1 @ r) \<and> same_list l l' \<and> freed h' = freed h @ free_log l f"
  using assms
proof (induction suf arbitrary: l h pre ds1 ds2 k n r f)
  case Nil
  then have "ds2 = []" using rep_length [OF Nil.prems(1)] by simp
  then have "n = 0" "r = []" "f = []" using Nil.prems(5) by simp_all
  then show ?case
    using Nil.prems(1) \<open>ds2 = []\<close> by (subst delete_loop.simps) auto
next
  case (Cons a suf)
  obtain x xs where ds2: "ds2 = x # xs" using rep_length [OF Cons.prems(1)] Cons.prems(2) by (cases ds2) auto
  note rep = Cons.prems(1) [unfolded ds2]
  let ?nx = "if suf = [] then None else Some (hd suf)"
  let ?srt = "ctype l = CHAIN_TYPE_SORTED"
  have cell: "deref h (Some a) = Some \<lparr>ndata = x, nnext = ?nx\<rparr>"
    using rep_cell [OF rep Cons.prems(2)] by (simp add: deref_def)
  have cnt: "cint (k + 1) = Some (k + 1)" using Cons.prems(3,4) by (auto simp: cint_def INT_MIN_def)
  obtain n1 r1 f1 where D: "del_list cmp d every ?srt xs = (n1, r1, f1)" by (metis prod_cases3)
  consider "cmp x d = 0" | "cmp x d \<noteq> 0" "0 < cmp x d \<and> ?srt" | "cmp x d \<noteq> 0" "\<not> (0 < cmp x d \<and> ?srt)" by blast
  then show ?case
  proof cases
    case 1
    obtain l1 h1 where E: "deleteNodeEx l h (last_ptr pre) (Some a) = Some (l1, h1)"
        "chain_rep G l1 h1 (pre @ suf) (ds1 @ xs)" "same_list l l1" "freed h1 = freed h @ free_log l [x]"
      using deleteNodeEx_ok [OF rep Cons.prems(2)] by blast
    show ?thesis
    proof (cases every)
      case False
      then have "n = 1" "r = xs" "f = [x]" using 1 Cons.prems(5) ds2 by simp_all
      then show ?thesis
        using 1 False E cell cnt by (subst delete_loop.simps) auto
    next
      case True
      have res: "n = Suc n1" "r = r1" "f = x # f1" using 1 True D Cons.prems(5) ds2 by simp_all
      have srt: "(ctype l1 = CHAIN_TYPE_SORTED) = ?srt" using E(3) by (simp add: same_list_def)
      obtain l' h' as where IH: "delete_loop cmp d every l1 h1 (last_ptr pre) ?nx (k + 1) = Some (k + 1 + int n1, l', h')"
          "chain_rep G l' h' as (ds1 @ r1)" "same_list l1 l'" "freed h' = freed h1 @ free_log l1 f1"
        using Cons.IH [OF E(2) Cons.prems(2), of "k + 1" n1 r1 f1] Cons.prems(3,4) D srt by auto
      have "delete_loop cmp d every l h (last_ptr pre) (Some a) k = Some (k + int n, l', h')"
        using 1 True E(1) cell cnt IH(1) res(1) by (subst delete_loop.simps) auto
      moreover have "free_log l1 f1 = free_log l f1" using E(3) by (simp add: free_log_def same_list_def)
      ultimately show ?thesis
        using IH E(3,4) res same_list_trans [OF E(3) IH(3)] free_log_Cons [of l x f1] by auto
    qed
  next
    case 2
    then have "n = 0" "r = ds2" "f = []" using Cons.prems(5) ds2 by simp_all
    then show ?thesis using 2 cell Cons.prems(1) by (subst delete_loop.simps) auto
  next
    case 3
    then have res: "n = n1" "r = x # r1" "f = f1" using D Cons.prems(5) ds2 by auto
    have "chain_rep G l h ((pre @ [a]) @ suf) ((ds1 @ [x]) @ xs)" using rep by simp
    from Cons.IH [OF this, of k n1 r1 f1] Cons.prems(2-4) D
    obtain l' h' as where "delete_loop cmp d every l h (Some a) ?nx k = Some (k + int n1, l', h')"
        "chain_rep G l' h' as (ds1 @ x # r1)" "same_list l l'" "freed h' = freed h @ free_log l f1"
      by auto
    moreover have "delete_loop cmp d every l h (last_ptr pre) (Some a) k = delete_loop cmp d every l h (Some a) ?nx k"
      using 3 cell by (subst delete_loop.simps) auto
    ultimately show ?thesis using res by auto
  qed
qed

lemma chain_count_loop_ok:
  assumes "seg (cells h) p as None" "0 \<le> k" "k + int (length as) \<le> INT_MAX"
  shows "count_loop h p k = Some (k + int (length as))"
  using assms
proof (induction as arbitrary: p k)
  case Nil
  then show ?case by (subst count_loop.simps) simp
next
  case (Cons a as)
  have "cint (k + 1) = Some (k + 1)" using Cons.prems(2,3) by (auto simp: cint_def INT_MIN_def)
  then show ?case
    using Cons.IH [of _ "k + 1"] Cons.prems by (subst count_loop.simps) (auto simp: deref_def)
qed

lemma asc_loop_ok:
  fixes cmp :: "'d \<Rightarrow> 'd \<Rightarrow> int" and d :: 'd
  assumes "seg (cells h) p as None"
  defines "k \<equiv> length (takeWhile (\<lambda>x. cmp x d < 0) (map (dat (cells h)) as))"
  shows "asc_loop cmp h d (last_ptr pre) p =
    Some (last_ptr (pre @ take k as), if drop k as = [] then None else Some (hd (drop k as)))"
  using assms(1) unfolding k_def
proof (induction as arbitrary: p pre)
  case Nil
  then show ?case by (subst asc_loop.simps) simp
next
  case (Cons a as)
  then obtain n where n: "p = Some a" "cells h a = Some n" "seg (cells h) (nnext n) as None" by auto
  have d: "dat (cells h) a = ndata n" using n(2) by (simp add: dat_def)
  show ?case
  proof (cases "cmp (ndata n) d < 0")
    case True
    have "asc_loop cmp h d (last_ptr pre) p = asc_loop cmp h d (last_ptr (pre @ [a])) (nnext n)"
      using n True by (subst asc_loop.simps) (simp add: deref_def)
    then show ?thesis using Cons.IH [OF n(3), of "pre @ [a]"] True d by simp
  next
    case False
    then show ?thesis using n d by (subst asc_loop.simps) (simp add: deref_def)
  qed
qed

section \<open>Freeing a segment\<close>

definition drop_cells :: "'d chain_list \<Rightarrow> 'd chain_heap \<Rightarrow> nat list \<Rightarrow> 'd chain_heap" where
  "drop_cells l h as = h\<lparr>cells := (\<lambda>a. if a \<in> set as then None else cells h a),
     freed := freed h @ free_log l (map (dat (cells h)) as)\<rparr>"

lemma free_head:
  assumes "cells h a = Some n"
  shows "freeChainNode l h (Some a) = Some (drop_cells l h [a])"
  using assms by (simp add: freeChainNode_def drop_cells_def free_log_def dat_def fun_upd_def)

lemma drop_cells_Cons: "a \<notin> set as \<Longrightarrow> drop_cells l (drop_cells l h [a]) as = drop_cells l h (a # as)"
  by (auto simp: drop_cells_def free_log_def fun_eq_iff dat_def)

lemma seg_drop: "a \<notin> set as \<Longrightarrow> seg (cells (drop_cells l h [a])) p as q = seg (cells h) p as q"
  by (induction as arbitrary: p) (auto simp: drop_cells_def)

lemma cut_loop_ok:
  assumes "seg (cells h) p as q" "distinct as" "\<And>a. q = Some a \<Longrightarrow> a \<notin> set as"
  shows "cut_loop l h p q = Some (drop_cells l h as)"
  using assms
proof (induction as arbitrary: h p)
  case Nil
  then show ?case by (subst cut_loop.simps) (simp add: drop_cells_def)
next
  case (Cons a as)
  obtain n where n: "p = Some a" "cells h a = Some n" "seg (cells h) (nnext n) as q" using Cons.prems(1) by auto
  have na: "a \<notin> set as" using Cons.prems(2) by simp
  have "q \<noteq> Some a" using Cons.prems(3) by auto
  then have "cut_loop l h p q = cut_loop l (drop_cells l h [a]) (nnext n) q"
    using n(1,2) by (subst cut_loop.simps) (simp add: deref_def free_head)
  also have "\<dots> = Some (drop_cells l (drop_cells l h [a]) as)"
    using Cons.prems n(3) na by (intro Cons.IH) (auto simp: seg_drop)
  finally show ?case by (simp only: drop_cells_Cons [OF na])
qed

lemma chain_destroy_loop_ok:
  assumes "seg (cells h) p as None" "distinct as"
  shows "destroy_loop l h p = Some (drop_cells l h as)"
  using assms
proof (induction as arbitrary: h p)
  case Nil
  then show ?case by (subst destroy_loop.simps) (simp add: drop_cells_def)
next
  case (Cons a as)
  obtain n where n: "p = Some a" "cells h a = Some n" "seg (cells h) (nnext n) as None" using Cons.prems(1) by auto
  have na: "a \<notin> set as" using Cons.prems(2) by simp
  have "destroy_loop l h p = destroy_loop l (drop_cells l h [a]) (nnext n)"
    using n(1,2) by (subst destroy_loop.simps) (simp add: deref_def free_head)
  also have "\<dots> = Some (drop_cells l (drop_cells l h [a]) as)"
    using Cons.prems n(3) na by (intro Cons.IH) (auto simp: seg_drop)
  finally show ?case by (simp only: drop_cells_Cons [OF na])
qed

lemma destroy_ok:
  assumes rep: "chain_rep G l h as ds"
  shows "\<exists>l' h'. chain_destroy l h = Some (l', h') \<and> chain_rep G l' h' [] [] \<and> same_list l l' \<and>
    freed h' = freed h @ free_log l ds"
proof -
  note R = chain_repD [OF rep]
  have "chain_rep G (l\<lparr>chead := None, ctail := None\<rparr>) (drop_cells l h as) [] []"
    using R(5-7) by (auto simp: chain_rep_def drop_cells_def domIff disjoint_iff)
  moreover have "chain_destroy l h = Some (l\<lparr>chead := None, ctail := None\<rparr>, drop_cells l h as)"
  proof (cases "as = []")
    case True
    then have "drop_cells l h as = h" "l\<lparr>chead := None, ctail := None\<rparr> = l" "chead l = None"
      using R(1,4) by (simp_all add: drop_cells_def)
    then show ?thesis by (simp add: chain_destroy_def)
  next
    case False
    then have "chead l \<noteq> None" using rep_head [OF rep] by simp
    then show ?thesis using chain_destroy_loop_ok [OF R(1,2)] by (auto simp: chain_destroy_def)
  qed
  ultimately show ?thesis
    using R(3) by (intro exI [of _ "l\<lparr>chead := None, ctail := None\<rparr>"] exI [of _ "drop_cells l h as"])
      (simp add: drop_cells_def)
qed

lemma pop_head_ok:
  assumes rep: "chain_rep G l h as ds"
  shows "\<exists>l' h' as'. chain_pop_head l h = Some (if ds = [] then None else Some (hd ds), l', h') \<and>
    chain_rep G l' h' as' (tl ds) \<and> same_list l l' \<and> freed h' = freed h"
proof (cases as)
  case Nil
  then have "ds = []" using rep_length [OF rep] by simp
  then show ?thesis using rep Nil rep_head [OF rep] by (auto simp: chain_pop_head_def)
next
  case (Cons a suf)
  then obtain d ds' where ds: "ds = d # ds'" using rep_length [OF rep] by (cases ds) auto
  note rep' = rep [unfolded Cons ds]
  let ?nx = "if suf = [] then None else Some (hd suf)"
  have cell: "cells h a = Some \<lparr>ndata = d, nnext = ?nx\<rparr>"
    using rep_cell [of G l h "[]" a suf "[]" d ds'] rep' by simp
  let ?l = "if suf = [] then l\<lparr>chead := ?nx, ctail := None\<rparr> else l\<lparr>chead := ?nx\<rparr>"
  let ?h = "h\<lparr>cells := (cells h)(a := None)\<rparr>"
  have "chain_rep G ?l ?h ([] @ suf) ([] @ ds')"
    using rep' cell by (intro rep_unlink [of G l h "[]" a suf "[]" d ds']) auto
  moreover have "chain_pop_head l h = Some (Some d, ?l, ?h)"
    using cell rep_head [OF rep] Cons by (auto simp: chain_pop_head_def deref_def Let_def)
  ultimately show ?thesis using ds by (intro exI [of _ ?l] exI [of _ ?h] exI [of _ suf]) auto
qed

text \<open>Cutting the nodes \<open>mid\<close> out: \<open>deleteToNodePrevious\<close>.\<close>

lemma cut_ok:
  assumes rep: "chain_rep G l h (pre @ mid @ suf) (ds1 @ ds2 @ ds3)" "length ds1 = length pre" "length ds2 = length mid"
  shows "\<exists>l' h'. deleteToNodePrevious l h (last_ptr pre) (if suf = [] then None else Some (hd suf)) = Some (l', h') \<and>
    chain_rep G l' h' (pre @ suf) (ds1 @ ds3) \<and> same_list l l' \<and> freed h' = freed h @ free_log l ds2"
proof -
  note R = chain_repD [OF rep(1)]
  let ?q = "if suf = [] then None else Some (hd suf)"
  obtain r q where r0: "seg (cells h) (chead l) pre r" "seg (cells h) r mid q" "seg (cells h) q suf None"
    using R(1) unfolding seg_append by blast
  moreover have "q = ?q" using r0(3) by (cases suf) auto
  ultimately have r: "seg (cells h) (chead l) pre r" "seg (cells h) r mid ?q" "seg (cells h) ?q suf None"
    by simp_all
  have dj: "set pre \<inter> set mid = {}" "set suf \<inter> set mid = {}" "set pre \<inter> set suf = {}" "distinct mid" "distinct pre" "distinct suf"
    using R(2) by auto
  have "ds1 @ ds2 @ ds3 = map (dat (cells h)) pre @ map (dat (cells h)) mid @ map (dat (cells h)) suf" using R(3) by simp
  then have ds: "ds1 = map (dat (cells h)) pre" "ds2 = map (dat (cells h)) mid" "ds3 = map (dat (cells h)) suf"
    using rep(2,3) by (simp_all add: append_eq_append_conv)
  have q: "?q = Some a \<Longrightarrow> a \<notin> set mid" for a using dj(2) by (auto split: if_splits) (metis disjoint_iff list.set_sel(1))
  have Gm: "G a = None" if "a \<in> set mid" for a using R(6) that by (auto simp: domIff disjoint_iff)
  have segd: "seg (cells (drop_cells l1 h1 mid)) p as z = seg (cells h1) p as z" if "set as \<inter> set mid = {}" for p as z h1 l1
    using that by (induction as arbitrary: p) (auto simp: drop_cells_def)
  have tail: "last_ptr (pre @ suf) = (if suf = [] then last_ptr pre else ctail l)"
    using R(4) by (cases suf rule: rev_cases) (auto simp: last_ptr_def)
  show ?thesis
  proof (cases pre rule: rev_cases)
    case Nil
    then have r0: "r = chead l" using r(1) by simp
    let ?l1 = "l\<lparr>chead := ?q\<rparr>"
    let ?l = "if suf = [] then l\<lparr>chead := ?q, ctail := None\<rparr> else ?l1" and ?h = "drop_cells ?l1 h mid"
    have run: "deleteToNodePrevious l h (last_ptr pre) ?q = Some (?l, ?h)"
      using cut_loop_ok [OF r(2) dj(4) q, of ?l1] Nil r0 by (auto simp: deleteToNodePrevious_def)
    have "seg (cells ?h) ?q suf None" using r(3) segd [OF dj(2)] by blast
    then have "seg (cells ?h) (chead ?l) suf None" by (cases "suf = []") simp_all
    moreover have "map (dat (cells ?h)) suf = ds3" using dj(2) by (auto simp: ds(3) drop_cells_def dat_def)
    ultimately have "chain_rep G ?l ?h (pre @ suf) (ds1 @ ds3)"
      using R dj tail Gm ds(1) Nil unfolding chain_rep_def by (auto simp: drop_cells_def)
    moreover have "freed ?h = freed h @ free_log l ds2" by (simp add: drop_cells_def ds(2) free_log_def)
    ultimately show ?thesis
      using run by (intro exI [of _ ?l] exI [of _ ?h]) auto
  next
    case (snoc pre' p)
    obtain m where m: "cells h p = Some m" "seg ((cells h)(p \<mapsto> m\<lparr>nnext := ?q\<rparr>)) (chead l) pre ?q"
      using seg_set_last [of "cells h" "chead l" pre' p r ?q] r(1) dj(5) snoc by auto
    have mr: "nnext m = r" using r(1) m(1) snoc by (auto simp: seg_append)
    have pm: "p \<notin> set mid" "p \<notin> set suf" "p \<in> set pre" using snoc dj by auto
    let ?h1 = "h\<lparr>cells := (cells h)(p \<mapsto> m\<lparr>nnext := ?q\<rparr>)\<rparr>"
    let ?l = "if suf = [] then l\<lparr>ctail := last_ptr pre\<rparr> else l" and ?h = "drop_cells l ?h1 mid"
    have d1: "dat (cells ?h1) a = dat (cells h) a" for a using m(1) by (simp add: dat_def)
    have "seg (cells ?h1) r mid ?q" using r(2) pm(1) by simp
    then have run: "deleteToNodePrevious l h (last_ptr pre) ?q = Some (?l, ?h)"
      using cut_loop_ok [where h = ?h1 and p = r and q = ?q and l = l, OF _ dj(4) q] snoc m(1) mr
      by (auto simp: deleteToNodePrevious_def deref_def set_next_def)
    have "seg (cells ?h1) (chead l) (pre @ suf) None"
      unfolding seg_append using m(2) r(3) pm by auto
    moreover have "set (pre @ suf) \<inter> set mid = {}" using dj by auto
    ultimately have "seg (cells ?h) (chead l) (pre @ suf) None" using segd by blast
    moreover have "chead ?l = chead l" by simp
    ultimately have "seg (cells ?h) (chead ?l) (pre @ suf) None" by (simp only:)
    moreover have "dat (cells ?h) a = dat (cells h) a" if "a \<notin> set mid" for a
      using that d1 [of a] by (simp add: drop_cells_def dat_def)
    then have dd: "map (dat (cells ?h)) bs = map (dat (cells h)) bs" if "set bs \<inter> set mid = {}" for bs
      using that by (intro map_cong refl) blast
    have "map (dat (cells ?h)) (pre @ suf) = ds1 @ ds3"
      unfolding map_append dd [OF dj(1)] dd [OF dj(2)] ds ..
    moreover have "ctail ?l = last_ptr (pre @ suf)" using tail by simp
    ultimately have "chain_rep G ?l ?h (pre @ suf) (ds1 @ ds3)"
      using R dj Gm pm(3) unfolding chain_rep_def by (auto simp: drop_cells_def)
    moreover have "freed ?h = freed h @ free_log l ds2"
      using d1 by (simp add: drop_cells_def ds(2) cong: map_cong)
    ultimately show ?thesis
      using run by (intro exI [of _ ?l] exI [of _ ?h]) auto
  qed
qed

section \<open>Insertions\<close>

lemma prior_ok:
  assumes rep: "chain_rep G l h as ds" and al: "alloc_next al = (True, al')"
  shows "\<exists>l' h' as'. insertNodePrior al l h d = Some (0, l', h', al') \<and> chain_rep G l' h' as' (d # ds) \<and>
    same_list l l' \<and> freed h' = freed h"
proof -
  let ?h = "h\<lparr>cells := (cells h)(fresh h \<mapsto> \<lparr>ndata = d, nnext = chead l\<rparr>), fresh := fresh h + 1\<rparr>"
  let ?l = "if as = [] then l\<lparr>chead := Some (fresh h), ctail := Some (fresh h)\<rparr> else l\<lparr>chead := Some (fresh h)\<rparr>"
  have "ctail l = None \<longleftrightarrow> as = []" using chain_repD(4) [OF rep] by (simp add: last_ptr_def)
  then have "insertNodePrior al l h d = Some (0, ?l, ?h, al')"
    using al by (auto simp: insertNodePrior_def new_node_def Let_def)
  moreover have "chain_rep G ?l ?h ([] @ fresh h # as) ([] @ d # ds)"
    using rep rep_head [OF rep] by (intro rep_insert [of G l h "[]" as "[]" ds]) auto
  ultimately show ?thesis by (intro exI [of _ ?l] exI [of _ ?h] exI [of _ "fresh h # as"]) auto
qed

lemma append_ok:
  assumes rep: "chain_rep G l h as ds" and al: "alloc_next al = (True, al')"
  shows "\<exists>l' h' as'. appendNode al l h d = Some (0, l', h', al') \<and> chain_rep G l' h' as' (ds @ [d]) \<and>
    same_list l l' \<and> freed h' = freed h"
proof -
  note R = chain_repD [OF rep] and F = rep_fresh [OF rep]
  let ?c = "(cells h)(fresh h \<mapsto> \<lparr>ndata = d, nnext = None\<rparr>)"
  let ?l = "if as = [] then l\<lparr>chead := Some (fresh h), ctail := Some (fresh h)\<rparr> else l\<lparr>ctail := Some (fresh h)\<rparr>"
  have hd: "chead l = None \<longleftrightarrow> as = []" using rep_head [OF rep] by simp
  show ?thesis
  proof (cases as rule: rev_cases)
    case Nil
    let ?h = "h\<lparr>cells := ?c, fresh := fresh h + 1\<rparr>"
    have "appendNode al l h d = Some (0, ?l, ?h, al')"
      using al Nil hd R(4) by (auto simp: appendNode_def new_node_def Let_def)
    moreover have e: "as = []" "ds = []" using Nil rep_length [OF rep] by simp_all
    have "chain_rep G ?l ?h ([] @ fresh h # []) ([] @ d # [])"
      using rep unfolding e by (intro rep_insert [of G l h "[]" "[]" "[]" "[]" _ ?c _ None]) auto
    ultimately show ?thesis using e by (intro exI [of _ ?l] exI [of _ ?h] exI [of _ "[fresh h]"]) auto
  next
    case (snoc pre p)
    obtain m where m: "cells h p = Some m" using R(1) snoc by (auto simp: seg_append)
    have pf: "p \<noteq> fresh h" using F(1) snoc by auto
    let ?h = "h\<lparr>cells := ?c(p \<mapsto> m\<lparr>nnext := Some (fresh h)\<rparr>), fresh := fresh h + 1\<rparr>"
    have "appendNode al l h d = Some (0, ?l, ?h, al')"
      using al snoc hd R(4) m pf by (auto simp: appendNode_def new_node_def Let_def set_next_def)
    moreover have "chain_rep G ?l ?h (as @ fresh h # []) (ds @ d # [])"
      using rep rep_length [OF rep] snoc m by (intro rep_insert [of G l h as "[]" ds "[]" _ ?c _ None]) auto
    ultimately show ?thesis by (intro exI [of _ ?l] exI [of _ ?h] exI [of _ "as @ [fresh h]"]) auto
  qed
qed

lemma asc_ok:
  assumes rep: "chain_rep G l h as ds" and al: "alloc_next al = (True, al')" and cmp: "compareFunc l = Some cmp"
  shows "\<exists>l' h' as'. insertNodeAsc al l h d = Some (0, l', h', al') \<and>
    chain_rep G l' h' as' (takeWhile (\<lambda>x. cmp x d < 0) ds @ d # dropWhile (\<lambda>x. cmp x d < 0) ds) \<and>
    same_list l l' \<and> freed h' = freed h"
proof -
  note R = chain_repD [OF rep] and F = rep_fresh [OF rep]
  define k where "k = length (takeWhile (\<lambda>x. cmp x d < 0) ds)"
  define pre suf where "pre = take k as" and "suf = drop k as"
  let ?q = "if suf = [] then None else Some (hd suf)"
  have as: "as = pre @ suf" by (simp add: pre_def suf_def)
  have ds: "takeWhile (\<lambda>x. cmp x d < 0) ds = take k ds" "dropWhile (\<lambda>x. cmp x d < 0) ds = drop k ds"
    by (simp_all add: k_def takeWhile_eq_take [symmetric] dropWhile_eq_drop [symmetric])
  have loop: "asc_loop cmp h d None (chead l) = Some (last_ptr pre, ?q)"
    using asc_loop_ok [OF R(1), of cmp d "[]"] R(3) by (simp add: k_def pre_def suf_def)
  have rep': "chain_rep G l h (pre @ suf) (take k ds @ drop k ds)" "length (take k ds) = length pre"
    using rep by (simp only: as [symmetric] append_take_drop_id, simp add: pre_def rep_length [OF rep])
  let ?c = "(cells h)(fresh h \<mapsto> \<lparr>ndata = d, nnext = ?q\<rparr>)"
  show ?thesis
  proof (cases pre rule: rev_cases)
    case Nil
    let ?h = "h\<lparr>cells := ?c, fresh := fresh h + 1\<rparr>"
    let ?l = "if suf = [] then l\<lparr>chead := Some (fresh h), ctail := Some (fresh h)\<rparr> else l\<lparr>chead := Some (fresh h)\<rparr>"
    have "insertNodeAsc al l h d = Some (0, ?l, ?h, al')"
      using al Nil loop cmp by (auto simp: insertNodeAsc_def new_node_def Let_def)
    moreover have "chain_rep G ?l ?h (pre @ fresh h # suf) (take k ds @ d # drop k ds)"
      using Nil by (intro rep_insert [OF rep']) auto
    ultimately show ?thesis unfolding ds
      by (intro exI [of _ ?l] exI [of _ ?h] exI [of _ "pre @ fresh h # suf"]) auto
  next
    case (snoc pre' p)
    obtain m where m: "cells h p = Some m" using R(1) snoc as by (auto simp: seg_append)
    have pf: "p \<noteq> fresh h" using F(1) snoc as by auto
    let ?h = "h\<lparr>cells := ?c(p \<mapsto> m\<lparr>nnext := Some (fresh h)\<rparr>), fresh := fresh h + 1\<rparr>"
    let ?l = "if suf = [] then l\<lparr>ctail := Some (fresh h)\<rparr> else l"
    have "insertNodeAsc al l h d = Some (0, ?l, ?h, al')"
      using al snoc loop cmp m pf by (auto simp: insertNodeAsc_def new_node_def Let_def set_next_def)
    moreover have "chain_rep G ?l ?h (pre @ fresh h # suf) (take k ds @ d # drop k ds)"
      using snoc m by (intro rep_insert [OF rep']) auto
    ultimately show ?thesis unfolding ds
      by (intro exI [of _ ?l] exI [of _ ?h] exI [of _ "pre @ fresh h # suf"]) auto
  qed
qed

section \<open>Every operation against a list of data\<close>

datatype 'd chain_cmd = Prior 'd | Append 'd | Asc 'd | Add 'd | DelOne 'd | DelAll 'd | PopHead | Count | Destroy

fun chain_exec ::
    "'d chain_cmd \<Rightarrow> 'd chain_list \<times> 'd chain_heap \<times> alloc \<Rightarrow>
      (int \<times> 'd option \<times> 'd chain_list \<times> 'd chain_heap \<times> alloc) option" where
  "chain_exec (Prior d) (l, h, al) = map_option (\<lambda>(r, s). (r, None, s)) (insertNodePrior al l h d)"
| "chain_exec (Append d) (l, h, al) = map_option (\<lambda>(r, s). (r, None, s)) (appendNode al l h d)"
| "chain_exec (Asc d) (l, h, al) = map_option (\<lambda>(r, s). (r, None, s)) (insertNodeAsc al l h d)"
| "chain_exec (Add d) (l, h, al) = map_option (\<lambda>(r, s). (r, None, s)) (addNode al l h d)"
| "chain_exec (DelOne d) (l, h, al) = map_option (\<lambda>(r, l, h). (r, None, l, h, al)) (deleteOne l h d)"
| "chain_exec (DelAll d) (l, h, al) = map_option (\<lambda>(r, l, h). (r, None, l, h, al)) (deleteAll l h d)"
| "chain_exec PopHead (l, h, al) = map_option (\<lambda>(x, l, h). (0, x, l, h, al)) (chain_pop_head l h)"
| "chain_exec Count (l, h, al) = map_option (\<lambda>r. (r, None, l, h, al)) (chain_count l h)"
| "chain_exec Destroy (l, h, al) = map_option (\<lambda>(l, h). (0, None, l, h, al)) (chain_destroy l h)"

text \<open>Result, popped datum, data of the list afterwards, data given to the free function.\<close>

definition insert_spec :: "bool \<Rightarrow> 'd list \<Rightarrow> 'd list \<Rightarrow> int \<times> 'd option \<times> 'd list \<times> 'd list" where
  "insert_spec ok ds ds' = (if ok then (0, None, ds', []) else (ENOMEM, None, ds, []))"

definition asc_spec ::
    "('d \<Rightarrow> 'd \<Rightarrow> int) option \<Rightarrow> bool \<Rightarrow> 'd list \<Rightarrow> 'd \<Rightarrow> int \<times> 'd option \<times> 'd list \<times> 'd list" where
  "asc_spec cmp ok ds d = (case cmp of None \<Rightarrow> (EINVAL, None, ds, [])
     | Some cmp \<Rightarrow> insert_spec ok ds (takeWhile (\<lambda>x. cmp x d < 0) ds @ d # dropWhile (\<lambda>x. cmp x d < 0) ds))"

definition del_spec ::
    "('d \<Rightarrow> 'd \<Rightarrow> int) option \<Rightarrow> bool \<Rightarrow> bool \<Rightarrow> 'd list \<Rightarrow> 'd \<Rightarrow> int \<times> 'd option \<times> 'd list \<times> 'd list" where
  "del_spec cmp every srt ds d = (case cmp of None \<Rightarrow> (- EINVAL, None, ds, [])
     | Some cmp \<Rightarrow> (case del_list cmp d every srt ds of (n, r, f) \<Rightarrow> (int n, None, r, f)))"

fun chain_spec :: "'d chain_list \<Rightarrow> bool \<Rightarrow> 'd list \<Rightarrow> 'd chain_cmd \<Rightarrow> int \<times> 'd option \<times> 'd list \<times> 'd list" where
  "chain_spec l ok ds (Prior d) = insert_spec ok ds (d # ds)"
| "chain_spec l ok ds (Append d) = insert_spec ok ds (ds @ [d])"
| "chain_spec l ok ds (Asc d) = asc_spec (compareFunc l) ok ds d"
| "chain_spec l ok ds (Add d) =
     (if ctype l = CHAIN_TYPE_INSERT then insert_spec ok ds (d # ds)
      else if ctype l = CHAIN_TYPE_APPEND then insert_spec ok ds (ds @ [d])
      else asc_spec (compareFunc l) ok ds d)"
| "chain_spec l ok ds (DelOne d) = del_spec (compareFunc l) False (ctype l = CHAIN_TYPE_SORTED) ds d"
| "chain_spec l ok ds (DelAll d) = del_spec (compareFunc l) True (ctype l = CHAIN_TYPE_SORTED) ds d"
| "chain_spec l ok ds PopHead = (0, if ds = [] then None else Some (hd ds), tl ds, [])"
| "chain_spec l ok ds Count = (int (length ds), None, ds, [])"
| "chain_spec l ok ds Destroy = (0, None, [], ds)"

definition refines ::
    "(nat \<Rightarrow> 'd chain_node option) \<Rightarrow> 'd chain_list \<Rightarrow> 'd chain_heap \<Rightarrow>
      (int \<times> 'd option \<times> 'd chain_list \<times> 'd chain_heap \<times> alloc) option \<Rightarrow>
      int \<times> 'd option \<times> 'd list \<times> 'd list \<Rightarrow> bool" where
  "refines G l h res spec = (case spec of (r, x, ds', fr) \<Rightarrow>
     \<exists>l' h' al' as'. res = Some (r, x, l', h', al') \<and> chain_rep G l' h' as' ds' \<and> same_list l l' \<and>
       freed h' = freed h @ free_log l fr)"

lemma refinesI:
  assumes "res = Some (r, x, l', h', al')" "chain_rep G l' h' as' ds'" "same_list l l'"
    "freed h' = freed h @ free_log l fr"
  shows "refines G l h res (r, x, ds', fr)"
  using assms by (auto simp: refines_def)

lemma insert_refines:
  assumes rep: "chain_rep G l h as ds"
  shows "refines G l h (map_option (\<lambda>(r, s). (r, None, s)) (insertNodePrior al l h d))
      (insert_spec (fst (alloc_next al)) ds (d # ds))"
    and "refines G l h (map_option (\<lambda>(r, s). (r, None, s)) (appendNode al l h d))
      (insert_spec (fst (alloc_next al)) ds (ds @ [d]))"
    and "refines G l h (map_option (\<lambda>(r, s). (r, None, s)) (insertNodeAsc al l h d))
      (asc_spec (compareFunc l) (fst (alloc_next al)) ds d)"
proof -
  obtain ok al' where al: "alloc_next al = (ok, al')" by fastforce
  show "refines G l h (map_option (\<lambda>(r, s). (r, None, s)) (insertNodePrior al l h d))
      (insert_spec (fst (alloc_next al)) ds (d # ds))"
  proof (cases ok)
    case True
    then show ?thesis using prior_ok [OF rep, of al al' d] al by (auto simp: insert_spec_def intro: refinesI)
  next
    case False
    then show ?thesis using rep al by (auto simp: insertNodePrior_def insert_spec_def intro: refinesI)
  qed
  show "refines G l h (map_option (\<lambda>(r, s). (r, None, s)) (appendNode al l h d))
      (insert_spec (fst (alloc_next al)) ds (ds @ [d]))"
  proof (cases ok)
    case True
    then show ?thesis using append_ok [OF rep, of al al' d] al by (auto simp: insert_spec_def intro: refinesI)
  next
    case False
    then show ?thesis using rep al by (auto simp: appendNode_def insert_spec_def intro: refinesI)
  qed
  show "refines G l h (map_option (\<lambda>(r, s). (r, None, s)) (insertNodeAsc al l h d))
      (asc_spec (compareFunc l) (fst (alloc_next al)) ds d)"
  proof (cases "compareFunc l")
    case None
    then show ?thesis using rep by (auto simp: insertNodeAsc_def asc_spec_def intro: refinesI)
  next
    case (Some cmp)
    show ?thesis
    proof (cases ok)
      case True
      then show ?thesis
        using asc_ok [OF rep _ Some, of al al' d] al Some by (auto simp: asc_spec_def insert_spec_def intro: refinesI)
    next
      case False
      then show ?thesis using rep al Some by (auto simp: insertNodeAsc_def asc_spec_def insert_spec_def intro: refinesI)
    qed
  qed
qed

lemma delete_refines:
  assumes rep: "chain_rep G l h as ds" and len: "int (length ds) \<le> INT_MAX"
  shows "refines G l h (map_option (\<lambda>(r, l, h). (r, None, l, h, al)) (deleteNode l h d every))
      (del_spec (compareFunc l) every (ctype l = CHAIN_TYPE_SORTED) ds d)"
proof (cases "compareFunc l")
  case None
  then show ?thesis using rep by (auto simp: deleteNode_def del_spec_def intro: refinesI)
next
  case (Some cmp)
  obtain n r f where D: "del_list cmp d every (ctype l = CHAIN_TYPE_SORTED) ds = (n, r, f)" by (metis prod_cases3)
  have "int (length as) \<le> INT_MAX" using len rep_length [OF rep] by simp
  then show ?thesis
    using chain_delete_loop_ok [of G l h "[]" as "[]" ds 0 cmp d every n r f] rep D Some rep_head [OF rep]
    by (auto simp: deleteNode_def del_spec_def intro: refinesI)
qed

lemma chain_refines_ok:
  assumes rep: "chain_rep G l h as ds" and len: "int (length ds) \<le> INT_MAX"
  shows "refines G l h (chain_exec c (l, h, al)) (chain_spec l (fst (alloc_next al)) ds c)"
proof (cases c)
  case (Add d)
  then show ?thesis
    using insert_refines [OF rep, of al d] by (auto simp: addNode_def)
next
  case PopHead
  obtain l' h' as' where "chain_pop_head l h = Some (if ds = [] then None else Some (hd ds), l', h')"
      "chain_rep G l' h' as' (tl ds)" "same_list l l'" "freed h' = freed h"
    using pop_head_ok [OF rep] by blast
  then show ?thesis using PopHead by (auto intro!: refinesI)
next
  case Count
  have "chain_count l h = Some (int (length ds))"
    using chain_count_loop_ok [OF chain_repD(1) [OF rep], of 0] len rep_length [OF rep] by (simp add: chain_count_def)
  then show ?thesis using Count rep by (auto intro!: refinesI)
next
  case Destroy
  obtain l' h' where "chain_destroy l h = Some (l', h')" "chain_rep G l' h' [] []" "same_list l l'"
      "freed h' = freed h @ free_log l ds"
    using destroy_ok [OF rep] by blast
  then show ?thesis using Destroy by (auto intro!: refinesI)
qed (use insert_refines [OF rep, of al] delete_refines [OF rep len, of al] in
    \<open>simp_all add: deleteOne_def deleteAll_def\<close>)

section \<open>Sorted chains\<close>

definition sorted_le :: "('d \<Rightarrow> 'd \<Rightarrow> int) \<Rightarrow> 'd list \<Rightarrow> bool" where
  "sorted_le cmp = sorted_wrt (\<lambda>x y. cmp x y \<le> 0)"

context comparator
begin

lemma asc_sorted:
  assumes "sorted_le cmp ds"
  shows "sorted_le cmp (takeWhile (\<lambda>x. cmp x d < 0) ds @ d # dropWhile (\<lambda>x. cmp x d < 0) ds)"
  using assms
proof (induction ds)
  case (Cons x ds)
  show ?case
  proof (cases "cmp x d < 0")
    case True
    have "set (takeWhile (\<lambda>x. cmp x d < 0) ds @ d # dropWhile (\<lambda>x. cmp x d < 0) ds) \<subseteq> insert d (set ds)"
      by (auto dest: set_takeWhileD set_dropWhileD)
    then show ?thesis using Cons True by (auto simp: sorted_le_def)
  next
    case False
    then have "cmp d x \<le> 0" using cmp_swap [of x d] cmp_eq_sym [of x d] by linarith
    then show ?thesis using Cons.prems False cmp_trans [of d x] by (auto simp: sorted_le_def)
  qed
qed (simp add: sorted_le_def)

lemma del_sorted_all:
  assumes "sorted_le cmp ds"
  shows "del_list cmp d True srt ds =
    (length (filter (\<lambda>x. cmp x d = 0) ds), filter (\<lambda>x. cmp x d \<noteq> 0) ds, filter (\<lambda>x. cmp x d = 0) ds)"
  using assms
proof (induction ds)
  case (Cons x ds)
  show ?case
  proof (cases "0 < cmp x d")
    case True
    have "cmp y d \<noteq> 0" if "y \<in> set ds" for y
    proof
      assume "cmp y d = 0"
      then have "cmp x d \<le> 0" using Cons.prems that cmp_trans [of x y d] by (auto simp: sorted_le_def)
      with True show False by simp
    qed
    then have "filter (\<lambda>x. cmp x d = 0) ds = []" "filter (\<lambda>x. cmp x d \<noteq> 0) ds = ds"
      by (auto simp: filter_empty_conv filter_id_conv)
    then show ?thesis using True Cons by (auto simp: sorted_le_def)
  qed (use Cons in \<open>auto simp: sorted_le_def\<close>)
qed simp

lemma del_sorted_sorted:
  assumes "sorted_le cmp ds" "del_list cmp d every srt ds = (n, r, f)"
  shows "sorted_le cmp r \<and> mset ds = mset r + mset f \<and> n = length f \<and> (every \<or> n \<le> 1)"
  using assms
proof (induction ds arbitrary: n r f)
  case (Cons x ds)
  have s: "sorted_le cmp ds" "\<forall>y \<in> set ds. cmp x y \<le> 0" using Cons.prems(1) by (simp_all add: sorted_le_def)
  obtain n1 r1 f1 where D: "del_list cmp d every srt ds = (n1, r1, f1)" by (metis prod_cases3)
  note IH = Cons.IH [OF s(1) D]
  then have "set r1 \<subseteq> set ds" by (metis mset_subset_eq_add_left set_mset_mono set_mset_mset)
  then have "\<forall>y \<in> set r1. cmp x y \<le> 0" using s(2) by blast
  then show ?case
    using Cons.prems(2) D IH s by (auto simp: sorted_le_def split: if_splits)
qed (simp add: sorted_le_def)

end

text \<open>
  The comparison function that the test programs of the repository pass to their ordered containers
  (\<open>tests/test_skiplist_set.c\<close>), for numbers whose difference fits an \<open>int\<close>.
\<close>

definition compare_func :: "int \<Rightarrow> int \<Rightarrow> int" where
  "compare_func x y = x - y"

interpretation int_order: comparator compare_func
  by unfold_locales (auto simp: compare_func_def)

section \<open>Properties\<close>

text \<open>
  C8: Every operation of a chain that starts in a well-formed heap returns, touches no node of the
  rest of the heap, leaks none and uses none after it was freed, and does to the data what the
  corresponding list operation does: insertion in front, at the end or in ascending position,
  deletion of one or all equal elements with their number as result, \<open>pop\<close>, \<open>count\<close>, \<open>destroy\<close>,
  and the error codes when there is no memory or no comparison function.
\<close>

theorem chain_refines:
  assumes "chain_rep G l h as ds" "int (length ds) \<le> INT_MAX"
    and "chain_spec l (fst (alloc_next al)) ds c = (r, x, ds', fr)"
  shows "\<exists>l' h' al' as'. chain_exec c (l, h, al) = Some (r, x, l', h', al') \<and> chain_rep G l' h' as' ds' \<and>
    freed h' = freed h @ (if freeDataFunc l then fr else [])"
  using chain_refines_ok [OF assms(1,2), of c al] assms(3) by (auto simp: refines_def free_log_def)

definition empty_heap :: "'d chain_heap" where
  "empty_heap = \<lparr>cells = (\<lambda>a. None), fresh = 1, freed = []\<rparr>"

lemma empty_rep: "chain_rep (\<lambda>a. None) (chain_init t f c) empty_heap [] []"
  by (simp add: chain_rep_def chain_init_def empty_heap_def)

theorem chain_refines_witness:
  "\<exists>l' h' al' as'. chain_exec (Add 5) (chain_init 2 True (Some compare_func), empty_heap, []) = Some (0, None, l', h', al') \<and>
     chain_rep (\<lambda>a. None) l' h' as' [5]"
  using chain_refines [OF empty_rep, of 2 True "Some compare_func" "[]" "Add 5" 0 None "[5]" "[]"]
  by (auto simp: chain_init_def CHAIN_TYPE_INSERT_def CHAIN_TYPE_APPEND_def asc_spec_def insert_spec_def INT_MAX_def)

text \<open>
  C21: A chain of type SORTED whose comparison function is a comparator stays sorted: \<open>addNode\<close>
  inserts in order, \<open>deleteAll\<close> removes exactly the equal elements and returns their number,
  although it stops at the first greater one, and \<open>deleteOne\<close> removes at most one.
\<close>

theorem chain_sorted:
  assumes "comparator cmp" "chain_rep G l h as ds" "sorted_le cmp ds" "int (length ds) \<le> INT_MAX"
    and "ctype l = CHAIN_TYPE_SORTED" "compareFunc l = Some cmp" "fst (alloc_next al)"
  shows "\<exists>l1 h1 al1 as1 ds1 l2 h2 as2 n l3 h3 as3 ds3.
    addNode al l h d = Some (0, l1, h1, al1) \<and> chain_rep G l1 h1 as1 ds1 \<and> sorted_le cmp ds1 \<and>
      mset ds1 = add_mset d (mset ds) \<and>
    deleteAll l h d = Some (int (length (filter (\<lambda>x. cmp x d = 0) ds)), l2, h2) \<and>
      chain_rep G l2 h2 as2 (filter (\<lambda>x. cmp x d \<noteq> 0) ds) \<and>
    deleteOne l h d = Some (int n, l3, h3) \<and> chain_rep G l3 h3 as3 ds3 \<and> sorted_le cmp ds3 \<and>
      n \<le> 1 \<and> length ds = length ds3 + n"
proof -
  let ?ds1 = "takeWhile (\<lambda>x. cmp x d < 0) ds @ d # dropWhile (\<lambda>x. cmp x d < 0) ds"
  have t: "ctype l \<noteq> CHAIN_TYPE_INSERT" "ctype l \<noteq> CHAIN_TYPE_APPEND"
    using assms(5) by (simp_all add: CHAIN_TYPE_SORTED_def CHAIN_TYPE_INSERT_def CHAIN_TYPE_APPEND_def)
  have "refines G l h (chain_exec (Add d) (l, h, al)) (0, None, ?ds1, [])"
    using chain_refines_ok [OF assms(2,4), of "Add d" al] t assms(6,7) by (simp add: asc_spec_def insert_spec_def)
  then obtain l1 h1 al1 as1 where 1: "addNode al l h d = Some (0, l1, h1, al1)" "chain_rep G l1 h1 as1 ?ds1"
    by (auto simp: refines_def)
  have "refines G l h (chain_exec (DelAll d) (l, h, al))
      (int (length (filter (\<lambda>x. cmp x d = 0) ds)), None, filter (\<lambda>x. cmp x d \<noteq> 0) ds, filter (\<lambda>x. cmp x d = 0) ds)"
    using chain_refines_ok [OF assms(2,4), of "DelAll d" al] assms(6)
    by (simp add: del_spec_def comparator.del_sorted_all [OF assms(1,3)])
  then obtain l2 h2 as2 where 2: "deleteAll l h d = Some (int (length (filter (\<lambda>x. cmp x d = 0) ds)), l2, h2)"
      "chain_rep G l2 h2 as2 (filter (\<lambda>x. cmp x d \<noteq> 0) ds)"
    by (auto simp: refines_def)
  obtain n r f where D: "del_list cmp d False True ds = (n, r, f)" by (metis prod_cases3)
  have "refines G l h (chain_exec (DelOne d) (l, h, al)) (int n, None, r, f)"
    using chain_refines_ok [OF assms(2,4), of "DelOne d" al] assms(5,6) D by (simp add: del_spec_def)
  then obtain l3 h3 as3 where 3: "deleteOne l h d = Some (int n, l3, h3)" "chain_rep G l3 h3 as3 r"
    by (auto simp: refines_def)
  have S: "sorted_le cmp r" "mset ds = mset r + mset f" "n = length f" "n \<le> 1"
    using comparator.del_sorted_sorted [OF assms(1,3) D] by auto
  then have "length ds = length r + n" by (metis size_mset size_union)
  moreover have "mset ds = mset (takeWhile (\<lambda>x. cmp x d < 0) ds) + mset (dropWhile (\<lambda>x. cmp x d < 0) ds)"
    by (simp flip: mset_append)
  then have "mset ?ds1 = add_mset d (mset ds)" by simp
  ultimately show ?thesis using 1 2 3 S(1,4) comparator.asc_sorted [OF assms(1,3), of d] by blast
qed

theorem chain_sorted_witness:
  "\<exists>l1 h1 al1 as1 ds1. addNode [] (chain_init 2 True (Some compare_func)) empty_heap 7 = Some (0, l1, h1, al1) \<and>
     chain_rep (\<lambda>a. None) l1 h1 as1 ds1 \<and> sorted_le compare_func ds1 \<and> mset ds1 = {#7#}"
  using chain_sorted [OF int_order.comparator_axioms empty_rep, of 2 True "Some compare_func" "[]" 7]
  by (auto simp: sorted_le_def chain_init_def CHAIN_TYPE_SORTED_def INT_MAX_def)

text \<open>
  \<open>deleteToNodePrevious\<close> cuts out the nodes between \<open>pPreviousNode\<close> (or the head, for NULL) and
  \<open>pDeletedNext\<close> (or the end, for NULL) and frees exactly these, in order.
\<close>

theorem chain_cut:
  assumes "chain_rep G l h (pre @ mid @ suf) (ds1 @ ds2 @ ds3)" "length ds1 = length pre" "length ds2 = length mid"
  shows "\<exists>l' h'. deleteToNodePrevious l h (last_ptr pre) (if suf = [] then None else Some (hd suf)) = Some (l', h') \<and>
    chain_rep G l' h' (pre @ suf) (ds1 @ ds3) \<and> freed h' = freed h @ (if freeDataFunc l then ds2 else [])"
  using cut_ok [OF assms] by (auto simp: free_log_def)

definition three_heap :: "int chain_heap" where
  "three_heap = \<lparr>cells = [1 \<mapsto> \<lparr>ndata = 10, nnext = Some 2\<rparr>, 2 \<mapsto> \<lparr>ndata = 20, nnext = Some 3\<rparr>,
     3 \<mapsto> \<lparr>ndata = 30, nnext = None\<rparr>], fresh = 4, freed = []\<rparr>"

definition three_list :: "int chain_list" where
  "three_list = \<lparr>ctype = 1, chead = Some 1, ctail = Some 3, freeDataFunc = True, compareFunc = None\<rparr>"

theorem chain_cut_witness:
  "\<exists>l' h'. deleteToNodePrevious three_list three_heap (Some 1) None = Some (l', h') \<and>
     chain_rep (\<lambda>a. None) l' h' [1] [10] \<and> freed h' = [20, 30]"
proof -
  have "chain_rep (\<lambda>a. None) three_list three_heap ([1] @ [2, 3] @ []) ([10] @ [20, 30] @ [])"
    by (auto simp: chain_rep_def three_heap_def three_list_def dat_def last_ptr_def)
  from chain_cut [OF this] show ?thesis by (simp add: last_ptr_def three_list_def three_heap_def)
qed

end
