(* ===== verification/HashFunc.thy ===== *)
theory HashFunc
  imports CPrelude
begin

text \<open>
  The hash functions of \<open>fastcommon/src/hash.c\<close>. A key is the list of its \<open>key_len\<close> bytes. An \<open>int\<close> is a
  32-bit word and an \<open>int64_t\<close> a 64-bit word in two's complement: the functions are written for
  arithmetic that wraps around, and \<open>>>\<close> of a signed value is the arithmetic shift
  (\<open>signed_drop_bit\<close>), as gcc compiles them. A function with the suffix \<open>_ex\<close> continues from the hash of the bytes
  before.
\<close>

section \<open>The functions\<close>

fun RSHash_loop :: "u32 \<Rightarrow> u32 \<Rightarrow> bytes \<Rightarrow> u32" where
  "RSHash_loop a hash [] = hash"
| "RSHash_loop a hash (c # cs) = RSHash_loop (a * 378551) (hash * a + ucast c) cs"

definition RSHash :: "bytes \<Rightarrow> u32" where
  "RSHash key = RSHash_loop 63689 0 key"

fun JSHash_ex :: "bytes \<Rightarrow> u32 \<Rightarrow> u32" where
  "JSHash_ex [] hash = hash"
| "JSHash_ex (c # cs) hash =
     JSHash_ex cs (hash XOR ((push_bit 5 hash + ucast c) + signed_drop_bit 2 hash))"

definition JSHash :: "bytes \<Rightarrow> u32" where
  "JSHash key = JSHash_ex key 1315423911"

definition BITS_IN_UNIGNED_INT :: nat where
  "BITS_IN_UNIGNED_INT = 4 * 8"

definition THREE_QUARTERS :: nat where
  "THREE_QUARTERS = (BITS_IN_UNIGNED_INT * 3) div 4"

definition HASH_ONE_EIGHTH :: nat where
  "HASH_ONE_EIGHTH = BITS_IN_UNIGNED_INT div 8"

definition HASH_HIGH_BITS :: u32 where
  "HASH_HIGH_BITS = push_bit (BITS_IN_UNIGNED_INT - HASH_ONE_EIGHTH) 0xFFFFFFFF"

definition pjw_step :: "u32 \<Rightarrow> u8 \<Rightarrow> u32" where
  "pjw_step hash c =
     (let hash = push_bit HASH_ONE_EIGHTH hash + ucast c;
          test = hash AND HASH_HIGH_BITS in
      if test \<noteq> 0 then (hash XOR signed_drop_bit THREE_QUARTERS test) AND NOT HASH_HIGH_BITS
      else hash)"

fun PJWHash_ex :: "bytes \<Rightarrow> u32 \<Rightarrow> u32" where
  "PJWHash_ex [] hash = hash"
| "PJWHash_ex (c # cs) hash = PJWHash_ex cs (pjw_step hash c)"

definition PJWHash :: "bytes \<Rightarrow> u32" where
  "PJWHash key = PJWHash_ex key 0"

definition elf_step :: "u32 \<Rightarrow> u8 \<Rightarrow> u32" where
  "elf_step hash c =
     (let hash = push_bit 4 hash + ucast c;
          x = hash AND 0xF0000000 in
      if x \<noteq> 0 then (hash XOR signed_drop_bit 24 x) AND NOT x
      else hash)"

fun ELFHash_ex :: "bytes \<Rightarrow> u32 \<Rightarrow> u32" where
  "ELFHash_ex [] hash = hash"
| "ELFHash_ex (c # cs) hash = ELFHash_ex cs (elf_step hash c)"

definition ELFHash :: "bytes \<Rightarrow> u32" where
  "ELFHash key = ELFHash_ex key 0"

fun BKDRHash_ex :: "bytes \<Rightarrow> u32 \<Rightarrow> u32" where
  "BKDRHash_ex [] hash = hash"
| "BKDRHash_ex (c # cs) hash = BKDRHash_ex cs (hash * 131 + ucast c)"

definition BKDRHash :: "bytes \<Rightarrow> u32" where
  "BKDRHash key = BKDRHash_ex key 0"

fun SDBMHash_ex :: "bytes \<Rightarrow> u32 \<Rightarrow> u32" where
  "SDBMHash_ex [] hash = hash"
| "SDBMHash_ex (c # cs) hash =
     SDBMHash_ex cs (ucast c + push_bit 6 hash + push_bit 16 hash - hash)"

definition SDBMHash :: "bytes \<Rightarrow> u32" where
  "SDBMHash key = SDBMHash_ex key 0"

fun Time33Hash_ex :: "bytes \<Rightarrow> u32 \<Rightarrow> u32" where
  "Time33Hash_ex [] nHash = nHash"
| "Time33Hash_ex (c # cs) nHash = Time33Hash_ex cs (nHash + (push_bit 5 nHash + ucast c))"

definition Time33Hash :: "bytes \<Rightarrow> u32" where
  "Time33Hash key = Time33Hash_ex key 0"

fun DJBHash_ex :: "bytes \<Rightarrow> u32 \<Rightarrow> u32" where
  "DJBHash_ex [] hash = hash"
| "DJBHash_ex (c # cs) hash = DJBHash_ex cs (hash + (push_bit 5 hash + ucast c))"

definition DJBHash :: "bytes \<Rightarrow> u32" where
  "DJBHash key = DJBHash_ex key 5381"

definition ap_step :: "nat \<Rightarrow> u32 \<Rightarrow> u8 \<Rightarrow> u32" where
  "ap_step i hash c =
     (if i mod 2 = 0 then hash XOR (push_bit 7 hash XOR ucast c XOR signed_drop_bit 3 hash)
      else hash XOR NOT (push_bit 11 hash XOR ucast c XOR signed_drop_bit 5 hash))"

fun ap_loop :: "nat \<Rightarrow> bytes \<Rightarrow> u32 \<Rightarrow> u32" where
  "ap_loop i [] hash = hash"
| "ap_loop i (c # cs) hash = ap_loop (i + 1) cs (ap_step i hash c)"

definition APHash_ex :: "bytes \<Rightarrow> u32 \<Rightarrow> u32" where
  "APHash_ex key init_value = ap_loop 0 key init_value"

definition APHash :: "bytes \<Rightarrow> u32" where
  "APHash key = APHash_ex key 0"

fun calc_hashnr_loop :: "u32 \<Rightarrow> u32 \<Rightarrow> bytes \<Rightarrow> u32" where
  "calc_hashnr_loop nr nr2 [] = nr"
| "calc_hashnr_loop nr nr2 (c # cs) =
     calc_hashnr_loop (nr XOR ((((nr AND 63) + nr2) * ucast c) + push_bit 8 nr)) (nr2 + 3) cs"

definition calc_hashnr :: "bytes \<Rightarrow> u32" where
  "calc_hashnr key = calc_hashnr_loop 1 4 key"

fun calc_hashnr1_ex :: "bytes \<Rightarrow> u32 \<Rightarrow> u32" where
  "calc_hashnr1_ex [] hash = hash"
| "calc_hashnr1_ex (c # cs) hash = calc_hashnr1_ex cs ((hash * 16777619) XOR ucast c)"

definition calc_hashnr1 :: "bytes \<Rightarrow> u32" where
  "calc_hashnr1 key = calc_hashnr1_ex key 0"

fun simple_hash_ex :: "bytes \<Rightarrow> u32 \<Rightarrow> u32" where
  "simple_hash_ex [] h = h"
| "simple_hash_ex (c # cs) h = simple_hash_ex cs (31 * h + ucast c)"

definition simple_hash :: "bytes \<Rightarrow> u32" where
  "simple_hash key = simple_hash_ex key 0"

definition crc_table :: "u32 list" where
  "crc_table =
    [0x00000000, 0x77073096, 0xEE0E612C, 0x990951BA, 0x076DC419, 0x706AF48F, 0xE963A535, 0x9E6495A3,
     0x0EDB8832, 0x79DCB8A4, 0xE0D5E91E, 0x97D2D988, 0x09B64C2B, 0x7EB17CBD, 0xE7B82D07, 0x90BF1D91,
     0x1DB71064, 0x6AB020F2, 0xF3B97148, 0x84BE41DE, 0x1ADAD47D, 0x6DDDE4EB, 0xF4D4B551, 0x83D385C7,
     0x136C9856, 0x646BA8C0, 0xFD62F97A, 0x8A65C9EC, 0x14015C4F, 0x63066CD9, 0xFA0F3D63, 0x8D080DF5,
     0x3B6E20C8, 0x4C69105E, 0xD56041E4, 0xA2677172, 0x3C03E4D1, 0x4B04D447, 0xD20D85FD, 0xA50AB56B,
     0x35B5A8FA, 0x42B2986C, 0xDBBBC9D6, 0xACBCF940, 0x32D86CE3, 0x45DF5C75, 0xDCD60DCF, 0xABD13D59,
     0x26D930AC, 0x51DE003A, 0xC8D75180, 0xBFD06116, 0x21B4F4B5, 0x56B3C423, 0xCFBA9599, 0xB8BDA50F,
     0x2802B89E, 0x5F058808, 0xC60CD9B2, 0xB10BE924, 0x2F6F7C87, 0x58684C11, 0xC1611DAB, 0xB6662D3D,
     0x76DC4190, 0x01DB7106, 0x98D220BC, 0xEFD5102A, 0x71B18589, 0x06B6B51F, 0x9FBFE4A5, 0xE8B8D433,
     0x7807C9A2, 0x0F00F934, 0x9609A88E, 0xE10E9818, 0x7F6A0DBB, 0x086D3D2D, 0x91646C97, 0xE6635C01,
     0x6B6B51F4, 0x1C6C6162, 0x856530D8, 0xF262004E, 0x6C0695ED, 0x1B01A57B, 0x8208F4C1, 0xF50FC457,
     0x65B0D9C6, 0x12B7E950, 0x8BBEB8EA, 0xFCB9887C, 0x62DD1DDF, 0x15DA2D49, 0x8CD37CF3, 0xFBD44C65,
     0x4DB26158, 0x3AB551CE, 0xA3BC0074, 0xD4BB30E2, 0x4ADFA541, 0x3DD895D7, 0xA4D1C46D, 0xD3D6F4FB,
     0x4369E96A, 0x346ED9FC, 0xAD678846, 0xDA60B8D0, 0x44042D73, 0x33031DE5, 0xAA0A4C5F, 0xDD0D7CC9,
     0x5005713C, 0x270241AA, 0xBE0B1010, 0xC90C2086, 0x5768B525, 0x206F85B3, 0xB966D409, 0xCE61E49F,
     0x5EDEF90E, 0x29D9C998, 0xB0D09822, 0xC7D7A8B4, 0x59B33D17, 0x2EB40D81, 0xB7BD5C3B, 0xC0BA6CAD,
     0xEDB88320, 0x9ABFB3B6, 0x03B6E20C, 0x74B1D29A, 0xEAD54739, 0x9DD277AF, 0x04DB2615, 0x73DC1683,
     0xE3630B12, 0x94643B84, 0x0D6D6A3E, 0x7A6A5AA8, 0xE40ECF0B, 0x9309FF9D, 0x0A00AE27, 0x7D079EB1,
     0xF00F9344, 0x8708A3D2, 0x1E01F268, 0x6906C2FE, 0xF762575D, 0x806567CB, 0x196C3671, 0x6E6B06E7,
     0xFED41B76, 0x89D32BE0, 0x10DA7A5A, 0x67DD4ACC, 0xF9B9DF6F, 0x8EBEEFF9, 0x17B7BE43, 0x60B08ED5,
     0xD6D6A3E8, 0xA1D1937E, 0x38D8C2C4, 0x4FDFF252, 0xD1BB67F1, 0xA6BC5767, 0x3FB506DD, 0x48B2364B,
     0xD80D2BDA, 0xAF0A1B4C, 0x36034AF6, 0x41047A60, 0xDF60EFC3, 0xA867DF55, 0x316E8EEF, 0x4669BE79,
     0xCB61B38C, 0xBC66831A, 0x256FD2A0, 0x5268E236, 0xCC0C7795, 0xBB0B4703, 0x220216B9, 0x5505262F,
     0xC5BA3BBE, 0xB2BD0B28, 0x2BB45A92, 0x5CB36A04, 0xC2D7FFA7, 0xB5D0CF31, 0x2CD99E8B, 0x5BDEAE1D,
     0x9B64C2B0, 0xEC63F226, 0x756AA39C, 0x026D930A, 0x9C0906A9, 0xEB0E363F, 0x72076785, 0x05005713,
     0x95BF4A82, 0xE2B87A14, 0x7BB12BAE, 0x0CB61B38, 0x92D28E9B, 0xE5D5BE0D, 0x7CDCEFB7, 0x0BDBDF21,
     0x86D3D2D4, 0xF1D4E242, 0x68DDB3F8, 0x1FDA836E, 0x81BE16CD, 0xF6B9265B, 0x6FB077E1, 0x18B74777,
     0x88085AE6, 0xFF0F6A70, 0x66063BCA, 0x11010B5C, 0x8F659EFF, 0xF862AE69, 0x616BFFD3, 0x166CCF45,
     0xA00AE278, 0xD70DD2EE, 0x4E048354, 0x3903B3C2, 0xA7672661, 0xD06016F7, 0x4969474D, 0x3E6E77DB,
     0xAED16A4A, 0xD9D65ADC, 0x40DF0B66, 0x37D83BF0, 0xA9BCAE53, 0xDEBB9EC5, 0x47B2CF7F, 0x30B5FFE9,
     0xBDBDF21C, 0xCABAC28A, 0x53B39330, 0x24B4A3A6, 0xBAD03605, 0xCDD70693, 0x54DE5729, 0x23D967BF,
     0xB3667A2E, 0xC4614AB8, 0x5D681B02, 0x2A6F2B94, 0xB40BBE37, 0xC30C8EA1, 0x5A05DF1B, 0x2D02EF8D]"

definition crc32_step :: "u64 \<Rightarrow> u8 \<Rightarrow> u64" where
  "crc32_step crc c = ucast (crc_table ! unat ((crc XOR ucast c) AND 0xFF)) XOR signed_drop_bit 8 crc"

fun CRC32_ex :: "bytes \<Rightarrow> u64 \<Rightarrow> u64" where
  "CRC32_ex [] crc = crc"
| "CRC32_ex (c # cs) crc = CRC32_ex cs (crc32_step crc c)"

definition CRC32_XINIT :: u64 where
  "CRC32_XINIT = 0xFFFFFFFF"

definition CRC32_XOROT :: u64 where
  "CRC32_XOROT = 0xFFFFFFFF"

definition CRC32_FINAL :: "u64 \<Rightarrow> u64" where
  "CRC32_FINAL crc = crc XOR CRC32_XOROT"

definition CRC32 :: "bytes \<Rightarrow> u32" where
  "CRC32 key = ucast (CRC32_ex key CRC32_XINIT XOR CRC32_XOROT)"

lemma crc_table_length [simp]: "length crc_table = 256"
  unfolding crc_table_def by code_simp

section \<open>The table-driven checksum is the bitwise one\<close>

text \<open>
  The reference: one step of the shift register of the reflected polynomial \<open>0xEDB88320\<close> per message bit, the least
  significant bit of each byte first.
\<close>

definition crc_bit :: "u32 \<Rightarrow> u32" where
  "crc_bit s = (if bit s 0 then drop_bit 1 s XOR 0xEDB88320 else drop_bit 1 s)"

definition crc_bits :: "nat \<Rightarrow> u32 \<Rightarrow> u32" where
  "crc_bits n = crc_bit ^^ n"

definition crc_byte :: "u32 \<Rightarrow> u8 \<Rightarrow> u32" where
  "crc_byte s c = crc_bits 8 (s XOR ucast c)"

definition crc_ref :: "bytes \<Rightarrow> u32" where
  "crc_ref key = NOT (foldl crc_byte 0xFFFFFFFF key)"

lemma crc_bit_xor: "crc_bit (a XOR b) = crc_bit a XOR crc_bit b"
  by (auto simp: crc_bit_def bit_xor_iff ac_simps)

lemma crc_bit_0 [simp]: "crc_bit 0 = 0"
  by (simp add: crc_bit_def)

lemma crc_bits_simps [simp]:
  "crc_bits 0 s = s" "crc_bits (Suc n) s = crc_bit (crc_bits n s)"
  by (simp_all add: crc_bits_def)

lemma crc_bits_add: "crc_bits (m + n) s = crc_bits m (crc_bits n s)"
  by (simp add: crc_bits_def funpow_add)

lemma crc_bits_xor: "crc_bits n (a XOR b) = crc_bits n a XOR crc_bits n b"
  by (induction n) (simp_all add: crc_bit_xor)

lemma crc_bits_zero [simp]: "crc_bits n 0 = 0"
  by (induction n) simp_all

lemma bit_word_beyond: "LENGTH('a) \<le> n \<Longrightarrow> \<not> bit (w :: 'a :: len word) n"
  by (auto dest: bit_imp_le_length)

text \<open>No two states have the same successor: the bit shifted out is the top bit of the result.\<close>

lemma crc_bit_eq_0: "crc_bit s = 0 \<Longrightarrow> s = 0"
proof -
  assume z: "crc_bit s = 0"
  have "bit (crc_bit s) 31 = bit s 0"
    by (simp add: crc_bit_def bit_xor_iff bit_drop_bit_eq bit_word_beyond)
  then have b: "\<not> bit s 0" using z by simp
  with z have "drop_bit 1 s = 0" by (simp add: crc_bit_def)
  then have "\<not> bit (drop_bit 1 s) n" for n by simp
  then have "\<not> bit s (Suc n)" for n by (simp add: bit_drop_bit_eq)
  with b have "\<not> bit s n" for n by (cases n) auto
  then show "s = 0" by (intro bit_eqI) simp
qed

lemma xor_eq_0_iff': "a XOR b = 0 \<longleftrightarrow> a = (b :: 'a :: len word)"
  by (auto simp: bit_eq_iff bit_xor_iff)

lemma crc_bit_inj: "crc_bit a = crc_bit b \<longleftrightarrow> a = b"
  using crc_bit_eq_0 [of "a XOR b"] by (auto simp: crc_bit_xor xor_eq_0_iff')

lemma crc_bits_inj: "crc_bits n a = crc_bits n b \<longleftrightarrow> a = b"
  by (induction n) (simp_all add: crc_bit_inj)

text \<open>As long as only zeros are shifted out, the register shifts.\<close>

lemma crc_bits_shift: "take_bit n s = 0 \<Longrightarrow> crc_bits n s = drop_bit n s"
proof (induction n)
  case (Suc n)
  have "take_bit n s = take_bit n (take_bit (Suc n) s)" by simp
  with Suc have t: "crc_bits n s = drop_bit n s" by simp
  have "\<not> bit (take_bit (Suc n) s) n" using Suc.prems by simp
  then have "\<not> bit s n" by (simp add: bit_take_bit_iff)
  then show ?case by (simp add: t crc_bit_def bit_drop_bit_eq)
qed simp

lemma crc_bits_split: "crc_bits n s = crc_bits n (take_bit n s) XOR drop_bit n s"
proof -
  define h where "h = push_bit n (drop_bit n s)"
  have s: "s = take_bit n s XOR h"
    by (rule bit_eqI) (auto simp: h_def bit_xor_iff bit_take_bit_iff bit_push_bit_iff bit_drop_bit_eq)
  have "take_bit n h = 0" by (simp add: h_def take_bit_push_bit)
  then have "crc_bits n h = drop_bit n h" by (rule crc_bits_shift)
  also have "drop_bit n h = drop_bit n s"
    by (rule bit_eqI) (auto simp: h_def bit_drop_bit_eq bit_push_bit_iff dest: bit_imp_le_length)
  finally show ?thesis using s by (metis crc_bits_xor)
qed

subsection \<open>The table\<close>

fun evens :: "'a list \<Rightarrow> 'a list" where
  "evens (x # y # zs) = x # evens zs"
| "evens zs = zs"

fun odds :: "'a list \<Rightarrow> 'a list" where
  "odds (x # y # zs) = y # odds zs"
| "odds zs = []"

lemma evens_nth: "2 * i + 1 < length xs \<Longrightarrow> i < length (evens xs) \<and> evens xs ! i = xs ! (2 * i)"
proof (induction xs arbitrary: i rule: evens.induct)
  case (1 x y zs)
  then show ?case by (cases i) auto
qed auto

lemma odds_nth: "2 * i + 1 < length xs \<Longrightarrow> i < length (odds xs) \<and> odds xs ! i = xs ! (2 * i + 1)"
proof (induction xs arbitrary: i rule: odds.induct)
  case (1 x y zs)
  then show ?case by (cases i) auto
qed auto

lemma crc_table_halves:
  "map crc_bit (evens crc_table) = take 128 crc_table"
  unfolding crc_table_def crc_bit_def by code_simp

lemma crc_table_odds:
  "odds crc_table = map (\<lambda>x. x XOR crc_table ! 1) (evens crc_table)"
  unfolding crc_table_def by code_simp

lemma crc_table_0_1: "crc_table ! 0 = 0" "crc_table ! 1 = crc_bits 8 1"
  unfolding crc_table_def crc_bits_def crc_bit_def by code_simp+

lemma crc_table_nth_even: "j < 128 \<Longrightarrow> crc_table ! j = crc_bit (crc_table ! (2 * j))"
  using arg_cong [OF crc_table_halves, of "\<lambda>xs. xs ! j"] evens_nth [of j crc_table] by simp

lemma crc_table_nth_odd: "j < 128 \<Longrightarrow> crc_table ! (2 * j + 1) = crc_table ! (2 * j) XOR crc_table ! 1"
  using arg_cong [OF crc_table_odds, of "\<lambda>xs. xs ! j"] evens_nth [of j crc_table] odds_nth [of j crc_table]
  by simp

lemma crc_bits_double: "j < 128 \<Longrightarrow> crc_bit (of_nat (2 * j)) = of_nat j"
proof -
  assume j: "j < 128"
  have "\<not> bit (of_nat (2 * j) :: u32) 0" by (simp add: bit_0)
  moreover have "drop_bit 1 (of_nat (2 * j) :: u32) = of_nat j"
    using j by (simp add: word_unat_eq_iff unat_drop_bit_eq drop_bit_eq_div unat_of_nat unat_word_ariths)
  ultimately show ?thesis by (simp add: crc_bit_def)
qed

lemma crc_table_nth: "i < 256 \<Longrightarrow> crc_table ! i = crc_bits 8 (of_nat i)"
proof (induction i rule: less_induct)
  case (less i)
  have even: "crc_table ! (2 * j) = crc_bits 8 (of_nat (2 * j))" if "0 < 2 * j" "2 * j \<le> i" for j
  proof -
    have j: "j < 128" "j < i" using that less.prems by auto
    have "crc_bit (crc_table ! (2 * j)) = crc_bits 8 (of_nat j)"
      using less.IH [of j] j by (simp add: crc_table_nth_even)
    also have "\<dots> = crc_bits 8 (crc_bit (of_nat (2 * j)))" using j by (simp only: crc_bits_double)
    also have "\<dots> = crc_bit (crc_bits 8 (of_nat (2 * j)))"
      using crc_bits_add [of 8 1] crc_bits_add [of 1 8] by simp
    finally show ?thesis by (simp only: crc_bit_inj)
  qed
  consider "i = 0" | j where "i = 2 * j" "0 < 2 * j" | j where "i = 2 * j + 1"
    by (metis oddE evenE gr0I)
  then show ?case
  proof cases
    case 3
    have e: "crc_table ! (2 * j) = crc_bits 8 (of_nat (2 * j))"
      using even [of j] 3 by (cases "j = 0") (auto simp: crc_table_0_1)
    have "(of_nat (2 * j + 1) :: u32) = of_nat (2 * j) XOR 1"
      by (simp add: xor_one_eq even_mult_iff)
    then show ?thesis
      using 3 less.prems crc_table_nth_odd [of j] by (simp only: e crc_table_0_1 crc_bits_xor)
  qed (auto simp: crc_table_0_1 even)
qed


subsection \<open>The checksum\<close>

lemma take_bit_mask8: "x AND 0xFF = take_bit 8 (x :: u64)"
  by (simp add: take_bit_eq_mask mask_eq_decr_exp)

lemma crc32_step_ref: "crc32_step (ucast s) c = ucast (crc_byte s c)"
proof -
  define x where "x = s XOR ucast c"
  have i: "unat ((ucast s XOR ucast c :: u64) AND 0xFF) = unat (take_bit 8 x)"
    by (simp add: take_bit_mask8 x_def unsigned_take_bit_eq unsigned_xor_eq unsigned_ucast_eq take_bit_xor)
  have "unat (take_bit 8 x) < 256"
    by (subst unsigned_take_bit_eq) (simp_all add: take_bit_nat_eq_self_iff take_bit_nat_less_exp [of 8, simplified])
  then have t: "crc_table ! unat (take_bit 8 x) = crc_bits 8 (take_bit 8 x)"
    by (simp add: crc_table_nth)
  have d: "drop_bit 8 x = drop_bit 8 s"
    by (rule bit_eqI) (auto simp: x_def bit_drop_bit_eq bit_xor_iff bit_unsigned_iff dest: bit_imp_le_length)
  have h: "signed_drop_bit 8 (ucast s :: u64) = ucast (drop_bit 8 s)"
    by (rule bit_eqI) (auto simp: bit_signed_drop_bit_iff bit_drop_bit_eq bit_unsigned_iff dest: bit_imp_le_length)
  show ?thesis
    using crc_bits_split [of 8 x]
    by (simp add: crc32_step_def crc_byte_def i t h d unsigned_xor_eq flip: x_def)
qed

lemma CRC32_ex_ref: "CRC32_ex key (ucast s) = ucast (foldl crc_byte s key)"
  by (induction key arbitrary: s) (simp_all add: crc32_step_ref)

lemma CRC32_ref: "CRC32 key = crc_ref key"
proof -
  have "CRC32_XINIT = ucast (0xFFFFFFFF :: u32)" by (simp add: CRC32_XINIT_def)
  then have e: "CRC32_ex key CRC32_XINIT = ucast (foldl crc_byte 0xFFFFFFFF key)"
    by (metis CRC32_ex_ref)
  have x: "CRC32_XOROT = mask 32" by (simp add: CRC32_XOROT_def mask_eq_decr_exp)
  have "ucast (ucast w XOR CRC32_XOROT) = NOT w" for w :: u32
    unfolding x by (rule bit_eqI) (auto simp: bit_unsigned_iff bit_xor_iff bit_not_iff bit_mask_iff)
  then show ?thesis by (simp only: CRC32_def e crc_ref_def)
qed

subsection \<open>Errors that it detects\<close>

lemma xor_cancel: "a XOR b = a XOR c \<longleftrightarrow> b = (c :: u32)" "b XOR a = c XOR a \<longleftrightarrow> b = (c :: u32)"
  by (auto simp: bit_eq_iff bit_xor_iff)

lemma crc_byte_inj: "crc_byte s c = crc_byte t c \<longleftrightarrow> s = t"
  by (simp add: crc_byte_def crc_bits_inj xor_cancel)

lemma foldl_crc_byte_inj: "foldl crc_byte s cs = foldl crc_byte t cs \<longleftrightarrow> s = t"
  by (induction cs arbitrary: s t) (simp_all add: crc_byte_inj)

text \<open>Up to four bytes as a number, the first byte lowest.\<close>

fun le_word :: "bytes \<Rightarrow> u32" where
  "le_word [] = 0"
| "le_word (c # cs) = ucast c XOR push_bit 8 (le_word cs)"

lemma le_word_bits: "bit (le_word cs) n \<Longrightarrow> n < 8 * length cs"
proof (induction cs arbitrary: n)
  case (Cons c cs)
  show ?case
  proof (cases "n < 8")
    case False
    then have "bit (le_word cs) (n - 8)"
      using Cons.prems by (auto simp: bit_xor_iff bit_push_bit_iff bit_unsigned_iff dest: bit_imp_le_length)
    then show ?thesis using Cons.IH [of "n - 8"] False by simp
  qed simp
qed simp

lemma le_word_nth: "i < length cs \<Longrightarrow> length cs \<le> 4 \<Longrightarrow> cs ! i = ucast (drop_bit (8 * i) (le_word cs))"
proof (induction cs arbitrary: i)
  case (Cons c cs)
  show ?case
  proof (cases i)
    case 0
    show ?thesis
      unfolding 0 by (rule bit_eqI) (auto simp: bit_unsigned_iff bit_xor_iff bit_push_bit_iff)
  next
    case (Suc j)
    have "bit (le_word (c # cs)) (8 * i + n) = bit (le_word cs) (8 * j + n)" for n
      using Cons.prems le_word_bits [of cs "8 * j + n"] unfolding Suc
      by (auto simp: bit_xor_iff bit_push_bit_iff bit_unsigned_iff algebra_simps dest: bit_imp_le_length)
    then have "drop_bit (8 * i) (le_word (c # cs)) = drop_bit (8 * j) (le_word cs)"
      by (intro bit_eqI) (simp add: bit_drop_bit_eq del: le_word.simps drop_bit_xor)
    then show ?thesis using Cons Suc by simp
  qed
qed simp

lemma foldl_crc_byte_word:
  "length cs \<le> 4 \<Longrightarrow> foldl crc_byte s cs = crc_bits (8 * length cs) (s XOR le_word cs)"
proof (induction cs arbitrary: s)
  case (Cons c cs)
  have "drop_bit 8 (push_bit 8 (le_word cs)) = le_word cs"
    using Cons.prems le_word_bits [of cs]
    by (intro bit_eqI) (fastforce simp: bit_drop_bit_eq bit_push_bit_iff)
  then have "le_word cs = crc_bits 8 (push_bit 8 (le_word cs))"
    by (subst crc_bits_shift) (simp_all add: take_bit_push_bit)
  then have "crc_bits 8 (s XOR ucast c) XOR le_word cs = crc_bits 8 (s XOR le_word (c # cs))"
    by (simp add: crc_bits_xor ac_simps)
  then show ?case
    using Cons by (simp add: crc_byte_def crc_bits_add mult_Suc_right add.commute [of 8])
qed simp

lemma crc_ref_burst:
  assumes "length bs = length cs" "length cs \<le> 4" "bs \<noteq> cs"
  shows "crc_ref (pre @ bs @ post) \<noteq> crc_ref (pre @ cs @ post)"
proof
  assume "crc_ref (pre @ bs @ post) = crc_ref (pre @ cs @ post)"
  then have "foldl crc_byte (foldl crc_byte 0xFFFFFFFF pre) bs = foldl crc_byte (foldl crc_byte 0xFFFFFFFF pre) cs"
    by (simp add: crc_ref_def foldl_crc_byte_inj)
  then have "le_word bs = le_word cs"
    using assms by (simp add: foldl_crc_byte_word crc_bits_inj xor_cancel)
  then have "bs = cs"
    using assms le_word_nth by (intro nth_equalityI) metis+
  with assms show False by simp
qed

section \<open>Hashes in pieces\<close>

text \<open>A function with the suffix \<open>_ex\<close> hashes a key that arrives in pieces.\<close>

locale piecewise =
  fixes hash_ex :: "bytes \<Rightarrow> 'h \<Rightarrow> 'h"
  assumes empty: "hash_ex [] h = h"
    and step: "hash_ex (c # cs) h = hash_ex cs (hash_ex [c] h)"
begin

lemma pieces: "hash_ex (concat css) h = fold hash_ex css h"
proof -
  have app: "hash_ex (xs @ ys) h = hash_ex ys (hash_ex xs h)" for xs ys h
  proof (induction xs arbitrary: h)
    case (Cons c cs)
    then show ?case by (metis append_Cons step)
  qed (simp add: empty)
  show ?thesis by (induction css arbitrary: h) (simp_all add: app empty)
qed

end

interpretation js: piecewise JSHash_ex by unfold_locales simp_all
interpretation pjw: piecewise PJWHash_ex by unfold_locales simp_all
interpretation elf: piecewise ELFHash_ex by unfold_locales simp_all
interpretation bkdr: piecewise BKDRHash_ex by unfold_locales simp_all
interpretation sdbm: piecewise SDBMHash_ex by unfold_locales simp_all
interpretation time33: piecewise Time33Hash_ex by unfold_locales simp_all
interpretation djb: piecewise DJBHash_ex by unfold_locales simp_all
interpretation hashnr1: piecewise calc_hashnr1_ex by unfold_locales simp_all
interpretation simple: piecewise simple_hash_ex by unfold_locales simp_all
interpretation crc32: piecewise CRC32_ex by unfold_locales simp_all

text \<open>Five of the functions evaluate the key as a polynomial in a multiplier.\<close>

definition horner :: "u32 \<Rightarrow> bytes \<Rightarrow> u32 \<Rightarrow> u32" where
  "horner m key h = h * m ^ length key + (\<Sum>i<length key. ucast (key ! i) * m ^ (length key - 1 - i))"

lemma horner_Nil: "horner m [] h = h"
  by (simp add: horner_def)

lemma horner_Cons: "horner m (c # cs) h = horner m cs (h * m + ucast c)"
  by (simp add: horner_def sum.lessThan_Suc_shift algebra_simps del: sum.lessThan_Suc)

lemma BKDR_horner: "BKDRHash_ex key h = horner 131 key h"
  by (induction key arbitrary: h) (simp_all add: horner_Nil horner_Cons)

lemma simple_horner: "simple_hash_ex key h = horner 31 key h"
  by (induction key arbitrary: h) (simp_all add: horner_Nil horner_Cons mult.commute)

lemma shift_5: "h + (push_bit 5 h + c) = h * 33 + (c :: u32)"
  by (simp add: push_bit_eq_mult)

lemma Time33_horner: "Time33Hash_ex key h = horner 33 key h"
  by (induction key arbitrary: h) (simp_all add: horner_Nil horner_Cons shift_5)

lemma DJB_horner: "DJBHash_ex key h = horner 33 key h"
  by (induction key arbitrary: h) (simp_all add: horner_Nil horner_Cons shift_5)

lemma shift_6_16: "c + push_bit 6 h + push_bit 16 h - h = h * 65599 + (c :: u32)"
  by (simp add: push_bit_eq_mult)

lemma SDBM_horner: "SDBMHash_ex key h = horner 65599 key h"
  by (induction key arbitrary: h) (simp_all add: horner_Nil horner_Cons shift_6_16)

section \<open>PJW and ELF\<close>

lemma pjw_high: "HASH_HIGH_BITS = NOT (mask 28)" "HASH_ONE_EIGHTH = 4" "THREE_QUARTERS = 24"
  by (simp_all add: HASH_HIGH_BITS_def BITS_IN_UNIGNED_INT_def HASH_ONE_EIGHTH_def THREE_QUARTERS_def
      push_bit_eq_mult mask_eq_decr_exp)

lemma elf_high: "(0xF0000000 :: u32) = NOT (mask 28)"
  by (simp add: mask_eq_decr_exp)

lemma and_not_mask: "x AND mask 28 = take_bit 28 (x :: u32)"
  by (simp add: take_bit_eq_mask)

lemma high_0_iff: "x AND NOT (mask n) = 0 \<longleftrightarrow> take_bit n x = (x :: u32)"
  by (auto simp: bit_eq_iff bit_and_iff bit_not_iff bit_mask_iff bit_take_bit_iff) 

lemma pjw_step_take: "take_bit 28 (pjw_step h c) = pjw_step h c"
  by (auto simp: pjw_step_def Let_def pjw_high and_not_mask high_0_iff)

lemma PJWHash_ex_take: "key \<noteq> [] \<Longrightarrow> take_bit 28 (PJWHash_ex key h) = PJWHash_ex key h"
proof (induction key arbitrary: h)
  case (Cons c cs)
  then show ?case by (cases cs) (simp_all add: pjw_step_take)
qed simp

text \<open>As long as bit 31 is not reached, the two steps agree.\<close>

lemma step_agree:
  assumes "\<not> bit (push_bit 4 h + ucast (c :: u8) :: u32) 31"
  shows "elf_step h c = pjw_step h c"
proof -
  define g where "g = push_bit 4 h + ucast c"
  define x where "x = g AND NOT (mask 28)"
  have "(g XOR signed_drop_bit 24 x) AND NOT x = take_bit 28 (g XOR signed_drop_bit 24 x)"
    (is "?l = _")
  proof (rule bit_eqI)
    fix n assume "possible_bit TYPE(u32) n"
    then have "n = 31 \<or> n < 31" by auto
    then show "bit ?l n = bit (take_bit 28 (g XOR signed_drop_bit 24 x)) n"
      using assms
      by (auto simp: x_def bit_and_iff bit_xor_iff bit_not_iff bit_take_bit_iff bit_signed_drop_bit_iff bit_mask_iff bit_or_iff
          simp flip: g_def dest: bit_imp_le_length)
  qed
  then show ?thesis
    by (simp add: elf_step_def pjw_step_def Let_def pjw_high elf_high and_not_mask flip: g_def x_def)
qed

lemma step_value: 
  assumes "unat h < 2 ^ 26"
  shows "unat (push_bit 4 h + ucast (c :: u8) :: u32) = 16 * unat h + unat c"
    and "\<not> bit (push_bit 4 h + ucast (c :: u8) :: u32) 31"
proof -
  have p: "push_bit 4 h = 16 * h" by (simp add: push_bit_eq_mult)
  have c: "unat c \<le> 255" using unat8_lt [of c] by linarith
  have "unat c < 2 ^ 32" using c by simp
  then have cc: "unat (ucast c :: u32) = unat c" by (simp add: unsigned_ucast_eq take_bit_nat_eq_self)
  have m: "unat (16 * h) = 16 * unat h" using assms by (simp add: unat_word_ariths)
  show u: "unat (push_bit 4 h + ucast c) = 16 * unat h + unat c"
    using assms c unfolding p by (simp add: unat_word_ariths m cc) 
  have "unat (push_bit 4 h + ucast c :: u32) < 2 ^ 31" using assms c by (simp add: u)
  then have "\<not> bit (unat (push_bit 4 h + ucast c :: u32)) 31" by (simp add: bit_iff_odd [of "unat _"])
  then show "\<not> bit (push_bit 4 h + ucast c :: u32) 31" by (simp add: bit_unsigned_iff)
qed

lemma pjw_step_grow:
  assumes "unat h \<le> 17 * (16 ^ k - 1)" "k \<le> 4"
  shows "unat (pjw_step h c) \<le> 17 * (16 ^ Suc k - 1)"
proof -
  have "(16 :: nat) ^ k \<le> 16 ^ 4" using assms(2) by (intro power_increasing) auto
  then have h: "unat h \<le> 1114095" using assms(1) by simp
  have c: "unat c \<le> 255" using unat8_lt [of c] by linarith
  have v: "unat (push_bit 4 h + ucast c) = 16 * unat h + unat c" using h by (intro step_value) simp
  then have "take_bit 28 (push_bit 4 h + ucast c :: u32) = push_bit 4 h + ucast c"
    using h c by (simp add: word_unat_eq_iff unsigned_take_bit_eq take_bit_nat_eq_self_iff)
  then have "pjw_step h c = push_bit 4 h + ucast c"
    by (simp add: pjw_step_def Let_def pjw_high flip: high_0_iff)
  moreover obtain P where "(16 :: nat) ^ k = Suc P" using gr0_conv_Suc by (metis zero_less_numeral zero_less_power)
  ultimately show ?thesis using assms(1) v c by simp
qed

lemma short_agree:
  "unat h \<le> 17 * (16 ^ k - 1) \<Longrightarrow> k + length key \<le> 6 \<Longrightarrow> ELFHash_ex key h = PJWHash_ex key h"
proof (induction key arbitrary: k h)
  case (Cons c cs)
  have k: "k \<le> 5" using Cons.prems by simp
  have "(16 :: nat) ^ k \<le> 16 ^ 5" using k by (intro power_increasing) auto
  then have "unat h < 2 ^ 26" using Cons.prems(1) by simp
  then have e: "elf_step h c = pjw_step h c" by (intro step_agree step_value)
  show ?case
  proof (cases cs)
    case (Cons d ds)
    then have "k \<le> 4" using Cons.prems by simp
    with Cons.prems(1) have "unat (pjw_step h c) \<le> 17 * (16 ^ Suc k - 1)" by (rule pjw_step_grow)
    with Cons.IH [of "pjw_step h c" "Suc k"] Cons.prems(2) show ?thesis by (simp add: e)
  qed (simp add: e)
qed simp

text \<open>The key \<open>zzzzzzz\<close>.\<close>

lemma PJW_z: "PJWHash (replicate 7 0x7A) = 0x0DDDDD9A"
  unfolding PJWHash_def by code_simp

lemma ELF_z: "ELFHash (replicate 7 0x7A) = 0x7DDDDD9A"
  unfolding ELFHash_def by code_simp

lemma PJWHash_bound: "PJWHash key < 2 ^ 28"
proof (cases "key = []")
  case False
  then have "unat (PJWHash key) = take_bit 28 (unat (PJWHash key))"
    using PJWHash_ex_take [of key 0] by (metis PJWHash_def unsigned_take_bit_eq)
  then have "unat (PJWHash key) < 2 ^ 28" by (metis take_bit_nat_less_exp)
  then show ?thesis by (simp add: word_less_nat_alt)
qed (simp add: PJWHash_def)

section \<open>Properties\<close>

text \<open>
  C12: The table-driven checksum \<open>CRC32\<close> is the CRC of the reflected polynomial \<open>0xEDB88320\<close>, computed bit by bit, for
  each key, and \<open>CRC32_ex\<close> over the pieces of a key, finished by \<open>CRC32_FINAL\<close>, gives the same checksum.
\<close>

theorem crc32_reference:
  "CRC32 key = crc_ref key \<and> CRC32 (concat css) = ucast (CRC32_FINAL (fold CRC32_ex css CRC32_XINIT))"
  by (simp add: CRC32_ref [symmetric] CRC32_def CRC32_FINAL_def crc32.pieces)

text \<open>
  C34: \<open>CRC32\<close> detects every error burst of up to four bytes: two keys that differ only in up to four adjacent
  bytes have different checksums.
\<close>

theorem crc32_detects_bursts:
  assumes "length bs = length cs" "length cs \<le> 4" "bs \<noteq> cs"
  shows "CRC32 (pre @ bs @ post) \<noteq> CRC32 (pre @ cs @ post)"
  using crc_ref_burst [OF assms] by (simp add: CRC32_ref)

theorem crc32_detects_bursts_witness:
  "CRC32 ([1, 2] @ [3, 4, 5, 6] @ [7]) \<noteq> CRC32 ([1, 2] @ [3, 4, 4, 6] @ [7])"
  by (rule crc32_detects_bursts) simp_all

text \<open>
  The hash functions with shifts are polynomials: \<open>BKDRHash\<close>, \<open>simple_hash\<close>, \<open>Time33Hash\<close>, \<open>DJBHash\<close> and
  \<open>SDBMHash\<close> evaluate the key in the multipliers 131, 31, 33, 33 and 65599, modulo \<open>2 ^ 32\<close>. So \<open>DJBHash\<close> differs
  from \<open>Time33Hash\<close> only by the start value, and a key may be hashed in pieces.
\<close>

theorem multiplicative_hashes:
  "BKDRHash key = horner 131 key 0 \<and> simple_hash key = horner 31 key 0 \<and> Time33Hash key = horner 33 key 0 \<and>
   DJBHash key = horner 33 key 5381 \<and> SDBMHash key = horner 65599 key 0 \<and>
   DJBHash key = Time33Hash key + 5381 * 33 ^ length key \<and>
   Time33Hash (concat css) = fold Time33Hash_ex css 0"
  by (simp add: BKDRHash_def simple_hash_def Time33Hash_def DJBHash_def SDBMHash_def BKDR_horner simple_horner
      DJB_horner SDBM_horner time33.pieces [symmetric] Time33_horner) (simp add: horner_def)

text \<open>
  C35: \<open>PJWHash\<close> is said to be the same as \<open>ELFHash\<close>, and for keys of up to six bytes it is. It always clears
  the top four bits, so that it is never negative; \<open>ELFHash\<close> clears only those that it has found set, after
  the arithmetic shift has flipped the others: the two differ on the key \<open>zzzzzzz\<close>.
\<close>

theorem pjw_elf:
  "(length key \<le> 6 \<longrightarrow> ELFHash key = PJWHash key) \<and> PJWHash key < 2 ^ 28 \<and>
   ELFHash (replicate 7 0x7A) \<noteq> PJWHash (replicate 7 0x7A) \<and> \<not> ELFHash (replicate 7 0x7A) < 2 ^ 28"
proof -
  have "PJWHash key < 2 ^ 28" by (rule PJWHash_bound)
  moreover have "ELFHash key = PJWHash key" if "length key \<le> 6"
    using short_agree [of 0 0 key] that by (simp add: ELFHash_def PJWHash_def)
  ultimately show ?thesis by (simp add: PJW_z ELF_z)
qed

theorem pjw_elf_witness: "ELFHash [0x61, 0x62, 0x63] = PJWHash [0x61, 0x62, 0x63]"
  using pjw_elf [of "[0x61, 0x62, 0x63]"] by simp

end
