(* ===== verification/HashTable.thy ===== *)
theory HashTable
  imports CPrelude Complex_Main "HOL-Library.Log_Nat"
begin

text \<open>
  The chained hash table of \<open>fastcommon/src/hash.c\<close>, in the default configuration (\<open>HASH_STORE_HASH_CODE\<close> is
  not defined). \<open>buckets\<close> is the bucket array, each chain a list of nodes; NULL is the empty array, so that
  any access to it is undefined. \<open>capacity\<close> points into \<open>prime_array\<close> or to a cell of its own. A node keeps the pointer of the
  caller (\<open>User\<close>), or, with \<open>is_malloc_value\<close>, a copy of the value in the block behind the key (\<open>Inline\<close>), whose
  bytes are \<open>None\<close> until they are written. The memory of the caller is \<open>umem\<close>: an access to an address that it does
  not map is undefined. The allocator is \<open>alloc\<close>.

  \<open>int64_t\<close> counters are integers. A critical section (\<open>HASH_LOCK\<close> to \<open>HASH_UNLOCK\<close>) is one definition.
\<close>

section \<open>State\<close>

type_synonym umem = "nat \<rightharpoonup> u8"

datatype hvalue = User nat | Inline "u8 option list"

record HashData =
  hd_key :: bytes
  hd_value_len :: int
  hd_malloc_value_size :: nat
  hd_value :: hvalue

datatype cap_ptr = NullCap | Prime nat | Cell nat

record HashArray =
  buckets :: "HashData list list"
  hash_func :: "bytes \<Rightarrow> u32"
  item_count :: nat
  capacity :: cap_ptr
  load_factor :: rat
  max_bytes :: int
  bytes_used :: int
  is_malloc_capacity :: bool
  is_malloc_value :: bool
  lock_count :: nat

definition hENOENT :: int where "hENOENT = 2"
definition hENOMEM :: int where "hENOMEM = 12"
definition hEEXIST :: int where "hEEXIST = 17"
definition hEINVAL :: int where "hEINVAL = 22"
definition hENOSPC :: int where "hENOSPC = 28"

definition prime_array :: "nat list" where
  "prime_array =
    [1, 3, 17, 37, 79, 163, 331, 673, 1361, 2729, 5471, 10949, 21911, 43853, 87719, 175447, 350899, 701819,
     1403641, 2807303, 5614657, 11229331, 22458671, 44917381, 89834777, 179669557, 359339171, 718678369,
     1437356741, 2147483647]"

definition PRIME_ARRAY_SIZE :: nat where
  "PRIME_ARRAY_SIZE = 30"

text \<open>\<open>*pHash->capacity\<close>\<close>

fun cap_val :: "cap_ptr \<Rightarrow> nat option" where
  "cap_val NullCap = None"
| "cap_val (Prime i) = mrd prime_array i"
| "cap_val (Cell n) = Some n"

definition sizeof_HashData :: nat where
  "sizeof_HashData = 32"

definition MEM_ALIGN :: "int \<Rightarrow> int option" where
  "MEM_ALIGN x = do { y \<leftarrow> cint (x + 7); Some (y AND NOT 7) }"

definition CALC_NODE_MALLOC_BYTES :: "nat \<Rightarrow> nat \<Rightarrow> nat" where
  "CALC_NODE_MALLOC_BYTES key_len value_size = sizeof_HashData + key_len + value_size"

text \<open>Memory of the caller: \<open>n\<close> bytes from address \<open>p\<close>.\<close>

definition um_read :: "umem \<Rightarrow> nat \<Rightarrow> int \<Rightarrow> bytes option" where
  "um_read um p n = (if n < 0 then None else those (map (\<lambda>i. um (p + i)) [0..<nat n]))"

definition um_write :: "umem \<Rightarrow> nat \<Rightarrow> bytes \<Rightarrow> umem option" where
  "um_write um p bs =
     (if list_all (\<lambda>i. um (p + i) \<noteq> None) [0..<length bs]
      then Some (\<lambda>a. if p \<le> a \<and> a < p + length bs then Some (bs ! (a - p)) else um a) else None)"

text \<open>The bytes that a node holds: \<open>n\<close> bytes of \<open>hash_data->value\<close>.\<close>

fun hv_read :: "umem \<Rightarrow> hvalue \<Rightarrow> int \<Rightarrow> bytes option" where
  "hv_read um (User p) n = um_read um p n"
| "hv_read um (Inline blk) n = (if n < 0 then None else do { bs \<leftarrow> mget blk 0 (nat n); those bs })"

section \<open>Doubles\<close>

text \<open>
  The quotient of two positive counts as a \<open>double\<close>: the rational with 53 significant bits next to it, the even one of two.
\<close>

definition round_even :: "rat \<Rightarrow> int" where
  "round_even q =
     (let f = \<lfloor>q\<rfloor>; r = q - of_int f in
      if r < 1/2 then f else if 1/2 < r then f + 1 else if even f then f else f + 1)"

definition double_div :: "nat \<Rightarrow> nat \<Rightarrow> rat" where
  "double_div a b =
     (if a = 0 \<or> b = 0 then 0
      else let q = of_nat a / of_nat b;
               k = int (floorlog 2 a) - int (floorlog 2 b);
               e = (if q < 2 powi k then k - 1 else k);
               s = 2 powi (52 - e) in
           of_int (round_even (q * s)) / s)"

text \<open>The constant \<open>0.10\<close> of the code, as a \<open>double\<close>.\<close>

definition double_0_10 :: rat where
  "double_0_10 = 3602879701896397 / 36028797018963968"

section \<open>Capacity and buckets\<close>

definition hash_alloc_buckets :: "alloc \<Rightarrow> HashArray \<Rightarrow> int \<Rightarrow> (int \<times> HashArray \<times> alloc) option" where
  "hash_alloc_buckets al H old_capacity = do {
     c \<leftarrow> cap_val (capacity H);
     let bytes = 8 * int c;
     if 0 < max_bytes H \<and> max_bytes H < bytes_used H + bytes then Some (hENOSPC, H, al)
     else (let (ok, al) = alloc_next al in
       if \<not> ok then Some (hENOMEM, H\<lparr>buckets := []\<rparr>, al)
       else Some (0, H\<lparr>buckets := replicate c [], bytes_used := bytes_used H + (bytes - 8 * old_capacity)\<rparr>, al))
   }"

text \<open>The loop over \<open>prime_array\<close>; \<open>capacity\<close> is compared as an unsigned number.\<close>

fun prime_loop :: "nat \<Rightarrow> nat list \<Rightarrow> nat \<Rightarrow> cap_ptr" where
  "prime_loop i [] cap = NullCap"
| "prime_loop i (p # ps) cap = (if cap < p then Prime i else prime_loop (i + 1) ps cap)"

definition hash_get_prime_capacity :: "nat \<Rightarrow> cap_ptr" where
  "hash_get_prime_capacity cap = prime_loop 0 (take PRIME_ARRAY_SIZE prime_array) cap"

definition hash_init_ex ::
    "alloc \<Rightarrow> (bytes \<Rightarrow> u32) \<Rightarrow> nat \<Rightarrow> rat \<Rightarrow> int \<Rightarrow> bool \<Rightarrow> (int \<times> HashArray \<times> alloc) option" where
  "hash_init_ex al hash_fun cap lf max_b bMallocValue = do {
     let H = \<lparr>buckets = [], hash_func = (\<lambda>_. 0), item_count = 0, capacity = hash_get_prime_capacity cap,
              load_factor = 0, max_bytes = 0, bytes_used = 0, is_malloc_capacity = False,
              is_malloc_value = False, lock_count = 0\<rparr>;
     if capacity H = NullCap then Some (hEINVAL, H, al)
     else do {
       (result, H, al) \<leftarrow> hash_alloc_buckets al H 0;
       if result \<noteq> 0 then Some (result, H, al)
       else Some (0, H\<lparr>hash_func := hash_fun, max_bytes := max_b, is_malloc_value := bMallocValue,
                       load_factor := (if 0 \<le> lf \<and> lf \<le> 1 then lf else 1/2)\<rparr>, al)
     }
   }"

definition hash_set_locks :: "alloc \<Rightarrow> HashArray \<Rightarrow> int \<Rightarrow> int \<times> HashArray \<times> alloc" where
  "hash_set_locks al H lock_cnt =
     (if lock_count H \<noteq> 0 then (hEEXIST, H, al)
      else if lock_cnt \<le> 0 then (hEINVAL, H, al)
      else if double_0_10 \<le> load_factor H then (hEINVAL, H, al)
      else let (ok, al) = alloc_next al in
        if \<not> ok then (hENOMEM, H, al)
        else (0, H\<lparr>lock_count := nat lock_cnt\<rparr>, al))"

text \<open>The blocks that \<open>hash_destroy\<close> frees are gone with the lists.\<close>

definition hash_destroy :: "HashArray \<Rightarrow> HashArray" where
  "hash_destroy H =
     (if buckets H = [] then H
      else (let H = H\<lparr>buckets := []\<rparr>;
                H = (if is_malloc_capacity H then H\<lparr>capacity := NullCap, is_malloc_capacity := False\<rparr> else H) in
            H\<lparr>item_count := 0, bytes_used := 0\<rparr>))"

section \<open>Chains\<close>

definition hash_code :: "HashArray \<Rightarrow> bytes \<Rightarrow> nat" where
  "hash_code H key = unat (hash_func H key)"

text \<open>\<open>ppBucket\<close> as an index: \<open>hash_code % *pHash->capacity\<close>\<close>

definition bucket_of :: "HashArray \<Rightarrow> bytes \<Rightarrow> nat option" where
  "bucket_of H key = do { c \<leftarrow> cap_val (capacity H); if c = 0 then None else Some (hash_code H key mod c) }"

fun chain_find_entry :: "HashData list \<Rightarrow> bytes \<Rightarrow> HashData option" where
  "chain_find_entry [] key = None"
| "chain_find_entry (d # ds) key = (if hd_key d = key then Some d else chain_find_entry ds key)"

text \<open>A write through the pointer to the node that was found, and the node taken out of its chain.\<close>

fun chain_set :: "HashData list \<Rightarrow> bytes \<Rightarrow> HashData \<Rightarrow> HashData list" where
  "chain_set [] key d' = []"
| "chain_set (d # ds) key d' = (if hd_key d = key then d' # ds else d # chain_set ds key d')"

fun chain_unlink :: "HashData list \<Rightarrow> bytes \<Rightarrow> HashData list" where
  "chain_unlink [] key = []"
| "chain_unlink (d # ds) key = (if hd_key d = key then ds else d # chain_unlink ds key)"

definition node_bytes :: "HashData \<Rightarrow> nat" where
  "node_bytes d = CALC_NODE_MALLOC_BYTES (length (hd_key d)) (hd_malloc_value_size d)"

definition ADD_TO_BUCKET :: "HashArray \<Rightarrow> nat \<Rightarrow> HashData \<Rightarrow> HashArray option" where
  "ADD_TO_BUCKET H i d = do {
     ds \<leftarrow> mrd (buckets H) i;
     bs \<leftarrow> mwr (buckets H) i (d # ds);
     Some (H\<lparr>buckets := bs, item_count := item_count H + 1\<rparr>)
   }"

definition DELETE_FROM_BUCKET :: "HashArray \<Rightarrow> nat \<Rightarrow> HashData \<Rightarrow> HashArray option" where
  "DELETE_FROM_BUCKET H i d = do {
     ds \<leftarrow> mrd (buckets H) i;
     bs \<leftarrow> mwr (buckets H) i (chain_unlink ds (hd_key d));
     Some (H\<lparr>buckets := bs, item_count := item_count H - 1, bytes_used := bytes_used H - int (node_bytes d)\<rparr>)
   }"

definition put_node :: "HashArray \<Rightarrow> nat \<Rightarrow> HashData \<Rightarrow> HashArray option" where
  "put_node H i d = do {
     ds \<leftarrow> mrd (buckets H) i;
     bs \<leftarrow> mwr (buckets H) i (chain_set ds (hd_key d) d);
     Some (H\<lparr>buckets := bs\<rparr>)
   }"

section \<open>Rehashing\<close>

text \<open>One node of an old chain moves to the new array, then the rest of the chain.\<close>

fun rehash_chain :: "HashArray \<Rightarrow> HashData list \<Rightarrow> HashArray option" where
  "rehash_chain H [] = Some H"
| "rehash_chain H (d # ds) = do {
     i \<leftarrow> bucket_of H (hd_key d);
     H \<leftarrow> ADD_TO_BUCKET H i d;
     rehash_chain H ds
   }"

fun rehash_buckets :: "HashArray \<Rightarrow> HashData list list \<Rightarrow> HashArray option" where
  "rehash_buckets H [] = Some H"
| "rehash_buckets H (ds # dss) = do { H \<leftarrow> rehash_chain H ds; rehash_buckets H dss }"

definition rehash1 :: "alloc \<Rightarrow> HashArray \<Rightarrow> int \<Rightarrow> cap_ptr \<Rightarrow> (int \<times> HashArray \<times> alloc) option" where
  "rehash1 al H old_capacity new_capacity = do {
     let old_buckets = buckets H;
     let H = H\<lparr>capacity := new_capacity\<rparr>;
     (result, H, al) \<leftarrow> hash_alloc_buckets al H old_capacity;
     if result \<noteq> 0 then Some (result, H\<lparr>buckets := old_buckets\<rparr>, al)
     else do {
       olds \<leftarrow> mget old_buckets 0 (nat old_capacity);
       H \<leftarrow> rehash_buckets (H\<lparr>item_count := 0\<rparr>) olds;
       Some (0, H, al)
     }
   }"

text \<open>\<open>pHash->capacity++\<close>\<close>

fun cap_succ :: "cap_ptr \<Rightarrow> cap_ptr" where
  "cap_succ (Prime i) = Prime (i + 1)"
| "cap_succ c = NullCap"

text \<open>An \<open>unsigned int\<close> assigned to an \<open>int\<close>.\<close>

definition to_int32 :: "nat \<Rightarrow> int" where
  "to_int32 n = sint (of_nat n :: u32)"

definition rehash :: "alloc \<Rightarrow> HashArray \<Rightarrow> (int \<times> HashArray \<times> alloc) option" where
  "rehash al H = do {
     let pOldCapacity = capacity H;
     old \<leftarrow> cap_val pOldCapacity;
     let H = (if is_malloc_capacity H then H\<lparr>capacity := hash_get_prime_capacity old\<rparr>
              else H\<lparr>capacity := cap_succ (capacity H)\<rparr>);
     (result, H, al) \<leftarrow> rehash1 al H (to_int32 old) (capacity H);
     if result \<noteq> 0 then Some (result, H\<lparr>capacity := pOldCapacity\<rparr>, al)
     else Some (0, (if is_malloc_capacity H then H\<lparr>is_malloc_capacity := False\<rparr> else H), al)
   }"

section \<open>Conflicts and the best capacity\<close>

fun chain_conflicted :: "HashArray \<Rightarrow> HashData list \<Rightarrow> bool" where
  "chain_conflicted H [] = False"
| "chain_conflicted H (d # ds) =
     (if list_ex (\<lambda>p. hash_code H (hd_key d) \<noteq> hash_code H (hd_key p)) ds then True
      else chain_conflicted H ds)"

definition hash_conflict_count :: "HashArray \<Rightarrow> nat option" where
  "hash_conflict_count H = do {
     c \<leftarrow> cap_val (capacity H);
     dss \<leftarrow> mget (buckets H) 0 c;
     Some (length (filter (chain_conflicted H) dss))
   }"

text \<open>The start value of \<open>*new_capacity\<close>, an \<open>unsigned int\<close>.\<close>

definition best_start :: "HashArray \<Rightarrow> int \<Rightarrow> nat" where
  "best_start H suggest_capacity =
     (if 2 < suggest_capacity \<and> int (item_count H) \<le> suggest_capacity
      then (let n = nat (suggest_capacity - 2) in if n mod 2 = 0 then n + 1 else n)
      else 2 * (item_count H - 1) + 1)"

definition no_factor :: "nat \<Rightarrow> bool" where
  "no_factor n \<longleftrightarrow> \<not> (n mod 3 = 0 \<or> n mod 5 = 0 \<or> n mod 7 = 0)"

partial_function (option) next_capacity :: "nat \<Rightarrow> nat option" where
  "next_capacity n =
     (let n = (n + 2) mod 2 ^ 32 in if no_factor n then Some n else next_capacity n)"

text \<open>
  The outer loop. \<open>n\<close> is the cell \<open>new_capacity\<close>, that \<open>pHash->capacity\<close> points to from the first rehash on. A failure
  leaves the table on this cell, with its old value written back.
\<close>

partial_function (option) best_loop ::
    "alloc \<Rightarrow> HashArray \<Rightarrow> int \<Rightarrow> nat \<Rightarrow> (int \<times> HashArray \<times> alloc) option" where
  "best_loop al H old_capacity n = do {
     n \<leftarrow> next_capacity n;
     (result, H, al) \<leftarrow> rehash1 al H old_capacity (Cell n);
     if result \<noteq> 0 then
       Some (- result, H\<lparr>is_malloc_capacity := True, capacity := Cell (nat (old_capacity mod 2 ^ 32))\<rparr>, al)
     else do {
       conflict_count \<leftarrow> hash_conflict_count H;
       if 0 < conflict_count then best_loop al H (to_int32 n) n
       else Some (1, H\<lparr>is_malloc_capacity := True\<rparr>, al)
     }
   }"

definition hash_best_op :: "alloc \<Rightarrow> HashArray \<Rightarrow> int \<Rightarrow> (int \<times> HashArray \<times> alloc) option" where
  "hash_best_op al H suggest_capacity = do {
     conflict_count \<leftarrow> hash_conflict_count H;
     if conflict_count = 0 then Some (0, H, al)
     else do {
       c \<leftarrow> cap_val (capacity H);
       let (ok, al) = alloc_next al;
       if \<not> ok then Some (- hENOMEM, H, al)
       else best_loop al H (to_int32 c) (best_start H suggest_capacity)
     }
   }"

section \<open>Lookup\<close>

definition hash_find_ex :: "HashArray \<Rightarrow> bytes \<Rightarrow> HashData option option" where
  "hash_find_ex H key = do {
     i \<leftarrow> bucket_of H key;
     ds \<leftarrow> mrd (buckets H) i;
     Some (chain_find_entry ds key)
   }"

definition hash_find :: "HashArray \<Rightarrow> bytes \<Rightarrow> hvalue option option" where
  "hash_find H key = do {
     hash_data \<leftarrow> hash_find_ex H key;
     Some (case hash_data of Some d \<Rightarrow> Some (hd_value d) | None \<Rightarrow> None)
   }"

text \<open>\<open>hash_find2\<close>: the \<open>string_t\<close> of the value, or \<open>ENOENT\<close>.\<close>

definition hash_find2 :: "HashArray \<Rightarrow> bytes \<Rightarrow> (int \<times> (hvalue \<times> int) option) option" where
  "hash_find2 H key = do {
     hdata \<leftarrow> hash_find_ex H key;
     Some (case hdata of None \<Rightarrow> (hENOENT, None) | Some d \<Rightarrow> (0, Some (hd_value d, hd_value_len d)))
   }"

text \<open>\<open>hash_get\<close>: the result, the bytes copied to the buffer of the caller and the new \<open>*value_len\<close>.\<close>

definition hash_get :: "umem \<Rightarrow> HashArray \<Rightarrow> bytes \<Rightarrow> int \<Rightarrow> (int \<times> bytes \<times> int) option" where
  "hash_get um H key value_len = do {
     hash_data \<leftarrow> hash_find_ex H key;
     case hash_data of
       None \<Rightarrow> Some (hENOENT, [], value_len)
     | Some d \<Rightarrow>
         (if hd_value_len d \<le> value_len
          then do { bs \<leftarrow> hv_read um (hd_value d) (hd_value_len d); Some (0, bs, hd_value_len d) }
          else Some (hENOSPC, [], value_len))
   }"

section \<open>Insertion\<close>

datatype lookup_result = Updated HashArray | Absent HashArray

text \<open>
  The first critical section of \<open>hash_insert_ex\<close>: the value is replaced in place, or the node taken out
  of its chain, or there is no node with this key.
\<close>

definition insert_lookup ::
    "umem \<Rightarrow> HashArray \<Rightarrow> nat \<Rightarrow> bytes \<Rightarrow> nat \<Rightarrow> int \<Rightarrow> lookup_result option" where
  "insert_lookup um H i key val value_len = do {
     ds \<leftarrow> mrd (buckets H) i;
     case chain_find_entry ds key of
       None \<Rightarrow> Some (Absent H)
     | Some d \<Rightarrow>
         (if \<not> is_malloc_value H then do {
            H \<leftarrow> put_node H i (d\<lparr>hd_value_len := value_len, hd_value := User val\<rparr>);
            Some (Updated H)
          } else if value_len \<le> int (hd_malloc_value_size d) \<and>
              (hd_malloc_value_size d \<le> 128 \<or> int (hd_malloc_value_size d div 2) < value_len) then do {
            bs \<leftarrow> um_read um val value_len;
            v \<leftarrow> (case hd_value d of User p \<Rightarrow> None
                 | Inline blk \<Rightarrow> do { blk \<leftarrow> mput blk 0 (map Some bs); Some (Inline blk) });
            H \<leftarrow> put_node H i (d\<lparr>hd_value_len := value_len, hd_value := v\<rparr>);
            Some (Updated H)
          } else do {
            H \<leftarrow> DELETE_FROM_BUCKET H i d;
            Some (Absent H)
          })
   }"

text \<open>
  Between the critical sections: the new node. \<open>bytes\<close> is an \<open>int\<close>; a request for a negative number of bytes
  fails, as it is larger than any object, and the block must have room for the key and the value.
\<close>

definition insert_alloc ::
    "alloc \<Rightarrow> umem \<Rightarrow> HashArray \<Rightarrow> bytes \<Rightarrow> nat \<Rightarrow> int \<Rightarrow> ((int + HashData) \<times> HashArray \<times> alloc) option" where
  "insert_alloc al um H key val value_len = do {
     malloc_value_size \<leftarrow> (if \<not> is_malloc_value H then Some 0 else MEM_ALIGN value_len);
     if malloc_value_size < 0 then None
     else do {
       let need = CALC_NODE_MALLOC_BYTES (length key) (nat malloc_value_size);
       let bytes = to_int32 need;
       if 0 < max_bytes H \<and> max_bytes H < bytes_used H + bytes then Some (Inl (- hENOSPC), H, al)
       else do {
         let (ok, al) = alloc_next al;
         if \<not> ok \<or> bytes < 0 then Some (Inl (- hENOMEM), H, al)
         else if bytes < int need then None
         else do {
           let H = H\<lparr>bytes_used := bytes_used H + bytes\<rparr>;
           v \<leftarrow> (if \<not> is_malloc_value H then Some (User val)
                else do {
                  bs \<leftarrow> um_read um val value_len;
                  blk \<leftarrow> mput (replicate (nat malloc_value_size) None) 0 (map Some bs);
                  Some (Inline blk)
                });
           Some (Inr \<lparr>hd_key = key, hd_value_len = value_len,
                      hd_malloc_value_size = nat malloc_value_size, hd_value = v\<rparr>, H, al)
         }
       }
     }
   }"

text \<open>After the second critical section: the table grows when it is too full.\<close>

definition insert_grow :: "alloc \<Rightarrow> HashArray \<Rightarrow> (HashArray \<times> alloc) option" where
  "insert_grow al H = do {
     c \<leftarrow> cap_val (capacity H);
     if double_0_10 \<le> load_factor H \<and> load_factor H \<le> double_div (item_count H) c
     then do { (result, H, al) \<leftarrow> rehash al H; Some (H, al) }
     else Some (H, al)
   }"

definition hash_insert_ex ::
    "alloc \<Rightarrow> umem \<Rightarrow> HashArray \<Rightarrow> bytes \<Rightarrow> nat \<Rightarrow> int \<Rightarrow> (int \<times> HashArray \<times> alloc) option" where
  "hash_insert_ex al um H key val value_len = do {
     i \<leftarrow> bucket_of H key;
     r \<leftarrow> insert_lookup um H i key val value_len;
     case r of
       Updated H \<Rightarrow> Some (0, H, al)
     | Absent H \<Rightarrow> do {
         (r, H, al) \<leftarrow> insert_alloc al um H key val value_len;
         case r of
           Inl e \<Rightarrow> Some (e, H, al)
         | Inr d \<Rightarrow> do {
             H \<leftarrow> ADD_TO_BUCKET H i d;
             (H, al) \<leftarrow> insert_grow al H;
             Some (1, H, al)
           }
       }
   }"

section \<open>Deletion and iteration\<close>

definition hash_delete :: "HashArray \<Rightarrow> bytes \<Rightarrow> (int \<times> HashArray) option" where
  "hash_delete H key = do {
     i \<leftarrow> bucket_of H key;
     ds \<leftarrow> mrd (buckets H) i;
     case chain_find_entry ds key of
       None \<Rightarrow> Some (hENOENT, H)
     | Some d \<Rightarrow> do { H \<leftarrow> DELETE_FROM_BUCKET H i d; Some (0, H) }
   }"

text \<open>\<open>walkFunc\<close> gets the index and the node, and changes the state of the caller.\<close>

fun walk_chain :: "(nat \<Rightarrow> HashData \<Rightarrow> 's \<Rightarrow> int \<times> 's) \<Rightarrow> nat \<Rightarrow> HashData list \<Rightarrow> 's \<Rightarrow> int \<times> nat \<times> 's" where
  "walk_chain walkFunc index [] s = (0, index, s)"
| "walk_chain walkFunc index (d # ds) s =
     (let (result, s) = walkFunc index d s in
      if result \<noteq> 0 then (result, index, s) else walk_chain walkFunc (index + 1) ds s)"

fun walk_buckets :: "(nat \<Rightarrow> HashData \<Rightarrow> 's \<Rightarrow> int \<times> 's) \<Rightarrow> nat \<Rightarrow> HashData list list \<Rightarrow> 's \<Rightarrow> int \<times> 's" where
  "walk_buckets walkFunc index [] s = (0, s)"
| "walk_buckets walkFunc index (ds # dss) s =
     (let (result, index, s) = walk_chain walkFunc index ds s in
      if result \<noteq> 0 then (result, s) else walk_buckets walkFunc index dss s)"

definition hash_walk :: "HashArray \<Rightarrow> (nat \<Rightarrow> HashData \<Rightarrow> 's \<Rightarrow> int \<times> 's) \<Rightarrow> 's \<Rightarrow> (int \<times> 's) option" where
  "hash_walk H walkFunc s = do {
     c \<leftarrow> cap_val (capacity H);
     dss \<leftarrow> mget (buckets H) 0 c;
     Some (walk_buckets walkFunc 0 dss s)
   }"

definition hash_count :: "HashArray \<Rightarrow> nat" where
  "hash_count H = item_count H"

section \<open>Counting and partial updates\<close>

text \<open>\<open>sprintf\<close> of an \<open>int64_t\<close> and \<open>strtoll\<close> with base 10.\<close>

fun dec_digits :: "nat \<Rightarrow> bytes" where
  "dec_digits n = (if n < 10 then [of_nat (48 + n)] else dec_digits (n div 10) @ [of_nat (48 + n mod 10)])"

declare dec_digits.simps [simp del]

definition print_dec :: "int \<Rightarrow> bytes" where
  "print_dec n = (if n < 0 then 45 # dec_digits (nat (- n)) else dec_digits (nat n))"

definition strtoll_space :: "u8 \<Rightarrow> bool" where
  "strtoll_space c \<longleftrightarrow> c = 32 \<or> 9 \<le> c \<and> c \<le> 13"

definition c_isdigit :: "u8 \<Rightarrow> bool" where
  "c_isdigit c \<longleftrightarrow> 48 \<le> c \<and> c \<le> 57"

definition LLONG_MAX :: int where "LLONG_MAX = 9223372036854775807"
definition LLONG_MIN :: int where "LLONG_MIN = -9223372036854775808"

definition digits_value :: "bytes \<Rightarrow> int" where
  "digits_value ds = foldl (\<lambda>a c. 10 * a + (uint c - 48)) 0 ds"

definition c_strtoll :: "bytes \<Rightarrow> int" where
  "c_strtoll s =
     (let s = dropWhile strtoll_space s;
          neg = (s \<noteq> [] \<and> s ! 0 = 45);
          s = (if s \<noteq> [] \<and> (s ! 0 = 45 \<or> s ! 0 = 43) then drop 1 s else s);
          v = digits_value (takeWhile c_isdigit s);
          v = (if neg then - v else v) in
      max LLONG_MIN (min LLONG_MAX v))"

text \<open>A signed 64-bit sum: undefined when it does not fit.\<close>

definition cllong :: "int \<Rightarrow> int option" where
  "cllong x = (if LLONG_MIN \<le> x \<and> x \<le> LLONG_MAX then Some x else None)"

text \<open>
  \<open>memcpy\<close> between the value of a node, from an offset on, and \<open>n\<close> bytes of the caller at \<open>p\<close>: undefined when the value is borrowed
  and the two regions overlap.
\<close>

fun hv_overlaps :: "hvalue \<Rightarrow> nat \<Rightarrow> nat \<Rightarrow> int \<Rightarrow> bool" where
  "hv_overlaps (User q) off p n \<longleftrightarrow> 0 < n \<and> q + off < p + nat n \<and> p < q + off + nat n"
| "hv_overlaps (Inline blk) off p n \<longleftrightarrow> False"

definition hash_inc_value ::
    "HashData option \<Rightarrow> int \<Rightarrow> umem \<Rightarrow> nat \<Rightarrow> int \<Rightarrow> (umem \<times> int) option" where
  "hash_inc_value old_data inc um new_value new_value_len = do {
     (um, n) \<leftarrow> (case old_data of
         Some d \<Rightarrow>
           (if hd_value_len d < new_value_len then do {
              bs \<leftarrow> (if hv_overlaps (hd_value d) 0 new_value (hd_value_len d) then None
                    else hv_read um (hd_value d) (hd_value_len d));
              um \<leftarrow> um_write um new_value (bs @ [0]);
              n \<leftarrow> cllong (c_strtoll (bs @ [0]) + inc);
              Some (um, n)
            } else Some (um, inc))
       | None \<Rightarrow> Some (um, inc));
     um \<leftarrow> um_write um new_value (print_dec n @ [0]);
     Some (um, int (length (print_dec n)))
   }"

text \<open>A write of \<open>bs\<close> at an offset of the value of a node.\<close>

fun hv_write :: "umem \<Rightarrow> hvalue \<Rightarrow> nat \<Rightarrow> bytes \<Rightarrow> (umem \<times> hvalue) option" where
  "hv_write um (User p) off bs = do { um \<leftarrow> um_write um (p + off) bs; Some (um, User p) }"
| "hv_write um (Inline blk) off bs = do { blk \<leftarrow> mput blk off (map Some bs); Some (um, Inline blk) }"

definition hash_inc_ex ::
    "alloc \<Rightarrow> umem \<Rightarrow> HashArray \<Rightarrow> bytes \<Rightarrow> int \<Rightarrow> nat \<Rightarrow> int \<Rightarrow>
     (HashData option \<Rightarrow> int \<Rightarrow> umem \<Rightarrow> nat \<Rightarrow> int \<Rightarrow> (umem \<times> int) option) \<Rightarrow>
     (int \<times> HashArray \<times> umem \<times> int \<times> alloc) option" where
  "hash_inc_ex al um H key inc val value_len convert_func = do {
     i \<leftarrow> bucket_of H key;
     hash_data \<leftarrow> hash_find_ex H key;
     (um, value_len) \<leftarrow> convert_func hash_data inc um val value_len;
     let insert = do {
       (result, H, al) \<leftarrow> hash_insert_ex al um H key val value_len;
       if result < 0 then do { um \<leftarrow> um_write um val [0]; Some (- result, H, um, 0, al) }
       else Some (0, H, um, value_len, al)
     };
     case hash_data of
       None \<Rightarrow> insert
     | Some d \<Rightarrow>
         (if \<not> is_malloc_value H then do {
            H \<leftarrow> put_node H i (d\<lparr>hd_value_len := value_len, hd_value := User val\<rparr>);
            Some (0, H, um, value_len, al)
          } else if value_len \<le> int (hd_malloc_value_size d) then do {
            bs \<leftarrow> um_read um val value_len;
            (um, v) \<leftarrow> hv_write um (hd_value d) 0 bs;
            H \<leftarrow> put_node H i (d\<lparr>hd_value_len := value_len, hd_value := v\<rparr>);
            Some (0, H, um, value_len, al)
          } else insert)
   }"

text \<open>
  \<open>pNewBuff\<close> is the address of the buffer that \<open>hash_partial_set\<close> allocates for the longer value. It is mapped only until it is
  freed.
\<close>

definition um_map :: "umem \<Rightarrow> nat \<Rightarrow> bytes \<Rightarrow> umem" where
  "um_map um p bs = (\<lambda>a. if p \<le> a \<and> a < p + length bs then Some (bs ! (a - p)) else um a)"

definition hash_partial_set ::
    "alloc \<Rightarrow> umem \<Rightarrow> nat \<Rightarrow> HashArray \<Rightarrow> bytes \<Rightarrow> nat \<Rightarrow> int \<Rightarrow> int \<Rightarrow>
     (int \<times> HashArray \<times> umem \<times> alloc) option" where
  "hash_partial_set al um pNewBuff H key val offset value_len = do {
     i \<leftarrow> bucket_of H key;
     hash_data \<leftarrow> hash_find_ex H key;
     case hash_data of
       Some d \<Rightarrow>
         (if offset < 0 \<or> hd_value_len d \<le> offset then Some (hEINVAL, H, um, al)
          else do {
            new_len \<leftarrow> cint (offset + value_len);
            if new_len \<le> hd_value_len d then do {
              bs \<leftarrow> (if hv_overlaps (hd_value d) (nat offset) val value_len then None else um_read um val value_len);
              (um, v) \<leftarrow> hv_write um (hd_value d) (nat offset) bs;
              H \<leftarrow> put_node H i (d\<lparr>hd_value := v\<rparr>);
              Some (0, H, um, al)
            } else do {
              let (ok, al) = alloc_next al;
              if \<not> ok then Some (hENOMEM, H, um, al)
              else do {
                pre \<leftarrow> hv_read um (hd_value d) offset;
                bs \<leftarrow> um_read um val value_len;
                (result, H, al) \<leftarrow> hash_insert_ex al (um_map um pNewBuff (pre @ bs)) H key pNewBuff new_len;
                Some (if result < 0 then - result else 0, H, um, al)
              }
            }
          })
     | None \<Rightarrow>
         (if offset \<noteq> 0 then Some (hENOENT, H, um, al)
          else do {
            (result, H, al) \<leftarrow> hash_insert_ex al um H key val value_len;
            Some (if result < 0 then - result else 0, H, um, al)
          })
   }"

section \<open>Statistics\<close>

record HashStat =
  st_capacity :: nat
  st_item_count :: nat
  st_bucket_used :: nat
  st_bucket_avg_length :: rat
  st_bucket_max_length :: nat

text \<open>The loop over the buckets: the number of used buckets, the longest chain and \<open>stat_by_lens\<close>.\<close>

fun stat_loop :: "int \<Rightarrow> HashData list list \<Rightarrow> nat \<Rightarrow> nat \<Rightarrow> nat list \<Rightarrow> (int \<times> nat \<times> nat \<times> nat list) option" where
  "stat_loop last_len [] used longest lens = Some (0, used, longest, lens)"
| "stat_loop last_len (ds # dss) used longest lens =
     (if ds = [] then stat_loop last_len dss used longest lens
      else (let count = length ds; used = used + 1 in
        if last_len < int count then Some (hENOSPC, used, longest, lens)
        else do {
          n \<leftarrow> mrd lens count;
          lens \<leftarrow> mwr lens count (n + 1);
          stat_loop last_len dss used (if longest < count then count else longest) lens
        }))"

definition hash_stat :: "HashArray \<Rightarrow> HashStat \<Rightarrow> nat \<Rightarrow> (int \<times> HashStat \<times> nat list) option" where
  "hash_stat H pStat stat_size = do {
     c \<leftarrow> cap_val (capacity H);
     dss \<leftarrow> mget (buckets H) 0 c;
     (result, used, longest, lens) \<leftarrow> stat_loop (int stat_size - 1) dss 0 0 (replicate stat_size 0);
     let pStat = pStat\<lparr>st_bucket_used := used, st_bucket_max_length := longest\<rparr>;
     if result \<noteq> 0 then Some (result, pStat, lens)
     else do {
       counts \<leftarrow> mget lens 0 (longest + 1);
       let totalLength = (\<Sum>i\<leftarrow>[0..<longest + 1]. i * counts ! i);
       Some (0, pStat\<lparr>st_capacity := c, st_item_count := item_count H,
                      st_bucket_avg_length := (if 0 < used then double_div totalLength used else 0)\<rparr>, lens)
     }
   }"

end
