(* ===== verification/HashInv.thy ===== *)
theory HashInv
  imports HashTable
begin

text \<open>
  The invariant of the hash table and the map that it stands for. \<open>put_node_ok\<close>, \<open>DELETE_ok\<close> and \<open>ADD_ok\<close>
  are the three changes of a chain; \<open>rehash1_cases\<close> and \<open>rehash_cases\<close> say that rehashing keeps the map, also when it
  fails; \<open>hash_best_op_total\<close> that the search for a capacity without conflicts ends.
\<close>

section \<open>Chains\<close>

lemma chain_find_Some: "chain_find_entry ds k = Some d \<Longrightarrow> d \<in> set ds \<and> hd_key d = k"
  by (induction ds) (auto split: if_splits)

lemma chain_find_None: "chain_find_entry ds k = None \<longleftrightarrow> k \<notin> hd_key ` set ds"
  by (induction ds) auto

lemma chain_set_keys [simp]: "hd_key d' = k \<Longrightarrow> map hd_key (chain_set ds k d') = map hd_key ds"
  by (induction ds) auto

lemma chain_set_length [simp]: "length (chain_set ds k d') = length ds"
  by (induction ds) auto

lemma chain_find_set:
  "hd_key d' = k \<Longrightarrow> chain_find_entry (chain_set ds k d') k' =
     (if k' = k then (if chain_find_entry ds k = None then None else Some d') else chain_find_entry ds k')"
  by (induction ds) auto

lemma set_chain_set: "set (chain_set ds k d') \<subseteq> insert d' (set ds)"
  by (induction ds) auto

lemma chain_set_sum:
  "chain_find_entry ds k = Some d \<Longrightarrow>
   sum_list (map f (chain_set ds k d')) + f d = sum_list (map f ds) + (f d' :: nat)"
  by (induction ds) (auto split: if_splits)

lemma set_chain_unlink: "set (chain_unlink ds k) \<subseteq> set ds"
  by (induction ds) auto

lemma chain_unlink_keys: "map hd_key (chain_unlink ds k) = remove1 k (map hd_key ds)"
  by (induction ds) auto

lemma chain_find_unlink:
  "distinct (map hd_key ds) \<Longrightarrow>
   chain_find_entry (chain_unlink ds k) k' = (if k' = k then None else chain_find_entry ds k')"
  by (induction ds) (auto simp: chain_find_None)

lemma chain_unlink_sum:
  "chain_find_entry ds k = Some d \<Longrightarrow>
   sum_list (map f (chain_unlink ds k)) + f d = sum_list (map f ds :: nat list)"
  by (induction ds) (auto split: if_splits)

section \<open>Bucket arrays\<close>

definition weight :: "(HashData \<Rightarrow> nat) \<Rightarrow> HashData list list \<Rightarrow> nat" where
  "weight f bs = sum_list (map (\<lambda>ds. sum_list (map f ds)) bs)"

lemma weight_simps [simp]:
  "weight f [] = 0" "weight f (ds # bs) = sum_list (map f ds) + weight f bs"
  by (simp_all add: weight_def)

lemma weight_update:
  "i < length bs \<Longrightarrow> weight f (bs[i := ds]) + sum_list (map f (bs ! i)) = weight f bs + sum_list (map f ds)"
proof (induction bs arbitrary: i)
  case (Cons b bs)
  then show ?case by (cases i) (auto simp: add.assoc)
qed simp

lemma weight_empty [simp]: "weight f (replicate n []) = 0"
  by (induction n) simp_all

abbreviation items :: "HashData list list \<Rightarrow> nat" where
  "items bs \<equiv> weight (\<lambda>_. Suc 0) bs"

lemma items_concat: "items bs = length (concat bs)"
  by (induction bs) (simp_all add: sum_list_triv)

text \<open>The invariant of a node: the value is in a block with room for it, or the pointer of the caller.\<close>

definition node_ok :: "bool \<Rightarrow> HashData \<Rightarrow> bool" where
  "node_ok owned d \<longleftrightarrow>
     (case hd_value d of
        User p \<Rightarrow> \<not> owned \<and> hd_malloc_value_size d = 0
      | Inline blk \<Rightarrow> owned \<and> length blk = hd_malloc_value_size d \<and> 0 \<le> hd_value_len d \<and>
          hd_value_len d \<le> int (hd_malloc_value_size d) \<and> None \<notin> set (take (nat (hd_value_len d)) blk))"

definition buckets_ok :: "(bytes \<Rightarrow> nat) \<Rightarrow> bool \<Rightarrow> HashData list list \<Rightarrow> bool" where
  "buckets_ok code owned bs \<longleftrightarrow>
     (\<forall>i < length bs. distinct (map hd_key (bs ! i)) \<and>
        (\<forall>d \<in> set (bs ! i). code (hd_key d) mod length bs = i \<and> node_ok owned d))"

text \<open>
  The invariant of the table: one chain per bucket, each node once and in the chain of its hash code, and the
  counters are those of the nodes.
\<close>

definition hash_ok :: "HashArray \<Rightarrow> bool" where
  "hash_ok H \<longleftrightarrow>
     cap_val (capacity H) = Some (length (buckets H)) \<and> buckets H \<noteq> [] \<and> length (buckets H) < 2 ^ 31 \<and>
     buckets_ok (hash_code H) (is_malloc_value H) (buckets H) \<and>
     item_count H = items (buckets H) \<and>
     bytes_used H = 8 * int (length (buckets H)) + int (weight node_bytes (buckets H)) \<and>
     (is_malloc_capacity H \<longleftrightarrow> (\<exists>n. capacity H = Cell n))"

text \<open>The map that the table stands for.\<close>

datatype hentry = Borrowed nat int | Owned bytes

definition entry_of :: "HashData \<Rightarrow> hentry" where
  "entry_of d =
     (case hd_value d of
        User p \<Rightarrow> Borrowed p (hd_value_len d)
      | Inline blk \<Rightarrow> Owned (map the (take (nat (hd_value_len d)) blk)))"

definition hash_map :: "HashArray \<Rightarrow> bytes \<rightharpoonup> hentry" where
  "hash_map H key =
     map_option entry_of (chain_find_entry (buckets H ! (hash_code H key mod length (buckets H))) key)"

lemma hash_code_update [simp]:
  "hash_code (H\<lparr>buckets := bs\<rparr>) = hash_code H" "hash_code (H\<lparr>item_count := n\<rparr>) = hash_code H"
  "hash_code (H\<lparr>bytes_used := b\<rparr>) = hash_code H" "hash_code (H\<lparr>capacity := c\<rparr>) = hash_code H"
  "hash_code (H\<lparr>is_malloc_capacity := m\<rparr>) = hash_code H"
  by (simp_all add: hash_code_def fun_eq_iff)

lemma bucket_of_ok: "hash_ok H \<Longrightarrow> bucket_of H key = Some (hash_code H key mod length (buckets H))"
  by (simp add: hash_ok_def bucket_of_def)

lemma bucket_index_lt: "hash_ok H \<Longrightarrow> hash_code H key mod length (buckets H) < length (buckets H)"
  by (simp add: hash_ok_def)

lemma buckets_ok_chain:
  "buckets_ok code owned bs \<Longrightarrow> i < length bs \<Longrightarrow> distinct (map hd_key (bs ! i))"
  "buckets_ok code owned bs \<Longrightarrow> i < length bs \<Longrightarrow> d \<in> set (bs ! i) \<Longrightarrow> node_ok owned d"
  "buckets_ok code owned bs \<Longrightarrow> i < length bs \<Longrightarrow> d \<in> set (bs ! i) \<Longrightarrow> code (hd_key d) mod length bs = i"
  by (auto simp: buckets_ok_def)

lemma buckets_ok_update:
  assumes "buckets_ok code owned bs" "distinct (map hd_key ds)"
    "\<And>d. d \<in> set ds \<Longrightarrow> d \<in> set (bs ! i) \<or> (code (hd_key d) mod length bs = i \<and> node_ok owned d)"
  shows "buckets_ok code owned (bs[i := ds])"
  unfolding buckets_ok_def length_list_update
proof (intro allI impI)
  fix j assume j: "j < length bs"
  show "distinct (map hd_key (bs[i := ds] ! j)) \<and>
      (\<forall>d\<in>set (bs[i := ds] ! j). code (hd_key d) mod length bs = j \<and> node_ok owned d)"
  proof (cases "j = i")
    case True
    with j assms show ?thesis using buckets_ok_chain(2,3) [OF assms(1), of i] by auto
  next
    case False
    with j show ?thesis using buckets_ok_chain [OF assms(1), of j] by auto
  qed
qed

lemma hash_ok_distinct: "hash_ok H \<Longrightarrow> i < length (buckets H) \<Longrightarrow> distinct (map hd_key (buckets H ! i))"
  by (rule buckets_ok_chain(1)) (auto simp: hash_ok_def)

lemma find_in_bucket:
  assumes "hash_ok H" "i = hash_code H key mod length (buckets H)"
    "chain_find_entry (buckets H ! i) key = Some d"
  shows "d \<in> set (buckets H ! i)" "hd_key d = key" "node_ok (is_malloc_value H) d"
proof -
  show 1: "d \<in> set (buckets H ! i)" "hd_key d = key" using chain_find_Some [OF assms(3)] by auto
  show "node_ok (is_malloc_value H) d"
    using 1(1) buckets_ok_chain(2) [of "hash_code H" _ "buckets H" i d] bucket_index_lt [OF assms(1), of key] assms(1,2)
    by (simp add: hash_ok_def)
qed

section \<open>Updates of one bucket\<close>

lemma hash_map_update:
  assumes "i = hash_code H key mod length (buckets H)" "i < length (buckets H)"
    "\<And>k. k \<noteq> key \<Longrightarrow> chain_find_entry ds k = chain_find_entry (buckets H ! i) k"
    "buckets H' = (buckets H)[i := ds]" "hash_func H' = hash_func H"
  shows "hash_map H' = (hash_map H)(key := map_option entry_of (chain_find_entry ds key))"
proof
  fix k
  have c: "hash_code H' = hash_code H" using assms(5) by (simp add: hash_code_def fun_eq_iff)
  show "hash_map H' k = ((hash_map H)(key := map_option entry_of (chain_find_entry ds key))) k"
    using assms(1-4) by (auto simp: hash_map_def c nth_list_update)
qed

text \<open>What all updates of a bucket share: the counters follow the nodes.\<close>

lemma hash_ok_update:
  assumes "hash_ok H" "i < length (buckets H)" "distinct (map hd_key ds)"
    "\<And>d. d \<in> set ds \<Longrightarrow> d \<in> set (buckets H ! i) \<or>
       (hash_code H (hd_key d) mod length (buckets H) = i \<and> node_ok (is_malloc_value H) d)"
    "n + length (buckets H ! i) = item_count H + length ds"
    "b + int (sum_list (map node_bytes (buckets H ! i))) = bytes_used H + int (sum_list (map node_bytes ds))"
  shows "hash_ok (H\<lparr>buckets := (buckets H)[i := ds], item_count := n, bytes_used := b\<rparr>)"
proof -
  have "n = items ((buckets H)[i := ds])"
    using weight_update [OF assms(2), of "\<lambda>_. 1" ds] assms(1,5) by (simp add: hash_ok_def sum_list_triv)
  moreover have "b = 8 * int (length (buckets H)) + int (weight node_bytes ((buckets H)[i := ds]))"
    using weight_update [OF assms(2), of node_bytes ds] assms(1,6) by (simp add: hash_ok_def)
  moreover have "buckets_ok (hash_code H) (is_malloc_value H) ((buckets H)[i := ds])"
    using assms by (intro buckets_ok_update) (auto simp: hash_ok_def)
  ultimately show ?thesis using assms(1) by (simp add: hash_ok_def)
qed

lemma put_node_ok:
  assumes H: "hash_ok H" and i: "i = hash_code H key mod length (buckets H)"
    and f: "chain_find_entry (buckets H ! i) key = Some d"
    and d': "hd_key d' = key" "node_ok (is_malloc_value H) d'" "hd_malloc_value_size d' = hd_malloc_value_size d"
  obtains H' where "put_node H i d' = Some H'" "hash_ok H'" "hash_map H' = (hash_map H)(key \<mapsto> entry_of d')"
    "H' = H\<lparr>buckets := buckets H'\<rparr>"
proof -
  have lt: "i < length (buckets H)" using bucket_index_lt [OF H] i by simp
  define ds where "ds = chain_set (buckets H ! i) key d'"
  have nb: "node_bytes d' = node_bytes d"
    using d' find_in_bucket [OF H i f] by (simp add: node_bytes_def)
  have "hash_ok (H\<lparr>buckets := (buckets H)[i := ds], item_count := item_count H, bytes_used := bytes_used H\<rparr>)"
  proof (rule hash_ok_update [OF H lt])
    show "distinct (map hd_key ds)"
      using hash_ok_distinct [OF H lt] d' by (simp add: ds_def)
    show "d \<in> set (buckets H ! i) \<or> (hash_code H (hd_key d) mod length (buckets H) = i \<and> node_ok (is_malloc_value H) d)"
      if "d \<in> set ds" for d
      using that set_chain_set [of "buckets H ! i" key d'] d' i by (auto simp: ds_def)
    show "bytes_used H + int (sum_list (map node_bytes (buckets H ! i))) = bytes_used H + int (sum_list (map node_bytes ds))"
      using chain_set_sum [OF f, of node_bytes d'] nb by (simp add: ds_def)
  qed (simp add: ds_def)
  then have "hash_ok (H\<lparr>buckets := (buckets H)[i := ds]\<rparr>)" by simp
  moreover have "hash_map (H\<lparr>buckets := (buckets H)[i := ds]\<rparr>) = (hash_map H)(key \<mapsto> entry_of d')"
    by (subst hash_map_update [OF i lt, where ds = ds]) (auto simp: ds_def chain_find_set f d')
  moreover have "put_node H i d' = Some (H\<lparr>buckets := (buckets H)[i := ds]\<rparr>)"
    using lt d' by (simp add: put_node_def ds_def)
  ultimately show ?thesis using that by simp
qed

lemma DELETE_ok:
  assumes H: "hash_ok H" and i: "i = hash_code H key mod length (buckets H)"
    and f: "chain_find_entry (buckets H ! i) key = Some d"
  obtains H' where "DELETE_FROM_BUCKET H i d = Some H'" "hash_ok H'" "hash_map H' = (hash_map H)(key := None)"
    "H' = H\<lparr>buckets := buckets H', item_count := item_count H - 1, bytes_used := bytes_used H - int (node_bytes d)\<rparr>"
    "length (buckets H') = length (buckets H)"
proof -
  have lt: "i < length (buckets H)" using bucket_index_lt [OF H] i by simp
  have k: "hd_key d = key" using find_in_bucket [OF H i f] by simp
  have dist: "distinct (map hd_key (buckets H ! i))" using hash_ok_distinct [OF H lt] by simp
  define ds where "ds = chain_unlink (buckets H ! i) key"
  define H' where "H' = H\<lparr>buckets := (buckets H)[i := ds], item_count := item_count H - 1,
    bytes_used := bytes_used H - int (node_bytes d)\<rparr>"
  have s: "sum_list (map g ds) + g d = sum_list (map g (buckets H ! i))" for g :: "HashData \<Rightarrow> nat"
    using chain_unlink_sum [OF f, of g] by (simp add: ds_def)
  have "length (buckets H ! i) \<le> item_count H"
    using H weight_update [OF lt, of "\<lambda>_. 1" "[]"] by (simp add: hash_ok_def sum_list_triv)
  moreover have "length ds + 1 = length (buckets H ! i)" using s [of "\<lambda>_. 1"] by (simp add: sum_list_triv)
  ultimately have n: "item_count H - 1 + length (buckets H ! i) = item_count H + length ds" by simp
  have "hash_ok H'"
    unfolding H'_def
  proof (rule hash_ok_update [OF H lt])
    show "distinct (map hd_key ds)" using dist by (simp add: ds_def chain_unlink_keys distinct_remove1)
    show "d \<in> set (buckets H ! i) \<or> (hash_code H (hd_key d) mod length (buckets H) = i \<and> node_ok (is_malloc_value H) d)"
      if "d \<in> set ds" for d
      using that set_chain_unlink by (auto simp: ds_def)
    show "bytes_used H - int (node_bytes d) + int (sum_list (map node_bytes (buckets H ! i))) =
        bytes_used H + int (sum_list (map node_bytes ds))"
      using s [of node_bytes] by simp
  qed (rule n)
  moreover have "hash_map H' = (hash_map H)(key := None)"
    by (subst hash_map_update [OF i lt, where ds = ds])
      (auto simp: H'_def ds_def chain_find_unlink [OF dist])
  moreover have "DELETE_FROM_BUCKET H i d = Some H'"
    using lt k by (simp add: DELETE_FROM_BUCKET_def H'_def ds_def)
  ultimately show ?thesis using that by (simp add: H'_def)
qed

lemma ADD_ok:
  assumes H: "hash_ok H" and i: "i = hash_code H key mod length (buckets H)"
    and f: "chain_find_entry (buckets H ! i) key = None"
    and d: "hd_key d = key" "node_ok (is_malloc_value H) d"
  obtains H' where "ADD_TO_BUCKET (H\<lparr>bytes_used := bytes_used H + int (node_bytes d)\<rparr>) i d = Some H'" "hash_ok H'"
    "hash_map H' = (hash_map H)(key \<mapsto> entry_of d)"
    "H' = H\<lparr>buckets := buckets H', item_count := item_count H + 1, bytes_used := bytes_used H + int (node_bytes d)\<rparr>"
    "length (buckets H') = length (buckets H)"
proof -
  have lt: "i < length (buckets H)" using bucket_index_lt [OF H] i by simp
  define ds where "ds = d # buckets H ! i"
  define H' where "H' = H\<lparr>buckets := (buckets H)[i := ds], item_count := item_count H + 1,
    bytes_used := bytes_used H + int (node_bytes d)\<rparr>"
  have "hash_ok H'"
    unfolding H'_def
  proof (rule hash_ok_update [OF H lt])
    show "distinct (map hd_key ds)"
      using hash_ok_distinct [OF H lt] f d by (simp add: ds_def chain_find_None)
    show "d' \<in> set (buckets H ! i) \<or> (hash_code H (hd_key d') mod length (buckets H) = i \<and> node_ok (is_malloc_value H) d')"
      if "d' \<in> set ds" for d'
      using that d i by (auto simp: ds_def)
  qed (simp_all add: ds_def)
  moreover have "hash_map H' = (hash_map H)(key \<mapsto> entry_of d)"
    by (subst hash_map_update [OF i lt, where ds = ds]) (auto simp: H'_def ds_def d)
  moreover have "ADD_TO_BUCKET (H\<lparr>bytes_used := bytes_used H + int (node_bytes d)\<rparr>) i d = Some H'"
    using lt by (simp add: ADD_TO_BUCKET_def H'_def ds_def)
  ultimately show ?thesis using that by (simp add: H'_def)
qed

section \<open>All nodes of a table\<close>

definition lookup :: "(bytes \<Rightarrow> nat) \<Rightarrow> HashData list list \<Rightarrow> bytes \<Rightarrow> HashData option" where
  "lookup code bs k = chain_find_entry (bs ! (code k mod length bs)) k"

lemma hash_map_lookup: "hash_map H key = map_option entry_of (lookup (hash_code H) (buckets H) key)"
  by (simp add: hash_map_def lookup_def)

lemma chain_find_distinct:
  "distinct (map hd_key ds) \<Longrightarrow> chain_find_entry ds k = Some d \<longleftrightarrow> d \<in> set ds \<and> hd_key d = k"
  by (induction ds) auto

lemma in_concat_nth: "d \<in> set (concat bs) \<longleftrightarrow> (\<exists>i < length bs. d \<in> set (bs ! i))"
  by (simp only: set_concat UN_iff) (metis in_set_conv_nth)

lemma distinct_concat_index:
  assumes "\<And>i. i < length bs \<Longrightarrow> distinct (map g (bs ! i)) \<and> (\<forall>d \<in> set (bs ! i). h (g d) = off + i)"
  shows "distinct (map g (concat bs))"
  using assms
proof (induction bs arbitrary: off)
  case (Cons b bs)
  have "distinct (map g (concat bs))"
  proof (rule Cons.IH [of "Suc off"])
    fix i assume "i < length bs"
    then show "distinct (map g (bs ! i)) \<and> (\<forall>d \<in> set (bs ! i). h (g d) = Suc off + i)"
      using Cons.prems [of "Suc i"] by simp
  qed
  moreover have "h (g d) = off" if "d \<in> set b" for d using Cons.prems [of 0] that by simp
  moreover have "h (g d) \<noteq> off" if d: "d \<in> set (concat bs)" for d
  proof -
    from d obtain i where i: "i < length bs" "d \<in> set (bs ! i)" by (auto simp only: in_concat_nth)
    then show ?thesis using Cons.prems [of "Suc i"] by simp
  qed
  ultimately show ?case using Cons.prems [of 0] by force
qed simp

lemma buckets_ok_distinct: "buckets_ok code owned bs \<Longrightarrow> distinct (map hd_key (concat bs))"
  by (rule distinct_concat_index [where off = 0 and h = "\<lambda>k. code k mod length bs"]) (simp add: buckets_ok_def)

lemma lookup_concat:
  assumes "buckets_ok code owned bs" "bs \<noteq> []"
  shows "lookup code bs k = chain_find_entry (concat bs) k"
proof -
  let ?i = "code k mod length bs"
  have i: "?i < length bs" using assms(2) by simp
  have "lookup code bs k = Some d \<longleftrightarrow> chain_find_entry (concat bs) k = Some d" for d
  proof -
    have "d \<in> set (concat bs) \<and> hd_key d = k \<longleftrightarrow> d \<in> set (bs ! ?i) \<and> hd_key d = k"
    proof
      assume d: "d \<in> set (concat bs) \<and> hd_key d = k"
      then obtain j where j: "j < length bs" "d \<in> set (bs ! j)" by (auto simp only: in_concat_nth)
      then have "j = ?i" using buckets_ok_chain(3) [OF assms(1) j] d by simp
      with j d show "d \<in> set (bs ! ?i) \<and> hd_key d = k" by simp
    qed (use i in auto)
    then show ?thesis
      by (simp add: lookup_def chain_find_distinct buckets_ok_chain(1) [OF assms(1) i]
          buckets_ok_distinct [OF assms(1)])
  qed
  then show ?thesis by (metis option.exhaust)
qed

section \<open>Moving the nodes to a new array\<close>

definition place :: "(bytes \<Rightarrow> nat) \<Rightarrow> HashData list list \<Rightarrow> HashData \<Rightarrow> HashData list list" where
  "place code bs d = (let i = code (hd_key d) mod length bs in bs[i := d # bs ! i])"

lemma place_length [simp]: "length (place code bs d) = length bs"
  by (simp add: place_def Let_def)

lemma foldl_place_length [simp]: "length (foldl (place code) bs ds) = length bs"
  by (induction ds arbitrary: bs) simp_all

lemma rehash_chain_place:
  assumes "cap_val (capacity H) = Some (length (buckets H))" "buckets H \<noteq> []"
  shows "rehash_chain H ds = Some (H\<lparr>buckets := foldl (place (hash_code H)) (buckets H) ds,
    item_count := item_count H + length ds\<rparr>)"
  using assms
proof (induction ds arbitrary: H)
  case (Cons d ds)
  let ?i = "hash_code H (hd_key d) mod length (buckets H)"
  have i: "?i < length (buckets H)" using Cons.prems(2) by simp
  then have "place (hash_code H) (buckets H) d \<noteq> []"
    using place_length [of "hash_code H" "buckets H" d] Cons.prems(2) by (metis length_0_conv)
  then show ?case
    using i Cons.prems Cons.IH [of "H\<lparr>buckets := place (hash_code H) (buckets H) d, item_count := item_count H + 1\<rparr>"]
    by (simp add: bucket_of_def ADD_TO_BUCKET_def place_def Let_def)
qed simp

lemma rehash_buckets_place:
  assumes "cap_val (capacity H) = Some (length (buckets H))" "buckets H \<noteq> []"
  shows "rehash_buckets H dss = Some (H\<lparr>buckets := foldl (place (hash_code H)) (buckets H) (concat dss),
    item_count := item_count H + length (concat dss)\<rparr>)"
  using assms
proof (induction dss arbitrary: H)
  case (Cons ds dss)
  have "foldl (place (hash_code H)) (buckets H) ds \<noteq> []"
    using Cons.prems(2) foldl_place_length by (metis length_0_conv)
  with Cons show ?case by (simp add: rehash_chain_place)
qed simp

lemma weight_place:
  assumes "bs \<noteq> []"
  shows "weight f (place code bs d) = f d + weight f bs"
proof -
  have "code (hd_key d) mod length bs < length bs" using assms by simp
  from weight_update [OF this, of f "d # bs ! (code (hd_key d) mod length bs)"] show ?thesis
    by (simp add: place_def Let_def)
qed

lemma lookup_place:
  assumes "bs \<noteq> []"
  shows "lookup code (place code bs d) k = (if hd_key d = k then Some d else lookup code bs k)"
  using assms by (auto simp: lookup_def place_def Let_def nth_list_update)

lemma buckets_ok_place:
  assumes "buckets_ok code owned bs" "bs \<noteq> []" "node_ok owned d" "lookup code bs (hd_key d) = None"
  shows "buckets_ok code owned (place code bs d)"
  unfolding place_def Let_def
proof (rule buckets_ok_update [OF assms(1)])
  show "distinct (map hd_key (d # bs ! (code (hd_key d) mod length bs)))"
    using assms by (simp add: lookup_def chain_find_None buckets_ok_chain(1))
qed (use assms(3) in auto)

lemma foldl_place:
  assumes "buckets_ok code owned bs" "bs \<noteq> []" "distinct (map hd_key ds)" "\<forall>d \<in> set ds. node_ok owned d"
    "\<forall>d \<in> set ds. lookup code bs (hd_key d) = None"
  shows "buckets_ok code owned (foldl (place code) bs ds) \<and>
    weight f (foldl (place code) bs ds) = weight f bs + sum_list (map f ds) \<and>
    lookup code (foldl (place code) bs ds) k =
      (case chain_find_entry ds k of Some d \<Rightarrow> Some d | None \<Rightarrow> lookup code bs k)"
  using assms
proof (induction ds arbitrary: bs)
  case (Cons d ds)
  have p: "place code bs d \<noteq> []" using Cons.prems(2) place_length by (metis length_0_conv)
  have "chain_find_entry ds (hd_key d) = None" using Cons.prems(3) by (simp add: chain_find_None)
  moreover have "\<forall>e \<in> set ds. lookup code (place code bs d) (hd_key e) = None"
    using Cons.prems by (auto simp: lookup_place)
  ultimately show ?case
    using Cons.IH [of "place code bs d"] Cons.prems p
    by (auto simp: buckets_ok_place weight_place lookup_place split: option.split)
qed simp

section \<open>Rehashing keeps the map\<close>

text \<open>The invariant without the flag \<open>is_malloc_capacity\<close>, which is set last.\<close>

definition hash_core :: "HashArray \<Rightarrow> bool" where
  "hash_core H \<longleftrightarrow> hash_ok (H\<lparr>is_malloc_capacity := (\<exists>n. capacity H = Cell n)\<rparr>)"

lemma hash_core_ok: "hash_core H \<Longrightarrow> is_malloc_capacity H \<longleftrightarrow> (\<exists>n. capacity H = Cell n) \<Longrightarrow> hash_ok H"
  by (cases H) (simp add: hash_core_def)

lemma hash_ok_core: "hash_ok H \<Longrightarrow> hash_core H"
  by (simp add: hash_core_def hash_ok_def)

lemma hash_map_fields [simp]:
  "hash_map (H\<lparr>is_malloc_capacity := b\<rparr>) = hash_map H" "hash_map (H\<lparr>capacity := c\<rparr>) = hash_map H"
  "hash_map (H\<lparr>bytes_used := u\<rparr>) = hash_map H"
  by (simp_all add: hash_map_def fun_eq_iff)

lemma to_int32_small [simp]: "n < 2 ^ 31 \<Longrightarrow> to_int32 n = int n"
  by (simp add: to_int32_def signed_of_nat signed_take_bit_int_eq_self)

text \<open>What a rehash leaves alone.\<close>

definition same_config :: "HashArray \<Rightarrow> HashArray \<Rightarrow> bool" where
  "same_config H H' \<longleftrightarrow> hash_func H' = hash_func H \<and> is_malloc_value H' = is_malloc_value H \<and>
     max_bytes H' = max_bytes H \<and> load_factor H' = load_factor H \<and> lock_count H' = lock_count H"

lemma hash_alloc_buckets_cases:
  assumes "cap_val (capacity H) = Some c"
  obtains (full) "hash_alloc_buckets al H old = Some (hENOSPC, H, al)"
      "0 < max_bytes H" "max_bytes H < bytes_used H + 8 * int c"
    | (nomem) al' where "hash_alloc_buckets al H old = Some (hENOMEM, H\<lparr>buckets := []\<rparr>, al')" "alloc_next al = (False, al')"
    | (ok) al' where "hash_alloc_buckets al H old =
        Some (0, H\<lparr>buckets := replicate c [], bytes_used := bytes_used H + (8 * int c - 8 * old)\<rparr>, al')"
      "0 < max_bytes H \<Longrightarrow> bytes_used H + 8 * int c \<le> max_bytes H" "alloc_next al = (True, al')"
proof (cases "0 < max_bytes H \<and> max_bytes H < bytes_used H + 8 * int c")
  case True
  with assms full show ?thesis by (simp add: hash_alloc_buckets_def)
next
  case False
  obtain b al' where "alloc_next al = (b, al')" by (cases "alloc_next al")
  with False assms nomem [of al'] ok [of al'] show ?thesis by (cases b) (auto simp: hash_alloc_buckets_def not_less)
qed

lemma buckets_ok_empty: "buckets_ok code owned (replicate c [])"
  by (simp add: buckets_ok_def)

lemma lookup_empty: "0 < c \<Longrightarrow> lookup code (replicate c []) k = None"
  by (simp add: lookup_def)

lemma sum_list_concat: "sum_list (map f (concat bs)) = weight f bs"
  by (induction bs) simp_all

lemma rehash1_cases:
  assumes H: "hash_core H" and c: "cap_val new = Some c" "0 < c" "c < 2 ^ 31"
  obtains (ok) H' al' where "rehash1 al H (int (length (buckets H))) new = Some (0, H', al')"
      "hash_core H'" "hash_map H' = hash_map H" "length (buckets H') = c" "capacity H' = new"
      "same_config H H'" "item_count H' = item_count H"
      "bytes_used H' = bytes_used H + (8 * int c - 8 * int (length (buckets H)))"
      "0 < max_bytes H \<Longrightarrow> bytes_used H + 8 * int c \<le> max_bytes H" "alloc_next al = (True, al')"
    | (fail) r al' where "rehash1 al H (int (length (buckets H))) new = Some (r, H\<lparr>capacity := new\<rparr>, al')" "0 < r"
      "r = hENOSPC \<and> 0 < max_bytes H \<and> max_bytes H < bytes_used H + 8 * int c \<or>
       r = hENOMEM \<and> alloc_next al = (False, al')"
proof -
  have cap: "cap_val (capacity (H\<lparr>capacity := new\<rparr>)) = Some c" using c by simp
  let ?old = "int (length (buckets H))"
  show ?thesis
  proof (cases rule: hash_alloc_buckets_cases [OF cap, of al ?old, case_names full nomem ok])
    case full
    then show ?thesis by (intro fail [of hENOSPC al]) (simp_all add: rehash1_def hENOSPC_def)
  next
    case (nomem al')
    then show ?thesis by (intro fail [of hENOMEM al']) (simp_all add: rehash1_def hENOMEM_def)
  next
    case (ok al')
    define G where "G = H\<lparr>capacity := new, buckets := replicate c [],
      bytes_used := bytes_used H + (8 * int c - 8 * ?old), item_count := 0\<rparr>"
    define bs where "bs = foldl (place (hash_code H)) (replicate c []) (concat (buckets H))"
    define H' where "H' = G\<lparr>buckets := bs, item_count := length (concat (buckets H))\<rparr>"
    have b: "buckets_ok (hash_code H) (is_malloc_value H) (buckets H)" "buckets H \<noteq> []"
      "item_count H = items (buckets H)" "bytes_used H = 8 * ?old + int (weight node_bytes (buckets H))"
      using H by (auto simp: hash_core_def hash_ok_def)
    have g: "cap_val (capacity G) = Some (length (buckets G))" "buckets G \<noteq> []"
      using c by (auto simp: G_def)
    have "hash_code G = hash_code H" by (simp add: G_def hash_code_def fun_eq_iff)
    then have "rehash_buckets G (buckets H) = Some H'"
      using rehash_buckets_place [OF g, of "buckets H"] by (simp add: H'_def G_def bs_def)
    then have r: "rehash1 al H ?old new = Some (0, H', al')"
      using ok(1) by (simp add: rehash1_def G_def)
    have n: "\<forall>d \<in> set (concat (buckets H)). node_ok (is_malloc_value H) d"
      using b(1) by (auto simp only: in_concat_nth buckets_ok_chain(2))
    have e: "\<forall>d \<in> set (concat (buckets H)). lookup (hash_code H) (replicate c []) (hd_key d) = None"
      using c(2) by (simp add: lookup_empty)
    have c0: "replicate c [] \<noteq> ([] :: HashData list list)" using c(2) by simp
    note pl = foldl_place [OF buckets_ok_empty c0 buckets_ok_distinct [OF b(1)] n e]
    have pl1: "buckets_ok (hash_code H) (is_malloc_value H) bs" "weight f bs = weight f (buckets H)" for f
      using pl by (simp_all add: bs_def sum_list_concat)
    have pl2: "lookup (hash_code H) bs k = lookup (hash_code H) (buckets H) k" for k
      using pl [where k = k] b c(2)
      by (simp add: bs_def lookup_empty lookup_concat split: option.splits)
    have code: "hash_code H' = hash_code H" by (simp add: H'_def G_def hash_code_def fun_eq_iff)
    have len: "length bs = c" by (simp add: bs_def)
    have "hash_core H'"
      using pl1 c len b by (auto simp: hash_core_def hash_ok_def H'_def G_def items_concat [symmetric] hash_code_def)
    moreover have "hash_map H' = hash_map H"
      using pl2 by (simp add: fun_eq_iff hash_map_lookup code) (simp add: H'_def)
    moreover have "item_count H' = item_count H" using b(3) by (simp add: H'_def items_concat)
    moreover have "capacity H' = new" "same_config H H'"
        "bytes_used H' = bytes_used H + (8 * int c - 8 * ?old)" "length (buckets H') = c"
      using len by (simp_all add: H'_def G_def same_config_def)
    ultimately show ?thesis using r ok(2,3) that(1) by simp
  qed
qed

section \<open>The next capacity\<close>

lemma prime_array_props:
  "length prime_array = 30" "sorted_wrt (<) prime_array" "prime_array ! 29 = 2147483647" "prime_array ! 0 = 1"
  by (simp_all add: prime_array_def)

lemma prime_nth: "i < 30 \<Longrightarrow> 0 < prime_array ! i \<and> prime_array ! i < 2 ^ 31"
proof -
  assume i: "i < 30"
  have s: "sorted_wrt (<) prime_array" "length prime_array = 30" by (rule prime_array_props)+
  have "prime_array ! 0 \<le> prime_array ! i"
    using i s sorted_wrt_nth_less [of "(<)" prime_array 0 i] by (cases i) auto
  moreover have "prime_array ! i \<le> prime_array ! 29"
    using i s sorted_wrt_nth_less [of "(<)" prime_array i 29] by (cases "i = 29") auto
  ultimately show ?thesis by (simp add: prime_array_props)
qed

lemma prime_loop_spec:
  assumes "\<exists>p \<in> set ps. n < p"
  shows "\<exists>j < length ps. prime_loop i ps n = Prime (i + j) \<and> n < ps ! j \<and> (\<forall>k < j. ps ! k \<le> n)"
  using assms
proof (induction ps arbitrary: i)
  case (Cons p ps)
  show ?case
  proof (cases "n < p")
    case False
    with Cons.prems have "\<exists>p \<in> set ps. n < p" by auto
    from Cons.IH [OF this, of "Suc i"] obtain j where
      "j < length ps" "prime_loop (Suc i) ps n = Prime (Suc i + j)" "n < ps ! j" "\<forall>k < j. ps ! k \<le> n" by auto
    with False show ?thesis by (intro exI [of _ "Suc j"]) (auto simp: nth_Cons' not_less)
  qed auto
qed simp

lemma hash_get_prime_capacity_spec:
  assumes "n < 2 ^ 31 - 1"
  obtains j where "j < 30" "hash_get_prime_capacity n = Prime j" "n < prime_array ! j" "\<forall>k < j. prime_array ! k \<le> n"
proof -
  have t: "take PRIME_ARRAY_SIZE prime_array = prime_array"
    by (simp add: PRIME_ARRAY_SIZE_def prime_array_props)
  have "\<exists>p \<in> set prime_array. n < p"
    using assms by (intro bexI [of _ "prime_array ! 29"] nth_mem) (simp_all only: prime_array_props, simp_all)
  from prime_loop_spec [OF this, of 0] that show ?thesis
    by (auto simp: hash_get_prime_capacity_def t prime_array_props)
qed

lemma cap_val_Prime [simp]: "i < 30 \<Longrightarrow> cap_val (Prime i) = Some (prime_array ! i)"
  by (simp add: prime_array_props)

declare cap_val.simps(2) [simp del]

text \<open>The limit on the memory.\<close>

definition within_limit :: "HashArray \<Rightarrow> bool" where
  "within_limit H \<longleftrightarrow> (0 < max_bytes H \<longrightarrow> bytes_used H \<le> max_bytes H)"

lemma rehash1_capacity: "rehash1 al (H\<lparr>capacity := c\<rparr>) old new = rehash1 al H old new"
  by (simp add: rehash1_def)

lemma rehash_cases:
  assumes H: "hash_ok H" and small: "length (buckets H) < 2 ^ 31 - 1"
  obtains (ok) H' al' where "rehash al H = Some (0, H', al')" "hash_ok H'" "hash_map H' = hash_map H"
      "item_count H' = item_count H" "same_config H H'" "length (buckets H) < length (buckets H')" 
      "0 < max_bytes H \<Longrightarrow> bytes_used H' \<le> max_bytes H \<and> 8 * int (length (buckets H')) \<le> max_bytes H"
    | (fail) r al' where "rehash al H = Some (r, H, al')" "0 < r"
proof -
  define new where "new = (if is_malloc_capacity H then hash_get_prime_capacity (length (buckets H))
    else cap_succ (capacity H))"
  define G where "G = H\<lparr>capacity := new\<rparr>"
  have old: "cap_val (capacity H) = Some (length (buckets H))" using H by (simp add: hash_ok_def)
  obtain j where j: "j < 30" "new = Prime j" "length (buckets H) < prime_array ! j"
  proof (cases "is_malloc_capacity H")
    case True
    then show ?thesis using that hash_get_prime_capacity_spec [OF small] by (metis new_def)
  next
    case False
    then obtain i where i: "capacity H = Prime i"
      using H by (cases "capacity H") (auto simp: hash_ok_def)
    then have l: "i < 30" "length (buckets H) = prime_array ! i"
      using old by (auto simp: cap_val.simps(2) mrd_Some_iff prime_array_props)
    moreover have "i \<noteq> 29"
      using small l by (auto simp: prime_array_props)
    ultimately show ?thesis
      using that [of "i + 1"] False i prime_array_props(1,2) sorted_wrt_nth_less [of "(<)" prime_array i "i + 1"]
      by (simp add: new_def)
  qed
  have c: "cap_val new = Some (prime_array ! j)" "0 < prime_array ! j" "prime_array ! j < 2 ^ 31"
    using j prime_nth [of j] by simp_all
  have r: "rehash al H = do {
     (result, H', al) \<leftarrow> rehash1 al H (int (length (buckets H))) new;
     if result \<noteq> 0 then Some (result, H'\<lparr>capacity := capacity H\<rparr>, al)
     else Some (0, (if is_malloc_capacity H' then H'\<lparr>is_malloc_capacity := False\<rparr> else H'), al)
   }"
  proof -
    have "to_int32 (length (buckets H)) = int (length (buckets H))" using small by simp
    then show ?thesis
      by (simp add: rehash_def old new_def Let_def rehash1_capacity cong: if_cong)
  qed
  show ?thesis
  proof (cases rule: rehash1_cases [OF hash_ok_core [OF H] c, of al, case_names ok fail])
    case (ok H' al')
    define F where "F = (if is_malloc_capacity H' then H'\<lparr>is_malloc_capacity := False\<rparr> else H')"
    have "hash_core F" "\<not> is_malloc_capacity F" "capacity F = Prime j"
      using ok(2,5) j(2) by (auto simp: F_def hash_core_def)
    then have "hash_ok F" by (intro hash_core_ok) simp_all
    moreover have "rehash al H = Some (0, F, al')" using ok(1) by (simp add: r F_def)
    moreover have "0 \<le> bytes_used H" using H by (simp add: hash_ok_def)
    then have "0 < max_bytes H \<Longrightarrow> bytes_used F \<le> max_bytes H \<and> 8 * int (length (buckets F)) \<le> max_bytes H"
      using ok(4,8,9) by (simp add: F_def)
    ultimately show ?thesis
      using ok j(3) by (intro that(1) [of F al']) (auto simp: F_def same_config_def)
  next
    case (fail e al')
    then show ?thesis using r by (intro that(2) [of e al']) simp_all
  qed
qed

section \<open>Optimisation\<close>

text \<open>Two keys of one chain with different hash codes.\<close>

definition conflict_free :: "HashArray \<Rightarrow> bool" where
  "conflict_free H \<longleftrightarrow>
     (\<forall>ds \<in> set (buckets H). \<forall>d \<in> set ds. \<forall>e \<in> set ds. hash_code H (hd_key d) = hash_code H (hd_key e))"

lemma chain_conflicted_iff:
  "chain_conflicted H ds \<longleftrightarrow> (\<exists>d \<in> set ds. \<exists>e \<in> set ds. hash_code H (hd_key d) \<noteq> hash_code H (hd_key e))"
proof (induction ds)
  case (Cons a ds)
  show ?case
  proof (cases "\<exists>p \<in> set ds. hash_code H (hd_key a) \<noteq> hash_code H (hd_key p)")
    case True
    then show ?thesis by (auto simp: list_ex_iff)
  next
    case False
    then show ?thesis by (simp add: list_ex_iff Cons.IH) metis
  qed
qed simp

lemma hash_conflict_count_spec:
  assumes "cap_val (capacity H) = Some (length (buckets H))"
  obtains n where "hash_conflict_count H = Some n" "n = 0 \<longleftrightarrow> conflict_free H"
  using assms that
  by (auto simp: hash_conflict_count_def filter_empty_conv chain_conflicted_iff conflict_free_def)

lemma conflict_free_flag: "conflict_free (H\<lparr>is_malloc_capacity := b\<rparr>) \<longleftrightarrow> conflict_free H"
  by (simp add: conflict_free_def)

text \<open>A capacity above all hash codes leaves no conflicts.\<close>

lemma large_capacity_conflict_free:
  assumes "buckets_ok (hash_code H) owned (buckets H)" "\<And>k. hash_code H k < length (buckets H)"
  shows "conflict_free H"
proof -
  have "hash_code H (hd_key d) = i" if "i < length (buckets H)" "d \<in> set (buckets H ! i)" for i d
    using buckets_ok_chain(3) [OF assms(1) that] assms(2) by simp
  then show ?thesis unfolding conflict_free_def by (metis in_set_conv_nth)
qed

lemma no_factor_mod: "no_factor (n + m) = no_factor (n mod 105 + m)"
proof -
  have "(n + m) mod q = (n mod 105 + m) mod q" if "q dvd 105" for q :: nat
    using that by (metis mod_add_left_eq mod_mod_cancel)
  then show ?thesis by (simp add: no_factor_def)
qed

lemma no_factor_gap: "\<exists>k \<in> {1..6}. no_factor (n + 2 * k)"
proof -
  have "list_all (\<lambda>r. list_ex (\<lambda>k. no_factor (r + 2 * k)) [1..<7]) [0..<105]"
    unfolding no_factor_def by code_simp
  then have "\<forall>r < 105. \<exists>k \<in> {1..6}. no_factor (r + 2 * k)"
    by (fastforce simp: list_all_iff list_ex_iff)
  then have "\<exists>k \<in> {1..6}. no_factor (n mod 105 + 2 * k)" by simp
  then show ?thesis by (simp add: no_factor_mod [of n])
qed

lemma next_capacity_steps:
  assumes "no_factor (n + 2 * Suc k)" "n + 2 * Suc k < 2 ^ 32"
  shows "\<exists>m. next_capacity n = Some m \<and> n < m \<and> m \<le> n + 2 * Suc k \<and> no_factor m"
  using assms
proof (induction k arbitrary: n)
  case 0
  then show ?case by (subst next_capacity.simps) simp
next
  case (Suc k)
  show ?case
  proof (cases "no_factor (n + 2)")
    case True
    with Suc.prems show ?thesis by (subst next_capacity.simps) simp
  next
    case False
    have s: "next_capacity n = next_capacity (n + 2)"
      using Suc.prems(2) False by (subst next_capacity.simps) simp
    have "no_factor (n + 2 + 2 * Suc k)" "n + 2 + 2 * Suc k < 2 ^ 32" using Suc.prems by simp_all
    from Suc.IH [OF this] obtain m where
      "next_capacity (n + 2) = Some m" "n + 2 < m" "m \<le> n + 2 + 2 * Suc k" "no_factor m" by blast
    then show ?thesis unfolding s by (intro exI [of _ m]) simp
  qed
qed

lemma next_capacity_some:
  assumes "n + 12 < 2 ^ 32"
  obtains m where "next_capacity n = Some m" "n < m" "m \<le> n + 12" "no_factor m"
proof -
  obtain k where k: "k \<in> {1..6}" "no_factor (n + 2 * k)" using no_factor_gap by blast
  then obtain k' where "k = Suc k'" by (cases k) auto
  with k next_capacity_steps [of n k'] assms that show ?thesis by fastforce
qed

lemma hash_core_cap: "hash_core H \<Longrightarrow> cap_val (capacity H) = Some (length (buckets H))"
  by (simp add: hash_core_def hash_ok_def)

lemma hash_core_buckets:
  "hash_core H \<Longrightarrow> buckets_ok (hash_code H) (is_malloc_value H) (buckets H)"
  "hash_core H \<Longrightarrow> 0 < length (buckets H)" "hash_core H \<Longrightarrow> length (buckets H) < 2 ^ 31"
  by (simp_all add: hash_core_def hash_ok_def)

lemma hash_core_flag: "hash_core (H\<lparr>is_malloc_capacity := b\<rparr>) \<longleftrightarrow> hash_core H"
  by (simp add: hash_core_def)

text \<open>
  The loop ends: the capacity grows, and when it has passed all hash codes there are no conflicts left.
\<close>

lemma alloc_next_False: "alloc_next al = (False, al') \<Longrightarrow> False \<in> set al"
  by (cases al) auto

lemma alloc_next_subset: "alloc_next al = (b, al') \<Longrightarrow> set al' \<subseteq> set al"
  by (cases al) auto

text \<open>Why the search fails: an allocation failed, or the next capacity would have broken the limit.\<close>

definition best_failure :: "HashArray \<Rightarrow> alloc \<Rightarrow> nat \<Rightarrow> int \<Rightarrow> HashArray \<Rightarrow> bool" where
  "best_failure H al n r H' \<longleftrightarrow> r = - hENOMEM \<and> False \<in> set al \<or>
     r = - hENOSPC \<and> 0 < max_bytes H \<and>
       (\<exists>c. c \<le> max n (length (buckets H')) + 12 \<and> max_bytes H < bytes_used H' + 8 * int c)"

lemma best_failure_next:
  assumes "best_failure H' al' m r H''" "alloc_next al = (b, al')" "max_bytes H' = max_bytes H"
    "m \<le> length (buckets H'')"
  shows "best_failure H al n r H''"
  using assms alloc_next_subset [OF assms(2)] by (fastforce simp: best_failure_def max_def)

lemma best_loop_ends:
  assumes "hash_core H" "\<And>k. hash_code H k \<le> 2 ^ 30" "n \<le> 2 ^ 30"
  shows "\<exists>r H' al'. best_loop al H (int (length (buckets H))) n = Some (r, H', al') \<and> hash_ok H' \<and>
    hash_map H' = hash_map H \<and> item_count H' = item_count H \<and> same_config H H' \<and>
    (r = 1 \<and> conflict_free H' \<or> r < 0 \<and> best_failure H al n r H') \<and> (within_limit H \<longrightarrow> within_limit H') \<and>
    (length (buckets H) < 2 ^ 31 - 1 \<longrightarrow> length (buckets H') < 2 ^ 31 - 1) \<and>
    (length (buckets H') = length (buckets H) \<or> n < length (buckets H'))"
  using assms
proof (induction "2 ^ 30 - n" arbitrary: al H n rule: less_induct)
  case less
  have n: "n + 12 < 2 ^ 32" using less.prems(3) by simp
  then obtain m where m: "next_capacity n = Some m" "n < m" "m \<le> n + 12" by (rule next_capacity_some)
  have c: "cap_val (Cell m) = Some m" "0 < m" "m < 2 ^ 31" using m less.prems(3) by auto
  have len: "length (buckets H) < 2 ^ 31" "0 < length (buckets H)"
    using hash_core_buckets(2,3) [OF less.prems(1)] by simp_all
  show ?case
  proof (cases rule: rehash1_cases [OF less.prems(1) c, of al, case_names ok fail])
    case (fail r al')
    define F where "F = H\<lparr>capacity := Cell (length (buckets H)), is_malloc_capacity := True\<rparr>"
    have "hash_ok F"
      using less.prems(1) by (intro hash_core_ok) (auto simp: F_def hash_core_def hash_ok_def)
    moreover have "best_loop al H (int (length (buckets H))) n = Some (- r, F, al')"
      using fail len(1) by (subst best_loop.simps) (simp add: m F_def nat_mod_as_int)
    moreover have "best_failure H al n (- r) F"
      using fail(3) m(3) by (auto simp: best_failure_def F_def le_max_iff_disj intro: alloc_next_False)
    ultimately show ?thesis using fail(2) by (auto simp: F_def same_config_def within_limit_def)
  next
    case (ok H' al')
    have lim: "within_limit H'" "length (buckets H') < 2 ^ 31 - 1"
      using ok m(3) less.prems(3) by (auto simp: within_limit_def same_config_def)
    obtain cc where cc: "hash_conflict_count H' = Some cc" "cc = 0 \<longleftrightarrow> conflict_free H'"
      using hash_conflict_count_spec [OF hash_core_cap [OF ok(2)]] .
    have code: "hash_code H' = hash_code H" using ok(6) by (simp add: same_config_def hash_code_def fun_eq_iff)
    have s: "best_loop al H (int (length (buckets H))) n =
        (if 0 < cc then best_loop al' H' (int m) m else Some (1, H'\<lparr>is_malloc_capacity := True\<rparr>, al'))"
      using c(3) by (subst best_loop.simps) (simp add: m ok(1) cc(1))
    show ?thesis
    proof (cases "cc = 0")
      case True
      have "hash_ok (H'\<lparr>is_malloc_capacity := True\<rparr>)"
        using ok(2,5) by (intro hash_core_ok) (simp_all add: hash_core_flag)
      moreover have "conflict_free (H'\<lparr>is_malloc_capacity := True\<rparr>)"
        using True cc(2) by (simp only: conflict_free_flag)
      ultimately show ?thesis using True ok lim m(2) by (simp add: s) (auto simp: same_config_def within_limit_def)
    next
      case False
      have "m \<le> 2 ^ 30"
      proof (rule ccontr)
        assume "\<not> m \<le> 2 ^ 30"
        then have "\<And>k. hash_code H' k < length (buckets H')"
          using less.prems(2) ok(4) code by (metis le_less_trans not_le)
        then have "conflict_free H'"
          using large_capacity_conflict_free [OF hash_core_buckets(1) [OF ok(2)]] by blast
        with False cc(2) show False by simp
      qed
      moreover have "(2 :: nat) ^ 30 - m < 2 ^ 30 - n" using m(2) \<open>m \<le> 2 ^ 30\<close> by simp
      ultimately have "\<exists>r H'' al''. best_loop al' H' (int (length (buckets H'))) m = Some (r, H'', al'') \<and> hash_ok H'' \<and>
          hash_map H'' = hash_map H' \<and> item_count H'' = item_count H' \<and> same_config H' H'' \<and>
          (r = 1 \<and> conflict_free H'' \<or> r < 0 \<and> best_failure H' al' m r H'') \<and> (within_limit H' \<longrightarrow> within_limit H'') \<and>
          (length (buckets H') < 2 ^ 31 - 1 \<longrightarrow> length (buckets H'') < 2 ^ 31 - 1) \<and>
          (length (buckets H'') = length (buckets H') \<or> m < length (buckets H''))"
        using less.prems(2) code by (intro less.hyps [OF _ ok(2)]) auto
      then obtain r H'' al'' where R: "best_loop al' H' (int (length (buckets H'))) m = Some (r, H'', al'')"
        "hash_ok H''" "hash_map H'' = hash_map H'" "item_count H'' = item_count H'" "same_config H' H''"
        "r = 1 \<and> conflict_free H'' \<or> r < 0 \<and> best_failure H' al' m r H''" "within_limit H' \<longrightarrow> within_limit H''"
        "length (buckets H'') < 2 ^ 31 - 1" "m \<le> length (buckets H'')"
        using lim(2) ok(4) by auto
      have "max_bytes H' = max_bytes H" using ok(6) by (simp add: same_config_def)
      then have "r = 1 \<and> conflict_free H'' \<or> r < 0 \<and> best_failure H al n r H''"
        using R(6) best_failure_next [OF _ ok(10) _ R(9)] by blast
      moreover have "best_loop al H (int (length (buckets H))) n = Some (r, H'', al'')"
        using False ok(4) R(1) by (simp add: s)
      ultimately show ?thesis
        using R(2-5,7-9) ok(3,6,7) lim(1) m(2) by (intro exI [of _ r] exI [of _ H''] exI [of _ al'']) (auto simp: same_config_def)
    qed
  qed
qed

lemma hash_best_op_total:
  assumes "hash_ok H" "\<And>k. hash_code H k \<le> 2 ^ 30" "best_start H suggest \<le> 2 ^ 30"
  obtains (optimal) "hash_best_op al H suggest = Some (0, H, al)" "conflict_free H"
    | (run) r H' al' where "hash_best_op al H suggest = Some (r, H', al')" "hash_ok H'" "hash_map H' = hash_map H"
        "item_count H' = item_count H" "same_config H H'" "r = 1 \<and> conflict_free H' \<or> r < 0 \<and> best_failure H al (best_start H suggest) r H'"
        "within_limit H \<Longrightarrow> within_limit H'" "length (buckets H) < 2 ^ 31 - 1 \<Longrightarrow> length (buckets H') < 2 ^ 31 - 1"
proof -
  have core: "hash_core H" using assms(1) by (rule hash_ok_core)
  obtain cc where cc: "hash_conflict_count H = Some cc" "cc = 0 \<longleftrightarrow> conflict_free H"
    using hash_conflict_count_spec [OF hash_core_cap [OF core]] .
  have cap: "cap_val (capacity H) = Some (length (buckets H))" using core by (rule hash_core_cap)
  obtain b al' where al: "alloc_next al = (b, al')" by (cases "alloc_next al")
  show ?thesis
  proof (cases "cc = 0")
    case True
    then show ?thesis using cc by (intro optimal) (auto simp: hash_best_op_def)
  next
    case False
    then have s: "hash_best_op al H suggest =
        (if b then best_loop al' H (int (length (buckets H))) (best_start H suggest) else Some (- hENOMEM, H, al'))"
      using hash_core_buckets(3) [OF core] by (simp add: hash_best_op_def cc cap al)
    show ?thesis
    proof (cases b)
      case True
      have "best_failure H al (best_start H suggest) r H'" if "best_failure H al' (best_start H suggest) r H'" for r H'
        using that alloc_next_subset [OF al] by (auto simp: best_failure_def)
      with True best_loop_ends [OF core assms(2,3), of al'] s show ?thesis using run by (simp, blast)
    next
      case False
      then have "best_failure H al (best_start H suggest) (- hENOMEM) H"
        using al by (simp add: best_failure_def alloc_next_False)
      with False s assms(1) show ?thesis by (intro run [of "- hENOMEM" H al']) (auto simp: same_config_def hENOMEM_def)
    qed
  qed
qed

end
