(* ===== verification/HashOps.thy ===== *)
theory HashOps
  imports HashInv
begin

text \<open>
  The effect of each operation of the hash table on its map: insertion (\<open>hash_insert_ex_ok\<close>), deletion, lookup, partial updates,
  decimal counters (\<open>hash_inc_ex_ok\<close>) and initialisation.
\<close>

section \<open>Insertion\<close>

text \<open>What a node stores for the value at \<open>val\<close>.\<close>

definition stored :: "umem \<Rightarrow> HashArray \<Rightarrow> nat \<Rightarrow> int \<Rightarrow> hentry option" where
  "stored um H val value_len =
     (if is_malloc_value H then map_option Owned (um_read um val value_len) else Some (Borrowed val value_len))"

lemma those_Some: "those xs = Some ys \<longleftrightarrow> xs = map Some ys"
proof (induction xs arbitrary: ys)
  case (Cons x xs)
  show ?case
  proof (cases "those xs")
    case None
    then have "xs \<noteq> map Some zs" for zs using Cons.IH [of zs] by simp
    with None show ?thesis by (cases x; cases ys) auto
  next
    case (Some zs)
    then have "xs = map Some zs" using Cons.IH [of zs] by simp
    with Some show ?thesis by (cases x; cases ys) (auto simp: map_eq_conv inj_map_eq_map)
  qed
qed auto

lemma um_read_Some: "um_read um p n = Some bs \<Longrightarrow> 0 \<le> n \<and> length bs = nat n"
  by (auto simp: um_read_def those_Some split: if_splits dest: arg_cong [of _ _ length])

lemma MEM_ALIGN_bounds:
  assumes "0 \<le> x" "x + 7 \<le> INT_MAX"
  obtains y where "MEM_ALIGN x = Some y" "x \<le> y" "y \<le> x + 7" "y = (x + 7) div 8 * 8"
proof -
  have "NOT 7 = NOT (mask 3 :: int)" by (simp add: mask_eq_exp_minus_1)
  moreover have "a AND NOT (mask 3) = push_bit 3 (drop_bit 3 a)" for a :: int
    by (rule bit_eqI) (auto simp: bit_and_iff bit_not_iff bit_mask_iff bit_push_bit_iff bit_drop_bit_eq)
  ultimately have "(x + 7) AND NOT 7 = push_bit 3 (drop_bit 3 (x + 7))" by (simp only:)
  also have "\<dots> = (x + 7) div 8 * 8" by (simp add: push_bit_eq_mult drop_bit_eq_div)
  finally have y: "(x + 7) AND NOT 7 = (x + 7) div 8 * 8" .
  show ?thesis
    using assms by (intro that [of "(x + 7) div 8 * 8"]) (simp_all add: MEM_ALIGN_def y [simplified] INT_MIN_def)
qed

text \<open>A value that is copied into a block.\<close>

lemma node_ok_copy:
  assumes "length blk = m" "length bs \<le> m"
  obtains blk' where "mput blk 0 (map Some bs) = Some blk'"
    "node_ok True (d\<lparr>hd_value_len := int (length bs), hd_malloc_value_size := m, hd_value := Inline blk'\<rparr>)"
    "entry_of (d\<lparr>hd_value_len := int (length bs), hd_malloc_value_size := m, hd_value := Inline blk'\<rparr>) = Owned bs"
  using assms by (intro that [of "map Some bs @ drop (length bs) blk"]) (auto simp: mput_def node_ok_def entry_of_def)

text \<open>
  What an insertion returns: 0 when the value of the old node is replaced where it is, 1 when a new node is added (also for a
  key whose old node has the wrong size), and otherwise the error of the limit or of the allocator. The bytes that count
  against the limit are those of the new node, after the old one has been given back.
\<close>

definition updates_in_place :: "HashArray \<Rightarrow> bytes \<Rightarrow> int \<Rightarrow> bool" where
  "updates_in_place H key value_len \<longleftrightarrow>
     (case hash_find_ex H key of
        Some (Some d) \<Rightarrow> is_malloc_value H \<longrightarrow> value_len \<le> int (hd_malloc_value_size d) \<and>
          (hd_malloc_value_size d \<le> 128 \<or> int (hd_malloc_value_size d div 2) < value_len)
      | _ \<Rightarrow> False)"

definition node_size :: "HashArray \<Rightarrow> bytes \<Rightarrow> int \<Rightarrow> int" where
  "node_size H key value_len = 32 + int (length key) + (if is_malloc_value H then (value_len + 7) div 8 * 8 else 0)"

definition old_node_size :: "HashArray \<Rightarrow> bytes \<Rightarrow> int" where
  "old_node_size H key = (case hash_find_ex H key of Some (Some d) \<Rightarrow> int (node_bytes d) | _ \<Rightarrow> 0)"

definition over_limit :: "HashArray \<Rightarrow> bytes \<Rightarrow> int \<Rightarrow> bool" where
  "over_limit H key value_len \<longleftrightarrow>
     0 < max_bytes H \<and> max_bytes H < bytes_used H - old_node_size H key + node_size H key value_len"

definition insert_result :: "alloc \<Rightarrow> HashArray \<Rightarrow> bytes \<Rightarrow> int \<Rightarrow> int" where
  "insert_result al H key value_len =
     (if updates_in_place H key value_len then 0
      else if over_limit H key value_len then - hENOSPC
      else if fst (alloc_next al) then 1 else - hENOMEM)"

lemma hash_find_ex_ok:
  "hash_ok H \<Longrightarrow> hash_find_ex H key = Some (chain_find_entry (buckets H ! (hash_code H key mod length (buckets H))) key)"
  using bucket_index_lt [of H key] by (simp add: hash_find_ex_def bucket_of_ok)

lemma insert_alloc_cases:
  assumes H: "0 \<le> value_len" "int (length key) + value_len + 48 \<le> INT_MAX"
    and e: "stored um H val value_len = Some e"
  obtains (ok) d al' where "insert_alloc al um H key val value_len =
      Some (Inr d, H\<lparr>bytes_used := bytes_used H + int (node_bytes d)\<rparr>, al')" "hd_key d = key"
      "node_ok (is_malloc_value H) d" "entry_of d = e"
      "0 < max_bytes H \<Longrightarrow> bytes_used H + int (node_bytes d) \<le> max_bytes H" "fst (alloc_next al)"
      "int (node_bytes d) = node_size H key value_len"
    | (fail) r al' where "insert_alloc al um H key val value_len = Some (Inl r, H, al')" "r < 0"
      "if 0 < max_bytes H \<and> max_bytes H < bytes_used H + node_size H key value_len then r = - hENOSPC
       else \<not> fst (alloc_next al) \<and> r = - hENOMEM"
proof -
  obtain m where m: "(if \<not> is_malloc_value H then Some 0 else MEM_ALIGN value_len) = Some (int m)"
    "is_malloc_value H \<Longrightarrow> value_len \<le> int m" "int m \<le> value_len + 7" "\<not> is_malloc_value H \<Longrightarrow> m = 0"
    "int m = (if is_malloc_value H then (value_len + 7) div 8 * 8 else 0)"
  proof (cases "is_malloc_value H")
    case True
    have "value_len + 7 \<le> INT_MAX" using H by simp
    from MEM_ALIGN_bounds [OF H(1) this] obtain y where "MEM_ALIGN value_len = Some y" "value_len \<le> y" "y \<le> value_len + 7"
      "y = (value_len + 7) div 8 * 8" .
    with True H(1) show ?thesis using that [of "nat y"] by simp
  qed (use that [of 0] H in simp)
  define need where "need = CALC_NODE_MALLOC_BYTES (length key) m"
  have small: "need < 2 ^ 31"
    using m(3) H by (simp add: need_def CALC_NODE_MALLOC_BYTES_def sizeof_HashData_def INT_MAX_def)
  have size: "int need = node_size H key value_len"
    using m(5) by (simp add: need_def CALC_NODE_MALLOC_BYTES_def sizeof_HashData_def node_size_def)
  define d where "d v = \<lparr>hd_key = key, hd_value_len = value_len, hd_malloc_value_size = m, hd_value = v\<rparr>" for v
  have nb: "node_bytes (d v) = need" for v by (simp add: d_def node_bytes_def need_def)
  obtain v where v: "(if \<not> is_malloc_value H then Some (User val)
      else do { bs \<leftarrow> um_read um val value_len; blk \<leftarrow> mput (replicate m None) 0 (map Some bs); Some (Inline blk) }) = Some v"
    "node_ok (is_malloc_value H) (d v)" "entry_of (d v) = e"
  proof (cases "is_malloc_value H")
    case False
    then show ?thesis using e m(4) by (intro that [of "User val"]) (auto simp: stored_def node_ok_def d_def entry_of_def)
  next
    case True
    with e obtain bs where bs: "um_read um val value_len = Some bs" "e = Owned bs" by (auto simp: stored_def)
    then have l: "int (length bs) = value_len" using um_read_Some by fastforce
    then have "length bs \<le> m" using m(2) True by simp
    from node_ok_copy [OF length_replicate this, of None "d (User 0)"] obtain blk where blk:
      "mput (replicate m None) 0 (map Some bs) = Some blk" "node_ok True (d (Inline blk))" "entry_of (d (Inline blk)) = Owned bs"
      by (auto simp: d_def l)
    with True bs show ?thesis by (intro that [of "Inline blk"]) simp_all
  qed
  obtain b al' where al: "alloc_next al = (b, al')" by (cases "alloc_next al")
  have s: "insert_alloc al um H key val value_len =
      (if 0 < max_bytes H \<and> max_bytes H < bytes_used H + int need then Some (Inl (- hENOSPC), H, al)
       else if \<not> b then Some (Inl (- hENOMEM), H, al')
       else Some (Inr (d v), H\<lparr>bytes_used := bytes_used H + int need\<rparr>, al'))"
    unfolding insert_alloc_def m(1) using small v(1)
    by (simp add: Let_def al to_int32_small [OF small] d_def flip: need_def cong: if_cong)
  show ?thesis
  proof (cases "0 < max_bytes H \<and> max_bytes H < bytes_used H + int need \<or> \<not> b")
    case True
    then show ?thesis
      using s al size fail [of "- hENOSPC" al] fail [of "- hENOMEM" al'] by (auto simp: hENOSPC_def hENOMEM_def split: if_splits)
  next
    case False
    have "hd_key (d v) = key" by (simp add: d_def)
    with False show ?thesis using s v(2,3) al size by (intro ok [of "d v" al']) (auto simp: nb)
  qed
qed

lemma hash_map_find:
  "i = hash_code H key mod length (buckets H) \<Longrightarrow>
   hash_map H key = map_option entry_of (chain_find_entry (buckets H ! i) key)"
  by (simp add: hash_map_def)

lemma insert_lookup_cases:
  assumes H: "hash_ok H" and i: "i = hash_code H key mod length (buckets H)"
    and e: "stored um H val value_len = Some e"
  obtains (updated) H' where "insert_lookup um H i key val value_len = Some (Updated H')" "hash_ok H'"
      "hash_map H' = (hash_map H)(key \<mapsto> e)" "same_config H H'" "bytes_used H' = bytes_used H"
      "length (buckets H') = length (buckets H)" "hash_map H key \<noteq> None" "item_count H' = item_count H"
      "updates_in_place H key value_len"
    | (absent) H' where "insert_lookup um H i key val value_len = Some (Absent H')" "hash_ok H'"
      "hash_map H' = (hash_map H)(key := None)" "same_config H H'" "bytes_used H' \<le> bytes_used H"
      "length (buckets H') = length (buckets H)" "item_count H' + (if hash_map H key = None then 0 else 1) = item_count H"
      "\<not> updates_in_place H key value_len" "bytes_used H' = bytes_used H - old_node_size H key"
proof (cases "chain_find_entry (buckets H ! i) key")
  have lt: "i < length (buckets H)" using bucket_index_lt [OF H] i by simp
  case None
  then have "\<not> updates_in_place H key value_len" "old_node_size H key = 0"
    using hash_find_ex_ok [OF H, of key, folded i] by (simp_all add: updates_in_place_def old_node_size_def)
  with None show ?thesis using absent [of H] H lt hash_map_find [OF i]
    by (simp add: insert_lookup_def same_config_def fun_upd_idem)
next
  have lt: "i < length (buckets H)" using bucket_index_lt [OF H] i by simp
  case (Some d)
  note d = find_in_bucket [OF H i Some]
  have old: "hash_map H key \<noteq> None" using hash_map_find [OF i] Some by simp
  have find: "hash_find_ex H key = Some (Some d)" using hash_find_ex_ok [OF H, of key, folded i] Some by simp
  show ?thesis
  proof (cases "is_malloc_value H")
    case False
    define d' where "d' = d\<lparr>hd_value_len := value_len, hd_value := User val\<rparr>"
    have "hd_malloc_value_size d = 0" using d(3) False by (auto simp: node_ok_def split: hvalue.splits)
    then have d': "hd_key d' = key" "node_ok (is_malloc_value H) d'" "hd_malloc_value_size d' = hd_malloc_value_size d"
      "entry_of d' = e"
      using d(2) e False by (auto simp: d'_def node_ok_def stored_def entry_of_def)
    from put_node_ok [OF H i Some d'(1-3)] obtain H' where H': "put_node H i d' = Some H'" "hash_ok H'"
      "hash_map H' = (hash_map H)(key \<mapsto> e)" "H' = H\<lparr>buckets := buckets H'\<rparr>" using d'(4) by metis
    then have "insert_lookup um H i key val value_len = Some (Updated H')"
      using lt Some False by (simp add: insert_lookup_def d'_def)
    moreover have "same_config H H'" "bytes_used H' = bytes_used H" "capacity H' = capacity H"
      "item_count H' = item_count H"
      by (subst H'(4), simp add: same_config_def)+
    moreover from this H'(2) H have "length (buckets H') = length (buckets H)" by (simp add: hash_ok_def)
    moreover have "updates_in_place H key value_len" using find False by (simp add: updates_in_place_def)
    ultimately show ?thesis using updated H' old by blast
  next
    case True
    with e obtain bs where bs: "um_read um val value_len = Some bs" "e = Owned bs" by (auto simp: stored_def)
    then have l: "int (length bs) = value_len" "0 \<le> value_len" using um_read_Some by fastforce+
    from d(3) True obtain blk where blk: "hd_value d = Inline blk" "length blk = hd_malloc_value_size d"
      by (auto simp: node_ok_def split: hvalue.splits)
    let ?fits = "value_len \<le> int (hd_malloc_value_size d) \<and>
      (hd_malloc_value_size d \<le> 128 \<or> int (hd_malloc_value_size d div 2) < value_len)"
    show ?thesis
    proof (cases ?fits)
      case fits: True
      then have "length bs \<le> hd_malloc_value_size d" using l by simp
      from node_ok_copy [OF blk(2) this, of d] obtain blk' where blk': "mput blk 0 (map Some bs) = Some blk'"
        "node_ok True (d\<lparr>hd_value_len := value_len, hd_value := Inline blk'\<rparr>)"
        "entry_of (d\<lparr>hd_value_len := value_len, hd_value := Inline blk'\<rparr>) = e"
        using bs l by auto
      define d' where "d' = d\<lparr>hd_value_len := value_len, hd_value := Inline blk'\<rparr>"
      have d': "hd_key d' = key" "node_ok (is_malloc_value H) d'" "hd_malloc_value_size d' = hd_malloc_value_size d"
        "entry_of d' = e"
        using d(2) blk' True by (auto simp: d'_def)
      from put_node_ok [OF H i Some d'(1-3)] obtain H' where H': "put_node H i d' = Some H'" "hash_ok H'"
        "hash_map H' = (hash_map H)(key \<mapsto> e)" "H' = H\<lparr>buckets := buckets H'\<rparr>" using d'(4) by metis
      then have "insert_lookup um H i key val value_len = Some (Updated H')"
        using lt Some True fits blk(1) bs(1) blk'(1) by (simp add: insert_lookup_def d'_def)
      moreover have "same_config H H'" "bytes_used H' = bytes_used H" "capacity H' = capacity H"
        "item_count H' = item_count H"
        by (subst H'(4), simp add: same_config_def)+
      moreover from this H'(2) H have "length (buckets H') = length (buckets H)" by (simp add: hash_ok_def)
      moreover have "updates_in_place H key value_len" using find fits by (simp add: updates_in_place_def)
      ultimately show ?thesis using updated H' old by blast
    next
      case False
      from DELETE_ok [OF H i Some] obtain H' where H': "DELETE_FROM_BUCKET H i d = Some H'" "hash_ok H'"
        "hash_map H' = (hash_map H)(key := None)"
        "H' = H\<lparr>buckets := buckets H', item_count := item_count H - 1, bytes_used := bytes_used H - int (node_bytes d)\<rparr>"
        "length (buckets H') = length (buckets H)" .
      then have "insert_lookup um H i key val value_len = Some (Absent H')"
        using lt Some True False by (auto simp: insert_lookup_def)
      moreover have "same_config H H'" "bytes_used H' \<le> bytes_used H"
        by (subst H'(4), simp add: same_config_def)+
      moreover have "0 < item_count H"
        using H weight_update [OF lt, of "\<lambda>_. 1" "[]"] d(1)
        by (cases "buckets H ! i") (auto simp: hash_ok_def)
      then have "item_count H' + (if hash_map H key = None then 0 else 1) = item_count H"
        using old by (subst H'(4)) auto
      moreover have "\<not> updates_in_place H key value_len" using find True False by (simp add: updates_in_place_def)
      moreover have "bytes_used H' = bytes_used H - old_node_size H key"
        by (subst H'(4)) (simp add: old_node_size_def find)
      ultimately show ?thesis using absent H' by blast
    qed
  qed
qed

lemma within_limit_mono: "within_limit H \<Longrightarrow> same_config H H' \<Longrightarrow> bytes_used H' \<le> bytes_used H \<Longrightarrow> within_limit H'"
  by (auto simp: within_limit_def same_config_def)

lemma same_config_trans: "same_config H H' \<Longrightarrow> same_config H' H'' \<Longrightarrow> same_config H H''"
  by (simp add: same_config_def)

lemma insert_grow_ok:
  assumes "hash_ok H" "length (buckets H) < 2 ^ 31 - 1"
  obtains H' al' where "insert_grow al H = Some (H', al')" "hash_ok H'" "hash_map H' = hash_map H" "same_config H H'"
    "item_count H' = item_count H"
    "length (buckets H') = length (buckets H) \<and> bytes_used H' = bytes_used H \<or>
     (0 < max_bytes H \<longrightarrow> bytes_used H' \<le> max_bytes H \<and> 8 * int (length (buckets H')) \<le> max_bytes H)"
proof -
  have cap: "cap_val (capacity H) = Some (length (buckets H))" using assms(1) by (simp add: hash_ok_def)
  show ?thesis
  proof (cases "double_0_10 \<le> load_factor H \<and> load_factor H \<le> double_div (item_count H) (length (buckets H))")
    case True
    show ?thesis
    proof (cases rule: rehash_cases [OF assms, of al, case_names ok fail])
      case (ok H' al')
      then show ?thesis using True cap by (intro that [of H' al']) (auto simp: insert_grow_def)
    next
      case (fail r al')
      then show ?thesis using True cap assms(1)
        by (intro that [of H al']) (auto simp: insert_grow_def same_config_def)
    qed
  next
    case False
    then show ?thesis using cap assms(1)
      by (intro that [of H al]) (auto simp: insert_grow_def same_config_def)
  qed
qed

text \<open>
  The room that a table has for more buckets: below the last entry of \<open>prime_array\<close>, where \<open>_rehash\<close> would read behind the
  array, and, with a memory limit below the 16 GiB that such an array takes, always.
\<close>

definition roomy :: "HashArray \<Rightarrow> bool" where
  "roomy H \<longleftrightarrow> length (buckets H) < 2 ^ 31 - 1"

definition limited :: "HashArray \<Rightarrow> bool" where
  "limited H \<longleftrightarrow> 0 < max_bytes H \<and> max_bytes H < 8 * (2 ^ 31 - 1)"

definition fits_int :: "bytes \<Rightarrow> int \<Rightarrow> bool" where
  "fits_int key value_len \<longleftrightarrow> 0 \<le> value_len \<and> int (length key) + value_len + 48 \<le> INT_MAX"

lemma hash_insert_ex_ok:
  assumes H: "hash_ok H" "roomy H" "fits_int key value_len" and e: "stored um H val value_len = Some e"
  obtains (stored) r H' al' where "hash_insert_ex al um H key val value_len = Some (r, H', al')" "hash_ok H'" 
      "hash_map H' = (hash_map H)(key \<mapsto> e)" "same_config H H'" "r = 0 \<or> r = 1" "r = 0 \<Longrightarrow> hash_map H key \<noteq> None"
      "within_limit H \<Longrightarrow> within_limit H'" "limited H \<Longrightarrow> roomy H'" "r = insert_result al H key value_len"
    | (failed) r H' al' where "hash_insert_ex al um H key val value_len = Some (r, H', al')" "hash_ok H'" 
      "hash_map H' = (hash_map H)(key := None)" "same_config H H'" "r < 0"
      "within_limit H \<Longrightarrow> within_limit H'" "roomy H'" "r = insert_result al H key value_len"
proof -
  define i where "i = hash_code H key mod length (buckets H)"
  have bi: "bucket_of H key = Some i" using bucket_of_ok [OF H(1)] by (simp add: i_def)
  show ?thesis
  proof (cases rule: insert_lookup_cases [OF H(1) i_def e, case_names updated absent])
    case (updated H')
    then have "hash_insert_ex al um H key val value_len = Some (0, H', al)"
      by (simp add: hash_insert_ex_def bi)
    moreover have "within_limit H \<Longrightarrow> within_limit H'"
      using within_limit_mono updated(4,5) by simp
    ultimately show ?thesis using updated H(2) by (intro stored [of 0 H' al]) (auto simp: roomy_def insert_result_def)
  next
    case (absent G)
    have st: "stored um G val value_len = Some e" using e absent(4) by (simp add: stored_def same_config_def)
    have sz: "0 \<le> value_len" "int (length key) + value_len + 48 \<le> INT_MAX"
      using H(3) by (simp_all add: fits_int_def)
    have lim: "0 < max_bytes G \<and> max_bytes G < bytes_used G + node_size G key value_len \<longleftrightarrow> over_limit H key value_len"
      using absent(4,9) by (simp add: over_limit_def node_size_def same_config_def)
    show ?thesis
    proof (cases rule: insert_alloc_cases [OF sz st, of al, case_names ok fail])
      case (fail r al')
      then have "hash_insert_ex al um H key val value_len = Some (r, G, al')"
        by (simp add: hash_insert_ex_def bi absent(1))
      moreover have "within_limit H \<Longrightarrow> within_limit G" using within_limit_mono [OF _ absent(4,5)] .
      moreover have "r = insert_result al H key value_len"
        using fail(3) absent(8) unfolding lim by (simp add: insert_result_def split: if_splits)
      ultimately show ?thesis using absent fail(2) H(2) by (intro failed [of r G al']) (auto simp: roomy_def)
    next
      case (ok d al')
      have gi: "i = hash_code G key mod length (buckets G)"
        using absent(4,6) by (simp add: i_def same_config_def hash_code_def)
      have "hash_map G key = None" using absent(3) by simp
      then have "chain_find_entry (buckets G ! i) key = None" using hash_map_find [OF gi] by simp
      from ADD_ok [OF absent(2) gi this ok(2,3)] obtain F where F:
        "ADD_TO_BUCKET (G\<lparr>bytes_used := bytes_used G + int (node_bytes d)\<rparr>) i d = Some F" "hash_ok F"
        "hash_map F = (hash_map G)(key \<mapsto> entry_of d)"
        "F = G\<lparr>buckets := buckets F, item_count := item_count G + 1, bytes_used := bytes_used G + int (node_bytes d)\<rparr>"
        "length (buckets F) = length (buckets G)" .
      have cF: "same_config G F" "bytes_used F = bytes_used G + int (node_bytes d)" "max_bytes F = max_bytes G"
        by (subst F(4), simp add: same_config_def)+
      have rF: "length (buckets F) < 2 ^ 31 - 1" using F(5) absent(6) H(2) by (simp add: roomy_def)
      from insert_grow_ok [OF F(2) rF, of al'] obtain H' al'' where H': "insert_grow al' F = Some (H', al'')" "hash_ok H'"
        "hash_map H' = hash_map F" "same_config F H'"
        "length (buckets H') = length (buckets F) \<and> bytes_used H' = bytes_used F \<or>
         (0 < max_bytes F \<longrightarrow> bytes_used H' \<le> max_bytes F \<and> 8 * int (length (buckets H')) \<le> max_bytes F)" .
      have "hash_insert_ex al um H key val value_len = Some (1, H', al'')"
        using ok(1) F(1) H'(1) by (simp add: hash_insert_ex_def bi absent(1))
      moreover have "hash_map H' = (hash_map H)(key \<mapsto> e)" using H'(3) F(3) absent(3) ok(4) by simp
      moreover have "same_config H H'" using absent(4) cF(1) H'(4) by (simp add: same_config_def)
      moreover have "within_limit H'"
        using H'(5) ok(5) cF(2,3) H'(4) by (auto simp: within_limit_def same_config_def)
      moreover have "limited H \<Longrightarrow> roomy H'"
        using H'(5) rF cF(3) absent(4) by (auto simp: roomy_def limited_def same_config_def)
      moreover have "\<not> over_limit H key value_len" using ok(5,7) lim by auto
      then have "1 = insert_result al H key value_len" using absent(8) ok(6) by (simp add: insert_result_def)
      ultimately show ?thesis using H'(2) by (intro stored [of 1 H' al'']) simp_all
    qed
  qed
qed

section \<open>Deletion and lookup\<close>

lemma hash_delete_ok:
  assumes H: "hash_ok H"
  obtains H' where "hash_delete H key = Some (if hash_map H key = None then hENOENT else 0, H')" "hash_ok H'"
    "hash_map H' = (hash_map H)(key := None)" "same_config H H'" "bytes_used H' \<le> bytes_used H"
    "length (buckets H') = length (buckets H)"
proof -
  define i where "i = hash_code H key mod length (buckets H)"
  have bi: "bucket_of H key = Some i" using bucket_of_ok [OF H] by (simp add: i_def)
  have lt: "i < length (buckets H)" using bucket_index_lt [OF H] i_def by simp
  show ?thesis
  proof (cases "chain_find_entry (buckets H ! i) key")
    case None
    then show ?thesis using that [of H] H lt bi hash_map_find [OF i_def]
      by (simp add: hash_delete_def same_config_def fun_upd_idem)
  next
    case (Some d)
    from DELETE_ok [OF H i_def Some] obtain H' where H': "DELETE_FROM_BUCKET H i d = Some H'" "hash_ok H'"
      "hash_map H' = (hash_map H)(key := None)"
      "H' = H\<lparr>buckets := buckets H', item_count := item_count H - 1, bytes_used := bytes_used H - int (node_bytes d)\<rparr>"
      "length (buckets H') = length (buckets H)" .
    moreover have "same_config H H'" "bytes_used H' \<le> bytes_used H" by (subst H'(4), simp add: same_config_def)+
    moreover have "hash_delete H key = Some (if hash_map H key = None then hENOENT else 0, H')"
      using Some lt bi hash_map_find [OF i_def] H'(1) by (simp add: hash_delete_def)
    ultimately show ?thesis using that by blast
  qed
qed

text \<open>The bytes of a value: a copy in the table, or the memory of the caller.\<close>

fun entry_bytes :: "umem \<Rightarrow> hentry \<Rightarrow> bytes option" where
  "entry_bytes um (Owned bs) = Some bs"
| "entry_bytes um (Borrowed p n) = um_read um p n"

lemma map_Some_the: "None \<notin> set xs \<Longrightarrow> map Some (map the xs) = xs"
  by (induction xs) auto

lemma hv_read_ok:
  assumes "node_ok owned d"
  shows "hv_read um (hd_value d) (hd_value_len d) = entry_bytes um (entry_of d)"
proof (cases "hd_value d")
  case (Inline blk)
  then have n: "None \<notin> set (take (nat (hd_value_len d)) blk)" "0 \<le> hd_value_len d"
    "nat (hd_value_len d) \<le> length blk"
    using assms by (auto simp: node_ok_def)
  then have "map Some (map the (take (nat (hd_value_len d)) blk)) = take (nat (hd_value_len d)) blk"
    by (intro map_Some_the)
  then have "those (take (nat (hd_value_len d)) blk) = Some (map the (take (nat (hd_value_len d)) blk))"
    by (simp add: those_Some)
  then show ?thesis using Inline n(2,3) by (simp add: entry_of_def)
qed (simp add: entry_of_def)

fun entry_len :: "hentry \<Rightarrow> int" where
  "entry_len (Owned bs) = int (length bs)"
| "entry_len (Borrowed p n) = n"

lemma entry_len_ok: "node_ok owned d \<Longrightarrow> entry_len (entry_of d) = hd_value_len d"
  by (auto simp: node_ok_def entry_of_def split: hvalue.splits)

lemma hash_get_ok:
  assumes H: "hash_ok H"
  shows "hash_get um H key value_len =
    (case hash_map H key of
       None \<Rightarrow> Some (hENOENT, [], value_len)
     | Some e \<Rightarrow> if entry_len e \<le> value_len then map_option (\<lambda>bs. (0, bs, entry_len e)) (entry_bytes um e)
                else Some (hENOSPC, [], value_len))"
proof -
  define i where "i = hash_code H key mod length (buckets H)"
  show ?thesis
  proof (cases "chain_find_entry (buckets H ! i) key")
    case None
    then show ?thesis using hash_map_find [OF i_def] by (simp add: hash_get_def hash_find_ex_ok [OF H] flip: i_def)
  next
    case (Some d)
    have n: "node_ok (is_malloc_value H) d" using find_in_bucket [OF H i_def Some] by simp
    show ?thesis
      using Some hash_map_find [OF i_def]
      by (simp add: hash_get_def hash_find_ex_ok [OF H] hv_read_ok [OF n] entry_len_ok [OF n] comp_def
          map_conv_bind_option flip: i_def)
  qed
qed

section \<open>Partial updates\<close>

definition splice :: "nat \<Rightarrow> 'a list \<Rightarrow> 'a list \<Rightarrow> 'a list" where
  "splice off bs old = take off old @ bs @ drop (off + length bs) old"

lemma um_read_map [simp]: "um_read (um_map um p bs) p (int (length bs)) = Some bs"
proof -
  have "map (\<lambda>i. um_map um p bs (p + i)) [0..<length bs] = map Some bs"
    by (rule nth_equalityI) (simp_all add: um_map_def)
  then show ?thesis by (simp add: um_read_def those_Some)
qed

text \<open>The node under a key whose value the table owns.\<close>

lemma owned_node:
  assumes H: "hash_ok H" "hash_map H key = Some (Owned old)" and i: "i = hash_code H key mod length (buckets H)"
  obtains d blk where "chain_find_entry (buckets H ! i) key = Some d" "hd_key d = key" "node_ok True d"
    "hd_value d = Inline blk" "length blk = hd_malloc_value_size d" "hd_value_len d = int (length old)"
    "length old \<le> length blk" "take (length old) blk = map Some old" "is_malloc_value H" "i < length (buckets H)"
proof -
  obtain d where f: "chain_find_entry (buckets H ! i) key = Some d" "entry_of d = Owned old"
    using H(2) hash_map_find [OF i] by auto
  note d = find_in_bucket [OF H(1) i f(1)]
  from f(2) obtain blk where blk: "hd_value d = Inline blk" by (auto simp: entry_of_def split: hvalue.splits)
  with d(3) have m: "is_malloc_value H" "length blk = hd_malloc_value_size d" "0 \<le> hd_value_len d"
    "hd_value_len d \<le> int (length blk)" "None \<notin> set (take (nat (hd_value_len d)) blk)"
    by (auto simp: node_ok_def)
  have old: "map the (take (nat (hd_value_len d)) blk) = old" using f(2) blk by (simp add: entry_of_def)
  then have l: "hd_value_len d = int (length old)" using m(3,4) by auto
  have "map Some old = take (length old) blk"
    using map_Some_the [OF m(5)] unfolding old by (simp add: l)
  moreover have "length old \<le> length blk" "node_ok True d" using l m d(3) by simp_all
  ultimately show ?thesis
    using that [of d blk] f(1) d(2) blk m(1,2) l bucket_index_lt [OF H(1), of key] i by simp
qed

lemma hash_partial_set_present:
  assumes H: "hash_ok H" "roomy H" and m: "hash_map H key = Some (Owned old)"
    and bs: "um_read um val value_len = Some bs" and fits: "0 \<le> offset" "offset < int (length old)"
      "fits_int key (offset + value_len)"
  obtains (ok) H' al' where
      "hash_partial_set al um pNewBuff H key val offset value_len = Some (0, H', um, al')" "hash_ok H'"
      "hash_map H' = (hash_map H)(key \<mapsto> Owned (splice (nat offset) bs old))" "same_config H H'"
      "within_limit H \<Longrightarrow> within_limit H'" "limited H \<Longrightarrow> roomy H'"
    | (fail) r H' al' where
      "hash_partial_set al um pNewBuff H key val offset value_len = Some (r, H', um, al')" "hash_ok H'" "0 < r"
      "hash_map H' = hash_map H \<or> hash_map H' = (hash_map H)(key := None)" "same_config H H'"
      "within_limit H \<Longrightarrow> within_limit H'" "roomy H'"
proof -
  define i where "i = hash_code H key mod length (buckets H)"
  have bi: "bucket_of H key = Some i" using bucket_of_ok [OF H(1)] by (simp add: i_def)
  from owned_node [OF H(1) m i_def] obtain d blk where d: "chain_find_entry (buckets H ! i) key = Some d" "hd_key d = key"
    "node_ok True d" "hd_value d = Inline blk" "length blk = hd_malloc_value_size d" "hd_value_len d = int (length old)"
    "length old \<le> length blk" "take (length old) blk = map Some old" "is_malloc_value H" "i < length (buckets H)" .
  have fd: "hash_find_ex H key = Some (Some d)" using hash_find_ex_ok [OF H(1)] d(1) by (simp add: i_def)
  have l: "length bs = nat value_len" "0 \<le> value_len" using um_read_Some [OF bs] by auto
  have c: "cint (offset + value_len) = Some (offset + value_len)"
    using fits l(2) by (simp add: fits_int_def INT_MIN_def)
  show ?thesis
  proof (cases "offset + value_len \<le> int (length old)")
    case True
    define off where "off = nat offset"
    have off: "off + length bs \<le> length old" "off < length old" using True fits l by (simp_all add: off_def)
    define blk' where "blk' = take off blk @ map Some bs @ drop (off + length bs) blk"
    have p: "mput blk off (map Some bs) = Some blk'" using off d(7) by (simp add: mput_def blk'_def)
    have t: "take (length old) blk' = map Some (splice off bs old)"
    proof -
      have "take (length old) blk' = take off (take (length old) blk) @ map Some bs @
          drop (off + length bs) (take (length old) blk)"
        using off d(7) by (simp add: blk'_def min_def drop_take)
      then show ?thesis by (simp add: d(8) splice_def take_map drop_map)
    qed
    define d' where "d' = d\<lparr>hd_value := Inline blk'\<rparr>"
    have lb: "length blk' = length blk" using off d(7) by (simp add: blk'_def)
    have d': "hd_key d' = key" "node_ok (is_malloc_value H) d'" "hd_malloc_value_size d' = hd_malloc_value_size d"
      "entry_of d' = Owned (splice off bs old)"
      using d(2,3,5,6,7,9) lb t by (auto simp: d'_def node_ok_def entry_of_def d(4))
    from put_node_ok [OF H(1) i_def d(1) d'(1-3)] obtain H' where H': "put_node H i d' = Some H'" "hash_ok H'"
      "hash_map H' = (hash_map H)(key \<mapsto> Owned (splice off bs old))" "H' = H\<lparr>buckets := buckets H'\<rparr>"
      using d'(4) by metis
    have s: "same_config H H'" "bytes_used H' = bytes_used H" "capacity H' = capacity H"
      by (subst H'(4), simp add: same_config_def)+
    with H'(2) H(1) have "length (buckets H') = length (buckets H)" by (simp add: hash_ok_def)
    moreover have "hash_partial_set al um pNewBuff H key val offset value_len = Some (0, H', um, al)"
      using fits(1,2) True H'(1)
      by (simp add: hash_partial_set_def bi fd d(4,6) c bs p flip: off_def d'_def)
    moreover have "within_limit H \<Longrightarrow> within_limit H'" using within_limit_mono [OF _ s(1)] s(2) by simp
    ultimately show ?thesis using ok [of H' al] H' s(1) H(2) by (simp add: off_def roomy_def)
  next
    case False
    define new where "new = take (nat offset) old @ bs"
    have ln: "int (length new) = offset + value_len" using fits l by (simp add: new_def min_def)
    have nw: "new = splice (nat offset) bs old" using False fits l by (simp add: new_def splice_def)
    have pre: "hv_read um (hd_value d) offset = Some (take (nat offset) old)"
    proof -
      have "take (nat offset) blk = map Some (take (nat offset) old)"
        using arg_cong [OF d(8), of "take (nat offset)"] fits by (simp add: min_def take_map split: if_splits)
      then show ?thesis using fits d(7) by (simp add: d(4) those_Some)
    qed
    have st: "stored (um_map um pNewBuff new) H pNewBuff (offset + value_len) = Some (Owned new)"
      using d(9) um_read_map [of um pNewBuff new] by (simp add: stored_def ln)
    obtain b al1 where al: "alloc_next al = (b, al1)" by (cases "alloc_next al")
    have s: "hash_partial_set al um pNewBuff H key val offset value_len =
      (if b then map_option (\<lambda>(r, H', al'). (if r < 0 then - r else 0, H', um, al'))
           (hash_insert_ex al1 (um_map um pNewBuff new) H key pNewBuff (offset + value_len))
       else Some (hENOMEM, H, um, al1))"
      using fits(1,2) False
      by (simp add: hash_partial_set_def bi fd d(6) c bs pre al new_def map_conv_bind_option comp_def case_prod_unfold)
    show ?thesis
    proof (cases b)
      case False
      with s H show ?thesis by (intro fail [of hENOMEM H al1]) (auto simp: hENOMEM_def same_config_def)
    next
      case True
      show ?thesis
      proof (cases rule: hash_insert_ex_ok [OF H fits(3) st, of al1, case_names stored failed])
        case (stored r H' al')
        with True s nw show ?thesis by (intro ok [of H' al']) auto
      next
        case (failed r H' al')
        with True s show ?thesis by (intro fail [of "- r" H' al']) auto
      qed
    qed
  qed
qed

lemma hash_partial_set_refused:
  assumes "hash_ok H" "hash_map H key = Some (Owned old)" "offset < 0 \<or> int (length old) \<le> offset"
  shows "hash_partial_set al um pNewBuff H key val offset value_len = Some (hEINVAL, H, um, al)"
proof -
  define i where "i = hash_code H key mod length (buckets H)"
  from owned_node [OF assms(1,2) i_def] obtain d where "chain_find_entry (buckets H ! i) key = Some d"
    "hd_value_len d = int (length old)" by metis
  then show ?thesis
    using assms hash_find_ex_ok [OF assms(1)] bucket_of_ok [OF assms(1)] by (auto simp: hash_partial_set_def i_def)
qed

lemma hash_partial_set_absent:
  assumes "hash_ok H" "hash_map H key = None"
  shows "hash_partial_set al um pNewBuff H key val offset value_len =
    (if offset \<noteq> 0 then Some (hENOENT, H, um, al)
     else map_option (\<lambda>(r, H', al'). (if r < 0 then - r else 0, H', um, al')) (hash_insert_ex al um H key val value_len))"
proof -
  have "chain_find_entry (buckets H ! (hash_code H key mod length (buckets H))) key = None"
    using assms(2) by (simp add: hash_map_def)
  then show ?thesis
    by (simp add: hash_partial_set_def hash_find_ex_ok [OF assms(1)] bucket_of_ok [OF assms(1)]
        map_conv_bind_option comp_def case_prod_unfold)
qed

section \<open>Decimal numbers\<close>

lemma dec_digits_range: "c \<in> set (dec_digits n) \<Longrightarrow> 48 \<le> c \<and> c \<le> (57 :: u8)"
proof (induction n rule: dec_digits.induct)
  case (1 n)
  have r: "48 \<le> (of_nat (48 + k) :: u8) \<and> (of_nat (48 + k) :: u8) \<le> 57" if "k < 10" for k
    using that by (simp add: word_le_nat_alt unat_of_nat del: of_nat_add)
  show ?case
  proof (cases "n < 10")
    case True
    with 1 r [of n] show ?thesis by (simp add: dec_digits.simps [of n] del: of_nat_add)
  next
    case False
    with "1.prems" have "c = of_nat (48 + n mod 10) \<or> c \<in> set (dec_digits (n div 10))"
      by (subst (asm) dec_digits.simps) auto
    with 1(1) False r [of "n mod 10"] show ?thesis by auto
  qed
qed

lemma dec_digits_isdigit: "c \<in> set (dec_digits n) \<Longrightarrow> c_isdigit c"
  using dec_digits_range by (auto simp: c_isdigit_def)

lemma dec_digits_Nil [simp]: "dec_digits n \<noteq> []"
  by (subst dec_digits.simps) simp

lemma digits_value_snoc: "digits_value (ds @ [c]) = 10 * digits_value ds + (uint c - 48)"
  by (simp add: digits_value_def)

lemma dec_digits_value [simp]: "digits_value (dec_digits n) = int n"
proof (induction n rule: dec_digits.induct)
  case (1 n)
  have u: "uint (of_nat (48 + k) :: u8) = 48 + int k" if "k < 10" for k
    using that by (simp add: uint_nat unat_of_nat del: of_nat_add)
  show ?case
  proof (cases "n < 10")
    case True
    with u [of n] show ?thesis by (subst dec_digits.simps) (simp add: digits_value_def del: of_nat_add)
  next
    case False
    then have "digits_value (dec_digits n) = 10 * int (n div 10) + int (n mod 10)"
      using 1 u [of "n mod 10"] by (subst dec_digits.simps) (simp add: digits_value_snoc del: of_nat_add)
    also have "\<dots> = int (10 * (n div 10) + n mod 10)" by (simp only: of_nat_add of_nat_mult of_nat_numeral)
    finally show ?thesis by simp
  qed
qed

lemma dec_digits_length: "n < 10 ^ Suc k \<Longrightarrow> length (dec_digits n) \<le> Suc k"
proof (induction k arbitrary: n)
  case 0
  then show ?case by (subst dec_digits.simps) simp
next
  case (Suc k)
  have "n div 10 < 10 ^ Suc k" using Suc.prems by (simp add: less_mult_imp_div_less)
  from Suc.IH [OF this] show ?case by (subst dec_digits.simps) simp
qed

lemma print_dec_length: "LLONG_MIN \<le> n \<Longrightarrow> n \<le> LLONG_MAX \<Longrightarrow> length (print_dec n) \<le> 20"
proof -
  assume n: "LLONG_MIN \<le> n" "n \<le> LLONG_MAX"
  then have "nat n < 10 ^ Suc 18" "nat (- n) < 10 ^ Suc 18" by (simp_all add: LLONG_MIN_def LLONG_MAX_def)
  from this [THEN dec_digits_length] show ?thesis by (simp add: print_dec_def)
qed

lemma no_space: "48 \<le> c \<Longrightarrow> \<not> strtoll_space c" "\<not> strtoll_space 45"
  by (auto simp: strtoll_space_def word_le_nat_alt word_less_nat_alt)

text \<open>\<open>strtoll\<close> reads back what \<open>sprintf\<close> has written.\<close>

lemma strtoll_print:
  assumes "LLONG_MIN \<le> n" "n \<le> LLONG_MAX"
  shows "c_strtoll (print_dec n @ [0]) = n"
proof -
  have dig: "takeWhile c_isdigit (dec_digits m @ [0]) = dec_digits m" for m
    using dec_digits_isdigit by (simp add: takeWhile_append c_isdigit_def)
  obtain c cs where d: "dec_digits (nat n) = c # cs" by (cases "dec_digits (nat n)") auto
  then have c: "48 \<le> c" "c \<noteq> 45" "c \<noteq> 43" using dec_digits_range [of c "nat n"] by auto
  show ?thesis
  proof (cases "n < 0")
    case True
    then show ?thesis using assms dig [of "nat (- n)"] no_space(2) by (simp add: c_strtoll_def print_dec_def)
  next
    case False
    have "dropWhile strtoll_space (dec_digits (nat n) @ [0]) = dec_digits (nat n) @ [0]" using d c no_space(1) by simp
    moreover have "(dec_digits (nat n) @ [0]) ! 0 = c" using d by simp
    ultimately show ?thesis using False assms c dig [of "nat n"] by (simp add: c_strtoll_def print_dec_def)
  qed
qed

section \<open>Memory of the caller\<close>

definition mapped :: "umem \<Rightarrow> nat \<Rightarrow> nat \<Rightarrow> bool" where
  "mapped um p n \<longleftrightarrow> (\<forall>i < n. um (p + i) \<noteq> None)"

lemma um_write_ok:
  assumes "mapped um p n" "length bs \<le> n"
  obtains um' where "um_write um p bs = Some um'" "mapped um' p n"
    "\<And>k. k \<le> length bs \<Longrightarrow> um_read um' p (int k) = Some (take k bs)"
proof -
  define um' where "um' = (\<lambda>a. if p \<le> a \<and> a < p + length bs then Some (bs ! (a - p)) else um a)"
  have w: "um_write um p bs = Some um'"
    using assms by (auto simp: um_write_def um'_def mapped_def list_all_iff)
  have "mapped um' p n" using assms(1) by (simp add: mapped_def um'_def)
  moreover have "um_read um' p (int k) = Some (take k bs)" if "k \<le> length bs" for k
  proof -
    have "map (\<lambda>i. um' (p + i)) [0..<k] = map Some (take k bs)"
      using that by (intro nth_equalityI) (simp_all add: um'_def)
    then show ?thesis by (simp add: um_read_def those_Some)
  qed
  ultimately show ?thesis using that w by blast
qed

text \<open>A counter: no entry, or a decimal number.\<close>

definition counter :: "HashArray \<Rightarrow> bytes \<Rightarrow> int \<Rightarrow> bool" where
  "counter H key n \<longleftrightarrow> (hash_map H key = None \<and> n = 0) \<or>
     (hash_map H key = Some (Owned (print_dec n)) \<and> LLONG_MIN \<le> n \<and> n \<le> LLONG_MAX)"

lemma hash_inc_value_ok:
  assumes n: "old = None \<and> n = 0 \<or> (\<exists>d. old = Some d \<and> node_ok True d \<and> entry_of d = Owned (print_dec n) \<and>
      LLONG_MIN \<le> n \<and> n \<le> LLONG_MAX)"
    and range: "LLONG_MIN \<le> n + inc" "n + inc \<le> LLONG_MAX" and buf: "mapped um p 21" "21 \<le> vlen"
  obtains um' where "hash_inc_value old inc um p vlen = Some (um', int (length (print_dec (n + inc))))"
    "mapped um' p 21" "um_read um' p (int (length (print_dec (n + inc)))) = Some (print_dec (n + inc))"
    "um_read um' p (int (length (print_dec (n + inc))) + 1) = Some (print_dec (n + inc) @ [0])"
proof -
  have l: "length (print_dec (n + inc)) \<le> 20" using range by (rule print_dec_length)
  obtain um1 where um1: "(case old of
         Some d \<Rightarrow>
           (if hd_value_len d < vlen then do {
              bs \<leftarrow> (if hv_overlaps (hd_value d) 0 p (hd_value_len d) then None
                    else hv_read um (hd_value d) (hd_value_len d));
              um \<leftarrow> um_write um p (bs @ [0]);
              n \<leftarrow> cllong (c_strtoll (bs @ [0]) + inc);
              Some (um, n)
            } else Some (um, inc))
       | None \<Rightarrow> Some (um, inc)) = Some (um1, n + inc)" "mapped um1 p 21"
  proof (cases old)
    case None
    with n that buf(1) show ?thesis by auto
  next
    case (Some d)
    with n have d: "node_ok True d" "entry_of d = Owned (print_dec n)" "LLONG_MIN \<le> n" "n \<le> LLONG_MAX" by auto
    then have ln: "length (print_dec n) \<le> 20" by (intro print_dec_length)
    have r: "hv_read um (hd_value d) (hd_value_len d) = Some (print_dec n)"
      using hv_read_ok [OF d(1)] d(2) by simp
    have apart: "\<not> hv_overlaps (hd_value d) off q l" for off q l using d(1) by (auto simp: node_ok_def split: hvalue.splits)
    have hl: "hd_value_len d = int (length (print_dec n))" using entry_len_ok [OF d(1)] d(2) by simp
    from um_write_ok [OF buf(1), of "print_dec n @ [0]"] ln obtain um' where
      w: "um_write um p (print_dec n @ [0]) = Some um'" "mapped um' p 21" by auto
    show ?thesis
      using that [OF _ w(2)] Some r apart hl ln buf(2) w(1) range strtoll_print [OF d(3,4)] by (simp add: cllong_def)
  qed
  from um_write_ok [OF um1(2), of "print_dec (n + inc) @ [0]"] l obtain um' where
    w: "um_write um1 p (print_dec (n + inc) @ [0]) = Some um'" "mapped um' p 21"
    "\<And>k. k \<le> length (print_dec (n + inc)) + 1 \<Longrightarrow> um_read um' p (int k) = Some (take k (print_dec (n + inc) @ [0]))" by auto
  have "um_read um' p (int (length (print_dec (n + inc)))) = Some (print_dec (n + inc))"
    using w(3) [of "length (print_dec (n + inc))"] by simp
  moreover have "um_read um' p (int (length (print_dec (n + inc))) + 1) = Some (print_dec (n + inc) @ [0])"
    using w(3) [of "length (print_dec (n + inc)) + 1"] by (simp add: add.commute)
  ultimately show ?thesis using that w(1,2) um1(1) by (simp add: hash_inc_value_def)
qed

text \<open>What \<open>hash_inc_ex\<close> returns in a table that copies its values, for a new value of \<open>len\<close> bytes.\<close>

definition has_room :: "HashArray \<Rightarrow> bytes \<Rightarrow> int \<Rightarrow> bool" where
  "has_room H key len \<longleftrightarrow>
     (case hash_find_ex H key of Some (Some d) \<Rightarrow> len \<le> int (hd_malloc_value_size d) | _ \<Rightarrow> False)"

definition inc_result :: "alloc \<Rightarrow> HashArray \<Rightarrow> bytes \<Rightarrow> int \<Rightarrow> int" where
  "inc_result al H key len =
     (if has_room H key len then 0 else if over_limit H key len then hENOSPC
      else if fst (alloc_next al) then 0 else hENOMEM)"

lemma inc_result_insert:
  "is_malloc_value H \<Longrightarrow> \<not> has_room H key len \<Longrightarrow> r = insert_result al H key len \<Longrightarrow>
   inc_result al H key len = (if r < 0 then - r else 0)"
  by (auto simp: inc_result_def insert_result_def has_room_def updates_in_place_def hENOSPC_def hENOMEM_def
      split: option.splits)

lemma hash_inc_ex_ok:
  assumes H: "hash_ok H" "roomy H" "is_malloc_value H" and n: "counter H key n"
    and range: "LLONG_MIN \<le> n + inc" "n + inc \<le> LLONG_MAX" and buf: "mapped um val 21" "21 \<le> value_len"
    and fits: "fits_int key 20"
  obtains (ok) H' um' al' where "hash_inc_ex al um H key inc val value_len hash_inc_value =
        Some (0, H', um', int (length (print_dec (n + inc))), al')" "hash_ok H'"
      "hash_map H' = (hash_map H)(key \<mapsto> Owned (print_dec (n + inc)))" "same_config H H'"
      "um_read um' val (int (length (print_dec (n + inc))) + 1) = Some (print_dec (n + inc) @ [0])"
      "inc_result al H key (int (length (print_dec (n + inc)))) = 0"
    | (fail) r H' um' al' where "hash_inc_ex al um H key inc val value_len hash_inc_value = Some (r, H', um', 0, al')"
      "0 < r" "hash_ok H'" "hash_map H' = (hash_map H)(key := None)" "same_config H H'"
      "r = inc_result al H key (int (length (print_dec (n + inc))))"
proof -
  define i where "i = hash_code H key mod length (buckets H)"
  have bi: "bucket_of H key = Some i" using bucket_of_ok [OF H(1)] by (simp add: i_def)
  define old where "old = chain_find_entry (buckets H ! i) key"
  have fd: "hash_find_ex H key = Some old" using hash_find_ex_ok [OF H(1)] by (simp add: i_def old_def)
  define dec where "dec = print_dec (n + inc)"
  have l: "length dec \<le> 20" using print_dec_length [OF range] by (simp add: dec_def)
  have "old = None \<and> n = 0 \<or> (\<exists>d. old = Some d \<and> node_ok True d \<and> entry_of d = Owned (print_dec n) \<and>
      LLONG_MIN \<le> n \<and> n \<le> LLONG_MAX)"
    using n hash_map_find [OF i_def] find_in_bucket(3) [OF H(1) i_def] H(3) by (auto simp: counter_def old_def)
  from hash_inc_value_ok [OF this range buf] obtain um' where conv:
    "hash_inc_value old inc um val value_len = Some (um', int (length dec))" "mapped um' val 21"
    "um_read um' val (int (length dec)) = Some dec" "um_read um' val (int (length dec) + 1) = Some (dec @ [0])"
    unfolding dec_def by metis
  define ins where "ins = do {
       (result, H, al) \<leftarrow> hash_insert_ex al um' H key val (int (length dec));
       if result < 0 then do { um \<leftarrow> um_write um' val [0]; Some (- result, H, um, 0, al) }
       else Some (0, H, um', int (length dec), al)
     }"
  have st: "stored um' H val (int (length dec)) = Some (Owned dec)" using H(3) conv(3) by (simp add: stored_def)
  have fi: "fits_int key (int (length dec))" using fits l by (simp add: fits_int_def)
  have insert: thesis if s: "hash_inc_ex al um H key inc val value_len hash_inc_value = ins"
    and room: "\<not> has_room H key (int (length dec))"
  proof (cases rule: hash_insert_ex_ok [OF H(1,2) fi st, of al, case_names stored failed])
    case (stored r H' al')
    then have "ins = Some (0, H', um', int (length dec), al')" by (auto simp: ins_def)
    with s stored conv(4) inc_result_insert [OF H(3) room stored(9)] show ?thesis
      by (intro ok [of H' um' al']) (auto simp: dec_def)
  next
    case (failed r H' al')
    obtain um'' where "um_write um' val [0] = Some um''" using um_write_ok [OF conv(2), of "[0]"] by auto
    with failed have "ins = Some (- r, H', um'', 0, al')" by (simp add: ins_def)
    with s failed inc_result_insert [OF H(3) room failed(8)] show ?thesis
      by (intro fail [of "- r" H' um'' al']) (simp_all add: dec_def)
  qed
  show ?thesis
  proof (cases old)
    case None
    then show ?thesis using conv(1) by (intro insert) (simp_all add: hash_inc_ex_def bi fd ins_def has_room_def)
  next
    case (Some d)
    then have f: "chain_find_entry (buckets H ! i) key = Some d" by (simp add: old_def)
    note d = find_in_bucket [OF H(1) i_def f]
    show ?thesis
    proof (cases "length dec \<le> hd_malloc_value_size d")
      case False
      then show ?thesis using Some H(3) conv(1) by (intro insert) (simp_all add: hash_inc_ex_def bi fd ins_def has_room_def)
    next
      case True
      obtain blk where blk: "hd_value d = Inline blk" "length blk = hd_malloc_value_size d"
        using d(3) H(3) by (auto simp: node_ok_def split: hvalue.splits)
      from node_ok_copy [OF blk(2) True, of d] obtain blk' where blk': "mput blk 0 (map Some dec) = Some blk'"
        "node_ok True (d\<lparr>hd_value_len := int (length dec), hd_value := Inline blk'\<rparr>)"
        "entry_of (d\<lparr>hd_value_len := int (length dec), hd_value := Inline blk'\<rparr>) = Owned dec" by auto
      define d' where "d' = d\<lparr>hd_value_len := int (length dec), hd_value := Inline blk'\<rparr>"
      have d': "hd_key d' = key" "node_ok (is_malloc_value H) d'" "hd_malloc_value_size d' = hd_malloc_value_size d"
        "entry_of d' = Owned dec"
        using d(2) blk'(2,3) H(3) by (simp_all add: d'_def)
      from put_node_ok [OF H(1) i_def f d'(1-3)] obtain H' where H': "put_node H i d' = Some H'" "hash_ok H'"
        "hash_map H' = (hash_map H)(key \<mapsto> Owned dec)" "H' = H\<lparr>buckets := buckets H'\<rparr>"
        using d'(4) by metis
      have "same_config H H'" by (subst H'(4)) (simp add: same_config_def)
      moreover have "hash_inc_ex al um H key inc val value_len hash_inc_value = Some (0, H', um', int (length dec), al)"
        using Some H(3) True blk(1) blk'(1) conv(1,3) H'(1) by (simp add: hash_inc_ex_def bi fd d'_def)
      moreover have "inc_result al H key (int (length dec)) = 0"
        using Some True by (simp add: inc_result_def has_room_def fd)
      ultimately show ?thesis using H' conv(4) by (intro ok [of H' um' al]) (simp_all add: dec_def)
    qed
  qed
qed

section \<open>The empty table\<close>

lemma hash_init_ex_ok:
  assumes "cap < 2 ^ 31 - 1"
  obtains (ok) H al' where "hash_init_ex al f cap lf mx owned = Some (0, H, al')" "hash_ok H" "hash_map H = Map.empty"
      "hash_func H = f" "max_bytes H = mx" "is_malloc_value H = owned" "lock_count H = 0"
      "load_factor H = (if 0 \<le> lf \<and> lf \<le> 1 then lf else 1 / 2)" "cap < length (buckets H)"
      "bytes_used H = 8 * int (length (buckets H))"
    | (fail) H al' where "hash_init_ex al f cap lf mx owned = Some (hENOMEM, H, al')"
proof -
  from assms obtain j where j: "j < 30" "hash_get_prime_capacity cap = Prime j" "cap < prime_array ! j"
    by (rule hash_get_prime_capacity_spec)
  define c where "c = prime_array ! j"
  have c: "cap_val (Prime j) = Some c" "0 < c" "c < 2 ^ 31" using j prime_nth [of j] by (simp_all add: c_def)
  obtain b al' where al: "alloc_next al = (b, al')" by (cases "alloc_next al")
  show ?thesis
  proof (cases b)
    case False
    then show ?thesis using fail al c(1) by (simp add: hash_init_ex_def j(2) hash_alloc_buckets_def hENOMEM_def)
  next
    case True
    define H where "H = \<lparr>buckets = replicate c [], hash_func = f, item_count = 0, capacity = Prime j,
      load_factor = (if 0 \<le> lf \<and> lf \<le> 1 then lf else 1/2), max_bytes = mx, bytes_used = 8 * int c,
      is_malloc_capacity = False, is_malloc_value = owned, lock_count = 0\<rparr>"
    have "hash_init_ex al f cap lf mx owned = Some (0, H, al')"
      using True al c(1) by (simp add: hash_init_ex_def j(2) hash_alloc_buckets_def H_def)
    moreover have "hash_ok H" using c by (auto simp: hash_ok_def H_def buckets_ok_empty)
    moreover have "hash_map H = Map.empty"
      using c(2) by (auto simp: hash_map_lookup H_def lookup_empty fun_eq_iff)
    ultimately show ?thesis using j(3) by (intro ok [of H al']) (simp_all add: H_def c_def)
  qed
qed

end
