(* ===== verification/HashHistory.thy ===== *)
theory HashHistory
  imports HashOps History
begin

text \<open>
  Histories of operations on a hash table, which implements the interface \<open>store\<close> of theory
  \<open>History\<close>. Then iteration and statistics.
\<close>

section \<open>Histories of a table\<close>

text \<open>The operations of a table that owns its values, with the value at address 0 of the caller.\<close>

datatype hash_op = Insert bytes bytes | Delete bytes | Partial bytes bytes int | Optimize int

fun hash_step :: "hash_op \<Rightarrow> HashArray \<times> alloc \<Rightarrow> (int \<times> HashArray \<times> alloc) option" where
  "hash_step (Insert key bs) (H, al) = hash_insert_ex al (um_map Map.empty 0 bs) H key 0 (int (length bs))"
| "hash_step (Delete key) (H, al) = do { (r, H) \<leftarrow> hash_delete H key; Some (r, H, al) }"
| "hash_step (Partial key bs offset) (H, al) = do {
     (r, H, um, al) \<leftarrow> hash_partial_set al (um_map Map.empty 0 bs) (length bs) H key 0 offset (int (length bs));
     Some (r, H, al)
   }"
| "hash_step (Optimize suggest) (H, al) = hash_best_op al H suggest"

fun hash_legal :: "hash_op \<Rightarrow> bool" where
  "hash_legal (Insert key bs) \<longleftrightarrow> fits_int key (int (length bs))"
| "hash_legal (Delete key) \<longleftrightarrow> True"
| "hash_legal (Partial key bs offset) \<longleftrightarrow> fits_int key (max 0 offset + int (length bs))"
| "hash_legal (Optimize suggest) \<longleftrightarrow> suggest \<le> 2 ^ 30"

text \<open>What an operation with result \<open>r\<close> does to the map of the keys to their values.\<close>

fun map_spec :: "hash_op \<Rightarrow> int \<Rightarrow> (bytes \<rightharpoonup> bytes) \<Rightarrow> (bytes \<rightharpoonup> bytes) \<Rightarrow> bool" where
  "map_spec (Insert key bs) r m m' \<longleftrightarrow>
     (if 0 \<le> r then m' = m(key \<mapsto> bs) \<and> (r = 0 \<longrightarrow> key \<in> dom m) else m' = m(key := None))"
| "map_spec (Delete key) r m m' \<longleftrightarrow> m' = m(key := None) \<and> r = (if key \<in> dom m then 0 else hENOENT)"
| "map_spec (Partial key bs offset) r m m' \<longleftrightarrow>
     (case m key of
        None \<Rightarrow> if offset \<noteq> 0 then r = hENOENT \<and> m' = m
                else if r = 0 then m' = m(key \<mapsto> bs) else 0 < r \<and> m' = m(key := None)
      | Some old \<Rightarrow> if offset < 0 \<or> int (length old) \<le> offset then r = hEINVAL \<and> m' = m
                else if r = 0 then m' = m(key \<mapsto> splice (nat offset) bs old)
                else 0 < r \<and> (m' = m \<or> m' = m(key := None)))"
| "map_spec (Optimize suggest) r m m' \<longleftrightarrow> m' = m \<and> r \<le> 1"

definition owned_map :: "HashArray \<Rightarrow> bytes \<rightharpoonup> bytes" where
  "owned_map H key = (case hash_map H key of Some (Owned bs) \<Rightarrow> Some bs | _ \<Rightarrow> None)"

definition good_table :: "int \<Rightarrow> HashArray \<times> alloc \<Rightarrow> bool" where
  "good_table mx s \<longleftrightarrow>
     (let H = fst s in hash_ok H \<and> is_malloc_value H \<and> max_bytes H = mx \<and> roomy H \<and> limited H \<and> within_limit H \<and>
        (\<forall>key. hash_code H key \<le> 2 ^ 30))"

lemma owned_entries:
  assumes "hash_ok H" "is_malloc_value H"
  shows "hash_map H key = map_option Owned (owned_map H key)"
proof (cases "hash_map H key")
  case (Some e)
  then obtain d where d: "chain_find_entry (buckets H ! (hash_code H key mod length (buckets H))) key = Some d"
    "e = entry_of d" by (auto simp: hash_map_def)
  have "node_ok True d" using find_in_bucket(3) [OF assms(1) refl d(1)] assms(2) by simp
  then show ?thesis using Some d(2)
    by (auto simp: owned_map_def node_ok_def entry_of_def split: hvalue.splits)
qed (simp add: owned_map_def)

lemma owned_map_upd:
  "hash_map H' = (hash_map H)(key \<mapsto> Owned bs) \<Longrightarrow> owned_map H' = (owned_map H)(key \<mapsto> bs)"
  "hash_map H' = (hash_map H)(key := None) \<Longrightarrow> owned_map H' = (owned_map H)(key := None)"
  "hash_map H' = hash_map H \<Longrightarrow> owned_map H' = owned_map H"
  by (simp_all add: owned_map_def fun_eq_iff)

lemma good_table_step:
  assumes "good_table mx (H, al)" "hash_ok H'" "same_config H H'" "within_limit H \<Longrightarrow> within_limit H'" 
    "limited H \<Longrightarrow> roomy H'"
  shows "good_table mx (H', al')"
  using assms by (simp add: good_table_def same_config_def limited_def hash_code_def)

lemma items_limited:
  assumes "hash_ok H" "limited H" "within_limit H"
  shows "item_count H < 2 ^ 29"
proof -
  have "32 * item_count H \<le> weight node_bytes (buckets H)"
  proof -
    have "sum_list (map (\<lambda>d. 32 * Suc 0) ds) \<le> sum_list (map node_bytes ds)" for ds
      by (rule sum_list_mono) (simp add: node_bytes_def CALC_NODE_MALLOC_BYTES_def sizeof_HashData_def)
    then have l: "32 * length ds \<le> sum_list (map node_bytes ds)" for ds by (simp add: sum_list_triv mult.commute)
    have "32 * items bs \<le> weight node_bytes bs" for bs
    proof (induction bs)
      case (Cons ds bs)
      with l [of ds] show ?case by (simp add: sum_list_triv)
    qed simp
    then show ?thesis using assms(1) by (simp add: hash_ok_def)
  qed
  moreover have "int (weight node_bytes (buckets H)) < 8 * (2 ^ 31 - 1)"
    using assms by (simp add: hash_ok_def limited_def within_limit_def)
  ultimately show ?thesis by simp
qed

lemma hash_step_insert:
  assumes g: "good_table mx (H, al)" and f: "fits_int key (int (length bs))"
  shows "\<exists>r s'. hash_step (Insert key bs) (H, al) = Some (r, s') \<and> good_table mx s' \<and>
    map_spec (Insert key bs) r (owned_map H) (owned_map (fst s'))"
proof -
  have H: "hash_ok H" "roomy H" "is_malloc_value H" using g by (simp_all add: good_table_def)
  have st: "stored (um_map Map.empty 0 bs) H 0 (int (length bs)) = Some (Owned bs)"
    using H(3) um_read_map [of Map.empty 0 bs] by (simp add: stored_def)
  show ?thesis
  proof (cases rule: hash_insert_ex_ok [OF H(1,2) f st, of al, case_names stored failed])
    case (stored r H' al')
    have "r = 0 \<longrightarrow> key \<in> dom (owned_map H)"
      using stored(6) owned_entries [OF H(1,3), of key] by auto
    moreover have "good_table mx (H', al')" by (rule good_table_step [OF g stored(2,4)]) (rule stored(7,8), assumption)+
    ultimately show ?thesis using stored(1,5) owned_map_upd(1) [OF stored(3)]
      by (intro exI [of _ r] exI [of _ "(H', al')"]) auto
  next
    case (failed r H' al')
    have "good_table mx (H', al')" by (rule good_table_step [OF g failed(2,4)]) (simp_all add: failed(6,7))
    then show ?thesis using failed(1,5) owned_map_upd(2) [OF failed(3)]
      by (intro exI [of _ r] exI [of _ "(H', al')"]) auto
  qed
qed

lemma hash_step_delete:
  assumes g: "good_table mx (H, al)"
  shows "\<exists>r s'. hash_step (Delete key) (H, al) = Some (r, s') \<and> good_table mx s' \<and>
    map_spec (Delete key) r (owned_map H) (owned_map (fst s'))"
proof -
  have H: "hash_ok H" "roomy H" "is_malloc_value H" using g by (simp_all add: good_table_def)
  from hash_delete_ok [OF H(1), of key] obtain H' where
    H': "hash_delete H key = Some (if hash_map H key = None then hENOENT else 0, H')" "hash_ok H'"
    "hash_map H' = (hash_map H)(key := None)" "same_config H H'" "bytes_used H' \<le> bytes_used H"
    "length (buckets H') = length (buckets H)" .
  have "good_table mx (H', al)"
    by (rule good_table_step [OF g H'(2,4)])
      (use H(2) H'(6) within_limit_mono [OF _ H'(4,5)] in \<open>simp_all add: roomy_def\<close>)
  moreover have "hash_map H key = None \<longleftrightarrow> key \<notin> dom (owned_map H)"
    using owned_entries [OF H(1,3), of key] by auto
  ultimately show ?thesis using H'(1) owned_map_upd(2) [OF H'(3)]
    by (intro exI [of _ "if hash_map H key = None then hENOENT else 0"] exI [of _ "(H', al)"]) auto
qed

lemma hash_step_partial:
  assumes g: "good_table mx (H, al)" and f: "fits_int key (max 0 offset + int (length bs))"
  shows "\<exists>r s'. hash_step (Partial key bs offset) (H, al) = Some (r, s') \<and> good_table mx s' \<and>
    map_spec (Partial key bs offset) r (owned_map H) (owned_map (fst s'))"
proof -
  have H: "hash_ok H" "roomy H" "is_malloc_value H" using g by (simp_all add: good_table_def)
  let ?um = "um_map Map.empty 0 bs" and ?n = "int (length bs)"
  have rd: "um_read ?um 0 ?n = Some bs" by simp
  note entry = owned_entries [OF H(1,3), of key]
  show ?thesis
  proof (cases "owned_map H key")
    case None
    then have absent: "hash_map H key = None" using entry by simp
    show ?thesis
    proof (cases "offset = 0")
      case False
      then show ?thesis using g None by (simp add: hash_partial_set_absent [OF H(1) absent])
    next
      case True
      then have f': "fits_int key ?n" using f by simp
      have st: "stored ?um H 0 ?n = Some (Owned bs)" using H(3) rd by (simp add: stored_def)
      show ?thesis
      proof (cases rule: hash_insert_ex_ok [OF H(1,2) f' st, of al, case_names stored failed])
        case (stored r H' al')
        have "good_table mx (H', al')" by (rule good_table_step [OF g stored(2,4)]) (rule stored(7,8), assumption)+
        then show ?thesis using True None stored(1,5) owned_map_upd(1) [OF stored(3)]
          by (intro exI [of _ 0] exI [of _ "(H', al')"]) (auto simp: hash_partial_set_absent [OF H(1) absent])
      next
        case (failed r H' al')
        have "good_table mx (H', al')" by (rule good_table_step [OF g failed(2,4)]) (simp_all add: failed(6,7))
        then show ?thesis using True None failed(1,5) owned_map_upd(2) [OF failed(3)]
          by (intro exI [of _ "- r"] exI [of _ "(H', al')"]) (auto simp: hash_partial_set_absent [OF H(1) absent])
      qed
    qed
  next
    case (Some old)
    then have m: "hash_map H key = Some (Owned old)" using entry by simp
    show ?thesis
    proof (cases "offset < 0 \<or> int (length old) \<le> offset")
      case True
      then show ?thesis using g Some by (simp add: hash_partial_set_refused [OF H(1) m True])
    next
      case False
      then have o: "0 \<le> offset" "offset < int (length old)" "fits_int key (offset + ?n)"
        using f by (auto simp: max_def)
      show ?thesis
      proof (cases rule: hash_partial_set_present [OF H(1,2) m rd o, of al "length bs", case_names ok fail])
        case (ok H' al')
        have "good_table mx (H', al')" by (rule good_table_step [OF g ok(2,4)]) (rule ok(5,6), assumption)+
        then show ?thesis using Some False ok(1) owned_map_upd(1) [OF ok(3)]
          by (intro exI [of _ 0] exI [of _ "(H', al')"]) auto
      next
        case (fail r H' al')
        have "good_table mx (H', al')" by (rule good_table_step [OF g fail(2,5)]) (simp_all add: fail(6,7))
        moreover have "owned_map H' = owned_map H \<or> owned_map H' = (owned_map H)(key := None)"
          using fail(4) owned_map_upd(2,3) by blast
        ultimately show ?thesis using Some False fail(1,3)
          by (intro exI [of _ r] exI [of _ "(H', al')"]) auto
      qed
    qed
  qed
qed

lemma best_start_bound:
  assumes "suggest \<le> 2 ^ 30" "item_count H < 2 ^ 29"
  shows "best_start H suggest \<le> 2 ^ 30"
  using assms by (auto simp: best_start_def Let_def nat_le_iff)

lemma hash_step_optimize:
  assumes g: "good_table mx (H, al)" and s: "suggest \<le> 2 ^ 30"
  shows "\<exists>r s'. hash_step (Optimize suggest) (H, al) = Some (r, s') \<and> good_table mx s' \<and>
    map_spec (Optimize suggest) r (owned_map H) (owned_map (fst s'))"
proof -
  have H: "hash_ok H" "\<And>k. hash_code H k \<le> 2 ^ 30" "limited H" "within_limit H" "roomy H"
    using g by (simp_all add: good_table_def)
  have b: "best_start H suggest \<le> 2 ^ 30" using s items_limited [OF H(1,3,4)] by (rule best_start_bound)
  show ?thesis
  proof (cases rule: hash_best_op_total [OF H(1,2) b, of al, case_names optimal run])
    case optimal
    then show ?thesis using g by simp
  next
    case (run r H' al')
    have "good_table mx (H', al')" by (rule good_table_step [OF g run(2,5)]) (use run(7,8) H(5) in \<open>simp_all add: roomy_def\<close>)
    then show ?thesis using run(1,6) owned_map_upd(3) [OF run(3)]
      by (intro exI [of _ r] exI [of _ "(H', al')"]) auto
  qed
qed

lemma hash_step_ok:
  assumes "good_table mx s" "hash_legal op"
  shows "\<exists>r s'. hash_step op s = Some (r, s') \<and> good_table mx s' \<and>
    map_spec op r (owned_map (fst s)) (owned_map (fst s'))"
proof -
  obtain H al where s: "s = (H, al)" by (cases s)
  show ?thesis
    unfolding s using assms hash_step_insert hash_step_delete hash_step_partial hash_step_optimize
    by (cases op) (simp_all add: s del: hash_step.simps map_spec.simps)
qed

interpretation table: store hash_step "good_table mx" hash_legal "\<lambda>s. owned_map (fst s)" map_spec
  by unfold_locales (rule hash_step_ok)

section \<open>Iteration and statistics\<close>

text \<open>The state of the caller after the calls for the first \<open>k\<close> nodes, numbered from \<open>i\<close> on.\<close>

definition walked :: "(nat \<Rightarrow> HashData \<Rightarrow> 's \<Rightarrow> int \<times> 's) \<Rightarrow> nat \<Rightarrow> HashData list \<Rightarrow> nat \<Rightarrow> 's \<Rightarrow> 's" where
  "walked f i ds k s = fold (\<lambda>(j, d) s. snd (f j d s)) (enumerate i (take k ds)) s"

lemma walked_simps [simp]:
  "walked f i ds 0 s = s" "walked f i (d # ds) (Suc k) s = walked f (i + 1) ds k (snd (f i d s))"
  by (simp_all add: walked_def)

lemma walk_chain_append:
  "walk_chain f i (ds @ es) s =
     (case walk_chain f i ds s of (r, j, t) \<Rightarrow> if r \<noteq> 0 then (r, j, t) else walk_chain f j es t)"
  by (induction f i ds s rule: walk_chain.induct) (auto split: prod.splits)

lemma walk_buckets_concat:
  "walk_buckets f i dss s = (case walk_chain f i (concat dss) s of (r, j, t) \<Rightarrow> (r, t))"
  by (induction f i dss s rule: walk_buckets.induct) (auto simp: walk_chain_append split: prod.splits)

lemma walk_chain_stops:
  "\<exists>k r j t. walk_chain f i ds s = (r, j, t) \<and> k \<le> length ds \<and>
     (\<forall>j < k. fst (f (i + j) (ds ! j) (walked f i ds j s)) = 0) \<and>
     (if k = length ds then r = 0 \<and> t = walked f i ds k s else r \<noteq> 0 \<and> f (i + k) (ds ! k) (walked f i ds k s) = (r, t))"
proof (induction ds arbitrary: i s)
  case (Cons d ds)
  obtain q u where q: "f i d s = (q, u)" by (cases "f i d s")
  show ?case
  proof (cases "q = 0")
    case True
    from Cons.IH [of "i + 1" u] obtain k r j t where IH: "walk_chain f (i + 1) ds u = (r, j, t)" "k \<le> length ds"
      "\<forall>j < k. fst (f (i + 1 + j) (ds ! j) (walked f (i + 1) ds j u)) = 0"
      "if k = length ds then r = 0 \<and> t = walked f (i + 1) ds k u
       else r \<noteq> 0 \<and> f (i + 1 + k) (ds ! k) (walked f (i + 1) ds k u) = (r, t)" by metis
    have "fst (f (i + m) ((d # ds) ! m) (walked f i (d # ds) m s)) = 0" if "m < Suc k" for m
      using that IH(3) q True by (cases m) auto
    with IH q True show ?thesis
      by (intro exI [of _ "Suc k"] exI [of _ r] exI [of _ j] exI [of _ t]) (auto split: if_splits)
  next
    case False
    with q show ?thesis by (intro exI [of _ 0] exI [of _ q] exI [of _ i] exI [of _ u]) simp
  qed
qed simp

definition chains_of_length :: "HashArray \<Rightarrow> nat \<Rightarrow> nat" where
  "chains_of_length H k = length (filter (\<lambda>ds. length ds = k) (buckets H))"

lemma stat_loop_ok:
  assumes "\<forall>ds \<in> set dss. length ds < length lens"
  shows "\<exists>longest' lens'. stat_loop (int (length lens) - 1) dss used longest lens =
      Some (0, used + length (filter (\<lambda>ds. ds \<noteq> []) dss), longest', lens') \<and> length lens' = length lens \<and>
      longest \<le> longest' \<and> (longest' = longest \<or> longest' < length lens) \<and>
      (\<forall>k < length lens. lens' ! k = lens ! k + (if k = 0 then 0 else length (filter (\<lambda>ds. length ds = k) dss)))"
  using assms
proof (induction dss arbitrary: used longest lens)
  case (Cons ds dss)
  show ?case
  proof (cases "ds = []")
    case True
    with Cons.IH [of lens used longest] Cons.prems show ?thesis by auto
  next
    case False
    define lens1 where "lens1 = lens[length ds := lens ! length ds + 1]"
    have l1: "length lens1 = length lens" by (simp add: lens1_def)
    let ?l = "if longest < length ds then length ds else longest"
    have "\<forall>ds \<in> set dss. length ds < length lens1" using Cons.prems l1 by simp
    from Cons.IH [OF this, of "used + 1" ?l] obtain longest' lens' where
      r: "stat_loop (int (length lens1) - 1) dss (used + 1) ?l lens1 =
        Some (0, used + 1 + length (filter (\<lambda>ds. ds \<noteq> []) dss), longest', lens')" "length lens' = length lens1"
      "?l \<le> longest'" "longest' = ?l \<or> longest' < length lens1"
      "\<forall>k < length lens1. lens' ! k = lens1 ! k + (if k = 0 then 0 else length (filter (\<lambda>ds. length ds = k) dss))"
      by blast
    have s: "stat_loop (int (length lens) - 1) (ds # dss) used longest lens =
        stat_loop (int (length lens1) - 1) dss (used + 1) ?l lens1"
      using False Cons.prems by (simp add: Let_def lens1_def)
    have "\<forall>k < length lens. lens' ! k = lens ! k + (if k = 0 then 0 else length (filter (\<lambda>ds. length ds = k) (ds # dss)))"
      using r(5) False l1 by (auto simp: lens1_def nth_list_update)
    then show ?thesis
      unfolding s using r False Cons.prems by (intro exI [of _ longest'] exI [of _ lens']) (auto simp: l1 split: if_splits)
  qed
qed simp

lemma stat_loop_full:
  "\<exists>ds \<in> set dss. length lens \<le> length ds \<Longrightarrow> 0 < length lens \<Longrightarrow>
   \<exists>used' longest' lens'. stat_loop (int (length lens) - 1) dss used longest lens = Some (hENOSPC, used', longest', lens')"
proof (induction dss arbitrary: used longest lens)
  case (Cons ds dss)
  show ?case
  proof (cases "length lens \<le> length ds")
    case True
    with Cons.prems show ?thesis by auto
  next
    case False
    with Cons.prems Cons.IH [of lens] Cons.IH [of "lens[length ds := lens ! length ds + 1]"] show ?thesis
      by (auto simp: Let_def)
  qed
qed simp

end
