(* ===== verification/HashThreads.thy ===== *)
theory HashThreads
  imports HashOps
begin

text \<open>
  The interleavings of threads that insert into one hash table, as a step relation whose steps are the critical sections of
  \<open>hash_insert_ex\<close>.
\<close>

section \<open>Threads that insert\<close>

text \<open>
  \<open>hash_insert_ex\<close> with \<open>needLock\<close> holds the lock of the bucket twice: for the lookup, and to link the new node.
  Between the two, other threads run. A thread is at one of these points, and a step of the system is one critical section of
  one thread, or its code between them.
\<close>

datatype pc = Ready | Looked nat | Made nat HashData | Linked | Done int

record insertion =
  in_key :: bytes
  in_value :: nat
  in_len :: int

type_synonym config = "HashArray \<times> alloc \<times> (nat \<Rightarrow> pc)"

inductive thread_step :: "umem \<Rightarrow> (nat \<Rightarrow> insertion) \<Rightarrow> nat \<Rightarrow> config \<Rightarrow> config \<Rightarrow> bool"
  for um req t where
  step_update: "pcs t = Ready \<Longrightarrow> bucket_of H (in_key (req t)) = Some i \<Longrightarrow>
    insert_lookup um H i (in_key (req t)) (in_value (req t)) (in_len (req t)) = Some (Updated H') \<Longrightarrow>
    thread_step um req t (H, al, pcs) (H', al, pcs(t := Done 0))"
| step_look: "pcs t = Ready \<Longrightarrow> bucket_of H (in_key (req t)) = Some i \<Longrightarrow>
    insert_lookup um H i (in_key (req t)) (in_value (req t)) (in_len (req t)) = Some (Absent H') \<Longrightarrow>
    thread_step um req t (H, al, pcs) (H', al, pcs(t := Looked i))"
| step_alloc: "pcs t = Looked i \<Longrightarrow>
    insert_alloc al um H (in_key (req t)) (in_value (req t)) (in_len (req t)) = Some (Inr d, H', al') \<Longrightarrow>
    thread_step um req t (H, al, pcs) (H', al', pcs(t := Made i d))"
| step_fail: "pcs t = Looked i \<Longrightarrow>
    insert_alloc al um H (in_key (req t)) (in_value (req t)) (in_len (req t)) = Some (Inl e, H', al') \<Longrightarrow>
    thread_step um req t (H, al, pcs) (H', al', pcs(t := Done e))"
| step_link: "pcs t = Made i d \<Longrightarrow> ADD_TO_BUCKET H i d = Some H' \<Longrightarrow>
    thread_step um req t (H, al, pcs) (H', al, pcs(t := Linked))"
| step_grow: "pcs t = Linked \<Longrightarrow> insert_grow al H = Some (H', al') \<Longrightarrow>
    thread_step um req t (H, al, pcs) (H', al', pcs(t := Done 1))"

inductive_cases thread_stepE: "thread_step um req t (H, al, pcs) c"

lemma thread_step_deterministic: "thread_step um req t c c1 \<Longrightarrow> thread_step um req t c c2 \<Longrightarrow> c1 = c2"
  by (erule thread_step.cases; erule thread_step.cases; simp)

text \<open>The threads in \<open>T\<close> run in any order.\<close>

definition system_step :: "umem \<Rightarrow> (nat \<Rightarrow> insertion) \<Rightarrow> nat set \<Rightarrow> config \<Rightarrow> config \<Rightarrow> bool" where
  "system_step um req T c c' \<longleftrightarrow> (\<exists>t \<in> T. thread_step um req t c c')"

text \<open>A thread that runs alone runs \<open>hash_insert_ex\<close>.\<close>

lemma thread_runs_insert:
  assumes "hash_insert_ex al um H (in_key (req t)) (in_value (req t)) (in_len (req t)) = Some (r, H', al')"
    "pcs t = Ready"
  shows "(thread_step um req t)\<^sup>*\<^sup>* (H, al, pcs) (H', al', pcs(t := Done r))"
proof -
  let ?k = "in_key (req t)" and ?v = "in_value (req t)" and ?n = "in_len (req t)"
  from assms(1) obtain i l where i: "bucket_of H ?k = Some i" "insert_lookup um H i ?k ?v ?n = Some l"
    by (auto simp: hash_insert_ex_def bind_eq_Some_conv)
  show ?thesis
  proof (cases l)
    case (Updated G)
    then have "r = 0" "H' = G" "al' = al" using assms(1) i by (simp_all add: hash_insert_ex_def)
    with i Updated assms(2) show ?thesis by (auto intro: step_update)
  next
    case (Absent G)
    then obtain a G1 al1 where a: "insert_alloc al um G ?k ?v ?n = Some (a, G1, al1)"
      using assms(1) i by (auto simp: hash_insert_ex_def bind_eq_Some_conv)
    have 1: "thread_step um req t (H, al, pcs) (G, al, pcs(t := Looked i))"
      using i Absent assms(2) by (auto intro: step_look)
    show ?thesis
    proof (cases a)
      case (Inl e)
      then have "r = e" "H' = G1" "al' = al1" using assms(1) i Absent a by (simp_all add: hash_insert_ex_def)
      then have "thread_step um req t (G, al, pcs(t := Looked i)) (H', al', (pcs(t := Looked i))(t := Done r))"
        using a Inl by (intro step_fail) auto
      with 1 show ?thesis by (simp add: converse_rtranclp_into_rtranclp r_into_rtranclp)
    next
      case (Inr d)
      from assms(1) i Absent a Inr obtain F where F: "ADD_TO_BUCKET G1 i d = Some F"
        "insert_grow al1 F = Some (H', al')" "r = 1"
        by (auto simp: hash_insert_ex_def bind_eq_Some_conv)
      have 2: "thread_step um req t (G, al, pcs(t := Looked i)) (G1, al1, (pcs(t := Looked i))(t := Made i d))"
        using a Inr by (intro step_alloc) auto
      have 3: "thread_step um req t (G1, al1, pcs(t := Made i d)) (F, al1, (pcs(t := Made i d))(t := Linked))"
        using F(1) by (intro step_link) auto
      have 4: "thread_step um req t (F, al1, pcs(t := Linked)) (H', al', (pcs(t := Linked))(t := Done 1))"
        using F(2) by (intro step_grow) auto
      from 1 2 3 4 F(3) show ?thesis by (simp add: converse_rtranclp_into_rtranclp)
    qed
  qed
qed

section \<open>The counters\<close>

text \<open>
  \<open>bytes_used\<close> and \<open>item_count\<close> belong to the whole table: \<open>bytes_used\<close> is read and changed without a lock, and both are
  changed under the locks of different buckets. Updates of theirs can be lost, and a thread can read a value in between.
  In a racy step the counters have any values before and after the step of the thread; the other fields are only
  changed under the lock of a bucket.
\<close>

definition counted :: "int \<Rightarrow> nat \<Rightarrow> HashArray \<Rightarrow> HashArray" where
  "counted b n H = H\<lparr>bytes_used := b, item_count := n\<rparr>"

inductive racy_step :: "umem \<Rightarrow> (nat \<Rightarrow> insertion) \<Rightarrow> nat \<Rightarrow> config \<Rightarrow> config \<Rightarrow> bool" for um req t where
  racy: "thread_step um req t (counted b n H, al, pcs) (H', al', pcs') \<Longrightarrow>
    racy_step um req t (H, al, pcs) (counted b' n' H', al', pcs')"

inductive_cases racy_stepE: "racy_step um req t c c'"

text \<open>A schedule is the list of the threads in the order of their steps.\<close>

inductive racy_run :: "umem \<Rightarrow> (nat \<Rightarrow> insertion) \<Rightarrow> nat list \<Rightarrow> config \<Rightarrow> config \<Rightarrow> bool" for um req where
  racy_Nil: "racy_run um req [] c c"
| racy_Cons: "racy_step um req t c c' \<Longrightarrow> racy_run um req ts c' c'' \<Longrightarrow> racy_run um req (t # ts) c c''"

inductive_cases racy_run_ConsE: "racy_run um req (t # ts) c c'"

lemma counted_simps [simp]:
  "buckets (counted b n H) = buckets H" "capacity (counted b n H) = capacity H" "hash_func (counted b n H) = hash_func H"
  "is_malloc_value (counted b n H) = is_malloc_value H" "max_bytes (counted b n H) = max_bytes H"
  "load_factor (counted b n H) = load_factor H" "lock_count (counted b n H) = lock_count H"
  "bytes_used (counted b n H) = b" "item_count (counted b n H) = n"
  "hash_map (counted b n H) = hash_map H" "hash_code (counted b n H) = hash_code H"
  "counted b n (counted b' n' H) = counted b n H"
  by (simp_all add: counted_def hash_map_def hash_code_def fun_eq_iff)

lemma counted_same: "counted (bytes_used H) (item_count H) H = H"
  by (simp add: counted_def)

lemma same_config_counted [simp]:
  "same_config H (counted b n G) \<longleftrightarrow> same_config H G" "same_config (counted b n H) G \<longleftrightarrow> same_config H G"
  by (simp_all add: same_config_def)

text \<open>A step that is not racy is one of the racy steps.\<close>

lemma thread_step_racy: "thread_step um req t c c' \<Longrightarrow> racy_step um req t c c'"
  using racy [of um req t "bytes_used H" "item_count H" H al pcs H' al' pcs' "bytes_used H'" "item_count H'" for H al pcs H' al' pcs']
  by (cases c; cases c') (simp add: counted_same)

text \<open>The operations do the same to the chains whatever the counters are.\<close>

lemma bucket_of_counted [simp]: "bucket_of (counted b n H) = bucket_of H"
  by (rule ext) (simp add: bucket_of_def cong: if_cong)

lemma put_node_counted: "put_node H i d = Some H' \<Longrightarrow> put_node (counted b n H) i d = Some (counted b n H')"
  by (cases H) (auto simp: put_node_def counted_def bind_eq_Some_conv)

lemma DELETE_counted:
  "DELETE_FROM_BUCKET H i d = Some H' \<Longrightarrow>
   DELETE_FROM_BUCKET (counted b n H) i d = Some (counted (b - int (node_bytes d)) (n - 1) H')"
  by (cases H) (auto simp: DELETE_FROM_BUCKET_def counted_def bind_eq_Some_conv)

lemma ADD_counted: "ADD_TO_BUCKET H i d = Some H' \<Longrightarrow> ADD_TO_BUCKET (counted b n H) i d = Some (counted b (n + 1) H')"
  by (cases H) (auto simp: ADD_TO_BUCKET_def counted_def bind_eq_Some_conv)

definition map_lookup_result :: "(HashArray \<Rightarrow> HashArray) \<Rightarrow> lookup_result \<Rightarrow> lookup_result" where
  "map_lookup_result f r = (case r of Updated H \<Rightarrow> Updated (f H) | Absent H \<Rightarrow> Absent (f H))"

lemma insert_lookup_counted:
  assumes r: "insert_lookup um H i k v l = Some r"
  obtains b' n' where "insert_lookup um (counted b n H) i k v l = Some (map_lookup_result (counted b' n') r)"
proof -
  from r obtain ds where ds: "mrd (buckets H) i = Some ds" by (auto simp: insert_lookup_def bind_eq_Some_conv)
  show ?thesis
  proof (cases "chain_find_entry ds k")
    case None
    then show ?thesis using r ds that [of b n] by (auto simp: insert_lookup_def map_lookup_result_def)
  next
    case (Some d)
    consider (put) d' H' where "put_node H i d' = Some H'" "r = Updated H'"
        "\<And>F. put_node (counted b n H) i d' = Some F \<Longrightarrow> insert_lookup um (counted b n H) i k v l = Some (Updated F)"
      | (del) H' where "DELETE_FROM_BUCKET H i d = Some H'" "r = Absent H'"
        "\<And>F. DELETE_FROM_BUCKET (counted b n H) i d = Some F \<Longrightarrow> insert_lookup um (counted b n H) i k v l = Some (Absent F)"
      using r ds Some by (auto simp: insert_lookup_def bind_eq_Some_conv split: if_splits)
    then show ?thesis
    proof cases
      case put
      then show ?thesis using that put_node_counted by (simp add: map_lookup_result_def)
    next
      case del
      then show ?thesis using that DELETE_counted by (simp add: map_lookup_result_def)
    qed
  qed
qed

section \<open>Different keys\<close>

text \<open>The entry that a thread inserts, and what holds at each of its points.\<close>

definition new_entry :: "umem \<Rightarrow> HashArray \<Rightarrow> insertion \<Rightarrow> hentry" where
  "new_entry um H q = the (stored um H (in_value q) (in_len q))"

definition bucket_index :: "HashArray \<Rightarrow> bytes \<Rightarrow> nat" where
  "bucket_index H key = hash_code H key mod length (buckets H)"

fun pc_ok :: "umem \<Rightarrow> HashArray \<Rightarrow> bool \<Rightarrow> (bytes \<rightharpoonup> hentry) \<Rightarrow> insertion \<Rightarrow> pc \<Rightarrow> bool" where
  "pc_ok um H0 bad m q Ready \<longleftrightarrow> m (in_key q) = hash_map H0 (in_key q)"
| "pc_ok um H0 bad m q (Looked i) \<longleftrightarrow> m (in_key q) = None \<and> i = bucket_index H0 (in_key q)"
| "pc_ok um H0 bad m q (Made i d) \<longleftrightarrow> m (in_key q) = None \<and> i = bucket_index H0 (in_key q) \<and> hd_key d = in_key q \<and>
     node_ok (is_malloc_value H0) d \<and> entry_of d = new_entry um H0 q"
| "pc_ok um H0 bad m q Linked \<longleftrightarrow> m (in_key q) = Some (new_entry um H0 q)"
| "pc_ok um H0 bad m q (Done r) \<longleftrightarrow> m (in_key q) = (if 0 \<le> r then Some (new_entry um H0 q) else None) \<and>
     (0 \<le> r \<longrightarrow> r \<le> 1) \<and> (r < 0 \<longrightarrow> r = - hENOMEM \<and> bad \<or> r = - hENOSPC \<and> 0 < max_bytes H0)"

text \<open>The threads insert different keys into a table with locks, which does not grow: its load factor is below 0.10.\<close>

definition requests_ok :: "umem \<Rightarrow> HashArray \<Rightarrow> (nat \<Rightarrow> insertion) \<Rightarrow> nat set \<Rightarrow> bool" where
  "requests_ok um H0 req T \<longleftrightarrow> hash_ok H0 \<and> 0 < lock_count H0 \<and> load_factor H0 < double_0_10 \<and> finite T \<and>
     inj_on (\<lambda>t. in_key (req t)) T \<and>
     (\<forall>t \<in> T. fits_int (in_key (req t)) (in_len (req t)) \<and> stored um H0 (in_value (req t)) (in_len (req t)) \<noteq> None)"

definition threads_inv :: "umem \<Rightarrow> HashArray \<Rightarrow> bool \<Rightarrow> (nat \<Rightarrow> insertion) \<Rightarrow> nat set \<Rightarrow> config \<Rightarrow> bool" where
  "threads_inv um H0 bad req T c \<longleftrightarrow>
     (case c of (H, al, pcs) \<Rightarrow> (False \<in> set al \<longrightarrow> bad) \<and> (\<exists>G b n. H = counted b n G \<and> hash_ok G \<and> same_config H0 G \<and>
        length (buckets G) = length (buckets H0) \<and>
        (\<forall>k. k \<notin> (\<lambda>t. in_key (req t)) ` T \<longrightarrow> hash_map G k = hash_map H0 k) \<and>
        (\<forall>t \<in> T. pc_ok um H0 bad (hash_map G) (req t) (pcs t))))"

lemma threads_inv_counted:
  "threads_inv um H0 bad req T (H, al, pcs) \<Longrightarrow> threads_inv um H0 bad req T (counted b n H, al, pcs)"
  by (fastforce simp: threads_inv_def)

lemma pc_ok_other: "m' (in_key q) = m (in_key q) \<Longrightarrow> pc_ok um H0 bad m' q p \<longleftrightarrow> pc_ok um H0 bad m q p"
  by (cases p) simp_all

lemma threads_inv_update:
  assumes R: "requests_ok um H0 req T" and t: "t \<in> T"
    and G: "same_config H0 G" "length (buckets G) = length (buckets H0)"
      "\<forall>k. k \<notin> (\<lambda>t. in_key (req t)) ` T \<longrightarrow> hash_map G k = hash_map H0 k"
      "\<forall>t \<in> T. pc_ok um H0 bad (hash_map G) (req t) (pcs t)"
    and G': "hash_ok G'" "same_config G G'" "length (buckets G') = length (buckets G)"
      "hash_map G' = (hash_map G)(in_key (req t) := x)"
    and p: "pc_ok um H0 bad (hash_map G') (req t) p"
    and H': "H' = counted b n G'" and al: "False \<in> set al' \<longrightarrow> bad"
  shows "threads_inv um H0 bad req T (H', al', pcs(t := p))"
proof -
  have "pc_ok um H0 bad (hash_map G') (req s) ((pcs(t := p)) s)" if s: "s \<in> T" for s
  proof (cases "s = t")
    case False
    with s t R have "in_key (req s) \<noteq> in_key (req t)" by (auto simp: requests_ok_def inj_on_def)
    then have "hash_map G' (in_key (req s)) = hash_map G (in_key (req s))" using G'(4) by simp
    then have "pc_ok um H0 bad (hash_map G') (req s) (pcs s) \<longleftrightarrow> pc_ok um H0 bad (hash_map G) (req s) (pcs s)"
      by (rule pc_ok_other)
    with False s G(4) show ?thesis by simp
  qed (use p in simp)
  moreover have "hash_map G' k = hash_map H0 k" if "k \<notin> (\<lambda>t. in_key (req t)) ` T" for k
    using that G(3) G'(4) t by auto
  ultimately show ?thesis
    unfolding threads_inv_def case_prod_conv
    using G' G(1,2) H' al by (intro conjI exI [of _ G'] exI [of _ b] exI [of _ n]) (auto simp: same_config_def)
qed

lemma stored_config: "same_config H H' \<Longrightarrow> stored um H' v n = stored um H v n"
  by (simp add: stored_def same_config_def)

lemma grow_idle:
  "load_factor H < double_0_10 \<Longrightarrow> cap_val (capacity H) = Some c \<Longrightarrow> insert_grow al H = Some (H, al)"
  by (simp add: insert_grow_def)

lemma insert_alloc_script: "insert_alloc al um H k v l = Some (r, H', al') \<Longrightarrow> set al' \<subseteq> set al"
  using alloc_next_subset [of al]
  by (cases "alloc_next al") (auto simp: insert_alloc_def Let_def bind_eq_Some_conv split: if_splits)

text \<open>The effect of one step, from each point of a thread.\<close>

fun pc_rank :: "pc \<Rightarrow> nat" where
  "pc_rank Ready = 4"
| "pc_rank (Looked i) = 3"
| "pc_rank (Made i d) = 2"
| "pc_rank Linked = 1"
| "pc_rank (Done r) = 0"

lemma thread_advances:
  assumes R: "requests_ok um H0 req T" and inv: "threads_inv um H0 bad req T (H, al, pcs)" and t: "t \<in> T"
    and run: "pc_rank (pcs t) \<noteq> 0"
  obtains H' al' p where "thread_step um req t (H, al, pcs) (H', al', pcs(t := p))" "pc_rank p < pc_rank (pcs t)"
    "threads_inv um H0 bad req T (H', al', pcs(t := p))"
proof -
  let ?k = "in_key (req t)" and ?v = "in_value (req t)" and ?n = "in_len (req t)"
  from inv obtain G b n where H: "H = counted b n G" and ok: "hash_ok G" and al: "False \<in> set al \<longrightarrow> bad" and
    G: "same_config H0 G" "length (buckets G) = length (buckets H0)"
      "\<forall>k. k \<notin> (\<lambda>t. in_key (req t)) ` T \<longrightarrow> hash_map G k = hash_map H0 k"
      "\<forall>t \<in> T. pc_ok um H0 bad (hash_map G) (req t) (pcs t)"
    by (auto simp: threads_inv_def)
  note upd = threads_inv_update [OF R t G]
  have e: "stored um G ?v ?n = Some (new_entry um H0 (req t))" "fits_int ?k ?n"
    using R t stored_config [OF G(1)] by (auto simp: requests_ok_def new_entry_def)
  have pt: "pc_ok um H0 bad (hash_map G) (req t) (pcs t)" using G(4) t by blast
  define i where "i = hash_code G ?k mod length (buckets G)"
  have i0: "i = bucket_index H0 ?k"
    using G(1,2) by (simp add: i_def bucket_index_def hash_code_def same_config_def)
  have bi: "bucket_of H ?k = Some i" using bucket_of_ok [OF ok] by (simp add: H i_def)
  show ?thesis
  proof (cases "pcs t")
    case Ready
    show ?thesis
    proof (cases rule: insert_lookup_cases [OF ok i_def e(1), case_names updated absent])
      case (updated G')
      obtain b' n' where "insert_lookup um H i ?k ?v ?n = Some (Updated (counted b' n' G'))"
        using insert_lookup_counted [OF updated(1), of b n] unfolding H map_lookup_result_def by auto
      from step_update [where req = req and pcs = pcs and t = t, OF Ready bi this] show ?thesis
        by (rule that) (use updated Ready in \<open>auto simp: al intro!: upd\<close>)
    next
      case (absent G')
      obtain b' n' where "insert_lookup um H i ?k ?v ?n = Some (Absent (counted b' n' G'))"
        using insert_lookup_counted [OF absent(1), of b n] unfolding H map_lookup_result_def by auto
      from step_look [where req = req and pcs = pcs and t = t, OF Ready bi this] show ?thesis
        by (rule that) (use absent Ready i0 in \<open>auto simp: al intro!: upd\<close>)
    qed
  next
    case (Looked j)
    then have j: "j = i" "hash_map G ?k = None" using pt i0 by simp_all
    have st: "stored um H ?v ?n = Some (new_entry um H0 (req t))" using e(1) by (simp add: H stored_def)
    have sz: "0 \<le> ?n" "int (length ?k) + ?n + 48 \<le> INT_MAX" using e(2) by (simp_all add: fits_int_def)
    show ?thesis
    proof (cases rule: insert_alloc_cases [OF sz st, of al, case_names ok fail])
      case (ok d al')
      have h: "H\<lparr>bytes_used := bytes_used H + int (node_bytes d)\<rparr> = counted (b + int (node_bytes d)) n G"
        by (simp add: H counted_def)
      have al': "False \<in> set al' \<longrightarrow> bad"
        using al insert_alloc_script [OF ok(1)] by blast
      show ?thesis
      proof (rule that [OF step_alloc [where req = req and pcs = pcs and t = t, OF Looked ok(1)]])
        show "threads_inv um H0 bad req T (H\<lparr>bytes_used := bytes_used H + int (node_bytes d)\<rparr>, al', pcs(t := Made j d))"
          unfolding h using al' ok(2-4) \<open>hash_ok G\<close> j i0 G(1) Looked
          by (intro upd [where G' = G and x = None]) (auto simp: H same_config_def fun_upd_idem)
      qed (simp add: Looked)
    next
      case (fail r al')
      have al': "False \<in> set al' \<longrightarrow> bad" using al insert_alloc_script [OF fail(1)] by blast
      have r: "r = - hENOMEM \<and> bad \<or> r = - hENOSPC \<and> 0 < max_bytes H0"
        using fail(3) al alloc_next_False [of al "snd (alloc_next al)"] G(1)
        by (cases "alloc_next al") (auto simp: H same_config_def split: if_splits)
      show ?thesis
      proof (rule that [OF step_fail [where req = req and pcs = pcs and t = t, OF Looked fail(1)]])
        show "threads_inv um H0 bad req T (H, al', pcs(t := Done r))"
          using fail(2) r al' ok j Looked
          by (intro upd [where G' = G and x = None]) (auto simp: H same_config_def fun_upd_idem)
      qed (simp add: Looked)
    qed
  next
    case (Made j d)
    then have j: "j = i" "hash_map G ?k = None" "hd_key d = ?k" "node_ok (is_malloc_value G) d"
      "entry_of d = new_entry um H0 (req t)"
      using pt i0 G(1) by (simp_all add: same_config_def)
    have f: "chain_find_entry (buckets G ! i) ?k = None" using j(2) hash_map_find [OF i_def] by simp
    from ADD_ok [OF ok i_def f j(3,4)] obtain F where F:
      "ADD_TO_BUCKET (G\<lparr>bytes_used := bytes_used G + int (node_bytes d)\<rparr>) i d = Some F" "hash_ok F"
      "hash_map F = (hash_map G)(?k \<mapsto> entry_of d)"
      "F = G\<lparr>buckets := buckets F, item_count := item_count G + 1, bytes_used := bytes_used G + int (node_bytes d)\<rparr>"
      "length (buckets F) = length (buckets G)" .
    have c: "same_config G F" by (subst F(4)) (simp add: same_config_def)
    have h: "H = counted b n (G\<lparr>bytes_used := bytes_used G + int (node_bytes d)\<rparr>)" by (simp add: H counted_def)
    have a: "ADD_TO_BUCKET H j d = Some (counted b (n + 1) F)"
      unfolding h j(1) using F(1) by (rule ADD_counted)
    show ?thesis
    proof (rule that [OF step_link [where req = req and pcs = pcs and t = t, OF Made a]])
      show "threads_inv um H0 bad req T (counted b (n + 1) F, al, pcs(t := Linked))"
        using al F c j(5) Made by (intro upd [where G' = F and x = "Some (entry_of d)"]) auto
    qed (simp add: Made)
  next
    case Linked
    have "load_factor H < double_0_10" using R G(1) by (simp add: H requests_ok_def same_config_def)
    moreover have "cap_val (capacity H) = Some (length (buckets G))" using ok by (simp add: H hash_ok_def)
    ultimately have g: "insert_grow al H = Some (H, al)" by (rule grow_idle)
    show ?thesis
    proof (rule that [OF step_grow [where req = req and pcs = pcs and t = t, OF Linked g]])
      show "threads_inv um H0 bad req T (H, al, pcs(t := Done 1))"
        using al ok pt Linked
        by (intro upd [where G' = G and x = "hash_map G ?k"]) (auto simp: H same_config_def)
    qed (simp add: Linked)
  qed (use run in simp)
qed

lemma threads_inv_start:
  assumes "requests_ok um H0 req T"
  shows "threads_inv um H0 (False \<in> set al) req T (H0, al, \<lambda>_. Ready)"
  unfolding threads_inv_def using assms
  by (auto simp: requests_ok_def same_config_def counted_same
      intro!: exI [of _ H0] exI [of _ "bytes_used H0"] exI [of _ "item_count H0"])

text \<open>A racy step keeps the invariant, and uses up one of the four steps of its thread.\<close>

lemma racy_step_ok:
  assumes R: "requests_ok um H0 req T" and inv: "threads_inv um H0 bad req T c" and t: "t \<in> T" and st: "racy_step um req t c c'"
  shows "threads_inv um H0 bad req T c' \<and> pc_rank (snd (snd c') t) < pc_rank (snd (snd c) t) \<and>
    (\<forall>s. s \<noteq> t \<longrightarrow> snd (snd c') s = snd (snd c) s)"
proof -
  from st obtain H al pcs b n H' al' pcs' b' n' where c: "c = (H, al, pcs)" "c' = (counted b' n' H', al', pcs')" and
    s: "thread_step um req t (counted b n H, al, pcs) (H', al', pcs')" by (elim racy_stepE) blast
  have inv': "threads_inv um H0 bad req T (counted b n H, al, pcs)" using inv c(1) threads_inv_counted by blast
  have "pc_rank (pcs t) \<noteq> 0" using s by cases auto
  from thread_advances [OF R inv' t this] obtain F al'' p where F:
    "thread_step um req t (counted b n H, al, pcs) (F, al'', pcs(t := p))" "pc_rank p < pc_rank (pcs t)"
    "threads_inv um H0 bad req T (F, al'', pcs(t := p))" .
  have "(H', al', pcs') = (F, al'', pcs(t := p))" using s F(1) by (rule thread_step_deterministic)
  then show ?thesis using F(2,3) threads_inv_counted by (simp add: c)
qed

lemma racy_run_ok:
  assumes R: "requests_ok um H0 req T"
  shows "racy_run um req ts c c' \<Longrightarrow> set ts \<subseteq> T \<Longrightarrow> threads_inv um H0 bad req T c \<Longrightarrow>
    threads_inv um H0 bad req T c' \<and> (\<forall>t. count_list ts t + pc_rank (snd (snd c') t) \<le> pc_rank (snd (snd c) t))"
proof (induction rule: racy_run.induct)
  case (racy_Cons t c c' ts c'')
  from racy_Cons.prems have t: "t \<in> T" "set ts \<subseteq> T" by simp_all
  note step = racy_step_ok [OF R racy_Cons.prems(2) t(1) racy_Cons.hyps(1)]
  from racy_Cons.IH [OF t(2)] step have IH: "threads_inv um H0 bad req T c''"
    "\<And>s. count_list ts s + pc_rank (snd (snd c'') s) \<le> pc_rank (snd (snd c') s)" by auto
  have "count_list (t # ts) s + pc_rank (snd (snd c'') s) \<le> pc_rank (snd (snd c) s)" for s
    using IH(2) [of s] step by (cases "s = t") auto
  with IH(1) show ?case by blast
qed simp

text \<open>A thread that has not returned can go on, and a system in which no thread can go on has finished.\<close>

definition all_done :: "nat set \<Rightarrow> config \<Rightarrow> bool" where
  "all_done T c \<longleftrightarrow> (\<forall>t \<in> T. pc_rank (snd (snd c) t) = 0)"

lemma threads_go_on:
  assumes R: "requests_ok um H0 req T" and inv: "threads_inv um H0 bad req T c" and t: "t \<in> T" "pc_rank (snd (snd c) t) \<noteq> 0"
  shows "\<exists>c'. racy_step um req t c c'"
proof -
  obtain H al pcs where c: "c = (H, al, pcs)" by (cases c)
  have "pc_rank (pcs t) \<noteq> 0" using t(2) by (simp add: c)
  from thread_advances [OF R inv [unfolded c] t(1) this] obtain c' where "thread_step um req t c c'" by (metis c)
  then show ?thesis using thread_step_racy by blast
qed

lemma threads_finish:
  assumes R: "requests_ok um H0 req T"
  shows "threads_inv um H0 bad req T c \<Longrightarrow> \<exists>ts c'. set ts \<subseteq> T \<and> racy_run um req ts c c' \<and> all_done T c'"
proof (induction "\<Sum>t \<in> T. pc_rank (snd (snd c) t)" arbitrary: c rule: less_induct)
  case less
  have fin: "finite T" using R by (simp add: requests_ok_def)
  show ?case
  proof (cases "all_done T c")
    case False
    then obtain t where t: "t \<in> T" "pc_rank (snd (snd c) t) \<noteq> 0" by (auto simp: all_done_def)
    obtain c1 where s: "racy_step um req t c c1" using threads_go_on [OF R less.prems t] by blast
    note ok = racy_step_ok [OF R less.prems t(1) s]
    have "(\<Sum>s \<in> T. pc_rank (snd (snd c1) s)) < (\<Sum>s \<in> T. pc_rank (snd (snd c) s))"
    proof (rule sum_strict_mono_ex1 [OF fin])
      have "pc_rank (snd (snd c1) s) \<le> pc_rank (snd (snd c) s)" for s using ok by (cases "s = t") auto
      then show "\<forall>s \<in> T. pc_rank (snd (snd c1) s) \<le> pc_rank (snd (snd c) s)" ..
    qed (use ok t in blast)
    with less.hyps ok obtain ts c' where "set ts \<subseteq> T" "racy_run um req ts c1 c'" "all_done T c'" by blast
    with s t(1) have "set (t # ts) \<subseteq> T" "racy_run um req (t # ts) c c'" by (auto intro: racy_Cons)
    with \<open>all_done T c'\<close> show ?thesis by blast
  next
    case True
    then show ?thesis by (intro exI [of _ "[]"] exI [of _ c]) (simp add: racy_Nil)
  qed
qed

end
