(* ===== verification/HashProps.thy ===== *)
theory HashProps
  imports HashHistory HashThreads HashFunc
begin

text \<open>
  The properties of the hash table, over sample tables.
\<close>

section \<open>Sample tables\<close>

definition sample_node :: "u8 \<Rightarrow> bytes \<Rightarrow> HashData" where
  "sample_node k bs = \<lparr>hd_key = [k], hd_value_len = int (length bs), hd_malloc_value_size = 8,
     hd_value = Inline (map Some bs @ replicate (8 - length bs) None)\<rparr>"

text \<open>One bucket with the keys \<open>a\<close> and \<open>b\<close>, which have different hash codes.\<close>

definition pair_table :: HashArray where
  "pair_table = \<lparr>buckets = [[sample_node 97 [1, 2], sample_node 98 [3]]], hash_func = PJWHash, item_count = 2,
     capacity = Prime 0, load_factor = 0, max_bytes = 1000, bytes_used = 90, is_malloc_capacity = False,
     is_malloc_value = True, lock_count = 0\<rparr>"

definition empty_table :: "bool \<Rightarrow> HashArray" where
  "empty_table owned = \<lparr>buckets = [[]], hash_func = PJWHash, item_count = 0, capacity = Prime 0, load_factor = 0,
     max_bytes = 0, bytes_used = 8, is_malloc_capacity = False, is_malloc_value = owned, lock_count = 1\<rparr>"

lemma prime_0: "prime_array ! 0 = 1"
  by (simp add: prime_array_def)

lemma pair_table_ok: "hash_ok pair_table"
  by (simp add: hash_ok_def pair_table_def buckets_ok_def prime_0 sample_node_def node_ok_def node_bytes_def
      CALC_NODE_MALLOC_BYTES_def sizeof_HashData_def)

lemma empty_table_ok: "hash_ok (empty_table owned)" "hash_map (empty_table owned) = Map.empty"
  by (simp_all add: hash_ok_def empty_table_def buckets_ok_def prime_0 hash_map_def fun_eq_iff)

lemma pair_table_code: "hash_code pair_table key \<le> 2 ^ 30"
  using PJWHash_bound [of key] by (simp add: hash_code_def pair_table_def word_less_nat_alt)

lemma pair_table_entry: "hash_map pair_table [97] = Some (Owned [1, 2])"
  by (simp add: hash_map_def pair_table_def sample_node_def entry_of_def)

lemma um_read_prefix:
  assumes "um_read um p n = Some bs" "0 \<le> k" "k \<le> n"
  shows "um_read um p k = Some (take (nat k) bs)"
proof -
  have "map (\<lambda>i. um (p + i)) [0..<nat n] = map Some bs" using assms by (simp add: um_read_def those_Some split: if_splits)
  then have "take (nat k) (map (\<lambda>i. um (p + i)) [0..<nat n]) = map Some (take (nat k) bs)" by (simp add: take_map)
  then show ?thesis using assms(2,3) by (simp add: um_read_def those_Some take_map)
qed

section \<open>Properties\<close>

text \<open>
  C1: Histories. Whatever sequence of insertions, deletions, partial updates and optimisations runs on a new table that owns
  its values, with a memory limit and hash codes up to \<open>2 ^ 30\<close>, and whichever allocations fail on the
  way, every operation returns, without undefined behaviour, and changes the map of the keys to their values as its result says: an
  insertion binds the key or, with a negative result, leaves it unbound; a deletion unbinds it and reports whether it was
  bound; a partial update overwrites the value from an offset on or extends it; rehashing changes nothing. At the end a
  lookup copies exactly the value of the map, the number of nodes and the bytes in use agree with the counters, and the
  limit is kept.
\<close>

theorem hash_table_history:
  assumes init: "hash_init_ex al f cap lf mx True = Some (0, H, al1)"
    and limit: "8 * int (length (buckets H)) \<le> mx" "mx < 8 * (2 ^ 31 - 1)" and cap: "cap < 2 ^ 31 - 1"
    and codes: "\<forall>key. unat (f key) \<le> 2 ^ 30" and legal: "\<forall>op \<in> set ops. hash_legal op"
  shows "\<exists>rs H' al' m. run_history hash_step ops (H, al1) = Some (rs, H', al') \<and> hash_ok H' \<and>
    spec_run map_spec ops rs Map.empty m \<and> bytes_used H' \<le> mx \<and>
    (\<forall>key um. hash_get um H' key INT_MAX =
      (case m key of None \<Rightarrow> Some (hENOENT, [], INT_MAX)
       | Some bs \<Rightarrow> if int (length bs) \<le> INT_MAX then Some (0, bs, int (length bs)) else Some (hENOSPC, [], INT_MAX)))"
proof -
  obtain H0: "hash_ok H" "hash_map H = Map.empty" "hash_func H = f" "max_bytes H = mx" "is_malloc_value H"
    "bytes_used H = 8 * int (length (buckets H))"
    by (cases rule: hash_init_ex_ok [OF cap, of al f lf mx True, case_names ok fail])
      (use init in \<open>auto simp: hENOMEM_def\<close>)
  have "0 < int (length (buckets H))" using H0(1) by (simp add: hash_ok_def)
  with limit(1) have "0 < mx" by linarith
  then have g: "good_table mx (H, al1)"
    using H0 limit codes by (auto simp: good_table_def roomy_def limited_def within_limit_def hash_code_def)
  from table.run_refines [OF g legal] obtain rs H' al' where
    run: "run_history hash_step ops (H, al1) = Some (rs, H', al')" "good_table mx (H', al')"
    "spec_run map_spec ops rs (owned_map H) (owned_map H')" by auto
  have "owned_map H = Map.empty" using H0(2) by (simp add: owned_map_def fun_eq_iff)
  moreover have H': "hash_ok H'" "is_malloc_value H'" using run(2) by (simp_all add: good_table_def)
  moreover have "hash_get um H' key INT_MAX =
      (case owned_map H' key of None \<Rightarrow> Some (hENOENT, [], INT_MAX)
       | Some bs \<Rightarrow> if int (length bs) \<le> INT_MAX then Some (0, bs, int (length bs)) else Some (hENOSPC, [], INT_MAX))"
    for um key
    by (simp add: hash_get_ok [OF H'(1)] owned_entries [OF H'] split: option.split)
  moreover have "bytes_used H' \<le> mx"
    using run(2) \<open>0 < mx\<close> by (auto simp: good_table_def within_limit_def)
  ultimately show ?thesis using run by auto
qed


theorem hash_table_history_witness:
  "\<exists>H rs H' al' m. hash_init_ex [] PJWHash 2 0 1000 True = Some (0, H, []) \<and>
    run_history hash_step [Insert [97] [1, 2], Partial [97] [9] 1, Optimize 5, Delete [98]] (H, []) = Some (rs, H', al') \<and>
    spec_run map_spec [Insert [97] [1, 2], Partial [97] [9] 1, Optimize 5, Delete [98]] rs Map.empty m"
proof -
  define H where "H = \<lparr>buckets = [[], [], []], hash_func = PJWHash, item_count = 0, capacity = Prime 1,
      load_factor = 0, max_bytes = 1000, bytes_used = 24, is_malloc_capacity = False,
      is_malloc_value = True, lock_count = 0\<rparr>"
  have i: "hash_init_ex [] PJWHash 2 0 1000 True = Some (0, H, [])"
    by (simp add: hash_init_ex_def hash_get_prime_capacity_def PRIME_ARRAY_SIZE_def prime_array_def
        hash_alloc_buckets_def cap_val.simps(2) H_def numeral_3_eq_3)
  have "unat (PJWHash key) \<le> 2 ^ 30" for key using PJWHash_bound [of key] by (simp add: word_less_nat_alt)
  then have c: "\<forall>key. unat (PJWHash key) \<le> 2 ^ 30" ..
  have l: "8 * int (length (buckets H)) \<le> 1000" by (simp add: H_def)
  let ?ops = "[Insert [97] [1, 2], Partial [97] [9] 1, Optimize 5, Delete [98]]"
  have legal: "\<forall>op \<in> set ?ops. hash_legal op" by (simp add: fits_int_def INT_MAX_def)
  have "(1000 :: int) < 8 * (2 ^ 31 - 1)" "(2 :: nat) < 2 ^ 31 - 1" by simp_all
  from hash_table_history [OF i l this c legal] obtain rs H' al' m where
    "run_history hash_step ?ops (H, []) = Some (rs, H', al')" "spec_run map_spec ?ops rs Map.empty m" by (elim exE conjE)
  with i show ?thesis by (intro exI conjI)
qed

text \<open>
  C9: Insertion, with values that the table copies or borrows. \<open>hash_insert_ex\<close> returns, keeps the invariant and the
  memory limit, and its result is exactly this: 0 when a node of the key gets the value in place (the table
  borrows its values, or the value fits into the block and does not waste more than half of one above 128 bytes); otherwise
  \<open>-ENOSPC\<close> when a limit is set and the new node, less the bytes of the old one, would break it;
  otherwise 1 or, when \<open>malloc\<close> fails, \<open>-ENOMEM\<close>. With 0 and 1 the key is bound to the value and no other
  key changes. With an error the key is not bound at all: the old node is freed before the memory for the new one has been
  found, so that a failed update loses the old value. Contrary to \<open>hash.h\<close> (0 for a key that exists, 1 for a
  new key) the result is 1 when the node of a key that exists is replaced, as in the witness.
\<close>

theorem hash_insert_correct:
  assumes "hash_ok H" "roomy H" "fits_int key value_len" "stored um H val value_len = Some e"
  shows "\<exists>H' al'. hash_insert_ex al um H key val value_len = Some (insert_result al H key value_len, H', al') \<and>
    hash_ok H' \<and> same_config H H' \<and> (within_limit H \<longrightarrow> within_limit H') \<and>
    (updates_in_place H key value_len \<longrightarrow> key \<in> dom (hash_map H)) \<and>
    hash_map H' = (if updates_in_place H key value_len \<or> \<not> over_limit H key value_len \<and> fst (alloc_next al)
                   then (hash_map H)(key \<mapsto> e) else (hash_map H)(key := None))"
proof -
  have present: "updates_in_place H key value_len \<longrightarrow> key \<in> dom (hash_map H)"
    using hash_find_ex_ok [OF assms(1), of key]
    by (auto simp: updates_in_place_def hash_map_def dom_def split: option.splits)
  have r: "0 \<le> insert_result al H key value_len \<longleftrightarrow>
      updates_in_place H key value_len \<or> \<not> over_limit H key value_len \<and> fst (alloc_next al)"
    by (simp add: insert_result_def hENOSPC_def hENOMEM_def)
  show ?thesis
  proof (cases rule: hash_insert_ex_ok [OF assms, of al, case_names stored failed])
    case (stored r' H' al')
    then have "0 \<le> insert_result al H key value_len" by auto
    with stored present r show ?thesis by (intro exI [of _ H'] exI [of _ al']) simp
  next
    case (failed r' H' al')
    then have "\<not> 0 \<le> insert_result al H key value_len" by simp
    with failed present r show ?thesis by (intro exI [of _ H'] exI [of _ al']) auto
  qed
qed

theorem hash_insert_correct_witness:
  "hash_map pair_table [97] = Some (Owned [1, 2]) \<and>
   (\<exists>um. (\<exists>H al'. hash_insert_ex [] um pair_table [97] 0 4 = Some (0, H, al') \<and> hash_map H [97] = Some (Owned [7, 7, 7, 7])) \<and>
     (\<exists>H al'. hash_insert_ex [] um pair_table [97] 0 20 = Some (1, H, al') \<and> hash_map H [97] = Some (Owned (replicate 20 7))) \<and>
     (\<exists>H al'. hash_insert_ex [False] um pair_table [97] 0 20 = Some (- hENOMEM, H, al') \<and> hash_map H [97] = None))"
proof -
  let ?um = "um_map Map.empty 0 (replicate 20 7)"
  have rd: "um_read ?um 0 20 = Some (replicate 20 7)" using um_read_map [of Map.empty 0 "replicate 20 7"] by simp
  have rd4: "um_read ?um 0 4 = Some (replicate 4 7)" using um_read_prefix [OF rd, of 4] by (simp add: take_replicate)
  have st: "stored ?um pair_table 0 20 = Some (Owned (replicate 20 7))" "stored ?um pair_table 0 4 = Some (Owned (replicate 4 7))"
    by (simp_all add: stored_def rd rd4) (simp_all add: pair_table_def)
  have r: "roomy pair_table" "fits_int [97] 20" "fits_int [97] 4"
    by (simp_all add: roomy_def pair_table_def fits_int_def INT_MAX_def)
  have f: "hash_find_ex pair_table [97] = Some (Some (sample_node 97 [1, 2]))"
    by (simp only: hash_find_ex_ok [OF pair_table_ok]) (simp add: pair_table_def sample_node_def)
  have res: "insert_result [] pair_table [97] 4 = 0" "insert_result [] pair_table [97] 20 = 1"
      "insert_result [False] pair_table [97] 20 = - hENOMEM"
      "updates_in_place pair_table [97] 4" "\<not> updates_in_place pair_table [97] 20" "\<not> over_limit pair_table [97] 20"
    by (simp_all add: insert_result_def updates_in_place_def over_limit_def old_node_size_def node_size_def f sample_node_def
        node_bytes_def CALC_NODE_MALLOC_BYTES_def sizeof_HashData_def) (simp_all add: pair_table_def)
  have four: "replicate 4 7 = [7, 7, 7, 7 :: u8]" by (simp add: numeral_eq_Suc)
  note ins = hash_insert_correct [OF pair_table_ok r(1)]
  show ?thesis
    using ins [OF r(3) st(2), of "[]"] ins [OF r(2) st(1), of "[]"] ins [OF r(2) st(1), of "[False]"] pair_table_entry
    by (intro conjI exI [of _ ?um]) (auto simp: res four)
qed

text \<open>
  C36: Optimisation ends. On a table with hash codes up to \<open>2 ^ 30\<close> and a start value up to \<open>2 ^ 30\<close>, \<open>hash_best_op\<close>
  terminates whatever the allocator does: with 0 when no two nodes of a bucket have different hash codes, with 1 when it has found
  a capacity where this is so. It fails only for these reasons: with \<open>-ENOMEM\<close> when the script of the allocator has a failure,
  with \<open>-ENOSPC\<close> when a limit is set that the array of one of the next twelve capacities would break. The map is unchanged, also
  when it fails half-way.
\<close>

theorem hash_best_op_terminates:
  assumes "hash_ok H" "\<And>key. hash_code H key \<le> 2 ^ 30" "best_start H suggest \<le> 2 ^ 30"
  shows "\<exists>r H' al'. hash_best_op al H suggest = Some (r, H', al') \<and> hash_ok H' \<and> hash_map H' = hash_map H \<and>
    hash_count H' = hash_count H \<and>
    (if conflict_free H then r = 0
     else r = 1 \<and> conflict_free H' \<or>
       r = - hENOMEM \<and> False \<in> set al \<or>
       r = - hENOSPC \<and> 0 < max_bytes H \<and>
         (\<exists>c. c \<le> max (best_start H suggest) (length (buckets H')) + 12 \<and> max_bytes H < bytes_used H' + 8 * int c))"
proof (cases rule: hash_best_op_total [OF assms, of al, case_names optimal run])
  case optimal
  with assms(1) show ?thesis by simp
next
  case (run r H' al')
  have core: "hash_core H" using assms(1) by (rule hash_ok_core)
  have "\<not> conflict_free H"
  proof
    assume "conflict_free H"
    then have "hash_conflict_count H = Some 0"
      using hash_conflict_count_spec [OF hash_core_cap [OF core]] by metis
    then have "hash_best_op al H suggest = Some (0, H, al)" by (simp add: hash_best_op_def)
    with run(1,6) show False by auto
  qed
  with run show ?thesis
    by (intro exI [of _ r] exI [of _ H'] exI [of _ al']) (auto simp: hash_count_def best_failure_def)
qed

text \<open>A table with a conflict and without a limit: with an allocator that does not fail the search succeeds.\<close>

theorem hash_best_op_terminates_witness:
  "\<not> conflict_free pair_table \<and>
   (\<exists>H' al'. hash_best_op [] (pair_table\<lparr>max_bytes := 0\<rparr>) 0 = Some (1, H', al') \<and> conflict_free H' \<and>
     hash_map H' = hash_map pair_table)"
proof -
  let ?H = "pair_table\<lparr>max_bytes := 0\<rparr>"
  have "hash_code ?H = hash_code pair_table" by (simp add: hash_code_def fun_eq_iff)
  then have ok: "hash_ok ?H" using pair_table_ok by (simp add: hash_ok_def)
  have code: "hash_code ?H key \<le> 2 ^ 30" for key using pair_table_code [of key] by (simp add: hash_code_def)
  have start: "best_start ?H 0 \<le> 2 ^ 30" by (simp add: best_start_def pair_table_def)
  have "unat (PJWHash [97]) \<noteq> unat (PJWHash [98])" by code_simp
  then have c: "\<not> conflict_free pair_table" "\<not> conflict_free ?H"
    by (simp_all add: conflict_free_def pair_table_def sample_node_def hash_code_def)
  have m: "max_bytes ?H = 0" "hash_map ?H = hash_map pair_table" by (simp_all add: hash_map_def hash_code_def fun_eq_iff)
  from hash_best_op_terminates [OF ok code start, of "[]"] c(2) m obtain r H' al' where
    "hash_best_op [] ?H 0 = Some (r, H', al')" "r = 1" "conflict_free H'" "hash_map H' = hash_map pair_table"
    by (simp only: if_False) fastforce
  with c(1) show ?thesis by blast
qed

text \<open>
  C38: Counting, in a table that copies its values (\<open>is_malloc_value\<close>). \<open>hash_inc_ex\<close> with \<open>hash_inc_value\<close> on a key that is
  absent or holds the decimal text of a number \<open>n\<close> succeeds when the block of the key has room for the new text, or when a new
  node keeps the limit and can be allocated. Then it returns 0, stores the text of \<open>n + inc\<close>, and leaves it with a terminator in
  the buffer of the caller, which needs 21 bytes. Otherwise it returns \<open>ENOSPC\<close> or \<open>ENOMEM\<close>, the length 0, and leaves the key
  unbound. No other key changes.
\<close>

theorem hash_inc_counts:
  assumes "hash_ok H" "roomy H" "is_malloc_value H" "counter H key n" "LLONG_MIN \<le> n + inc" "n + inc \<le> LLONG_MAX"
    "mapped um val 21" "21 \<le> value_len" "fits_int key 20"
  shows "\<exists>r H' um' len al'. hash_inc_ex al um H key inc val value_len hash_inc_value = Some (r, H', um', len, al') \<and>
    hash_ok H' \<and>
    r = (if has_room H key (int (length (print_dec (n + inc)))) then 0
         else if over_limit H key (int (length (print_dec (n + inc)))) then hENOSPC
         else if fst (alloc_next al) then 0 else hENOMEM) \<and>
    (if r = 0 then hash_map H' = (hash_map H)(key \<mapsto> Owned (print_dec (n + inc))) \<and> counter H' key (n + inc) \<and>
       um_read um' val (len + 1) = Some (print_dec (n + inc) @ [0])
     else len = 0 \<and> hash_map H' = (hash_map H)(key := None))"
proof (cases rule: hash_inc_ex_ok [OF assms, of al, case_names ok fail])
  case (ok H' um' al')
  then show ?thesis
    using assms(5,6)
    by (intro exI [of _ 0] exI [of _ H'] exI [of _ um'] exI [of _ "int (length (print_dec (n + inc)))"] exI [of _ al'])
      (simp add: counter_def inc_result_def)
next
  case (fail r H' um' al')
  then show ?thesis
    by (intro exI [of _ r] exI [of _ H'] exI [of _ um'] exI [of _ 0] exI [of _ al']) (simp add: inc_result_def)
qed

theorem hash_inc_counts_witness:
  "\<exists>H um len al. hash_inc_ex [] (\<lambda>_. Some 0) (empty_table True) [97] 5 0 32 hash_inc_value = Some (0, H, um, len, al) \<and>
     hash_map H [97] = Some (Owned (print_dec 5)) \<and> um_read um 0 (len + 1) = Some (print_dec 5 @ [0])"
proof -
  have h: "roomy (empty_table True)" "is_malloc_value (empty_table True)" "counter (empty_table True) [97] 0"
    "mapped (\<lambda>_. Some 0) 0 21" "fits_int [97] 20" "LLONG_MIN \<le> 0 + 5" "0 + 5 \<le> LLONG_MAX" "(21 :: int) \<le> 32"
    using empty_table_ok
    by (simp_all add: roomy_def empty_table_def counter_def mapped_def fits_int_def INT_MAX_def LLONG_MIN_def LLONG_MAX_def)
  have l: "\<not> over_limit (empty_table True) [97] k" for k by (simp add: over_limit_def empty_table_def)
  from hash_inc_counts [OF empty_table_ok(1) h(1-3,6,7,4,8,5), of "[]"] obtain r H um len al where
    R: "hash_inc_ex [] (\<lambda>_. Some 0) (empty_table True) [97] 5 0 32 hash_inc_value = Some (r, H, um, len, al)" "r = 0"
    "hash_map H = (hash_map (empty_table True))([97] \<mapsto> Owned (print_dec 5))"
    "um_read um 0 (len + 1) = Some (print_dec 5 @ [0])"
    by (auto simp: l)
  have "hash_map H [97] = Some (Owned (print_dec 5))" by (simp add: R(3))
  with R show ?thesis by blast
qed

text \<open>
  C40: \<open>hash_walk\<close> goes once through all nodes of the table, whose keys are those of the map, in a fixed order: it calls its
  callback, whatever this is, with the numbers 0, 1, ... and the nodes in this order, and stops after the first call that returns
  something other than 0, which is then its result; when no call does, all nodes have been visited and the result is 0.
  \<open>hash_stat\<close> counts the chains of each positive length when none is as long as the array, and returns \<open>ENOSPC\<close> otherwise.
  Contrary to its comment, it never counts the empty buckets: \<open>stat_by_lens[0]\<close> stays 0.
\<close>

theorem hash_walk_stat:
  assumes H: "hash_ok H" and n: "0 < stat_size"
  shows "\<exists>ds. (\<forall>f s. \<exists>k r t. hash_walk H f s = Some (r, t) \<and> k \<le> length ds \<and>
      (\<forall>j < k. fst (f j (ds ! j) (walked f 0 ds j s)) = 0) \<and>
      (if k = length ds then r = 0 \<and> t = walked f 0 ds k s
       else r \<noteq> 0 \<and> f k (ds ! k) (walked f 0 ds k s) = (r, t))) \<and>
    length ds = hash_count H \<and> distinct (map hd_key ds) \<and> hd_key ` set ds = dom (hash_map H) \<and>
    (\<exists>r st' lens. hash_stat H st stat_size = Some (r, st', lens) \<and>
      (if \<forall>k \<ge> stat_size. chains_of_length H k = 0
       then r = 0 \<and> st_bucket_used st' = length (filter (\<lambda>c. c \<noteq> []) (buckets H)) \<and> st_item_count st' = hash_count H \<and>
         lens ! 0 = 0 \<and> (\<forall>k. 0 < k \<and> k < stat_size \<longrightarrow> lens ! k = chains_of_length H k)
       else r = hENOSPC))"
proof -
  have b: "cap_val (capacity H) = Some (length (buckets H))" "item_count H = items (buckets H)"
    "buckets_ok (hash_code H) (is_malloc_value H) (buckets H)" "buckets H \<noteq> []"
    using H by (auto simp: hash_ok_def)
  have walk: "\<exists>k r t. hash_walk H f s = Some (r, t) \<and> k \<le> length (concat (buckets H)) \<and>
      (\<forall>j < k. fst (f j (concat (buckets H) ! j) (walked f 0 (concat (buckets H)) j s)) = 0) \<and>
      (if k = length (concat (buckets H)) then r = 0 \<and> t = walked f 0 (concat (buckets H)) k s
       else r \<noteq> 0 \<and> f k (concat (buckets H) ! k) (walked f 0 (concat (buckets H)) k s) = (r, t))"
    for f :: "nat \<Rightarrow> HashData \<Rightarrow> 'a \<Rightarrow> int \<times> 'a" and s
  proof -
    have "hash_walk H f s = Some (case walk_chain f 0 (concat (buckets H)) s of (r, j, t) \<Rightarrow> (r, t))"
      using b(1) by (simp add: hash_walk_def walk_buckets_concat)
    moreover obtain k r j t where "walk_chain f 0 (concat (buckets H)) s = (r, j, t)" "k \<le> length (concat (buckets H))"
      "\<forall>j < k. fst (f j (concat (buckets H) ! j) (walked f 0 (concat (buckets H)) j s)) = 0"
      "if k = length (concat (buckets H)) then r = 0 \<and> t = walked f 0 (concat (buckets H)) k s
       else r \<noteq> 0 \<and> f k (concat (buckets H) ! k) (walked f 0 (concat (buckets H)) k s) = (r, t)"
      using walk_chain_stops [of f 0 "concat (buckets H)" s] unfolding add_0 by blast
    ultimately show ?thesis by (intro exI [of _ k] exI [of _ r] exI [of _ t]) simp
  qed
  have keys: "hd_key ` set (concat (buckets H)) = dom (hash_map H)"
    using lookup_concat [OF b(3,4)] by (auto simp: hash_map_lookup dom_def chain_find_None)
  have stat: "\<exists>r st' lens. hash_stat H st stat_size = Some (r, st', lens) \<and>
      (if \<forall>k \<ge> stat_size. chains_of_length H k = 0
       then r = 0 \<and> st_bucket_used st' = length (filter (\<lambda>c. c \<noteq> []) (buckets H)) \<and> st_item_count st' = hash_count H \<and>
         lens ! 0 = 0 \<and> (\<forall>k. 0 < k \<and> k < stat_size \<longrightarrow> lens ! k = chains_of_length H k)
       else r = hENOSPC)"
  proof (cases "\<forall>k \<ge> stat_size. chains_of_length H k = 0")
    case True
    have "length ds < stat_size" if "ds \<in> set (buckets H)" for ds
    proof (rule ccontr)
      assume "\<not> length ds < stat_size"
      then have "chains_of_length H (length ds) = 0" using True by simp
      with that show False unfolding chains_of_length_def length_0_conv filter_empty_conv by blast
    qed
    then have "\<forall>ds \<in> set (buckets H). length ds < length (replicate stat_size (0 :: nat))" by simp
    from stat_loop_ok [OF this, of 0 0] obtain longest lens where r:
      "stat_loop (int stat_size - 1) (buckets H) 0 0 (replicate stat_size 0) =
        Some (0, length (filter (\<lambda>ds. ds \<noteq> []) (buckets H)), longest, lens)" "length lens = stat_size"
      "longest = 0 \<or> longest < stat_size"
      "\<forall>k < stat_size. lens ! k = (if k = 0 then 0 else length (filter (\<lambda>ds. length ds = k) (buckets H)))"
      by auto
    then have "longest + 1 \<le> length lens" using n by linarith
    then show ?thesis
      using r n b(1) True by (simp add: hash_stat_def chains_of_length_def hash_count_def)
  next
    case False
    then obtain k where k: "stat_size \<le> k" "chains_of_length H k \<noteq> 0" by auto
    then obtain ds where "ds \<in> set (buckets H)" "length ds = k"
      by (auto simp: chains_of_length_def filter_empty_conv)
    with k n stat_loop_full [of "buckets H" "replicate stat_size 0" 0 0] obtain u l ls where
      "stat_loop (int stat_size - 1) (buckets H) 0 0 (replicate stat_size 0) = Some (hENOSPC, u, l, ls)" by auto
    then show ?thesis using b(1) False by (simp add: hash_stat_def hENOSPC_def)
  qed
  show ?thesis
    using walk keys stat b(2) buckets_ok_distinct [OF b(3)]
    by (intro exI [of _ "concat (buckets H)"]) (simp add: items_concat hash_count_def)
qed


text \<open>A walk that stops at the second node, and the statistics of the same table.\<close>

definition log_walk :: "nat \<Rightarrow> HashData \<Rightarrow> (nat \<times> bytes) list \<Rightarrow> int \<times> (nat \<times> bytes) list" where
  "log_walk i d s = (if i = 1 then 7 else 0, s @ [(i, hd_key d)])"

theorem hash_walk_stat_witness:
  "(\<exists>k l. hash_walk pair_table log_walk [] = Some (7, [(0, k), (1, l)]) \<and> {k, l} = {[97], [98]}) \<and>
   (\<exists>st lens. hash_stat pair_table undefined 3 = Some (0, st, lens) \<and> st_bucket_used st = 1 \<and> lens ! 2 = 1)"
proof -
  have n: "hash_count pair_table = 2" "dom (hash_map pair_table) = {[97], [98]}"
      "length (filter (\<lambda>c. c \<noteq> []) (buckets pair_table)) = 1"
    by (auto simp: hash_count_def pair_table_def hash_map_def sample_node_def dom_def)
  have c: "chains_of_length pair_table k = (if k = 2 then 1 else 0)" for k
    by (simp add: chains_of_length_def pair_table_def)
  have "0 < (3 :: nat)" by simp
  from hash_walk_stat [where 'a = "(nat \<times> bytes) list", OF pair_table_ok this, of undefined] obtain ds where
    W: "\<forall>f (s :: (nat \<times> bytes) list). \<exists>k r t. hash_walk pair_table f s = Some (r, t) \<and> k \<le> length ds \<and>
      (\<forall>j < k. fst (f j (ds ! j) (walked f 0 ds j s)) = 0) \<and>
      (if k = length ds then r = 0 \<and> t = walked f 0 ds k s
       else r \<noteq> 0 \<and> f k (ds ! k) (walked f 0 ds k s) = (r, t))"
    and D: "length ds = 2" "hd_key ` set ds = {[97], [98]}"
    and S: "\<exists>r st lens. hash_stat pair_table undefined 3 = Some (r, st, lens) \<and> r = 0 \<and> st_bucket_used st = 1 \<and> lens ! 2 = 1"
    unfolding n c by (elim exE conjE) (rule that, simp_all)
  obtain d e where ds: "ds = [d, e]" using D(1) by (auto simp: numeral_2_eq_2 length_Suc_conv)
  from W obtain k r t where K: "hash_walk pair_table log_walk [] = Some (r, t)" "k \<le> 2"
    "\<forall>j < k. fst (log_walk j (ds ! j) (walked log_walk 0 ds j [])) = 0"
    "if k = 2 then r = 0 \<and> t = walked log_walk 0 ds k [] else r \<noteq> 0 \<and> log_walk k (ds ! k) (walked log_walk 0 ds k []) = (r, t)"
    unfolding D(1) by blast
  have "k = 1" using K(2-4) by (cases "k = 0"; cases "k = 2") (auto simp: log_walk_def split: if_splits)
  then have "r = 7" "t = [(0, hd_key d), (1, hd_key e)]" using K(4) by (simp_all add: ds log_walk_def walked_def)
  moreover have "{hd_key d, hd_key e} = {[97], [98]}" using D(2) by (simp add: ds)
  ultimately show ?thesis using K(1) S by blast
qed

lemma um_read_unmapped: "um p = None \<Longrightarrow> 0 < n \<Longrightarrow> um_read um p n = None"
  by (simp add: um_read_def upt_conv_Cons)

text \<open>
  C39: A partial update of a borrowed value. In a table that keeps the pointers of its callers (\<open>is_malloc_value\<close> not set), a partial
  update that makes the value longer, by \<open>bs\<close> from \<open>offset\<close> on, returns 0 and leaves in the table the address of the buffer in which
  \<open>hash_partial_set\<close> has put the new value together, and which it has freed: a lookup that follows, in the memory of the caller, is
  undefined.
\<close>

theorem hash_partial_set_dangling:
  assumes H: "hash_ok H" "roomy H" "\<not> is_malloc_value H" and m: "hash_map H key = Some (Borrowed p n)"
    and old: "um_read um p n = Some old" and bs: "um_read um val value_len = Some bs"
    and len: "0 \<le> offset" "offset < n" "n < offset + value_len" "fits_int key (offset + value_len)"
    and fresh: "um pNewBuff = None"
  shows "\<exists>H'. hash_partial_set (True # al) um pNewBuff H key val offset value_len = Some (0, H', um, al) \<and>
    hash_map H' = (hash_map H)(key \<mapsto> Borrowed pNewBuff (offset + value_len)) \<and>
    hash_get um H' key INT_MAX = None"
proof -
  define i where "i = hash_code H key mod length (buckets H)"
  have bi: "bucket_of H key = Some i" using bucket_of_ok [OF H(1)] by (simp add: i_def)
  obtain d where f: "chain_find_entry (buckets H ! i) key = Some d" "entry_of d = Borrowed p n"
    using m hash_map_find [OF i_def] by auto
  have d: "hd_value d = User p" "hd_value_len d = n" using f(2) by (auto simp: entry_of_def split: hvalue.splits)
  have fd: "hash_find_ex H key = Some (Some d)" using hash_find_ex_ok [OF H(1)] f(1) by (simp add: i_def)
  have c: "cint (offset + value_len) = Some (offset + value_len)"
    using len by (simp add: fits_int_def INT_MIN_def INT_MAX_def)
  have n: "node_ok False d" using find_in_bucket(3) [OF H(1) i_def f(1)] H(3) by simp
  let ?n = "offset + value_len"
  define d' where "d' = d\<lparr>hd_value_len := ?n, hd_value := User pNewBuff\<rparr>"
  have "hd_key d' = key" "node_ok (is_malloc_value H) d'" "hd_malloc_value_size d' = hd_malloc_value_size d"
    using find_in_bucket(2) [OF H(1) i_def f(1)] n d H(3) by (auto simp: d'_def node_ok_def)
  from put_node_ok [OF H(1) i_def f(1) this] obtain H' where H': "put_node H i d' = Some H'" "hash_ok H'"
    "hash_map H' = (hash_map H)(key \<mapsto> Borrowed pNewBuff ?n)"
    by (auto simp: d'_def entry_of_def)
  have lt: "i < length (buckets H)" using bucket_index_lt [OF H(1)] by (simp add: i_def)
  have "hash_insert_ex al um' H key pNewBuff ?n = Some (0, H', al)" for um'
    using H(3) H'(1) lt by (simp add: hash_insert_ex_def bi insert_lookup_def f(1) d'_def)
  moreover have "um_read um p offset \<noteq> None"
    using old len um_read_prefix [of um p n old offset] by simp
  ultimately have "hash_partial_set (True # al) um pNewBuff H key val offset value_len = Some (0, H', um, al)"
    using len by (auto simp: hash_partial_set_def bi fd c d bs)
  moreover have "um_read um pNewBuff ?n = None"
    using len fresh by (simp add: um_read_unmapped)
  then have "hash_get um H' key INT_MAX = None"
    using len by (simp add: hash_get_ok [OF H'(2)] H'(3) fits_int_def)
  ultimately show ?thesis using H'(3) by blast
qed

theorem hash_partial_set_dangling_witness:
  "\<exists>H H'. hash_ok H \<and>
    hash_partial_set [True] (um_map Map.empty 0 [1, 2, 3]) 100 H [97] 0 1 3 = Some (0, H', um_map Map.empty 0 [1, 2, 3], []) \<and>
    hash_get (um_map Map.empty 0 [1, 2, 3]) H' [97] INT_MAX = None"
proof -
  let ?um = "um_map Map.empty 0 [1, 2, 3]"
  define d where "d = \<lparr>hd_key = [97 :: u8], hd_value_len = 2, hd_malloc_value_size = 0, hd_value = User 0\<rparr>"
  define H where "H = (empty_table False)\<lparr>buckets := [[d]], item_count := 1, bytes_used := 41\<rparr>"
  have bs: "um_read ?um 0 3 = Some [1, 2, 3]" using um_read_map [of Map.empty 0 "[1, 2, 3]"] by simp
  have old: "um_read ?um 0 2 = Some [1, 2]" using um_read_prefix [OF bs, of 2] by simp
  have H: "hash_ok H" "roomy H" "\<not> is_malloc_value H" "hash_map H [97] = Some (Borrowed 0 2)"
    by (simp_all add: H_def d_def hash_ok_def empty_table_def buckets_ok_def prime_0 node_ok_def node_bytes_def roomy_def
        CALC_NODE_MALLOC_BYTES_def sizeof_HashData_def hash_map_def entry_of_def)
  have len: "(0 :: int) \<le> 1" "(1 :: int) < 2" "(2 :: int) < 1 + 3" "fits_int [97] (1 + 3)" "?um 100 = None"
    by (simp_all add: fits_int_def INT_MAX_def um_map_def)
  from hash_partial_set_dangling [OF H old bs len, of "[]"] H(1) show ?thesis by auto
qed

section \<open>Interleavings\<close>

text \<open>
  C11: Threads that insert different keys, under any schedule, into a table with locks and a load factor below 0.10 (it does not
  grow then). The critical sections of the threads run in any order, any allocations fail, and the counters \<open>bytes_used\<close>
  and \<open>item_count\<close>, which the threads change without a common lock, have any values before and after each step. No thread takes
  more than four steps; and when none can go on, each has returned from \<open>hash_insert_ex\<close>, the table
  satisfies its invariant up to the two counters, a key is bound to the value of its thread when this has got 0 or 1, and
  not bound when it has got an error, which is \<open>-ENOMEM\<close> only if an allocation fails and \<open>-ENOSPC\<close> only if there is a limit; the
  other keys are as before.
\<close>

theorem hash_threads_finish:
  assumes R: "requests_ok um H0 req T" and ts: "set ts \<subseteq> T"
    and run: "racy_run um req ts (H0, al, \<lambda>_. Ready) (H, al', pcs)"
  shows "(\<forall>t. count_list ts t \<le> 4) \<and>
    ((\<nexists>t c. t \<in> T \<and> racy_step um req t (H, al', pcs) c) \<longrightarrow>
      (\<exists>b n. hash_ok (counted b n H)) \<and>
      (\<forall>t \<in> T. \<exists>r. pcs t = Done r \<and>
         (if 0 \<le> r then r \<le> 1 \<and> hash_map H (in_key (req t)) = Some (new_entry um H0 (req t))
          else hash_map H (in_key (req t)) = None \<and>
            (r = - hENOMEM \<and> False \<in> set al \<or> r = - hENOSPC \<and> 0 < max_bytes H0))) \<and>
      (\<forall>k. k \<notin> (\<lambda>t. in_key (req t)) ` T \<longrightarrow> hash_map H k = hash_map H0 k))"
proof (intro conjI impI)
  from racy_run_ok [OF R run ts threads_inv_start [OF R]]
  have inv: "threads_inv um H0 (False \<in> set al) req T (H, al', pcs)" and n: "\<And>t. count_list ts t + pc_rank (pcs t) \<le> 4"
    by auto
  show "\<forall>t. count_list ts t \<le> 4" using n add_leD1 by blast
  assume stuck: "\<nexists>t c. t \<in> T \<and> racy_step um req t (H, al', pcs) c"
  have fin: "\<exists>r. pcs t = Done r" if t: "t \<in> T" for t
  proof (cases "pc_rank (pcs t) = 0")
    case False
    with threads_go_on [OF R inv t] stuck t show ?thesis by auto
  qed (cases "pcs t"; simp)
  from inv obtain G b n where G: "H = counted b n G" "hash_ok G"
    "\<forall>k. k \<notin> (\<lambda>t. in_key (req t)) ` T \<longrightarrow> hash_map G k = hash_map H0 k"
    "\<forall>t \<in> T. pc_ok um H0 (False \<in> set al) (hash_map G) (req t) (pcs t)"
    by (auto simp: threads_inv_def)
  have "hash_ok (counted (bytes_used G) (item_count G) H)" using G(1,2) by (simp add: counted_same)
  then show "\<exists>b n. hash_ok (counted b n H)" by blast
  show "\<forall>k. k \<notin> (\<lambda>t. in_key (req t)) ` T \<longrightarrow> hash_map H k = hash_map H0 k" using G(1,3) by simp
  show "\<forall>t \<in> T. \<exists>r. pcs t = Done r \<and>
         (if 0 \<le> r then r \<le> 1 \<and> hash_map H (in_key (req t)) = Some (new_entry um H0 (req t))
          else hash_map H (in_key (req t)) = None \<and>
            (r = - hENOMEM \<and> False \<in> set al \<or> r = - hENOSPC \<and> 0 < max_bytes H0))"
  proof
    fix t assume t: "t \<in> T"
    then obtain r where r: "pcs t = Done r" using fin by blast
    with G(4) t have "pc_ok um H0 (False \<in> set al) (hash_map G) (req t) (Done r)" by fastforce
    with r G(1) show "\<exists>r. pcs t = Done r \<and>
         (if 0 \<le> r then r \<le> 1 \<and> hash_map H (in_key (req t)) = Some (new_entry um H0 (req t))
          else hash_map H (in_key (req t)) = None \<and>
            (r = - hENOMEM \<and> False \<in> set al \<or> r = - hENOSPC \<and> 0 < max_bytes H0))"
      by (intro exI [of _ r]) auto
  qed
qed

text \<open>Two threads, an allocator that does not fail and no limit: both keys are bound in the end.\<close>

theorem hash_threads_finish_witness:
  "\<exists>ts H al pcs. racy_run (\<lambda>_. Some 7) (\<lambda>t. \<lparr>in_key = [of_nat t], in_value = t, in_len = 1\<rparr>) ts
      (empty_table True, [], \<lambda>_. Ready) (H, al, pcs) \<and> count_list ts 0 \<le> 4 \<and> count_list ts 1 \<le> 4 \<and>
    hash_map H [0] = Some (Owned [7]) \<and> hash_map H [1] = Some (Owned [7]) \<and> (\<exists>b n. hash_ok (counted b n H))"
proof -
  let ?req = "\<lambda>t :: nat. \<lparr>in_key = [of_nat t :: u8], in_value = t, in_len = 1\<rparr>" and ?um = "(\<lambda>_. Some 7) :: umem"
  let ?T = "{0, 1 :: nat}" and ?start = "(empty_table True, [], \<lambda>_. Ready) :: config"
  have st: "stored ?um (empty_table True) v 1 = Some (Owned [7])" for v
    by (simp add: stored_def empty_table_def um_read_def)
  have R: "requests_ok ?um (empty_table True) ?req ?T"
    using empty_table_ok(1) [of True]
    by (simp add: requests_ok_def st fits_int_def INT_MAX_def) (simp add: empty_table_def double_0_10_def)
  obtain ts c where c: "set ts \<subseteq> ?T" "racy_run ?um ?req ts ?start c" "all_done ?T c"
    using threads_finish [OF R threads_inv_start [OF R]] by blast
  obtain H al pcs where e: "c = (H, al, pcs)" by (cases c)
  have finished: "\<exists>r. pcs t = Done r" if "t \<in> ?T" for t using c(3) that by (cases "pcs t") (auto simp: all_done_def e)
  have stuck: "\<nexists>t c'. t \<in> ?T \<and> racy_step ?um ?req t (H, al, pcs) c'"
    using finished by (force elim!: racy_stepE thread_stepE)
  have new: "new_entry ?um (empty_table True) (?req t) = Owned [7]" for t by (simp add: new_entry_def st)
  have "max_bytes (empty_table True) = 0" by (simp add: empty_table_def)
  with hash_threads_finish [OF R c(1) c(2) [unfolded e]] stuck
  have F: "\<forall>t. count_list ts t \<le> 4" "\<exists>b n. hash_ok (counted b n H)"
    "\<forall>t \<in> ?T. hash_map H (in_key (?req t)) = Some (new_entry ?um (empty_table True) (?req t))"
    by (simp_all split: if_splits)
  have "hash_map H [0] = Some (Owned [7])" "hash_map H [1] = Some (Owned [7])" using F(3) by (simp_all add: new)
  with F(1,2) c(2) e show ?thesis by blast
qed

lemma insert_alloc_shape:
  assumes "insert_alloc al um H key val n = Some (Inr d, H', al')"
  obtains b where "H' = H\<lparr>bytes_used := b\<rparr>" "hd_key d = key"
  using assms by (auto simp: insert_alloc_def Let_def bind_eq_Some_conv split: if_splits prod.splits)

text \<open>
  C37: Threads that insert the same key. Two threads that insert the same key into a table without it, with a lock of its bucket
  (so that the load factor is below 0.10) and enough memory, can both find that the key is absent before one of them links
  its node. Then both return 1, the table has two nodes of the key, against its invariant, and after a deletion the key is
  still bound.
\<close>

theorem hash_insert_race:
  assumes H: "hash_ok H0" "load_factor H0 < double_0_10" "hash_map H0 key = None"
    and q: "s \<noteq> t" "in_key (req s) = key" "in_key (req t) = key"
    and a1: "insert_alloc al um H0 key (in_value (req s)) (in_len (req s)) = Some (Inr d1, H1, al1)"
    and a2: "insert_alloc al1 um H1 key (in_value (req t)) (in_len (req t)) = Some (Inr d2, H2, al2)"
  shows "\<exists>H H'. (system_step um req {s, t})\<^sup>*\<^sup>* (H0, al, \<lambda>_. Ready) (H, al2, (\<lambda>_. Ready)(s := Done 1, t := Done 1)) \<and>
    \<not> hash_ok H \<and> hash_count H = hash_count H0 + 2 \<and>
    hash_delete H key = Some (0, H') \<and> hash_map H' key = Some (entry_of d1)"
proof -
  define i where "i = hash_code H0 key mod length (buckets H0)"
  let ?step = "system_step um req {s, t}"
  define ds where "ds = buckets H0 ! i"
  have lt: "i < length (buckets H0)" using bucket_index_lt [OF H(1)] by (simp add: i_def)
  have bi: "bucket_of H0 key = Some i" using bucket_of_ok [OF H(1)] by (simp add: i_def)
  have absent: "chain_find_entry ds key = None" using H(3) hash_map_find [OF i_def] by (simp add: ds_def)
  obtain b1 where b1: "H1 = H0\<lparr>bytes_used := b1\<rparr>" "hd_key d1 = key" by (rule insert_alloc_shape [OF a1])
  obtain b2 where b2: "H2 = H1\<lparr>bytes_used := b2\<rparr>" "hd_key d2 = key" by (rule insert_alloc_shape [OF a2])
  define tab where "tab bs n = H0\<lparr>bytes_used := b2, buckets := (buckets H0)[i := bs], item_count := n\<rparr>" for bs n
  have H2: "H2 = tab ds (item_count H0)"
    using b1 b2 by (cases H0) (simp add: tab_def ds_def)
  have hc: "hash_code (tab bs n) = hash_code H0" for bs n by (simp add: tab_def hash_code_def fun_eq_iff)
  have tab: "ADD_TO_BUCKET (tab bs n) i d = Some (tab (d # bs) (n + 1))" "bucket_of (tab bs n) key = Some i"
    "hash_map (tab bs n) key = map_option entry_of (chain_find_entry bs key)" "buckets (tab bs n) ! i = bs"
    "hash_count (tab bs n) = n" "i < length (buckets (tab bs n))" "mrd (buckets (tab bs n)) i = Some bs" for bs n d
    using lt bi hc [unfolded tab_def]
    by (simp_all add: tab_def ADD_TO_BUCKET_def bucket_of_def hash_map_def hash_count_def i_def [symmetric] cong: if_cong)
  let ?H = "tab (d2 # d1 # ds) (item_count H0 + 1 + 1)"
  have grow: "insert_grow a ?H = Some (?H, a)" for a
  proof (rule grow_idle)
    show "load_factor ?H < double_0_10" "cap_val (capacity ?H) = Some (length (buckets H0))"
      using H(1,2) by (simp_all add: tab_def hash_ok_def)
  qed
  define pp where "pp a b = (\<lambda>_. Ready)(s := a, t := b)" for a b
  have pp: "pp a b s = a" "pp a b t = b" "(pp a b)(s := a') = pp a' b" "(pp a b)(t := b') = pp a b'" for a b a' b'
    using q(1) by (simp_all add: pp_def fun_upd_twist)
  have S: "?step (H, a, pp x y) (H', a', pp x' y)" if "thread_step um req s (H, a, pp x y) (H', a', (pp x y)(s := x'))"
    for H a x y H' a' x' using that by (auto simp: system_step_def pp(3))
  have T: "?step (H, a, pp x y) (H', a', pp x y')" if "thread_step um req t (H, a, pp x y) (H', a', (pp x y)(t := y'))"
    for H a x y H' a' y' using that by (auto simp: system_step_def pp(4))
  have look: "insert_lookup um H0 i key v n = Some (Absent H0)" for v n
    using lt absent by (simp add: insert_lookup_def ds_def)
  have "?step (H0, al, pp Ready Ready) (H0, al, pp (Looked i) Ready)"
    by (rule S [OF step_look]) (simp_all add: pp q bi look)
  moreover have "?step (H0, al, pp (Looked i) Ready) (H0, al, pp (Looked i) (Looked i))"
    by (rule T [OF step_look]) (simp_all add: pp q bi look)
  moreover have "?step (H0, al, pp (Looked i) (Looked i)) (H1, al1, pp (Made i d1) (Looked i))"
    by (rule S [OF step_alloc]) (simp_all add: pp q a1)
  moreover have "?step (H1, al1, pp (Made i d1) (Looked i)) (H2, al2, pp (Made i d1) (Made i d2))"
    by (rule T [OF step_alloc]) (simp_all add: pp q a2)
  moreover have "?step (H2, al2, pp (Made i d1) (Made i d2)) (tab (d1 # ds) (item_count H0 + 1), al2, pp Linked (Made i d2))"
    unfolding H2 by (rule S [OF step_link]) (rule pp tab)+
  moreover have "?step (tab (d1 # ds) (item_count H0 + 1), al2, pp Linked (Made i d2)) (?H, al2, pp Linked Linked)"
    by (rule T [OF step_link]) (rule pp tab)+
  moreover have "?step (?H, al2, pp Linked Linked) (?H, al2, pp (Done 1) Linked)"
    by (rule S [OF step_grow]) (rule pp grow)+
  moreover have "?step (?H, al2, pp (Done 1) Linked) (?H, al2, pp (Done 1) (Done 1))"
    by (rule T [OF step_grow]) (rule pp grow)+
  ultimately have "?step\<^sup>*\<^sup>* (H0, al, pp Ready Ready) (?H, al2, pp (Done 1) (Done 1))"
    by (meson converse_rtranclp_into_rtranclp rtranclp.rtrancl_refl)
  then have run: "?step\<^sup>*\<^sup>* (H0, al, \<lambda>_. Ready) (?H, al2, (\<lambda>_. Ready)(s := Done 1, t := Done 1))"
    by (simp add: pp_def fun_upd_idem)
  have bad: "\<not> hash_ok ?H"
  proof
    assume "hash_ok ?H"
    from hash_ok_distinct [OF this, of i] show False using b1(2) b2(2) tab(4,6) by simp
  qed
  obtain H' where H': "hash_delete ?H key = Some (0, H')" "hash_map H' key = Some (entry_of d1)"
  proof
    let ?D = "\<lambda>H :: HashArray. H\<lparr>buckets := (buckets H)[i := d1 # ds], item_count := item_count H - 1,
        bytes_used := bytes_used H - int (node_bytes d2)\<rparr>"
    show "hash_delete ?H key = Some (0, ?D ?H)"
      using b1(2) b2(2) tab(6) [of "d2 # d1 # ds" "item_count H0 + 1 + 1"] by (simp add: hash_delete_def tab(2,7) DELETE_FROM_BUCKET_def)
    show "hash_map (?D ?H) key = Some (entry_of d1)"
      using lt b1(2) by (simp add: tab_def hash_map_def hash_code_def i_def)
  qed
  show ?thesis
    by (rule exI [of _ ?H], rule exI [of _ H']) (use run bad tab(5) [of _ "item_count H0 + 1 + 1"] H' in \<open>simp add: hash_count_def\<close>)
qed

theorem hash_insert_race_witness:
  "\<exists>c H H' pcs. (system_step (\<lambda>_. Some 7) (\<lambda>t. \<lparr>in_key = [97], in_value = t, in_len = 1\<rparr>) {0, 1})\<^sup>*\<^sup>*
      (empty_table True, [], \<lambda>_. Ready) (H, [], pcs) \<and> \<not> hash_ok H \<and>
    hash_delete H [97] = Some (0, H') \<and> hash_map H' [97] \<noteq> None"
proof -
  let ?req = "\<lambda>t :: nat. \<lparr>in_key = [97 :: u8], in_value = t, in_len = 1\<rparr>" and ?um = "(\<lambda>_. Some 7) :: umem"
  have "MEM_ALIGN 1 = Some 8" by (simp add: MEM_ALIGN_def INT_MAX_def INT_MIN_def)
  then have a: "\<exists>d. insert_alloc [] ?um ((empty_table True)\<lparr>bytes_used := b\<rparr>) [97] v 1 =
      Some (Inr d, (empty_table True)\<lparr>bytes_used := b + 41\<rparr>, [])" for v b
    by (simp add: insert_alloc_def empty_table_def CALC_NODE_MALLOC_BYTES_def sizeof_HashData_def to_int32_small um_read_def
        mput_def)
  obtain d1 where d1: "insert_alloc [] ?um (empty_table True) [97] (in_value (?req 0)) (in_len (?req 0)) =
      Some (Inr d1, (empty_table True)\<lparr>bytes_used := 8 + 41\<rparr>, [])"
    using a [of 8 0] by (auto simp: empty_table_def)
  obtain d2 where d2: "insert_alloc [] ?um ((empty_table True)\<lparr>bytes_used := 8 + 41\<rparr>) [97] (in_value (?req 1)) (in_len (?req 1)) =
      Some (Inr d2, (empty_table True)\<lparr>bytes_used := 8 + 41 + 41\<rparr>, [])"
    using a [of "8 + 41" 1] by auto
  have "load_factor (empty_table True) < double_0_10" "hash_map (empty_table True) [97] = None"
    using empty_table_ok(2) by (simp_all add: empty_table_def double_0_10_def)
  from hash_insert_race [OF empty_table_ok(1) this zero_neq_one _ _ d1 d2] show ?thesis by auto
qed

end
