(* ===== verification/Utf8.thy ===== *)
theory Utf8
  imports CPrelude Comparator
begin

text \<open>
  The UTF-8 string functions of \<open>libs/utf8.h\<close>. A string argument is a memory block and an
  index into it; every function reads the block byte by byte and is undefined (\<open>None\<close>) when it
  reads or writes outside of the block. \<open>size_t\<close> counts are natural numbers, except where the
  code subtracts from them (\<open>utf8ncat\<close>, \<open>utf8ncasecmp\<close>), which is done on 64-bit words. A
  pointer result is an index of the block, or \<open>None\<close> for the null pointer. Codepoints
  (\<open>utf8_int32_t\<close>) are integers; \<open>char\<close> is signed. \<open>malloc\<close> is a parameter: the block that it
  returns for a size, \<open>None\<close> when it is out of memory.
\<close>

section \<open>Bytes of an encoded codepoint\<close>

text \<open>The tests on a byte that the functions share.\<close>

definition lead4 :: "u8 \<Rightarrow> bool" where
  "lead4 c \<longleftrightarrow> 0xf0 = (0xf8 AND c)"

definition lead3 :: "u8 \<Rightarrow> bool" where
  "lead3 c \<longleftrightarrow> 0xe0 = (0xf0 AND c)"

definition lead2 :: "u8 \<Rightarrow> bool" where
  "lead2 c \<longleftrightarrow> 0xc0 = (0xe0 AND c)"

definition cont :: "u8 \<Rightarrow> bool" where
  "cont c \<longleftrightarrow> 0x80 = (0xc0 AND c)"

section \<open>Codepoints\<close>

definition utf8codepoint :: "bytes \<Rightarrow> nat \<Rightarrow> (int \<times> nat) option" where
  "utf8codepoint m s = do {
     c0 \<leftarrow> mrd m s;
     if lead4 c0 then do {
       c1 \<leftarrow> mrd m (s + 1); c2 \<leftarrow> mrd m (s + 2); c3 \<leftarrow> mrd m (s + 3);
       Some (push_bit 18 (uint (0x07 AND c0)) OR push_bit 12 (uint (0x3f AND c1)) OR
             push_bit 6 (uint (0x3f AND c2)) OR uint (0x3f AND c3), s + 4)
     } else if lead3 c0 then do {
       c1 \<leftarrow> mrd m (s + 1); c2 \<leftarrow> mrd m (s + 2);
       Some (push_bit 12 (uint (0x0f AND c0)) OR push_bit 6 (uint (0x3f AND c1)) OR
             uint (0x3f AND c2), s + 3)
     } else if lead2 c0 then do {
       c1 \<leftarrow> mrd m (s + 1);
       Some (push_bit 6 (uint (0x1f AND c0)) OR uint (0x3f AND c1), s + 2)
     } else Some (sint c0, s + 1)
   }"

definition utf8codepointsize :: "int \<Rightarrow> nat" where
  "utf8codepointsize chr =
     (if 0 = (-0x80 AND chr) then 1
      else if 0 = (-0x800 AND chr) then 2
      else if 0 = (-0x10000 AND chr) then 3
      else 4)"

definition utf8catcodepoint :: "bytes \<Rightarrow> nat \<Rightarrow> int \<Rightarrow> nat \<Rightarrow> (bytes \<times> nat option) option" where
  "utf8catcodepoint m s chr n =
     (if 0 = (-0x80 AND chr) then
        if n < 1 then Some (m, None)
        else do {
          m \<leftarrow> mwr m s (word_of_int chr);
          Some (m, Some (s + 1))
        }
      else if 0 = (-0x800 AND chr) then
        if n < 2 then Some (m, None)
        else do {
          m \<leftarrow> mwr m s (0xc0 OR word_of_int (drop_bit 6 chr));
          m \<leftarrow> mwr m (s + 1) (0x80 OR word_of_int (chr AND 0x3f));
          Some (m, Some (s + 2))
        }
      else if 0 = (-0x10000 AND chr) then
        if n < 3 then Some (m, None)
        else do {
          m \<leftarrow> mwr m s (0xe0 OR word_of_int (drop_bit 12 chr));
          m \<leftarrow> mwr m (s + 1) (0x80 OR word_of_int (drop_bit 6 chr AND 0x3f));
          m \<leftarrow> mwr m (s + 2) (0x80 OR word_of_int (chr AND 0x3f));
          Some (m, Some (s + 3))
        }
      else
        if n < 4 then Some (m, None)
        else do {
          m \<leftarrow> mwr m s (0xf0 OR word_of_int (drop_bit 18 chr));
          m \<leftarrow> mwr m (s + 1) (0x80 OR word_of_int (drop_bit 12 chr AND 0x3f));
          m \<leftarrow> mwr m (s + 2) (0x80 OR word_of_int (drop_bit 6 chr AND 0x3f));
          m \<leftarrow> mwr m (s + 3) (0x80 OR word_of_int (chr AND 0x3f));
          Some (m, Some (s + 4))
        })"

text \<open>The five characters that \<open>utf8chr\<close> and \<open>utf8rchr\<close> search for.\<close>

definition chr_chars :: "int \<Rightarrow> bytes" where
  "chr_chars chr =
     (if 0 = (-0x80 AND chr) then [word_of_int chr, 0, 0, 0, 0]
      else if 0 = (-0x800 AND chr) then
        [0xc0 OR word_of_int (drop_bit 6 chr), 0x80 OR word_of_int (chr AND 0x3f), 0, 0, 0]
      else if 0 = (-0x10000 AND chr) then
        [0xe0 OR word_of_int (drop_bit 12 chr), 0x80 OR word_of_int (drop_bit 6 chr AND 0x3f),
         0x80 OR word_of_int (chr AND 0x3f), 0, 0]
      else
        [0xf0 OR word_of_int (drop_bit 18 chr), 0x80 OR word_of_int (drop_bit 12 chr AND 0x3f),
         0x80 OR word_of_int (drop_bit 6 chr AND 0x3f), 0x80 OR word_of_int (chr AND 0x3f), 0])"

section \<open>Letter case\<close>

definition lwr_switch :: "(int \<times> int) list" where
  "lwr_switch = [(0x0178, 0x00ff), (0x0243, 0x0180), (0x018e, 0x01dd), (0x023d, 0x019a),
     (0x0220, 0x019e), (0x01b7, 0x0292), (0x01c4, 0x01c6), (0x01c7, 0x01c9),
     (0x01ca, 0x01cc), (0x01f1, 0x01f3), (0x01f7, 0x01bf), (0x0187, 0x0188),
     (0x018b, 0x018c), (0x0191, 0x0192), (0x0198, 0x0199), (0x01a7, 0x01a8),
     (0x01ac, 0x01ad), (0x01af, 0x01b0), (0x01b8, 0x01b9), (0x01bc, 0x01bd),
     (0x01f4, 0x01f5), (0x023b, 0x023c), (0x0241, 0x0242), (0x03fd, 0x037b),
     (0x03fe, 0x037c), (0x03ff, 0x037d), (0x037f, 0x03f3), (0x0386, 0x03ac),
     (0x0388, 0x03ad), (0x0389, 0x03ae), (0x038a, 0x03af), (0x038c, 0x03cc),
     (0x038e, 0x03cd), (0x038f, 0x03ce), (0x0370, 0x0371), (0x0372, 0x0373),
     (0x0376, 0x0377), (0x03f4, 0x03d1), (0x03cf, 0x03d7), (0x03f9, 0x03f2),
     (0x03f7, 0x03f8), (0x03fa, 0x03fb)]"

definition utf8lwrcodepoint :: "int \<Rightarrow> int" where
  "utf8lwrcodepoint cp =
    (if (0x0041 \<le> cp \<and> 0x005a \<ge> cp) \<or>
        (0x00c0 \<le> cp \<and> 0x00d6 \<ge> cp) \<or>
        (0x00d8 \<le> cp \<and> 0x00de \<ge> cp) \<or>
        (0x0391 \<le> cp \<and> 0x03a1 \<ge> cp) \<or>
        (0x03a3 \<le> cp \<and> 0x03ab \<ge> cp)
     then cp + 32
     else if (0x0100 \<le> cp \<and> 0x012f \<ge> cp) \<or>
        (0x0132 \<le> cp \<and> 0x0137 \<ge> cp) \<or>
        (0x014a \<le> cp \<and> 0x0177 \<ge> cp) \<or>
        (0x0182 \<le> cp \<and> 0x0185 \<ge> cp) \<or>
        (0x01a0 \<le> cp \<and> 0x01a5 \<ge> cp) \<or>
        (0x01de \<le> cp \<and> 0x01ef \<ge> cp) \<or>
        (0x01f8 \<le> cp \<and> 0x021f \<ge> cp) \<or>
        (0x0222 \<le> cp \<and> 0x0233 \<ge> cp) \<or>
        (0x0246 \<le> cp \<and> 0x024f \<ge> cp) \<or>
        (0x03d8 \<le> cp \<and> 0x03ef \<ge> cp)
     then cp OR 0x1
     else if (0x0139 \<le> cp \<and> 0x0148 \<ge> cp) \<or>
        (0x0179 \<le> cp \<and> 0x017e \<ge> cp) \<or>
        (0x01af \<le> cp \<and> 0x01b0 \<ge> cp) \<or>
        (0x01b3 \<le> cp \<and> 0x01b6 \<ge> cp) \<or>
        (0x01cd \<le> cp \<and> 0x01dc \<ge> cp)
     then (cp + 1) AND NOT 0x1
     else case map_of lwr_switch cp of Some v \<Rightarrow> v | None \<Rightarrow> cp)"

definition upr_switch :: "(int \<times> int) list" where
  "upr_switch = [(0x00ff, 0x0178), (0x0180, 0x0243), (0x01dd, 0x018e), (0x019a, 0x023d),
     (0x019e, 0x0220), (0x0292, 0x01b7), (0x01c6, 0x01c4), (0x01c9, 0x01c7),
     (0x01cc, 0x01ca), (0x01f3, 0x01f1), (0x01bf, 0x01f7), (0x0188, 0x0187),
     (0x018c, 0x018b), (0x0192, 0x0191), (0x0199, 0x0198), (0x01a8, 0x01a7),
     (0x01ad, 0x01ac), (0x01b0, 0x01af), (0x01b9, 0x01b8), (0x01bd, 0x01bc),
     (0x01f5, 0x01f4), (0x023c, 0x023b), (0x0242, 0x0241), (0x037b, 0x03fd),
     (0x037c, 0x03fe), (0x037d, 0x03ff), (0x03f3, 0x037f), (0x03ac, 0x0386),
     (0x03ad, 0x0388), (0x03ae, 0x0389), (0x03af, 0x038a), (0x03cc, 0x038c),
     (0x03cd, 0x038e), (0x03ce, 0x038f), (0x0371, 0x0370), (0x0373, 0x0372),
     (0x0377, 0x0376), (0x03d1, 0x03f4), (0x03d7, 0x03cf), (0x03f2, 0x03f9),
     (0x03f8, 0x03f7), (0x03fb, 0x03fa)]"

definition utf8uprcodepoint :: "int \<Rightarrow> int" where
  "utf8uprcodepoint cp =
    (if (0x0061 \<le> cp \<and> 0x007a \<ge> cp) \<or>
        (0x00e0 \<le> cp \<and> 0x00f6 \<ge> cp) \<or>
        (0x00f8 \<le> cp \<and> 0x00fe \<ge> cp) \<or>
        (0x03b1 \<le> cp \<and> 0x03c1 \<ge> cp) \<or>
        (0x03c3 \<le> cp \<and> 0x03cb \<ge> cp)
     then cp - 32
     else if (0x0100 \<le> cp \<and> 0x012f \<ge> cp) \<or>
        (0x0132 \<le> cp \<and> 0x0137 \<ge> cp) \<or>
        (0x014a \<le> cp \<and> 0x0177 \<ge> cp) \<or>
        (0x0182 \<le> cp \<and> 0x0185 \<ge> cp) \<or>
        (0x01a0 \<le> cp \<and> 0x01a5 \<ge> cp) \<or>
        (0x01de \<le> cp \<and> 0x01ef \<ge> cp) \<or>
        (0x01f8 \<le> cp \<and> 0x021f \<ge> cp) \<or>
        (0x0222 \<le> cp \<and> 0x0233 \<ge> cp) \<or>
        (0x0246 \<le> cp \<and> 0x024f \<ge> cp) \<or>
        (0x03d8 \<le> cp \<and> 0x03ef \<ge> cp)
     then cp AND NOT 0x1
     else if (0x0139 \<le> cp \<and> 0x0148 \<ge> cp) \<or>
        (0x0179 \<le> cp \<and> 0x017e \<ge> cp) \<or>
        (0x01af \<le> cp \<and> 0x01b0 \<ge> cp) \<or>
        (0x01b3 \<le> cp \<and> 0x01b6 \<ge> cp) \<or>
        (0x01cd \<le> cp \<and> 0x01dc \<ge> cp)
     then (cp - 1) OR 0x1
     else case map_of upr_switch cp of Some v \<Rightarrow> v | None \<Rightarrow> cp)"

definition utf8islower :: "int \<Rightarrow> bool" where
  "utf8islower chr \<longleftrightarrow> chr \<noteq> utf8uprcodepoint chr"

definition utf8isupper :: "int \<Rightarrow> bool" where
  "utf8isupper chr \<longleftrightarrow> chr \<noteq> utf8lwrcodepoint chr"

text \<open>Progress of the reads, which the termination proofs of the loops rest on.\<close>

lemma mrd_lt: "mrd m s = Some c \<Longrightarrow> s < length m"
  by (simp add: mrd_Some_iff)

lemma utf8codepoint_progress:
  "utf8codepoint m s = Some (cp, s') \<Longrightarrow> s < s' \<and> s' \<le> length m \<and> s < length m"
  by (auto simp: utf8codepoint_def bind_eq_Some_conv mrd_Some_iff split: if_splits)

lemma utf8catcodepoint_length:
  "utf8catcodepoint m s chr n = Some (m', r) \<Longrightarrow> length m' = length m"
  by (auto simp: utf8catcodepoint_def bind_eq_Some_conv mwr_Some_iff split: if_splits)

text \<open>\<open>utf8lwr\<close> and \<open>utf8upr\<close> rewrite the string in place.\<close>

function utf8lwr_loop :: "bytes \<Rightarrow> nat \<Rightarrow> nat \<Rightarrow> int \<Rightarrow> bytes option" where
  "utf8lwr_loop m p pn cp =
     (if cp \<noteq> 0 then do {
        let lwr_cp = utf8lwrcodepoint cp;
        let size = utf8codepointsize lwr_cp;
        (m', _) \<leftarrow> if lwr_cp \<noteq> cp then utf8catcodepoint m p lwr_cp size else Some (m, None);
        (cp', pn') \<leftarrow> utf8codepoint m' pn;
        utf8lwr_loop m' pn pn' cp'
      } else Some m)"
  by pat_completeness auto
termination
  by (relation "measure (\<lambda>(m, p, pn, cp). length m - pn)")
    (auto dest!: utf8codepoint_progress utf8catcodepoint_length split: if_splits)

definition utf8lwr :: "bytes \<Rightarrow> nat \<Rightarrow> bytes option" where
  "utf8lwr m str = do {
     (cp, pn) \<leftarrow> utf8codepoint m str;
     utf8lwr_loop m str pn cp
   }"

function utf8upr_loop :: "bytes \<Rightarrow> nat \<Rightarrow> nat \<Rightarrow> int \<Rightarrow> bytes option" where
  "utf8upr_loop m p pn cp =
     (if cp \<noteq> 0 then do {
        let lwr_cp = utf8uprcodepoint cp;
        let size = utf8codepointsize lwr_cp;
        (m', _) \<leftarrow> if lwr_cp \<noteq> cp then utf8catcodepoint m p lwr_cp size else Some (m, None);
        (cp', pn') \<leftarrow> utf8codepoint m' pn;
        utf8upr_loop m' pn pn' cp'
      } else Some m)"
  by pat_completeness auto
termination
  by (relation "measure (\<lambda>(m, p, pn, cp). length m - pn)")
    (auto dest!: utf8codepoint_progress utf8catcodepoint_length split: if_splits)

definition utf8upr :: "bytes \<Rightarrow> nat \<Rightarrow> bytes option" where
  "utf8upr m str = do {
     (cp, pn) \<leftarrow> utf8codepoint m str;
     utf8upr_loop m str pn cp
   }"

section \<open>Length, copy and concatenation\<close>

function utf8size_loop :: "bytes \<Rightarrow> nat \<Rightarrow> nat \<Rightarrow> nat option" where
  "utf8size_loop m s sz = do {
     c \<leftarrow> mrd m (s + sz);
     if c \<noteq> 0 then utf8size_loop m s (sz + 1) else Some sz
   }"
  by pat_completeness auto
termination by (relation "measure (\<lambda>(m, s, sz). length m - (s + sz))") (auto dest!: mrd_lt)

definition utf8size :: "bytes \<Rightarrow> nat \<Rightarrow> nat option" where
  "utf8size m str = do {
     sz \<leftarrow> utf8size_loop m str 0;
     Some (sz + 1)
   }"

function utf8len_loop :: "bytes \<Rightarrow> nat \<Rightarrow> nat \<Rightarrow> nat option" where
  "utf8len_loop m s len = do {
     c \<leftarrow> mrd m s;
     if c \<noteq> 0 then
       utf8len_loop m (if lead4 c then s + 4 else if lead3 c then s + 3
         else if lead2 c then s + 2 else s + 1) (len + 1)
     else Some len
   }"
  by pat_completeness auto
termination by (relation "measure (\<lambda>(m, s, len). length m - s)") (auto dest!: mrd_lt)

definition utf8len :: "bytes \<Rightarrow> nat \<Rightarrow> nat option" where
  "utf8len m str = utf8len_loop m str 0"

text \<open>The first loop of \<open>utf8cat\<close> and \<open>utf8ncat\<close>, which finds the end of the destination.\<close>

function end_loop :: "bytes \<Rightarrow> nat \<Rightarrow> nat option" where
  "end_loop m d = do {
     c \<leftarrow> mrd m d;
     if 0 \<noteq> c then end_loop m (d + 1) else Some d
   }"
  by pat_completeness auto
termination by (relation "measure (\<lambda>(m, d). length m - d)") (auto dest!: mrd_lt)

text \<open>The copy loop of \<open>utf8cpy\<close> and \<open>utf8cat\<close>: the destination and the index behind it.\<close>

function copy_loop :: "bytes \<Rightarrow> nat \<Rightarrow> bytes \<Rightarrow> nat \<Rightarrow> (bytes \<times> nat) option" where
  "copy_loop dst d m s = do {
     c \<leftarrow> mrd m s;
     if 0 \<noteq> c then do {
       dst' \<leftarrow> mwr dst d c;
       copy_loop dst' (d + 1) m (s + 1)
     } else Some (dst, d)
   }"
  by pat_completeness auto
termination by (relation "measure (\<lambda>(dst, d, m, s). length m - s)") (auto dest!: mrd_lt)

definition utf8cpy :: "bytes \<Rightarrow> nat \<Rightarrow> bytes \<Rightarrow> nat \<Rightarrow> bytes option" where
  "utf8cpy dst d m s = do {
     (dst, d) \<leftarrow> copy_loop dst d m s;
     mwr dst d 0
   }"

definition utf8cat :: "bytes \<Rightarrow> nat \<Rightarrow> bytes \<Rightarrow> nat \<Rightarrow> bytes option" where
  "utf8cat dst d m s = do {
     d \<leftarrow> end_loop dst d;
     (dst, d) \<leftarrow> copy_loop dst d m s;
     mwr dst d 0
   }"

function ncat_loop :: "bytes \<Rightarrow> nat \<Rightarrow> bytes \<Rightarrow> nat \<Rightarrow> u64 \<Rightarrow> (bytes \<times> nat) option" where
  "ncat_loop dst d m s n = do {
     c \<leftarrow> mrd m s;
     dst' \<leftarrow> mwr dst d c;
     c' \<leftarrow> mrd m (s + 1);
     if 0 \<noteq> c' \<and> 0 \<noteq> n - 1 then ncat_loop dst' (d + 1) m (s + 1) (n - 1)
     else Some (dst', d + 1)
   }"
  by pat_completeness auto
termination by (relation "measure (\<lambda>(dst, d, m, s, n). length m - s)") (auto dest!: mrd_lt)

definition utf8ncat :: "bytes \<Rightarrow> nat \<Rightarrow> bytes \<Rightarrow> nat \<Rightarrow> u64 \<Rightarrow> bytes option" where
  "utf8ncat dst d m s n = do {
     d \<leftarrow> end_loop dst d;
     (dst, d) \<leftarrow> ncat_loop dst d m s n;
     mwr dst d 0
   }"

text \<open>The two loops of \<open>utf8ncpy\<close>: copy up to the NUL or to \<open>n\<close> bytes, then fill with NULs.\<close>

function ncpy_copy :: "bytes \<Rightarrow> nat \<Rightarrow> bytes \<Rightarrow> nat \<Rightarrow> nat \<Rightarrow> nat \<Rightarrow> (bytes \<times> nat) option" where
  "ncpy_copy dst d m s n index =
     (if index < n then do {
        c \<leftarrow> mrd m (s + index);
        dst' \<leftarrow> mwr dst (d + index) c;
        if 0 = c then Some (dst', index) else ncpy_copy dst' d m s n (index + 1)
      } else Some (dst, index))"
  by pat_completeness auto
termination by (relation "measure (\<lambda>(dst, d, m, s, n, index). n - index)") auto

function ncpy_fill :: "bytes \<Rightarrow> nat \<Rightarrow> nat \<Rightarrow> nat \<Rightarrow> bytes option" where
  "ncpy_fill dst d n index =
     (if index < n then do {
        dst' \<leftarrow> mwr dst (d + index) 0;
        ncpy_fill dst' d n (index + 1)
      } else Some dst)"
  by pat_completeness auto
termination by (relation "measure (\<lambda>(dst, d, n, index). n - index)") auto

definition utf8ncpy :: "bytes \<Rightarrow> nat \<Rightarrow> bytes \<Rightarrow> nat \<Rightarrow> nat \<Rightarrow> bytes option" where
  "utf8ncpy dst d m s n = do {
     (dst, index) \<leftarrow> ncpy_copy dst d m s n 0;
     ncpy_fill dst d n index
   }"

function dup_loop :: "bytes \<Rightarrow> bytes \<Rightarrow> nat \<Rightarrow> nat \<Rightarrow> (bytes \<times> nat) option" where
  "dup_loop n m s bytes = do {
     c \<leftarrow> mrd m (s + bytes);
     if 0 \<noteq> c then do {
       n' \<leftarrow> mwr n bytes c;
       dup_loop n' m s (bytes + 1)
     } else Some (n, bytes)
   }"
  by pat_completeness auto
termination by (relation "measure (\<lambda>(n, m, s, bytes). length m - (s + bytes))") (auto dest!: mrd_lt)

definition utf8dup :: "(nat \<Rightarrow> bytes option) \<Rightarrow> bytes \<Rightarrow> nat \<Rightarrow> bytes option option" where
  "utf8dup malloc m s = do {
     bytes \<leftarrow> utf8size m s;
     case malloc bytes of None \<Rightarrow> Some None
     | Some n \<Rightarrow> do {
         (n, bytes) \<leftarrow> dup_loop n m s 0;
         n \<leftarrow> mwr n bytes 0;
         Some (Some n)
       }
   }"

text \<open>The first loop of \<open>utf8ndup\<close> reads the byte at \<open>n\<close> before it compares the index.\<close>

function ndup_end :: "bytes \<Rightarrow> nat \<Rightarrow> nat \<Rightarrow> nat \<Rightarrow> nat option" where
  "ndup_end m s n bytes = do {
     c \<leftarrow> mrd m (s + bytes);
     if 0 \<noteq> c \<and> bytes < n then ndup_end m s n (bytes + 1) else Some bytes
   }"
  by pat_completeness auto
termination by (relation "measure (\<lambda>(m, s, n, bytes). n - bytes)") auto

function ndup_loop :: "bytes \<Rightarrow> bytes \<Rightarrow> nat \<Rightarrow> nat \<Rightarrow> nat \<Rightarrow> (bytes \<times> nat) option" where
  "ndup_loop cs m s n bytes = do {
     c \<leftarrow> mrd m (s + bytes);
     if 0 \<noteq> c \<and> bytes < n then do {
       cs' \<leftarrow> mwr cs bytes c;
       ndup_loop cs' m s n (bytes + 1)
     } else Some (cs, bytes)
   }"
  by pat_completeness auto
termination by (relation "measure (\<lambda>(cs, m, s, n, bytes). n - bytes)") auto

definition utf8ndup :: "(nat \<Rightarrow> bytes option) \<Rightarrow> bytes \<Rightarrow> nat \<Rightarrow> nat \<Rightarrow> bytes option option" where
  "utf8ndup malloc m s n = do {
     bytes \<leftarrow> ndup_end m s n 0;
     let n = bytes;
     case malloc (bytes + 1) of None \<Rightarrow> Some None
     | Some cs \<Rightarrow> do {
         (cs, bytes) \<leftarrow> ndup_loop cs m s n 0;
         cs \<leftarrow> mwr cs bytes 0;
         Some (Some cs)
       }
   }"

section \<open>Comparison\<close>

function utf8cmp :: "bytes \<Rightarrow> nat \<Rightarrow> bytes \<Rightarrow> nat \<Rightarrow> int option" where
  "utf8cmp m1 s1 m2 s2 = do {
     c1 \<leftarrow> mrd m1 s1;
     c2 \<leftarrow> mrd m2 s2;
     if c1 \<noteq> 0 \<or> c2 \<noteq> 0 then
       if c1 < c2 then Some (-1)
       else if c1 > c2 then Some 1
       else utf8cmp m1 (s1 + 1) m2 (s2 + 1)
     else Some 0
   }"
  by pat_completeness auto
termination by (relation "measure (\<lambda>(m1, s1, m2, s2). length m1 - s1)") (auto dest!: mrd_lt)

fun utf8ncmp :: "bytes \<Rightarrow> nat \<Rightarrow> bytes \<Rightarrow> nat \<Rightarrow> nat \<Rightarrow> int option" where
  "utf8ncmp m1 s1 m2 s2 n =
     (if 0 \<noteq> n then do {
        c1 \<leftarrow> mrd m1 s1;
        c2 \<leftarrow> mrd m2 s2;
        if c1 \<noteq> 0 \<or> c2 \<noteq> 0 then
          if c1 < c2 then Some (-1)
          else if c1 > c2 then Some 1
          else utf8ncmp m1 (s1 + 1) m2 (s2 + 1) (n - 1)
        else Some 0
      } else Some 0)"

function utf8casecmp :: "bytes \<Rightarrow> nat \<Rightarrow> bytes \<Rightarrow> nat \<Rightarrow> int option" where
  "utf8casecmp m1 src1 m2 src2 = do {
     (src1_cp, src1') \<leftarrow> utf8codepoint m1 src1;
     (src2_cp, src2') \<leftarrow> utf8codepoint m2 src2;
     let src1_orig_cp = src1_cp;
     let src2_orig_cp = src2_cp;
     let src1_cp = utf8lwrcodepoint src1_cp;
     let src2_cp = utf8lwrcodepoint src2_cp;
     if 0 = src1_orig_cp \<and> 0 = src2_orig_cp then Some 0
     else if src1_cp = src2_cp then utf8casecmp m1 src1' m2 src2'
     else if src1_orig_cp < src2_orig_cp then Some (-1)
     else if src1_orig_cp > src2_orig_cp then Some 1
     else utf8casecmp m1 src1' m2 src2'
   }"
  by pat_completeness auto
termination
  by (relation "measure (\<lambda>(m1, src1, m2, src2). length m1 - src1)")
    (auto dest!: utf8codepoint_progress)

text \<open>The comparison of the masked lead bytes that ends \<open>utf8ncasecmp\<close> inside a codepoint.\<close>

definition lead_cmp :: "u8 \<Rightarrow> u8 \<Rightarrow> u8 \<Rightarrow> int" where
  "lead_cmp msk b1 b2 =
     (let c1 = uint (msk AND b1); c2 = uint (msk AND b2) in
      if c1 < c2 then -1 else if c1 > c2 then 1 else 0)"

function utf8ncasecmp :: "bytes \<Rightarrow> nat \<Rightarrow> bytes \<Rightarrow> nat \<Rightarrow> u64 \<Rightarrow> int option" where
  "utf8ncasecmp m1 src1 m2 src2 n =
     (if 0 = n then Some 0
      else do {
        s1 \<leftarrow> mrd m1 src1;
        s2 \<leftarrow> mrd m2 src2;
        if 1 = n \<and> (lead2 s1 \<or> lead2 s2) then Some (lead_cmp 0xe0 s1 s2)
        else if 2 \<ge> n \<and> (lead3 s1 \<or> lead3 s2) then Some (lead_cmp 0xf0 s1 s2)
        else if 3 \<ge> n \<and> (lead4 s1 \<or> lead4 s2) then Some (lead_cmp 0xf8 s1 s2)
        else do {
          (src1_cp, src1') \<leftarrow> utf8codepoint m1 src1;
          (src2_cp, src2') \<leftarrow> utf8codepoint m2 src2;
          let n = n - of_nat (utf8codepointsize src1_cp);
          let src1_orig_cp = src1_cp;
          let src2_orig_cp = src2_cp;
          let src1_cp = utf8lwrcodepoint src1_cp;
          let src2_cp = utf8lwrcodepoint src2_cp;
          if 0 = src1_orig_cp \<and> 0 = src2_orig_cp then Some 0
          else if src1_cp \<noteq> src2_cp \<and> src1_orig_cp < src2_orig_cp then Some (-1)
          else if src1_cp \<noteq> src2_cp \<and> src1_orig_cp > src2_orig_cp then Some 1
          else if 0 < n then utf8ncasecmp m1 src1' m2 src2' n
          else Some 0
        }
      })"
  by pat_completeness auto
termination
  by (relation "measure (\<lambda>(m1, src1, m2, src2, n). length m1 - src1)")
    (auto dest!: utf8codepoint_progress)

section \<open>Search\<close>

text \<open>\<open>do { s++; } while (0x80 == (0xc0 & *s));\<close>\<close>

function march :: "bytes \<Rightarrow> nat \<Rightarrow> nat option" where
  "march m s = do {
     c \<leftarrow> mrd m (s + 1);
     if cont c then march m (s + 1) else Some (s + 1)
   }"
  by pat_completeness auto
termination by (relation "measure (\<lambda>(m, s). length m - s)") (auto dest!: mrd_lt)

declare march.simps [simp del]

lemma march_progress: "march m s = Some s' \<Longrightarrow> s < s' \<and> s' < length m"
proof (induction m s rule: march.induct)
  case (1 m s)
  show ?case
    using "1.prems" [unfolded march.simps [of m s]] "1.IH"
    by (fastforce simp: bind_eq_Some_conv mrd_Some_iff split: if_splits)
qed

text \<open>
  The inner loop of \<open>utf8cspn\<close>: \<open>Some True\<close> when it returns from the function, \<open>Some False\<close>
  when the reject string has ended.
\<close>

function cspn_reject :: "bytes \<Rightarrow> nat \<Rightarrow> bytes \<Rightarrow> nat \<Rightarrow> nat \<Rightarrow> bool option" where
  "cspn_reject m s rej r offset = do {
     c \<leftarrow> mrd rej r;
     if 0 \<noteq> c then
       if \<not> cont c \<and> 0 < offset then Some True
       else do {
         b \<leftarrow> mrd m (s + offset);
         if c = b then cspn_reject m s rej (r + 1) (offset + 1)
         else do {
           r' \<leftarrow> march rej r;
           cspn_reject m s rej r' 0
         }
       }
     else Some False
   }"
  by pat_completeness auto
termination
  by (relation "measure (\<lambda>(m, s, rej, r, offset). length rej - r)")
    (auto dest!: mrd_lt march_progress)

declare cspn_reject.simps [simp del]

function cspn_loop :: "bytes \<Rightarrow> nat \<Rightarrow> bytes \<Rightarrow> nat \<Rightarrow> nat \<Rightarrow> nat option" where
  "cspn_loop m s rej r chars = do {
     c \<leftarrow> mrd m s;
     if 0 \<noteq> c then do {
       found \<leftarrow> cspn_reject m s rej r 0;
       if found then Some chars
       else do {
         s' \<leftarrow> march m s;
         cspn_loop m s' rej r (chars + 1)
       }
     } else Some chars
   }"
  by pat_completeness auto
termination
  by (relation "measure (\<lambda>(m, s, rej, r, chars). length m - s)") (auto dest!: march_progress mrd_lt)

definition utf8cspn :: "bytes \<Rightarrow> nat \<Rightarrow> bytes \<Rightarrow> nat \<Rightarrow> nat option" where
  "utf8cspn m src rej reject = cspn_loop m src rej reject 0"

text \<open>
  The inner loop of \<open>utf8pbrk\<close>: \<open>Inl ()\<close> when it returns from the function, otherwise the
  offset that is left when the accept string has ended.
\<close>

function pbrk_accept :: "bytes \<Rightarrow> nat \<Rightarrow> bytes \<Rightarrow> nat \<Rightarrow> nat \<Rightarrow> (unit + nat) option" where
  "pbrk_accept m s acc a offset = do {
     c \<leftarrow> mrd acc a;
     if 0 \<noteq> c then
       if \<not> cont c \<and> 0 < offset then Some (Inl ())
       else do {
         b \<leftarrow> mrd m (s + offset);
         if c = b then pbrk_accept m s acc (a + 1) (offset + 1)
         else do {
           a' \<leftarrow> march acc a;
           pbrk_accept m s acc a' 0
         }
       }
     else Some (Inr offset)
   }"
  by pat_completeness auto
termination
  by (relation "measure (\<lambda>(m, s, acc, a, offset). length acc - a)")
    (auto dest!: mrd_lt march_progress)

declare pbrk_accept.simps [simp del]

function utf8pbrk :: "bytes \<Rightarrow> nat \<Rightarrow> bytes \<Rightarrow> nat \<Rightarrow> nat option option" where
  "utf8pbrk m s acc accept = do {
     c \<leftarrow> mrd m s;
     if 0 \<noteq> c then do {
       r \<leftarrow> pbrk_accept m s acc accept 0;
       case r of Inl _ \<Rightarrow> Some (Some s)
       | Inr offset \<Rightarrow>
           if 0 < offset then Some (Some s)
           else do {
             s' \<leftarrow> march m s;
             utf8pbrk m s' acc accept
           }
     } else Some None
   }"
  by pat_completeness auto
termination
  by (relation "measure (\<lambda>(m, s, acc, accept). length m - s)") (auto dest!: march_progress mrd_lt)

text \<open>
  The inner loop of \<open>utf8spn\<close>: the offset of a match that ended in front of another codepoint,
  \<open>None\<close> when the accept string has ended.
\<close>

function spn_accept :: "bytes \<Rightarrow> nat \<Rightarrow> bytes \<Rightarrow> nat \<Rightarrow> nat \<Rightarrow> nat option option" where
  "spn_accept m s acc a offset = do {
     c \<leftarrow> mrd acc a;
     if 0 \<noteq> c then
       if \<not> cont c \<and> 0 < offset then Some (Some offset)
       else do {
         b \<leftarrow> mrd m (s + offset);
         if c = b then spn_accept m s acc (a + 1) (offset + 1)
         else do {
           a' \<leftarrow> march acc a;
           spn_accept m s acc a' 0
         }
       }
     else Some None
   }"
  by pat_completeness auto
termination
  by (relation "measure (\<lambda>(m, s, acc, a, offset). length acc - a)")
    (auto dest!: mrd_lt march_progress)

declare spn_accept.simps [simp del]

lemma spn_accept_pos: "spn_accept m s acc a offset = Some (Some k) \<Longrightarrow> 0 < k"
proof (induction m s acc a offset rule: spn_accept.induct)
  case (1 m s acc a offset)
  show ?case
    using "1.prems" [unfolded spn_accept.simps [of m s acc a offset]] "1.IH"
    by (auto simp: bind_eq_Some_conv split: if_splits)
qed

function spn_loop :: "bytes \<Rightarrow> nat \<Rightarrow> bytes \<Rightarrow> nat \<Rightarrow> nat \<Rightarrow> nat option" where
  "spn_loop m s acc a chars = do {
     c \<leftarrow> mrd m s;
     if 0 \<noteq> c then do {
       r \<leftarrow> spn_accept m s acc a 0;
       case r of Some offset \<Rightarrow> spn_loop m (s + offset) acc a (chars + 1)
       | None \<Rightarrow> Some chars
     } else Some chars
   }"
  by pat_completeness auto
termination
  by (relation "measure (\<lambda>(m, s, acc, a, chars). length m - s)") (auto dest!: spn_accept_pos mrd_lt)

definition utf8spn :: "bytes \<Rightarrow> nat \<Rightarrow> bytes \<Rightarrow> nat \<Rightarrow> nat option" where
  "utf8spn m src acc accept = spn_loop m src acc accept 0"

text \<open>\<open>utf8str\<close>: the inner loop returns the position in the needle where the match stops.\<close>

function str_match :: "bytes \<Rightarrow> nat \<Rightarrow> bytes \<Rightarrow> nat \<Rightarrow> nat option" where
  "str_match hm h nm n = do {
     ch \<leftarrow> mrd hm h;
     cn \<leftarrow> mrd nm n;
     if ch = cn \<and> (ch \<noteq> 0 \<and> cn \<noteq> 0) then str_match hm (h + 1) nm (n + 1) else Some n
   }"
  by pat_completeness auto
termination by (relation "measure (\<lambda>(hm, h, nm, n). length hm - h)") (auto dest!: mrd_lt)

function str_loop :: "bytes \<Rightarrow> nat \<Rightarrow> bytes \<Rightarrow> nat \<Rightarrow> nat option option" where
  "str_loop hm h nm needle = do {
     ch \<leftarrow> mrd hm h;
     if ch \<noteq> 0 then do {
       n \<leftarrow> str_match hm h nm needle;
       cn \<leftarrow> mrd nm n;
       if 0 = cn then Some (Some h)
       else do {
         (throwaway_codepoint, h') \<leftarrow> utf8codepoint hm h;
         str_loop hm h' nm needle
       }
     } else Some None
   }"
  by pat_completeness auto
termination
  by (relation "measure (\<lambda>(hm, h, nm, n). length hm - h)") (auto dest!: mrd_lt utf8codepoint_progress)

definition utf8str :: "bytes \<Rightarrow> nat \<Rightarrow> bytes \<Rightarrow> nat \<Rightarrow> nat option option" where
  "utf8str hm haystack nm needle = do {
     c \<leftarrow> mrd nm needle;
     if 0 = c then Some (Some haystack) else str_loop hm haystack nm needle
   }"

definition utf8chr :: "bytes \<Rightarrow> nat \<Rightarrow> int \<Rightarrow> nat option option" where
  "utf8chr m src chr =
     (if 0 = chr then map_option Some (end_loop m src)
      else utf8str m src (chr_chars chr) 0)"

text \<open>\<open>utf8rchr\<close>: its loops may run for ever when a search character is NUL.\<close>

function rchr_match :: "bytes \<Rightarrow> nat \<Rightarrow> bytes \<Rightarrow> nat \<Rightarrow> nat option" where
  "rchr_match m s cs offset = do {
     b \<leftarrow> mrd m (s + offset);
     c \<leftarrow> mrd cs offset;
     if b = c then rchr_match m s cs (offset + 1) else Some offset
   }"
  by pat_completeness auto
termination by (relation "measure (\<lambda>(m, s, cs, offset). length cs - offset)") (auto dest!: mrd_lt)

partial_function (option) rchr_loop :: "bytes \<Rightarrow> nat \<Rightarrow> bytes \<Rightarrow> nat option \<Rightarrow> nat option option" where
  "rchr_loop m s cs mat = do {
     b \<leftarrow> mrd m s;
     if 0 \<noteq> b then do {
       offset \<leftarrow> rchr_match m s cs 0;
       c \<leftarrow> mrd cs offset;
       if 0 = c then rchr_loop m (s + offset) cs (Some s)
       else do {
         b' \<leftarrow> mrd m (s + offset);
         s' \<leftarrow> if 0 \<noteq> b' then march m (s + offset) else Some (s + offset);
         rchr_loop m s' cs mat
       }
     } else Some mat
   }"

definition utf8rchr :: "bytes \<Rightarrow> nat \<Rightarrow> int \<Rightarrow> nat option option" where
  "utf8rchr m src chr =
     (if 0 = chr then map_option Some (end_loop m src)
      else rchr_loop m src (chr_chars chr) None)"

text \<open>The inner loop of \<open>utf8casestr\<close>: the last two codepoints.\<close>

function casestr_match :: "bytes \<Rightarrow> nat \<Rightarrow> bytes \<Rightarrow> nat \<Rightarrow> int \<Rightarrow> int \<Rightarrow> (int \<times> int) option" where
  "casestr_match hm h nm n h_cp n_cp =
     (if 0 \<noteq> h_cp \<and> 0 \<noteq> n_cp then
        let h_cp = utf8lwrcodepoint h_cp; n_cp = utf8lwrcodepoint n_cp in
        if h_cp \<noteq> n_cp then Some (h_cp, n_cp)
        else do {
          (h_cp, h') \<leftarrow> utf8codepoint hm h;
          (n_cp, n') \<leftarrow> utf8codepoint nm n;
          casestr_match hm h' nm n' h_cp n_cp
        }
      else Some (h_cp, n_cp))"
  by pat_completeness auto
termination
  by (relation "measure (\<lambda>(hm, h, nm, n, h_cp, n_cp). length hm - h)")
    (auto dest!: utf8codepoint_progress)

function casestr_loop :: "bytes \<Rightarrow> nat \<Rightarrow> bytes \<Rightarrow> nat \<Rightarrow> nat option option" where
  "casestr_loop hm h nm needle = do {
     (h_cp, nextH) \<leftarrow> utf8codepoint hm h;
     (n_cp, n) \<leftarrow> utf8codepoint nm needle;
     (h_cp, n_cp) \<leftarrow> casestr_match hm nextH nm n h_cp n_cp;
     if 0 = n_cp then Some (Some h)
     else if 0 = h_cp then Some None
     else casestr_loop hm nextH nm needle
   }"
  by pat_completeness auto
termination
  by (relation "measure (\<lambda>(hm, h, nm, needle). length hm - h)") (auto dest!: utf8codepoint_progress)

definition utf8casestr :: "bytes \<Rightarrow> nat \<Rightarrow> bytes \<Rightarrow> nat \<Rightarrow> nat option option" where
  "utf8casestr hm haystack nm needle = do {
     c \<leftarrow> mrd nm needle;
     if 0 = c then Some (Some haystack) else casestr_loop hm haystack nm needle
   }"

section \<open>Validation\<close>

function utf8valid :: "bytes \<Rightarrow> nat \<Rightarrow> nat option option" where
  "utf8valid m s = do {
     c0 \<leftarrow> mrd m s;
     if 0 \<noteq> c0 then
       if lead4 c0 then do {
         c1 \<leftarrow> mrd m (s + 1);
         if \<not> cont c1 then Some (Some s) else do {
         c2 \<leftarrow> mrd m (s + 2);
         if \<not> cont c2 then Some (Some s) else do {
         c3 \<leftarrow> mrd m (s + 3);
         if \<not> cont c3 then Some (Some s) else do {
         c4 \<leftarrow> mrd m (s + 4);
         if cont c4 then Some (Some s)
         else if 0 = (0x07 AND c0) \<and> 0 = (0x30 AND c1) then Some (Some s)
         else utf8valid m (s + 4)
       }}}}
       else if lead3 c0 then do {
         c1 \<leftarrow> mrd m (s + 1);
         if \<not> cont c1 then Some (Some s) else do {
         c2 \<leftarrow> mrd m (s + 2);
         if \<not> cont c2 then Some (Some s) else do {
         c3 \<leftarrow> mrd m (s + 3);
         if cont c3 then Some (Some s)
         else if 0 = (0x0f AND c0) \<and> 0 = (0x20 AND c1) then Some (Some s)
         else utf8valid m (s + 3)
       }}}
       else if lead2 c0 then do {
         c1 \<leftarrow> mrd m (s + 1);
         if \<not> cont c1 then Some (Some s) else do {
         c2 \<leftarrow> mrd m (s + 2);
         if cont c2 then Some (Some s)
         else if 0 = (0x1e AND c0) then Some (Some s)
         else utf8valid m (s + 2)
       }}
       else if 0 = (0x80 AND c0) then utf8valid m (s + 1)
       else Some (Some s)
     else Some None
   }"
  by pat_completeness auto
termination by (relation "measure (\<lambda>(m, s). length m - s)") (auto dest!: mrd_lt)

declare rchr_loop.simps [code]
declare utf8lwr_loop.simps [simp del] utf8upr_loop.simps [simp del] utf8size_loop.simps [simp del]
  utf8len_loop.simps [simp del] end_loop.simps [simp del] copy_loop.simps [simp del]
  ncat_loop.simps [simp del] ncpy_copy.simps [simp del] ncpy_fill.simps [simp del]
  dup_loop.simps [simp del] ndup_end.simps [simp del] ndup_loop.simps [simp del]
  utf8cmp.simps [simp del] utf8ncmp.simps [simp del] utf8casecmp.simps [simp del]
  utf8ncasecmp.simps [simp del] cspn_loop.simps [simp del] utf8pbrk.simps [simp del]
  spn_loop.simps [simp del] str_match.simps [simp del]
  str_loop.simps [simp del] rchr_match.simps [simp del] casestr_match.simps [simp del]
  casestr_loop.simps [simp del] utf8valid.simps [simp del]

end
