(* ===== verification/Utf8Codec.thy ===== *)
theory Utf8Codec
  imports Utf8
begin

text \<open>
  Bytes as numbers, the encoding of a codepoint in the UTF-8 layout (\<open>enc\<close>), NUL-terminated strings
  in a block (\<open>cstr\<close>), and what the code reads and writes for one codepoint.
\<close>

section \<open>Bytes as numbers\<close>

lemma u8_allD:
  assumes "list_all (\<lambda>i. P (word_of_int i :: u8)) [0..255]"
  shows "P w"
proof -
  have "uint w \<in> set [0..255]" using uint8_lt [of w] by (simp del: uint8_lt)
  then have "P (word_of_int (uint w))" using assms unfolding list_all_iff by blast
  then show ?thesis by simp
qed

named_theorems byte_tests \<open>the tests and masks on a byte as arithmetic on its value\<close>

lemma lead4_iff [byte_tests]: "lead4 w \<longleftrightarrow> 240 \<le> uint w \<and> uint w < 248"
  by (rule u8_allD) code_simp

lemma lead3_iff [byte_tests]: "lead3 w \<longleftrightarrow> 224 \<le> uint w \<and> uint w < 240"
  by (rule u8_allD) code_simp

lemma lead2_iff [byte_tests]: "lead2 w \<longleftrightarrow> 192 \<le> uint w \<and> uint w < 224"
  by (rule u8_allD) code_simp

lemma cont_iff [byte_tests]: "cont w \<longleftrightarrow> 128 \<le> uint w \<and> uint w < 192"
  by (rule u8_allD) code_simp

lemma ascii_iff [byte_tests]: "0 = 0x80 AND w \<longleftrightarrow> uint (w :: u8) < 128"
  by (rule u8_allD) code_simp

lemma overlong4_iff [byte_tests]:
  "0 = 0x07 AND w \<longleftrightarrow> uint (w :: u8) mod 8 = 0"
  "0 = 0x30 AND w \<longleftrightarrow> uint (w :: u8) mod 64 < 16"
  by (rule u8_allD, code_simp)+

lemma overlong3_iff [byte_tests]:
  "0 = 0x0f AND w \<longleftrightarrow> uint (w :: u8) mod 16 = 0"
  "0 = 0x20 AND w \<longleftrightarrow> uint (w :: u8) mod 64 < 32"
  by (rule u8_allD, code_simp)+

lemma overlong2_iff [byte_tests]: "0 = 0x1e AND w \<longleftrightarrow> uint (w :: u8) mod 32 < 2"
  by (rule u8_allD) code_simp

lemma payload [byte_tests]:
  "uint (0x07 AND w) = uint (w :: u8) mod 8"
  "uint (0x0f AND w) = uint w mod 16"
  "uint (0x1f AND w) = uint w mod 32"
  "uint (0x3f AND w) = uint w mod 64"
  by (rule u8_allD, code_simp)+

lemma sint_byte [byte_tests]: "sint (w :: u8) = (if uint w < 128 then uint w else uint w - 256)"
  by (rule u8_allD) code_simp

lemma uint8_0 [byte_tests]: "uint (w :: u8) = 0 \<longleftrightarrow> w = 0"
  by (simp add: word_uint_eq_iff)

lemma uint8_ge: "0 \<le> uint (w :: u8)"
  by simp

lemma or_shift: "0 \<le> d \<Longrightarrow> d < 2 ^ k \<Longrightarrow> push_bit k a OR d = a * 2 ^ k + (d :: int)"
proof -
  assume d: "0 \<le> d" "d < 2 ^ k"
  have "take_bit k d = d" using d by (simp add: take_bit_int_eq_self)
  then have "push_bit k a + d = push_bit k a OR d"
    by (intro disjunctive_add) (metis bit_push_bit_iff bit_take_bit_iff linorder_not_le)
  then show ?thesis by (simp add: push_bit_eq_mult)
qed

text \<open>The masks that tell the size of a codepoint.\<close>

lemma high_mask: "0 = - (2 ^ k) AND (c :: int) \<longleftrightarrow> 0 \<le> c \<and> c < 2 ^ k"
proof -
  have "- (2 ^ k) AND c = push_bit k (drop_bit k c)"
    by (rule bit_eqI) (auto simp: minus_exp_eq_not_mask bit_simps)
  moreover have "push_bit k (drop_bit k c) = 0 \<longleftrightarrow> 0 \<le> c \<and> c < 2 ^ k"
    using zero_less_power [of "2 :: int" k] by (simp add: push_bit_eq_mult drop_bit_eq_div zdiv_eq_0_iff del: zero_less_power) linarith
  ultimately show ?thesis by metis
qed

lemma size_masks:
  "0 = - 0x80 AND (c :: int) \<longleftrightarrow> 0 \<le> c \<and> c < 0x80"
  "0 = - 0x800 AND c \<longleftrightarrow> 0 \<le> c \<and> c < 0x800"
  "0 = - 0x10000 AND c \<longleftrightarrow> 0 \<le> c \<and> c < 0x10000"
  using high_mask [of 7 c] high_mask [of 11 c] high_mask [of 16 c] by simp_all

section \<open>The encoding\<close>

text \<open>The bytes of a codepoint, as the UTF-8 standard lays them out.\<close>

definition enc :: "int \<Rightarrow> bytes" where
  "enc c =
     (if c < 0x80 then [word_of_int c]
      else if c < 0x800 then [word_of_int (0xc0 + c div 64), word_of_int (0x80 + c mod 64)]
      else if c < 0x10000 then [word_of_int (0xe0 + c div 4096),
        word_of_int (0x80 + c div 64 mod 64), word_of_int (0x80 + c mod 64)]
      else [word_of_int (0xf0 + c div 262144), word_of_int (0x80 + c div 4096 mod 64),
        word_of_int (0x80 + c div 64 mod 64), word_of_int (0x80 + c mod 64)])"

definition cp_ok :: "int \<Rightarrow> bool" where
  "cp_ok c \<longleftrightarrow> 1 \<le> c \<and> c < 0x200000"

definition encs :: "int list \<Rightarrow> bytes" where
  "encs cs = concat (map enc cs)"

lemma encs_simps [simp]: "encs [] = []" "encs (c # cs) = enc c @ encs cs" "encs (cs @ ds) = encs cs @ encs ds"
  by (simp_all add: encs_def)

lemma uint8_of_int: "0 \<le> x \<Longrightarrow> x < 256 \<Longrightarrow> uint (word_of_int x :: u8) = x"
  by (simp add: uint_word_of_int)

lemma length_enc: "length (enc c) = (if c < 0x80 then 1 else if c < 0x800 then 2 else if c < 0x10000 then 3 else 4)"
  by (simp add: enc_def)

lemma length_enc_pos [simp]: "0 < length (enc c)" "enc c \<noteq> []"
  by (auto simp: enc_def)

text \<open>The bytes that the code computes are those of the encoding.\<close>

lemma or_lead:
  "0 \<le> x \<Longrightarrow> x < 64 \<Longrightarrow> 0x80 OR (word_of_int x :: u8) = word_of_int (0x80 + x)"
  "0 \<le> x \<Longrightarrow> x < 32 \<Longrightarrow> 0xc0 OR (word_of_int x :: u8) = word_of_int (0xc0 + x)"
  "0 \<le> x \<Longrightarrow> x < 16 \<Longrightarrow> 0xe0 OR (word_of_int x :: u8) = word_of_int (0xe0 + x)"
  "0 \<le> x \<Longrightarrow> x < 8 \<Longrightarrow> 0xf0 OR (word_of_int x :: u8) = word_of_int (0xf0 + x)"
proof -
  have "list_all (\<lambda>x. 0x80 OR (word_of_int x :: u8) = word_of_int (0x80 + x)) [0..63]"
    "list_all (\<lambda>x. 0xc0 OR (word_of_int x :: u8) = word_of_int (0xc0 + x)) [0..31]"
    "list_all (\<lambda>x. 0xe0 OR (word_of_int x :: u8) = word_of_int (0xe0 + x)) [0..15]"
    "list_all (\<lambda>x. 0xf0 OR (word_of_int x :: u8) = word_of_int (0xf0 + x)) [0..7]"
    by code_simp+
  then show
    "0 \<le> x \<Longrightarrow> x < 64 \<Longrightarrow> 0x80 OR (word_of_int x :: u8) = word_of_int (0x80 + x)"
    "0 \<le> x \<Longrightarrow> x < 32 \<Longrightarrow> 0xc0 OR (word_of_int x :: u8) = word_of_int (0xc0 + x)"
    "0 \<le> x \<Longrightarrow> x < 16 \<Longrightarrow> 0xe0 OR (word_of_int x :: u8) = word_of_int (0xe0 + x)"
    "0 \<le> x \<Longrightarrow> x < 8 \<Longrightarrow> 0xf0 OR (word_of_int x :: u8) = word_of_int (0xf0 + x)"
    by (simp_all add: list_all_iff del: upto_rec_numeral)
qed

lemma and_3f: "(x :: int) AND 0x3f = x mod 64"
  using take_bit_eq_mask [of 6 x] by (simp add: take_bit_eq_mod mask_eq_exp_minus_1)

lemma drop_bits: "drop_bit 6 (c :: int) = c div 64" "drop_bit 12 c = c div 4096" "drop_bit 18 c = c div 262144"
  by (simp_all add: drop_bit_eq_div)

lemma chr_chars_enc:
  assumes "0 \<le> c" "c < 0x200000"
  shows "chr_chars c = enc c @ replicate (5 - length (enc c)) 0"
proof -
  have "c div 64 < 32" if "c < 0x800" using that by (simp add: div_less_iff_less_mult)
  moreover have "c div 4096 < 16" if "c < 0x10000" using that by (simp add: div_less_iff_less_mult)
  moreover have "c div 262144 < 8" using assms by (simp add: div_less_iff_less_mult)
  moreover have "replicate 4 (0 :: u8) = [0, 0, 0, 0]" "replicate 3 (0 :: u8) = [0, 0, 0]"
    "replicate 2 (0 :: u8) = [0, 0]"
    by (simp_all add: eval_nat_numeral)
  ultimately show ?thesis
    using assms
    by (simp add: chr_chars_def enc_def size_masks and_3f drop_bits or_lead)
qed

section \<open>Strings in memory\<close>

text \<open>\<open>holds_at m p xs\<close>: the bytes \<open>xs\<close> stand at \<open>p\<close>. \<open>cstr m p s\<close>: the NUL-terminated string at
  \<open>p\<close> is \<open>s\<close>.\<close>

primrec holds_at :: "bytes \<Rightarrow> nat \<Rightarrow> bytes \<Rightarrow> bool" where
  "holds_at m p [] = True"
| "holds_at m p (x # xs) = (mrd m p = Some x \<and> holds_at m (p + 1) xs)"

definition cstr :: "bytes \<Rightarrow> nat \<Rightarrow> bytes \<Rightarrow> bool" where
  "cstr m p s \<longleftrightarrow> holds_at m p (s @ [0]) \<and> 0 \<notin> set s"

lemma holds_at_append [simp]: "holds_at m p (xs @ ys) \<longleftrightarrow> holds_at m p xs \<and> holds_at m (p + length xs) ys"
  by (induction xs arbitrary: p) (auto simp: ac_simps)

lemma holds_at_length: "holds_at m p xs \<Longrightarrow> xs \<noteq> [] \<Longrightarrow> p + length xs \<le> length m"
  by (induction xs arbitrary: p) (case_tac "xs = []", fastforce simp: mrd_Some_iff, fastforce simp: mrd_Some_iff)+

lemma holds_at_iff: "xs \<noteq> [] \<Longrightarrow> holds_at m p xs \<longleftrightarrow> p + length xs \<le> length m \<and> take (length xs) (drop p m) = xs"
proof (induction xs arbitrary: p)
  case (Cons x xs)
  show ?case
  proof (cases "p < length m")
    case True
    then have "drop p m = m ! p # drop (p + 1) m" by (simp add: Cons_nth_drop_Suc)
    then show ?thesis using True Cons.IH [of "p + 1"] by (cases "xs = []") (auto simp: mrd_Some_iff)
  qed (auto simp: mrd_Some_iff)
qed simp

lemma cstr_Nil [simp]: "cstr m p [] \<longleftrightarrow> mrd m p = Some 0"
  by (simp add: cstr_def)

lemma cstr_Cons [simp]: "cstr m p (c # s) \<longleftrightarrow> mrd m p = Some c \<and> c \<noteq> 0 \<and> cstr m (p + 1) s"
  by (auto simp: cstr_def)

lemma cstr_append: "cstr m p (s @ t) \<longleftrightarrow> holds_at m p s \<and> 0 \<notin> set s \<and> cstr m (p + length s) t"
  by (auto simp: cstr_def ac_simps)

text \<open>The byte behind the string.\<close>

definition next_byte :: "bytes \<Rightarrow> u8" where
  "next_byte s = (case s of [] \<Rightarrow> 0 | c # _ \<Rightarrow> c)"

lemma next_byte_simps [simp]: "next_byte [] = 0" "next_byte (c # s) = c"
  by (simp_all add: next_byte_def)

lemma cstr_mrd: "cstr m p s \<Longrightarrow> mrd m p = Some (next_byte s)"
  by (cases s) simp_all

lemma cstr_mrd_nth: "cstr m p s \<Longrightarrow> i \<le> length s \<Longrightarrow> mrd m (p + i) = Some (if i < length s then s ! i else 0)"
  by (induction s arbitrary: p i) (case_tac i; force)+

lemma cstr_in: "cstr m p s \<Longrightarrow> p + length s < length m"
  using holds_at_length [of m p "s @ [0]"] by (simp add: cstr_def)

lemma cstr_drop: "cstr m p s \<Longrightarrow> i \<le> length s \<Longrightarrow> cstr m (p + i) (drop i s)"
  using cstr_append [of m p "take i s" "drop i s"] by (simp add: min_def split: if_splits)

lemma cstr_literal: "0 \<notin> set s \<Longrightarrow> cstr (pre @ s @ 0 # rest) (length pre) s"
proof (induction s arbitrary: pre)
  case (Cons c s)
  then show ?case using Cons.IH [of "pre @ [c]"] by (simp add: mrd_Some_iff nth_append)
qed (simp add: mrd_Some_iff)

section \<open>Reading and writing one codepoint\<close>

lemma codepoint_4:
  "mrd m s = Some a \<Longrightarrow> mrd m (s + 1) = Some b \<Longrightarrow> mrd m (s + 2) = Some c \<Longrightarrow> mrd m (s + 3) = Some d \<Longrightarrow>
   240 \<le> uint a \<Longrightarrow> uint a < 248 \<Longrightarrow> utf8codepoint m s = Some (uint a mod 8 * 262144 +
     (uint b mod 64 * 4096 + (uint c mod 64 * 64 + uint d mod 64)), s + 4)"
  by (simp add: utf8codepoint_def byte_tests or_shift [where k = 6, simplified]
      or_shift [where k = 12, simplified] or_shift [where k = 18, simplified])

lemma codepoint_3:
  "mrd m s = Some a \<Longrightarrow> mrd m (s + 1) = Some b \<Longrightarrow> mrd m (s + 2) = Some c \<Longrightarrow>
   224 \<le> uint a \<Longrightarrow> uint a < 240 \<Longrightarrow> utf8codepoint m s = Some (uint a mod 16 * 4096 +
     (uint b mod 64 * 64 + uint c mod 64), s + 3)"
  by (simp add: utf8codepoint_def byte_tests or_shift [where k = 6, simplified]
      or_shift [where k = 12, simplified])

lemma codepoint_2:
  "mrd m s = Some a \<Longrightarrow> mrd m (s + 1) = Some b \<Longrightarrow>
   192 \<le> uint a \<Longrightarrow> uint a < 224 \<Longrightarrow> utf8codepoint m s = Some (uint a mod 32 * 64 + uint b mod 64, s + 2)"
  by (simp add: utf8codepoint_def byte_tests or_shift [where k = 6, simplified])

lemma codepoint_1:
  "mrd m s = Some a \<Longrightarrow> uint a < 192 \<or> 248 \<le> uint a \<Longrightarrow> utf8codepoint m s = Some (sint a, s + 1)"
  by (auto simp: utf8codepoint_def byte_tests)

text \<open>The digits of a codepoint to the base 64.\<close>

lemma digits:
  "(c :: int) div 262144 * 262144 + (c div 4096 mod 64 * 4096 + (c div 64 mod 64 * 64 + c mod 64)) = c"
  "c div 4096 * 4096 + (c div 64 mod 64 * 64 + c mod 64) = c"
  "c div 64 * 64 + c mod 64 = c"
proof -
  have 1: "c div 4096 = c div 64 div 64" "c div 262144 = c div 64 div 64 div 64"
    by (simp_all add: zdiv_zmult2_eq [symmetric])
  show 2: "c div 64 * 64 + c mod 64 = c" by simp
  have 3: "x div 64 * 64 + x mod 64 = x" for x :: int by simp
  show "c div 4096 * 4096 + (c div 64 mod 64 * 64 + c mod 64) = c"
    using 2 3 [of "c div 64"] unfolding 1 by linarith
  show "c div 262144 * 262144 + (c div 4096 mod 64 * 4096 + (c div 64 mod 64 * 64 + c mod 64)) = c"
    using 2 3 [of "c div 64"] 3 [of "c div 64 div 64"] unfolding 1 by linarith
qed

lemma digit_bounds:
  "0 \<le> (c :: int) \<Longrightarrow> c < 0x200000 \<Longrightarrow> 0 \<le> c div 262144 \<and> c div 262144 < 8"
  "0 \<le> c \<Longrightarrow> c < 0x10000 \<Longrightarrow> 0 \<le> c div 4096 \<and> c div 4096 < 16"
  "0 \<le> c \<Longrightarrow> c < 0x800 \<Longrightarrow> 0 \<le> c div 64 \<and> c div 64 < 32"
  by (intro conjI impI; simp add: div_less_iff_less_mult)+

lemma mod_lead:
  "0 \<le> x \<Longrightarrow> x < 32 \<Longrightarrow> (192 + x) mod 32 = (x :: int)"
  "0 \<le> x \<Longrightarrow> x < 16 \<Longrightarrow> (224 + x) mod 16 = x"
  "0 \<le> x \<Longrightarrow> x < 8 \<Longrightarrow> (240 + x) mod 8 = x"
  using mod_add_left_eq [of 192 32 x] mod_add_left_eq [of 224 16 x] mod_add_left_eq [of 240 8 x] by simp_all

lemma mod_tail: "(128 + x mod 64) mod 64 = (x mod 64 :: int)"
  using mod_add_left_eq [of 128 64 "x mod 64"] by simp

text \<open>The byte values of an encoded codepoint.\<close>

lemma enc_bytes:
  assumes "0 \<le> c" "c < 0x200000"
  shows "map uint (enc c) =
    (if c < 0x80 then [c]
     else if c < 0x800 then [192 + c div 64, 128 + c mod 64]
     else if c < 0x10000 then [224 + c div 4096, 128 + c div 64 mod 64, 128 + c mod 64]
     else [240 + c div 262144, 128 + c div 4096 mod 64, 128 + c div 64 mod 64, 128 + c mod 64])"
proof -
  have "uint (word_of_int (128 + x mod 64) :: u8) = 128 + x mod 64" for x
    using pos_mod_bound [of 64 x] pos_mod_sign [of 64 x] by (intro uint8_of_int) linarith+
  moreover have "uint (word_of_int (240 + c div 262144) :: u8) = 240 + c div 262144"
    using digit_bounds(1) [of c] assms by (intro uint8_of_int) simp_all
  moreover have "uint (word_of_int (224 + c div 4096) :: u8) = 224 + c div 4096" if "c < 0x10000"
    using digit_bounds(2) [of c] assms that by (intro uint8_of_int) simp_all
  moreover have "uint (word_of_int (192 + c div 64) :: u8) = 192 + c div 64" if "c < 0x800"
    using digit_bounds(3) [of c] assms that by (intro uint8_of_int) simp_all
  moreover have "uint (word_of_int c :: u8) = c" if "c < 0x80"
    using assms that by (intro uint8_of_int) simp_all
  ultimately show ?thesis unfolding enc_def by (simp only: list.map split: if_split) simp
qed

lemma enc_shape:
  assumes "0 \<le> c" "c < 0x200000"
  obtains (one) a where "enc c = [a]" "c < 0x80" "uint a = c"
  | (two) a b where "enc c = [a, b]" "0x80 \<le> c" "c < 0x800" "uint a = 192 + c div 64" "uint b = 128 + c mod 64"
  | (three) a b d where "enc c = [a, b, d]" "0x800 \<le> c" "c < 0x10000" "uint a = 224 + c div 4096"
      "uint b = 128 + c div 64 mod 64" "uint d = 128 + c mod 64"
  | (four) a b d e where "enc c = [a, b, d, e]" "0x10000 \<le> c" "uint a = 240 + c div 262144"
      "uint b = 128 + c div 4096 mod 64" "uint d = 128 + c div 64 mod 64" "uint e = 128 + c mod 64"
proof -
  consider "c < 0x80" | "0x80 \<le> c" "c < 0x800" | "0x800 \<le> c" "c < 0x10000" | "0x10000 \<le> c"
    by linarith
  then show thesis
  proof cases
    case 1
    then have "map uint (enc c) = [c]" using enc_bytes [OF assms] by simp
    then show ?thesis using that(1) 1 by (cases "enc c") auto
  next
    case 2
    then have "map uint (enc c) = [192 + c div 64, 128 + c mod 64]" using enc_bytes [OF assms] by simp
    then show ?thesis using that(2) 2 by (auto simp: map_eq_Cons_conv)
  next
    case 3
    then have "map uint (enc c) = [224 + c div 4096, 128 + c div 64 mod 64, 128 + c mod 64]"
      using enc_bytes [OF assms] by simp
    then show ?thesis using that(3) 3 by (auto simp: map_eq_Cons_conv)
  next
    case 4
    then have "map uint (enc c) = [240 + c div 262144, 128 + c div 4096 mod 64, 128 + c div 64 mod 64, 128 + c mod 64]"
      using enc_bytes [OF assms] by simp
    then show ?thesis using that(4) 4 by (auto simp: map_eq_Cons_conv)
  qed
qed

lemma tail_byte: "uint b = 128 + x mod 64 \<Longrightarrow> cont b \<and> b \<noteq> 0"
  using pos_mod_bound [of 64 x] pos_mod_sign [of 64 x] by (auto simp: cont_iff)

lemma lead_byte:
  "uint a = 192 + x \<Longrightarrow> 0 \<le> x \<Longrightarrow> \<not> cont a \<and> a \<noteq> 0"
  "uint a = 224 + x \<Longrightarrow> 0 \<le> x \<Longrightarrow> \<not> cont a \<and> a \<noteq> 0"
  "uint a = 240 + x \<Longrightarrow> 0 \<le> x \<Longrightarrow> \<not> cont a \<and> a \<noteq> 0"
  by (auto simp: cont_iff)

lemma enc_lead_tail:
  assumes "0 \<le> c" "c < 0x200000"
  shows "\<exists>a t. enc c = a # t \<and> \<not> cont a \<and> (c \<noteq> 0 \<longrightarrow> a \<noteq> 0) \<and> list_all (\<lambda>b. cont b \<and> b \<noteq> 0) t"
  using assms
proof (cases rule: enc_shape)
  case (one a)
  then show ?thesis by (auto simp: cont_iff)
next
  case (two a b)
  have "\<not> cont a \<and> a \<noteq> 0"
    using lead_byte(1) [OF two(4)] digit_bounds(3) [OF assms(1) two(3)] by blast
  then show ?thesis unfolding two(1) using tail_byte [OF two(5)] by simp
next
  case (three a b d)
  have "\<not> cont a \<and> a \<noteq> 0"
    using lead_byte(2) [OF three(4)] digit_bounds(2) [OF assms(1) three(3)] by blast
  then show ?thesis unfolding three(1) using tail_byte [OF three(5)] tail_byte [OF three(6)] by simp
next
  case (four a b d e)
  have "\<not> cont a \<and> a \<noteq> 0" using lead_byte(3) [OF four(3)] digit_bounds(1) [OF assms] by blast
  then show ?thesis
    unfolding four(1) using tail_byte [OF four(4)] tail_byte [OF four(5)] tail_byte [OF four(6)] by simp
qed

lemma enc_nonzero: "cp_ok c \<Longrightarrow> 0 \<notin> set (enc c)"
  using enc_lead_tail [of c] by (auto simp: cp_ok_def list_all_iff)

lemma encs_nonzero: "list_all cp_ok cs \<Longrightarrow> 0 \<notin> set (encs cs)"
  by (induction cs) (auto dest: enc_nonzero)

lemma enc_head_not_cont: "0 \<le> c \<Longrightarrow> c < 0x200000 \<Longrightarrow> \<not> cont (hd (enc c))"
  using enc_lead_tail [of c] by auto

lemma next_byte_encs: "list_all cp_ok cs \<Longrightarrow> \<not> cont (next_byte (encs cs))"
proof (cases cs)
  case (Cons c cs')
  assume "list_all cp_ok cs"
  then have "\<not> cont (hd (enc c))" using Cons by (intro enc_head_not_cont) (auto simp: cp_ok_def)
  then show ?thesis using Cons by (cases "enc c") auto
qed (simp add: cont_def)

lemma codepoint_enc:
  assumes "0 \<le> c" "c < 0x200000" "holds_at m s (enc c)"
  shows "utf8codepoint m s = Some (c, s + length (enc c))"
  using assms(1,2)
proof (cases rule: enc_shape)
  case (one a)
  then show ?thesis using assms codepoint_1 [of m s a] by (simp add: sint_byte)
next
  case (two a b)
  have "utf8codepoint m s = Some (uint a mod 32 * 64 + uint b mod 64, s + 2)"
    using two(1,4) assms(3) digit_bounds(3) [OF assms(1) two(3)] by (intro codepoint_2) simp_all
  then show ?thesis
    using two(1) digits(3) [of c] mod_lead(1) digit_bounds(3) [OF assms(1) two(3)]
    unfolding two(4,5) mod_tail by simp
next
  case (three a b d)
  have "utf8codepoint m s = Some (uint a mod 16 * 4096 + (uint b mod 64 * 64 + uint d mod 64), s + 3)"
    using three(1,4) assms(3) digit_bounds(2) [OF assms(1) three(3)] by (intro codepoint_3) simp_all
  then show ?thesis
    using three(1) digits(2) [of c] mod_lead(2) digit_bounds(2) [OF assms(1) three(3)]
    unfolding three(4,5,6) mod_tail by simp
next
  case (four a b d e)
  have "utf8codepoint m s = Some (uint a mod 8 * 262144 +
      (uint b mod 64 * 4096 + (uint d mod 64 * 64 + uint e mod 64)), s + 4)"
    using four(1,3) assms(3) digit_bounds(1) [OF assms(1,2)]
    by (intro codepoint_4) (simp_all add: eval_nat_numeral)
  then show ?thesis
    using four(1) digits(1) [of c] mod_lead(3) digit_bounds(1) [OF assms(1,2)]
    unfolding four(3,4,5,6) mod_tail by simp
qed

lemma codepointsize_enc: "0 \<le> c \<Longrightarrow> utf8codepointsize c = length (enc c)"
  by (simp add: utf8codepointsize_def size_masks length_enc)

lemma catcodepoint_enc:
  assumes "0 \<le> c" "c < 0x200000"
  shows "utf8catcodepoint m s c n =
    (if n < length (enc c) then Some (m, None)
     else map_option (\<lambda>m. (m, Some (s + length (enc c)))) (mput m s (enc c)))"
proof -
  have l: "c div 64 < 32" if "c < 0x800" using that by (simp add: div_less_iff_less_mult)
  have l': "c div 4096 < 16" if "c < 0x10000" using that by (simp add: div_less_iff_less_mult)
  have l'': "c div 262144 < 8" using assms by (simp add: div_less_iff_less_mult)
  have mo: "map_option f x = Option.bind x (\<lambda>y. Some (f y))" for f :: "bytes \<Rightarrow> bytes \<times> nat option" and x
    by (cases x) simp_all
  have two: "Option.bind (mput m s [x]) (\<lambda>m. Option.bind (mput m (Suc s) [y]) k) = Option.bind (mput m s [x, y]) k" for x y k
    using mput_bind [of m s "[x]" "[y]"] by simp
  have four: "Option.bind (mput m s [w]) (\<lambda>m. Option.bind (mput m (Suc s) [x, y, z]) k) =
      Option.bind (mput m s [w, x, y, z]) k" for w x y z k
    using mput_bind [of m s "[w]" "[x, y, z]"] by simp
  show ?thesis
    unfolding utf8catcodepoint_def enc_def size_masks and_3f drop_bits mo
    using assms l l' l''
    by (auto simp: or_lead two three_put four mwr_mput eval_nat_numeral
        simp del: of_int_add of_int_numeral)
qed

end
