(* ===== verification/Utf8Valid.thy ===== *)
theory Utf8Valid
  imports Utf8Codec
begin

text \<open>
  \<open>utf8valid\<close>: the byte sequences that it accepts are the encodings of codepoints.
\<close>

section \<open>Validation\<close>

lemma digit_pair: "0 \<le> w \<Longrightarrow> w < 64 \<Longrightarrow> (q * 64 + w) div 64 = (q :: int) \<and> (q * 64 + w) mod 64 = w"
  by simp

lemma tail_mod: "0 \<le> y \<Longrightarrow> y < 64 \<Longrightarrow> (128 + y) mod 64 = (y :: int)"
  using mod_add_left_eq [of 128 64 y] by simp

lemma not_overlong:
  "0x10000 \<le> (c :: int) \<Longrightarrow> \<not> (c div 262144 = 0 \<and> c div 4096 mod 64 < 16)"
  "0x800 \<le> c \<Longrightarrow> \<not> (c div 4096 = 0 \<and> c div 64 mod 64 < 32)"
proof -
  have d: "c div 262144 = c div 4096 div 64" "c div 4096 = c div 64 div 64"
    by (simp_all add: zdiv_zmult2_eq [symmetric])
  have q: "n div 64 = 0 \<Longrightarrow> n mod 64 = n" for n :: int
    using div_mult_mod_eq [of n 64] by simp
  show "\<not> (c div 262144 = 0 \<and> c div 4096 mod 64 < 16)" if "0x10000 \<le> c"
    using zdiv_mono1 [OF that, of 4096] q [of "c div 4096"] unfolding d(1) by fastforce
  show "\<not> (c div 4096 = 0 \<and> c div 64 mod 64 < 32)" if "0x800 \<le> c"
    using zdiv_mono1 [OF that, of 64] q [of "c div 64"] unfolding d(2) by fastforce
qed

lemma map_uint_inject: "map uint (xs :: bytes) = map uint ys \<Longrightarrow> xs = ys"
  by (rule map_injective) (auto simp: inj_def word_uint_eq_iff)

lemma div_64s: "(n :: int) div 4096 = n div 64 div 64" "n div 262144 = n div 64 div 64 div 64"
  by (simp_all add: zdiv_zmult2_eq [symmetric])

lemma enc_inj_bytes:
  assumes "map uint (enc c) = map uint xs" "cp_ok c"
  shows "\<exists>cp. cp_ok cp \<and> enc cp = xs"
  using assms map_uint_inject by blast

lemma enc_4:
  assumes "240 \<le> uint a" "uint a < 248" "cont b" "cont c" "cont d" "\<not> (uint a mod 8 = 0 \<and> uint b mod 64 < 16)"
  shows "\<exists>cp. cp_ok cp \<and> enc cp = [a, b, c, d]"
proof -
  obtain x y z w where v: "uint a = 240 + x" "uint b = 128 + y" "uint c = 128 + z" "uint d = 128 + w"
      and r: "0 \<le> x" "x < 8" "0 \<le> y" "y < 64" "0 \<le> z" "z < 64" "0 \<le> w" "w < 64"
    using assms(1-5) that [of "uint a - 240" "uint b - 128" "uint c - 128" "uint d - 128"] by (simp add: cont_iff)
  define c1 where "c1 = x * 64 + y"
  define c2 where "c2 = c1 * 64 + z"
  define cp where "cp = c2 * 64 + w"
  have d: "cp div 64 = c2 \<and> cp mod 64 = w" "c2 div 64 = c1 \<and> c2 mod 64 = z" "c1 div 64 = x \<and> c1 mod 64 = y"
    unfolding cp_def c2_def c1_def using digit_pair r by blast+
  note mod_lead(3) [OF r(1,2)] tail_mod [OF r(3,4)]
  then have "1 \<le> x \<or> 16 \<le> y" using assms(6) r unfolding v by auto
  then have b: "0x10000 \<le> cp" "cp < 0x200000" unfolding cp_def c2_def c1_def using r by auto
  then have "map uint (enc cp) = map uint [a, b, c, d]"
    using enc_bytes [of cp] by (simp add: v div_64s d)
  then show ?thesis using b by (intro enc_inj_bytes) (auto simp: cp_ok_def)
qed

lemma enc_3:
  assumes "224 \<le> uint a" "uint a < 240" "cont b" "cont c" "\<not> (uint a mod 16 = 0 \<and> uint b mod 64 < 32)"
  shows "\<exists>cp. cp_ok cp \<and> enc cp = [a, b, c]"
proof -
  obtain x y z where v: "uint a = 224 + x" "uint b = 128 + y" "uint c = 128 + z"
      and r: "0 \<le> x" "x < 16" "0 \<le> y" "y < 64" "0 \<le> z" "z < 64"
    using assms(1-4) that [of "uint a - 224" "uint b - 128" "uint c - 128"] by (simp add: cont_iff)
  define c1 where "c1 = x * 64 + y"
  define cp where "cp = c1 * 64 + z"
  have d: "cp div 64 = c1 \<and> cp mod 64 = z" "c1 div 64 = x \<and> c1 mod 64 = y"
    unfolding cp_def c1_def using digit_pair r by blast+
  note mod_lead(2) [OF r(1,2)] tail_mod [OF r(3,4)]
  then have "1 \<le> x \<or> 32 \<le> y" using assms(5) r unfolding v by auto
  then have b: "0x800 \<le> cp" "cp < 0x10000" unfolding cp_def c1_def using r by auto
  then have "map uint (enc cp) = map uint [a, b, c]"
    using enc_bytes [of cp] by (simp add: v div_64s d)
  then show ?thesis using b by (intro enc_inj_bytes) (auto simp: cp_ok_def)
qed

lemma enc_2:
  assumes "192 \<le> uint a" "uint a < 224" "cont b" "\<not> uint a mod 32 < 2"
  shows "\<exists>cp. cp_ok cp \<and> enc cp = [a, b]"
proof -
  obtain x y where v: "uint a = 192 + x" "uint b = 128 + y" and r: "0 \<le> x" "x < 32" "0 \<le> y" "y < 64"
    using assms(1-3) that [of "uint a - 192" "uint b - 128"] by (simp add: cont_iff)
  define cp where "cp = x * 64 + y"
  have d: "cp div 64 = x" "cp mod 64 = y" unfolding cp_def using r by simp_all
  have "(192 + x) mod 32 = x" using r by presburger
  then have "2 \<le> x" using assms(4) r unfolding v by auto
  then have b: "0x80 \<le> cp" "cp < 0x800" unfolding cp_def using r by auto
  then have "map uint (enc cp) = map uint [a, b]"
    using enc_bytes [of cp] by (simp add: v d)
  then show ?thesis using b by (intro enc_inj_bytes) (auto simp: cp_ok_def)
qed

lemma enc_1: "uint a < 128 \<Longrightarrow> a \<noteq> 0 \<Longrightarrow> \<exists>cp. cp_ok cp \<and> enc cp = [a]"
proof -
  assume a: "uint a < 128" "a \<noteq> 0"
  then have "uint a \<noteq> 0" by (simp add: uint8_0)
  then have "1 \<le> uint a" using uint8_ge [of a] by linarith
  then show ?thesis using a by (intro exI [of _ "uint a"]) (simp add: cp_ok_def enc_def)
qed

text \<open>
  A codepoint at the front of a string that the next byte does not continue. After an ASCII
  character the code leaves the next byte to the next round.
\<close>

definition good_start :: "bytes \<Rightarrow> bool" where
  "good_start s \<longleftrightarrow> (\<exists>cp t. cp_ok cp \<and> s = enc cp @ t \<and> (cp < 0x80 \<or> \<not> cont (next_byte t)))"

lemma cont_0 [simp]: "\<not> cont 0" "\<not> lead4 0" "\<not> lead3 0" "\<not> lead2 0"
  by (simp_all add: byte_tests)

lemma valid_good:
  assumes "cp_ok cp" "cstr m p (enc cp @ t)" "cp < 0x80 \<or> \<not> cont (next_byte t)"
  shows "utf8valid m p = utf8valid m (p + length (enc cp))"
proof -
  have c: "0 \<le> cp" "cp < 0x200000" using assms(1) by (simp_all add: cp_ok_def)
  have e: "mrd m (p + length (enc cp)) = Some (next_byte t)"
    using assms(2) cstr_mrd by (simp add: cstr_append)
  have h: "holds_at m p (enc cp)" "0 \<notin> set (enc cp)" using assms(2) by (simp_all add: cstr_append)
  from c show ?thesis
  proof (cases rule: enc_shape)
    case (one a)
    then have "\<not> lead4 a" "\<not> lead3 a" "\<not> lead2 a" "0 = 0x80 AND a" by (simp_all add: byte_tests)
    then show ?thesis using h one(1) by (simp add: utf8valid.simps [of m p])
  next
    case (two a b)
    have "\<not> lead4 a" "\<not> lead3 a" "lead2 a" "\<not> 0 = 0x1e AND a" "cont b"
      using two digit_bounds(3) [OF c(1) two(3)] mod_lead(1) [of "cp div 64"] tail_byte [OF two(5)]
        zdiv_mono1 [of 128 cp 64] by (simp_all add: lead4_iff lead3_iff lead2_iff overlong2_iff)
    then show ?thesis using h e assms(3) two(1,2) by (simp add: utf8valid.simps [of m p])
  next
    case (three a b d)
    note x = digit_bounds(2) [OF c(1) three(3)]
    have l: "\<not> lead4 a" "lead3 a" using three(4) x by (simp_all add: lead4_iff lead3_iff)
    have n: "\<not> (0x0f AND a = 0 \<and> 0x20 AND b = 0)"
      unfolding overlong3_iff [unfolded eq_commute [of 0]] three(4,5) mod_tail
        mod_lead(2) [OF conjunct1 [OF x] conjunct2 [OF x]]
      by (rule not_overlong(2) [OF three(2)])
    show ?thesis
      using h e assms(3) three(1,2) tail_byte [OF three(5)] tail_byte [OF three(6)]
      by (simp add: utf8valid.simps [of m p] eval_nat_numeral l n)
  next
    case (four a b d f)
    note x = digit_bounds(1) [OF c]
    have l: "lead4 a" using four(3) x by (simp add: lead4_iff)
    have n: "\<not> (0x07 AND a = 0 \<and> 0x30 AND b = 0)"
      unfolding overlong4_iff [unfolded eq_commute [of 0]] four(3,4) mod_tail
        mod_lead(3) [OF conjunct1 [OF x] conjunct2 [OF x]]
      by (rule not_overlong(1) [OF four(2)])
    show ?thesis
      using h e assms(3) four(1,2) tail_byte [OF four(4)] tail_byte [OF four(5)] tail_byte [OF four(6)]
      by (simp add: utf8valid.simps [of m p] eval_nat_numeral l n)
  qed
qed

lemma not_good_start:
  assumes "\<not> good_start (c0 # s)" "c0 \<noteq> 0"
  shows "\<not> 0 = 0x80 AND c0"
    and "s = c1 # s1 \<Longrightarrow> lead2 c0 \<Longrightarrow> cont c1 \<Longrightarrow> 0 = 0x1e AND c0 \<or> cont (next_byte s1)"
    and "s = c1 # c2 # s2 \<Longrightarrow> lead3 c0 \<Longrightarrow> cont c1 \<Longrightarrow> cont c2 \<Longrightarrow>
      0 = 0x0f AND c0 \<and> 0 = 0x20 AND c1 \<or> cont (next_byte s2)"
    and "s = c1 # c2 # c3 # s3 \<Longrightarrow> lead4 c0 \<Longrightarrow> cont c1 \<Longrightarrow> cont c2 \<Longrightarrow> cont c3 \<Longrightarrow>
      0 = 0x07 AND c0 \<and> 0 = 0x30 AND c1 \<or> cont (next_byte s3)"
proof -
  have G: "\<not> cp < 0x80 \<and> cont (next_byte t)" if "cp_ok cp" "c0 # s = enc cp @ t" for cp t
    using assms(1) that by (auto simp: good_start_def)
  show "\<not> 0 = 0x80 AND c0"
  proof
    assume "0 = 0x80 AND c0"
    then have u: "uint c0 < 0x80" by (simp add: ascii_iff)
    have "1 \<le> uint c0" using assms(2) uint8_ge [of c0] uint8_0 [of c0] by linarith
    then have "cp_ok (uint c0)" "enc (uint c0) = [c0]" "uint c0 < 0x80"
      using u by (simp_all add: cp_ok_def enc_def)
    then show False using G [of "uint c0" s] by simp
  qed
  show "0 = 0x1e AND c0 \<or> cont (next_byte s1)" if s: "s = c1 # s1" and c: "lead2 c0" "cont c1"
  proof (cases "0 = 0x1e AND c0")
    case False
    then obtain cp where "cp_ok cp" "enc cp = [c0, c1]"
      using enc_2 [of c0 c1] c by (auto simp: lead2_iff overlong2_iff)
    then show ?thesis using G [of cp s1] s by simp
  qed simp
  show "0 = 0x0f AND c0 \<and> 0 = 0x20 AND c1 \<or> cont (next_byte s2)"
    if s: "s = c1 # c2 # s2" and c: "lead3 c0" "cont c1" "cont c2"
  proof (cases "0 = 0x0f AND c0 \<and> 0 = 0x20 AND c1")
    case False
    then obtain cp where "cp_ok cp" "enc cp = [c0, c1, c2]"
      using enc_3 [of c0 c1 c2] c by (auto simp: lead3_iff overlong3_iff)
    then show ?thesis using G [of cp s2] s by simp
  qed simp
  show "0 = 0x07 AND c0 \<and> 0 = 0x30 AND c1 \<or> cont (next_byte s3)"
    if s: "s = c1 # c2 # c3 # s3" and c: "lead4 c0" "cont c1" "cont c2" "cont c3"
  proof (cases "0 = 0x07 AND c0 \<and> 0 = 0x30 AND c1")
    case False
    then obtain cp where "cp_ok cp" "enc cp = [c0, c1, c2, c3]"
      using enc_4 [of c0 c1 c2 c3] c by (auto simp: lead4_iff overlong4_iff)
    then show ?thesis using G [of cp s3] s by simp
  qed simp
qed

lemma lead_not_ascii: "lead4 c \<or> lead3 c \<or> lead2 c \<Longrightarrow> \<not> 0 = 0x80 AND c"
  by (auto simp: byte_tests)

lemma lead_exclusive: "lead3 c \<Longrightarrow> \<not> lead4 c" "lead2 c \<Longrightarrow> \<not> lead4 c \<and> \<not> lead3 c"
  by (auto simp: byte_tests)

text \<open>The bytes of a string that are continuation bytes are inside of it.\<close>

lemma cstr_split1:
  assumes "cstr m p s"
  obtains "mrd m p = Some 0" "s = []" | c t where "s = c # t" "mrd m p = Some c" "c \<noteq> 0" "cstr m (Suc p) t"
  using assms by (cases s) auto

lemma valid_bad:
  assumes "cstr m p (c0 # s)" "\<not> good_start (c0 # s)"
  shows "utf8valid m p = Some (Some p)"
proof -
  have c0: "mrd m p = Some c0" "c0 \<noteq> 0" and s: "cstr m (Suc p) s" using assms(1) by auto
  note N = not_good_start [OF assms(2) c0(2)]
  have one: "mrd m (Suc p) = Some (next_byte s)" using cstr_mrd [OF s] .
  consider "lead4 c0" | "lead3 c0" | "lead2 c0" | "\<not> lead4 c0" "\<not> lead3 c0" "\<not> lead2 c0" by blast
  then show ?thesis
  proof cases
    case 1
    show ?thesis
    proof (cases "cont (next_byte s)")
      case True
      then obtain c1 s1 where s1: "s = c1 # s1" "cont c1" by (cases s) auto
      then have two: "mrd m (Suc (Suc p)) = Some (next_byte s1)" "cstr m (Suc (Suc p)) s1"
        using s cstr_mrd by auto
      show ?thesis
      proof (cases "cont (next_byte s1)")
        case True
        then obtain c2 s2 where s2: "s1 = c2 # s2" "cont c2" by (cases s1) auto
        then have three: "mrd m (Suc (Suc (Suc p))) = Some (next_byte s2)" "cstr m (Suc (Suc (Suc p))) s2"
          using two(2) cstr_mrd by auto
        show ?thesis
        proof (cases "cont (next_byte s2)")
          case True
          then obtain c3 s3 where s3: "s2 = c3 # s3" "cont c3" by (cases s2) auto
          then have "mrd m (Suc (Suc (Suc (Suc p)))) = Some (next_byte s3)"
            using three(2) cstr_mrd by auto
          then show ?thesis
            using N(4) [of c1 c2 c3 s3] c0 1 s1 s2 s3 one two three
            by (auto simp: utf8valid.simps [of m p] eval_nat_numeral)
        qed (use c0 1 s1 s2 one two three in \<open>simp add: utf8valid.simps [of m p] eval_nat_numeral\<close>)
      qed (use c0 1 s1 one two in \<open>simp add: utf8valid.simps [of m p] eval_nat_numeral\<close>)
    qed (use c0 1 one in \<open>simp add: utf8valid.simps [of m p]\<close>)
  next
    case 2
    note l = 2 lead_exclusive(1) [OF 2]
    show ?thesis
    proof (cases "cont (next_byte s)")
      case True
      then obtain c1 s1 where s1: "s = c1 # s1" "cont c1" by (cases s) auto
      then have two: "mrd m (Suc (Suc p)) = Some (next_byte s1)" "cstr m (Suc (Suc p)) s1"
        using s cstr_mrd by auto
      show ?thesis
      proof (cases "cont (next_byte s1)")
        case True
        then obtain c2 s2 where s2: "s1 = c2 # s2" "cont c2" by (cases s1) auto
        then have "mrd m (Suc (Suc (Suc p))) = Some (next_byte s2)" using two(2) cstr_mrd by auto
        then show ?thesis
          using N(3) [of c1 c2 s2] c0 l s1 s2 one two
          by (auto simp: utf8valid.simps [of m p] eval_nat_numeral)
      qed (use c0 l s1 one two in \<open>simp add: utf8valid.simps [of m p] eval_nat_numeral\<close>)
    qed (use c0 l one in \<open>simp add: utf8valid.simps [of m p]\<close>)
  next
    case 3
    note l = 3 lead_exclusive(2) [OF 3]
    show ?thesis
    proof (cases "cont (next_byte s)")
      case True
      then obtain c1 s1 where s1: "s = c1 # s1" "cont c1" by (cases s) auto
      then have "mrd m (Suc (Suc p)) = Some (next_byte s1)" using s cstr_mrd by auto
      then show ?thesis
        using N(2) [of c1 s1] c0 l s1 one by (auto simp: utf8valid.simps [of m p] eval_nat_numeral)
    qed (use c0 l one in \<open>simp add: utf8valid.simps [of m p]\<close>)
  next
    case 4
    then show ?thesis using N(1) 4 c0 by (auto simp: utf8valid.simps [of m p])
  qed
qed

text \<open>What \<open>utf8valid\<close> finds: it returns null on the encodings of codepoints, else the first bad byte sequence.\<close>

lemma valid_encs:
  "list_all cp_ok cs \<Longrightarrow> cstr m p (encs cs @ t) \<Longrightarrow> \<not> cont (next_byte t) \<Longrightarrow>
   utf8valid m p = utf8valid m (p + length (encs cs))"
proof (induction cs arbitrary: p)
  case (Cons c cs)
  have "\<not> cont (next_byte (encs cs @ t))"
    using next_byte_encs [of cs] Cons.prems by (cases "encs cs") auto
  then have "utf8valid m p = utf8valid m (p + length (enc c))"
    using Cons.prems by (intro valid_good [of c m p "encs cs @ t"]) auto
  also have "\<dots> = utf8valid m (p + length (enc c) + length (encs cs))"
    using Cons.prems by (intro Cons.IH) (auto simp: cstr_append)
  finally show ?case by (simp add: ac_simps)
qed simp

lemma valid_total:
  "cstr m p s \<Longrightarrow>
   utf8valid m p = Some None \<and> (\<exists>cs. list_all cp_ok cs \<and> s = encs cs) \<or>
   (\<exists>cs t. list_all cp_ok cs \<and> s = encs cs @ t \<and> t \<noteq> [] \<and> \<not> good_start t \<and>
      (\<forall>i < length cs. good_start (encs (drop i cs) @ t)) \<and> utf8valid m p = Some (Some (p + length (encs cs))))"
proof (induction "length s" arbitrary: p s rule: less_induct)
  case less
  consider "s = []" | "s \<noteq> []" "\<not> good_start s" | cp t where "cp_ok cp" "s = enc cp @ t" "cp < 0x80 \<or> \<not> cont (next_byte t)"
    by (auto simp: good_start_def)
  then show ?case
  proof cases
    case 1
    then show ?thesis using less.prems by (auto simp: utf8valid.simps [of m p] intro!: exI [of _ "[]"])
  next
    case 2
    then have "utf8valid m p = Some (Some p)" using less.prems valid_bad by (cases s) auto
    then show ?thesis using 2 by (intro disjI2 exI [of _ "[]"] exI [of _ s]) simp
  next
    case 3
    have p: "utf8valid m p = utf8valid m (p + length (enc cp))"
      using valid_good [of cp m p t] less.prems 3 by blast
    have "cstr m (p + length (enc cp)) t" "length t < length s"
      using less.prems 3 by (simp_all add: cstr_append)
    from less.hyps [OF this(2,1)] show ?thesis
    proof (elim disjE exE conjE)
      fix cs assume "list_all cp_ok cs" "t = encs cs" "utf8valid m (p + length (enc cp)) = Some None"
      then show ?thesis using p 3 by (intro disjI1 conjI exI [of _ "cp # cs"]) simp_all
    next
      fix cs u assume u: "list_all cp_ok cs" "t = encs cs @ u" "u \<noteq> []" "\<not> good_start u"
        "\<forall>i < length cs. good_start (encs (drop i cs) @ u)"
        "utf8valid m (p + length (enc cp)) = Some (Some (p + length (enc cp) + length (encs cs)))"
      moreover have "good_start (encs (cp # cs) @ u)" using 3 u(2) by (auto simp: good_start_def)
      then have "good_start (encs (drop i (cp # cs)) @ u)" if "i < length (cp # cs)" for i
        using that u(5) by (cases i) auto
      ultimately show ?thesis using p 3 by (intro disjI2 exI [of _ "cp # cs"] exI [of _ u]) (simp add: ac_simps)
    qed
  qed
qed

text \<open>
  C6: \<open>utf8valid\<close> on any NUL-terminated string reads no byte behind the terminator. It returns
  null exactly when the string is the encoding of a list of codepoints below \<open>0x200000\<close>. Otherwise it returns the place of the first codepoint that is
  not good (\<open>good_start\<close>): the string up to there is a list of encoded codepoints, at each of which a good one starts, and at the place itself none
  does. A good codepoint is an encoding that is a single byte or is not followed by a further continuation byte, so that for \<open>e2 82 ac 80\<close> the place
  is that of the \<open>e2\<close>.
\<close>

theorem utf8valid_correct:
  assumes "cstr m p s"
  shows "(utf8valid m p = Some None \<longleftrightarrow> (\<exists>cs. list_all cp_ok cs \<and> s = encs cs)) \<and>
    (utf8valid m p \<noteq> Some None \<longrightarrow>
      (\<exists>cs t. list_all cp_ok cs \<and> s = encs cs @ t \<and> t \<noteq> [] \<and> \<not> good_start t \<and>
        (\<forall>i < length cs. good_start (encs (drop i cs) @ t)) \<and>
        utf8valid m p = Some (Some (p + length (encs cs)))))"
proof -
  have "utf8valid m p = Some None" if cs: "list_all cp_ok cs" "s = encs cs" for cs
  proof -
    have "utf8valid m p = utf8valid m (p + length (encs cs))"
      using valid_encs [of cs m p "[]"] cs assms by simp
    moreover have "mrd m (p + length (encs cs)) = Some 0"
      using assms cs cstr_append [of m p s "[]"] by simp
    ultimately show ?thesis by (simp add: utf8valid.simps [of m "p + length (encs cs)"])
  qed
  then show ?thesis using valid_total [OF assms] by (smt (verit, best) option.distinct(1) option.inject)
qed

theorem utf8valid_correct_witness:
  "utf8valid [0x7a, 0xe2, 0x82, 0xac, 0, 0x80] 0 = Some None \<and> utf8valid [0x7a, 0xc0, 0x80, 0] 0 = Some (Some 1)"
proof -
  have a: "cstr [0x7a, 0xe2, 0x82, 0xac, 0, 0x80] 0 [0x7a, 0xe2, 0x82, 0xac]"
    "[0x7a, 0xe2, 0x82, 0xac] = encs [0x7a, 0x20ac]" "list_all cp_ok [0x7a, 0x20ac]"
    "cstr [0x7a, 0xc0, 0x80, 0] 0 [0x7a, 0xc0, 0x80]"
    by (simp_all add: mrd_Some_iff enc_def cp_ok_def)
  have "utf8valid [0x7a, 0xe2, 0x82, 0xac, 0, 0x80] 0 = Some None"
    using utf8valid_correct [OF a(1)] a(2,3) by blast
  moreover have "utf8valid [0x7a, 0xc0, 0x80, 0] 0 = Some (Some 1)"
    by code_simp
  ultimately show ?thesis by simp
qed

end
