(* ===== verification/Utf8Case.thy ===== *)
theory Utf8Case
  imports Utf8Codec
begin

text \<open>
  The letter case tables of \<open>utf8lwrcodepoint\<close> and \<open>utf8uprcodepoint\<close>, and the conversions of a
  string in place. The locale \<open>case_conversion\<close> is the contract that the two conversions share.
\<close>

section \<open>Letter case\<close>

text \<open>The ranges of the two conversions: shifted by 32, and pairs that start at an even or odd codepoint.\<close>

definition upper_range :: "int \<Rightarrow> bool" where
  "upper_range cp \<longleftrightarrow> (0x0041 \<le> cp \<and> 0x005a \<ge> cp) \<or> (0x00c0 \<le> cp \<and> 0x00d6 \<ge> cp) \<or>
     (0x00d8 \<le> cp \<and> 0x00de \<ge> cp) \<or> (0x0391 \<le> cp \<and> 0x03a1 \<ge> cp) \<or> (0x03a3 \<le> cp \<and> 0x03ab \<ge> cp)"

definition even_pairs :: "int \<Rightarrow> bool" where
  "even_pairs cp \<longleftrightarrow>
     (0x0100 \<le> cp \<and> 0x012f \<ge> cp) \<or> (0x0132 \<le> cp \<and> 0x0137 \<ge> cp) \<or> (0x014a \<le> cp \<and> 0x0177 \<ge> cp) \<or>
     (0x0182 \<le> cp \<and> 0x0185 \<ge> cp) \<or> (0x01a0 \<le> cp \<and> 0x01a5 \<ge> cp) \<or> (0x01de \<le> cp \<and> 0x01ef \<ge> cp) \<or>
     (0x01f8 \<le> cp \<and> 0x021f \<ge> cp) \<or> (0x0222 \<le> cp \<and> 0x0233 \<ge> cp) \<or> (0x0246 \<le> cp \<and> 0x024f \<ge> cp) \<or>
     (0x03d8 \<le> cp \<and> 0x03ef \<ge> cp)"

definition odd_pairs :: "int \<Rightarrow> bool" where
  "odd_pairs cp \<longleftrightarrow>
     (0x0139 \<le> cp \<and> 0x0148 \<ge> cp) \<or> (0x0179 \<le> cp \<and> 0x017e \<ge> cp) \<or> (0x01af \<le> cp \<and> 0x01b0 \<ge> cp) \<or>
     (0x01b3 \<le> cp \<and> 0x01b6 \<ge> cp) \<or> (0x01cd \<le> cp \<and> 0x01dc \<ge> cp)"

lemma low_bit: "(c :: int) OR 1 = c - c mod 2 + 1" "c AND NOT 1 = c - c mod 2"
proof -
  show "c OR 1 = c - c mod 2 + 1" by (simp add: or_one_eq) presburger
  have "c AND NOT (mask k) = push_bit k (drop_bit k c)" for k
    by (rule bit_eqI) (auto simp: bit_simps)
  from this [of 1] have "c AND NOT 1 = push_bit 1 (drop_bit 1 c)" by simp
  also have "\<dots> = c - c mod 2"
    by (simp add: push_bit_eq_mult drop_bit_eq_div minus_mod_eq_div_mult)
  finally show "c AND NOT 1 = c - c mod 2" .
qed

lemma odd_fix: "(c :: int) + 1 - (c + 1) mod 2 = c + c mod 2" "c - 1 - (c - 1) mod 2 + 1 = c - 1 + c mod 2"
  by presburger+

lemma lwr_cases:
  "utf8lwrcodepoint c = (if upper_range c then c + 32 else if even_pairs c then c - c mod 2 + 1
     else if odd_pairs c then c + c mod 2
     else case map_of lwr_switch c of Some v \<Rightarrow> v | None \<Rightarrow> c)"
  unfolding utf8lwrcodepoint_def upper_range_def even_pairs_def odd_pairs_def low_bit odd_fix by simp

lemma upr_cases:
  "utf8uprcodepoint c = (if upper_range (c - 32) then c - 32 else if even_pairs c then c - c mod 2
     else if odd_pairs c then c - 1 + c mod 2
     else case map_of upr_switch c of Some v \<Rightarrow> v | None \<Rightarrow> c)"
proof -
  have "upper_range (c - 32) \<longleftrightarrow> (0x0061 \<le> c \<and> 0x007a \<ge> c) \<or> (0x00e0 \<le> c \<and> 0x00f6 \<ge> c) \<or>
      (0x00f8 \<le> c \<and> 0x00fe \<ge> c) \<or> (0x03b1 \<le> c \<and> 0x03c1 \<ge> c) \<or> (0x03c3 \<le> c \<and> 0x03cb \<ge> c)"
    unfolding upper_range_def by linarith
  then show ?thesis
    unfolding utf8uprcodepoint_def even_pairs_def odd_pairs_def low_bit odd_fix by simp
qed

lemma upper_range_disjoint: "upper_range c \<Longrightarrow> \<not> upper_range (c - 32) \<and> \<not> upper_range (c + 32) \<and> \<not> even_pairs c \<and> \<not> odd_pairs c \<and>
    \<not> even_pairs (c + 32) \<and> \<not> odd_pairs (c + 32)"
  unfolding upper_range_def even_pairs_def odd_pairs_def by linarith

lemma pairs_disjoint:
  "even_pairs c \<Longrightarrow> \<not> upper_range c \<and> \<not> upper_range (c - 32) \<and> \<not> odd_pairs c"
  "odd_pairs c \<Longrightarrow> \<not> upper_range c \<and> \<not> upper_range (c - 32)"
  unfolding upper_range_def even_pairs_def odd_pairs_def by linarith+

lemma pair_bounds:
  assumes "(lo :: int) \<le> c" "c \<le> hi"
  shows "lo mod 2 = 0 \<Longrightarrow> hi mod 2 = 1 \<Longrightarrow>
      lo \<le> c - c mod 2 \<and> c - c mod 2 \<le> hi \<and> lo \<le> c - c mod 2 + 1 \<and> c - c mod 2 + 1 \<le> hi"
    and "lo mod 2 = 1 \<Longrightarrow> hi mod 2 = 0 \<Longrightarrow>
      lo \<le> c + c mod 2 \<and> c + c mod 2 \<le> hi \<and> lo \<le> c - 1 + c mod 2 \<and> c - 1 + c mod 2 \<le> hi"
  using assms by presburger+

lemma even_pairs_closed:
  assumes "even_pairs c"
  shows "even_pairs (c - c mod 2) \<and> even_pairs (c - c mod 2 + 1)"
  using assms unfolding even_pairs_def
  by (elim disjE conjE) (drule (1) pair_bounds(1), simp, simp, blast)+

lemma odd_pairs_closed:
  assumes "odd_pairs c"
  shows "odd_pairs (c + c mod 2) \<and> odd_pairs (c - 1 + c mod 2)"
  using assms unfolding odd_pairs_def
  by (elim disjE conjE) (drule (1) pair_bounds(2), simp, simp, blast)+

text \<open>The switches: the entries that no range shadows, and the codepoints of the ranges.\<close>

lemma lwr_switch_entries:
  "list_all (\<lambda>(x, y). \<not> upper_range (x - 32) \<and> \<not> even_pairs x \<and> 0x80 \<le> x \<and> x < 0x800 \<and> 0x80 \<le> y \<and> y < 0x800 \<and>
     utf8uprcodepoint (utf8lwrcodepoint x) = utf8uprcodepoint x \<and> 
     (odd_pairs x \<or> map_of upr_switch x = None)) lwr_switch"
  by code_simp

lemma upr_switch_entries:
  "list_all (\<lambda>(x, y). \<not> upper_range x \<and> \<not> even_pairs x \<and> 0x80 \<le> x \<and> x < 0x800 \<and> 0x80 \<le> y \<and> y < 0x800 \<and>
     utf8lwrcodepoint (utf8uprcodepoint x) = utf8lwrcodepoint x \<and> 
     (odd_pairs x \<or> map_of lwr_switch x = None)) upr_switch"
  by code_simp

lemma lwr_switchD:
  assumes "map_of lwr_switch c = Some y"
  shows "\<not> upper_range (c - 32)" "\<not> even_pairs c" "0x80 \<le> c" "c < 0x800" "0x80 \<le> y" "y < 0x800"
    "utf8uprcodepoint (utf8lwrcodepoint c) = utf8uprcodepoint c" "odd_pairs c \<or> map_of upr_switch c = None"
  using lwr_switch_entries map_of_SomeD [OF assms] by (auto simp: list_all_iff)

lemma upr_switchD:
  assumes "map_of upr_switch c = Some y"
  shows "\<not> upper_range c" "\<not> even_pairs c" "0x80 \<le> c" "c < 0x800" "0x80 \<le> y" "y < 0x800"
    "utf8lwrcodepoint (utf8uprcodepoint c) = utf8lwrcodepoint c" "odd_pairs c \<or> map_of lwr_switch c = None"
  using upr_switch_entries map_of_SomeD [OF assms] by (auto simp: list_all_iff)

lemma parity_fix: "(c - (c :: int) mod 2) mod 2 = 0" "(c - c mod 2 + 1) mod 2 = 1" "(c + c mod 2) mod 2 = 0"
    "(c - 1 + c mod 2) mod 2 = 1"
  by presburger+

lemma lwr_upr: "utf8lwrcodepoint (utf8uprcodepoint c) = utf8lwrcodepoint c"
proof -
  consider "upper_range (c - 32)" | "even_pairs c" | "odd_pairs c"
    | y where "\<not> upper_range (c - 32)" "\<not> even_pairs c" "\<not> odd_pairs c" "map_of upr_switch c = Some y"
    | "\<not> upper_range (c - 32)" "\<not> even_pairs c" "\<not> odd_pairs c" "map_of upr_switch c = None"
    by (cases "map_of upr_switch c") auto
  then show ?thesis
  proof cases
    case 1
    have "map_of lwr_switch c = None" using lwr_switchD(1) [of c] 1 by (cases "map_of lwr_switch c") auto
    then show ?thesis
      using upper_range_disjoint [OF 1] 1 by (simp add: lwr_cases [of c] lwr_cases [of "c - 32"] upr_cases)
  next
    case 2
    then show ?thesis
      using even_pairs_closed [OF 2] pairs_disjoint(1) [of c] pairs_disjoint(1) [of "c - c mod 2"]
      by (simp add: lwr_cases [of c] lwr_cases [of "c - c mod 2"] upr_cases parity_fix)
  next
    case 3
    then have "\<not> even_pairs c" "\<not> even_pairs (c - 1 + c mod 2)"
      using pairs_disjoint(1) odd_pairs_closed [OF 3] by blast+
    then show ?thesis
      using odd_pairs_closed [OF 3] pairs_disjoint(2) [OF 3] pairs_disjoint(2) [of "c - 1 + c mod 2"] 3
      by (simp add: lwr_cases [of c] lwr_cases [of "c - 1 + c mod 2"] upr_cases parity_fix)
  next
    case 4
    then show ?thesis using upr_switchD(7) by blast
  next
    case 5
    then show ?thesis by (simp add: upr_cases)
  qed
qed

lemma upr_lwr: "utf8uprcodepoint (utf8lwrcodepoint c) = utf8uprcodepoint c"
proof -
  consider "upper_range c" | "even_pairs c" | "odd_pairs c"
    | y where "map_of lwr_switch c = Some y"
    | "\<not> upper_range c" "\<not> even_pairs c" "\<not> odd_pairs c" "map_of lwr_switch c = None"
    by (cases "map_of lwr_switch c") auto
  then show ?thesis
  proof cases
    case 1
    have "map_of upr_switch c = None" using upr_switchD(1) [of c] 1 by (cases "map_of upr_switch c") auto
    then show ?thesis
      using upper_range_disjoint [OF 1] 1 by (simp add: upr_cases [of c] upr_cases [of "c + 32"] lwr_cases)
  next
    case 2
    then show ?thesis
      using even_pairs_closed [OF 2] pairs_disjoint(1) [of c] pairs_disjoint(1) [of "c - c mod 2 + 1"]
      by (simp add: upr_cases [of c] upr_cases [of "c - c mod 2 + 1"] lwr_cases parity_fix)
  next
    case 3
    then have "\<not> even_pairs c" "\<not> even_pairs (c + c mod 2)"
      using pairs_disjoint(1) odd_pairs_closed [OF 3] by blast+
    then show ?thesis
      using odd_pairs_closed [OF 3] pairs_disjoint(2) [OF 3] pairs_disjoint(2) [of "c + c mod 2"] 3
      by (simp add: upr_cases [of c] upr_cases [of "c + c mod 2"] lwr_cases parity_fix)
  next
    case 4
    then show ?thesis using lwr_switchD(7) by blast
  next
    case 5
    then show ?thesis by (simp add: lwr_cases)
  qed
qed

text \<open>Both conversions keep the size of the encoding, and never make a NUL.\<close>

lemma range_bounds:
  "upper_range c \<Longrightarrow> (0x41 \<le> c \<and> c \<le> 0x5a) \<or> (0xc0 \<le> c \<and> c \<le> 0x3ab)"
  "even_pairs c \<Longrightarrow> 0x100 \<le> c \<and> c \<le> 0x3ef" "odd_pairs c \<Longrightarrow> 0x139 \<le> c \<and> c \<le> 0x1dc"
  unfolding upper_range_def even_pairs_def odd_pairs_def by linarith+

lemma lwr_class:
  "(utf8lwrcodepoint c = c) \<or> (0x41 \<le> c \<and> c < 0x80 \<and> 0x41 \<le> utf8lwrcodepoint c \<and> utf8lwrcodepoint c < 0x80) \<or>
   (0x80 \<le> c \<and> c < 0x800 \<and> 0x80 \<le> utf8lwrcodepoint c \<and> utf8lwrcodepoint c < 0x800)"
proof -
  have m: "0 \<le> c mod 2" "c mod 2 \<le> 1" by presburger+
  show ?thesis
    using range_bounds [of c] lwr_switchD(3-6) [of c] m
    by (cases "map_of lwr_switch c") (auto simp: lwr_cases)
qed

lemma upr_class:
  "(utf8uprcodepoint c = c) \<or> (0x41 \<le> c \<and> c < 0x80 \<and> 0x41 \<le> utf8uprcodepoint c \<and> utf8uprcodepoint c < 0x80) \<or>
   (0x80 \<le> c \<and> c < 0x800 \<and> 0x80 \<le> utf8uprcodepoint c \<and> utf8uprcodepoint c < 0x800)"
proof -
  have m: "0 \<le> c mod 2" "c mod 2 \<le> 1" by presburger+
  show ?thesis
    using range_bounds(1) [of "c - 32"] range_bounds(2,3) [of c] upr_switchD(3-6) [of c] m
    by (cases "map_of upr_switch c") (auto simp: upr_cases)
qed

lemma lwr_ok: "cp_ok c \<Longrightarrow> cp_ok (utf8lwrcodepoint c) \<and> length (enc (utf8lwrcodepoint c)) = length (enc c)"
  using lwr_class [of c] by (auto simp: cp_ok_def length_enc)

lemma upr_ok: "cp_ok c \<Longrightarrow> cp_ok (utf8uprcodepoint c) \<and> length (enc (utf8uprcodepoint c)) = length (enc c)"
  using upr_class [of c] by (auto simp: cp_ok_def length_enc)

lemma lwr_0 [simp]: "utf8lwrcodepoint 0 = 0" and upr_0 [simp]: "utf8uprcodepoint 0 = 0"
  by code_simp+

section \<open>Counting and case conversion in place\<close>

lemma lead_of:
  "uint a = 192 + x \<Longrightarrow> 0 \<le> x \<and> x < 32 \<Longrightarrow> \<not> lead4 a \<and> \<not> lead3 a \<and> lead2 a"
  "uint a = 224 + x \<Longrightarrow> 0 \<le> x \<and> x < 16 \<Longrightarrow> \<not> lead4 a \<and> lead3 a"
  "uint a = 240 + x \<Longrightarrow> 0 \<le> x \<and> x < 8 \<Longrightarrow> lead4 a"
  by (simp_all add: lead4_iff lead3_iff lead2_iff)

lemma enc_lead:
  assumes "cp_ok c"
  obtains a t where "enc c = a # t" "a \<noteq> 0"
    "(if lead4 a then 4 else if lead3 a then 3 else if lead2 a then 2 else 1) = length (enc c)"
proof -
  have c: "0 \<le> c" "c < 0x200000" using assms by (simp_all add: cp_ok_def)
  obtain a t where e: "enc c = a # t" "a \<noteq> 0" using enc_lead_tail [OF c] assms by (auto simp: cp_ok_def)
  from c have "(if lead4 a then 4 else if lead3 a then 3 else if lead2 a then 2 else 1) = length (enc c)"
  proof (cases rule: enc_shape)
    case (one a')
    then show ?thesis using e by (simp add: byte_tests)
  next
    case (two a' b)
    show ?thesis using e two(1) lead_of(1) [OF two(4) digit_bounds(3) [OF c(1) two(3)]] by auto
  next
    case (three a' b d)
    show ?thesis using e three(1) lead_of(2) [OF three(4) digit_bounds(2) [OF c(1) three(3)]] by auto
  next
    case (four a' b d f)
    show ?thesis using e four(1) lead_of(3) [OF four(3) digit_bounds(1) [OF c]] by auto
  qed
  then show thesis using that e by blast
qed

lemma utf8len_loop_encs:
  "list_all cp_ok cs \<Longrightarrow> cstr m p (encs cs) \<Longrightarrow> utf8len_loop m p n = Some (n + length cs)"
proof (induction cs arbitrary: p n)
  case (Cons c cs)
  then have "cp_ok c" by simp
  then obtain a t where e: "enc c = a # t" "a \<noteq> 0"
      "(if lead4 a then 4 else if lead3 a then 3 else if lead2 a then 2 else 1) = length (enc c)"
    by (rule enc_lead)
  have m: "mrd m p = Some a" using Cons.prems e(1) by simp
  have "utf8len_loop m p n = utf8len_loop m (p + length (enc c)) (n + 1)"
    unfolding e(3) [symmetric] using m e(2) by (simp add: utf8len_loop.simps [of m p n])
  then show ?case using Cons.IH [of "p + length (enc c)" "n + 1"] Cons.prems by (simp add: cstr_append)
next
  case Nil
  then show ?case by (simp add: utf8len_loop.simps [of m p n])
qed

text \<open>A write in front of a string leaves it alone; a write of the same bytes changes nothing.\<close>

lemma mput_holds_above:
  assumes "mput m p xs = Some m'" "p + length xs \<le> q"
  shows "holds_at m' q ys = holds_at m q ys"
  using assms by (induction ys arbitrary: q) (auto simp: mput_Some_iff mrd_def nth_append min_def)

lemma mput_holds: "mput m p xs = Some m' \<Longrightarrow> holds_at m' p xs"
proof (cases "xs = []")
  case False
  assume "mput m p xs = Some m'"
  then show ?thesis using False by (auto simp: holds_at_iff mput_Some_iff)
qed simp

lemma mput_same: "holds_at m p xs \<Longrightarrow> p + length xs \<le> length m \<Longrightarrow> mput m p xs = Some m"
  by (cases "xs = []") (auto simp: holds_at_iff mput_def append_assoc [symmetric] simp del: append_assoc,
    metis append.assoc append_take_drop_id drop_drop add.commute)

lemma cstr_mput_above:
  "mput m p xs = Some m' \<Longrightarrow> p + length xs \<le> q \<Longrightarrow> cstr m q s \<Longrightarrow> cstr m' q s"
  unfolding cstr_def using mput_holds_above by blast

text \<open>The loops of \<open>utf8lwr\<close> and \<open>utf8upr\<close>, for a conversion that keeps the size of the encoding.\<close>

locale case_conversion =
  fixes conv :: "int \<Rightarrow> int"
    and loop :: "bytes \<Rightarrow> nat \<Rightarrow> nat \<Rightarrow> int \<Rightarrow> bytes option"
  assumes conv_ok: "cp_ok c \<Longrightarrow> cp_ok (conv c) \<and> length (enc (conv c)) = length (enc c)"
    and loop_0: "loop m p pn 0 = Some m"
    and loop_step: "cp \<noteq> 0 \<Longrightarrow> loop m p pn cp = do {
        (m', _) \<leftarrow> if conv cp \<noteq> cp then utf8catcodepoint m p (conv cp) (utf8codepointsize (conv cp)) else Some (m, None);
        (cp', pn') \<leftarrow> utf8codepoint m' pn;
        loop m' pn pn' cp'
      }"
begin

lemma encs_conv_length: "list_all cp_ok cs \<Longrightarrow> length (encs (map conv cs)) = length (encs cs)"
  by (induction cs) (auto simp: conv_ok)

lemma write_conv:
  assumes "cp_ok cp" "holds_at m p (enc cp)"
  obtains m' r where "mput m p (enc (conv cp)) = Some m'"
    "(if conv cp \<noteq> cp then utf8catcodepoint m p (conv cp) (utf8codepointsize (conv cp)) else Some (m, None)) = Some (m', r)"
proof -
  have c: "0 \<le> conv cp" "conv cp < 0x200000" using conv_ok [OF assms(1)] by (simp_all add: cp_ok_def)
  have l: "p + length (enc cp) \<le> length m" using holds_at_length [OF assms(2)] by simp
  then obtain m' where "mput m p (enc (conv cp)) = Some m'"
    using conv_ok [OF assms(1)] by (auto simp: mput_def)
  then show thesis
    using that [of m'] that [of m] mput_same [OF assms(2) l] c
    by (cases "conv cp = cp") (auto simp: catcodepoint_enc codepointsize_enc)
qed

lemma loop_encs:
  assumes "list_all cp_ok (cp # cs)" "holds_at m p (enc cp)" "cstr m (p + length (enc cp)) (encs cs)"
  shows "loop m p (p + length (enc cp)) cp = mput m p (encs (map conv (cp # cs)))"
  using assms
proof (induction cs arbitrary: m p cp)
  case Nil
  then have "cp_ok cp" "cp \<noteq> 0" by (auto simp: cp_ok_def)
  obtain m' r where m': "mput m p (enc (conv cp)) = Some m'"
      "(if conv cp \<noteq> cp then utf8catcodepoint m p (conv cp) (utf8codepointsize (conv cp)) else Some (m, None)) = Some (m', r)"
    using write_conv [OF \<open>cp_ok cp\<close> Nil.prems(2)] .
  have "cstr m' (p + length (enc cp)) []"
    using Nil.prems(3) cstr_mput_above [OF m'(1), of "p + length (enc cp)" "[]"] conv_ok [OF \<open>cp_ok cp\<close>] by simp
  then have "utf8codepoint m' (p + length (enc cp)) = Some (0, p + length (enc cp) + 1)"
    using codepoint_1 [of m' "p + length (enc cp)" 0] by simp
  then show ?case
    using m' \<open>cp \<noteq> 0\<close> by (simp add: loop_step loop_0 del: split_paired_All)
next
  case (Cons c cs)
  then have "cp_ok cp" "cp \<noteq> 0" "cp_ok c" by (auto simp: cp_ok_def)
  let ?pn = "p + length (enc cp)"
  obtain m' r where m': "mput m p (enc (conv cp)) = Some m'"
      "(if conv cp \<noteq> cp then utf8catcodepoint m p (conv cp) (utf8codepointsize (conv cp)) else Some (m, None)) = Some (m', r)"
    using write_conv [OF \<open>cp_ok cp\<close> Cons.prems(2)] .
  have l: "length (enc (conv cp)) = length (enc cp)" using conv_ok [OF \<open>cp_ok cp\<close>] by simp
  have s: "cstr m' ?pn (encs (c # cs))"
    using Cons.prems(3) cstr_mput_above [OF m'(1)] l by simp
  then have h: "holds_at m' ?pn (enc c)" "cstr m' (?pn + length (enc c)) (encs cs)"
    by (simp_all add: cstr_append)
  have "utf8codepoint m' ?pn = Some (c, ?pn + length (enc c))"
    using h(1) \<open>cp_ok c\<close> by (intro codepoint_enc) (simp_all add: cp_ok_def)
  then have "loop m p ?pn cp = loop m' ?pn (?pn + length (enc c)) c"
    using m'(2) \<open>cp \<noteq> 0\<close> by (simp add: loop_step)
  also have "\<dots> = mput m' ?pn (encs (map conv (c # cs)))"
    using Cons.prems(1) h by (intro Cons.IH) simp_all
  also have "\<dots> = mput m p (encs (map conv (cp # c # cs)))"
    using mput_app [OF m'(1), of ?pn] l by simp
  finally show ?case .
qed

lemma run_encs:
  assumes "list_all cp_ok cs" "cstr m p (encs cs)"
  shows "Option.bind (utf8codepoint m p) (\<lambda>(cp, pn). loop m p pn cp) = mput m p (encs (map conv cs))"
proof (cases cs)
  case Nil
  then have "utf8codepoint m p = Some (0, p + 1)" "p < length m"
    using assms(2) codepoint_1 [of m p 0] by (auto simp: mrd_Some_iff)
  then show ?thesis using Nil by (simp add: loop_0)
next
  case (Cons c cs')
  then have "cp_ok c" "holds_at m p (enc c)" using assms by (auto simp: cstr_append)
  then have "utf8codepoint m p = Some (c, p + length (enc c))"
    by (intro codepoint_enc) (simp_all add: cp_ok_def)
  then show ?thesis using loop_encs [of c cs' m p] assms Cons by (simp add: cstr_append)
qed

end

text \<open>No codepoint is both.\<close>

lemma lwr_or_upr: "utf8lwrcodepoint c = c \<or> utf8uprcodepoint c = c"
proof (rule ccontr)
  assume n: "\<not> ?thesis"
  show False
  proof (cases "even_pairs c \<or> odd_pairs c")
    case True
    then show ?thesis
      using n pairs_disjoint [of c] even_pairs_closed [of c] by (auto simp: lwr_cases upr_cases split: if_splits)
  next
    case False
    then show ?thesis
      using n upper_range_disjoint [of c] lwr_switchD(1,8) [of c] upr_switchD(1,8) [of c]
      by (auto simp: lwr_cases [of c] upr_cases [of c] split: if_splits option.splits)
  qed
qed
lemma not_both_cases: "\<not> (utf8islower c \<and> utf8isupper c)"
  using lwr_or_upr [of c] by (auto simp: utf8islower_def utf8isupper_def)

interpretation lwr_conv: case_conversion utf8lwrcodepoint utf8lwr_loop
proof unfold_locales
  show "utf8lwr_loop m p pn 0 = Some m" for m p pn
    by (simp add: utf8lwr_loop.simps [of m p pn 0])
qed (use lwr_ok in blast, subst utf8lwr_loop.simps, simp add: Let_def)

interpretation upr_conv: case_conversion utf8uprcodepoint utf8upr_loop
proof unfold_locales
  show "utf8upr_loop m p pn 0 = Some m" for m p pn
    by (simp add: utf8upr_loop.simps [of m p pn 0])
qed (use upr_ok in blast, subst utf8upr_loop.simps, simp add: Let_def)

text \<open>
  C23: \<open>utf8lwr\<close> and \<open>utf8upr\<close> on an encoded string replace it in place by the encoding of the
  converted codepoints, byte for byte of the same length: no byte outside of the string is
  written. Converting to one case forgets an earlier conversion to the other one, and no
  codepoint is both lower and upper case.
\<close>

theorem utf8_case_in_place:
  assumes "list_all cp_ok cs" "cstr m p (encs cs)"
  shows "utf8lwr m p = mput m p (encs (map utf8lwrcodepoint cs)) \<and>
    utf8upr m p = mput m p (encs (map utf8uprcodepoint cs)) \<and>
    length (encs (map utf8lwrcodepoint cs)) = length (encs cs) \<and>
    length (encs (map utf8uprcodepoint cs)) = length (encs cs) \<and>
    map utf8lwrcodepoint (map utf8uprcodepoint cs) = map utf8lwrcodepoint cs \<and>
    map utf8uprcodepoint (map utf8lwrcodepoint cs) = map utf8uprcodepoint cs \<and>
    list_all (\<lambda>c. \<not> (utf8islower c \<and> utf8isupper c)) cs"
proof -
  have "list_all (\<lambda>c. \<not> (utf8islower c \<and> utf8isupper c)) cs"
    using not_both_cases by (simp add: list_all_iff)
  then show ?thesis
    using lwr_conv.run_encs [OF assms] upr_conv.run_encs [OF assms]
      lwr_conv.encs_conv_length [OF assms(1)] upr_conv.encs_conv_length [OF assms(1)]
    by (simp add: utf8lwr_def utf8upr_def lwr_upr upr_lwr)
qed

theorem utf8_case_in_place_witness:
  "utf8lwr [0x41, 0xc3, 0x84, 0, 0x42] 0 = Some [0x61, 0xc3, 0xa4, 0, 0x42]"
proof -
  have a: "list_all cp_ok [0x41, 0xc4]" "cstr [0x41, 0xc3, 0x84, 0, 0x42] 0 (encs [0x41, 0xc4])"
    by (simp_all add: mrd_Some_iff enc_def cp_ok_def)
  have b: "utf8lwrcodepoint 0x41 = 0x61" "utf8lwrcodepoint 0xc4 = 0xe4" by code_simp+
  show ?thesis
    using utf8_case_in_place [OF a] by (simp add: b enc_def mput_def)
qed

text \<open>
  C22: what \<open>utf8catcodepoint\<close> writes is the UTF-8 encoding of the codepoint, of the size that
  \<open>utf8codepointsize\<close> announces (nothing when \<open>n\<close> is smaller), \<open>utf8codepoint\<close> reads it back and
  stops right behind it, and \<open>utf8len\<close> counts the codepoints of an encoded string.
\<close>

theorem utf8_codepoint_roundtrip:
  assumes "0 \<le> c" "c < 0x200000" "p + utf8codepointsize c \<le> length m"
    and "list_all cp_ok cs" "cstr t q (encs cs)"
  shows "(utf8codepointsize c \<le> n \<longrightarrow>
      (\<exists>m'. utf8catcodepoint m p c n = Some (m', Some (p + utf8codepointsize c)) \<and>
        mput m p (enc c) = Some m' \<and> utf8codepoint m' p = Some (c, p + utf8codepointsize c))) \<and>
    (n < utf8codepointsize c \<longrightarrow> utf8catcodepoint m p c n = Some (m, None)) \<and>
    utf8len t q = Some (length cs)"
proof -
  obtain m' where m': "mput m p (enc c) = Some m'"
    using assms(1,3) by (auto simp: mput_def codepointsize_enc)
  then have "utf8codepoint m' p = Some (c, p + length (enc c))"
    using codepoint_enc [OF assms(1,2)] mput_holds by blast
  then show ?thesis
    using m' assms by (auto simp: catcodepoint_enc codepointsize_enc utf8len_def utf8len_loop_encs)
qed

theorem utf8_codepoint_roundtrip_witness:
  "\<exists>m'. utf8catcodepoint [1, 2, 3, 4] 1 0x20ac 3 = Some (m', Some 4) \<and> utf8codepoint m' 1 = Some (0x20ac, 4)"
proof -
  show ?thesis
    using utf8_codepoint_roundtrip [of "0x20ac" 1 "[1, 2, 3, 4]" "[]" "[0]" 0 3]
    by (simp add: codepointsize_enc length_enc) blast
qed

end
