(* ===== verification/Utf8Text.thy ===== *)
theory Utf8Text
  imports Utf8Valid Utf8Case "HOL-Library.Sublist"
begin

text \<open>
  The string functions of \<open>utf8.h\<close> on encoded strings: copies, comparison, search and codepoint sets. The
  locale \<open>set_scan\<close> holds the inner loop that \<open>utf8cspn\<close>, \<open>utf8spn\<close> and \<open>utf8pbrk\<close> share.
\<close>

section \<open>Size and copies\<close>

lemma utf8size_loop_ok: "cstr m (p + i) s \<Longrightarrow> utf8size_loop m p i = Some (i + length s)"
proof (induction s arbitrary: i)
  case (Cons c s)
  then show ?case using Cons.IH [of "Suc i"] by (simp add: utf8size_loop.simps [of m p i])
qed (simp add: utf8size_loop.simps [of m p])

lemma utf8size_ok: "cstr m p s \<Longrightarrow> utf8size m p = Some (length s + 1)"
  using utf8size_loop_ok [of m p 0 s] by (simp add: utf8size_def)

lemma end_loop_ok: "cstr m d t \<Longrightarrow> end_loop m d = Some (d + length t)"
proof (induction t arbitrary: d)
  case (Cons c t)
  then show ?case using Cons.IH [of "Suc d"] by (simp add: end_loop.simps [of m d])
qed (simp add: end_loop.simps [of m])

lemma mput_Cons: "Option.bind (mput dst d [c]) (\<lambda>dst'. mput dst' (Suc d) xs) = mput dst d (c # xs)"
  using mput_append [of dst d "[c]" xs] by simp

lemma copy_loop_ok:
  "cstr m p s \<Longrightarrow> Option.bind (copy_loop dst d m p) (\<lambda>(dst, d). mwr dst d 0) = mput dst d (s @ [0])"
proof (induction s arbitrary: p d dst)
  case (Cons c s)
  then show ?case
    by (simp add: copy_loop.simps [of dst d m p] mwr_mput Option.bind_assoc mput_Cons)
next
  case Nil
  then show ?case by (simp add: copy_loop.simps [of dst d m p] mwr_mput)
qed

lemma utf8cpy_ok: "cstr m p s \<Longrightarrow> utf8cpy dst d m p = mput dst d (s @ [0])"
  by (simp add: utf8cpy_def copy_loop_ok)

lemma utf8cat_ok: "cstr dst d t \<Longrightarrow> cstr m p s \<Longrightarrow> utf8cat dst d m p = mput dst (d + length t) (s @ [0])"
  by (simp add: utf8cat_def copy_loop_ok end_loop_ok)

lemma dup_loop_ok:
  "cstr m (p + i) s \<Longrightarrow> Option.bind (dup_loop n m p i) (\<lambda>(n, b). Option.bind (mwr n b 0) k) =
   Option.bind (mput n i (s @ [0])) k"
proof (induction s arbitrary: i n)
  case (Cons c s)
  have "Option.bind (dup_loop n m p i) (\<lambda>(n, b). Option.bind (mwr n b 0) k) =
      Option.bind (mput n i [c]) (\<lambda>n'. Option.bind (mput n' (Suc i) (s @ [0])) k)"
    using Cons by (simp add: dup_loop.simps [of n m p i] mwr_mput Option.bind_assoc)
  then show ?case
    using mput_bind [of n i "[c]" "s @ [0]" k] by simp
next
  case Nil
  then show ?case by (simp add: dup_loop.simps [of n m p i] mwr_mput)
qed

text \<open>\<open>malloc\<close> returns a block of the size that is asked for.\<close>

definition malloc_ok :: "(nat \<Rightarrow> bytes option) \<Rightarrow> bool" where
  "malloc_ok malloc \<longleftrightarrow> (\<forall>n b. malloc n = Some b \<longrightarrow> length b = n)"

lemma mput_whole: "length b = length xs \<Longrightarrow> mput b 0 xs = Some xs"
  by (simp add: mput_def)

lemma utf8dup_ok:
  assumes "malloc_ok malloc" "cstr m p s"
  shows "utf8dup malloc m p = Some (case malloc (length s + 1) of None \<Rightarrow> None | Some _ \<Rightarrow> Some (s @ [0]))"
  using assms
  by (auto simp: utf8dup_def utf8size_ok malloc_ok_def mput_whole dup_loop_ok [of m p 0 s] split: option.split)

lemma ndup_end_ok: "cstr m (p + i) s \<Longrightarrow> i \<le> n \<Longrightarrow> ndup_end m p n i = Some (min n (i + length s))"
proof (induction s arbitrary: i)
  case (Cons c s)
  then show ?case using Cons.IH [of "Suc i"] by (auto simp: ndup_end.simps [of m p n i])
qed (auto simp: ndup_end.simps [of m p n])

lemma ndup_loop_ok:
  "cstr m (p + i) s \<Longrightarrow> Option.bind (ndup_loop b m p n i) (\<lambda>(b, j). Option.bind (mwr b j 0) k) =
   Option.bind (mput b i (take (n - i) s @ [0])) k"
proof (induction s arbitrary: i b)
  case (Cons c s)
  show ?case
  proof (cases "i < n")
    case True
    have "Option.bind (ndup_loop b m p n i) (\<lambda>(b, j). Option.bind (mwr b j 0) k) =
        Option.bind (mput b i [c]) (\<lambda>b'. Option.bind (mput b' (Suc i) (take (n - Suc i) s @ [0])) k)"
      using Cons True by (simp add: ndup_loop.simps [of b m p n i] mwr_mput Option.bind_assoc)
    moreover have "take (n - i) (c # s) = c # take (n - Suc i) s" using True by (simp add: take_Cons' )
    ultimately show ?thesis using mput_bind [of b i "[c]" "take (n - Suc i) s @ [0]" k] by simp
  next
    case False
    then show ?thesis using Cons by (simp add: ndup_loop.simps [of b m p n i] mwr_mput)
  qed
next
  case Nil
  then show ?case by (simp add: ndup_loop.simps [of b m p n i] mwr_mput)
qed

lemma utf8ndup_ok:
  assumes "malloc_ok malloc" "cstr m p s"
  shows "utf8ndup malloc m p n =
    Some (case malloc (min n (length s) + 1) of None \<Rightarrow> None | Some _ \<Rightarrow> Some (take n s @ [0]))"
proof -
  have "take (min n (length s)) s = take n s" by (simp add: min_def)
  then show ?thesis
    using assms ndup_end_ok [of m p 0 s n] ndup_loop_ok [of m p 0 s _ "min n (length s)"]
    by (auto simp: utf8ndup_def malloc_ok_def mput_whole ndup_loop_ok [of m p 0 s] split: option.split)
qed

lemma ncpy_fill_ok:
  "i \<le> n \<Longrightarrow> d + n \<le> length dst \<Longrightarrow> ncpy_fill dst d n i = mput dst (d + i) (replicate (n - i) 0)"
proof (induction "n - i" arbitrary: i dst)
  case (Suc k)
  then have "n - i = Suc (n - Suc i)" by simp
  moreover have "ncpy_fill dst d n i = Option.bind (mput dst (d + i) [0]) (\<lambda>dst'. ncpy_fill dst' d n (Suc i))"
    using Suc by (simp add: ncpy_fill.simps [of dst d n i] mwr_mput)
  moreover have "ncpy_fill dst' d n (Suc i) = mput dst' (d + Suc i) (replicate (n - Suc i) 0)"
    if "mput dst (d + i) [0] = Some dst'" for dst'
    using that Suc by (intro Suc.hyps(1)) (auto dest: mput_length)
  ultimately show ?case using mput_Cons [of dst "d + i" 0] by (simp cong: Option.bind_cong)
next
  case 0
  then show ?case by (subst ncpy_fill.simps) simp
qed

lemma take_zeros: "take k (x # replicate j x) = replicate (min k (Suc j)) x"
  using take_replicate [of k "Suc j" x] by (simp del: take_replicate)

lemma ncpy_ok:
  "cstr m (p + i) s \<Longrightarrow> i \<le> n \<Longrightarrow> d + n \<le> length dst \<Longrightarrow>
   Option.bind (ncpy_copy dst d m p n i) (\<lambda>(dst, j). ncpy_fill dst d n j) =
   mput dst (d + i) (take (n - i) (s @ replicate (n - i) 0))"
proof (induction s arbitrary: i dst)
  case (Cons c s)
  show ?case
  proof (cases "i < n")
    case True
    then have n: "n - i = Suc (n - Suc i)" by simp
    have "Option.bind (ncpy_copy dst d m p n i) (\<lambda>(dst, j). ncpy_fill dst d n j) =
        Option.bind (mput dst (d + i) [c])
          (\<lambda>dst'. Option.bind (ncpy_copy dst' d m p n (Suc i)) (\<lambda>(dst, j). ncpy_fill dst d n j))"
      using Cons.prems True by (simp add: ncpy_copy.simps [of dst d m p n i] mwr_mput Option.bind_assoc)
    moreover have "Option.bind (ncpy_copy dst' d m p n (Suc i)) (\<lambda>(dst, j). ncpy_fill dst d n j) =
        mput dst' (d + Suc i) (take (n - Suc i) (s @ replicate (n - Suc i) 0))"
      if "mput dst (d + i) [c] = Some dst'" for dst'
      using that Cons.prems True by (intro Cons.IH) (auto dest: mput_length)
    moreover have "take (n - i) ((c # s) @ replicate (n - i) 0) = c # take (n - Suc i) (s @ replicate (n - Suc i) 0)"
      unfolding n by (simp add: take_zeros min_def)
    ultimately show ?thesis using mput_Cons [of dst "d + i" c] by (simp cong: Option.bind_cong)
  next
    case False
    then show ?thesis using Cons.prems by (subst ncpy_copy.simps) (simp add: ncpy_fill_ok)
  qed
next
  case Nil
  show ?case
  proof (cases "i < n")
    case True
    then have "Option.bind (ncpy_copy dst d m p n i) (\<lambda>(dst, j). ncpy_fill dst d n j) =
        ncpy_fill (dst[d + i := 0]) d n i"
      using Nil by (simp add: ncpy_copy.simps [of dst d m p n i])
    also have "\<dots> = mput dst (d + i) (replicate (n - i) 0)"
      using Nil True by (auto simp: ncpy_fill_ok mput_def drop_update_cancel)
    finally show ?thesis by simp
  next
    case False
    then show ?thesis using Nil by (subst ncpy_copy.simps) (simp add: ncpy_fill_ok)
  qed
qed

lemma utf8ncpy_ok:
  "cstr m p s \<Longrightarrow> d + n \<le> length dst \<Longrightarrow>
   utf8ncpy dst d m p n = mput dst d (take n s @ replicate (n - length s) 0)"
  using ncpy_ok [of m p 0 s n d dst] by (simp add: utf8ncpy_def min_def)

text \<open>
  \<open>utf8ncat\<close> copies its first byte before it looks at the string or at \<open>n\<close>: on a string of at
  least one byte it appends at most \<open>n\<close> bytes, and \<open>n = 0\<close> counts down from \<open>2 ^ 64 - 1\<close>.
\<close>

lemma ncat_loop_ok:
  "cstr m p (c # s) \<Longrightarrow> Option.bind (ncat_loop dst d m p n) (\<lambda>(dst, d). mwr dst d 0) =
   mput dst d (take (Suc (unat (n - 1))) (c # s) @ [0])"
proof (induction s arbitrary: p d dst c n)
  case Nil
  then show ?case
    using mput_Cons [of dst d c "[0]"]
    by (simp add: ncat_loop.simps [of dst d m p n] mwr_mput Option.bind_assoc)
next
  case (Cons c' s)
  show ?case
  proof (cases "n - 1 = 0")
    case True
    then show ?thesis
      using Cons.prems mput_Cons [of dst d c "[0]"]
      by (subst ncat_loop.simps) (simp add: mwr_mput Option.bind_assoc)
  next
    case False
    have "Suc (unat (n - 1 - 1)) = unat (n - 1)"
      using unat_minus_one [OF False] unat_gt_0 [of "n - 1"] False by linarith
    then have IH: "Option.bind (ncat_loop dst' (Suc d) m (Suc p) (n - 1)) (\<lambda>(dst, d). mwr dst d 0) =
        mput dst' (Suc d) (take (unat (n - 1)) (c' # s) @ [0])" for dst'
      using Cons.IH [of "Suc p" c' dst' "Suc d" "n - 1"] Cons.prems by simp
    have "Option.bind (ncat_loop dst d m p n) (\<lambda>(dst, d). mwr dst d 0) =
        Option.bind (mput dst d [c]) (\<lambda>dst'. mput dst' (Suc d) (take (unat (n - 1)) (c' # s) @ [0]))"
      using Cons.prems False IH by (simp add: ncat_loop.simps [of dst d m p n] mwr_mput Option.bind_assoc)
    then show ?thesis using mput_Cons [of dst d c] by simp
  qed
qed

lemma utf8ncat_ok:
  assumes "cstr dst d t" "cstr m p s" "s \<noteq> []" "n \<noteq> 0"
  shows "utf8ncat dst d m p n = mput dst (d + length t) (take (unat n) s @ [0])"
proof -
  obtain c s' where s: "s = c # s'" using assms(3) by (cases s) auto
  have "Suc (unat (n - 1)) = unat n" using assms(4) by (simp add: unat_minus_one unat_gt_0)
  then show ?thesis
    using assms(1,2) ncat_loop_ok [of m p c s' dst "d + length t" n]
    by (simp add: utf8ncat_def end_loop_ok s)
qed

text \<open>
  the copying functions on NUL-terminated strings: \<open>utf8cpy\<close> writes the string and its
  terminator, \<open>utf8cat\<close> and \<open>utf8ncat\<close> (\<open>n\<close> and the source not empty) do so at the end of the
  destination string, \<open>utf8ncpy\<close> writes exactly \<open>n\<close> bytes, \<open>utf8dup\<close> and \<open>utf8ndup\<close> return a new
  block of exactly the size of the copy, or null when \<open>malloc\<close> does. Nothing else is written, and
  a destination that is too small is the only undefined case of the copies.
\<close>

theorem utf8_copies:
  assumes "cstr m p s" "cstr dst d t" "malloc_ok malloc"
  shows "utf8size m p = Some (length s + 1) \<and>
    utf8cpy dst d m p = mput dst d (s @ [0]) \<and>
    utf8cat dst d m p = mput dst (d + length t) (s @ [0]) \<and>
    (s \<noteq> [] \<longrightarrow> n \<noteq> 0 \<longrightarrow> utf8ncat dst d m p n = mput dst (d + length t) (take (unat n) s @ [0])) \<and>
    (e + k \<le> length dst \<longrightarrow> utf8ncpy dst e m p k = mput dst e (take k s @ replicate (k - length s) 0)) \<and>
    utf8dup malloc m p = Some (case malloc (length s + 1) of None \<Rightarrow> None | Some _ \<Rightarrow> Some (s @ [0])) \<and>
    utf8ndup malloc m p k =
      Some (case malloc (min k (length s) + 1) of None \<Rightarrow> None | Some _ \<Rightarrow> Some (take k s @ [0]))"
  using assms
  by (simp add: utf8size_ok utf8cpy_ok utf8cat_ok utf8ncat_ok utf8ncpy_ok utf8dup_ok utf8ndup_ok)

theorem utf8_copies_witness:
  "utf8cat [0x61, 0, 1, 2] 0 [0x62, 0] 0 = Some [0x61, 0x62, 0, 2] \<and>
   utf8ndup (\<lambda>n. Some (replicate n 0xcc)) [0x62, 0x63, 0] 0 1 = Some (Some [0x62, 0])"
proof -
  have a: "cstr [0x62, 0] 0 [0x62]" "cstr [0x61, 0, 1, 2] 0 [0x61]" "malloc_ok (\<lambda>n. Some (replicate n 0xcc))"
    "cstr [0x62, 0x63, 0] 0 [0x62, 0x63]"
    by (simp_all add: mrd_Some_iff malloc_ok_def)
  show ?thesis
    using utf8_copies [OF a(1-3)] utf8_copies [OF a(4,2,3), of 1 0 1] by (simp add: mput_def)
qed

section \<open>Order of encoded strings\<close>

text \<open>Lexicographic comparison, the reference for \<open>utf8cmp\<close>.\<close>

fun lex_cmp :: "'a :: linorder list \<Rightarrow> 'a list \<Rightarrow> int" where
  "lex_cmp [] [] = 0"
| "lex_cmp [] (y # ys) = -1"
| "lex_cmp (x # xs) [] = 1"
| "lex_cmp (x # xs) (y # ys) = (if x < y then -1 else if x > y then 1 else lex_cmp xs ys)"

lemma lex_cmp_swap: "lex_cmp xs ys = - lex_cmp ys xs"
  by (induction xs ys rule: lex_cmp.induct) auto

lemma lex_cmp_trans: "lex_cmp xs ys \<le> 0 \<Longrightarrow> lex_cmp ys zs \<le> 0 \<Longrightarrow> lex_cmp xs zs \<le> 0"
proof (induction xs ys arbitrary: zs rule: lex_cmp.induct)
  case (4 x xs y ys)
  then show ?case by (cases zs) (auto split: if_splits)
next
  case (2 y ys)
  then show ?case by (cases zs) auto
qed auto

lemma lex_cmp_0: "lex_cmp xs ys = 0 \<longleftrightarrow> xs = ys"
  by (induction xs ys rule: lex_cmp.induct) auto

lemma lex_cmp_append: "lex_cmp (xs @ ys) (xs @ zs) = lex_cmp ys zs"
  by (induction xs) auto

lemma utf8cmp_ok: "cstr m1 p s \<Longrightarrow> cstr m2 q t \<Longrightarrow> utf8cmp m1 p m2 q = Some (lex_cmp s t)"
proof (induction s t arbitrary: p q rule: lex_cmp.induct)
  case (4 x xs y ys)
  then show ?case by (auto simp: utf8cmp.simps [of m1 p m2 q])
qed (subst utf8cmp.simps, auto simp flip: word_neq_0_conv)+

lemma utf8ncmp_ok: "cstr m1 p s \<Longrightarrow> cstr m2 q t \<Longrightarrow> utf8ncmp m1 p m2 q n = Some (lex_cmp (take n s) (take n t))"
proof (induction s t arbitrary: p q n rule: lex_cmp.induct)
  case (4 x xs y ys)
  then show ?case by (subst utf8ncmp.simps) (auto simp: take_Cons')
qed (subst utf8ncmp.simps, auto simp: take_Cons' simp flip: word_neq_0_conv)+

text \<open>The order of the codepoints is the order of their encodings.\<close>

lemma lex_cmp_uint: "lex_cmp (xs :: bytes) ys = lex_cmp (map uint xs) (map uint ys)"
  by (induction xs ys rule: lex_cmp.induct) (auto simp: word_less_def)

lemma lex_cmp_less_append: "lex_cmp xs ys = -1 \<Longrightarrow> length xs \<le> length ys \<Longrightarrow> take (length xs) ys \<noteq> xs \<Longrightarrow>
    lex_cmp (xs @ us) (ys @ vs) = -1"
  by (induction xs ys rule: lex_cmp.induct) (auto split: if_splits)

text \<open>\<open>below xs ys\<close>: the first difference of the lists is inside of both, and is smaller in \<open>xs\<close>.\<close>

fun below :: "'a :: linorder list \<Rightarrow> 'a list \<Rightarrow> bool" where
  "below (x # xs) (y # ys) \<longleftrightarrow> x < y \<or> (x = y \<and> below xs ys)"
| "below _ _ \<longleftrightarrow> False"

lemma below_append: "below xs ys \<Longrightarrow> lex_cmp (xs @ us) (ys @ vs) = -1"
  by (induction xs ys rule: below.induct) auto

lemma below_uint: "below (map uint xs) (map uint ys) \<longleftrightarrow> below (xs :: bytes) ys"
  by (induction xs ys rule: below.induct) (auto simp: word_less_def word_uint_eq_iff)

lemma div_mod_less: "(c :: int) < d \<Longrightarrow> c div k < d div k \<or> c div k = d div k \<and> c mod k < d mod k" if "0 < k"
  using that zdiv_mono1 [of c d k] div_mult_mod_eq [of c k] div_mult_mod_eq [of d k]
  by (smt (verit, best))

lemma enc_first:
  assumes "0 \<le> c" "c < 0x200000"
  shows "\<exists>a t. enc c = a # t \<and> (if c < 0x80 then uint a < 128 else if c < 0x800 then 192 \<le> uint a \<and> uint a < 224
    else if c < 0x10000 then 224 \<le> uint a \<and> uint a < 240 else 240 \<le> uint a)"
  using assms
proof (cases rule: enc_shape)
  case (two a b)
  have "192 \<le> uint a \<and> uint a < 224" using two(4) digit_bounds(3) [OF assms(1) two(3)] by linarith
  then show ?thesis using two(1-3) by simp
next
  case (three a b d)
  have "224 \<le> uint a \<and> uint a < 240" using three(4) digit_bounds(2) [OF assms(1) three(3)] by linarith
  then show ?thesis using three(1-3) by simp
next
  case (four a b d e)
  have "240 \<le> uint a" using four(3) digit_bounds(1) [OF assms] by linarith
  then show ?thesis using four(1,2) by simp
qed simp

lemma below_digits:
  assumes "c < (d :: int)"
  shows "below [c div 64, c mod 64] [d div 64, d mod 64]"
    and "below [c div 4096, c div 64 mod 64, c mod 64] [d div 4096, d div 64 mod 64, d mod 64]"
    and "below [c div 262144, c div 4096 mod 64, c div 64 mod 64, c mod 64]
      [d div 262144, d div 4096 mod 64, d div 64 mod 64, d mod 64]"
proof -
  have s: "x div 4096 = x div 64 div 64" "x div 262144 = x div 64 div 64 div 64" for x :: int
    by (simp_all add: zdiv_zmult2_eq [symmetric])
  have l: "x div 64 < y div 64 \<or> x div 64 = y div 64 \<and> x mod 64 < y mod 64" if "x < y" for x y :: int
    using div_mod_less [of 64 x y] that by simp
  note 1 = l [OF assms] and 2 = l [of "c div 64" "d div 64"] and 3 = l [of "c div 64 div 64" "d div 64 div 64"]
  show "below [c div 64, c mod 64] [d div 64, d mod 64]"
    using 1 by auto
  show "below [c div 4096, c div 64 mod 64, c mod 64] [d div 4096, d div 64 mod 64, d mod 64]"
    unfolding s using 1 2 by (simp only: below.simps) metis
  show "below [c div 262144, c div 4096 mod 64, c div 64 mod 64, c mod 64]
      [d div 262144, d div 4096 mod 64, d div 64 mod 64, d mod 64]"
    unfolding s using 1 2 3 by (simp only: below.simps) metis
qed

lemma below_add: "below (x # xs) (y # ys) \<Longrightarrow> below ((k + x) # xs) ((k + (y :: int)) # ys)"
  by simp

lemma below_tails:
  "below [x, y] [x', y'] \<Longrightarrow> below [x, 128 + y] [x', 128 + (y' :: int)]"
  "below [x, y, z] [x', y', z'] \<Longrightarrow> below [x, 128 + y, 128 + z] [x', 128 + y', 128 + (z' :: int)]"
  "below [x, y, z, w] [x', y', z', w'] \<Longrightarrow>
    below [x, 128 + y, 128 + z, 128 + w] [x', 128 + y', 128 + z', 128 + (w' :: int)]"
  by simp_all

lemma enc_below:
  assumes "0 \<le> c" "c < d" "d < 0x200000"
  shows "below (enc c) (enc d)"
proof -
  have c: "0 \<le> c" "c < 0x200000" and d: "0 \<le> d" "d < 0x200000" using assms by simp_all
  consider "d < 0x80" | "0x80 \<le> c" "d < 0x800" | "0x800 \<le> c" "d < 0x10000" | "0x10000 \<le> c"
    | (different) "c < 0x80 \<and> 0x80 \<le> d \<or> c < 0x800 \<and> 0x800 \<le> d \<or> c < 0x10000 \<and> 0x10000 \<le> d"
    by linarith
  then have "below (map uint (enc c)) (map uint (enc d))"
  proof cases
    case 1
    then show ?thesis using enc_bytes [OF c] enc_bytes [OF d] assms by simp
  next
    case 2
    then have "map uint (enc c) = [192 + c div 64, 128 + c mod 64]" "map uint (enc d) = [192 + d div 64, 128 + d mod 64]"
      using enc_bytes [OF c] enc_bytes [OF d] assms(2) by simp_all
    then show ?thesis using below_digits(1) [OF assms(2)] by (metis below_add below_tails(1))
  next
    case 3
    then have "map uint (enc c) = [224 + c div 4096, 128 + c div 64 mod 64, 128 + c mod 64]"
      "map uint (enc d) = [224 + d div 4096, 128 + d div 64 mod 64, 128 + d mod 64]"
      using enc_bytes [OF c] enc_bytes [OF d] assms(2) by simp_all
    then show ?thesis using below_digits(2) [OF assms(2)] by (metis below_add below_tails(2))
  next
    case 4
    then have "map uint (enc c) = [240 + c div 262144, 128 + c div 4096 mod 64, 128 + c div 64 mod 64, 128 + c mod 64]"
      "map uint (enc d) = [240 + d div 262144, 128 + d div 4096 mod 64, 128 + d div 64 mod 64, 128 + d mod 64]"
      using enc_bytes [OF c] enc_bytes [OF d] assms(2) by simp_all
    then show ?thesis using below_digits(3) [OF assms(2)] by (metis below_add below_tails(3))
  next
    case different
    obtain a t b u where "enc c = a # t" "enc d = b # u" "uint a < uint b"
      using enc_first [OF c] enc_first [OF d] different by (auto split: if_splits)
    then show ?thesis by simp
  qed
  then show ?thesis by (simp add: below_uint)
qed

lemma lex_cmp_encs:
  "list_all cp_ok cs \<Longrightarrow> list_all cp_ok ds \<Longrightarrow> lex_cmp (encs cs) (encs ds) = lex_cmp cs ds"
proof (induction cs ds rule: lex_cmp.induct)
  case (2 d ds)
  then show ?case by (cases "enc d") auto
next
  case (3 c cs)
  then show ?case by (cases "enc c") auto
next
  case (4 c cs d ds)
  then have ok: "0 \<le> c" "c < 0x200000" "0 \<le> d" "d < 0x200000" by (auto simp: cp_ok_def)
  show ?case
  proof (cases c d rule: linorder_cases)
    case less
    then show ?thesis using below_append [OF enc_below [OF ok(1) less ok(4)]] by simp
  next
    case greater
    then have "lex_cmp (enc d @ encs ds) (enc c @ encs cs) = -1"
      using below_append [OF enc_below [OF ok(3) greater ok(2)]] by simp
    then show ?thesis
      using greater lex_cmp_swap [of "enc c @ encs cs" "enc d @ encs ds"] by simp
  next
    case equal
    then show ?thesis using 4 by (simp add: lex_cmp_append)
  qed
qed simp

lemma encs_inject: "list_all cp_ok cs \<Longrightarrow> list_all cp_ok ds \<Longrightarrow> encs cs = encs ds \<longleftrightarrow> cs = ds"
  using lex_cmp_encs [of cs ds] lex_cmp_0 [of "encs cs"] lex_cmp_0 [of cs] by metis

section \<open>\<open>utf8cmp\<close> as the comparison of an ordered container\<close>

definition cstr_cmp :: "bytes \<Rightarrow> bytes \<Rightarrow> int" where
  "cstr_cmp s t = (case utf8cmp (s @ [0]) 0 (t @ [0]) 0 of Some r \<Rightarrow> r | None \<Rightarrow> 0)"

lemma cstr_takeWhile: "cstr (s @ [0]) 0 (takeWhile (\<lambda>c. c \<noteq> 0) s)"
proof -
  have "cstr (pre @ s @ [0]) (length pre) (takeWhile (\<lambda>c. c \<noteq> 0) s)" for pre
  proof (induction s arbitrary: pre)
    case (Cons c s)
    then show ?case using Cons.IH [of "pre @ [c]"] by (auto simp: mrd_Some_iff nth_append)
  qed (simp add: mrd_Some_iff)
  from this [of "[]"] show ?thesis by simp
qed

lemma cstr_cmp_eq: "cstr_cmp s t = lex_cmp (takeWhile (\<lambda>c. c \<noteq> 0) s) (takeWhile (\<lambda>c. c \<noteq> 0) t)"
  by (simp add: cstr_cmp_def utf8cmp_ok [OF cstr_takeWhile cstr_takeWhile])

interpretation utf8_order: comparator cstr_cmp
proof
  show "0 < cstr_cmp x y \<longleftrightarrow> cstr_cmp y x < 0" for x y
    unfolding cstr_cmp_eq using lex_cmp_swap by (metis neg_less_0_iff_less)
  show "cstr_cmp x y \<le> 0 \<Longrightarrow> cstr_cmp y z \<le> 0 \<Longrightarrow> cstr_cmp x z \<le> 0" for x y z
    unfolding cstr_cmp_eq by (rule lex_cmp_trans)
qed

text \<open>
  C24: \<open>utf8cmp\<close> orders encoded strings as the lists of their codepoints are ordered
  lexicographically, \<open>utf8ncmp\<close> compares the first \<open>n\<close> bytes, and the result is a comparison in the
  sense of the containers: two strings compare equal only when they are equal, swapping the
  arguments changes the sign, and the order is transitive.
\<close>

theorem utf8cmp_codepoint_order:
  assumes "list_all cp_ok cs" "list_all cp_ok ds" "cstr m1 p (encs cs)" "cstr m2 q (encs ds)"
  shows "utf8cmp m1 p m2 q = Some (lex_cmp cs ds) \<and> (utf8cmp m1 p m2 q = Some 0 \<longleftrightarrow> cs = ds) \<and>
    utf8ncmp m1 p m2 q n = Some (lex_cmp (take n (encs cs)) (take n (encs ds))) \<and>
    utf8cmp m2 q m1 p = Some (- lex_cmp cs ds) \<and>
    (cstr_cmp s t \<le> 0 \<longrightarrow> cstr_cmp t u < 0 \<longrightarrow> cstr_cmp s u < 0)"
  using utf8cmp_ok [OF assms(3,4)] utf8cmp_ok [OF assms(4,3)] utf8ncmp_ok [OF assms(3,4)]
    lex_cmp_encs [OF assms(1,2)] lex_cmp_encs [OF assms(2,1)] lex_cmp_swap [of ds cs] lex_cmp_0 [of cs ds]
    utf8_order.cmp_le_less_trans
  by auto

theorem utf8cmp_codepoint_order_witness:
  "utf8cmp [0xef, 0xbf, 0xbd, 0] 0 [0xf0, 0x9f, 0x98, 0x80, 0] 0 = Some (-1)"
proof -
  have a: "list_all cp_ok [0xfffd]" "list_all cp_ok [0x1f600]"
    "cstr [0xef, 0xbf, 0xbd, 0] 0 (encs [0xfffd])" "cstr [0xf0, 0x9f, 0x98, 0x80, 0] 0 (encs [0x1f600])"
    by (simp_all add: mrd_Some_iff enc_def cp_ok_def)
  show ?thesis using utf8cmp_codepoint_order [OF a] by simp
qed

section \<open>Searching a string\<close>

lemma below_not_prefix: "below xs ys \<Longrightarrow> \<not> prefix (xs @ us) (ys @ vs) \<and> \<not> prefix (ys @ vs) (xs @ us)"
  by (induction xs ys rule: below.induct) auto

lemma prefix_encs:
  "list_all cp_ok ns \<Longrightarrow> list_all cp_ok hs \<Longrightarrow> prefix (encs ns) (encs hs) \<longleftrightarrow> prefix ns hs"
proof (induction ns arbitrary: hs)
  case (Cons n ns)
  show ?case
  proof (cases hs)
    case h: (Cons h hs')
    then have ok: "0 \<le> n" "n < 0x200000" "0 \<le> h" "h < 0x200000" using Cons.prems by (auto simp: cp_ok_def)
    show ?thesis
    proof (cases n h rule: linorder_cases)
      case less
      then show ?thesis using h below_not_prefix [OF enc_below [OF ok(1) less ok(4)]] by auto
    next
      case greater
      then show ?thesis using h below_not_prefix [OF enc_below [OF ok(3) greater ok(2)]] by auto
    next
      case equal
      then show ?thesis using h Cons by simp
    qed
  qed simp
qed simp

text \<open>The first suffix that satisfies a test.\<close>

primrec find_suffix :: "('a list \<Rightarrow> bool) \<Rightarrow> 'a list \<Rightarrow> nat option" where
  "find_suffix P [] = None"
| "find_suffix P (x # xs) = (if P (x # xs) then Some 0 else map_option Suc (find_suffix P xs))"

lemma find_suffix_Some:
  "find_suffix P xs = Some i \<Longrightarrow> i < length xs \<and> P (drop i xs) \<and> (\<forall>j < i. \<not> P (drop j xs))"
  by (induction xs arbitrary: i) (auto split: if_splits simp: less_Suc_eq_0_disj)

lemma find_suffix_None: "find_suffix P xs = None \<Longrightarrow> i < length xs \<Longrightarrow> \<not> P (drop i xs)"
  by (induction xs arbitrary: i) (auto split: if_splits simp: less_Suc_eq_0_disj)

text \<open>\<open>found p hs r\<close>: the address of the suffix number \<open>r\<close> of the encoded string at \<open>p\<close>.\<close>

definition found :: "nat \<Rightarrow> int list \<Rightarrow> nat option \<Rightarrow> nat option" where
  "found p hs r = map_option (\<lambda>i. p + length (encs (take i hs))) r"

lemma found_Cons: "found p (h # hs) (map_option Suc r) = found (p + length (enc h)) hs r"
  by (cases r) (simp_all add: found_def)

lemma found_first [simp]: "found p hs (Some 0) = Some p" "found p hs None = None"
  by (simp_all add: found_def)

lemma str_match_ok:
  "cstr hm h s \<Longrightarrow> cstr nm n t \<Longrightarrow>
   \<exists>k. str_match hm h nm n = Some (n + k) \<and> k \<le> length t \<and> (k = length t \<longleftrightarrow> prefix t s)"
proof (induction t arbitrary: h n s)
  case Nil
  then show ?case using cstr_mrd [of hm h s] by (simp add: str_match.simps [of hm h nm n])
next
  case (Cons c t)
  show ?case
  proof (cases "\<exists>s'. s = c # s'")
    case True
    then obtain s' where s: "s = c # s'" by blast
    obtain k where "str_match hm (Suc h) nm (Suc n) = Some (Suc n + k)" "k \<le> length t" "k = length t \<longleftrightarrow> prefix t s'"
      using Cons.IH [of "Suc h" s' "Suc n"] Cons.prems s by auto
    then show ?thesis
      using Cons.prems s by (intro exI [of _ "Suc k"]) (simp add: str_match.simps [of hm h nm n])
  next
    case False
    then have "mrd hm h = Some (next_byte s)" "next_byte s \<noteq> c" "\<not> prefix (c # t) s"
      using Cons.prems cstr_mrd by (cases s; auto)+
    then show ?thesis
      using Cons.prems by (intro exI [of _ 0]) (simp add: str_match.simps [of hm h nm n])
  qed
qed

lemma str_loop_ok:
  assumes "list_all cp_ok ns" "cstr nm n (encs ns)"
  shows "list_all cp_ok hs \<Longrightarrow> cstr hm h (encs hs) \<Longrightarrow>
    str_loop hm h nm n = Some (found h hs (find_suffix (prefix ns) hs))"
proof (induction hs arbitrary: h)
  case Nil
  then show ?case by (simp add: str_loop.simps [of hm h nm n])
next
  case (Cons c hs)
  have c: "cp_ok c" "0 \<le> c" "c < 0x200000" using Cons.prems(1) by (simp_all add: cp_ok_def)
  obtain a where a: "mrd hm h = Some a" "a \<noteq> 0"
    using Cons.prems(2) enc_nonzero [OF c(1)] by (cases "enc c") auto
  obtain k where k: "str_match hm h nm n = Some (n + k)" "k \<le> length (encs ns)"
      "k = length (encs ns) \<longleftrightarrow> prefix ns (c # hs)"
    using str_match_ok [OF Cons.prems(2) assms(2)] prefix_encs [OF assms(1) Cons.prems(1)] by blast
  have m: "mrd nm (n + k) = Some (if k < length (encs ns) then encs ns ! k else 0)"
    using cstr_mrd_nth [OF assms(2) k(2)] .
  have z: "encs ns ! k \<noteq> 0" if "k < length (encs ns)"
    using encs_nonzero [OF assms(1)] that nth_mem by fastforce
  have r: "utf8codepoint hm h = Some (c, h + length (enc c))" "cstr hm (h + length (enc c)) (encs hs)"
    using Cons.prems(2) codepoint_enc [OF c(2,3)] by (simp_all add: cstr_append)
  show ?case
  proof (cases "prefix ns (c # hs)")
    case True
    then show ?thesis using a k m by (simp add: str_loop.simps [of hm h nm n])
  next
    case False
    then have "k < length (encs ns)" using k(2,3) by simp
    then have "str_loop hm h nm n = str_loop hm (h + length (enc c)) nm n"
      using a k(1) m z r by (simp add: str_loop.simps [of hm h nm n])
    then show ?thesis using Cons.IH [OF _ r(2)] Cons.prems(1) False by (simp add: found_Cons)
  qed
qed

lemma utf8str_ok:
  assumes "list_all cp_ok ns" "cstr nm n (encs ns)" "list_all cp_ok hs" "cstr hm h (encs hs)"
  shows "utf8str hm h nm n = Some (if ns = [] then Some h else found h hs (find_suffix (prefix ns) hs))"
proof (cases ns)
  case (Cons c ns')
  then obtain a where "mrd nm n = Some a" "a \<noteq> 0"
    using assms(1,2) enc_nonzero [of c] by (cases "enc c") auto
  then show ?thesis using str_loop_ok assms Cons by (simp add: utf8str_def)
qed (use assms(2) in \<open>simp add: utf8str_def\<close>)

lemma utf8chr_ok:
  assumes "cp_ok c" "list_all cp_ok hs" "cstr m p (encs hs)"
  shows "utf8chr m p c = Some (found p hs (find_suffix (prefix [c]) hs))"
proof -
  have c: "0 \<le> c" "c < 0x200000" "c \<noteq> 0" using assms(1) by (simp_all add: cp_ok_def)
  have "cstr (chr_chars c) 0 (encs [c])"
    using cstr_literal [OF enc_nonzero [OF assms(1)], of "[]" "replicate (4 - length (enc c)) 0"]
      length_enc [of c] by (auto simp: chr_chars_enc [OF c(1,2)] eval_nat_numeral split: if_splits)
  then show ?thesis using utf8str_ok [of "[c]" "chr_chars c" 0 hs m p] assms c(3) by (simp add: utf8chr_def)
qed

section \<open>Comparing and searching without regard to case\<close>

text \<open>The codepoint that is read at the front of a string, and the rest of the string behind it.\<close>

definition head_cp :: "int list \<Rightarrow> int" where
  "head_cp cs = (case cs of [] \<Rightarrow> 0 | c # _ \<Rightarrow> c)"

definition rest_at :: "bytes \<Rightarrow> nat \<Rightarrow> int list \<Rightarrow> bool" where
  "rest_at m p cs \<longleftrightarrow> cs \<noteq> [] \<longrightarrow> cstr m p (encs (tl cs))"

lemma head_cp_simps [simp]: "head_cp [] = 0" "head_cp (c # cs) = c"
  by (simp_all add: head_cp_def)

lemma read_head:
  assumes "list_all cp_ok cs" "cstr m p (encs cs)"
  shows "\<exists>p'. utf8codepoint m p = Some (head_cp cs, p') \<and> rest_at m p' cs \<and>
    (cs \<noteq> [] \<longrightarrow> p' = p + length (enc (head_cp cs)))"
proof (cases cs)
  case Nil
  then show ?thesis using assms(2) codepoint_1 [of m p 0] by (simp add: rest_at_def)
next
  case (Cons c cs')
  then show ?thesis
    using assms codepoint_enc [of c m p] by (auto simp: rest_at_def cstr_append cp_ok_def)
qed

lemma lwr_eq_0: "utf8lwrcodepoint c = 0 \<longleftrightarrow> c = 0"
  using lwr_class [of c] by auto

fun case_cmp :: "int list \<Rightarrow> int list \<Rightarrow> int" where
  "case_cmp [] [] = 0"
| "case_cmp [] (d # ds) = -1"
| "case_cmp (c # cs) [] = 1"
| "case_cmp (c # cs) (d # ds) =
     (if utf8lwrcodepoint c = utf8lwrcodepoint d then case_cmp cs ds
      else if c < d then -1 else 1)"

lemma case_cmp_0: "case_cmp cs ds = 0 \<longleftrightarrow> map utf8lwrcodepoint cs = map utf8lwrcodepoint ds"
  by (induction cs ds rule: case_cmp.induct) auto

lemma utf8casecmp_ok:
  "list_all cp_ok cs \<Longrightarrow> list_all cp_ok ds \<Longrightarrow> cstr m1 p (encs cs) \<Longrightarrow> cstr m2 q (encs ds) \<Longrightarrow>
   utf8casecmp m1 p m2 q = Some (case_cmp cs ds)"
proof (induction cs ds arbitrary: p q rule: case_cmp.induct)
  case 1
  then show ?case
    using read_head [of "[]" m1 p] read_head [of "[]" m2 q] by (auto simp: utf8casecmp.simps [of m1 p m2 q])
next
  case (2 d ds)
  then have d: "cp_ok d" "0 < d" "utf8lwrcodepoint d \<noteq> 0" by (auto simp: cp_ok_def lwr_eq_0)
  show ?case
    using 2 d read_head [of "[]" m1 p] read_head [of "d # ds" m2 q]
    by (auto simp: utf8casecmp.simps [of m1 p m2 q])
next
  case (3 c cs)
  then have c: "cp_ok c" "0 < c" "utf8lwrcodepoint c \<noteq> 0" by (auto simp: cp_ok_def lwr_eq_0)
  show ?case
    using 3 c read_head [of "c # cs" m1 p] read_head [of "[]" m2 q]
    by (auto simp: utf8casecmp.simps [of m1 p m2 q])
next
  case (4 c cs d ds)
  obtain p' where p': "utf8codepoint m1 p = Some (c, p')" "cstr m1 p' (encs cs)"
    using read_head [of "c # cs" m1 p] 4 by (auto simp: rest_at_def)
  obtain q' where q': "utf8codepoint m2 q = Some (d, q')" "cstr m2 q' (encs ds)"
    using read_head [of "d # ds" m2 q] 4 by (auto simp: rest_at_def)
  have "c \<noteq> 0" "d \<noteq> 0" using 4 by (auto simp: cp_ok_def)
  then show ?case
    using p' q' 4 by (auto simp: utf8casecmp.simps [of m1 p m2 q] not_less)
qed

text \<open>\<open>utf8casestr\<close>\<close>

definition case_prefix :: "int list \<Rightarrow> int list \<Rightarrow> bool" where
  "case_prefix ns hs \<longleftrightarrow> prefix (map utf8lwrcodepoint ns) (map utf8lwrcodepoint hs)"

lemma cp_ok_nonzero: "cp_ok c \<Longrightarrow> c \<noteq> 0"
  by (simp add: cp_ok_def)

lemma casestr_match_ok:
  "list_all cp_ok hs \<Longrightarrow> list_all cp_ok ns \<Longrightarrow> rest_at hm h hs \<Longrightarrow> rest_at nm n ns \<Longrightarrow>
   \<exists>a b. casestr_match hm h nm n (head_cp hs) (head_cp ns) = Some (a, b) \<and>
     (b = 0 \<longleftrightarrow> case_prefix ns hs) \<and> (a = 0 \<longrightarrow> b \<noteq> 0 \<longrightarrow> length hs < length ns)"
proof (induction ns arbitrary: h n hs)
  case Nil
  then show ?case by (simp add: casestr_match.simps [of hm h nm n] case_prefix_def)
next
  case (Cons d ds)
  then have d: "d \<noteq> 0" "list_all cp_ok ds" by (auto dest: cp_ok_nonzero)
  show ?case
  proof (cases hs)
    case Nil
    then show ?thesis using d by (simp add: casestr_match.simps [of hm h nm n] case_prefix_def)
  next
    case hs: (Cons c cs)
    then have c: "c \<noteq> 0" "list_all cp_ok cs" using Cons.prems by (auto dest: cp_ok_nonzero)
    show ?thesis
    proof (cases "utf8lwrcodepoint c = utf8lwrcodepoint d")
      case True
      obtain h' where h': "utf8codepoint hm h = Some (head_cp cs, h')" "rest_at hm h' cs"
        using read_head [OF c(2), of hm h] Cons.prems(3) hs by (auto simp: rest_at_def)
      obtain n' where n': "utf8codepoint nm n = Some (head_cp ds, n')" "rest_at nm n' ds"
        using read_head [OF d(2), of nm n] Cons.prems(4) by (auto simp: rest_at_def)
      have "casestr_match hm h nm n c d = casestr_match hm h' nm n' (head_cp cs) (head_cp ds)"
        using c(1) d(1) True h'(1) n'(1) by (simp add: casestr_match.simps [of hm h nm n])
      moreover obtain a b where "casestr_match hm h' nm n' (head_cp cs) (head_cp ds) = Some (a, b)"
          "b = 0 \<longleftrightarrow> case_prefix ds cs" "a = 0 \<longrightarrow> b \<noteq> 0 \<longrightarrow> length cs < length ds"
        using Cons.IH [OF c(2) d(2) h'(2) n'(2)] by blast
      ultimately show ?thesis using True hs by (auto simp: case_prefix_def)
    next
      case False
      then show ?thesis
        using c(1) d(1) hs by (simp add: casestr_match.simps [of hm h nm n] case_prefix_def lwr_eq_0)
    qed
  qed
qed

lemma case_prefix_length: "case_prefix ns hs \<Longrightarrow> length ns \<le> length hs"
  unfolding case_prefix_def by (metis length_map prefix_length_le)

lemma find_suffix_short: "length hs < length ns \<Longrightarrow> find_suffix (case_prefix ns) hs = None"
  by (induction hs) (auto dest: case_prefix_length)

lemma casestr_loop_ok:
  assumes "list_all cp_ok ns" "cstr nm n (encs ns)" "ns \<noteq> []"
  shows "list_all cp_ok hs \<Longrightarrow> cstr hm h (encs hs) \<Longrightarrow>
    casestr_loop hm h nm n = Some (found h hs (find_suffix (case_prefix ns) hs))"
proof (induction hs arbitrary: h)
  case Nil
  have "head_cp ns \<noteq> 0" using assms(1,3) by (cases ns) (auto simp: cp_ok_def)
  then show ?case
    using Nil read_head [of "[]" hm h] read_head [OF assms(1,2)]
    by (auto simp: casestr_loop.simps [of hm h nm n] casestr_match.simps)
next
  case (Cons c hs)
  obtain h' where h': "utf8codepoint hm h = Some (c, h')" "rest_at hm h' (c # hs)" "h' = h + length (enc c)"
    using read_head [OF Cons.prems] by auto
  obtain n' where n': "utf8codepoint nm n = Some (head_cp ns, n')" "rest_at nm n' ns"
    using read_head [OF assms(1,2)] by auto
  obtain a b where ab: "casestr_match hm h' nm n' c (head_cp ns) = Some (a, b)"
      "b = 0 \<longleftrightarrow> case_prefix ns (c # hs)" "a = 0 \<longrightarrow> b \<noteq> 0 \<longrightarrow> length (c # hs) < length ns"
    using casestr_match_ok [OF Cons.prems(1) assms(1) h'(2) n'(2)] by auto
  have "cstr hm h' (encs hs)" using h'(2) by (simp add: rest_at_def)
  then have IH: "casestr_loop hm h' nm n = Some (found h' hs (find_suffix (case_prefix ns) hs))"
    using Cons by simp
  consider "case_prefix ns (c # hs)" | "\<not> case_prefix ns (c # hs)" "a = 0" | "\<not> case_prefix ns (c # hs)" "a \<noteq> 0"
    by blast
  then show ?case
  proof cases
    case 1
    then show ?thesis using h'(1) n'(1) ab by (simp add: casestr_loop.simps [of hm h nm n])
  next
    case 2
    then have "find_suffix (case_prefix ns) (c # hs) = None" using ab find_suffix_short by blast
    then show ?thesis
      using 2 h'(1) n'(1) ab by (simp add: casestr_loop.simps [of hm h nm n] del: find_suffix.simps)
  next
    case 3
    then show ?thesis
      using h'(1,3) n'(1) ab IH by (simp add: casestr_loop.simps [of hm h nm n] found_Cons)
  qed
qed

lemma utf8casestr_ok:
  assumes "list_all cp_ok ns" "cstr nm n (encs ns)" "list_all cp_ok hs" "cstr hm h (encs hs)"
  shows "utf8casestr hm h nm n = Some (if ns = [] then Some h else found h hs (find_suffix (case_prefix ns) hs))"
proof (cases ns)
  case (Cons c ns')
  then obtain a where "mrd nm n = Some a" "a \<noteq> 0"
    using assms(1,2) enc_nonzero [of c] by (cases "enc c") auto
  then show ?thesis using casestr_loop_ok assms Cons by (simp add: utf8casestr_def)
qed (use assms(2) in \<open>simp add: utf8casestr_def\<close>)

text \<open>
  C25: on encoded strings \<open>utf8str\<close> returns the address of the first codepoint of the haystack that
  the needle starts at (null when there is none), \<open>utf8casestr\<close> that of the first occurrence up to case; for an
  empty needle both return the haystack, also when this is empty. \<open>utf8chr\<close> returns the address of the first
  occurrence of a codepoint. The address of the codepoint \<open>i\<close> is that of the haystack plus the size of the first \<open>i\<close>
  encodings.
\<close>

theorem utf8_search:
  assumes "list_all cp_ok ns" "cstr nm n (encs ns)" "list_all cp_ok hs" "cstr hm h (encs hs)" "cp_ok c"
  shows "\<exists>r r' r''. utf8str hm h nm n = Some (map_option (\<lambda>i. h + length (encs (take i hs))) r) \<and>
    utf8casestr hm h nm n = Some (map_option (\<lambda>i. h + length (encs (take i hs))) r'') \<and>
    utf8chr hm h c = Some (map_option (\<lambda>i. h + length (encs (take i hs))) r') \<and>
    (if ns = [] then r = Some 0 \<and> r'' = Some 0
     else (case r of None \<Rightarrow> \<forall>i < length hs. \<not> prefix ns (drop i hs)
           | Some i \<Rightarrow> i < length hs \<and> prefix ns (drop i hs) \<and> (\<forall>j < i. \<not> prefix ns (drop j hs))) \<and>
       (case r'' of None \<Rightarrow> \<forall>i < length hs. \<not> case_prefix ns (drop i hs)
        | Some i \<Rightarrow> i < length hs \<and> case_prefix ns (drop i hs) \<and> (\<forall>j < i. \<not> case_prefix ns (drop j hs)))) \<and>
    (case r' of None \<Rightarrow> c \<notin> set hs
     | Some i \<Rightarrow> i < length hs \<and> hs ! i = c \<and> c \<notin> set (take i hs))"
proof -
  have F: "case find_suffix P hs of None \<Rightarrow> \<forall>i < length hs. \<not> P (drop i hs)
      | Some i \<Rightarrow> i < length hs \<and> P (drop i hs) \<and> (\<forall>j < i. \<not> P (drop j hs))" for P
    using find_suffix_Some [of P hs] find_suffix_None [of P hs] by (auto split: option.split)
  have one: "prefix [c] (drop i hs) \<longleftrightarrow> hs ! i = c" if "i < length hs" for i
    using that by (auto simp: Cons_nth_drop_Suc [symmetric])
  have C: "case find_suffix (prefix [c]) hs of None \<Rightarrow> c \<notin> set hs
      | Some i \<Rightarrow> i < length hs \<and> hs ! i = c \<and> c \<notin> set (take i hs)"
    using F [of "prefix [c]"] one
    by (auto split: option.splits simp: in_set_conv_nth)
  let ?r = "\<lambda>P. if ns = [] then Some 0 else find_suffix P hs"
  have fd: "found h hs x = map_option (\<lambda>i. h + length (encs (take i hs))) x" for x
    by (cases x) (simp_all add: found_def)
  show ?thesis
    using utf8str_ok [OF assms(1-4)] utf8chr_ok [OF assms(5,3,4)] utf8casestr_ok [OF assms(1-4)] C F [of "prefix ns"] F [of "case_prefix ns"]
    by (intro exI [of _ "?r (prefix ns)"] exI [of _ "find_suffix (prefix [c]) hs"] exI [of _ "?r (case_prefix ns)"])
      (simp add: fd)
qed

theorem utf8_search_witness:
  "utf8str [0xc3, 0xa4, 0x62, 0] 0 [0x62, 0] 0 = Some (Some 2) \<and> utf8str [0xc3, 0xa4, 0x62, 0] 0 [0] 0 = Some (Some 0)"
proof -
  have a: "list_all cp_ok [0x62]" "cstr [0x62, 0] 0 (encs [0x62])"
    "list_all cp_ok [0xe4, 0x62]" "cstr [0xc3, 0xa4, 0x62, 0] 0 (encs [0xe4, 0x62])" "cp_ok 0x62"
    "list_all cp_ok []" "cstr [0] 0 (encs [])"
    by (simp_all add: mrd_Some_iff enc_def cp_ok_def)
  let ?hs = "[0xe4, 0x62] :: int list"
  from utf8_search [OF a(1-5)] obtain r where
    r: "utf8str [0xc3, 0xa4, 0x62, 0] 0 [0x62, 0] 0 = Some (map_option (\<lambda>i. 0 + length (encs (take i ?hs))) r)"
      "case r of None \<Rightarrow> \<forall>i < length ?hs. \<not> prefix [0x62] (drop i ?hs)
       | Some i \<Rightarrow> i < length ?hs \<and> prefix [0x62] (drop i ?hs) \<and> (\<forall>j < i. \<not> prefix [0x62] (drop j ?hs))"
    unfolding if_not_P [OF not_Cons_self2 [of "0x62" "[]", symmetric]] by (elim exE conjE) (simp del: add_0)
  have "r = Some 1"
  proof (cases r)
    case None
    then have "\<not> prefix [0x62] (drop 1 ?hs)" using r(2) by (simp add: All_less_Suc)
    then show ?thesis by simp
  next
    case (Some i)
    then have "i = 0 \<or> i = 1" "prefix [0x62] (drop i ?hs)" using r(2) by auto
    then show ?thesis using Some by auto
  qed
  then have "utf8str [0xc3, 0xa4, 0x62, 0] 0 [0x62, 0] 0 = Some (Some 2)" using r(1) by (simp add: enc_def)
  then show ?thesis using utf8_search [OF a(6,7,3-5)] by auto
qed

text \<open>
  C27: \<open>utf8casecmp\<close> on encoded strings returns 0 exactly when the strings are equal up to case, but it
  is no order: a mismatch is decided by the codepoints before the conversion, so that \<open>"A"\<close> is
  below \<open>"_"\<close>, \<open>"_"\<close> below \<open>"a"\<close>, and \<open>"a"\<close> equal to \<open>"A"\<close>.
\<close>

theorem utf8casecmp_equality:
  assumes "list_all cp_ok cs" "list_all cp_ok ds" "cstr m1 p (encs cs)" "cstr m2 q (encs ds)"
  shows "(\<exists>r. utf8casecmp m1 p m2 q = Some r \<and>
      (r = 0 \<longleftrightarrow> map utf8lwrcodepoint cs = map utf8lwrcodepoint ds)) \<and>
    utf8casecmp [0x41, 0] 0 [0x5f, 0] 0 = Some (-1) \<and> utf8casecmp [0x5f, 0] 0 [0x61, 0] 0 = Some (-1) \<and>
    utf8casecmp [0x61, 0] 0 [0x41, 0] 0 = Some 0"
proof -
  have "utf8casecmp [0x41, 0] 0 [0x5f, 0] 0 = Some (-1)" "utf8casecmp [0x5f, 0] 0 [0x61, 0] 0 = Some (-1)"
    "utf8casecmp [0x61, 0] 0 [0x41, 0] 0 = Some 0"
    by code_simp+
  then show ?thesis using utf8casecmp_ok [OF assms] case_cmp_0 by blast
qed

theorem utf8casecmp_equality_witness:
  "\<exists>r. utf8casecmp [0xc3, 0x84, 0] 0 [0xc3, 0xa4, 0] 0 = Some r \<and>
    (r = 0 \<longleftrightarrow> map utf8lwrcodepoint [0xc4] = map utf8lwrcodepoint [0xe4])"
proof -
  have a: "list_all cp_ok [0xc4]" "list_all cp_ok [0xe4]" "cstr [0xc3, 0x84, 0] 0 (encs [0xc4])"
    "cstr [0xc3, 0xa4, 0] 0 (encs [0xe4])"
    by (simp_all add: mrd_Some_iff enc_def cp_ok_def)
  show ?thesis using utf8casecmp_equality [OF a] by blast
qed

section \<open>Sets of codepoints: \<open>utf8cspn\<close>, \<open>utf8spn\<close>, \<open>utf8pbrk\<close>\<close>
















text \<open>
  calls of \<open>utf8.h\<close> that leave their strings: \<open>utf8rchr\<close> compares the terminator of the string
  with the NULs that pad its search characters, so a match at the end of the string reads behind
  it, and finds matches there; \<open>utf8ncat\<close> copies the terminator of an empty source and goes on
  reading behind it; \<open>utf8len\<close>, which does not look at continuation bytes, steps over the
  terminator of a truncated sequence; \<open>utf8ncasecmp\<close> counts 4 bytes for a stray byte, so its
  count wraps and it compares more than \<open>n\<close> bytes.
\<close>

theorem utf8_overruns:
  "utf8rchr [0x61, 0] 0 0x61 = None \<and> utf8rchr [0x61, 0, 0x61, 0x62, 0] 0 0x61 = Some (Some 2) \<and>
   utf8ncat [0x62, 0, 0, 0] 0 [0] 0 1 = None \<and> utf8len [0xc3, 0] 0 = None \<and>
   utf8ncasecmp [0x80, 0x61, 0] 0 [0x80, 0x62, 0] 0 1 = Some (-1)"
proof (intro conjI)
  show "utf8rchr [0x61, 0] 0 0x61 = None" "utf8rchr [0x61, 0, 0x61, 0x62, 0] 0 0x61 = Some (Some 2)"
    by code_simp+
  show "utf8ncat [0x62, 0, 0, 0] 0 [0] 0 1 = None" "utf8len [0xc3, 0] 0 = None"
    by code_simp+
  show "utf8ncasecmp [0x80, 0x61, 0] 0 [0x80, 0x62, 0] 0 1 = Some (-1)"
    by code_simp
qed

end
