(* ===== verification/Bstr.thy ===== *)
theory Bstr
  imports CPrelude
begin

text \<open>
  The byte strings of \<open>libs/bstrlib/bstrlib.c\<close>. Memory is a store of blocks of bytes and a store of
  \<open>struct tagbstring\<close> headers; a pointer is a block and an offset, so that a string may refer to
  the inside of another one's block, and two arguments may be the same string. A byte that was
  never written is \<open>None\<close>, and reading it is undefined. \<open>realloc\<close> always moves the block: a
  pointer into the old block is dangling afterwards. Signed overflow is undefined (\<open>cint\<close>).
  Pointers into different blocks are taken to be unequal and out of each other's range.
\<close>

section \<open>Memory\<close>

type_synonym cell = "u8 option"
type_synonym ptr = "nat \<times> nat"
type_synonym bstring = "nat option"

record bhdr =
  b_mlen :: int
  b_slen :: int
  b_data :: "ptr option"

record bmem =
  bm_hdr :: "nat \<Rightarrow> bhdr option"
  bm_blk :: "nat \<Rightarrow> cell list option"
  bm_next :: nat
  bm_alloc :: alloc

definition hdr_of :: "bmem \<Rightarrow> bstring \<Rightarrow> bhdr option" where
  "hdr_of h b = Option.bind b (bm_hdr h)"

definition set_hdr :: "bmem \<Rightarrow> bstring \<Rightarrow> bhdr \<Rightarrow> bmem option" where
  "set_hdr h b bh = do {
     i \<leftarrow> b;
     _ \<leftarrow> bm_hdr h i;
     Some (h\<lparr>bm_hdr := (bm_hdr h)(i \<mapsto> bh)\<rparr>)
   }"

definition rdn :: "bmem \<Rightarrow> ptr option \<Rightarrow> int \<Rightarrow> int \<Rightarrow> cell list option" where
  "rdn h p i n = do {
     (k, off) \<leftarrow> p;
     m \<leftarrow> bm_blk h k;
     if 0 \<le> i \<and> 0 \<le> n then mget m (off + nat i) (nat n) else None
   }"

definition wrn :: "bmem \<Rightarrow> ptr option \<Rightarrow> int \<Rightarrow> cell list \<Rightarrow> bmem option" where
  "wrn h p i cs = do {
     (k, off) \<leftarrow> p;
     m \<leftarrow> bm_blk h k;
     m \<leftarrow> if 0 \<le> i then mput m (off + nat i) cs else None;
     Some (h\<lparr>bm_blk := (bm_blk h)(k \<mapsto> m)\<rparr>)
   }"

definition rdb :: "bmem \<Rightarrow> ptr option \<Rightarrow> int \<Rightarrow> u8 option" where
  "rdb h p i = do {
     cs \<leftarrow> rdn h p i 1;
     hd cs
   }"

definition wrb :: "bmem \<Rightarrow> ptr option \<Rightarrow> int \<Rightarrow> u8 \<Rightarrow> bmem option" where
  "wrb h p i c = wrn h p i [Some c]"

definition memmove :: "bmem \<Rightarrow> ptr option \<Rightarrow> int \<Rightarrow> ptr option \<Rightarrow> int \<Rightarrow> int \<Rightarrow> bmem option" where
  "memmove h d di s si n = do {
     cs \<leftarrow> rdn h s si n;
     wrn h d di cs
   }"

text \<open>\<open>memcpy\<close> is undefined when the two ranges overlap.\<close>

definition overlap :: "ptr option \<Rightarrow> int \<Rightarrow> ptr option \<Rightarrow> int \<Rightarrow> int \<Rightarrow> bool" where
  "overlap d di s si n = (case (d, s) of
     (Some (k, off), Some (k', off')) \<Rightarrow>
       k = k' \<and> int off + di < int off' + si + n \<and> int off' + si < int off + di + n
   | _ \<Rightarrow> False)"

definition memcpy :: "bmem \<Rightarrow> ptr option \<Rightarrow> int \<Rightarrow> ptr option \<Rightarrow> int \<Rightarrow> int \<Rightarrow> bmem option" where
  "memcpy h d di s si n = (if overlap d di s si n then None else memmove h d di s si n)"

definition bBlockCopy :: "bmem \<Rightarrow> ptr option \<Rightarrow> int \<Rightarrow> ptr option \<Rightarrow> int \<Rightarrow> int \<Rightarrow> bmem option" where
  "bBlockCopy h d di s si l = (if 0 < l then memmove h d di s si l else Some h)"

definition bm_malloc :: "int \<Rightarrow> bmem \<Rightarrow> ptr option \<times> bmem" where
  "bm_malloc n h =
     (let (ok, al) = alloc_next (bm_alloc h) in
      if ok then (Some (bm_next h, 0),
        h\<lparr>bm_blk := (bm_blk h)(bm_next h \<mapsto> replicate (nat n) None), bm_next := bm_next h + 1, bm_alloc := al\<rparr>)
      else (None, h\<lparr>bm_alloc := al\<rparr>))"

definition bm_free :: "ptr option \<Rightarrow> bmem \<Rightarrow> bmem option" where
  "bm_free p h = (case p of None \<Rightarrow> Some h
   | Some (k, off) \<Rightarrow> do {
       _ \<leftarrow> bm_blk h k;
       if off = 0 then Some (h\<lparr>bm_blk := (bm_blk h)(k := None)\<rparr>) else None
     })"

definition bm_realloc :: "ptr option \<Rightarrow> int \<Rightarrow> bmem \<Rightarrow> (ptr option \<times> bmem) option" where
  "bm_realloc p n h = do {
     (k, off) \<leftarrow> p;
     m \<leftarrow> bm_blk h k;
     if off \<noteq> 0 then None
     else let (ok, al) = alloc_next (bm_alloc h) in
       Some (if ok then (Some (bm_next h, 0),
           h\<lparr>bm_blk := (bm_blk h)(k := None, bm_next h \<mapsto> take (nat n) m @ replicate (nat n - length m) None),
             bm_next := bm_next h + 1, bm_alloc := al\<rparr>)
         else (None, h\<lparr>bm_alloc := al\<rparr>))
   }"

text \<open>A new header; the code assigns its fields before it reads them.\<close>

definition new_hdr :: "bmem \<Rightarrow> bstring \<times> bmem" where
  "new_hdr h =
     (let (ok, al) = alloc_next (bm_alloc h) in
      if ok then (Some (bm_next h),
        h\<lparr>bm_hdr := (bm_hdr h)(bm_next h \<mapsto> \<lparr>b_mlen = 0, b_slen = 0, b_data = None\<rparr>),
          bm_next := bm_next h + 1, bm_alloc := al\<rparr>)
      else (None, h\<lparr>bm_alloc := al\<rparr>))"

definition free_hdr :: "bstring \<Rightarrow> bmem \<Rightarrow> bmem option" where
  "free_hdr b h = do {
     i \<leftarrow> b;
     _ \<leftarrow> bm_hdr h i;
     Some (h\<lparr>bm_hdr := (bm_hdr h)(i := None)\<rparr>)
   }"

text \<open>\<open>strlen\<close> of the C string at an offset of a block.\<close>

fun cells_strlen :: "cell list \<Rightarrow> nat option" where
  "cells_strlen [] = None"
| "cells_strlen (None # cs) = None"
| "cells_strlen (Some c # cs) = (if c = 0 then Some 0 else map_option Suc (cells_strlen cs))"

definition bm_strlen :: "bmem \<Rightarrow> ptr option \<Rightarrow> int \<Rightarrow> int option" where
  "bm_strlen h p i = do {
     (k, off) \<leftarrow> p;
     m \<leftarrow> bm_blk h k;
     n \<leftarrow> if 0 \<le> i then cells_strlen (drop (off + nat i) m) else None;
     Some (int n)
   }"

section \<open>Character classes of the C locale\<close>

definition c_tolower :: "u8 \<Rightarrow> u8" where
  "c_tolower c = (if 0x41 \<le> c \<and> c \<le> 0x5a then c + 0x20 else c)"

definition c_toupper :: "u8 \<Rightarrow> u8" where
  "c_toupper c = (if 0x61 \<le> c \<and> c \<le> 0x7a then c - 0x20 else c)"

definition c_isspace :: "u8 \<Rightarrow> bool" where
  "c_isspace c \<longleftrightarrow> c = 0x20 \<or> 0x09 \<le> c \<and> c \<le> 0x0d"

section \<open>Allocation\<close>

definition BSTR_OK :: int where "BSTR_OK = 0"
definition BSTR_ERR :: int where "BSTR_ERR = -1"
definition SHRT_MIN :: int where "SHRT_MIN = -32768"
definition UCHAR_MAX :: int where "UCHAR_MAX = 255"

definition snapUpSize :: "int \<Rightarrow> int" where
  "snapUpSize i =
     (if i < 8 then 8
      else
        let j = word_of_int i :: u32;
          j = j OR drop_bit 1 j;
          j = j OR drop_bit 2 j;
          j = j OR drop_bit 4 j;
          j = j OR drop_bit 8 j;
          j = j OR drop_bit 16 j;
          j = j + 1
        in if sint j \<ge> i then sint j else i)"

text \<open>The test of a string header that most functions begin with.\<close>

definition bad_hdr :: "bhdr \<Rightarrow> bool" where
  "bad_hdr bh \<longleftrightarrow> b_data bh = None \<or> b_slen bh < 0 \<or> b_mlen bh < b_slen bh \<or> b_mlen bh \<le> 0"

text \<open>From the label \<open>reallocStrategy\<close> of \<open>balloc\<close>: the new block and its size.\<close>

definition reallocStrategy :: "ptr option \<Rightarrow> int \<Rightarrow> int \<Rightarrow> bmem \<Rightarrow> (ptr option \<times> int \<times> bmem) option" where
  "reallocStrategy p len olen h = do {
     (x, h) \<leftarrow> bm_realloc p len h;
     if x = None then do {
       (x, h) \<leftarrow> bm_realloc p olen h;
       Some (x, olen, h)
     } else Some (x, len, h)
   }"

definition balloc :: "bstring \<Rightarrow> int \<Rightarrow> bmem \<Rightarrow> (int \<times> bmem) option" where
  "balloc b olen h =
     (if b = None then Some (BSTR_ERR, h)
      else do {
        bh \<leftarrow> hdr_of h b;
        if bad_hdr bh \<or> olen \<le> 0 then Some (BSTR_ERR, h)
        else if olen \<ge> b_mlen bh then
          let len = snapUpSize olen in
          if len \<le> b_mlen bh then Some (BSTR_OK, h)
          else do {
            m7 \<leftarrow> cint (7 * b_mlen bh);
            s8 \<leftarrow> cint (8 * b_slen bh);
            (x, len, h) \<leftarrow>
              if m7 < s8 then reallocStrategy (b_data bh) len olen h
              else
                let (x, h) = bm_malloc len h in
                if x = None then reallocStrategy (b_data bh) len olen h
                else do {
                  h \<leftarrow> if b_slen bh \<noteq> 0 then memcpy h x 0 (b_data bh) 0 (b_slen bh) else Some h;
                  h \<leftarrow> bm_free (b_data bh) h;
                  Some (x, len, h)
                };
            if x = None then Some (BSTR_ERR, h)
            else do {
              h \<leftarrow> set_hdr h b (bh\<lparr>b_data := x, b_mlen := len\<rparr>);
              h \<leftarrow> wrb h x (b_slen bh) 0;
              Some (BSTR_OK, h)
            }
          }
        else Some (BSTR_OK, h)
      })"

definition ballocmin :: "bstring \<Rightarrow> int \<Rightarrow> bmem \<Rightarrow> (int \<times> bmem) option" where
  "ballocmin b len h =
     (if b = None then Some (BSTR_ERR, h)
      else do {
        bh \<leftarrow> hdr_of h b;
        if b_data bh = None then Some (BSTR_ERR, h)
        else if b_slen bh \<ge> INT_MAX \<or> b_slen bh < 0 then Some (BSTR_ERR, h)
        else if b_mlen bh \<le> 0 \<or> b_mlen bh < b_slen bh \<or> len \<le> 0 then Some (BSTR_ERR, h)
        else
          let len = (if len < b_slen bh + 1 then b_slen bh + 1 else len) in
          if len \<noteq> b_mlen bh then do {
            (s, h) \<leftarrow> bm_realloc (b_data bh) len h;
            if s = None then Some (BSTR_ERR, h)
            else do {
              h \<leftarrow> wrb h s (b_slen bh) 0;
              h \<leftarrow> set_hdr h b (bh\<lparr>b_data := s, b_mlen := len\<rparr>);
              Some (BSTR_OK, h)
            }
          } else Some (BSTR_OK, h)
      })"

section \<open>Creation and destruction\<close>

definition bdestroy :: "bstring \<Rightarrow> bmem \<Rightarrow> (int \<times> bmem) option" where
  "bdestroy b h =
     (if b = None then Some (BSTR_ERR, h)
      else do {
        bh \<leftarrow> hdr_of h b;
        if bad_hdr bh then Some (BSTR_ERR, h)
        else do {
          h \<leftarrow> bm_free (b_data bh) h;
          h \<leftarrow> set_hdr h b \<lparr>b_mlen = -1081, b_slen = -1, b_data = None\<rparr>;
          h \<leftarrow> free_hdr b h;
          Some (BSTR_OK, h)
        }
      })"

definition bfromcstr :: "ptr option \<Rightarrow> bmem \<Rightarrow> (bstring \<times> bmem) option" where
  "bfromcstr str h =
     (if str = None then Some (None, h)
      else do {
        j \<leftarrow> bm_strlen h str 0;
        i \<leftarrow> cint (j + (2 - (if j \<noteq> 0 then 1 else 0)));
        let i = snapUpSize i;
        if i \<le> j then Some (None, h)
        else let (b, h) = new_hdr h in
          if b = None then Some (None, h)
          else let (d, h) = bm_malloc i h in
            if d = None then do {
              h \<leftarrow> free_hdr b h;
              Some (None, h)
            } else do {
              h \<leftarrow> set_hdr h b \<lparr>b_mlen = i, b_slen = j, b_data = d\<rparr>;
              h \<leftarrow> memcpy h d 0 str 0 (j + 1);
              Some (b, h)
            }
      })"

text \<open>The allocation loop of \<open>bfromcstrrangealloc\<close>: the block and its size, or null.\<close>

function rangealloc_loop :: "int \<Rightarrow> int \<Rightarrow> bmem \<Rightarrow> ptr option \<times> int \<times> bmem" where
  "rangealloc_loop minl i h =
     (let (d, h) = bm_malloc i h in
      if d \<noteq> None then (d, i, h)
      else let k = drop_bit 1 i + drop_bit 1 minl in
        if i = k \<or> i < minl then (None, i, h) else rangealloc_loop minl k h)"
  by pat_completeness auto
termination
  by (relation "measure (\<lambda>(minl, i, h). nat (i - minl + 1))") (auto simp: drop_bit_eq_div)

definition bfromcstrrangealloc :: "int \<Rightarrow> int \<Rightarrow> ptr option \<Rightarrow> bmem \<Rightarrow> (bstring \<times> bmem) option" where
  "bfromcstrrangealloc minl maxl str h =
     (if str = None then Some (None, h)
      else if maxl < minl \<or> minl < 0 then Some (None, h)
      else do {
        j \<leftarrow> bm_strlen h str 0;
        let minl = (if minl < j + 1 then j + 1 else minl);
        minl \<leftarrow> cint minl;
        let maxl = (if maxl < minl then minl else maxl);
        let (b, h) = new_hdr h;
        if b = None then Some (None, h)
        else
          let (d, i, h) = rangealloc_loop minl maxl h in
          if d = None then do {
            h \<leftarrow> free_hdr b h;
            Some (None, h)
          } else do {
            h \<leftarrow> set_hdr h b \<lparr>b_mlen = i, b_slen = j, b_data = d\<rparr>;
            h \<leftarrow> memcpy h d 0 str 0 (j + 1);
            Some (b, h)
          }
      })"

definition bfromcstralloc :: "int \<Rightarrow> ptr option \<Rightarrow> bmem \<Rightarrow> (bstring \<times> bmem) option" where
  "bfromcstralloc mlen str h = bfromcstrrangealloc mlen mlen str h"

text \<open>The block is given by a pointer and an offset, as \<open>b->data + left\<close> is.\<close>

definition blk2bstr :: "ptr option \<Rightarrow> int \<Rightarrow> int \<Rightarrow> bmem \<Rightarrow> (bstring \<times> bmem) option" where
  "blk2bstr p off len h =
     (if p = None \<or> len < 0 then Some (None, h)
      else
        let (b, h) = new_hdr h in
        if b = None then Some (None, h)
        else do {
          i \<leftarrow> cint (len + (2 - (if len \<noteq> 0 then 1 else 0)));
          let i = snapUpSize i;
          let (d, h) = bm_malloc i h;
          if d = None then do {
            h \<leftarrow> free_hdr b h;
            Some (None, h)
          } else do {
            h \<leftarrow> set_hdr h b \<lparr>b_mlen = i, b_slen = len, b_data = d\<rparr>;
            h \<leftarrow> if len > 0 then memcpy h d 0 p off len else Some h;
            h \<leftarrow> wrb h d len 0;
            Some (b, h)
          }
        })"

function bstr2cstr_loop :: "ptr option \<Rightarrow> ptr option \<Rightarrow> u8 \<Rightarrow> int \<Rightarrow> int \<Rightarrow> bmem \<Rightarrow> bmem option" where
  "bstr2cstr_loop r d z i l h =
     (if i < l then do {
        c \<leftarrow> rdb h d i;
        h' \<leftarrow> wrb h r i (if c = 0 then z else c);
        bstr2cstr_loop r d z (i + 1) l h'
      } else Some h)"
  by pat_completeness auto
termination by (relation "measure (\<lambda>(r, d, z, i, l, h). nat (l - i))") auto

definition bstr2cstr :: "bstring \<Rightarrow> u8 \<Rightarrow> bmem \<Rightarrow> (ptr option \<times> bmem) option" where
  "bstr2cstr b z h =
     (if b = None then Some (None, h)
      else do {
        bh \<leftarrow> hdr_of h b;
        if b_slen bh < 0 \<or> b_data bh = None then Some (None, h)
        else do {
          let l = b_slen bh;
          n \<leftarrow> cint (l + 1);
          let (r, h) = bm_malloc n h;
          if r = None then Some (r, h)
          else do {
            h \<leftarrow> bstr2cstr_loop r (b_data bh) z 0 l h;
            h \<leftarrow> wrb h r l 0;
            Some (r, h)
          }
        }
      })"

definition bcstrfree :: "ptr option \<Rightarrow> bmem \<Rightarrow> (int \<times> bmem) option" where
  "bcstrfree s h =
     (if s \<noteq> None then do {
        h \<leftarrow> bm_free s h;
        Some (BSTR_OK, h)
      } else Some (BSTR_ERR, h))"

text \<open>The two attempts to get a block for the copy: the block and its size.\<close>

definition bstrcpy_block :: "int \<Rightarrow> int \<Rightarrow> bmem \<Rightarrow> ptr option \<times> int \<times> bmem" where
  "bstrcpy_block i1 j h =
     (let (d, h) = bm_malloc j h in
      if d = None then let (d, h) = bm_malloc i1 h in (d, i1, h) else (d, j, h))"

definition bstrcpy :: "bstring \<Rightarrow> bmem \<Rightarrow> (bstring \<times> bmem) option" where
  "bstrcpy b h =
     (if b = None then Some (None, h)
      else do {
        bh \<leftarrow> hdr_of h b;
        if b_slen bh < 0 \<or> b_data bh = None then Some (None, h)
        else do {
          let (b0, h) = new_hdr h;
          if b0 = None then Some (None, h)
          else do {
            let i = b_slen bh;
            i1 \<leftarrow> cint (i + 1);
            let j = snapUpSize i1;
            let (d, j, h) = bstrcpy_block i1 j h;
            if d = None then do {
              h \<leftarrow> free_hdr b0 h;
              Some (None, h)
            } else do {
              h \<leftarrow> set_hdr h b0 \<lparr>b_mlen = j, b_slen = i, b_data = d\<rparr>;
              h \<leftarrow> if i \<noteq> 0 then memcpy h d 0 (b_data bh) 0 i else Some h;
              h \<leftarrow> wrb h d i 0;
              Some (b0, h)
            }
          }
        }
      })"

section \<open>Concatenation\<close>

text \<open>\<open>0 <= pd && pd < n\<close> for the distance \<open>pd\<close> of two data pointers.\<close>

definition ptr_within :: "ptr option \<Rightarrow> ptr option \<Rightarrow> int \<Rightarrow> bool" where
  "ptr_within p q n = (case (p, q) of
     (Some (k, off), Some (k', off')) \<Rightarrow> k = k' \<and> off' \<le> off \<and> int off - int off' < n
   | _ \<Rightarrow> False)"

text \<open>The copy that the functions make of an argument that lies in the destination is freed again.\<close>

definition drop_aux :: "bstring \<Rightarrow> bstring \<Rightarrow> bmem \<Rightarrow> bmem option" where
  "drop_aux aux b h = (if aux \<noteq> b then map_option snd (bdestroy aux h) else Some h)"

definition bconcat :: "bstring \<Rightarrow> bstring \<Rightarrow> bmem \<Rightarrow> (int \<times> bmem) option" where
  "bconcat b0 b1 h =
     (if b0 = None \<or> b1 = None then Some (BSTR_ERR, h)
      else do {
        h0 \<leftarrow> hdr_of h b0;
        h1 \<leftarrow> hdr_of h b1;
        if b_data h0 = None \<or> b_data h1 = None then Some (BSTR_ERR, h)
        else do {
          let d = b_slen h0;
          let len = b_slen h1;
          md \<leftarrow> cint (b_mlen h0 - d);
          dl \<leftarrow> cint (d + len);
          if (d OR md OR len OR dl) < 0 then Some (BSTR_ERR, h)
          else do {
            dl1 \<leftarrow> cint (dl + 1);
            (r, aux, h) \<leftarrow>
              if b_mlen h0 \<le> dl1 then do {
                (aux, h) \<leftarrow> if ptr_within (b_data h1) (b_data h0) (b_mlen h0) then bstrcpy b1 h else Some (b1, h);
                if aux = None then Some (BSTR_ERR, b1, h)
                else do {
                  (r, h) \<leftarrow> balloc b0 dl1 h;
                  if r \<noteq> BSTR_OK then do {
                    h \<leftarrow> drop_aux aux b1 h;
                    Some (BSTR_ERR, b1, h)
                  } else Some (BSTR_OK, aux, h)
                }
              } else Some (BSTR_OK, b1, h);
            if r \<noteq> BSTR_OK then Some (BSTR_ERR, h)
            else do {
              h0 \<leftarrow> hdr_of h b0;
              ha \<leftarrow> hdr_of h aux;
              h \<leftarrow> bBlockCopy h (b_data h0) d (b_data ha) 0 len;
              h \<leftarrow> wrb h (b_data h0) dl 0;
              h \<leftarrow> set_hdr h b0 (h0\<lparr>b_slen := dl\<rparr>);
              h \<leftarrow> drop_aux aux b1 h;
              Some (BSTR_OK, h)
            }
          }
        }
      })"

definition bconchar :: "bstring \<Rightarrow> u8 \<Rightarrow> bmem \<Rightarrow> (int \<times> bmem) option" where
  "bconchar b c h =
     (if b = None then Some (BSTR_ERR, h)
      else do {
        bh \<leftarrow> hdr_of h b;
        let d = b_slen bh;
        md \<leftarrow> cint (b_mlen bh - d);
        if (d OR md) < 0 then Some (BSTR_ERR, h)
        else do {
          d2 \<leftarrow> cint (d + 2);
          (r, h) \<leftarrow> balloc b d2 h;
          if r \<noteq> BSTR_OK then Some (BSTR_ERR, h)
          else do {
            bh \<leftarrow> hdr_of h b;
            h \<leftarrow> wrb h (b_data bh) d c;
            h \<leftarrow> wrb h (b_data bh) (d + 1) 0;
            sl \<leftarrow> cint (b_slen bh + 1);
            h \<leftarrow> set_hdr h b (bh\<lparr>b_slen := sl\<rparr>);
            Some (BSTR_OK, h)
          }
        }
      })"

definition bcatblk :: "bstring \<Rightarrow> ptr option \<Rightarrow> int \<Rightarrow> int \<Rightarrow> bmem \<Rightarrow> (int \<times> bmem) option" where
  "bcatblk b s off len h =
     (if b = None then Some (BSTR_ERR, h)
      else do {
        bh \<leftarrow> hdr_of h b;
        if bad_hdr bh \<or> s = None \<or> len < 0 then Some (BSTR_ERR, h)
        else do {
          nl \<leftarrow> cint (b_slen bh + len);
          if 0 > nl then Some (BSTR_ERR, h)
          else do {
            (r, h) \<leftarrow> if b_mlen bh \<le> nl then do {
                nl1 \<leftarrow> cint (nl + 1);
                balloc b nl1 h
              } else Some (BSTR_OK, h);
            if 0 > r then Some (BSTR_ERR, h)
            else do {
              bh \<leftarrow> hdr_of h b;
              h \<leftarrow> bBlockCopy h (b_data bh) (b_slen bh) s off len;
              h \<leftarrow> set_hdr h b (bh\<lparr>b_slen := nl\<rparr>);
              h \<leftarrow> wrb h (b_data bh) nl 0;
              Some (BSTR_OK, h)
            }
          }
        }
      })"

text \<open>
  The loop that copies a C string into the free end of a block, up to and with its NUL: the number
  of characters before the NUL, or \<open>None\<close> when the room was used up. \<open>bcatcstr\<close> and \<open>bassigncstr\<close>
  both contain it.
\<close>

function cstr_fill :: "ptr option \<Rightarrow> int \<Rightarrow> ptr option \<Rightarrow> int \<Rightarrow> int \<Rightarrow> bmem \<Rightarrow> (int option \<times> bmem) option" where
  "cstr_fill d di s i l h =
     (if i < l then do {
        c \<leftarrow> rdb h s i;
        h' \<leftarrow> wrb h d (di + i) c;
        if c = 0 then Some (Some i, h') else cstr_fill d di s (i + 1) l h'
      } else Some (None, h))"
  by pat_completeness auto
termination by (relation "measure (\<lambda>(d, di, s, i, l, h). nat (l - i))") auto

definition bcatcstr :: "bstring \<Rightarrow> ptr option \<Rightarrow> bmem \<Rightarrow> (int \<times> bmem) option" where
  "bcatcstr b s h =
     (if b = None then Some (BSTR_ERR, h)
      else do {
        bh \<leftarrow> hdr_of h b;
        if bad_hdr bh \<or> s = None then Some (BSTR_ERR, h)
        else do {
          let l = b_mlen bh - b_slen bh;
          (r, h) \<leftarrow> cstr_fill (b_data bh) (b_slen bh) s 0 l h;
          case r of
            Some i \<Rightarrow> do {
              h \<leftarrow> set_hdr h b (bh\<lparr>b_slen := b_slen bh + i\<rparr>);
              Some (BSTR_OK, h)
            }
          | None \<Rightarrow> do {
              h \<leftarrow> set_hdr h b (bh\<lparr>b_slen := b_slen bh + l\<rparr>);
              n \<leftarrow> bm_strlen h s l;
              bcatblk b s l n h
            }
        }
      })"

section \<open>Assignment and truncation\<close>

definition bassign :: "bstring \<Rightarrow> bstring \<Rightarrow> bmem \<Rightarrow> (int \<times> bmem) option" where
  "bassign a b h =
     (if b = None then Some (BSTR_ERR, h)
      else do {
        hb \<leftarrow> hdr_of h b;
        if b_data hb = None \<or> b_slen hb < 0 then Some (BSTR_ERR, h)
        else do {
          (r, h) \<leftarrow>
            if b_slen hb \<noteq> 0 then do {
              (r, h) \<leftarrow> balloc a (b_slen hb) h;
              if r \<noteq> BSTR_OK then Some (BSTR_ERR, h)
              else do {
                ha \<leftarrow> hdr_of h a;
                hb \<leftarrow> hdr_of h b;
                h \<leftarrow> memmove h (b_data ha) 0 (b_data hb) 0 (b_slen hb);
                Some (BSTR_OK, h)
              }
            } else if a = None then Some (BSTR_ERR, h)
            else do {
              ha \<leftarrow> hdr_of h a;
              Some (if b_data ha = None \<or> b_mlen ha < b_slen ha \<or> b_slen ha < 0 \<or> b_mlen ha = 0
                then BSTR_ERR else BSTR_OK, h)
            };
          if r \<noteq> BSTR_OK then Some (BSTR_ERR, h)
          else do {
            ha \<leftarrow> hdr_of h a;
            h \<leftarrow> wrb h (b_data ha) (b_slen hb) 0;
            h \<leftarrow> set_hdr h a (ha\<lparr>b_slen := b_slen hb\<rparr>);
            Some (BSTR_OK, h)
          }
        }
      })"

definition bassignmidstr :: "bstring \<Rightarrow> bstring \<Rightarrow> int \<Rightarrow> int \<Rightarrow> bmem \<Rightarrow> (int \<times> bmem) option" where
  "bassignmidstr a b left len h =
     (if b = None then Some (BSTR_ERR, h)
      else do {
        hb \<leftarrow> hdr_of h b;
        if b_data hb = None \<or> b_slen hb < 0 then Some (BSTR_ERR, h)
        else do {
          len \<leftarrow> if left < 0 then cint (len + left) else Some len;
          let left = (if left < 0 then 0 else left);
          let len = (if len > b_slen hb - left then b_slen hb - left else len);
          if a = None then Some (BSTR_ERR, h)
          else do {
            ha \<leftarrow> hdr_of h a;
            if b_data ha = None \<or> b_mlen ha < b_slen ha \<or> b_slen ha < 0 \<or> b_mlen ha = 0
            then Some (BSTR_ERR, h)
            else do {
              (r, n, h) \<leftarrow>
                if len > 0 then do {
                  (r, h) \<leftarrow> balloc a len h;
                  if r \<noteq> BSTR_OK then Some (BSTR_ERR, 0, h)
                  else do {
                    ha \<leftarrow> hdr_of h a;
                    hb \<leftarrow> hdr_of h b;
                    h \<leftarrow> memmove h (b_data ha) 0 (b_data hb) left len;
                    Some (BSTR_OK, len, h)
                  }
                } else Some (BSTR_OK, 0, h);
              if r \<noteq> BSTR_OK then Some (BSTR_ERR, h)
              else do {
                ha \<leftarrow> hdr_of h a;
                h \<leftarrow> set_hdr h a (ha\<lparr>b_slen := n\<rparr>);
                h \<leftarrow> wrb h (b_data ha) n 0;
                Some (BSTR_OK, h)
              }
            }
          }
        }
      })"

definition bassigncstr :: "bstring \<Rightarrow> ptr option \<Rightarrow> bmem \<Rightarrow> (int \<times> bmem) option" where
  "bassigncstr a str h =
     (if a = None then Some (BSTR_ERR, h)
      else do {
        ha \<leftarrow> hdr_of h a;
        if b_data ha = None \<or> b_mlen ha < b_slen ha \<or> b_slen ha < 0 \<or> b_mlen ha = 0 \<or> str = None
        then Some (BSTR_ERR, h)
        else do {
          (r, h) \<leftarrow> cstr_fill (b_data ha) 0 str 0 (b_mlen ha) h;
          case r of
            Some i \<Rightarrow> do {
              h \<leftarrow> set_hdr h a (ha\<lparr>b_slen := i\<rparr>);
              Some (BSTR_OK, h)
            }
          | None \<Rightarrow> do {
              let i = b_mlen ha;
              h \<leftarrow> set_hdr h a (ha\<lparr>b_slen := i\<rparr>);
              len \<leftarrow> bm_strlen h str i;
              if len + 1 > INT_MAX - i then Some (BSTR_ERR, h)
              else do {
                (r, h) \<leftarrow> balloc a (i + len + 1) h;
                if 0 > r then Some (BSTR_ERR, h)
                else do {
                  ha \<leftarrow> hdr_of h a;
                  h \<leftarrow> bBlockCopy h (b_data ha) i str i (len + 1);
                  h \<leftarrow> set_hdr h a (ha\<lparr>b_slen := b_slen ha + len\<rparr>);
                  Some (BSTR_OK, h)
                }
              }
            }
        }
      })"

definition bassignblk :: "bstring \<Rightarrow> ptr option \<Rightarrow> int \<Rightarrow> bmem \<Rightarrow> (int \<times> bmem) option" where
  "bassignblk a s len h =
     (if a = None then Some (BSTR_ERR, h)
      else do {
        ha \<leftarrow> hdr_of h a;
        if b_data ha = None \<or> b_mlen ha < b_slen ha \<or> b_slen ha < 0 \<or> b_mlen ha = 0 \<or> s = None \<or>
          len < 0 \<or> len \<ge> INT_MAX
        then Some (BSTR_ERR, h)
        else do {
          (r, h) \<leftarrow> if len + 1 > b_mlen ha then balloc a (len + 1) h else Some (BSTR_OK, h);
          if 0 > r then Some (BSTR_ERR, h)
          else do {
            ha \<leftarrow> hdr_of h a;
            h \<leftarrow> bBlockCopy h (b_data ha) 0 s 0 len;
            h \<leftarrow> wrb h (b_data ha) len 0;
            h \<leftarrow> set_hdr h a (ha\<lparr>b_slen := len\<rparr>);
            Some (BSTR_OK, h)
          }
        }
      })"

definition btrunc :: "bstring \<Rightarrow> int \<Rightarrow> bmem \<Rightarrow> (int \<times> bmem) option" where
  "btrunc b n h =
     (if n < 0 \<or> b = None then Some (BSTR_ERR, h)
      else do {
        bh \<leftarrow> hdr_of h b;
        if bad_hdr bh then Some (BSTR_ERR, h)
        else if b_slen bh > n then do {
          h \<leftarrow> set_hdr h b (bh\<lparr>b_slen := n\<rparr>);
          h \<leftarrow> wrb h (b_data bh) n 0;
          Some (BSTR_OK, h)
        } else Some (BSTR_OK, h)
      })"

text \<open>The loop of \<open>btoupper\<close> and \<open>btolower\<close>.\<close>

function map_loop :: "(u8 \<Rightarrow> u8) \<Rightarrow> ptr option \<Rightarrow> int \<Rightarrow> int \<Rightarrow> bmem \<Rightarrow> bmem option" where
  "map_loop f d i len h =
     (if i < len then do {
        c \<leftarrow> rdb h d i;
        h' \<leftarrow> wrb h d i (f c);
        map_loop f d (i + 1) len h'
      } else Some h)"
  by pat_completeness auto
termination by (relation "measure (\<lambda>(f, d, i, len, h). nat (len - i))") auto

definition btoupper :: "bstring \<Rightarrow> bmem \<Rightarrow> (int \<times> bmem) option" where
  "btoupper b h =
     (if b = None then Some (BSTR_ERR, h)
      else do {
        bh \<leftarrow> hdr_of h b;
        if bad_hdr bh then Some (BSTR_ERR, h)
        else do {
          h \<leftarrow> map_loop c_toupper (b_data bh) 0 (b_slen bh) h;
          Some (BSTR_OK, h)
        }
      })"

definition btolower :: "bstring \<Rightarrow> bmem \<Rightarrow> (int \<times> bmem) option" where
  "btolower b h =
     (if b = None then Some (BSTR_ERR, h)
      else do {
        bh \<leftarrow> hdr_of h b;
        if bad_hdr bh then Some (BSTR_ERR, h)
        else do {
          h \<leftarrow> map_loop c_tolower (b_data bh) 0 (b_slen bh) h;
          Some (BSTR_OK, h)
        }
      })"
end
