(* ===== verification/BstrMem.thy ===== *)
theory BstrMem
  imports Bstr
begin

text \<open>
  The sizes that \<open>snapUpSize\<close> rounds to, strings in memory (\<open>owns\<close> for a writable string, \<open>reads\<close> for any
  readable one, \<open>framed\<close> for what an operation leaves alone) and the growth of a string by \<open>balloc\<close>.
\<close>

section \<open>Sizes\<close>

lemma smear_step:
  fixes w j :: u32
  assumes "\<And>n. bit w n \<longleftrightarrow> (\<exists>d < t. bit j (n + d))"
  shows "bit (w OR drop_bit t w) n \<longleftrightarrow> (\<exists>d < 2 * t. bit j (n + d))"
proof -
  have "(\<exists>d < 2 * t. bit j (n + d)) \<longleftrightarrow> (\<exists>d < t. bit j (n + d)) \<or> (\<exists>d < t. bit j (n + t + d))"
  proof safe
    fix d assume d: "d < 2 * t" "bit j (n + d)" "\<not> (\<exists>d < t. bit j (n + t + d))"
    then have "\<not> t \<le> d" by (metis add.assoc le_add_diff_inverse less_diff_conv2 mult_2)
    then show "\<exists>d < t. bit j (n + d)" using d(2) by (intro exI [of _ d]) simp
  next
    fix d assume "d < t" "bit j (n + d)"
    then show "\<exists>d < 2 * t. bit j (n + d)" by (intro exI [of _ d]) simp
  next
    fix d assume "d < t" "bit j (n + t + d)"
    then show "\<exists>d < 2 * t. bit j (n + d)" by (intro exI [of _ "t + d"]) (simp add: ac_simps)
  qed
  then show ?thesis by (simp add: bit_or_iff bit_drop_bit_eq assms ac_simps)
qed

definition smear :: "u32 \<Rightarrow> u32" where
  "smear j =
     (let j = j OR drop_bit 1 j; j = j OR drop_bit 2 j; j = j OR drop_bit 4 j; j = j OR drop_bit 8 j
      in j OR drop_bit 16 j)"

lemma bit_smear: "bit (smear j) n \<longleftrightarrow> (\<exists>d < 32. bit j (n + d))"
proof -
  have 1: "bit j n \<longleftrightarrow> (\<exists>d < 1. bit j (n + d))" for n by simp
  note 2 = smear_step [OF 1, simplified mult_1_right]
  note 4 = smear_step [OF 2, simplified]
  note 8 = smear_step [OF 4, simplified]
  note 16 = smear_step [OF 8, simplified]
  note 32 = smear_step [OF 16, simplified]
  show ?thesis using 32 unfolding smear_def Let_def by simp
qed

lemma smear_mask:
  assumes "2 ^ k \<le> uint j" "uint j < 2 ^ Suc k" "k < 32"
  shows "smear j = mask (Suc k)"
proof -
  have hi: "\<not> bit j n" if "k < n" for n
  proof
    assume b: "bit j n"
    have "2 ^ n \<le> uint j"
      using b bit_imp_le_length [OF b] by (metis bit_iff_odd_drop_bit bit_uint_iff div_0 drop_bit_eq_div even_zero
          linorder_not_less uint_ge_0 unsigned_drop_bit_eq zdiv_eq_0_iff)
    moreover have "(2 :: int) ^ Suc k \<le> 2 ^ n" using that by (intro power_increasing) simp_all
    ultimately show False using assms(2) by linarith
  qed
  have lo: "bit j k"
  proof -
    have "uint j div 2 ^ k = 1" using assms(1,2) by (intro int_div_pos_eq [where r = "uint j - 2 ^ k"]) simp_all
    then have "bit (uint j) k" by (simp add: bit_iff_odd)
    then show ?thesis by (simp add: bit_uint_iff)
  qed
  show ?thesis
  proof (rule bit_word_eqI)
    fix n assume "n < LENGTH(32)"
    show "bit (smear j) n \<longleftrightarrow> bit (mask (Suc k) :: u32) n"
    proof (cases "n \<le> k")
      case True
      then have "\<exists>d < 32. bit j (n + d)" using lo assms(3) by (intro exI [of _ "k - n"]) simp
      then show ?thesis using True \<open>n < LENGTH(32)\<close> by (simp add: bit_smear bit_mask_iff)
    next
      case False
      then show ?thesis using hi by (simp add: bit_smear bit_mask_iff)
    qed
  qed
qed

text \<open>\<open>snapUpSize\<close>: the least power of two above the argument, at least 8; above \<open>2 ^ 30\<close> the argument itself.\<close>

lemma snapUpSize_pow:
  assumes "8 \<le> i" "2 ^ k \<le> i" "i < 2 ^ Suc k" "k < 30"
  shows "snapUpSize i = 2 ^ Suc k"
proof -
  have "(2 :: int) ^ Suc k \<le> 2 ^ 30" using assms(4) by (intro power_increasing) simp_all
  then have u: "uint (word_of_int i :: u32) = i" using assms by (simp add: uint_word_of_int)
  then have "smear (word_of_int i) = mask (Suc k)" using assms by (intro smear_mask) simp_all
  then have "smear (word_of_int i) + 1 = 2 ^ Suc k" by (simp add: mask_eq_exp_minus_1)
  moreover have "sint (2 ^ Suc k :: u32) = 2 ^ Suc k"
  proof -
    have "uint (2 ^ Suc k :: u32) = 2 ^ Suc k"
      using uint_word_of_int [of "2 ^ Suc k", where 'a = 32] \<open>2 ^ Suc k \<le> 2 ^ 30\<close> by simp
    moreover have "signed_take_bit 31 (2 ^ Suc k :: int) = 2 ^ Suc k"
    proof (rule signed_take_bit_int_eq_self)
      show "- (2 ^ 31) \<le> (2 :: int) ^ Suc k" by (rule order.trans [of _ 0]) simp_all
      show "(2 :: int) ^ Suc k < 2 ^ 31" by (rule order.strict_trans1 [OF \<open>2 ^ Suc k \<le> 2 ^ 30\<close>]) simp
    qed
    ultimately show ?thesis by (simp add: sint_uint)
  qed
  ultimately show ?thesis
    using assms unfolding snapUpSize_def smear_def Let_def by simp
qed

lemma snapUpSize_large:
  assumes "2 ^ 30 \<le> i" "i \<le> INT_MAX"
  shows "snapUpSize i = i"
proof -
  have u: "uint (word_of_int i :: u32) = i" using assms by (simp add: uint_word_of_int INT_MAX_def)
  then have "smear (word_of_int i) = mask 31"
    using smear_mask [of 30 "word_of_int i"] assms by (simp add: INT_MAX_def)
  then have "sint (smear (word_of_int i) + 1) = - (2 ^ 31)" by (simp add: mask_eq_exp_minus_1)
  then show ?thesis
    using assms unfolding snapUpSize_def smear_def Let_def by simp
qed

lemma log2_exists: "1 \<le> (i :: int) \<Longrightarrow> \<exists>k. 2 ^ k \<le> i \<and> i < 2 ^ Suc k"
proof (induction "nat i" arbitrary: i rule: less_induct)
  case less
  show ?case
  proof (cases "i = 1")
    case True
    then show ?thesis by (intro exI [of _ 0]) simp
  next
    case False
    then have i: "1 \<le> i div 2" "nat (i div 2) < nat i" using less.prems by auto
    then obtain k where "2 ^ k \<le> i div 2" "i div 2 < 2 ^ Suc k" using less.hyps by blast
    then show ?thesis by (intro exI [of _ "Suc k"]) auto
  qed
qed

lemma snapUpSize_cases:
  assumes "i \<le> INT_MAX"
  shows "snapUpSize i = (if i < 8 then 8 else if 2 ^ 30 \<le> i then i else 2 ^ (LEAST k. i < 2 ^ k))"
proof -
  consider "i < 8" | "2 ^ 30 \<le> i" | "8 \<le> i" "i < 2 ^ 30" by linarith
  then show ?thesis
  proof cases
    case 3
    then obtain k where k: "2 ^ k \<le> i" "i < 2 ^ Suc k" using log2_exists [of i] by auto
    have "k < 30"
    proof (rule ccontr)
      assume "\<not> k < 30"
      then have "(2 :: int) ^ 30 \<le> 2 ^ k" by (intro power_increasing) simp_all
      then show False using 3 k by linarith
    qed
    moreover have "(LEAST k. i < 2 ^ k) = Suc k"
    proof (rule Least_equality)
      fix y assume "i < 2 ^ y"
      then have "(2 :: int) ^ k < 2 ^ y" using k by linarith
      then show "Suc k \<le> y" by (simp add: Suc_le_eq)
    qed (rule k(2))
    ultimately show ?thesis using snapUpSize_pow [OF 3(1) k] 3 by simp
  qed (use snapUpSize_large assms in \<open>simp_all add: snapUpSize_def\<close>)
qed

lemma snapUpSize_bounds:
  assumes "0 < i" "i \<le> INT_MAX"
  shows "i \<le> snapUpSize i" "snapUpSize i \<le> INT_MAX" "8 \<le> snapUpSize i" "i < 2 ^ 30 \<Longrightarrow> i < snapUpSize i"
    "i < 2 ^ 30 \<Longrightarrow> snapUpSize i \<le> 2 ^ 30"
proof -
  have "i < snapUpSize i \<and> 8 \<le> snapUpSize i \<and> snapUpSize i \<le> 2 ^ 30" if "i < 2 ^ 30"
  proof (cases "i < 8")
    case False
    then obtain k where k: "2 ^ k \<le> i" "i < 2 ^ Suc k" using log2_exists [of i] by auto
    have "k < 30"
    proof (rule ccontr)
      assume "\<not> k < 30"
      then have "(2 :: int) ^ 30 \<le> 2 ^ k" by (intro power_increasing) simp_all
      then show False using that k by linarith
    qed
    moreover have "(2 :: int) ^ Suc k \<le> 2 ^ 30" using \<open>k < 30\<close> by (intro power_increasing) simp_all
    ultimately show ?thesis using snapUpSize_pow [of i k] k False by simp
  qed (simp add: snapUpSize_def)
  moreover have "snapUpSize i = i" if "2 ^ 30 \<le> i" using that assms(2) by (rule snapUpSize_large)
  ultimately show "i \<le> snapUpSize i" "snapUpSize i \<le> INT_MAX" "8 \<le> snapUpSize i" "i < 2 ^ 30 \<Longrightarrow> i < snapUpSize i"
      "i < 2 ^ 30 \<Longrightarrow> snapUpSize i \<le> 2 ^ 30"
    using assms by (cases "i < 2 ^ 30"; fastforce simp: INT_MAX_def)+
qed
lemma snapUpSize_mono:
  assumes "0 < i" "i \<le> j" "j \<le> INT_MAX"
  shows "snapUpSize i \<le> snapUpSize j"
proof -
  have B: "8 \<le> snapUpSize j" "j \<le> snapUpSize j" using snapUpSize_bounds(1,3) [of j] assms by simp_all
  consider "i < 8" | "8 \<le> i" "j < 2 ^ 30" | "8 \<le> i" "i < 2 ^ 30" "2 ^ 30 \<le> j" | "2 ^ 30 \<le> i" by linarith
  then show ?thesis
  proof cases
    case 2
    obtain k where "j < 2 ^ Suc k" using log2_exists [of j] assms by auto
    then have "j < 2 ^ (LEAST k. j < 2 ^ k)" by (rule LeastI)
    then have "(LEAST k. i < 2 ^ k) \<le> (LEAST k. j < 2 ^ k)" using assms(2) by (intro Least_le) simp
    then show ?thesis using 2 assms by (simp add: snapUpSize_cases)
  next
    case 3
    then show ?thesis using snapUpSize_bounds(5) [of i] assms B by simp
  next
    case 4
    then show ?thesis using snapUpSize_large assms by simp
  qed (use B in \<open>simp add: snapUpSize_def\<close>)
qed

section \<open>Strings in memory\<close>

text \<open>
  \<open>owns h i s k rest\<close>: the header \<open>i\<close> is a writable string with the characters \<open>s\<close> in the block \<open>k\<close>,
  with its terminator, and with the unused bytes \<open>rest\<close> behind it. \<open>reads h i s\<close>: the header \<open>i\<close>
  refers to initialised characters \<open>s\<close>, which may lie anywhere in a block.
\<close>

definition owns :: "bmem \<Rightarrow> nat \<Rightarrow> bytes \<Rightarrow> nat \<Rightarrow> cell list \<Rightarrow> bool" where
  "owns h i s k rest \<longleftrightarrow>
     bm_hdr h i = Some \<lparr>b_mlen = int (length s) + 1 + int (length rest), b_slen = int (length s), b_data = Some (k, 0)\<rparr> \<and>
     bm_blk h k = Some (map Some s @ Some 0 # rest)"

definition reads :: "bmem \<Rightarrow> nat \<Rightarrow> bytes \<Rightarrow> bool" where
  "reads h i s \<longleftrightarrow> (\<exists>n k off m. bm_hdr h i = Some \<lparr>b_mlen = n, b_slen = int (length s), b_data = Some (k, off)\<rparr> \<and>
     bm_blk h k = Some m \<and> off + length s \<le> length m \<and> take (length s) (drop off m) = map Some s)"

text \<open>Addresses are handed out in order.\<close>

definition heap_ok :: "bmem \<Rightarrow> bool" where
  "heap_ok h \<longleftrightarrow> (\<forall>k. bm_blk h k \<noteq> None \<or> bm_hdr h k \<noteq> None \<longrightarrow> k < bm_next h)"

text \<open>
  What an operation on the string \<open>i\<close> may change: its header, and its block \<open>k\<close>, which may be
  replaced by a new one \<open>k'\<close>. Nothing else is written, freed or left allocated.
\<close>

definition framed :: "bmem \<Rightarrow> bmem \<Rightarrow> nat \<Rightarrow> nat \<Rightarrow> nat \<Rightarrow> bool" where
  "framed h h' i k k' \<longleftrightarrow> heap_ok h' \<and> bm_next h \<le> bm_next h' \<and> (\<forall>j. j \<noteq> i \<longrightarrow> bm_hdr h' j = bm_hdr h j) \<and>
     (\<forall>j. j \<noteq> k \<and> j \<noteq> k' \<longrightarrow> bm_blk h' j = bm_blk h j) \<and>
     (k' \<noteq> k \<longrightarrow> bm_next h \<le> k' \<and> bm_blk h' k = None) \<and> (bm_alloc h = [] \<longrightarrow> bm_alloc h' = [])"

lemma owns_reads: "owns h i s k rest \<Longrightarrow> reads h i s"
  unfolding owns_def reads_def by (intro exI conjI) (assumption | simp)+

lemma heap_okD: "heap_ok h \<Longrightarrow> bm_blk h k = Some m \<Longrightarrow> k < bm_next h" "heap_ok h \<Longrightarrow> bm_hdr h k = Some x \<Longrightarrow> k < bm_next h"
  by (auto simp: heap_ok_def)

lemma heap_ok_fresh: "heap_ok h \<Longrightarrow> bm_next h \<le> k \<Longrightarrow> bm_blk h k = None \<and> bm_hdr h k = None"
  by (auto simp: heap_ok_def)

lemma rdn_eq:
  "bm_blk h k = Some m \<Longrightarrow> 0 \<le> i \<Longrightarrow> 0 \<le> n \<Longrightarrow> off + nat i + nat n \<le> length m \<Longrightarrow>
   rdn h (Some (k, off)) i n = Some (take (nat n) (drop (off + nat i) m))"
  by (simp add: rdn_def)

lemma wrn_eq:
  "bm_blk h k = Some (a @ b @ c) \<Longrightarrow> off + nat i = length a \<Longrightarrow> length b = length xs \<Longrightarrow> 0 \<le> i \<Longrightarrow>
   wrn h (Some (k, off)) i xs = Some (h\<lparr>bm_blk := (bm_blk h)(k \<mapsto> a @ xs @ c)\<rparr>)"
  by (simp add: wrn_def mput_def)

lemma wrb_eq:
  "bm_blk h k = Some (a @ x # c) \<Longrightarrow> off + nat i = length a \<Longrightarrow> 0 \<le> i \<Longrightarrow>
   wrb h (Some (k, off)) i v = Some (h\<lparr>bm_blk := (bm_blk h)(k \<mapsto> a @ Some v # c)\<rparr>)"
  using wrn_eq [of h k a "[x]" c off i "[Some v]"] by (simp add: wrb_def)

lemma rdb_eq:
  "bm_blk h k = Some m \<Longrightarrow> 0 \<le> i \<Longrightarrow> off + nat i < length m \<Longrightarrow> rdb h (Some (k, off)) i = m ! (off + nat i)"
  by (simp add: rdb_def rdn_eq hd_drop_conv_nth take_Suc)

lemma set_hdr_eq: "bm_hdr h i = Some x \<Longrightarrow> set_hdr h (Some i) y = Some (h\<lparr>bm_hdr := (bm_hdr h)(i \<mapsto> y)\<rparr>)"
  by (simp add: set_hdr_def)

lemma hdr_of_Some [simp]: "hdr_of h (Some i) = bm_hdr h i"
  by (simp add: hdr_of_def)

lemma alloc_next_Nil_iff: "alloc_next al = (ok, al') \<Longrightarrow> al = [] \<Longrightarrow> ok \<and> al' = []"
  by simp

lemma framed_refl: "heap_ok h \<Longrightarrow> framed h h i k k"
  by (simp add: framed_def)

lemma framed_alloc: "heap_ok h \<Longrightarrow> (bm_alloc h = [] \<longrightarrow> al = []) \<Longrightarrow> framed h (h\<lparr>bm_alloc := al\<rparr>) i k k"
  by (simp add: framed_def heap_ok_def)

lemma owns_alloc [simp]: "owns (h\<lparr>bm_alloc := al\<rparr>) i s k rest = owns h i s k rest"
  by (simp add: owns_def)

lemma heap_ok_alloc [simp]: "heap_ok (h\<lparr>bm_alloc := al\<rparr>) = heap_ok h"
  by (simp add: heap_ok_def)

lemma alloc_tail: "alloc_next al = (ok, al') \<Longrightarrow> al = [] \<longrightarrow> al' = []"
  by auto

text \<open>\<open>realloc\<close> to a larger size keeps the bytes and adds uninitialised ones.\<close>

lemma realloc_ok:
  assumes "bm_blk h k = Some m" "int (length m) \<le> n"
  shows "\<exists>ok al. alloc_next (bm_alloc h) = (ok, al) \<and>
    bm_realloc (Some (k, 0)) n h = Some (if ok then (Some (bm_next h, 0),
        h\<lparr>bm_blk := (bm_blk h)(k := None, bm_next h \<mapsto> m @ replicate (nat n - length m) None),
          bm_next := bm_next h + 1, bm_alloc := al\<rparr>)
      else (None, h\<lparr>bm_alloc := al\<rparr>))"
  using assms by (cases "alloc_next (bm_alloc h)") (auto simp: bm_realloc_def)

text \<open>The state after a successful growth, before the header is updated.\<close>

definition regrown :: "bmem \<Rightarrow> bmem \<Rightarrow> nat \<Rightarrow> nat \<Rightarrow> cell list \<Rightarrow> bool" where
  "regrown h h' k k' m' \<longleftrightarrow> k' = bm_next h \<and> k' \<noteq> k \<and> bm_hdr h' = bm_hdr h \<and>
     bm_blk h' = (bm_blk h)(k := None, k' \<mapsto> m') \<and> bm_next h' = Suc (bm_next h) \<and>
     (bm_alloc h = [] \<longrightarrow> bm_alloc h' = [])"

lemma reallocStrategy_ok:
  assumes "heap_ok h" "bm_blk h k = Some m" "int (length m) \<le> olen" "olen \<le> len"
  shows "\<exists>x n h'. reallocStrategy (Some (k, 0)) len olen h = Some (x, n, h') \<and>
    (x = None \<and> bm_alloc h \<noteq> [] \<and> (\<exists>al. h' = h\<lparr>bm_alloc := al\<rparr>) \<or>
     (\<exists>k'. x = Some (k', 0) \<and> olen \<le> n \<and> n \<le> len \<and> (bm_alloc h = [] \<longrightarrow> n = len) \<and>
       regrown h h' k k' (m @ replicate (nat n - length m) None)))"
proof -
  have k: "k < bm_next h" using heap_okD(1) [OF assms(1,2)] .
  obtain ok al where 1: "alloc_next (bm_alloc h) = (ok, al)"
    "bm_realloc (Some (k, 0)) len h = Some (if ok then (Some (bm_next h, 0),
        h\<lparr>bm_blk := (bm_blk h)(k := None, bm_next h \<mapsto> m @ replicate (nat len - length m) None),
          bm_next := bm_next h + 1, bm_alloc := al\<rparr>)
      else (None, h\<lparr>bm_alloc := al\<rparr>))"
    using realloc_ok [OF assms(2), of len] assms(3,4) by auto
  show ?thesis
  proof (cases ok)
    case True
    then show ?thesis
      using 1 k assms(3,4) alloc_tail [OF 1(1)] by (simp add: reallocStrategy_def regrown_def)
  next
    case False
    then have ne: "bm_alloc h \<noteq> []" using 1(1) by auto
    obtain ok2 al2 where 2: "alloc_next al = (ok2, al2)"
      "bm_realloc (Some (k, 0)) olen (h\<lparr>bm_alloc := al\<rparr>) = Some (if ok2 then (Some (bm_next h, 0),
          h\<lparr>bm_alloc := al, bm_blk := (bm_blk h)(k := None, bm_next h \<mapsto> m @ replicate (nat olen - length m) None),
            bm_next := bm_next h + 1, bm_alloc := al2\<rparr>)
        else (None, h\<lparr>bm_alloc := al, bm_alloc := al2\<rparr>))"
      using realloc_ok [of "h\<lparr>bm_alloc := al\<rparr>" k m olen] assms(2,3) by auto
    show ?thesis
      using 1 2 False ne k assms(3,4) by (cases ok2) (auto simp: reallocStrategy_def regrown_def)
  qed
qed

lemma malloc_ok_cases:
  obtains (ok) al where "bm_malloc n h = (Some (bm_next h, 0),
      h\<lparr>bm_blk := (bm_blk h)(bm_next h \<mapsto> replicate (nat n) None), bm_next := bm_next h + 1, bm_alloc := al\<rparr>)"
    "bm_alloc h = [] \<longrightarrow> al = []"
  | (null) al where "bm_malloc n h = (None, h\<lparr>bm_alloc := al\<rparr>)" "bm_alloc h \<noteq> []"
proof (cases "alloc_next (bm_alloc h)")
  case (Pair b al)
  then show thesis
    using ok [of al] null [of al] by (cases b; cases "bm_alloc h") (auto simp: bm_malloc_def)
qed

lemma ownsD:
  assumes "owns h i s k rest"
  shows "bm_hdr h i = Some \<lparr>b_mlen = int (length s) + 1 + int (length rest), b_slen = int (length s), b_data = Some (k, 0)\<rparr>"
    "bm_blk h k = Some (map Some s @ Some 0 # rest)"
  using assms by (simp_all add: owns_def)

lemma not_bad_owned:
  "\<not> bad_hdr \<lparr>b_mlen = int (length s) + 1 + int (length rest), b_slen = int (length s), b_data = Some (k, 0)\<rparr>"
  by (simp add: bad_hdr_def)

text \<open>
  \<open>balloc\<close> keeps the string: it succeeds with room for \<open>olen\<close> bytes, or changes nothing. \<open>tight\<close>
  room is possible: exactly \<open>olen\<close> bytes, when the larger block could not be allocated.
\<close>

definition ready :: "bmem \<Rightarrow> bmem \<Rightarrow> nat \<Rightarrow> bytes \<Rightarrow> nat \<Rightarrow> int \<Rightarrow> bool" where
  "ready h h' i s k n \<longleftrightarrow> (\<exists>k' rest'. owns h' i s k' rest' \<and> framed h h' i k k' \<and> int (length s + 1 + length rest') \<le> INT_MAX \<and>
     n \<le> int (length s) + 1 + int (length rest') \<and> (k' = k \<longrightarrow> bm_blk h' = bm_blk h \<and> bm_hdr h' = bm_hdr h) \<and>
     (bm_alloc h = [] \<and> n < 2 ^ 30 \<longrightarrow> n < int (length s) + 1 + int (length rest')) \<and>
     (k' \<noteq> k \<longrightarrow> int (length s) + 1 + int (length rest') \<le> snapUpSize n))"

lemma regrown_owns:
  assumes "regrown h h' k k' (map Some s @ x # r)" "bm_hdr h i = Some y" "heap_ok h" "k < bm_next h"
    "n = int (length s) + 1 + int (length r)"
  shows "\<exists>h2 h3. set_hdr h' (Some i) \<lparr>b_mlen = n, b_slen = int (length s), b_data = Some (k', 0)\<rparr> = Some h2 \<and>
    wrb h2 (Some (k', 0)) (int (length s)) 0 = Some h3 \<and> owns h3 i s k' r \<and> framed h h3 i k k'"
proof -
  let ?y = "\<lparr>b_mlen = n, b_slen = int (length s), b_data = Some (k', 0)\<rparr>"
  let ?h2 = "h'\<lparr>bm_hdr := (bm_hdr h')(i \<mapsto> ?y)\<rparr>"
  have b: "bm_blk ?h2 k' = Some (map Some s @ x # r)" using assms(1) by (simp add: regrown_def)
  have "wrb ?h2 (Some (k', 0)) (int (length s)) 0 =
      Some (?h2\<lparr>bm_blk := (bm_blk ?h2)(k' \<mapsto> map Some s @ Some 0 # r)\<rparr>)" (is "_ = Some ?h3")
    using wrb_eq [OF b, of 0 "int (length s)"] by simp
  moreover have "owns ?h3 i s k' r" using assms(5) by (simp add: owns_def)
  moreover have "i < bm_next h" using heap_okD(2) [OF assms(3,2)] .
  then have "framed h ?h3 i k k'"
    using assms(1,3,4) by (auto simp: framed_def regrown_def heap_ok_def less_Suc_eq)
  ultimately show ?thesis using assms(1,2) set_hdr_eq [of h' i y ?y] by (simp add: regrown_def)
qed

lemma balloc_grows:
  assumes "bm_hdr h i = Some y" "\<not> bad_hdr y" "0 < olen" "b_mlen y \<le> olen" "\<not> snapUpSize olen \<le> b_mlen y"
    "cint (7 * b_mlen y) = Some m7" "cint (8 * b_slen y) = Some s8"
  shows "balloc (Some i) olen h = Option.bind
    (if m7 < s8 then reallocStrategy (b_data y) (snapUpSize olen) olen h
     else let (x, h) = bm_malloc (snapUpSize olen) h in
       if x = None then reallocStrategy (b_data y) (snapUpSize olen) olen h
       else do {
         h \<leftarrow> if b_slen y \<noteq> 0 then memcpy h x 0 (b_data y) 0 (b_slen y) else Some h;
         h \<leftarrow> bm_free (b_data y) h;
         Some (x, snapUpSize olen, h)
       })
    (\<lambda>(x, len, h). if x = None then Some (BSTR_ERR, h)
     else do {
       h \<leftarrow> set_hdr h (Some i) (y\<lparr>b_data := x, b_mlen := len\<rparr>);
       h \<leftarrow> wrb h x (b_slen y) 0;
       Some (BSTR_OK, h)
     })"
  using assms by (simp add: balloc_def Let_def)

lemma balloc_ok:
  assumes "heap_ok h" "owns h i s k rest" "0 < olen" "olen \<le> INT_MAX" "8 * (int (length s) + 1 + int (length rest)) \<le> INT_MAX"
  shows "\<exists>r h'. balloc (Some i) olen h = Some (r, h') \<and>
    (r = BSTR_OK \<and> ready h h' i s k olen \<or>
     r = BSTR_ERR \<and> bm_alloc h \<noteq> [] \<and> (\<exists>al. h' = h\<lparr>bm_alloc := al\<rparr>))"
proof -
  let ?mlen = "int (length s) + 1 + int (length rest)"
  let ?hd = "\<lparr>b_mlen = ?mlen, b_slen = int (length s), b_data = Some (k, 0)\<rparr>"
  let ?m = "map Some s @ Some 0 # rest"
  note O = ownsD [OF assms(2)]
  have k: "k < bm_next h" using heap_okD(1) [OF assms(1) O(2)] .
  have unchanged: "ready h h i s k olen" if "olen \<le> ?mlen" "olen < 2 ^ 30 \<longrightarrow> olen < ?mlen"
    using that assms(1,2,5) unfolding ready_def by (intro exI [of _ k] exI [of _ rest]) (auto simp: framed_refl INT_MAX_def)
  define len where "len = snapUpSize olen"
  have len: "olen \<le> len" "len \<le> INT_MAX" "olen < 2 ^ 30 \<Longrightarrow> olen < len" using snapUpSize_bounds(1,2,4) [OF assms(3,4)] by (simp_all add: len_def)
  show ?thesis
  proof (cases "olen \<ge> ?mlen \<and> \<not> len \<le> ?mlen")
    case False
    then have "balloc (Some i) olen h = Some (BSTR_OK, h)"
      using O(1) not_bad_owned assms(3) by (auto simp: balloc_def len_def Let_def)
    moreover have "olen \<le> ?mlen" using False len(1) by linarith
    moreover have "olen < 2 ^ 30 \<longrightarrow> olen < ?mlen" using False len by linarith
    ultimately show ?thesis using unchanged by blast
  next
    case True
    let ?cont = "\<lambda>(x, len, h). if x = None then Some (BSTR_ERR, h)
        else do {
          h \<leftarrow> set_hdr h (Some i) \<lparr>b_mlen = len, b_slen = int (length s), b_data = x\<rparr>;
          h \<leftarrow> wrb h x (int (length s)) 0;
          Some (BSTR_OK, h)
        }"
    let ?grow = "if 7 * ?mlen < 8 * int (length s) then reallocStrategy (Some (k, 0)) len olen h
        else let (x, h) = bm_malloc len h in
          if x = None then reallocStrategy (Some (k, 0)) len olen h
          else do {
            h \<leftarrow> if int (length s) \<noteq> 0 then memcpy h x 0 (Some (k, 0)) 0 (int (length s)) else Some h;
            h \<leftarrow> bm_free (Some (k, 0)) h;
            Some (x, len, h)
          }"
    have c: "cint (7 * ?mlen) = Some (7 * ?mlen)" "cint (8 * int (length s)) = Some (8 * int (length s))"
      using assms(5) by (simp_all add: INT_MIN_def)
    have run: "balloc (Some i) olen h = Option.bind ?grow ?cont"
      by (rule balloc_grows [OF O(1) not_bad_owned assms(3), unfolded bhdr.simps, folded len_def,
            OF conjunct1 [OF True] conjunct2 [OF True] c])
    have fin: "\<exists>h3. ?cont (Some (k', 0), n, h1) = Some (BSTR_OK, h3) \<and> ready h h3 i s k olen"
      if "regrown h h1 k k' (map Some s @ x # r)" "n = int (length s) + 1 + int (length r)" "olen \<le> n" "n \<le> INT_MAX"
        "bm_alloc h = [] \<and> olen < 2 ^ 30 \<longrightarrow> olen < n" "n \<le> len"
      for h1 k' n x r
      using regrown_owns [OF that(1) O(1) assms(1) k that(2)] that k len_def
      by (auto simp: ready_def regrown_def intro!: exI [of _ k'] exI [of _ r])
    have strategy: "\<exists>r h'. Option.bind (reallocStrategy (Some (k, 0)) len olen (h\<lparr>bm_alloc := al\<rparr>)) ?cont = Some (r, h') \<and>
        (r = BSTR_OK \<and> ready h h' i s k olen \<or> r = BSTR_ERR \<and> bm_alloc h \<noteq> [] \<and> (\<exists>al. h' = h\<lparr>bm_alloc := al\<rparr>))"
      if al: "bm_alloc h = [] \<longrightarrow> al = []" for al
    proof -
      obtain x n h1 where S: "reallocStrategy (Some (k, 0)) len olen (h\<lparr>bm_alloc := al\<rparr>) = Some (x, n, h1)"
        "x = None \<and> al \<noteq> [] \<and> (\<exists>al'. h1 = h\<lparr>bm_alloc := al'\<rparr>) \<or>
         (\<exists>k'. x = Some (k', 0) \<and> olen \<le> n \<and> n \<le> len \<and> (al = [] \<longrightarrow> n = len) \<and>
           regrown (h\<lparr>bm_alloc := al\<rparr>) h1 k k' (?m @ replicate (nat n - length ?m) None))"
        using reallocStrategy_ok [of "h\<lparr>bm_alloc := al\<rparr>" k ?m olen len] assms(1) O(2) True len by fastforce
      show ?thesis
      proof (cases x)
        case None
        then show ?thesis using S al by auto
      next
        case (Some p)
        then obtain k' where k': "x = Some (k', 0)" "olen \<le> n" "n \<le> len" "bm_alloc h = [] \<longrightarrow> n = len"
          "regrown h h1 k k' (map Some s @ Some 0 # (rest @ replicate (nat n - length ?m) None))"
          using S(2) al by (auto simp: regrown_def)
        have "n = int (length s) + 1 + int (length (rest @ replicate (nat n - length ?m) None))"
          using True k'(2) by (cases n rule: int_cases) auto
        then show ?thesis using fin [OF k'(5)] k' len S(1) by auto
      qed
    qed
    show ?thesis
    proof (cases "7 * ?mlen < 8 * int (length s)")
      case True
      then show ?thesis using run strategy [of "bm_alloc h"] by simp
    next
      case slack: False
      show ?thesis
      proof (cases rule: malloc_ok_cases [of len h])
        case (null al)
        then show ?thesis using run slack strategy [of al] by auto
      next
        case (ok al)
        let ?h1 = "h\<lparr>bm_blk := (bm_blk h)(bm_next h \<mapsto> replicate (nat len) None), bm_next := bm_next h + 1, bm_alloc := al\<rparr>"
        let ?r = "replicate (nat len - length s - 1) None"
        have "int (length s) < len" using True len(1) by linarith
        then have "length s < nat len" by (simp add: zless_nat_eq_int_zless)
        then have l: "replicate (nat len) None = replicate (length s) None @ None # ?r" "length s < nat len"
          by (simp_all add: replicate_add [symmetric] flip: replicate_Suc)
        have kn: "k \<noteq> bm_next h" using k by simp
        have cp: "(if int (length s) \<noteq> 0 then memcpy ?h1 (Some (bm_next h, 0)) 0 (Some (k, 0)) 0 (int (length s)) else Some ?h1) =
            Some (?h1\<lparr>bm_blk := (bm_blk ?h1)(bm_next h \<mapsto> map Some s @ None # ?r)\<rparr>)" (is "_ = Some ?h2")
        proof (cases "s = []")
          case True
          then show ?thesis using l by (auto intro!: bmem.equality)
        next
          case False
          have "rdn ?h1 (Some (k, 0)) 0 (int (length s)) = Some (map Some s)"
            using rdn_eq [of ?h1 k ?m 0 "int (length s)" 0] O(2) kn by simp
          moreover have "wrn ?h1 (Some (bm_next h, 0)) 0 (map Some s) = Some ?h2"
          proof -
            have "bm_blk ?h1 (bm_next h) = Some ([] @ replicate (length s) None @ None # ?r)" using l(1) by simp
            from wrn_eq [OF this, of 0 0 "map Some s"] show ?thesis by simp
          qed
          ultimately show ?thesis using False kn by (simp add: memcpy_def memmove_def overlap_def)
        qed
        have rg: "regrown h (?h2\<lparr>bm_blk := (bm_blk ?h2)(k := None)\<rparr>) k (bm_next h) (map Some s @ None # ?r)" (is "regrown h ?h3 _ _ _")
          using ok(2) kn by (auto simp: regrown_def)
        have fr: "bm_free (Some (k, 0)) ?h2 = Some ?h3" using O(2) kn by (simp add: bm_free_def)
        have ln: "len = int (length s) + 1 + int (length ?r)" using l(2) by (cases len rule: int_cases) auto
        obtain h4 where "?cont (Some (bm_next h, 0), len, ?h3) = Some (BSTR_OK, h4)" "ready h h4 i s k olen"
          using fin [OF rg ln] len by blast
        moreover have "?grow = Some (Some (bm_next h, 0), len, ?h3)"
          by (simp only: slack if_False ok(1) Let_def prod.case option.distinct cp fr Option.bind.simps)
        ultimately show ?thesis using run by (simp only: Option.bind.simps) blast
      qed
    qed
  qed
qed

end
