(* ===== verification/BstrEdit.thy ===== *)
theory BstrEdit
  imports BstrMem
begin

text \<open>
  The operations that build and change a string: copies, concatenation, truncation, case and assignment.
  \<open>outcome\<close> is the contract that they share.
\<close>

section \<open>Copies\<close>

text \<open>\<open>quiet\<close>: only addresses and outcomes of the allocator were used up. \<open>extended\<close>: a new string was added.\<close>

definition quiet :: "bmem \<Rightarrow> bmem \<Rightarrow> bool" where
  "quiet h h' \<longleftrightarrow> bm_hdr h' = bm_hdr h \<and> bm_blk h' = bm_blk h \<and> bm_next h \<le> bm_next h' \<and>
     (bm_alloc h = [] \<longrightarrow> bm_alloc h' = [])"

definition extended :: "bmem \<Rightarrow> bmem \<Rightarrow> nat \<Rightarrow> nat \<Rightarrow> bool" where
  "extended h h' a k \<longleftrightarrow> heap_ok h' \<and> bm_next h \<le> a \<and> bm_next h \<le> k \<and> bm_next h \<le> bm_next h' \<and>
     (\<forall>x. x \<noteq> a \<longrightarrow> bm_hdr h' x = bm_hdr h x) \<and> (\<forall>x. x \<noteq> k \<longrightarrow> bm_blk h' x = bm_blk h x) \<and>
     (bm_alloc h = [] \<longrightarrow> bm_alloc h' = [])"

lemma quiet_heap_ok: "quiet h h' \<Longrightarrow> heap_ok h \<Longrightarrow> heap_ok h'"
  unfolding quiet_def heap_ok_def using order_less_le_trans by metis

lemma quiet_owns: "quiet h h' \<Longrightarrow> owns h' i s k rest = owns h i s k rest"
  by (simp add: quiet_def owns_def)

lemma quiet_reads: "quiet h h' \<Longrightarrow> reads h' i s = reads h i s"
  by (simp add: quiet_def reads_def)

lemma quiet_framed: "quiet h h' \<Longrightarrow> heap_ok h \<Longrightarrow> framed h h' i k k"
  using quiet_heap_ok [of h h'] by (simp add: quiet_def framed_def)

lemma quiet_refl [simp]: "quiet h h"
  by (simp add: quiet_def)

lemma quiet_alloc: "(bm_alloc h = [] \<longrightarrow> al = []) \<Longrightarrow> quiet h (h\<lparr>bm_alloc := al\<rparr>)"
  by (simp add: quiet_def)

lemma new_hdr_cases:
  obtains (ok) al where "new_hdr h = (Some (bm_next h),
      h\<lparr>bm_hdr := (bm_hdr h)(bm_next h \<mapsto> \<lparr>b_mlen = 0, b_slen = 0, b_data = None\<rparr>), bm_next := bm_next h + 1, bm_alloc := al\<rparr>)"
    "bm_alloc h = [] \<longrightarrow> al = []"
  | (null) al where "new_hdr h = (None, h\<lparr>bm_alloc := al\<rparr>)" "bm_alloc h \<noteq> []"
proof (cases "alloc_next (bm_alloc h)")
  case (Pair b al)
  then show thesis
    using ok [of al] null [of al] by (cases b; cases "bm_alloc h") (auto simp: new_hdr_def)
qed

text \<open>Filling a new block with characters and their terminator.\<close>

lemma fill_block:
  assumes "bm_blk h k = Some (replicate N None)" "bm_blk h k2 = Some m" "k \<noteq> k2" "off + length t \<le> length m"
    "take (length t) (drop off m) = map Some t" "length t < N"
  shows "Option.bind (if int (length t) \<noteq> 0 then memcpy h (Some (k, 0)) 0 (Some (k2, off)) 0 (int (length t)) else Some h)
      (\<lambda>h. wrb h (Some (k, 0)) (int (length t)) 0) =
    Some (h\<lparr>bm_blk := (bm_blk h)(k \<mapsto> map Some t @ Some 0 # replicate (N - length t - 1) None)\<rparr>)"
proof -
  let ?r = "replicate (N - length t - 1) (None :: cell)"
  let ?h2 = "h\<lparr>bm_blk := (bm_blk h)(k \<mapsto> map Some t @ None # ?r)\<rparr>"
  have N: "replicate N None = replicate (length t) None @ None # ?r"
    using assms(6) by (simp add: replicate_add [symmetric] flip: replicate_Suc)
  have "(if int (length t) \<noteq> 0 then memcpy h (Some (k, 0)) 0 (Some (k2, off)) 0 (int (length t)) else Some h) = Some ?h2"
  proof (cases "t = []")
    case True
    then show ?thesis using assms(1) N by (auto intro!: bmem.equality)
  next
    case False
    have "bm_blk h k = Some ([] @ replicate (length t) None @ None # ?r)" using assms(1) N by simp
    from wrn_eq [OF this, of 0 0 "map Some t"]
    have "wrn h (Some (k, 0)) 0 (map Some t) = Some ?h2" by simp
    moreover have "rdn h (Some (k2, off)) 0 (int (length t)) = Some (map Some t)"
      using rdn_eq [OF assms(2), of 0 "int (length t)" off] assms(4,5) by simp
    ultimately show ?thesis using False assms(3) by (simp add: memcpy_def memmove_def overlap_def)
  qed
  moreover have "wrb ?h2 (Some (k, 0)) (int (length t)) 0 =
      Some (h\<lparr>bm_blk := (bm_blk h)(k \<mapsto> map Some t @ Some 0 # ?r)\<rparr>)"
    using wrb_eq [of ?h2 k "map Some t" None ?r 0 "int (length t)" 0] by simp
  ultimately show ?thesis by (simp only: Option.bind.simps)
qed

lemma readsE:
  assumes "reads h i s"
  obtains n k off m where "bm_hdr h i = Some \<lparr>b_mlen = n, b_slen = int (length s), b_data = Some (k, off)\<rparr>"
    "bm_blk h k = Some m" "off + length s \<le> length m" "take (length s) (drop off m) = map Some s"
  using assms unfolding reads_def by blast

text \<open>The two attempts of \<open>bstrcpy\<close> to get a block.\<close>

lemma two_mallocs:
  assumes "n \<le> N"
  shows "\<exists>d j h'. bstrcpy_block n N h = (d, j, h') \<and> n \<le> j \<and>
    (d = None \<and> bm_alloc h \<noteq> [] \<and> quiet h h' \<or>
     d = Some (bm_next h, 0) \<and> (\<exists>al. (bm_alloc h = [] \<longrightarrow> al = []) \<and> h' = h\<lparr>bm_blk := (bm_blk h)(bm_next h \<mapsto> replicate (nat j) None),
       bm_next := bm_next h + 1, bm_alloc := al\<rparr>))"
proof (cases rule: malloc_ok_cases [of N h])
  case (ok al)
  then show ?thesis using assms by (auto simp: bstrcpy_block_def)
next
  case (null al)
  show ?thesis
  proof (cases rule: malloc_ok_cases [of n "h\<lparr>bm_alloc := al\<rparr>"])
    case (ok al2)
    then show ?thesis using null by (auto simp: bstrcpy_block_def)
  next
    case (null al2)
    then show ?thesis using \<open>bm_malloc N h = _\<close> \<open>bm_alloc h \<noteq> []\<close> by (auto simp: bstrcpy_block_def intro: quiet_alloc)
  qed
qed

lemma bstrcpy_ok:
  assumes "heap_ok h" "reads h j t" "int (length t) < INT_MAX"
  shows "\<exists>b h'. bstrcpy (Some j) h = Some (b, h') \<and>
    (b = None \<and> bm_alloc h \<noteq> [] \<and> quiet h h' \<or>
     (\<exists>a k rest. b = Some a \<and> owns h' a t k rest \<and> extended h h' a k))"
proof -
  obtain n k off m where R: "bm_hdr h j = Some \<lparr>b_mlen = n, b_slen = int (length t), b_data = Some (k, off)\<rparr>"
    "bm_blk h k = Some m" "off + length t \<le> length m" "take (length t) (drop off m) = map Some t"
    using readsE [OF assms(2)] .
  have c: "cint (int (length t) + 1) = Some (int (length t) + 1)"
    using assms(3) by (simp add: INT_MIN_def)
  have sn: "int (length t) + 1 \<le> snapUpSize (int (length t) + 1)"
    using snapUpSize_bounds(1) assms(3) by simp
  have fresh: "bm_hdr h x = None" "bm_blk h x = None" if "bm_next h \<le> x" for x
    using heap_ok_fresh [OF assms(1) that] by auto
  have kn: "k < bm_next h" using heap_okD(1) [OF assms(1) R(2)] .
  show ?thesis
  proof (cases rule: new_hdr_cases [of h])
    case (null al)
    then show ?thesis using R by (auto simp: bstrcpy_def intro: quiet_alloc)
  next
    case (ok al)
    let ?h1 = "h\<lparr>bm_hdr := (bm_hdr h)(bm_next h \<mapsto> \<lparr>b_mlen = 0, b_slen = 0, b_data = None\<rparr>), bm_next := bm_next h + 1, bm_alloc := al\<rparr>"
    let ?a = "bm_next h"
    obtain d N h2 where M: "bstrcpy_block (int (length t) + 1) (snapUpSize (int (length t) + 1)) ?h1 = (d, N, h2)"
      "int (length t) + 1 \<le> N"
      "d = None \<and> bm_alloc ?h1 \<noteq> [] \<and> quiet ?h1 h2 \<or>
       d = Some (bm_next ?h1, 0) \<and> (\<exists>al. (bm_alloc ?h1 = [] \<longrightarrow> al = []) \<and>
         h2 = ?h1\<lparr>bm_blk := (bm_blk ?h1)(bm_next ?h1 \<mapsto> replicate (nat N) None), bm_next := bm_next ?h1 + 1, bm_alloc := al\<rparr>)"
      using two_mallocs [OF sn, of ?h1] by blast
    have run: "bstrcpy (Some j) h =
      (if d = None then do {
         h \<leftarrow> free_hdr (Some ?a) h2;
         Some (None, h)
       } else do {
         h \<leftarrow> set_hdr h2 (Some ?a) \<lparr>b_mlen = N, b_slen = int (length t), b_data = d\<rparr>;
         h \<leftarrow> Option.bind (if int (length t) \<noteq> 0 then memcpy h d 0 (Some (k, off)) 0 (int (length t)) else Some h)
           (\<lambda>h. wrb h d (int (length t)) 0);
         Some (Some ?a, h)
       })"
      using R(1) ok(1) c M(1) by (simp add: bstrcpy_def Let_def cong: if_cong)
    show ?thesis
      using M(3)
    proof (elim disjE conjE exE)
      assume d: "d = None" "bm_alloc ?h1 \<noteq> []" "quiet ?h1 h2"
      have "free_hdr (Some ?a) h2 = Some (h2\<lparr>bm_hdr := (bm_hdr h2)(?a := None)\<rparr>)" (is "_ = Some ?h3")
        using d(3) by (simp add: free_hdr_def quiet_def)
      moreover have "quiet h ?h3" using d(3) ok(2) fresh by (auto simp: quiet_def)
      ultimately show ?thesis using run d(1,2) ok(2) by auto
    next
      fix al2
      assume d: "d = Some (bm_next ?h1, 0)" "bm_alloc ?h1 = [] \<longrightarrow> al2 = []"
        and h2: "h2 = ?h1\<lparr>bm_blk := (bm_blk ?h1)(bm_next ?h1 \<mapsto> replicate (nat N) None), bm_next := bm_next ?h1 + 1, bm_alloc := al2\<rparr>"
      let ?hd = "\<lparr>b_mlen = N, b_slen = int (length t), b_data = Some (?a + 1, 0)\<rparr>"
      let ?h3 = "h2\<lparr>bm_hdr := (bm_hdr h2)(?a \<mapsto> ?hd)\<rparr>"
      have 3: "set_hdr h2 (Some ?a) ?hd = Some ?h3" using h2 by (simp add: set_hdr_def)
      have "bm_blk ?h3 (?a + 1) = Some (replicate (nat N) None)" "bm_blk ?h3 k = Some m" "?a + 1 \<noteq> k"
        using h2 R(2) kn by auto
      from fill_block [OF this R(3,4)]
      have 4: "Option.bind (if int (length t) \<noteq> 0 then memcpy ?h3 (Some (?a + 1, 0)) 0 (Some (k, off)) 0 (int (length t)) else Some ?h3)
          (\<lambda>h. wrb h (Some (?a + 1, 0)) (int (length t)) 0) =
        Some (?h3\<lparr>bm_blk := (bm_blk ?h3)(?a + 1 \<mapsto> map Some t @ Some 0 # replicate (nat N - length t - 1) None)\<rparr>)" (is "_ = Some ?h4")
        using M(2) by linarith
      have "owns ?h4 ?a t (?a + 1) (replicate (nat N - length t - 1) None)"
        using M(2) by (cases N rule: int_cases) (auto simp: owns_def)
      moreover have "extended h ?h4 ?a (?a + 1)"
        using h2 ok(2) d(2) assms(1) by (auto simp: extended_def heap_ok_def less_Suc_eq)
      moreover have dd: "d = Some (?a + 1, 0)" using d(1) by simp
      have "bstrcpy (Some j) h = Some (Some ?a, ?h4)"
        unfolding run dd by (simp only: option.distinct if_False 3 4 Option.bind.simps)
      ultimately show ?thesis by blast
    qed
  qed
qed

lemma bdestroy_ok:
  assumes "owns h a t k rest"
  shows "bdestroy (Some a) h = Some (BSTR_OK, h\<lparr>bm_blk := (bm_blk h)(k := None), bm_hdr := (bm_hdr h)(a := None)\<rparr>)"
  using ownsD [OF assms] by (simp add: not_bad_owned bdestroy_def bm_free_def set_hdr_def free_hdr_def)

section \<open>Concatenation\<close>

text \<open>The state after the characters \<open>t\<close> are appended in place to the string \<open>i\<close>.\<close>

definition appended :: "bmem \<Rightarrow> nat \<Rightarrow> bytes \<Rightarrow> nat \<Rightarrow> cell list \<Rightarrow> bytes \<Rightarrow> bmem" where
  "appended h i s k rest t = h\<lparr>bm_blk := (bm_blk h)(k \<mapsto> map Some (s @ t) @ Some 0 # drop (length t) rest),
     bm_hdr := (bm_hdr h)(i \<mapsto>
       \<lparr>b_mlen = int (length s) + 1 + int (length rest), b_slen = int (length s) + int (length t), b_data = Some (k, 0)\<rparr>)\<rparr>"

lemma appended_owns: "length t \<le> length rest \<Longrightarrow> owns (appended h i s k rest t) i (s @ t) k (drop (length t) rest)"
  by (simp add: appended_def owns_def)

lemma appended_framed:
  "owns h i s k rest \<Longrightarrow> heap_ok h \<Longrightarrow> framed h (appended h i s k rest t) i k k"
  by (auto simp: framed_def appended_def heap_ok_def owns_def)

lemma framed_trans: "framed h h1 i k k1 \<Longrightarrow> framed h1 h2 i k1 k1 \<Longrightarrow> framed h h2 i k k1"
  by (auto simp: framed_def)

text \<open>The source of a copy: characters at a pointer, or nothing.\<close>

definition src_ok :: "bmem \<Rightarrow> ptr option \<Rightarrow> int \<Rightarrow> bytes \<Rightarrow> bool" where
  "src_ok h p off t \<longleftrightarrow> t = [] \<or> rdn h p off (int (length t)) = Some (map Some t)"

lemma append_copy:
  assumes "owns h i s k rest" "length t \<le> length rest" "src_ok h p off t"
  shows "bBlockCopy h (Some (k, 0)) (int (length s)) p off (int (length t)) =
    Some (h\<lparr>bm_blk := (bm_blk h)(k \<mapsto> map Some (s @ t) @ drop (length t) (Some 0 # rest))\<rparr>)"
proof (cases "t = []")
  case True
  then show ?thesis using ownsD(2) [OF assms(1)] by (auto simp: bBlockCopy_def intro!: bmem.equality)
next
  case False
  let ?z = "Some 0 # rest"
  have "bm_blk h k = Some (map Some s @ take (length t) ?z @ drop (length t) ?z)"
    unfolding append_take_drop_id by (rule ownsD(2) [OF assms(1)])
  from wrn_eq [OF this, of 0 "int (length s)" "map Some t"]
  have "wrn h (Some (k, 0)) (int (length s)) (map Some t) =
      Some (h\<lparr>bm_blk := (bm_blk h)(k \<mapsto> map Some s @ map Some t @ drop (length t) ?z)\<rparr>)"
    using assms(2) by simp
  then show ?thesis using False assms(3) by (simp add: bBlockCopy_def memmove_def src_ok_def)
qed

lemma append_end:
  fixes h h' :: bmem
  assumes "length t \<le> length rest"
  shows "wrb (h\<lparr>bm_blk := (bm_blk h')(k \<mapsto> map Some (s @ t) @ drop (length t) (Some 0 # rest))\<rparr>) (Some (k, 0))
      (int (length s) + int (length t)) 0 =
    Some (h\<lparr>bm_blk := (bm_blk h')(k \<mapsto> map Some (s @ t) @ Some 0 # drop (length t) rest)\<rparr>)"
proof -
  have "\<exists>x. drop (length t) (Some 0 # rest) = x # drop (length t) rest"
    using assms Cons_nth_drop_Suc [of "length t" "Some 0 # rest"] by (metis drop_Suc_Cons length_Cons less_Suc_eq_le)
  then obtain x where x: "drop (length t) (Some 0 # rest) = x # drop (length t) rest" ..
  show ?thesis
    unfolding x
    using wrb_eq [of "h\<lparr>bm_blk := (bm_blk h')(k \<mapsto> map Some (s @ t) @ x # drop (length t) rest)\<rparr>" k "map Some (s @ t)"
        x "drop (length t) rest" 0 "int (length s) + int (length t)" 0]
    by (simp add: nat_int_add)
qed

lemma concat_tail:
  assumes "owns h i s k rest" "bm_hdr h a = Some ha" "src_ok h (b_data ha) 0 t" "length t \<le> length rest"
  shows "do {
      h0 \<leftarrow> hdr_of h (Some i);
      ha \<leftarrow> hdr_of h (Some a);
      h \<leftarrow> bBlockCopy h (b_data h0) (int (length s)) (b_data ha) 0 (int (length t));
      h \<leftarrow> wrb h (b_data h0) (int (length s) + int (length t)) 0;
      h \<leftarrow> set_hdr h (Some i) (h0\<lparr>b_slen := int (length s) + int (length t)\<rparr>);
      h \<leftarrow> drop_aux (Some a) b1 h;
      Some (BSTR_OK, h)
    } = do {
      h \<leftarrow> drop_aux (Some a) b1 (appended h i s k rest t);
      Some (BSTR_OK, h)
    }"
  using ownsD(1) [OF assms(1)] assms(2) append_copy [OF assms(1,4,3)] append_end [OF assms(4), where h = h and h' = h and k = k and s = s]
  by (simp add: set_hdr_def appended_def)

text \<open>
  The copy that \<open>bconcat\<close> makes of a source in the destination's block: the block and the header
  are new, and they are gone at the end.
\<close>

lemma drop_copy:
  assumes "heap_ok h" "extended h h1 a ka" "framed h1 h2 i k k'" "owns h1 a t ka ra"
    "bm_hdr h i = Some y" "bm_blk h k = Some m" "a \<noteq> i" "Some a \<noteq> b1"
  shows "\<exists>h3. drop_aux (Some a) b1 h2 = Some h3 \<and> framed h h3 i k k' \<and>
    (\<forall>s rest. owns h2 i s k' rest \<longrightarrow> owns h3 i s k' rest)"
proof -
  have E: "heap_ok h1" "bm_next h \<le> a" "bm_next h \<le> ka" "bm_next h \<le> bm_next h1"
    "\<And>x. x \<noteq> a \<Longrightarrow> bm_hdr h1 x = bm_hdr h x" "\<And>x. x \<noteq> ka \<Longrightarrow> bm_blk h1 x = bm_blk h x"
    "bm_alloc h = [] \<Longrightarrow> bm_alloc h1 = []"
    using assms(2) by (auto simp: extended_def)
  have F: "heap_ok h2" "bm_next h1 \<le> bm_next h2" "\<And>j. j \<noteq> i \<Longrightarrow> bm_hdr h2 j = bm_hdr h1 j"
    "\<And>j. j \<noteq> k \<Longrightarrow> j \<noteq> k' \<Longrightarrow> bm_blk h2 j = bm_blk h1 j" "k' \<noteq> k \<Longrightarrow> bm_next h1 \<le> k' \<and> bm_blk h2 k = None"
    "bm_alloc h1 = [] \<Longrightarrow> bm_alloc h2 = []"
    using assms(3) by (auto simp: framed_def)
  have k: "k < bm_next h" using heap_okD(1) [OF assms(1,6)] .
  then have kk: "ka \<noteq> k" using E(3) by simp
  have "ka < bm_next h1" using heap_okD(1) [OF E(1) ownsD(2) [OF assms(4)]] .
  then have kk': "ka \<noteq> k'" using F(5) kk by auto
  have o: "owns h2 a t ka ra" using assms(4,7) F(3,4) kk kk' by (simp add: owns_def)
  let ?h3 = "h2\<lparr>bm_blk := (bm_blk h2)(ka := None), bm_hdr := (bm_hdr h2)(a := None)\<rparr>"
  have "drop_aux (Some a) b1 h2 = Some ?h3" using bdestroy_ok [OF o] assms(8) by (simp add: drop_aux_def)
  moreover have "framed h ?h3 i k k'"
    unfolding framed_def
  proof (intro conjI allI impI)
    show "heap_ok ?h3" using F(1) by (auto simp: heap_ok_def)
    show "bm_next h \<le> bm_next ?h3" using E(4) F(2) by simp
    show "bm_hdr ?h3 j = bm_hdr h j" if "j \<noteq> i" for j
      using that E(2,5) F(3) heap_ok_fresh [OF assms(1), of a] by auto
    show "bm_blk ?h3 j = bm_blk h j" if "j \<noteq> k \<and> j \<noteq> k'" for j
      using that E(3,6) F(4) heap_ok_fresh [OF assms(1), of ka] by auto
    show "bm_next h \<le> k'" "bm_blk ?h3 k = None" if "k' \<noteq> k" using F(5) that E(4) by auto
    show "bm_alloc ?h3 = []" if "bm_alloc h = []" using that E(7) F(6) by simp
  qed
  moreover have "owns ?h3 i s k' rest" if "owns h2 i s k' rest" for s rest
    using that kk' assms(7) by (simp add: owns_def)
  ultimately show ?thesis by blast
qed

text \<open>
  The outcome of an operation that turns the string \<open>i\<close> from \<open>s\<close> into \<open>u\<close>: it succeeds, or an
  allocation failed and the string is as before.
\<close>

definition outcome :: "bmem \<Rightarrow> int \<Rightarrow> bmem \<Rightarrow> nat \<Rightarrow> bytes \<Rightarrow> nat \<Rightarrow> cell list \<Rightarrow> bytes \<Rightarrow> bool" where
  "outcome h r h' i s k rest u \<longleftrightarrow>
     r = BSTR_OK \<and> (\<exists>k' rest'. owns h' i u k' rest' \<and> framed h h' i k k' \<and>
       int (length u) + 1 + int (length rest') \<le> max (int (length s) + 1 + int (length rest)) (snapUpSize (int (length u) + 1))) \<or>
     r = BSTR_ERR \<and> bm_alloc h \<noteq> [] \<and> owns h' i s k rest \<and> framed h h' i k k"

lemma ready_bound:
  assumes "owns h i s k rest" "ready h h' i s k n"
  shows "\<exists>k' rest'. owns h' i s k' rest' \<and> framed h h' i k k' \<and> n \<le> int (length s) + 1 + int (length rest') \<and>
    int (length s) + 1 + int (length rest') \<le> max (int (length s) + 1 + int (length rest)) (snapUpSize n)"
proof -
  obtain k' rest' where k': "owns h' i s k' rest'" "framed h h' i k k'" "n \<le> int (length s) + 1 + int (length rest')"
    "k' = k \<longrightarrow> bm_blk h' = bm_blk h" "k' \<noteq> k \<longrightarrow> int (length s) + 1 + int (length rest') \<le> snapUpSize n"
    using assms(2) unfolding ready_def by blast
  have "rest' = rest" if "k' = k" using that k'(1,4) ownsD(2) [OF assms(1)] ownsD(2) [OF k'(1)] by simp
  then show ?thesis using k' by (cases "k' = k") (auto simp: le_max_iff_disj)
qed

lemma reads_src: "reads h j t \<Longrightarrow> bm_hdr h j = Some hj \<Longrightarrow> b_slen hj = int (length t) \<and> b_data hj \<noteq> None \<and> src_ok h (b_data hj) 0 t"
  unfolding reads_def src_ok_def by (auto simp: rdn_eq)

lemma BSTR_neq [simp]: "BSTR_ERR \<noteq> BSTR_OK" "BSTR_OK \<noteq> BSTR_ERR" "\<not> BSTR_OK < 0" "BSTR_ERR < 0"
  by (simp_all add: BSTR_OK_def BSTR_ERR_def)

text \<open>A source outside of the destination's block survives its growth.\<close>

lemma outside_src:
  assumes "heap_ok h" "owns h i s k rest" "reads h j t" "bm_hdr h j = Some hj" "framed h h1 i k k'"
    "\<not> ptr_within (b_data hj) (Some (k, 0)) (int (length s) + 1 + int (length rest))"
  shows "bm_hdr h1 j = Some hj \<and> src_ok h1 (b_data hj) 0 t"
proof -
  obtain n kj off m where R: "hj = \<lparr>b_mlen = n, b_slen = int (length t), b_data = Some (kj, off)\<rparr>"
    "bm_blk h kj = Some m" "off + length t \<le> length m" "take (length t) (drop off m) = map Some t"
    using readsE [OF assms(3)] assms(4) by (metis option.inject)
  note O = ownsD [OF assms(2)]
  have ji: "j \<noteq> i" using assms(4,6) O(1) by (auto simp: ptr_within_def)
  have "t = [] \<or> kj \<noteq> k" using assms(6) R O(2) by (auto simp: ptr_within_def)
  moreover have "src_ok h1 (b_data hj) 0 t" if "kj \<noteq> k"
  proof -
    have "bm_blk h1 kj = bm_blk h kj"
      using that assms(5) heap_okD(1) [OF assms(1) R(2)] by (auto simp: framed_def)
    then show ?thesis using rdn_eq [of h1 kj m 0 "int (length t)" off] R by (simp add: src_ok_def)
  qed
  ultimately show ?thesis using ji assms(4,5) by (auto simp: framed_def src_ok_def)
qed

lemma bconcat_ok:
  assumes "heap_ok h" "owns h i s k rest" "reads h j t" "int (length s) + int (length t) < INT_MAX"
    "8 * (int (length s) + 1 + int (length rest)) \<le> INT_MAX"
  shows "\<exists>r h'. bconcat (Some i) (Some j) h = Some (r, h') \<and> outcome h r h' i s k rest (s @ t)"
proof -
  let ?dl = "int (length s) + int (length t)"
  let ?mlen = "int (length s) + 1 + int (length rest)"
  note O = ownsD [OF assms(2)]
  obtain hj where hj: "bm_hdr h j = Some hj" using assms(3) by (auto simp: reads_def)
  note S = reads_src [OF assms(3) hj]
  let ?cont = "\<lambda>(r, aux, h). if r \<noteq> BSTR_OK then Some (BSTR_ERR, h)
      else do {
        h0 \<leftarrow> hdr_of h (Some i);
        ha \<leftarrow> hdr_of h aux;
        h \<leftarrow> bBlockCopy h (b_data h0) (int (length s)) (b_data ha) 0 (int (length t));
        h \<leftarrow> wrb h (b_data h0) ?dl 0;
        h \<leftarrow> set_hdr h (Some i) (h0\<lparr>b_slen := ?dl\<rparr>);
        h \<leftarrow> drop_aux aux (Some j) h;
        Some (BSTR_OK, h)
      }"
  let ?grow = "if ?mlen \<le> ?dl + 1 then do {
        (aux, h) \<leftarrow> if ptr_within (b_data hj) (Some (k, 0)) ?mlen then bstrcpy (Some j) h else Some (Some j, h);
        if aux = None then Some (BSTR_ERR, Some j, h)
        else do {
          (r, h) \<leftarrow> balloc (Some i) (?dl + 1) h;
          if r \<noteq> BSTR_OK then do {
            h \<leftarrow> drop_aux aux (Some j) h;
            Some (BSTR_ERR, Some j, h)
          } else Some (BSTR_OK, aux, h)
        }
      } else Some (BSTR_OK, Some j, h)"
  have c: "cint (?mlen - int (length s)) = Some (?mlen - int (length s))" "cint ?dl = Some ?dl" "cint (?dl + 1) = Some (?dl + 1)"
    using assms(4,5) by (simp_all add: INT_MIN_def)
  have run: "bconcat (Some i) (Some j) h = Option.bind ?grow ?cont"
  proof -
    have 1: "b_slen hj = int (length t)" "(b_data hj = None) = False" using S by auto
    show ?thesis
      using c by (simp add: bconcat_def Let_def O(1) hj 1 or_negative_int_iff cong: if_cong split del: if_split)
  qed
  have tail: "?cont (BSTR_OK, Some a, h1) = Option.bind (drop_aux (Some a) (Some j) (appended h1 i s k' rest' t)) (\<lambda>h. Some (BSTR_OK, h))"
    if "owns h1 i s k' rest'" "bm_hdr h1 a = Some ha" "src_ok h1 (b_data ha) 0 t" "length t \<le> length rest'" for a h1 k' rest' ha
    using concat_tail [OF that, of "Some j"] by simp
  have direct: "\<exists>h'. ?cont (BSTR_OK, Some j, h1) = Some (BSTR_OK, h') \<and> outcome h BSTR_OK h' i s k rest (s @ t)"
    if a: "owns h1 i s k' rest'" "bm_hdr h1 j = Some ha" "src_ok h1 (b_data ha) 0 t" "length t \<le> length rest'"
      "framed h h1 i k k'" "int (length s) + 1 + int (length rest') \<le> max ?mlen (snapUpSize (?dl + 1))" for h1 k' rest' ha
  proof -
    have "framed h (appended h1 i s k' rest' t) i k k'"
      using framed_trans [OF a(5) appended_framed [OF a(1)]] a(5) by (simp add: framed_def)
    moreover have "int (length (s @ t)) + 1 + int (length (drop (length t) rest')) = int (length s) + 1 + int (length rest')"
      using a(4) by simp
    ultimately show ?thesis using tail [OF a(1-4)] appended_owns [OF a(4), of h1 i s k'] a(6)
      unfolding outcome_def drop_aux_def by fastforce
  qed
  show ?thesis
  proof (cases "?mlen \<le> ?dl + 1")
    case False
    then show ?thesis using run direct [OF assms(2) hj conjunct2 [OF conjunct2 [OF S]] _ framed_refl [OF assms(1)]] by force
  next
    case True
    have n: "0 < ?dl + 1" "?dl + 1 \<le> INT_MAX" using assms(4) by simp_all
    show ?thesis
    proof (cases "ptr_within (b_data hj) (Some (k, 0)) ?mlen")
      case False
      obtain r h1 where B: "balloc (Some i) (?dl + 1) h = Some (r, h1)"
        "r = BSTR_OK \<and> ready h h1 i s k (?dl + 1) \<or> r = BSTR_ERR \<and> bm_alloc h \<noteq> [] \<and> (\<exists>al. h1 = h\<lparr>bm_alloc := al\<rparr>)"
        using balloc_ok [OF assms(1,2) n assms(5)] by blast
      show ?thesis
        using B(2)
      proof (elim disjE conjE exE)
        assume r: "r = BSTR_OK" "ready h h1 i s k (?dl + 1)"
        obtain k' rest' where k': "owns h1 i s k' rest'" "framed h h1 i k k'" "?dl + 1 \<le> int (length s) + 1 + int (length rest')"
          "int (length s) + 1 + int (length rest') \<le> max ?mlen (snapUpSize (?dl + 1))"
          using ready_bound [OF assms(2) r(2)] by blast
        note o = outside_src [OF assms(1,2,3) hj k'(2) False]
        have "length t \<le> length rest'" using k'(3) by simp
        from direct [OF k'(1) conjunct1 [OF o] conjunct2 [OF o] this k'(2,4)]
        show ?thesis using run True False B(1) r(1) by auto
      next
        fix al assume r: "r = BSTR_ERR" "bm_alloc h \<noteq> []" "h1 = h\<lparr>bm_alloc := al\<rparr>"
        then show ?thesis using run True False B(1) assms(1,2) framed_alloc [OF assms(1)]
          by (auto simp: outcome_def drop_aux_def)
      qed
    next
      case inside: True
      have "int (length t) < INT_MAX" using assms(4) by linarith
      then obtain b h1 where C: "bstrcpy (Some j) h = Some (b, h1)"
        "b = None \<and> bm_alloc h \<noteq> [] \<and> quiet h h1 \<or> (\<exists>a ka ra. b = Some a \<and> owns h1 a t ka ra \<and> extended h h1 a ka)"
        using bstrcpy_ok [OF assms(1,3)] by blast
      show ?thesis
        using C(2)
      proof (elim disjE conjE exE)
        assume b: "b = None" "bm_alloc h \<noteq> []" "quiet h h1"
        then show ?thesis using run True inside C(1) quiet_framed [OF b(3) assms(1)] assms(2)
          by (auto simp: outcome_def quiet_owns)
      next
        fix a ka ra assume b: "b = Some a" "owns h1 a t ka ra" "extended h h1 a ka"
        have kn: "i < bm_next h" "j < bm_next h" "k < bm_next h"
          using heap_okD(2) [OF assms(1) O(1)] heap_okD(2) [OF assms(1) hj] heap_okD(1) [OF assms(1) O(2)] .
        then have ne: "a \<noteq> i" "Some a \<noteq> Some j" "ka \<noteq> k" using b(3) by (auto simp: extended_def)
        have h1: "heap_ok h1" "owns h1 i s k rest" using b(3) ne assms(2) by (auto simp: extended_def owns_def)
        obtain r h2 where B: "balloc (Some i) (?dl + 1) h1 = Some (r, h2)"
          "r = BSTR_OK \<and> ready h1 h2 i s k (?dl + 1) \<or> r = BSTR_ERR \<and> bm_alloc h1 \<noteq> [] \<and> (\<exists>al. h2 = h1\<lparr>bm_alloc := al\<rparr>)"
          using balloc_ok [OF h1 n assms(5)] by blast
        note drop = drop_copy [OF assms(1) b(3) _ b(2) O ne(1,2)]
        show ?thesis
          using B(2)
        proof (elim disjE conjE exE)
          assume r: "r = BSTR_OK" "ready h1 h2 i s k (?dl + 1)"
          obtain k' rest' where k': "owns h2 i s k' rest'" "framed h1 h2 i k k'" "?dl + 1 \<le> int (length s) + 1 + int (length rest')"
            "int (length s) + 1 + int (length rest') \<le> max ?mlen (snapUpSize (?dl + 1))"
            using ready_bound [OF h1(2) r(2)] by blast
          have l: "length t \<le> length rest'" using k'(3) by simp
          let ?h3 = "appended h2 i s k' rest' t"
          have f3: "framed h1 ?h3 i k k'"
            using framed_trans [OF k'(2) appended_framed [OF k'(1)]] k'(2) by (simp add: framed_def)
          have ah: "bm_hdr h1 a = Some \<lparr>b_mlen = int (length t) + 1 + int (length ra), b_slen = int (length t), b_data = Some (ka, 0)\<rparr>"
            "bm_blk h1 ka = Some (map Some t @ Some 0 # ra)" using ownsD [OF b(2)] .
          have "ka \<noteq> k'" using ne(3) k'(2) heap_okD(1) [OF h1(1) ah(2)] by (auto simp: framed_def)
          then have a2: "bm_hdr h2 a = bm_hdr h1 a" "bm_blk h2 ka = bm_blk h1 ka"
            using k'(2) ne by (auto simp: framed_def)
          have "src_ok h2 (Some (ka, 0)) 0 t" using rdn_eq [of h2 ka _ 0 "int (length t)" 0] a2(2) ah(2) by (simp add: src_ok_def)
          then have t: "?cont (BSTR_OK, Some a, h2) = Option.bind (drop_aux (Some a) (Some j) ?h3) (\<lambda>h. Some (BSTR_OK, h))"
            using tail [OF k'(1) a2(1) [unfolded ah(1)] _ l] by simp
          obtain h4 where "drop_aux (Some a) (Some j) ?h3 = Some h4" "framed h h4 i k k'" "owns h4 i (s @ t) k' (drop (length t) rest')"
            using drop [OF f3] appended_owns [OF l] by blast
          moreover have "int (length (s @ t)) + 1 + int (length (drop (length t) rest')) = int (length s) + 1 + int (length rest')"
            using l by simp
          ultimately have "outcome h BSTR_OK h4 i s k rest (s @ t)" using k'(4) unfolding outcome_def by fastforce
          then show ?thesis using run True inside C(1) b(1) B(1) r(1) t \<open>drop_aux (Some a) (Some j) ?h3 = Some h4\<close> by auto
        next
          fix al assume r: "r = BSTR_ERR" "bm_alloc h1 \<noteq> []" "h2 = h1\<lparr>bm_alloc := al\<rparr>"
          have "framed h1 h2 i k k" using framed_alloc [OF h1(1)] r by simp
          from drop [OF this] obtain h4 where "drop_aux (Some a) (Some j) h2 = Some h4" "framed h h4 i k k" "owns h4 i s k rest"
            using h1(2) r(3) by auto
          then show ?thesis using run True inside C(1) b(1) B(1) r b(3) by (auto simp: outcome_def extended_def)
        qed
      qed
    qed
  qed
qed

section \<open>Appending blocks and characters\<close>

lemma hdr_blk_commute: "h\<lparr>bm_hdr := y, bm_blk := x\<rparr> = h\<lparr>bm_blk := x, bm_hdr := y\<rparr>" for h :: bmem
  by (rule bmem.equality) simp_all

lemma balloc_room:
  assumes "heap_ok h" "owns h i s k rest" "0 < n" "n \<le> INT_MAX" "8 * (int (length s) + 1 + int (length rest)) \<le> INT_MAX"
  obtains (ok) h' k' rest' where "balloc (Some i) n h = Some (BSTR_OK, h')" "owns h' i s k' rest'" "framed h h' i k k'"
    "n \<le> int (length s) + 1 + int (length rest')" "int (length s) + 1 + int (length rest') \<le> max (int (length s) + 1 + int (length rest)) (snapUpSize n)"
  | (fail) al where "balloc (Some i) n h = Some (BSTR_ERR, h\<lparr>bm_alloc := al\<rparr>)" "bm_alloc h \<noteq> []"
proof -
  obtain r h' where "balloc (Some i) n h = Some (r, h')"
    "r = BSTR_OK \<and> ready h h' i s k n \<or> r = BSTR_ERR \<and> bm_alloc h \<noteq> [] \<and> (\<exists>al. h' = h\<lparr>bm_alloc := al\<rparr>)"
    using balloc_ok [OF assms] by blast
  then show thesis using ok fail ready_bound [OF assms(2)] by blast
qed

text \<open>A source in another block is not touched by the growth.\<close>

lemma foreign_src:
  assumes "heap_ok h" "framed h h1 i k k'" "src_ok h (Some (kp, po)) off t" "kp \<noteq> k"
  shows "src_ok h1 (Some (kp, po)) off t"
proof (cases "bm_blk h kp")
  case None
  then show ?thesis using assms(3) by (simp add: src_ok_def rdn_def)
next
  case (Some m)
  then have "bm_blk h1 kp = bm_blk h kp"
    using assms(2,4) heap_okD(1) [OF assms(1) Some] by (auto simp: framed_def)
  then show ?thesis using assms(3) by (simp add: src_ok_def rdn_def)
qed

lemma owned_failed: "owns h i s k rest \<Longrightarrow> heap_ok h \<Longrightarrow> bm_alloc h \<noteq> [] \<Longrightarrow>
    outcome h BSTR_ERR (h\<lparr>bm_alloc := al\<rparr>) i s k rest u"
  by (simp add: outcome_def framed_alloc)

lemma appended_outcome:
  assumes "owns h1 i s k' rest'" "framed h h1 i k k'" "length t \<le> length rest'"
    "int (length s) + 1 + int (length rest') \<le> max (int (length s) + 1 + int (length rest)) (snapUpSize (int (length s) + int (length t) + 1))"
  shows "outcome h BSTR_OK (appended h1 i s k' rest' t) i s k rest (s @ t)"
proof -
  have "heap_ok h1" using assms(2) by (simp add: framed_def)
  moreover have "int (length (s @ t)) + 1 + int (length (drop (length t) rest')) = int (length s) + 1 + int (length rest')"
    using assms(3) by simp
  ultimately show ?thesis
    using appended_owns [OF assms(3), of h1 i s k'] framed_trans [OF assms(2) appended_framed [OF assms(1)]] assms(4)
    unfolding outcome_def by fastforce
qed

lemma catblk_tail:
  assumes "owns h i s k rest" "src_ok h p off t" "length t \<le> length rest"
  shows "do {
      bh \<leftarrow> hdr_of h (Some i);
      h \<leftarrow> bBlockCopy h (b_data bh) (b_slen bh) p off (int (length t));
      h \<leftarrow> set_hdr h (Some i) (bh\<lparr>b_slen := int (length s) + int (length t)\<rparr>);
      h \<leftarrow> wrb h (b_data bh) (int (length s) + int (length t)) 0;
      Some (BSTR_OK, h)
    } = Some (BSTR_OK, appended h i s k rest t)"
  using ownsD(1) [OF assms(1)] append_copy [OF assms(1,3,2)]
    append_end [OF assms(3), where h = "h\<lparr>bm_hdr := y\<rparr>" and h' = h and k = k and s = s for y]
  by (simp add: set_hdr_def appended_def hdr_blk_commute)

lemma bcatblk_ok:
  assumes "heap_ok h" "owns h i s k rest" "src_ok h (Some (kp, po)) off t" "kp \<noteq> k"
    "int (length s) + int (length t) < INT_MAX" "8 * (int (length s) + 1 + int (length rest)) \<le> INT_MAX"
  shows "\<exists>r h'. bcatblk (Some i) (Some (kp, po)) off (int (length t)) h = Some (r, h') \<and> outcome h r h' i s k rest (s @ t)"
proof -
  let ?nl = "int (length s) + int (length t)"
  let ?mlen = "int (length s) + 1 + int (length rest)"
  note O = ownsD [OF assms(2)]
  let ?cont = "\<lambda>(r, h). if 0 > r then Some (BSTR_ERR, h)
      else do {
        bh \<leftarrow> hdr_of h (Some i);
        h \<leftarrow> bBlockCopy h (b_data bh) (b_slen bh) (Some (kp, po)) off (int (length t));
        h \<leftarrow> set_hdr h (Some i) (bh\<lparr>b_slen := ?nl\<rparr>);
        h \<leftarrow> wrb h (b_data bh) ?nl 0;
        Some (BSTR_OK, h)
      }"
  have c: "cint ?nl = Some ?nl" "cint (?nl + 1) = Some (?nl + 1)"
    using assms(5) by (simp_all add: INT_MIN_def)
  have run: "bcatblk (Some i) (Some (kp, po)) off (int (length t)) h =
      Option.bind (if ?mlen \<le> ?nl then balloc (Some i) (?nl + 1) h else Some (BSTR_OK, h)) ?cont"
    using c by (simp add: bcatblk_def O(1) not_bad_owned cong: if_cong split del: if_split)
  have n: "0 < ?nl + 1" "?nl + 1 \<le> INT_MAX" using assms(5) by simp_all
  have tail: "?cont (BSTR_OK, h1) = Some (BSTR_OK, appended h1 i s k' rest' t)"
    if "owns h1 i s k' rest'" "src_ok h1 (Some (kp, po)) off t" "length t \<le> length rest'" for h1 k' rest'
    using catblk_tail [OF that] by simp
  show ?thesis
  proof (cases "?mlen \<le> ?nl")
    case False
    then have "length t \<le> length rest" by simp
    then show ?thesis using run False tail [OF assms(2,3)] appended_outcome [OF assms(2) framed_refl [OF assms(1)]] by force
  next
    case True
    show ?thesis
    proof (cases rule: balloc_room [OF assms(1,2) n assms(6), case_names ok fail])
      case (ok h1 k' rest')
      then have l: "length t \<le> length rest'" by simp
      then show ?thesis
        using run True ok(1) tail [OF ok(2) foreign_src [OF assms(1) ok(3) assms(3,4)] l] appended_outcome [OF ok(2,3) l ok(5)] by auto
    next
      case (fail al)
      then show ?thesis using run True owned_failed [OF assms(2,1)] by auto
    qed
  qed
qed

lemma bconchar_ok:
  assumes "heap_ok h" "owns h i s k rest" "8 * (int (length s) + 1 + int (length rest)) \<le> INT_MAX"
  shows "\<exists>r h'. bconchar (Some i) c h = Some (r, h') \<and> outcome h r h' i s k rest (s @ [c])"
proof -
  let ?l = "int (length s)"
  note O = ownsD [OF assms(2)]
  have c: "cint (?l + 1 + int (length rest) - ?l) = Some (1 + int (length rest))" "cint (?l + 2) = Some (?l + 2)" "cint (?l + 1) = Some (?l + 1)"
    using assms(3) by (simp_all add: INT_MIN_def INT_MAX_def cint_def)
  let ?cont = "\<lambda>(r, h). if r \<noteq> BSTR_OK then Some (BSTR_ERR, h)
      else do {
        bh \<leftarrow> hdr_of h (Some i);
        h \<leftarrow> wrb h (b_data bh) ?l c;
        h \<leftarrow> wrb h (b_data bh) (?l + 1) 0;
        sl \<leftarrow> cint (b_slen bh + 1);
        h \<leftarrow> set_hdr h (Some i) (bh\<lparr>b_slen := sl\<rparr>);
        Some (BSTR_OK, h)
      }"
  have run: "bconchar (Some i) c h = Option.bind (balloc (Some i) (?l + 2) h) ?cont"
    using c by (simp add: bconchar_def Let_def O(1) or_negative_int_iff cong: if_cong split del: if_split)
  have n: "0 < ?l + 2" "?l + 2 \<le> INT_MAX" using assms(3) by (simp_all add: INT_MAX_def)
  show ?thesis
  proof (cases rule: balloc_room [OF assms(1,2) n assms(3), case_names ok fail])
    case (ok h1 k' rest')
    have l: "length [c] \<le> length rest'" using ok(4) by simp
    then obtain x r where r: "rest' = x # r" by (cases rest') auto
    note O' = ownsD [OF ok(2)]
    have 1: "wrb h1 (Some (k', 0)) ?l c = Some (h1\<lparr>bm_blk := (bm_blk h1)(k' \<mapsto> map Some s @ Some c # rest')\<rparr>)"
      using wrb_eq [OF O'(2), of 0 ?l] by simp
    have "bm_blk (h1\<lparr>bm_blk := (bm_blk h1)(k' \<mapsto> map Some s @ Some c # rest')\<rparr>) k' = Some ((map Some s @ [Some c]) @ x # r)"
      using r by simp
    from wrb_eq [OF this, of 0 "?l + 1" 0]
    have 2: "wrb (h1\<lparr>bm_blk := (bm_blk h1)(k' \<mapsto> map Some s @ Some c # rest')\<rparr>) (Some (k', 0)) (?l + 1) 0 =
        Some (h1\<lparr>bm_blk := (bm_blk h1)(k' \<mapsto> map Some (s @ [c]) @ Some 0 # r)\<rparr>)"
      by (simp add: nat_add_distrib)
    have "?cont (BSTR_OK, h1) = Some (BSTR_OK, appended h1 i s k' rest' [c])"
      using O'(1) 1 2 c(3) r by (simp add: set_hdr_def appended_def)
    then show ?thesis using run ok(1) appended_outcome [OF ok(2,3) l] ok(5) by (auto simp: ac_simps)
  next
    case (fail al)
    then show ?thesis using run owned_failed [OF assms(2,1)] by auto
  qed
qed

section \<open>Truncation and case\<close>

lemma btrunc_ok:
  assumes "heap_ok h" "owns h i s k rest" "0 \<le> n"
  shows "\<exists>h' rest'. btrunc (Some i) n h = Some (BSTR_OK, h') \<and> owns h' i (take (nat n) s) k rest' \<and> framed h h' i k k \<and>
    length (take (nat n) s) + length rest' = length s + length rest"
proof (cases "int (length s) > n")
  case False
  then show ?thesis using assms ownsD [OF assms(2)]
    by (intro exI [of _ h] exI [of _ rest]) (auto simp: btrunc_def not_bad_owned framed_refl nat_le_iff)
next
  case True
  note O = ownsD [OF assms(2)]
  have l: "nat n < length s" using True assms(3) by (simp add: nat_less_iff)
  define r where "r = map Some (drop (Suc (nat n)) s) @ Some 0 # rest"
  have "map Some s @ Some 0 # rest = map Some (take (nat n) s) @ Some (s ! nat n) # r"
    unfolding r_def using id_take_nth_drop [OF l] by (metis append_Cons append_assoc list.simps(9) map_append)
  note b = O(2) [unfolded this]
  let ?y = "\<lparr>b_mlen = int (length s) + 1 + int (length rest), b_slen = n, b_data = Some (k, 0)\<rparr>"
  let ?h1 = "h\<lparr>bm_hdr := (bm_hdr h)(i \<mapsto> ?y)\<rparr>"
  let ?h2 = "?h1\<lparr>bm_blk := (bm_blk h)(k \<mapsto> map Some (take (nat n) s) @ Some 0 # r)\<rparr>"
  have "wrb ?h1 (Some (k, 0)) n 0 = Some ?h2"
    using wrb_eq [of ?h1 k "map Some (take (nat n) s)" _ r 0 n 0] b l assms(3) by simp
  then have "btrunc (Some i) n h = Some (BSTR_OK, ?h2)"
    using True assms(3) O(1) by (simp add: btrunc_def not_bad_owned set_hdr_def)
  moreover have len: "length (take (nat n) s) + length r = length s + length rest" using l by (simp add: r_def)
  then have "owns ?h2 i (take (nat n) s) k r" using l assms(3) by (auto simp: owns_def)
  moreover have "framed h ?h2 i k k" using assms(1) O by (auto simp: framed_def heap_ok_def)
  ultimately show ?thesis using len by blast
qed

declare map_loop.simps [simp del]

lemma map_loop_ok:
  "bm_blk h k = Some (map Some a @ map Some b @ c) \<Longrightarrow>
   map_loop f (Some (k, 0)) (int (length a)) (int (length a) + int (length b)) h =
     Some (h\<lparr>bm_blk := (bm_blk h)(k \<mapsto> map Some a @ map Some (map f b) @ c)\<rparr>)"
proof (induction b arbitrary: a h)
  case Nil
  then show ?case by (auto simp: map_loop.simps intro!: bmem.equality)
next
  case (Cons x b)
  let ?h1 = "h\<lparr>bm_blk := (bm_blk h)(k \<mapsto> map Some (a @ [f x]) @ map Some b @ c)\<rparr>"
  have "rdb h (Some (k, 0)) (int (length a)) = Some x"
    using rdb_eq [OF Cons.prems, of "int (length a)" 0] by (simp add: nth_append)
  moreover have "wrb h (Some (k, 0)) (int (length a)) (f x) = Some ?h1"
    using Cons.prems wrb_eq [of h k "map Some a" "Some x" "map Some b @ c" 0 "int (length a)" "f x"] by simp
  moreover have "map_loop f (Some (k, 0)) (int (length (a @ [f x]))) (int (length (a @ [f x])) + int (length b)) ?h1 =
      Some (?h1\<lparr>bm_blk := (bm_blk ?h1)(k \<mapsto> map Some (a @ [f x]) @ map Some (map f b) @ c)\<rparr>)"
    by (rule Cons.IH) simp
  ultimately show ?case by (subst map_loop.simps) (simp add: ac_simps)
qed

lemma map_block_ok:
  assumes "heap_ok h" "owns h i s k rest"
  shows "\<exists>h'. map_loop f (Some (k, 0)) 0 (int (length s)) h = Some h' \<and> owns h' i (map f s) k rest \<and> framed h h' i k k"
  using map_loop_ok [of h k "[]" s "Some 0 # rest" f] ownsD [OF assms(2)] assms(1)
  by (auto simp: owns_def framed_def heap_ok_def)

lemma btoupper_ok:
  assumes "heap_ok h" "owns h i s k rest"
  shows "\<exists>h'. btoupper (Some i) h = Some (BSTR_OK, h') \<and> owns h' i (map c_toupper s) k rest \<and> framed h h' i k k"
  using map_block_ok [OF assms, of c_toupper] ownsD(1) [OF assms(2)] by (auto simp: btoupper_def not_bad_owned)

lemma btolower_ok:
  assumes "heap_ok h" "owns h i s k rest"
  shows "\<exists>h'. btolower (Some i) h = Some (BSTR_OK, h') \<and> owns h' i (map c_tolower s) k rest \<and> framed h h' i k k"
  using map_block_ok [OF assms, of c_tolower] ownsD(1) [OF assms(2)] by (auto simp: btolower_def not_bad_owned)

section \<open>Assignment\<close>

text \<open>The state after the string \<open>i\<close> is overwritten in place with the characters \<open>t\<close>.\<close>

definition overwritten :: "bmem \<Rightarrow> nat \<Rightarrow> bytes \<Rightarrow> nat \<Rightarrow> cell list \<Rightarrow> bytes \<Rightarrow> bmem" where
  "overwritten h i s k rest t = h\<lparr>bm_blk := (bm_blk h)(k \<mapsto> map Some t @ Some 0 # drop (Suc (length t)) (map Some s @ Some 0 # rest)),
     bm_hdr := (bm_hdr h)(i \<mapsto>
       \<lparr>b_mlen = int (length s) + 1 + int (length rest), b_slen = int (length t), b_data = Some (k, 0)\<rparr>)\<rparr>"

lemma overwritten_owns:
  "length t \<le> length s + length rest \<Longrightarrow>
   owns (overwritten h i s k rest t) i t k (drop (Suc (length t)) (map Some s @ Some 0 # rest))"
  by (auto simp: overwritten_def owns_def)

lemma overwritten_framed:
  "owns h i s k rest \<Longrightarrow> heap_ok h \<Longrightarrow> framed h (overwritten h i s k rest t) i k k"
  by (auto simp: framed_def overwritten_def heap_ok_def owns_def)

lemma overwritten_outcome:
  assumes "owns h1 i s k' rest'" "framed h h1 i k k'" "length t \<le> length s + length rest'"
    "int (length s) + 1 + int (length rest') \<le> max (int (length s) + 1 + int (length rest)) (snapUpSize (int (length t) + 1))"
  shows "outcome h BSTR_OK (overwritten h1 i s k' rest' t) i s k rest t"
proof -
  have "heap_ok h1" using assms(2) by (simp add: framed_def)
  moreover have "int (length t) + 1 + int (length (drop (Suc (length t)) (map Some s @ Some 0 # rest'))) = int (length s) + 1 + int (length rest')"
    using assms(3) by (simp add: of_nat_diff)
  ultimately show ?thesis
    using overwritten_owns [OF assms(3), of h1 i k'] framed_trans [OF assms(2) overwritten_framed [OF assms(1)]] assms(4)
    unfolding outcome_def by fastforce
qed

text \<open>Writing the characters, and writing the terminator behind them.\<close>

lemma overwrite_chars:
  assumes "bm_blk h k = Some m" "length t < length m"
  shows "wrn h (Some (k, 0)) 0 (map Some t) = Some (h\<lparr>bm_blk := (bm_blk h)(k \<mapsto> map Some t @ drop (length t) m)\<rparr>)"
proof -
  have "bm_blk h k = Some ([] @ take (length t) m @ drop (length t) m)" using assms(1) by simp
  from wrn_eq [OF this, of 0 0 "map Some t"] show ?thesis using assms(2) by simp
qed

lemma overwrite_end:
  assumes "bm_blk h k = Some (map Some t @ drop (length t) m)" "length t < length m"
  shows "wrb h (Some (k, 0)) (int (length t)) 0 =
    Some (h\<lparr>bm_blk := (bm_blk h)(k \<mapsto> map Some t @ Some 0 # drop (Suc (length t)) m)\<rparr>)"
proof -
  have "bm_blk h k = Some (map Some t @ m ! length t # drop (Suc (length t)) m)"
    using assms(1) Cons_nth_drop_Suc [OF assms(2)] by simp
  from wrb_eq [OF this, of 0 "int (length t)" 0] show ?thesis by simp
qed

lemma overwrite_move:
  assumes "owns h i s k rest" "length t \<le> length s + length rest" "rdn h p off (int (length t)) = Some (map Some t)"
  shows "memmove h (Some (k, 0)) 0 p off (int (length t)) =
    Some (h\<lparr>bm_blk := (bm_blk h)(k \<mapsto> map Some t @ drop (length t) (map Some s @ Some 0 # rest))\<rparr>)"
  using overwrite_chars [OF ownsD(2) [OF assms(1)], of t] assms(2,3) by (simp add: memmove_def)

lemma overwrite_copy:
  assumes "owns h i s k rest" "length t \<le> length s + length rest" "src_ok h p off t"
  shows "bBlockCopy h (Some (k, 0)) 0 p off (int (length t)) =
    Some (h\<lparr>bm_blk := (bm_blk h)(k \<mapsto> map Some t @ drop (length t) (map Some s @ Some 0 # rest))\<rparr>)"
proof (cases "t = []")
  case True
  then show ?thesis using ownsD(2) [OF assms(1)] by (auto simp: bBlockCopy_def intro!: bmem.equality)
next
  case False
  then show ?thesis using overwrite_move [OF assms(1,2)] assms(3) by (auto simp: bBlockCopy_def src_ok_def)
qed

lemma balloc_no_growth:
  assumes "owns h i s k rest" "0 < n" "n < int (length s) + 1 + int (length rest)"
  shows "balloc (Some i) n h = Some (BSTR_OK, h)"
  using assms ownsD(1) [OF assms(1)] by (simp add: balloc_def not_bad_owned)

lemma balloc_slack:
  assumes "heap_ok h" "owns h i s k rest" "0 < n" "n < 2 ^ 30" "8 * (int (length s) + 1 + int (length rest)) \<le> INT_MAX"
    "bm_alloc h = []"
  obtains h' k' rest' where "balloc (Some i) n h = Some (BSTR_OK, h')" "owns h' i s k' rest'" "framed h h' i k k'"
    "n < int (length s) + 1 + int (length rest')" "int (length s) + 1 + int (length rest') \<le> max (int (length s) + 1 + int (length rest)) (snapUpSize n)"
proof -
  have "n \<le> INT_MAX" using assms(4) by (simp add: INT_MAX_def)
  from balloc_ok [OF assms(1,2,3) this assms(5)] obtain h' where h': "balloc (Some i) n h = Some (BSTR_OK, h')" "ready h h' i s k n"
    using assms(6) by auto
  obtain k' rest' where k': "owns h' i s k' rest'" "framed h h' i k k'" "n < int (length s) + 1 + int (length rest')"
    using h'(2) assms(4,6) unfolding ready_def by blast
  obtain k2 rest2 where "owns h' i s k2 rest2" "int (length s) + 1 + int (length rest2) \<le> max (int (length s) + 1 + int (length rest)) (snapUpSize n)"
    using ready_bound [OF assms(2) h'(2)] by blast
  then show thesis using that [OF h'(1) k'] ownsD(1) [OF k'(1)] ownsD(1) by fastforce
qed

text \<open>
  The source may lie in the destination itself when nothing has to grow. \<open>room\<close> is what the code
  does not ensure: see \<open>bassign_overflow\<close>.
\<close>

definition room :: "bmem \<Rightarrow> bytes \<Rightarrow> cell list \<Rightarrow> bytes \<Rightarrow> bool" where
  "room h s rest t \<longleftrightarrow> length t \<le> length s + length rest \<or> bm_alloc h = [] \<and> length t < 2 ^ 30"

lemma assign_grow:
  assumes "heap_ok h" "owns h i s k rest" "rdn h (Some (kp, po)) off (int (length t)) = Some (map Some t)" "t \<noteq> []"
    "length t \<le> length s + length rest \<or> kp \<noteq> k" "room h s rest t" "8 * (int (length s) + 1 + int (length rest)) \<le> INT_MAX"
  obtains h' k' rest' where "balloc (Some i) (int (length t)) h = Some (BSTR_OK, h')" "owns h' i s k' rest'"
    "framed h h' i k k'" "length t \<le> length s + length rest'" "rdn h' (Some (kp, po)) off (int (length t)) = Some (map Some t)"
    "int (length s) + 1 + int (length rest') \<le> max (int (length s) + 1 + int (length rest)) (snapUpSize (int (length t) + 1))"
proof (cases "length t \<le> length s + length rest")
  case True
  then have "int (length t) < int (length s) + 1 + int (length rest)" by simp
  then show thesis
    using that [OF balloc_no_growth [OF assms(2)] assms(2) framed_refl [OF assms(1)] True assms(3)] assms(4) by simp
next
  case False
  have "0 < int (length t)" "int (length t) < 2 ^ 30" "bm_alloc h = []" "kp \<noteq> k"
    using assms(4,5,6) False by (auto simp: room_def)
  from balloc_slack [OF assms(1,2) this(1,2) assms(7) this(3)] obtain h' k' rest' where
    g: "balloc (Some i) (int (length t)) h = Some (BSTR_OK, h')" "owns h' i s k' rest'" "framed h h' i k k'"
    "int (length t) < int (length s) + 1 + int (length rest')"
    "int (length s) + 1 + int (length rest') \<le> max (int (length s) + 1 + int (length rest)) (snapUpSize (int (length t)))" .
  have "snapUpSize (int (length t)) \<le> snapUpSize (int (length t) + 1)"
    using snapUpSize_mono [of "int (length t)" "int (length t) + 1"] \<open>0 < int (length t)\<close> \<open>int (length t) < 2 ^ 30\<close> by (simp add: INT_MAX_def)
  moreover have "src_ok h' (Some (kp, po)) off t"
    using foreign_src [OF assms(1) g(3) _ \<open>kp \<noteq> k\<close>] assms(3) by (simp add: src_ok_def)
  ultimately show thesis using that [OF g(1-3)] g(4,5) assms(4) by (simp add: src_ok_def)
qed

lemma bassign_ok:
  assumes "heap_ok h" "owns h i s k rest" "bm_hdr h j = Some hj" "b_slen hj = int (length t)" "b_data hj = Some (kp, po)"
    "src_ok h (Some (kp, po)) 0 t" "length t \<le> length s + length rest \<or> kp \<noteq> k" "room h s rest t"
    "8 * (int (length s) + 1 + int (length rest)) \<le> INT_MAX"
  shows "\<exists>h'. bassign (Some i) (Some j) h = Some (BSTR_OK, h') \<and> outcome h BSTR_OK h' i s k rest t"
proof -
  let ?m = "\<lambda>rest. map Some s @ Some 0 # rest"
  note O = ownsD [OF assms(2)]
  have fin: "do {
        ha \<leftarrow> hdr_of h1 (Some i);
        h \<leftarrow> wrb h1 (b_data ha) (int (length t)) 0;
        h \<leftarrow> set_hdr h (Some i) (ha\<lparr>b_slen := int (length t)\<rparr>);
        Some (BSTR_OK, h)
      } = Some (BSTR_OK, overwritten h2 i s k' rest' t)"
    if "owns h2 i s k' rest'" "length t \<le> length s + length rest'"
      "h1 = h2\<lparr>bm_blk := (bm_blk h2)(k' \<mapsto> map Some t @ drop (length t) (?m rest'))\<rparr>" for h1 h2 k' rest'
    using ownsD(1) [OF that(1)] overwrite_end [of h1 k' t "?m rest'"] that(2,3)
    by (simp add: set_hdr_def overwritten_def)
  show ?thesis
  proof (cases "t = []")
    case True
    have "h = h\<lparr>bm_blk := (bm_blk h)(k \<mapsto> map Some t @ drop (length t) (?m rest))\<rparr>"
      using O(2) True by (auto intro!: bmem.equality)
    from fin [OF assms(2) _ this] True O(1) assms(3-5) overwritten_outcome [OF assms(2) framed_refl [OF assms(1)], of t]
    show ?thesis by (simp add: bassign_def)
  next
    case False
    have src: "rdn h (Some (kp, po)) 0 (int (length t)) = Some (map Some t)" using assms(6) False by (simp add: src_ok_def)
    obtain h1 k' rest' where g: "balloc (Some i) (int (length t)) h = Some (BSTR_OK, h1)" "owns h1 i s k' rest'"
      "framed h h1 i k k'" "length t \<le> length s + length rest'" "rdn h1 (Some (kp, po)) 0 (int (length t)) = Some (map Some t)"
      "int (length s) + 1 + int (length rest') \<le> max (int (length s) + 1 + int (length rest)) (snapUpSize (int (length t) + 1))"
      using assign_grow [OF assms(1,2) src False assms(7-9)] .
    have hj: "\<exists>hj'. bm_hdr h1 j = Some hj' \<and> memmove h1 (Some (k', 0)) 0 (b_data hj') 0 (b_slen hj') =
        memmove h1 (Some (k', 0)) 0 (Some (kp, po)) 0 (int (length t))"
    proof (cases "j = i")
      case True
      then have "kp = k" "length t = length s" "po = 0" using assms(3-5) O(1) by auto
      moreover have "k' = k"
      proof -
        have "int (length t) < int (length s) + 1 + int (length rest)" using \<open>length t = length s\<close> by simp
        from balloc_no_growth [OF assms(2) _ this] have "h1 = h" using g(1) False by simp
        then show ?thesis using ownsD(1) [OF g(2)] O(1) by simp
      qed
      ultimately show ?thesis using True ownsD(1) [OF g(2)] by auto
    next
      case False
      then show ?thesis using g(3) assms(3-5) by (auto simp: framed_def)
    qed
    then show ?thesis
      using fin [OF g(2,4) refl] overwrite_move [OF g(2,4,5)] assms(3-5) g(1) False ownsD(1) [OF g(2)] overwritten_outcome [OF g(2,3,4,6)]
      by (auto simp: bassign_def)
  qed
qed

lemma bassignblk_ok:
  assumes "heap_ok h" "owns h i s k rest" "src_ok h (Some (kp, po)) 0 t" "kp \<noteq> k" "int (length t) < INT_MAX"
    "8 * (int (length s) + 1 + int (length rest)) \<le> INT_MAX"
  shows "\<exists>r h'. bassignblk (Some i) (Some (kp, po)) (int (length t)) h = Some (r, h') \<and> outcome h r h' i s k rest t"
proof -
  let ?mlen = "int (length s) + 1 + int (length rest)"
  note O = ownsD [OF assms(2)]
  let ?cont = "\<lambda>(r, h). if 0 > r then Some (BSTR_ERR, h)
      else do {
        ha \<leftarrow> hdr_of h (Some i);
        h \<leftarrow> bBlockCopy h (b_data ha) 0 (Some (kp, po)) 0 (int (length t));
        h \<leftarrow> wrb h (b_data ha) (int (length t)) 0;
        h \<leftarrow> set_hdr h (Some i) (ha\<lparr>b_slen := int (length t)\<rparr>);
        Some (BSTR_OK, h)
      }"
  have run: "bassignblk (Some i) (Some (kp, po)) (int (length t)) h =
      Option.bind (if int (length t) + 1 > ?mlen then balloc (Some i) (int (length t) + 1) h else Some (BSTR_OK, h)) ?cont"
    using assms(5) by (simp add: bassignblk_def O(1) cong: if_cong split del: if_split)
  have tail: "?cont (BSTR_OK, h1) = Some (BSTR_OK, overwritten h1 i s k' rest' t)"
    if "owns h1 i s k' rest'" "src_ok h1 (Some (kp, po)) 0 t" "length t \<le> length s + length rest'" for h1 k' rest'
    using ownsD(1) [OF that(1)] overwrite_copy [OF that(1,3,2)] overwrite_end [of "h1\<lparr>bm_blk := _\<rparr>" k' t "map Some s @ Some 0 # rest'"] that(3)
    by (simp add: set_hdr_def overwritten_def)
  have n: "0 < int (length t) + 1" "int (length t) + 1 \<le> INT_MAX" using assms(5) by simp_all
  show ?thesis
  proof (cases "int (length t) + 1 > ?mlen")
    case False
    then have l: "length t \<le> length s + length rest" by simp
    then show ?thesis using run False tail [OF assms(2,3) l] overwritten_outcome [OF assms(2) framed_refl [OF assms(1)] l] by simp
  next
    case True
    show ?thesis
    proof (cases rule: balloc_room [OF assms(1,2) n assms(6), case_names ok fail])
      case (ok h1 k' rest')
      then have l: "length t \<le> length s + length rest'" by simp
      then show ?thesis
        using run True ok(1) tail [OF ok(2) foreign_src [OF assms(1) ok(3) assms(3,4)] l] overwritten_outcome [OF ok(2,3) l ok(5)] by auto
    next
      case (fail al)
      then show ?thesis using run True owned_failed [OF assms(2,1)] by auto
    qed
  qed
qed

lemma wrb_out: "bm_blk h k = Some m \<Longrightarrow> length m \<le> i \<Longrightarrow> wrb h (Some (k, 0)) (int i) v = None"
  by (simp add: wrb_def wrn_def)

lemma memmove_len:
  assumes "memmove h (Some (k, 0)) i p j n = Some h'" "bm_blk h k = Some m"
  shows "bm_hdr h' = bm_hdr h \<and> (\<exists>m'. bm_blk h' k = Some m' \<and> length m' = length m)"
proof -
  obtain cs where "wrn h (Some (k, 0)) i cs = Some h'" using assms(1) unfolding memmove_def bind_eq_Some_conv by blast
  then show ?thesis using assms(2) mput_length by (cases "0 \<le> i"; cases "mput m (nat i) cs") (auto simp: wrn_def)
qed

text \<open>When only the smaller size can be had, \<open>balloc\<close> leaves a block of exactly the size asked for.\<close>

lemma balloc_tight:
  assumes "heap_ok h" "owns h i s k rest" "length s + 1 + length rest \<le> n" "int n < 2 ^ 27" "8 * length s \<le> 7 * (length s + 1 + length rest)"
    "bm_alloc h = False # False # True # al"
  shows "\<exists>h2 k2 m2. balloc (Some i) (int n) h = Some (BSTR_OK, h2) \<and> bm_hdr h2 i = Some \<lparr>b_mlen = int n, b_slen = int (length s), b_data = Some (k2, 0)\<rparr> \<and>
    bm_blk h2 k2 = Some m2 \<and> length m2 = n \<and> (\<forall>j. j \<noteq> i \<longrightarrow> bm_hdr h2 j = bm_hdr h j)"
proof -
  let ?mlen = "int (length s) + 1 + int (length rest)"
  let ?n = "int n"
  let ?m = "map Some s @ Some 0 # rest"
  let ?y = "\<lparr>b_mlen = ?mlen, b_slen = int (length s), b_data = Some (k, 0)\<rparr>"
  note O = ownsD [OF assms(2)]
  have k: "k < bm_next h" using heap_okD(1) [OF assms(1) O(2)] .
  have ne: "0 < ?n" using assms(3) by linarith
  have lt: "?n < snapUpSize ?n" using snapUpSize_bounds(4) [OF ne] assms(4) by (simp add: INT_MAX_def)
  have n: "0 < ?n" "?mlen \<le> ?n" "\<not> snapUpSize ?n \<le> ?mlen" using ne lt assms(3) by linarith+
  have c: "cint (7 * ?mlen) = Some (7 * ?mlen)" "cint (8 * int (length s)) = Some (8 * int (length s))"
    using assms(3,4) by (simp_all add: INT_MIN_def INT_MAX_def cint_def)
  let ?h1 = "h\<lparr>bm_blk := (bm_blk h)(k := None, bm_next h \<mapsto> ?m @ replicate (nat ?n - length ?m) None),
    bm_next := bm_next h + 1, bm_alloc := al\<rparr>"
  let ?y1 = "\<lparr>b_mlen = ?n, b_slen = int (length s), b_data = Some (bm_next h, 0)\<rparr>"
  let ?z = "map Some s @ Some 0 # rest @ replicate (n - (length s + 1 + length rest)) None"
  let ?h2 = "?h1\<lparr>bm_hdr := (bm_hdr h)(i \<mapsto> ?y1), bm_blk := (bm_blk ?h1)(bm_next h \<mapsto> ?z)\<rparr>"
  have slack: "\<not> 7 * ?mlen < 8 * int (length s)" using assms(5) by simp
  have run: "balloc (Some i) ?n h = do {
       h \<leftarrow> set_hdr ?h1 (Some i) ?y1;
       h \<leftarrow> wrb h (Some (bm_next h - 1, 0)) (int (length s)) 0;
       Some (BSTR_OK, h)
     }"
    using balloc_grows [OF O(1) not_bad_owned n(1), unfolded bhdr.simps, OF n(2,3) c] slack assms(6) O(2) lt assms(3)
    by (simp add: bm_malloc_def reallocStrategy_def bm_realloc_def set_hdr_def O(1))
  have "wrb (?h1\<lparr>bm_hdr := (bm_hdr h)(i \<mapsto> ?y1)\<rparr>) (Some (bm_next h, 0)) (int (length s)) 0 = Some ?h2"
    using wrb_eq [of "?h1\<lparr>bm_hdr := (bm_hdr h)(i \<mapsto> ?y1)\<rparr>" "bm_next h" "map Some s" "Some 0" _ 0 "int (length s)" 0] by simp
  then have "balloc (Some i) ?n h = Some (BSTR_OK, ?h2)" using run O(1) by (simp add: set_hdr_def)
  moreover have "length ?z = n" using assms(3) by simp
  moreover have "bm_hdr ?h2 i = Some ?y1" "bm_blk ?h2 (bm_next h) = Some ?z" "\<forall>j. j \<noteq> i \<longrightarrow> bm_hdr ?h2 j = bm_hdr h j" by simp_all
  ultimately show ?thesis by blast
qed

text \<open>A write behind the block after a number of bytes were copied into it is undefined.\<close>

lemma wrb_behind:
  assumes "memmove h (Some (k, 0)) i p j n = Some h'" "bm_blk h k = Some m"
  shows "wrb h' (Some (k, 0)) (int (length m)) v = None"
proof -
  obtain m' where "bm_blk h' k = Some m'" "length m' = length m" using memmove_len [OF assms] by blast
  then show ?thesis using wrb_out [of h' k m' "length m"] by simp
qed

lemma bassign_overflow_ok:
  assumes "heap_ok h" "owns h i s k rest" "bm_hdr h j = Some hj" "b_slen hj = int (length t)" "b_data hj = Some (kp, po)"
    "kp \<noteq> k" "length s + 1 + length rest \<le> length t" "int (length t) < 2 ^ 27" "8 * length s \<le> 7 * (length s + 1 + length rest)"
    "bm_alloc h = False # False # True # al"
  shows "bassign (Some i) (Some j) h = None"
proof -
  let ?n = "int (length t)"
  have ji: "j \<noteq> i" using assms(3,5,6) ownsD(1) [OF assms(2)] by auto
  have ne: "0 < ?n" using assms(7) by linarith
  obtain h2 k2 m2 where B: "balloc (Some i) ?n h = Some (BSTR_OK, h2)" "bm_hdr h2 i = Some \<lparr>b_mlen = ?n, b_slen = int (length s), b_data = Some (k2, 0)\<rparr>"
    "bm_blk h2 k2 = Some m2" "length m2 = length t" "\<forall>j. j \<noteq> i \<longrightarrow> bm_hdr h2 j = bm_hdr h j"
    using balloc_tight [OF assms(1,2,7-10)] by blast
  have j: "bm_hdr h2 j = Some hj" using B(5) ji assms(3) by simp
  show ?thesis
  proof (cases "memmove h2 (Some (k2, 0)) 0 (Some (kp, po)) 0 ?n")
    case None
    then show ?thesis using B(1,2) j assms(3-5) ne by (simp add: bassign_def)
  next
    case (Some h3)
    have "wrb h3 (Some (k2, 0)) ?n 0 = None" using wrb_behind [OF Some B(3)] B(4) by simp
    moreover have "bm_hdr h3 = bm_hdr h2" using memmove_len [OF Some B(3)] by simp
    ultimately show ?thesis using B(1,2) j assms(3-5) ne Some by (simp add: bassign_def)
  qed
qed

text \<open>
  So \<open>bassign\<close> writes its terminator behind the block when only the smaller of the two sizes that
  \<open>balloc\<close> tries can be had.
\<close>

section \<open>New strings\<close>

lemma memcpy_into_new:
  assumes "bm_blk h k = Some (replicate N None)" "k \<noteq> kp" "rdn h (Some (kp, po)) off (int (length cs)) = Some cs" "length cs \<le> N"
  shows "memcpy h (Some (k, 0)) 0 (Some (kp, po)) off (int (length cs)) =
    Some (h\<lparr>bm_blk := (bm_blk h)(k \<mapsto> cs @ replicate (N - length cs) None)\<rparr>)"
proof -
  have "bm_blk h k = Some ([] @ replicate (length cs) None @ replicate (N - length cs) None)"
    using assms(1,4) by (simp add: replicate_add [symmetric])
  from wrn_eq [OF this, of 0 0 cs] show ?thesis using assms(2,3) by (simp add: memcpy_def overlap_def memmove_def)
qed

text \<open>A new string: header and block at the next addresses, and the characters copied.\<close>

lemma extendedI:
  assumes "heap_ok h" "bm_next h \<le> a" "bm_next h \<le> k" "bm_next h' = Suc (max a k)" "bm_hdr h' = (bm_hdr h)(a \<mapsto> y)" "bm_blk h' = (bm_blk h)(k \<mapsto> m)"
    "bm_alloc h = [] \<longrightarrow> bm_alloc h' = []"
  shows "extended h h' a k"
  unfolding extended_def
proof (intro conjI)
  show "heap_ok h'" unfolding heap_ok_def
  proof (intro allI impI)
    fix x assume "bm_blk h' x \<noteq> None \<or> bm_hdr h' x \<noteq> None"
    then have "x = a \<or> x = k \<or> x < bm_next h" using assms(1,5,6) by (auto simp: heap_ok_def split: if_splits)
    then show "x < bm_next h'" using assms(2-4) by auto
  qed
qed (use assms in auto)

lemma blk2bstr_ok:
  assumes "heap_ok h" "src_ok h (Some (kp, po)) off t" "kp < bm_next h" "int (length t) < INT_MAX"
  shows "\<exists>b h'. blk2bstr (Some (kp, po)) off (int (length t)) h = Some (b, h') \<and>
    (b = None \<and> bm_alloc h \<noteq> [] \<and> quiet h h' \<or> (\<exists>a k rest. b = Some a \<and> owns h' a t k rest \<and> extended h h' a k))"
proof -
  let ?n = "int (length t)"
  let ?i = "?n + (2 - (if ?n \<noteq> 0 then 1 else 0))"
  let ?N = "snapUpSize ?i"
  have i: "0 < ?i" "?i \<le> INT_MAX" using assms(4) by (auto simp: INT_MAX_def)
  have N: "?n < ?N" using snapUpSize_bounds(1) [OF i] by auto
  have c: "cint ?i = Some ?i" using i by (auto simp: cint_def INT_MIN_def)
  have fresh: "bm_hdr h x = None" if "bm_next h \<le> x" for x using heap_ok_fresh [OF assms(1) that] by auto
  show ?thesis
  proof (cases rule: new_hdr_cases [of h])
    case (null al)
    then show ?thesis by (auto simp: blk2bstr_def intro: quiet_alloc)
  next
    case (ok al)
    let ?h1 = "h\<lparr>bm_hdr := (bm_hdr h)(bm_next h \<mapsto> \<lparr>b_mlen = 0, b_slen = 0, b_data = None\<rparr>), bm_next := bm_next h + 1, bm_alloc := al\<rparr>"
    show ?thesis
    proof (cases rule: malloc_ok_cases [of ?N ?h1])
      case (null al2)
      have "free_hdr (Some (bm_next h)) (?h1\<lparr>bm_alloc := al2\<rparr>) = Some (h\<lparr>bm_hdr := (bm_hdr h)(bm_next h := None), bm_next := bm_next h + 1, bm_alloc := al2\<rparr>)" (is "_ = Some ?h3")
        by (simp add: free_hdr_def)
      moreover have "quiet h ?h3" using null ok(2) fresh by (auto simp: quiet_def)
      ultimately show ?thesis using null ok c by (auto simp: blk2bstr_def)
    next
      case mok: (ok al2)
      let ?k = "bm_next h + 1"
      let ?hd = "\<lparr>b_mlen = ?N, b_slen = ?n, b_data = Some (?k, 0)\<rparr>"
      let ?h2 = "?h1\<lparr>bm_hdr := (bm_hdr h)(bm_next h \<mapsto> ?hd), bm_blk := (bm_blk h)(?k \<mapsto> replicate (nat ?N) None), bm_next := ?k + 1, bm_alloc := al2\<rparr>"
      have b2: "bm_blk ?h2 ?k = Some (replicate (nat ?N) None)" "?k \<noteq> kp" using assms(3) by auto
      have sz: "length t < nat ?N" using N by linarith
      define h3 where "h3 = ?h2\<lparr>bm_blk := (bm_blk ?h2)(?k \<mapsto> map Some t @ replicate (nat ?N - length t) None)\<rparr>"
      have 1: "(if ?n > 0 then memcpy ?h2 (Some (?k, 0)) 0 (Some (kp, po)) off ?n else Some ?h2) = Some h3"
      proof (cases "t = []")
        case True
        then show ?thesis by (simp add: h3_def)
      next
        case False
        have "rdn ?h2 (Some (kp, po)) off (int (length (map Some t))) = Some (map Some t)"
          using assms(2) False b2(2) by (simp add: src_ok_def rdn_def)
        from memcpy_into_new [OF b2 this] show ?thesis using False sz by (simp add: h3_def)
      qed
      have "replicate (nat ?N - length t) None = None # replicate (nat ?N - length t - 1) (None :: cell)"
        using sz by (simp flip: replicate_Suc)
      then have "bm_blk h3 ?k = Some (map Some t @ None # replicate (nat ?N - length t - 1) None)" by (simp add: h3_def)
      from wrb_eq [OF this, of 0 ?n 0]
      have 2: "wrb h3 (Some (?k, 0)) ?n 0 = Some (h3\<lparr>bm_blk := (bm_blk h3)(?k \<mapsto> map Some t @ Some 0 # replicate (nat ?N - length t - 1) None)\<rparr>)" (is "_ = Some ?h4")
        by simp
      have "set_hdr (?h1\<lparr>bm_blk := (bm_blk ?h1)(bm_next ?h1 \<mapsto> replicate (nat ?N) None), bm_next := bm_next ?h1 + 1, bm_alloc := al2\<rparr>) (Some (bm_next h)) ?hd = Some ?h2"
        by (auto simp: set_hdr_def intro!: bmem.equality)
      then have "blk2bstr (Some (kp, po)) off ?n h = Some (Some (bm_next h), ?h4)"
        using ok(1) mok(1) c 1 2 by (simp add: blk2bstr_def Let_def cong: if_cong)
      moreover have "owns ?h4 (bm_next h) t ?k (replicate (nat ?N - length t - 1) None)"
        using N by (cases ?N rule: int_cases) (auto simp: owns_def h3_def)
      moreover have "extended h ?h4 (bm_next h) ?k"
        by (rule extendedI [OF assms(1)]) (use ok(2) mok(2) in \<open>auto simp: h3_def\<close>)
      ultimately show ?thesis by blast
    qed
  qed
qed

end
