(* ===== verification/BstrEditor.thy ===== *)
theory BstrEditor
  imports BstrEdit
begin

text \<open>
  Sequences of edits: the locale \<open>bstr_editor\<close> is the interface of a client that edits one string. The
  operations of \<open>bstrlib\<close> are an instance of it (theory \<open>BstrHistory\<close>).
\<close>

section \<open>Sequences of edits\<close>

text \<open>
  A client that edits one string: \<open>run\<close> performs an edit in memory, \<open>edit\<close> says what it does to the
  characters, \<open>growth\<close> bounds what it adds and the numbers it is given, and \<open>valid\<close> is what it needs of the rest of memory.
\<close>

fun run_edits :: "(bstring \<Rightarrow> 'e \<Rightarrow> bmem \<Rightarrow> (int \<times> bmem) option) \<Rightarrow> bstring \<Rightarrow> 'e list \<Rightarrow> bmem \<Rightarrow> (int list \<times> bmem) option" where
  "run_edits run b [] h = Some ([], h)"
| "run_edits run b (e # es) h = do {
     (r, h) \<leftarrow> run b e h;
     (rs, h) \<leftarrow> run_edits run b es h;
     Some (r # rs, h)
   }"

text \<open>The edits that returned \<open>BSTR_OK\<close>, one after the other.\<close>

fun apply_edits :: "('e \<Rightarrow> bytes \<Rightarrow> bytes) \<Rightarrow> int list \<Rightarrow> 'e list \<Rightarrow> bytes \<Rightarrow> bytes" where
  "apply_edits edit (r # rs) (e # es) s = apply_edits edit rs es (if r = BSTR_OK then edit e s else s)"
| "apply_edits edit rs es s = s"

lemma framed_trans_any:
  assumes "heap_ok h" "bm_blk h k = Some m" "framed h h1 i k k1" "framed h1 h2 i k1 k2"
  shows "framed h h2 i k k2"
proof -
  have F: "heap_ok h1" "bm_next h \<le> bm_next h1" "\<And>j. j \<noteq> i \<Longrightarrow> bm_hdr h1 j = bm_hdr h j"
    "\<And>j. j \<noteq> k \<Longrightarrow> j \<noteq> k1 \<Longrightarrow> bm_blk h1 j = bm_blk h j" "k1 \<noteq> k \<Longrightarrow> bm_next h \<le> k1 \<and> bm_blk h1 k = None"
    "bm_alloc h = [] \<Longrightarrow> bm_alloc h1 = []"
    using assms(3) by (auto simp: framed_def)
  have G: "heap_ok h2" "bm_next h1 \<le> bm_next h2" "\<And>j. j \<noteq> i \<Longrightarrow> bm_hdr h2 j = bm_hdr h1 j"
    "\<And>j. j \<noteq> k1 \<Longrightarrow> j \<noteq> k2 \<Longrightarrow> bm_blk h2 j = bm_blk h1 j" "k2 \<noteq> k1 \<Longrightarrow> bm_next h1 \<le> k2 \<and> bm_blk h2 k1 = None"
    "bm_alloc h1 = [] \<Longrightarrow> bm_alloc h2 = []"
    using assms(4) by (auto simp: framed_def)
  have k: "k < bm_next h" using heap_okD(1) [OF assms(1,2)] .
  have fresh: "bm_blk h k1 = None" if "k1 \<noteq> k" using that F(5) heap_ok_fresh [OF assms(1)] by blast
  show ?thesis
    unfolding framed_def
  proof (intro conjI allI impI)
    show "bm_blk h2 j = bm_blk h j" if "j \<noteq> k \<and> j \<noteq> k2" for j
      using that F(4) G(4,5) fresh by (cases "j = k1") auto
    show "bm_next h \<le> k2" if "k2 \<noteq> k" using that F(2,5) G(5) by (cases "k2 = k1") auto
    show "bm_blk h2 k = None" if "k2 \<noteq> k" using that F(5) G(4,5) by (cases "k1 = k") auto
  qed (use F G in auto)
qed

locale bstr_editor =
  fixes run :: "bstring \<Rightarrow> 'e \<Rightarrow> bmem \<Rightarrow> (int \<times> bmem) option"
    and valid :: "bmem \<Rightarrow> nat \<Rightarrow> nat \<Rightarrow> 'e \<Rightarrow> bool"
    and edit :: "'e \<Rightarrow> bytes \<Rightarrow> bytes"
    and growth :: "'e \<Rightarrow> nat"
  assumes run_ok: "heap_ok h \<Longrightarrow> owns h i s k rest \<Longrightarrow> valid h i k e \<Longrightarrow>
      int (length s) + int (growth e) < INT_MAX \<Longrightarrow> 8 * (int (length s) + 1 + int (length rest)) \<le> INT_MAX \<Longrightarrow>
      \<exists>r h'. run (Some i) e h = Some (r, h') \<and> outcome h r h' i s k rest (edit e s)"
    and edit_growth: "length (edit e s) \<le> length s + growth e"
    and valid_framed: "heap_ok h \<Longrightarrow> owns h i s k rest \<Longrightarrow> framed h h' i k k' \<Longrightarrow> valid h i k e \<Longrightarrow> valid h' i k' e"
begin

text \<open>
  With \<open>2 ^ 27\<close> as the bound on the size of the block nothing in \<open>balloc\<close> overflows, and the size of the
  block keeps this bound: it grows to a power of two.
\<close>

lemma run_edits_ok:
  "heap_ok h \<Longrightarrow> owns h i s k rest \<Longrightarrow> \<forall>e \<in> set es. valid h i k e \<Longrightarrow>
   length s + 1 + length rest \<le> 2 ^ 27 \<Longrightarrow> length s + sum_list (map growth es) + 1 < 2 ^ 27 \<Longrightarrow>
   \<exists>rs h' k' rest'. run_edits run (Some i) es h = Some (rs, h') \<and> length rs = length es \<and>
     owns h' i (apply_edits edit rs es s) k' rest' \<and> framed h h' i k k' \<and>
     set rs \<subseteq> {BSTR_OK, BSTR_ERR} \<and> (bm_alloc h = [] \<longrightarrow> set rs \<subseteq> {BSTR_OK})"
proof (induction es arbitrary: h s k rest)
  case Nil
  then show ?case using framed_refl [of h i k] by auto
next
  case (Cons e es)
  have v: "valid h i k e" "\<forall>e \<in> set es. valid h i k e" using Cons.prems(3) by simp_all
  have "int (length s) + int (growth e) < INT_MAX" "8 * (int (length s) + 1 + int (length rest)) \<le> INT_MAX"
    using Cons.prems(4,5) by (simp_all add: INT_MAX_def)
  from run_ok [OF Cons.prems(1,2) v(1) this] obtain r h1 where
    r: "run (Some i) e h = Some (r, h1)" "outcome h r h1 i s k rest (edit e s)" by blast
  have "\<exists>u k1 r1. (r = BSTR_OK \<and> u = edit e s \<or> r = BSTR_ERR \<and> u = s \<and> bm_alloc h \<noteq> []) \<and> owns h1 i u k1 r1 \<and> framed h h1 i k k1 \<and>
      length u + 1 + length r1 \<le> 2 ^ 27"
    using r(2) unfolding outcome_def
  proof (elim disjE conjE exE)
    fix k1 r1
    assume "r = BSTR_OK" "owns h1 i (edit e s) k1 r1" "framed h h1 i k k1"
      and b: "int (length (edit e s)) + 1 + int (length r1) \<le> max (int (length s) + 1 + int (length rest)) (snapUpSize (int (length (edit e s)) + 1))"
    moreover have "snapUpSize (int (length (edit e s)) + 1) \<le> 2 ^ 27"
    proof -
      have l: "int (length (edit e s)) + 1 \<le> 2 ^ 27 - 1" using edit_growth [of e s] Cons.prems(5) by simp
      have "snapUpSize (2 ^ 27 - 1) = 2 ^ 27" using snapUpSize_pow [of "2 ^ 27 - 1" 26] by simp
      then show ?thesis using snapUpSize_mono [OF _ l] by (simp add: INT_MAX_def)
    qed
    moreover from this have "length (edit e s) + 1 + length r1 \<le> 2 ^ 27" using b Cons.prems(4) by simp
    ultimately show ?thesis by blast
  qed (use Cons.prems(4) in \<open>auto simp: BSTR_neq\<close>)
  then obtain u k1 r1 where u: "r = BSTR_OK \<and> u = edit e s \<or> r = BSTR_ERR \<and> u = s \<and> bm_alloc h \<noteq> []" "owns h1 i u k1 r1"
    "framed h h1 i k k1" "length u + 1 + length r1 \<le> 2 ^ 27" by blast
  have h1: "heap_ok h1" "bm_alloc h = [] \<longrightarrow> bm_alloc h1 = []" using u(3) by (auto simp: framed_def)
  have v1: "\<forall>e \<in> set es. valid h1 i k1 e" using v(2) valid_framed [OF Cons.prems(1,2) u(3)] by blast
  have "length u + sum_list (map growth es) + 1 < 2 ^ 27" using u(1) edit_growth [of e s] Cons.prems(5) by auto
  from Cons.IH [OF h1(1) u(2) v1 u(4) this] obtain rs h' k' rest' where
    I: "run_edits run (Some i) es h1 = Some (rs, h')" "length rs = length es" "owns h' i (apply_edits edit rs es u) k' rest'"
    "framed h1 h' i k1 k'" "set rs \<subseteq> {BSTR_OK, BSTR_ERR}" "bm_alloc h1 = [] \<longrightarrow> set rs \<subseteq> {BSTR_OK}" by blast
  have "framed h h' i k k'" using framed_trans_any [OF Cons.prems(1) ownsD(2) [OF Cons.prems(2)] u(3) I(4)] .
  moreover have "apply_edits edit (r # rs) (e # es) s = apply_edits edit rs es u" using u(1) by auto
  moreover have "run_edits run (Some i) (e # es) h = Some (r # rs, h')" using r(1) I(1) by simp
  ultimately show ?case using I(2,3,5,6) u(1) h1(2)
    by (intro exI [of _ "r # rs"] exI [of _ h'] exI [of _ k'] exI [of _ rest']) auto
qed

end

text \<open>A readable string other than \<open>i\<close>, with its characters outside of the block \<open>k\<close>.\<close>

definition foreign_str :: "bmem \<Rightarrow> nat \<Rightarrow> nat \<Rightarrow> nat \<Rightarrow> bytes \<Rightarrow> bool" where
  "foreign_str h i k j t \<longleftrightarrow> j \<noteq> i \<and> reads h j t \<and>
     (case bm_hdr h j of Some hj \<Rightarrow> (case b_data hj of Some (kp, po) \<Rightarrow> kp \<noteq> k | None \<Rightarrow> True) | None \<Rightarrow> True)"

lemma in_place_outcome:
  assumes "owns h' i u k rest'" "framed h h' i k k" "length u + length rest' = length s + length rest"
  shows "outcome h BSTR_OK h' i s k rest u"
proof -
  have "int (length u) + 1 + int (length rest') = int (length s) + 1 + int (length rest)" using assms(3) by simp
  then show ?thesis using assms(1,2) unfolding outcome_def by fastforce
qed

lemma framed_blk:
  "heap_ok h \<Longrightarrow> framed h h' i k k' \<Longrightarrow> j \<noteq> k \<Longrightarrow> j < bm_next h \<Longrightarrow> j \<noteq> k' \<and> bm_blk h' j = bm_blk h j"
  by (auto simp: framed_def)

lemma reads_framed:
  assumes "heap_ok h" "framed h h' i k k'" "foreign_str h i k j t"
  shows "foreign_str h' i k' j t"
proof -
  obtain n kp po m where R: "bm_hdr h j = Some \<lparr>b_mlen = n, b_slen = int (length t), b_data = Some (kp, po)\<rparr>" "bm_blk h kp = Some m"
    "po + length t \<le> length m" "take (length t) (drop po m) = map Some t" "j \<noteq> i"
    using assms(3) by (auto simp: foreign_str_def elim: readsE)
  have "kp \<noteq> k" using assms(3) R(1) by (simp add: foreign_str_def)
  then have "kp \<noteq> k'" "bm_blk h' kp = bm_blk h kp"
    using framed_blk [OF assms(1,2)] heap_okD(1) [OF assms(1) R(2)] by blast+
  moreover have "bm_hdr h' j = bm_hdr h j" using assms(2) R(5) by (simp add: framed_def)
  ultimately show ?thesis using R by (auto simp: foreign_str_def reads_def)
qed

end
