(* ===== verification/BstrText.thy ===== *)
theory BstrText
  imports Bstr
begin

text \<open>
  The functions of \<open>libs/bstrlib/bstrlib.c\<close> that look into strings: comparison, search, character sets;
  and the editing functions that insert, delete and replace ranges. Functions that only read return
  their \<open>int\<close>, \<open>None\<close> when they run into undefined behaviour.
\<close>

section \<open>Loops\<close>

text \<open>
  The loops that compare two strings character by character: \<open>f\<close> is the body, with the value that it
  returns or \<open>None\<close> to go on.
\<close>

function cmp_loop :: "(u8 \<Rightarrow> u8 \<Rightarrow> int option) \<Rightarrow> bmem \<Rightarrow> ptr option \<Rightarrow> ptr option \<Rightarrow> int \<Rightarrow> int \<Rightarrow> int option option" where
  "cmp_loop f h p q i n =
     (if i < n then do {
        x \<leftarrow> rdb h p i;
        y \<leftarrow> rdb h q i;
        case f x y of Some v \<Rightarrow> Some (Some v) | None \<Rightarrow> cmp_loop f h p q (i + 1) n
      } else Some None)"
  by pat_completeness auto
termination by (relation "measure (\<lambda>(f, h, p, q, i, n). nat (n - i))") auto

text \<open>The loops that look for a character, forwards below \<open>n\<close> and backwards down to 0.\<close>

function scan_loop :: "(u8 \<Rightarrow> bool) \<Rightarrow> bmem \<Rightarrow> ptr option \<Rightarrow> int \<Rightarrow> int \<Rightarrow> int option option" where
  "scan_loop f h p i n =
     (if i < n then do {
        x \<leftarrow> rdb h p i;
        if f x then Some (Some i) else scan_loop f h p (i + 1) n
      } else Some None)"
  by pat_completeness auto
termination by (relation "measure (\<lambda>(f, h, p, i, n). nat (n - i))") auto

function rscan_loop :: "(u8 \<Rightarrow> bool) \<Rightarrow> bmem \<Rightarrow> ptr option \<Rightarrow> int \<Rightarrow> int option option" where
  "rscan_loop f h p i =
     (if i \<ge> 0 then do {
        x \<leftarrow> rdb h p i;
        if f x then Some (Some i) else rscan_loop f h p (i - 1)
      } else Some None)"
  by pat_completeness auto
termination by (relation "measure (\<lambda>(f, h, p, i). nat (i + 1))") auto

definition or_err :: "int option option \<Rightarrow> int option" where
  "or_err r = do {
     r \<leftarrow> r;
     Some (case r of Some i \<Rightarrow> i | None \<Rightarrow> BSTR_ERR)
   }"

text \<open>\<open>bdata (b)\<close>\<close>

definition bdata :: "bmem \<Rightarrow> bstring \<Rightarrow> ptr option option" where
  "bdata h b = (if b = None then Some None else do {
     bh \<leftarrow> hdr_of h b;
     Some (b_data bh)
   })"

section \<open>Comparison\<close>

definition bstricmp :: "bstring \<Rightarrow> bstring \<Rightarrow> bmem \<Rightarrow> int option" where
  "bstricmp b0 b1 h = do {
     p0 \<leftarrow> bdata h b0;
     if p0 = None then Some SHRT_MIN
     else do {
       h0 \<leftarrow> hdr_of h b0;
       if b_slen h0 < 0 then Some SHRT_MIN
       else do {
         p1 \<leftarrow> bdata h b1;
         if p1 = None then Some SHRT_MIN
         else do {
           h1 \<leftarrow> hdr_of h b1;
           if b_slen h1 < 0 then Some SHRT_MIN
           else
             let n = (if b_slen h0 > b_slen h1 then b_slen h1 else b_slen h0) in
             if \<not> b_slen h0 > b_slen h1 \<and> b_slen h0 = b_slen h1 \<and> b_data h0 = b_data h1 then Some BSTR_OK
             else do {
               r \<leftarrow> cmp_loop (\<lambda>x y. let v = sint (c_tolower x) - sint (c_tolower y) in if v \<noteq> 0 then Some v else None)
                 h (b_data h0) (b_data h1) 0 n;
               case r of Some v \<Rightarrow> Some v
               | None \<Rightarrow>
                   if b_slen h0 > n then do {
                     c \<leftarrow> rdb h (b_data h0) n;
                     let v = sint (c_tolower c);
                     Some (if v \<noteq> 0 then v else UCHAR_MAX + 1)
                   }
                   else if b_slen h1 > n then do {
                     c \<leftarrow> rdb h (b_data h1) n;
                     let v = - sint (c_tolower c);
                     Some (if v \<noteq> 0 then v else - (UCHAR_MAX + 1))
                   }
                   else Some BSTR_OK
             }
         }
       }
     }
   }"

definition bstrnicmp :: "bstring \<Rightarrow> bstring \<Rightarrow> int \<Rightarrow> bmem \<Rightarrow> int option" where
  "bstrnicmp b0 b1 n h = do {
     p0 \<leftarrow> bdata h b0;
     if p0 = None then Some SHRT_MIN
     else do {
       h0 \<leftarrow> hdr_of h b0;
       if b_slen h0 < 0 then Some SHRT_MIN
       else do {
         p1 \<leftarrow> bdata h b1;
         if p1 = None then Some SHRT_MIN
         else do {
           h1 \<leftarrow> hdr_of h b1;
           if b_slen h1 < 0 \<or> n < 0 then Some SHRT_MIN
           else do {
             let m = n;
             let m = (if m > b_slen h0 then b_slen h0 else m);
             let m = (if m > b_slen h1 then b_slen h1 else m);
             r \<leftarrow> if b_data h0 \<noteq> b_data h1 then
                 cmp_loop (\<lambda>x y. if sint (c_tolower x) - sint (c_tolower y) \<noteq> 0 then Some (uint x - uint y) else None)
                   h (b_data h0) (b_data h1) 0 m
               else Some None;
             case r of Some v \<Rightarrow> Some v
             | None \<Rightarrow>
                 if n = m \<or> b_slen h0 = b_slen h1 then Some BSTR_OK
                 else if b_slen h0 > m then do {
                   c \<leftarrow> rdb h (b_data h0) m;
                   let v = sint (c_tolower c);
                   Some (if v \<noteq> 0 then v else UCHAR_MAX + 1)
                 }
                 else do {
                   c \<leftarrow> rdb h (b_data h1) m;
                   let v = - sint (c_tolower c);
                   Some (if v \<noteq> 0 then v else - (UCHAR_MAX + 1))
                 }
           }
         }
       }
     }
   }"

definition biseqcaselessblk :: "bstring \<Rightarrow> ptr option \<Rightarrow> int \<Rightarrow> bmem \<Rightarrow> int option" where
  "biseqcaselessblk b s len h = do {
     p \<leftarrow> bdata h b;
     if p = None then Some BSTR_ERR
     else do {
       bh \<leftarrow> hdr_of h b;
       if b_slen bh < 0 \<or> s = None \<or> len < 0 then Some BSTR_ERR
       else if b_slen bh \<noteq> len then Some 0
       else if len = 0 \<or> b_data bh = s then Some 1
       else do {
         r \<leftarrow> cmp_loop (\<lambda>x y. if x \<noteq> y then if c_tolower x \<noteq> c_tolower y then Some 0 else None else None)
           h (b_data bh) s 0 len;
         Some (case r of Some v \<Rightarrow> v | None \<Rightarrow> 1)
       }
     }
   }"

definition biseqcaseless :: "bstring \<Rightarrow> bstring \<Rightarrow> bmem \<Rightarrow> int option" where
  "biseqcaseless b0 b1 h =
     (if b1 = None then Some BSTR_ERR
      else do {
        h1 \<leftarrow> hdr_of h b1;
        biseqcaselessblk b0 (b_data h1) (b_slen h1) h
      })"

definition bisstemeqcaselessblk :: "bstring \<Rightarrow> ptr option \<Rightarrow> int \<Rightarrow> bmem \<Rightarrow> int option" where
  "bisstemeqcaselessblk b0 s len h = do {
     p \<leftarrow> bdata h b0;
     if p = None then Some BSTR_ERR
     else do {
       h0 \<leftarrow> hdr_of h b0;
       if b_slen h0 < 0 \<or> s = None \<or> len < 0 then Some BSTR_ERR
       else if b_slen h0 < len then Some BSTR_OK
       else if b_data h0 = s \<or> len = 0 then Some 1
       else do {
         r \<leftarrow> cmp_loop (\<lambda>x y. if x \<noteq> y then if c_tolower x \<noteq> c_tolower y then Some 0 else None else None)
           h (b_data h0) s 0 len;
         Some (case r of Some v \<Rightarrow> v | None \<Rightarrow> 1)
       }
     }
   }"

text \<open>\<open>memcmp\<close>, of which only the equality is used.\<close>

definition mem_eq :: "bmem \<Rightarrow> ptr option \<Rightarrow> ptr option \<Rightarrow> int \<Rightarrow> bool option" where
  "mem_eq h p q n = do {
     r \<leftarrow> cmp_loop (\<lambda>x y. if x \<noteq> y then Some 1 else None) h p q 0 n;
     Some (r = None)
   }"

definition biseqblk :: "bstring \<Rightarrow> ptr option \<Rightarrow> int \<Rightarrow> bmem \<Rightarrow> int option" where
  "biseqblk b s len h =
     (if len < 0 \<or> b = None \<or> s = None then Some BSTR_ERR
      else do {
        bh \<leftarrow> hdr_of h b;
        if b_data bh = None \<or> b_slen bh < 0 then Some BSTR_ERR
        else if b_slen bh \<noteq> len then Some 0
        else if len = 0 \<or> b_data bh = s then Some 1
        else do {
          e \<leftarrow> mem_eq h (b_data bh) s len;
          Some (of_bool e)
        }
      })"

definition biseq :: "bstring \<Rightarrow> bstring \<Rightarrow> bmem \<Rightarrow> int option" where
  "biseq b0 b1 h =
     (if b0 = None \<or> b1 = None then Some BSTR_ERR
      else do {
        h0 \<leftarrow> hdr_of h b0;
        h1 \<leftarrow> hdr_of h b1;
        if b_data h0 = None \<or> b_data h1 = None \<or> b_slen h0 < 0 \<or> b_slen h1 < 0 then Some BSTR_ERR
        else if b_slen h0 \<noteq> b_slen h1 then Some BSTR_OK
        else if b_data h0 = b_data h1 \<or> b_slen h0 = 0 then Some 1
        else do {
          e \<leftarrow> mem_eq h (b_data h0) (b_data h1) (b_slen h0);
          Some (of_bool e)
        }
      })"

definition bisstemeqblk :: "bstring \<Rightarrow> ptr option \<Rightarrow> int \<Rightarrow> bmem \<Rightarrow> int option" where
  "bisstemeqblk b0 s len h = do {
     p \<leftarrow> bdata h b0;
     if p = None then Some BSTR_ERR
     else do {
       h0 \<leftarrow> hdr_of h b0;
       if b_slen h0 < 0 \<or> s = None \<or> len < 0 then Some BSTR_ERR
       else if b_slen h0 < len then Some BSTR_OK
       else if b_data h0 = s \<or> len = 0 then Some 1
       else do {
         r \<leftarrow> cmp_loop (\<lambda>x y. if x \<noteq> y then Some BSTR_OK else None) h (b_data h0) s 0 len;
         Some (case r of Some v \<Rightarrow> v | None \<Rightarrow> 1)
       }
     }
   }"

text \<open>The loops of \<open>biseqcstr\<close> and \<open>biseqcstrcaseless\<close>, which end at the terminator of the C string.\<close>

function eqcstr_loop :: "(u8 \<Rightarrow> u8 \<Rightarrow> bool) \<Rightarrow> bmem \<Rightarrow> ptr option \<Rightarrow> ptr option \<Rightarrow> int \<Rightarrow> int \<Rightarrow> int option option" where
  "eqcstr_loop differ h p s i n =
     (if i < n then do {
        y \<leftarrow> rdb h s i;
        if y = 0 then Some (Some BSTR_OK)
        else do {
          x \<leftarrow> rdb h p i;
          if differ x y then Some (Some BSTR_OK) else eqcstr_loop differ h p s (i + 1) n
        }
      } else Some None)"
  by pat_completeness auto
termination by (relation "measure (\<lambda>(differ, h, p, s, i, n). nat (n - i))") auto

definition biseqcstr :: "bstring \<Rightarrow> ptr option \<Rightarrow> bmem \<Rightarrow> int option" where
  "biseqcstr b s h =
     (if b = None \<or> s = None then Some BSTR_ERR
      else do {
        bh \<leftarrow> hdr_of h b;
        if b_data bh = None \<or> b_slen bh < 0 then Some BSTR_ERR
        else do {
          r \<leftarrow> eqcstr_loop (\<lambda>x y. x \<noteq> y) h (b_data bh) s 0 (b_slen bh);
          case r of Some v \<Rightarrow> Some v
          | None \<Rightarrow> do {
              c \<leftarrow> rdb h s (b_slen bh);
              Some (of_bool (c = 0))
            }
        }
      })"

definition biseqcstrcaseless :: "bstring \<Rightarrow> ptr option \<Rightarrow> bmem \<Rightarrow> int option" where
  "biseqcstrcaseless b s h =
     (if b = None \<or> s = None then Some BSTR_ERR
      else do {
        bh \<leftarrow> hdr_of h b;
        if b_data bh = None \<or> b_slen bh < 0 then Some BSTR_ERR
        else do {
          r \<leftarrow> eqcstr_loop (\<lambda>x y. x \<noteq> y \<and> c_tolower x \<noteq> c_tolower y) h (b_data bh) s 0 (b_slen bh);
          case r of Some v \<Rightarrow> Some v
          | None \<Rightarrow> do {
              c \<leftarrow> rdb h s (b_slen bh);
              Some (of_bool (c = 0))
            }
        }
      })"

definition bstrcmp :: "bstring \<Rightarrow> bstring \<Rightarrow> bmem \<Rightarrow> int option" where
  "bstrcmp b0 b1 h =
     (if b0 = None \<or> b1 = None then Some SHRT_MIN
      else do {
        h0 \<leftarrow> hdr_of h b0;
        h1 \<leftarrow> hdr_of h b1;
        if b_data h0 = None \<or> b_data h1 = None \<or> b_slen h0 < 0 \<or> b_slen h1 < 0 then Some SHRT_MIN
        else
          let n = (if b_slen h0 > b_slen h1 then b_slen h1 else b_slen h0) in
          if b_slen h0 = b_slen h1 \<and> (b_data h0 = b_data h1 \<or> b_slen h0 = 0) then Some BSTR_OK
          else do {
            r \<leftarrow> cmp_loop (\<lambda>x y. let v = sint x - sint y in if v \<noteq> 0 then Some v else if x = 0 then Some BSTR_OK else None)
              h (b_data h0) (b_data h1) 0 n;
            Some (case r of Some v \<Rightarrow> v
              | None \<Rightarrow> if b_slen h0 > n then 1 else if b_slen h1 > n then -1 else BSTR_OK)
          }
      })"

definition bstrncmp :: "bstring \<Rightarrow> bstring \<Rightarrow> int \<Rightarrow> bmem \<Rightarrow> int option" where
  "bstrncmp b0 b1 n h =
     (if b0 = None \<or> b1 = None then Some SHRT_MIN
      else do {
        h0 \<leftarrow> hdr_of h b0;
        h1 \<leftarrow> hdr_of h b1;
        if b_data h0 = None \<or> b_data h1 = None \<or> b_slen h0 < 0 \<or> b_slen h1 < 0 then Some SHRT_MIN
        else do {
          let m = n;
          let m = (if m > b_slen h0 then b_slen h0 else m);
          let m = (if m > b_slen h1 then b_slen h1 else m);
          r \<leftarrow> if b_data h0 \<noteq> b_data h1 then
              cmp_loop (\<lambda>x y. let v = sint x - sint y in if v \<noteq> 0 then Some v else if x = 0 then Some BSTR_OK else None)
                h (b_data h0) (b_data h1) 0 m
            else Some None;
          Some (case r of Some v \<Rightarrow> v
            | None \<Rightarrow> if n = m \<or> b_slen h0 = b_slen h1 then BSTR_OK else if b_slen h0 > m then 1 else -1)
        }
      })"

section \<open>Substrings, deletion and trimming\<close>

text \<open>The literal \<open>""\<close> that is passed to \<open>bfromcstr\<close> is the argument \<open>lit\<close>.\<close>

definition bmidstr :: "ptr option \<Rightarrow> bstring \<Rightarrow> int \<Rightarrow> int \<Rightarrow> bmem \<Rightarrow> (bstring \<times> bmem) option" where
  "bmidstr lit b left len h =
     (if b = None then Some (None, h)
      else do {
        bh \<leftarrow> hdr_of h b;
        if b_slen bh < 0 \<or> b_data bh = None then Some (None, h)
        else do {
          len \<leftarrow> if left < 0 then cint (len + left) else Some len;
          let left = (if left < 0 then 0 else left);
          let len = (if len > b_slen bh - left then b_slen bh - left else len);
          if len \<le> 0 then bfromcstr lit h else blk2bstr (b_data bh) left len h
        }
      })"

definition bdelete :: "bstring \<Rightarrow> int \<Rightarrow> int \<Rightarrow> bmem \<Rightarrow> (int \<times> bmem) option" where
  "bdelete b pos len h = do {
     len \<leftarrow> if pos < 0 then cint (len + pos) else Some len;
     let pos = (if pos < 0 then 0 else pos);
     if len < 0 \<or> b = None then Some (BSTR_ERR, h)
     else do {
       bh \<leftarrow> hdr_of h b;
       if bad_hdr bh then Some (BSTR_ERR, h)
       else if len > 0 \<and> pos < b_slen bh then do {
         pl \<leftarrow> cint (pos + len);
         if pl \<ge> b_slen bh then do {
           h \<leftarrow> set_hdr h b (bh\<lparr>b_slen := pos\<rparr>);
           h \<leftarrow> wrb h (b_data bh) pos 0;
           Some (BSTR_OK, h)
         } else do {
           h \<leftarrow> bBlockCopy h (b_data bh) pos (b_data bh) pl (b_slen bh - pl);
           h \<leftarrow> set_hdr h b (bh\<lparr>b_slen := b_slen bh - len\<rparr>);
           h \<leftarrow> wrb h (b_data bh) (b_slen bh - len) 0;
           Some (BSTR_OK, h)
         }
       } else Some (BSTR_OK, h)
     }
   }"

text \<open>The end of the three trimming functions, when there is nothing but white space.\<close>

definition set_empty :: "bstring \<Rightarrow> bhdr \<Rightarrow> bmem \<Rightarrow> (int \<times> bmem) option" where
  "set_empty b bh h = do {
     h \<leftarrow> wrb h (b_data bh) 0 0;
     h \<leftarrow> set_hdr h b (bh\<lparr>b_slen := 0\<rparr>);
     Some (BSTR_OK, h)
   }"

definition bltrimws :: "bstring \<Rightarrow> bmem \<Rightarrow> (int \<times> bmem) option" where
  "bltrimws b h =
     (if b = None then Some (BSTR_ERR, h)
      else do {
        bh \<leftarrow> hdr_of h b;
        if bad_hdr bh then Some (BSTR_ERR, h)
        else do {
          r \<leftarrow> scan_loop (\<lambda>c. \<not> c_isspace c) h (b_data bh) 0 (b_slen bh);
          case r of Some i \<Rightarrow> bdelete b 0 i h | None \<Rightarrow> set_empty b bh h
        }
      })"

text \<open>The statements of \<open>brtrimws\<close> and \<open>btrimws\<close> that cut the string behind its last character \<open>i\<close>.\<close>

definition cut_after :: "bstring \<Rightarrow> bhdr \<Rightarrow> int \<Rightarrow> bmem \<Rightarrow> bmem option" where
  "cut_after b bh i h = do {
     h \<leftarrow> if b_mlen bh > i then wrb h (b_data bh) (i + 1) 0 else Some h;
     set_hdr h b (bh\<lparr>b_slen := i + 1\<rparr>)
   }"

definition brtrimws :: "bstring \<Rightarrow> bmem \<Rightarrow> (int \<times> bmem) option" where
  "brtrimws b h =
     (if b = None then Some (BSTR_ERR, h)
      else do {
        bh \<leftarrow> hdr_of h b;
        if bad_hdr bh then Some (BSTR_ERR, h)
        else do {
          r \<leftarrow> rscan_loop (\<lambda>c. \<not> c_isspace c) h (b_data bh) (b_slen bh - 1);
          case r of Some i \<Rightarrow> do {
              h \<leftarrow> cut_after b bh i h;
              Some (BSTR_OK, h)
            }
          | None \<Rightarrow> set_empty b bh h
        }
      })"

text \<open>The inner loop of \<open>btrimws\<close> has no bound of its own.\<close>

partial_function (option) space_run :: "bmem \<Rightarrow> ptr option \<Rightarrow> int \<Rightarrow> int option" where
  "space_run h p j = do {
     c \<leftarrow> rdb h p j;
     if c_isspace c then space_run h p (j + 1) else Some j
   }"

definition btrimws :: "bstring \<Rightarrow> bmem \<Rightarrow> (int \<times> bmem) option" where
  "btrimws b h =
     (if b = None then Some (BSTR_ERR, h)
      else do {
        bh \<leftarrow> hdr_of h b;
        if bad_hdr bh then Some (BSTR_ERR, h)
        else do {
          r \<leftarrow> rscan_loop (\<lambda>c. \<not> c_isspace c) h (b_data bh) (b_slen bh - 1);
          case r of Some i \<Rightarrow> do {
              h \<leftarrow> cut_after b bh i h;
              j \<leftarrow> space_run h (b_data bh) 0;
              bdelete b 0 j h
            }
          | None \<Rightarrow> set_empty b bh h
        }
      })"

section \<open>Search\<close>

text \<open>
  The unrolled search loop of \<open>binstr\<close> with its re-entry at the label \<open>N0\<close>. \<open>c1\<close> is the character that is
  looked for next, \<open>j\<close> its index, \<open>ii\<close> the position where the last attempt began.
\<close>

partial_function (option) binstr_loop ::
  "bmem \<Rightarrow> ptr option \<Rightarrow> ptr option \<Rightarrow> u8 \<Rightarrow> int \<Rightarrow> int \<Rightarrow> int \<Rightarrow> int \<Rightarrow> int \<Rightarrow> u8 \<Rightarrow> int option" where
  "binstr_loop h d0 d1 c0 ll lf i j ii c1 =
     (if i < lf then do {
        x \<leftarrow> rdb h d1 i;
        (skip, i) \<leftarrow> if c1 \<noteq> x then do {
            y \<leftarrow> rdb h d1 (1 + i);
            Some (if c1 \<noteq> y then (True, i + 2) else (False, i + 1))
          } else Some (False, i);
        if skip then binstr_loop h d0 d1 c0 ll lf i j ii c1
        else do {
          let ii = (if 0 = j then i else ii);
          let j = j + 1;
          let i = i + 1;
          if j < ll then do {
            c1 \<leftarrow> rdb h d0 j;
            binstr_loop h d0 d1 c0 ll lf i j ii c1
          }
          else if i = ii + j then Some ii
          else binstr_loop h d0 d1 c0 ll lf (i - j) 0 ii c0
        }
      }
      else if i = lf \<and> ll = j + 1 then do {
        x \<leftarrow> rdb h d1 i;
        if c1 = x then if i = ii + j then Some ii else binstr_loop h d0 d1 c0 ll lf (i - j) 0 ii c0
        else Some BSTR_ERR
      }
      else Some BSTR_ERR)"

definition binstr :: "bstring \<Rightarrow> int \<Rightarrow> bstring \<Rightarrow> bmem \<Rightarrow> int option" where
  "binstr b1 pos b2 h =
     (if b1 = None then Some BSTR_ERR
      else do {
        h1 \<leftarrow> hdr_of h b1;
        if b_data h1 = None \<or> b_slen h1 < 0 \<or> b2 = None then Some BSTR_ERR
        else do {
          h2 \<leftarrow> hdr_of h b2;
          if b_data h2 = None \<or> b_slen h2 < 0 then Some BSTR_ERR
          else if b_slen h1 = pos then Some (if b_slen h2 = 0 then pos else BSTR_ERR)
          else if b_slen h1 < pos \<or> pos < 0 then Some BSTR_ERR
          else if b_slen h2 = 0 then Some pos
          else
            let lf = b_slen h1 - b_slen h2 + 1 in
            if lf \<le> pos then Some BSTR_ERR
            else if b_data h1 = b_data h2 \<and> pos = 0 then Some 0
            else do {
              c0 \<leftarrow> rdb h (b_data h2) 0;
              if 1 = b_slen h2 then or_err (scan_loop (\<lambda>c. c0 = c) h (b_data h1) pos lf)
              else binstr_loop h (b_data h2) (b_data h1) c0 (b_slen h2) (b_slen h1 - 1) pos 0 (-1) c0
            }
        }
      })"

text \<open>
  The loops of the other search functions: \<open>same\<close> compares two characters, \<open>l\<close> is the first position
  that is too far right.
\<close>

function find_loop :: "(u8 \<Rightarrow> u8 \<Rightarrow> bool) \<Rightarrow> bmem \<Rightarrow> ptr option \<Rightarrow> ptr option \<Rightarrow> int \<Rightarrow> int \<Rightarrow> int \<Rightarrow> int \<Rightarrow> int option" where
  "find_loop same h d0 d1 ll l i j = do {
     x \<leftarrow> rdb h d0 j;
     y \<leftarrow> rdb h d1 (i + j);
     if same x y then if j + 1 \<ge> ll then Some i else find_loop same h d0 d1 ll l i (j + 1)
     else if i + 1 \<ge> l then Some BSTR_ERR
     else find_loop same h d0 d1 ll l (i + 1) 0
   }"
  by pat_completeness auto
termination
  by (relation "measures [\<lambda>(same, h, d0, d1, ll, l, i, j). nat (l - i), \<lambda>(same, h, d0, d1, ll, l, i, j). nat (ll - j)]") auto

definition binstrcaseless :: "bstring \<Rightarrow> int \<Rightarrow> bstring \<Rightarrow> bmem \<Rightarrow> int option" where
  "binstrcaseless b1 pos b2 h =
     (if b1 = None then Some BSTR_ERR
      else do {
        h1 \<leftarrow> hdr_of h b1;
        if b_data h1 = None \<or> b_slen h1 < 0 \<or> b2 = None then Some BSTR_ERR
        else do {
          h2 \<leftarrow> hdr_of h b2;
          if b_data h2 = None \<or> b_slen h2 < 0 then Some BSTR_ERR
          else if b_slen h1 = pos then Some (if b_slen h2 = 0 then pos else BSTR_ERR)
          else if b_slen h1 < pos \<or> pos < 0 then Some BSTR_ERR
          else if b_slen h2 = 0 then Some pos
          else
            let l = b_slen h1 - b_slen h2 + 1 in
            if l \<le> pos then Some BSTR_ERR
            else if b_data h1 = b_data h2 \<and> pos = 0 then Some BSTR_OK
            else find_loop (\<lambda>x y. x = y \<or> c_tolower x = c_tolower y) h (b_data h2) (b_data h1) (b_slen h2) l pos 0
        }
      })"

function rfind_loop :: "(u8 \<Rightarrow> u8 \<Rightarrow> bool) \<Rightarrow> bmem \<Rightarrow> ptr option \<Rightarrow> ptr option \<Rightarrow> int \<Rightarrow> int \<Rightarrow> int \<Rightarrow> int option" where
  "rfind_loop same h d0 d1 l i j = do {
     x \<leftarrow> rdb h d0 j;
     y \<leftarrow> rdb h d1 (i + j);
     if same x y then if j + 1 \<ge> l then Some i else rfind_loop same h d0 d1 l i (j + 1)
     else if i - 1 < 0 then Some BSTR_ERR
     else rfind_loop same h d0 d1 l (i - 1) 0
   }"
  by pat_completeness auto
termination
  by (relation "measures [\<lambda>(same, h, d0, d1, l, i, j). nat (i + 1), \<lambda>(same, h, d0, d1, l, i, j). nat (l - j)]") auto

text \<open>\<open>binstrr\<close> and \<open>binstrrcaseless\<close> differ in the comparison only.\<close>

definition rfind :: "(u8 \<Rightarrow> u8 \<Rightarrow> bool) \<Rightarrow> bstring \<Rightarrow> int \<Rightarrow> bstring \<Rightarrow> bmem \<Rightarrow> int option" where
  "rfind same b1 pos b2 h =
     (if b1 = None then Some BSTR_ERR
      else do {
        h1 \<leftarrow> hdr_of h b1;
        if b_data h1 = None \<or> b_slen h1 < 0 \<or> b2 = None then Some BSTR_ERR
        else do {
          h2 \<leftarrow> hdr_of h b2;
          if b_data h2 = None \<or> b_slen h2 < 0 then Some BSTR_ERR
          else if b_slen h1 = pos \<and> b_slen h2 = 0 then Some pos
          else if b_slen h1 < pos \<or> pos < 0 then Some BSTR_ERR
          else if b_slen h2 = 0 then Some pos
          else if b_data h1 = b_data h2 \<and> pos = 0 \<and> b_slen h2 \<le> b_slen h1 then Some 0
          else
            let l = b_slen h1 - b_slen h2 in
            if l < 0 then Some BSTR_ERR
            else rfind_loop same h (b_data h2) (b_data h1) (b_slen h2) (if l + 1 \<le> pos then l else pos) 0
        }
      })"

definition binstrr :: "bstring \<Rightarrow> int \<Rightarrow> bstring \<Rightarrow> bmem \<Rightarrow> int option" where
  "binstrr = rfind (\<lambda>x y. x = y)"

definition binstrrcaseless :: "bstring \<Rightarrow> int \<Rightarrow> bstring \<Rightarrow> bmem \<Rightarrow> int option" where
  "binstrrcaseless = rfind (\<lambda>x y. x = y \<or> c_tolower x = c_tolower y)"

definition bstrchrp :: "bstring \<Rightarrow> int \<Rightarrow> int \<Rightarrow> bmem \<Rightarrow> int option" where
  "bstrchrp b c pos h =
     (if b = None then Some BSTR_ERR
      else do {
        bh \<leftarrow> hdr_of h b;
        if b_data bh = None \<or> b_slen bh \<le> pos \<or> pos < 0 then Some BSTR_ERR
        else or_err (scan_loop (\<lambda>x. x = word_of_int c) h (b_data bh) pos (b_slen bh))
      })"

definition bstrrchrp :: "bstring \<Rightarrow> int \<Rightarrow> int \<Rightarrow> bmem \<Rightarrow> int option" where
  "bstrrchrp b c pos h =
     (if b = None then Some BSTR_ERR
      else do {
        bh \<leftarrow> hdr_of h b;
        if b_data bh = None \<or> b_slen bh \<le> pos \<or> pos < 0 then Some BSTR_ERR
        else or_err (rscan_loop (\<lambda>x. x = word_of_int c) h (b_data bh) pos)
      })"

section \<open>Character sets\<close>

text \<open>A set of characters is an array of 32 bytes with a bit per character.\<close>

definition testInCharField :: "bytes \<Rightarrow> u8 \<Rightarrow> bool" where
  "testInCharField cf c \<longleftrightarrow> cf ! unat (drop_bit 3 c) AND push_bit (unat (c AND 7)) 1 \<noteq> 0"

definition setInCharField :: "bytes \<Rightarrow> u8 \<Rightarrow> bytes" where
  "setInCharField cf c = cf[unat (drop_bit 3 c) := cf ! unat (drop_bit 3 c) OR push_bit (unat (c AND 7)) 1]"

function build_loop :: "bmem \<Rightarrow> ptr option \<Rightarrow> int \<Rightarrow> int \<Rightarrow> bytes \<Rightarrow> bytes option" where
  "build_loop h p i n cf =
     (if i < n then do {
        c \<leftarrow> rdb h p i;
        build_loop h p (i + 1) n (setInCharField cf c)
      } else Some cf)"
  by pat_completeness auto
termination by (relation "measure (\<lambda>(h, p, i, n, cf). nat (n - i))") auto

text \<open>\<open>None\<close> inside is the result \<open>BSTR_ERR\<close>.\<close>

definition buildCharField :: "bstring \<Rightarrow> bmem \<Rightarrow> bytes option option" where
  "buildCharField b h =
     (if b = None then Some None
      else do {
        bh \<leftarrow> hdr_of h b;
        if b_data bh = None \<or> b_slen bh \<le> 0 then Some None
        else do {
          cf \<leftarrow> build_loop h (b_data bh) 0 (b_slen bh) (replicate 32 0);
          Some (Some cf)
        }
      })"

definition invertCharField :: "bytes \<Rightarrow> bytes" where
  "invertCharField cf = map NOT cf"

definition binchrCF :: "ptr option \<Rightarrow> int \<Rightarrow> int \<Rightarrow> bytes \<Rightarrow> bmem \<Rightarrow> int option" where
  "binchrCF p len pos cf h = or_err (scan_loop (testInCharField cf) h p pos len)"

definition binchrrCF :: "ptr option \<Rightarrow> int \<Rightarrow> bytes \<Rightarrow> bmem \<Rightarrow> int option" where
  "binchrrCF p pos cf h = or_err (rscan_loop (testInCharField cf) h p pos)"

definition binchr :: "bstring \<Rightarrow> int \<Rightarrow> bstring \<Rightarrow> bmem \<Rightarrow> int option" where
  "binchr b0 pos b1 h =
     (if pos < 0 \<or> b0 = None then Some BSTR_ERR
      else do {
        h0 \<leftarrow> hdr_of h b0;
        if b_data h0 = None \<or> b_slen h0 \<le> pos then Some BSTR_ERR
        else do {
          h1 \<leftarrow> hdr_of h b1;
          if 1 = b_slen h1 then do {
            c \<leftarrow> rdb h (b_data h1) 0;
            bstrchrp b0 (uint c) pos h
          }
          else do {
            cf \<leftarrow> buildCharField b1 h;
            case cf of None \<Rightarrow> Some BSTR_ERR | Some cf \<Rightarrow> binchrCF (b_data h0) (b_slen h0) pos cf h
          }
        }
      })"

definition binchrr :: "bstring \<Rightarrow> int \<Rightarrow> bstring \<Rightarrow> bmem \<Rightarrow> int option" where
  "binchrr b0 pos b1 h =
     (if pos < 0 \<or> b0 = None then Some BSTR_ERR
      else do {
        h0 \<leftarrow> hdr_of h b0;
        if b_data h0 = None \<or> b1 = None \<or> b_slen h0 < pos then Some BSTR_ERR
        else do {
          let pos = (if pos = b_slen h0 then pos - 1 else pos);
          h1 \<leftarrow> hdr_of h b1;
          if 1 = b_slen h1 then do {
            c \<leftarrow> rdb h (b_data h1) 0;
            bstrrchrp b0 (uint c) pos h
          }
          else do {
            cf \<leftarrow> buildCharField b1 h;
            case cf of None \<Rightarrow> Some BSTR_ERR | Some cf \<Rightarrow> binchrrCF (b_data h0) pos cf h
          }
        }
      })"

definition bninchr :: "bstring \<Rightarrow> int \<Rightarrow> bstring \<Rightarrow> bmem \<Rightarrow> int option" where
  "bninchr b0 pos b1 h =
     (if pos < 0 \<or> b0 = None then Some BSTR_ERR
      else do {
        h0 \<leftarrow> hdr_of h b0;
        if b_data h0 = None \<or> b_slen h0 \<le> pos then Some BSTR_ERR
        else do {
          cf \<leftarrow> buildCharField b1 h;
          case cf of None \<Rightarrow> Some BSTR_ERR
          | Some cf \<Rightarrow> binchrCF (b_data h0) (b_slen h0) pos (invertCharField cf) h
        }
      })"

definition bninchrr :: "bstring \<Rightarrow> int \<Rightarrow> bstring \<Rightarrow> bmem \<Rightarrow> int option" where
  "bninchrr b0 pos b1 h =
     (if pos < 0 \<or> b0 = None then Some BSTR_ERR
      else do {
        h0 \<leftarrow> hdr_of h b0;
        if b_data h0 = None \<or> b_slen h0 < pos then Some BSTR_ERR
        else do {
          let pos = (if pos = b_slen h0 then pos - 1 else pos);
          cf \<leftarrow> buildCharField b1 h;
          case cf of None \<Rightarrow> Some BSTR_ERR
          | Some cf \<Rightarrow> binchrrCF (b_data h0) pos (invertCharField cf) h
        }
      })"
end
