(* ===== verification/BstrFind.thy ===== *)
theory BstrFind
  imports BstrEdit BstrText Comparator
begin

text \<open>
  Searching and comparing strings: the loops of \<open>BstrText\<close> find the first or last position of a list with a
  property, the character fields are sets of characters, and \<open>bstrcmp\<close> is a comparator.
\<close>

section \<open>Characters in memory\<close>

declare scan_loop.simps [simp del] rscan_loop.simps [simp del] cmp_loop.simps [simp del]
  find_loop.simps [simp del] rfind_loop.simps [simp del] build_loop.simps [simp del] eqcstr_loop.simps [simp del]

definition chars :: "bmem \<Rightarrow> ptr option \<Rightarrow> bytes \<Rightarrow> bool" where
  "chars h p s \<longleftrightarrow> (\<forall>i < length s. rdb h p (int i) = Some (s ! i))"

lemma charsD: "chars h p s \<Longrightarrow> i < length s \<Longrightarrow> rdb h p (int i) = Some (s ! i)"
  by (simp add: chars_def)

lemma charsD_int: "chars h p s \<Longrightarrow> 0 \<le> i \<Longrightarrow> i < int (length s) \<Longrightarrow> rdb h p i = Some (s ! nat i)"
  using charsD [of h p s "nat i"] by simp

lemma reads_chars:
  assumes "reads h i s"
  obtains hi p where "bm_hdr h i = Some hi" "b_slen hi = int (length s)" "b_data hi = Some p" "chars h (Some p) s"
proof -
  obtain n k off m where R: "bm_hdr h i = Some \<lparr>b_mlen = n, b_slen = int (length s), b_data = Some (k, off)\<rparr>"
    "bm_blk h k = Some m" "off + length s \<le> length m" "take (length s) (drop off m) = map Some s"
    using readsE [OF assms] .
  have "rdb h (Some (k, off)) (int j) = Some (s ! j)" if "j < length s" for j
  proof -
    have "rdb h (Some (k, off)) (int j) = m ! (off + j)" using rdb_eq [OF R(2), of "int j" off] that R(3) by simp
    also have "\<dots> = take (length s) (drop off m) ! j" using that R(3) by simp
    finally show ?thesis using R(4) that by simp
  qed
  then show thesis using that [OF R(1)] by (simp add: chars_def)
qed

text \<open>Strings at the same address agree.\<close>

lemma chars_same: "chars h p s \<Longrightarrow> chars h p t \<Longrightarrow> i < length s \<Longrightarrow> i < length t \<Longrightarrow> s ! i = t ! i"
  using charsD [of h p s i] charsD [of h p t i] by simp

section \<open>Loops that look for a character\<close>

lemma find_upt_step: "i < n \<Longrightarrow> find P [i..<n] = (if P i then Some i else find P [Suc i..<n])"
  by (simp add: upt_conv_Cons)

lemma find_rev_upt_step: "find P (rev [0..<Suc i]) = (if P i then Some i else find P (rev [0..<i]))"
  by simp

lemma scan_loop_ok:
  "chars h p s \<Longrightarrow> n \<le> length s \<Longrightarrow>
   scan_loop f h p (int i) (int n) = Some (map_option int (find (\<lambda>k. f (s ! k)) [i..<n]))"
proof (induction "n - i" arbitrary: i)
  case 0
  then show ?case by (subst scan_loop.simps) simp
next
  case (Suc d)
  then have i: "i < n" by simp
  have "scan_loop f h p (int i + 1) (int n) = Some (map_option int (find (\<lambda>k. f (s ! k)) [Suc i..<n]))"
    using Suc(1) [of "Suc i"] Suc(2-4) by (simp add: add.commute)
  then show ?case using i charsD [OF Suc(3), of i] Suc(4) by (subst scan_loop.simps) (simp add: find_upt_step)
qed

lemma rscan_loop_ok:
  "chars h p s \<Longrightarrow> n \<le> length s \<Longrightarrow>
   rscan_loop f h p (int n - 1) = Some (map_option int (find (\<lambda>k. f (s ! k)) (rev [0..<n])))"
proof (induction n)
  case 0
  then show ?case by (subst rscan_loop.simps) simp
next
  case (Suc n)
  then show ?case using charsD [OF Suc(2), of n] by (subst rscan_loop.simps) simp
qed

text \<open>A position as the C code returns it.\<close>

definition pos_or_err :: "nat option \<Rightarrow> int" where
  "pos_or_err r = (case r of Some i \<Rightarrow> int i | None \<Rightarrow> BSTR_ERR)"

lemma pos_or_err_simps [simp]: "pos_or_err None = BSTR_ERR" "pos_or_err (Some i) = int i"
  by (simp_all add: pos_or_err_def)

lemma or_err_map: "or_err (Some (map_option int r)) = Some (pos_or_err r)"
  by (cases r) (simp_all add: or_err_def)

section \<open>Substring search\<close>

definition occurs :: "(u8 \<Rightarrow> u8 \<Rightarrow> bool) \<Rightarrow> bytes \<Rightarrow> bytes \<Rightarrow> nat \<Rightarrow> bool" where
  "occurs same t s k \<longleftrightarrow> k + length t \<le> length s \<and> (\<forall>m < length t. same (t ! m) (s ! (k + m)))"

lemma occurs_eq: "occurs (=) t s k \<longleftrightarrow> k + length t \<le> length s \<and> take (length t) (drop k s) = t"
  unfolding occurs_def by (auto simp: list_eq_iff_nth_eq)

lemma occurs_Nil [simp]: "occurs same [] s k \<longleftrightarrow> k \<le> length s"
  by (simp add: occurs_def)

lemma find_upt_first:
  "find P [i..<n] = Some k \<longleftrightarrow> i \<le> k \<and> k < n \<and> P k \<and> (\<forall>m. i \<le> m \<and> m < k \<longrightarrow> \<not> P m)"
proof (induction "n - i" arbitrary: i)
  case (Suc d)
  then have i: "i < n" and IH: "find P [Suc i..<n] = Some k \<longleftrightarrow> Suc i \<le> k \<and> k < n \<and> P k \<and> (\<forall>m. Suc i \<le> m \<and> m < k \<longrightarrow> \<not> P m)"
    by auto
  show ?case
  proof (cases "P i")
    case True
    then show ?thesis using i by (auto simp: find_upt_step)
  next
    case False
    have "(\<forall>m. i \<le> m \<and> m < k \<longrightarrow> \<not> P m) \<longleftrightarrow> (\<forall>m. Suc i \<le> m \<and> m < k \<longrightarrow> \<not> P m)"
      using False by (metis Suc_leD Suc_leI le_neq_implies_less)
    moreover have "Suc i \<le> k \<longleftrightarrow> i \<le> k" if "P k" using that False by (metis Suc_leD Suc_leI le_neq_implies_less)
    ultimately show ?thesis using i False IH by (auto simp: find_upt_step)
  qed
qed simp

lemma find_upt_none: "find P [i..<n] = None \<longleftrightarrow> (\<forall>k. i \<le> k \<and> k < n \<longrightarrow> \<not> P k)"
  by (auto simp: find_None_iff)

lemma find_upt_cut:
  assumes "\<And>k. n \<le> k \<Longrightarrow> \<not> P k" "n \<le> n'"
  shows "find P [i..<n'] = find P [i..<n]"
proof (cases "find P [i..<n]")
  case None
  then have "find P [i..<n'] = None" using assms(1) unfolding find_upt_none by (meson not_le)
  then show ?thesis using None by simp
next
  case (Some k)
  then have "find P [i..<n'] = Some k" using assms(2) unfolding find_upt_first by auto
  then show ?thesis using Some by simp
qed

lemma find_inner:
  assumes "chars h p t" "chars h q s" "i + length t \<le> length s"
  shows "j < length t \<Longrightarrow> \<forall>m < j. same (t ! m) (s ! (i + m)) \<Longrightarrow>
    find_loop same h p q (int (length t)) l (int i) (int j) =
      (if occurs same t s i then Some (int i) else if int i + 1 \<ge> l then Some BSTR_ERR
       else find_loop same h p q (int (length t)) l (int i + 1) 0)"
proof (induction "length t - j" arbitrary: j)
  case (Suc d)
  have r: "rdb h p (int j) = Some (t ! j)" "rdb h q (int i + int j) = Some (s ! (i + j))"
    using charsD [OF assms(1) Suc(3)] charsD [OF assms(2), of "i + j"] assms(3) Suc(3) by simp_all
  show ?case
  proof (cases "same (t ! j) (s ! (i + j))")
    case False
    then have "\<not> occurs same t s i" using Suc(3) by (auto simp: occurs_def)
    then show ?thesis using r False by (subst find_loop.simps) simp
  next
    case True
    then have m: "\<forall>m < Suc j. same (t ! m) (s ! (i + m))" using Suc(4) by (auto simp: less_Suc_eq)
    show ?thesis
    proof (cases "Suc j < length t")
      case False
      then have "occurs same t s i" using m assms(3) Suc(3) by (auto simp: occurs_def)
      moreover have "int j + 1 \<ge> int (length t)" using False by simp
      ultimately show ?thesis using r True by (subst find_loop.simps) simp
    next
      case more: True
      have "find_loop same h p q (int (length t)) l (int i) (int j) = find_loop same h p q (int (length t)) l (int i) (int (Suc j))"
        using r True more by (subst find_loop.simps) (simp add: add.commute)
      also have "\<dots> = (if occurs same t s i then Some (int i) else if int i + 1 \<ge> l then Some BSTR_ERR
          else find_loop same h p q (int (length t)) l (int i + 1) 0)"
        using Suc(1) [of "Suc j"] Suc(2) more m by simp
      finally show ?thesis .
    qed
  qed
qed simp

lemma substring_loop_ok:
  assumes "chars h p t" "chars h q s" "t \<noteq> []"
  shows "i + length t \<le> length s \<Longrightarrow>
    find_loop same h p q (int (length t)) (int (length s) - int (length t) + 1) (int i) 0 =
      Some (pos_or_err (find (occurs same t s) [i..<Suc (length s - length t)]))"
proof (induction "length s - length t - i" arbitrary: i)
  case 0
  have e: "i = length s - length t" using 0 by simp
  show ?case
    using find_inner [OF assms(1,2) 0(2), of 0 same "int (length s) - int (length t) + 1"] assms(3) 0(2) e by (simp add: of_nat_diff)
next
  case (Suc d)
  have "find_loop same h p q (int (length t)) (int (length s) - int (length t) + 1) (int (Suc i)) 0 =
      Some (pos_or_err (find (occurs same t s) [Suc i..<Suc (length s - length t)]))"
    using Suc(1) [of "Suc i"] Suc(2,3) by linarith
  moreover have "\<not> int (length s) - int (length t) + 1 \<le> int i + 1" using Suc(2,3) by linarith
  ultimately show ?case
    using find_inner [OF assms(1,2) Suc(3), of 0 same "int (length s) - int (length t) + 1"] assms(3) Suc(2,3)
    by (simp add: find_upt_step add.commute del: upt_Suc)
qed

lemma rfind_inner:
  assumes "chars h p t" "chars h q s" "i + length t \<le> length s"
  shows "j < length t \<Longrightarrow> \<forall>m < j. same (t ! m) (s ! (i + m)) \<Longrightarrow>
    rfind_loop same h p q (int (length t)) (int i) (int j) =
      (if occurs same t s i then Some (int i) else if int i - 1 < 0 then Some BSTR_ERR
       else rfind_loop same h p q (int (length t)) (int i - 1) 0)"
proof (induction "length t - j" arbitrary: j)
  case (Suc d)
  have r: "rdb h p (int j) = Some (t ! j)" "rdb h q (int i + int j) = Some (s ! (i + j))"
    using charsD [OF assms(1) Suc(3)] charsD [OF assms(2), of "i + j"] assms(3) Suc(3) by simp_all
  show ?case
  proof (cases "same (t ! j) (s ! (i + j))")
    case False
    then have "\<not> occurs same t s i" using Suc(3) by (auto simp: occurs_def)
    then show ?thesis using r False by (subst rfind_loop.simps) simp
  next
    case True
    then have m: "\<forall>m < Suc j. same (t ! m) (s ! (i + m))" using Suc(4) by (auto simp: less_Suc_eq)
    show ?thesis
    proof (cases "Suc j < length t")
      case False
      then have "occurs same t s i" using m assms(3) Suc(3) by (auto simp: occurs_def)
      moreover have "int j + 1 \<ge> int (length t)" using False by simp
      ultimately show ?thesis using r True by (subst rfind_loop.simps) simp
    next
      case more: True
      have "rfind_loop same h p q (int (length t)) (int i) (int j) = rfind_loop same h p q (int (length t)) (int i) (int (Suc j))"
        using r True more by (subst rfind_loop.simps) (simp add: add.commute)
      also have "\<dots> = (if occurs same t s i then Some (int i) else if int i - 1 < 0 then Some BSTR_ERR
          else rfind_loop same h p q (int (length t)) (int i - 1) 0)"
        using Suc(1) [of "Suc j"] Suc(2) more m by simp
      finally show ?thesis .
    qed
  qed
qed simp

lemma rfind_loop_ok:
  assumes "chars h p t" "chars h q s" "t \<noteq> []"
  shows "i + length t \<le> length s \<Longrightarrow>
    rfind_loop same h p q (int (length t)) (int i) 0 = Some (pos_or_err (find (occurs same t s) (rev [0..<Suc i])))"
proof (induction i)
  case 0
  then show ?case using rfind_inner [OF assms(1,2), of 0 0 same] assms(3) by simp
next
  case (Suc i)
  have "rfind_loop same h p q (int (length t)) (int i) 0 = Some (pos_or_err (find (occurs same t s) (rev [0..<Suc i])))"
    using Suc by simp
  then show ?case using rfind_inner [OF assms(1,2) Suc(2), of 0 same] assms(3) by simp
qed

section \<open>The unrolled search\<close>

text \<open>
  The invariant of \<open>binstr_loop\<close>: no occurrence of \<open>t\<close> that begins at \<open>pos\<close> or later is lost, because the
  characters \<open>t ! 0, ..., t ! (j - 1)\<close> have been found in this order as early as possible; and when the
  scan made no gap since \<open>ii\<close> they stand at \<open>ii\<close>.
\<close>

definition search_inv :: "bytes \<Rightarrow> bytes \<Rightarrow> nat \<Rightarrow> nat \<Rightarrow> nat \<Rightarrow> int \<Rightarrow> bool" where
  "search_inv t s pos i j ii \<longleftrightarrow> pos + j \<le> i \<and> (\<forall>k \<ge> pos. occurs (=) t s k \<longrightarrow> i \<le> k + j) \<and>
     (0 < j \<longrightarrow> int pos \<le> ii \<and> ii + int j \<le> int i \<and> (ii + int j = int i \<longrightarrow> (\<forall>m < j. t ! m = s ! (nat ii + m))))"

lemma inv_skip:
  assumes "search_inv t s pos i j ii" "j < length t" "t ! j \<noteq> s ! i"
  shows "search_inv t s pos (Suc i) j ii"
proof -
  have "Suc i \<le> k + j" if "pos \<le> k" "occurs (=) t s k" for k
  proof -
    have "t ! j = s ! (k + j)" using that(2) assms(2) by (auto simp: occurs_def)
    then have "i \<noteq> k + j" using assms(3) by auto
    then show ?thesis using assms(1) that by (auto simp: search_inv_def Suc_le_eq order_le_neq_trans)
  qed
  then show ?thesis using assms(1) by (auto simp: search_inv_def)
qed

lemma inv_found:
  assumes "search_inv t s pos i j ii" "t ! j = s ! i"
  shows "search_inv t s pos (Suc i) (Suc j) (if j = 0 then int i else ii)"
proof (cases "j = 0")
  case True
  then show ?thesis using assms by (auto simp: search_inv_def)
next
  case False
  have "s ! i = s ! (nat ii + j)" if "ii + int j = int i" "int pos \<le> ii"
  proof -
    have "nat ii + j = i" using that by linarith
    then show ?thesis by simp
  qed
  then show ?thesis using assms False by (auto simp: search_inv_def less_Suc_eq)
qed

lemma inv_restart:
  assumes "search_inv t s pos i j ii" "int i \<noteq> ii + int j" "0 < j"
  shows "search_inv t s pos (i - j) 0 ii'" "ii < int (i - j)"
  using assms unfolding search_inv_def by (auto simp: le_diff_conv of_nat_diff)

lemma inv_first:
  assumes "search_inv t s pos i (length t) ii" "int i = ii + int (length t)" "t \<noteq> []" "i \<le> length s"
  shows "find (occurs (=) t s) [pos..<Suc (length s)] = Some (nat ii)" "0 \<le> ii"
proof -
  have I: "int pos \<le> ii" "\<forall>m < length t. t ! m = s ! (nat ii + m)" "\<And>k. pos \<le> k \<Longrightarrow> occurs (=) t s k \<Longrightarrow> i \<le> k + length t"
    using assms unfolding search_inv_def by auto
  have n: "nat ii + length t = i" using assms(2) I(1) by linarith
  then have "occurs (=) t s (nat ii)" using I(2) assms(4) by (simp add: occurs_def)
  moreover have "\<not> occurs (=) t s m" if "pos \<le> m" "m < nat ii" for m using I(3) [OF that(1)] that(2) n by linarith
  ultimately show "find (occurs (=) t s) [pos..<Suc (length s)] = Some (nat ii)"
    unfolding find_upt_first using I(1) n assms(4) by auto
  show "0 \<le> ii" using I(1) by simp
qed

text \<open>When the scan has come to the end there is no occurrence, but perhaps one that ends in the last character.\<close>

lemma inv_end:
  assumes "search_inv t s pos i j ii" "j < length t" "length s \<le> i + 1" "occurs (=) t s k" "pos \<le> k"
  shows "i + 1 = length s" "length t = j + 1" "k = i - j" "t ! j = s ! i"
proof -
  have "i \<le> k + j" "k + length t \<le> length s" using assms unfolding search_inv_def occurs_def by auto
  then show 1: "i + 1 = length s" "length t = j + 1" "k = i - j" using assms(2,3) by linarith+
  then show "t ! j = s ! i" using assms(2,4) \<open>i \<le> k + j\<close> by (auto simp: occurs_def)
qed

text \<open>One round of the loop.\<close>

definition binstr_next :: "bmem \<Rightarrow> ptr option \<Rightarrow> ptr option \<Rightarrow> u8 \<Rightarrow> int \<Rightarrow> int \<Rightarrow> int \<Rightarrow> int \<Rightarrow> int \<Rightarrow> int option" where
  "binstr_next h d0 d1 c0 ll lf i j ii =
     (if j + 1 < ll then do { c1 \<leftarrow> rdb h d0 (j + 1); binstr_loop h d0 d1 c0 ll lf (i + 1) (j + 1) ii c1 }
      else if i + 1 = ii + (j + 1) then Some ii
      else binstr_loop h d0 d1 c0 ll lf (i + 1 - (j + 1)) 0 ii c0)"

lemma binstr_loop_hit:
  assumes "i < lf" "rdb h d1 i = Some c1"
  shows "binstr_loop h d0 d1 c0 ll lf i j ii c1 = binstr_next h d0 d1 c0 ll lf i j (if j = 0 then i else ii)"
  using assms by (subst binstr_loop.simps) (simp add: Let_def binstr_next_def)

lemma binstr_loop_hit2:
  assumes "i < lf" "rdb h d1 i = Some x" "x \<noteq> c1" "rdb h d1 (i + 1) = Some c1"
  shows "binstr_loop h d0 d1 c0 ll lf i j ii c1 = binstr_next h d0 d1 c0 ll lf (i + 1) j (if j = 0 then i + 1 else ii)"
proof -
  have "rdb h d1 (1 + i) = Some c1" using assms(4) by (simp only: add.commute)
  then show ?thesis using assms(1-3) by (subst binstr_loop.simps) (simp add: Let_def binstr_next_def)
qed

lemma binstr_loop_skip:
  assumes "i < lf" "rdb h d1 i = Some x" "x \<noteq> c1" "rdb h d1 (i + 1) = Some y" "y \<noteq> c1"
  shows "binstr_loop h d0 d1 c0 ll lf i j ii c1 = binstr_loop h d0 d1 c0 ll lf (i + 2) j ii c1"
proof -
  have "rdb h d1 (1 + i) = Some y" using assms(4) by (simp only: add.commute)
  then show ?thesis using assms by (subst binstr_loop.simps) simp
qed

lemma binstr_loop_last:
  assumes "\<not> i < lf" "i = lf \<Longrightarrow> rdb h d1 i = Some x"
  shows "binstr_loop h d0 d1 c0 ll lf i j ii c1 =
    (if i = lf \<and> ll = j + 1 \<and> c1 = x then if i = ii + j then Some ii else binstr_loop h d0 d1 c0 ll lf (i - j) 0 ii c0
     else Some BSTR_ERR)"
  using assms by (subst binstr_loop.simps) auto

text \<open>One attempt: it ends the search, or the search starts again further to the right.\<close>

lemma binstr_attempt:
  assumes "chars h p t" "chars h q s" "2 \<le> length t"
  defines "run \<equiv> \<lambda>i j ii. binstr_loop h p q (t ! 0) (int (length t)) (int (length s) - 1) (int i) (int j) ii (t ! j)"
  shows "search_inv t s pos i j ii \<Longrightarrow> j < length t \<Longrightarrow> i \<le> length s \<Longrightarrow>
    run i j ii = Some (pos_or_err (find (occurs (=) t s) [pos..<Suc (length s)])) \<or>
    (\<exists>i' ii'. (if j = 0 then int i else ii) < int i' \<and> i' \<le> length s \<and> search_inv t s pos i' 0 ii' \<and> run i j ii = run i' 0 ii')"
proof (induction "length s - i" arbitrary: i j ii rule: less_induct)
  case less
  note I = less.prems
  let ?res = "Some (pos_or_err (find (occurs (=) t s) [pos..<Suc (length s)]))"
  have rt: "rdb h p (int m) = Some (t ! m)" if "m < length t" for m using charsD [OF assms(1) that] .
  have rs: "rdb h q (int m) = Some (s ! m)" if "m < length s" for m using charsD [OF assms(2) that] .
  have none: "?res = Some BSTR_ERR" if "\<And>k. pos \<le> k \<Longrightarrow> \<not> occurs (=) t s k"
    using that find_upt_none [of "occurs (=) t s" pos "Suc (length s)"] by simp
  show ?case
  proof (cases "i + 1 < length s")
    case True
    have found: ?thesis
      if f: "search_inv t s pos i0 j ii" "t ! j = s ! i0" "i0 < length s" "i \<le> i0"
        and nxt: "run i j ii = binstr_next h p q (t ! 0) (int (length t)) (int (length s) - 1) (int i0) (int j)
          (if j = 0 then int i0 else ii)" for i0
    proof -
      have d: "int i0 + 1 - (int j + 1) = int (i0 - j)" using f(1) by (simp add: search_inv_def of_nat_diff)
      have l: "int j + 1 < int (length t) \<longleftrightarrow> j + 1 < length t" by linarith
      have s: "int (Suc m) = int m + 1" for m by simp
      have step: "run i j ii = (let ii = if j = 0 then int i0 else ii in
          if j + 1 < length t then run (Suc i0) (Suc j) ii
          else if int i0 + 1 = ii + (int j + 1) then Some ii else run (i0 - j) 0 ii)"
      proof (cases "j + 1 < length t")
        case True
        then show ?thesis
          unfolding nxt unfolding run_def binstr_next_def Let_def d l s using rt [of "Suc j"]
          by (simp only: s Suc_eq_plus1 [symmetric] if_True Option.bind.simps)
      next
        case False
        then show ?thesis unfolding nxt unfolding run_def binstr_next_def Let_def d l s by simp
      qed
      define ii1 where "ii1 = (if j = 0 then int i0 else ii)"
      have J: "search_inv t s pos (Suc i0) (Suc j) ii1" using inv_found [OF f(1,2)] by (simp add: ii1_def)
      have b: "(if j = 0 then int i else ii) \<le> ii1" using f(4) by (simp add: ii1_def)
      show ?thesis
      proof (cases "j + 1 < length t")
        case more: True
        have r: "run i j ii = run (Suc i0) (Suc j) ii1" using step more by (simp add: ii1_def Let_def)
        have "length s - Suc i0 < length s - i" "Suc j < length t" "Suc i0 \<le> length s" using more f(3,4) by linarith+
        from less.hyps [OF this(1) J this(2,3)] show ?thesis
        proof (elim disjE exE conjE)
          fix i' ii' assume "(if Suc j = 0 then int (Suc i0) else ii1) < int i'" "i' \<le> length s" "search_inv t s pos i' 0 ii'"
            "run (Suc i0) (Suc j) ii1 = run i' 0 ii'"
          then show ?thesis using r b by (intro disjI2 exI [of _ i'] exI [of _ ii']) auto
        qed (use r in simp)
      next
        case False
        then have l: "length t = Suc j" using I(2) by simp
        show ?thesis
        proof (cases "int i0 + 1 = ii1 + (int j + 1)")
          case True
          then have "run i j ii = Some ii1" using step False by (simp add: ii1_def Let_def)
          moreover have "search_inv t s pos (Suc i0) (length t) ii1" "int (Suc i0) = ii1 + int (length t)" "t \<noteq> []" "Suc i0 \<le> length s"
            using J l True f(3) by auto
          ultimately show ?thesis using inv_first by simp
        next
          case restart: False
          then have "run i j ii = run (i0 - j) 0 ii1" using step False by (simp add: ii1_def Let_def)
          moreover have "int (Suc i0) \<noteq> ii1 + int (Suc j)" using restart by simp
          from inv_restart [OF J this] have "search_inv t s pos (i0 - j) 0 ii1" "ii1 < int (i0 - j)" by simp_all
          moreover have "i0 - j \<le> length s" using f(3) by simp
          ultimately show ?thesis using b by fastforce
        qed
      qed
    qed
    consider "t ! j = s ! i" | "t ! j \<noteq> s ! i" "t ! j = s ! Suc i" | "t ! j \<noteq> s ! i" "t ! j \<noteq> s ! Suc i" by blast
    then show ?thesis
    proof cases
      case 1
      show ?thesis
      proof (rule found [OF I(1) 1])
        show "i < length s" "i \<le> i" using True by simp_all
        show "run i j ii = binstr_next h p q (t ! 0) (int (length t)) (int (length s) - 1) (int i) (int j) (if j = 0 then int i else ii)"
          unfolding run_def using binstr_loop_hit [of "int i" "int (length s) - 1" h q "t ! j"] True 1 rs [of i] by simp
      qed
    next
      case 2
      have S: "search_inv t s pos (Suc i) j ii" using inv_skip [OF I(1,2) 2(1)] .
      show ?thesis
      proof (rule found [OF S 2(2)])
        show "Suc i < length s" "i \<le> Suc i" using True by simp_all
        show "run i j ii = binstr_next h p q (t ! 0) (int (length t)) (int (length s) - 1) (int (Suc i)) (int j) (if j = 0 then int (Suc i) else ii)"
          unfolding run_def using binstr_loop_hit2 [of "int i" "int (length s) - 1" h q "s ! i" "t ! j"] True 2 rs [of i] rs [of "Suc i"]
          by (simp add: add.commute)
      qed
    next
      case 3
      have S: "search_inv t s pos (Suc (Suc i)) j ii" using inv_skip [OF inv_skip [OF I(1,2) 3(1)] I(2) 3(2)] .
      have r: "run i j ii = run (Suc (Suc i)) j ii"
        unfolding run_def using binstr_loop_skip [of "int i" "int (length s) - 1" h q "s ! i" "t ! j" "s ! Suc i"] True 3 rs [of i] rs [of "Suc i"]
        by (simp add: add.commute)
      have "length s - Suc (Suc i) < length s - i" "Suc (Suc i) \<le> length s" using True by linarith+
      from less.hyps [OF this(1) S I(2) this(2)] show ?thesis
      proof (elim disjE exE conjE)
        fix i' ii' assume "(if j = 0 then int (Suc (Suc i)) else ii) < int i'" "i' \<le> length s" "search_inv t s pos i' 0 ii'"
          "run (Suc (Suc i)) j ii = run i' 0 ii'"
        then show ?thesis using r by (intro disjI2 exI [of _ i'] exI [of _ ii']) (auto split: if_splits)
      qed (use r in simp)
    qed
  next
    case False
    have stop: "run i j ii = (if i + 1 = length s \<and> length t = j + 1 then
        if t ! j = s ! i then if int i = ii + int j then Some ii else run (i - j) 0 ii else Some BSTR_ERR
      else Some BSTR_ERR)"
    proof -
      have d: "int i - int j = int (i - j)" using I(1) by (simp add: search_inv_def of_nat_diff)
      have l: "int i = int (length s) - 1 \<longleftrightarrow> i + 1 = length s" "int (length t) = int j + 1 \<longleftrightarrow> length t = j + 1" by linarith+
      have "run i j ii = (if int i = int (length s) - 1 \<and> int (length t) = int j + 1 \<and> t ! j = s ! i
        then if int i = ii + int j then Some ii else binstr_loop h p q (t ! 0) (int (length t)) (int (length s) - 1) (int i - int j) 0 ii (t ! 0)
        else Some BSTR_ERR)"
        unfolding run_def by (rule binstr_loop_last) (use False rs [of i] l in auto)
      then show ?thesis unfolding d l run_def of_nat_0 by (simp split: if_splits)
    qed
    show ?thesis
    proof (cases "i + 1 = length s \<and> length t = j + 1 \<and> t ! j = s ! i")
      case no: False
      then have "\<not> occurs (=) t s k" if "pos \<le> k" for k using inv_end [OF I(1,2) _ _ that] False by auto
      then show ?thesis using stop no none by auto
    next
      case yes: True
      have j: "0 < j" using yes assms(3) by simp
      show ?thesis
      proof (cases "int i = ii + int j")
        case True
        have "search_inv t s pos (Suc i) (Suc j) ii" using inv_found [OF I(1)] yes j by simp
        then have "search_inv t s pos (Suc i) (length t) ii" "int (Suc i) = ii + int (length t)" "t \<noteq> []" "Suc i \<le> length s"
          using yes True by auto
        from inv_first [OF this] show ?thesis using stop yes True by simp
      next
        case restart: False
        have "run i j ii = run (i - j) 0 ii" using stop yes restart by simp
        moreover have "i - j \<le> length s" using I(3) by simp
        ultimately show ?thesis using inv_restart [OF I(1) restart j] j
          by (intro disjI2 exI [of _ "i - j"] exI [of _ ii]) auto
      qed
    qed
  qed
qed

lemma binstr_loop_ok:
  assumes "chars h p t" "chars h q s" "2 \<le> length t"
  shows "search_inv t s pos i 0 ii \<Longrightarrow> i \<le> length s \<Longrightarrow>
    binstr_loop h p q (t ! 0) (int (length t)) (int (length s) - 1) (int i) 0 ii (t ! 0) =
      Some (pos_or_err (find (occurs (=) t s) [pos..<Suc (length s)]))"
proof (induction "length s - i" arbitrary: i ii rule: less_induct)
  case less
  have "0 < length t" using assms(3) by linarith
  from binstr_attempt [OF assms less.prems(1) this less.prems(2)] show ?case
  proof (elim disjE exE conjE)
    fix i' ii'
    assume "(if 0 = 0 then int i else ii) < int i'" "i' \<le> length s" "search_inv t s pos i' 0 ii'"
      and e: "binstr_loop h p q (t ! 0) (int (length t)) (int (length s) - 1) (int i) (int 0) ii (t ! 0) =
        binstr_loop h p q (t ! 0) (int (length t)) (int (length s) - 1) (int i') (int 0) ii' (t ! 0)"
    then show ?thesis using less.hyps [of i' ii'] by simp
  qed simp
qed

section \<open>The search functions\<close>

lemma find_occurs_none: "length s < n + length t \<Longrightarrow> find (occurs same t s) [n..<Suc (length s)] = None"
  unfolding find_upt_none by (auto simp: occurs_def)

lemma find_occurs_here: "occurs same t s n \<Longrightarrow> find (occurs same t s) [n..<Suc (length s)] = Some n"
  unfolding find_upt_first by (auto simp: occurs_def)

lemma find_occurs_cut: "length t \<le> length s \<Longrightarrow>
    find (occurs same t s) [n..<Suc (length s)] = find (occurs same t s) [n..<Suc (length s - length t)]"
  by (rule find_upt_cut) (auto simp: occurs_def)

lemma occurs_alias: "chars h p s \<Longrightarrow> chars h p t \<Longrightarrow> length t \<le> length s \<Longrightarrow> (\<And>x. same x x) \<Longrightarrow> occurs same t s 0"
  using chars_same [of h p t s] by (auto simp: occurs_def)

lemma binstr_ok:
  assumes "reads h i s" "reads h j t"
  shows "binstr (Some i) (int n) (Some j) h = Some (pos_or_err (find (occurs (=) t s) [n..<Suc (length s)]))"
proof -
  obtain hi q where S: "bm_hdr h i = Some hi" "b_slen hi = int (length s)" "b_data hi = Some q" "chars h (Some q) s"
    using reads_chars [OF assms(1)] .
  obtain hj p where T: "bm_hdr h j = Some hj" "b_slen hj = int (length t)" "b_data hj = Some p" "chars h (Some p) t"
    using reads_chars [OF assms(2)] .
  note D = S(1-3) T(1-3)
  consider "t = []" | "t \<noteq> []" "length s < n + length t" | "t \<noteq> []" "n + length t \<le> length s" "q = p \<and> n = 0"
    | "t \<noteq> []" "n + length t \<le> length s" "\<not> (q = p \<and> n = 0)" "length t = 1"
    | "n + length t \<le> length s" "\<not> (q = p \<and> n = 0)" "2 \<le> length t"
    by (cases "length t = 0"; cases "length t = 1") (auto simp: not_le, linarith+)
  then show ?thesis
  proof cases
    case 1
    then show ?thesis using D find_occurs_here [of "(=)" t s n] find_occurs_none [of s n t "(=)"]
      by (cases "n \<le> length s") (auto simp: binstr_def)
  next
    case 2
    then show ?thesis using D find_occurs_none [of s n t "(=)"] by (auto simp: binstr_def Let_def)
  next
    case 3
    then show ?thesis using D find_occurs_here [OF occurs_alias [of h "Some p" s t "(=)"]] S(4) T(4)
      by (auto simp: binstr_def Let_def)
  next
    case 4
    have c: "rdb h (Some p) 0 = Some (t ! 0)" using charsD [OF T(4), of 0] 4 by simp
    have "find (\<lambda>k. t ! 0 = s ! k) [n..<length s] = find (occurs (=) t s) [n..<length s]"
      by (rule find_cong) (use 4 in \<open>auto simp: occurs_def\<close>)
    also have "\<dots> = find (occurs (=) t s) [n..<Suc (length s)]"
      by (rule find_upt_cut [symmetric]) (use 4 in \<open>auto simp: occurs_def\<close>)
    finally have f: "find (\<lambda>k. t ! 0 = s ! k) [n..<length s] = find (occurs (=) t s) [n..<Suc (length s)]" .
    have "or_err (scan_loop (\<lambda>c. t ! 0 = c) h (Some q) (int n) (int (length s))) =
        Some (pos_or_err (find (occurs (=) t s) [n..<Suc (length s)]))"
      unfolding scan_loop_ok [OF S(4) order_refl] or_err_map f ..
    then show ?thesis using D 4 c by (auto simp: binstr_def Let_def)
  next
    case 5
    have c: "rdb h (Some p) 0 = Some (t ! 0)" using charsD [OF T(4), of 0] 5(3) by (cases t) auto
    have "search_inv t s n n 0 (-1)" by (simp add: search_inv_def)
    from binstr_loop_ok [OF T(4) S(4) 5(3) this] 5(1)
    have "binstr_loop h (Some p) (Some q) (t ! 0) (int (length t)) (int (length s) - 1) (int n) 0 (- 1) (t ! 0) =
        Some (pos_or_err (find (occurs (=) t s) [n..<Suc (length s)]))" by simp
    then show ?thesis using D 5 c by (auto simp: binstr_def Let_def)
  qed
qed

definition same_nocase :: "u8 \<Rightarrow> u8 \<Rightarrow> bool" where
  "same_nocase x y \<longleftrightarrow> c_tolower x = c_tolower y"

lemma nocase_eq: "(\<lambda>x y. x = y \<or> c_tolower x = c_tolower y) = same_nocase"
  by (intro ext) (auto simp: same_nocase_def)

lemma binstrcaseless_ok:
  assumes "reads h i s" "reads h j t"
  shows "binstrcaseless (Some i) (int n) (Some j) h = Some (pos_or_err (find (occurs same_nocase t s) [n..<Suc (length s)]))"
proof -
  obtain hi q where S: "bm_hdr h i = Some hi" "b_slen hi = int (length s)" "b_data hi = Some q" "chars h (Some q) s"
    using reads_chars [OF assms(1)] .
  obtain hj p where T: "bm_hdr h j = Some hj" "b_slen hj = int (length t)" "b_data hj = Some p" "chars h (Some p) t"
    using reads_chars [OF assms(2)] .
  note D = S(1-3) T(1-3)
  consider "t = []" | "t \<noteq> []" "length s < n + length t" | "t \<noteq> []" "n + length t \<le> length s" "q = p \<and> n = 0"
    | "t \<noteq> []" "n + length t \<le> length s" "\<not> (q = p \<and> n = 0)"
    by linarith
  then show ?thesis
  proof cases
    case 1
    then show ?thesis using D find_occurs_here [of same_nocase t s n] find_occurs_none [of s n t same_nocase]
      by (cases "n \<le> length s") (auto simp: binstrcaseless_def)
  next
    case 2
    then show ?thesis using D find_occurs_none [of s n t same_nocase] by (auto simp: binstrcaseless_def Let_def)
  next
    case 3
    then show ?thesis using D find_occurs_here [OF occurs_alias [of h "Some p" s t same_nocase]] S(4) T(4)
      by (auto simp: binstrcaseless_def Let_def same_nocase_def BSTR_OK_def)
  next
    case 4
    have "length t \<le> length s" using 4 by simp
    from substring_loop_ok [OF T(4) S(4) 4(1,2), of same_nocase] find_occurs_cut [OF this, of same_nocase n]
    show ?thesis using D 4 by (auto simp: binstrcaseless_def Let_def nocase_eq)
  qed
qed

lemma find_rev_cut:
  "(\<And>k. m < k \<Longrightarrow> \<not> P k) \<Longrightarrow> m \<le> n \<Longrightarrow> find P (rev [0..<Suc n]) = find P (rev [0..<Suc m])"
  by (induction n) (auto simp: le_Suc_eq simp del: upt_Suc simp add: upt_Suc_append)

lemma rfind_ok:
  assumes "reads h i s" "reads h j t" "\<And>x. same x x"
  shows "rfind same (Some i) (int n) (Some j) h =
    Some (if n \<le> length s then pos_or_err (find (occurs same t s) (rev [0..<Suc n])) else BSTR_ERR)"
proof -
  obtain hi q where S: "bm_hdr h i = Some hi" "b_slen hi = int (length s)" "b_data hi = Some q" "chars h (Some q) s"
    using reads_chars [OF assms(1)] .
  obtain hj p where T: "bm_hdr h j = Some hj" "b_slen hj = int (length t)" "b_data hj = Some p" "chars h (Some p) t"
    using reads_chars [OF assms(2)] .
  note D = S(1-3) T(1-3)
  consider "length s < n" | "t = []" "n \<le> length s" | "t \<noteq> []" "n \<le> length s" "q = p \<and> n = 0 \<and> length t \<le> length s"
    | "t \<noteq> []" "n \<le> length s" "\<not> (q = p \<and> n = 0 \<and> length t \<le> length s)" "length s < length t"
    | "t \<noteq> []" "n \<le> length s" "\<not> (q = p \<and> n = 0 \<and> length t \<le> length s)" "length t \<le> length s"
    by linarith
  then show ?thesis
  proof cases
    case 1
    then show ?thesis using D by (auto simp: rfind_def)
  next
    case 2
    then show ?thesis using D by (auto simp: rfind_def)
  next
    case 3
    then show ?thesis using D occurs_alias [of h "Some p" s t same] S(4) T(4) assms(3) by (auto simp: rfind_def)
  next
    case 4
    then have "find (occurs same t s) (rev [0..<Suc n]) = None" unfolding find_None_iff by (auto simp: occurs_def)
    then show ?thesis using D 4 by (auto simp: rfind_def Let_def simp del: upt_Suc)
  next
    case 5
    let ?m = "min n (length s - length t)"
    have "?m + length t \<le> length s" using 5 by simp
    from rfind_loop_ok [OF T(4) S(4) 5(1) this, of same]
    have "rfind_loop same h (Some p) (Some q) (int (length t)) (int ?m) 0 = Some (pos_or_err (find (occurs same t s) (rev [0..<Suc ?m])))" .
    moreover have "int ?m = (if int (length s) - int (length t) + 1 \<le> int n then int (length s) - int (length t) else int n)"
      using 5(4) by (simp add: min_def of_nat_diff) linarith
    moreover have "find (occurs same t s) (rev [0..<Suc n]) = find (occurs same t s) (rev [0..<Suc ?m])"
    proof (cases "n \<le> length s - length t")
      case False
      have "find (occurs same t s) (rev [0..<Suc n]) = find (occurs same t s) (rev [0..<Suc (length s - length t)])"
        by (rule find_rev_cut) (use 5 False in \<open>auto simp: occurs_def\<close>)
      then show ?thesis using False by (simp add: min_def del: upt_Suc)
    qed (simp add: min_def)
    moreover have "\<not> (q = p \<and> n = 0)" using 5 by blast
    ultimately show ?thesis using D 5(1,2,4) by (auto simp: rfind_def Let_def simp del: upt_Suc)
  qed
qed

section \<open>Single characters\<close>

lemma bstrchrp_ok:
  assumes "reads h i s"
  shows "bstrchrp (Some i) (uint c) (int n) h = Some (pos_or_err (find (\<lambda>k. s ! k = c) [n..<length s]))"
proof -
  obtain hi q where S: "bm_hdr h i = Some hi" "b_slen hi = int (length s)" "b_data hi = Some q" "chars h (Some q) s"
    using reads_chars [OF assms] .
  show ?thesis
    using S(1-3) scan_loop_ok [OF S(4) order_refl, of "\<lambda>x. x = c" n] by (auto simp: bstrchrp_def or_err_map)
qed

lemma bstrrchrp_ok:
  assumes "reads h i s" "n < length s"
  shows "bstrrchrp (Some i) (uint c) (int n) h = Some (pos_or_err (find (\<lambda>k. s ! k = c) (rev [0..<Suc n])))"
proof -
  obtain hi q where S: "bm_hdr h i = Some hi" "b_slen hi = int (length s)" "b_data hi = Some q" "chars h (Some q) s"
    using reads_chars [OF assms(1)] .
  show ?thesis
    using S(1-3) assms(2) rscan_loop_ok [OF S(4), of "Suc n" "\<lambda>x. x = c"]
    by (auto simp: bstrrchrp_def or_err_map simp del: upt_Suc)
qed

lemma bstrrchrp_behind:
  assumes "reads h i s" "p < 0 \<or> int (length s) \<le> p"
  shows "bstrrchrp (Some i) c p h = Some BSTR_ERR"
proof -
  obtain hi q where "bm_hdr h i = Some hi" "b_slen hi = int (length s)" "b_data hi = Some q"
    using reads_chars [OF assms(1)] .
  then show ?thesis using assms(2) by (auto simp: bstrrchrp_def)
qed

section \<open>Character sets\<close>

definition cf_set :: "bytes \<Rightarrow> u8 set" where
  "cf_set cf = {c. testInCharField cf c}"

lemma cf_index: "unat (drop_bit 3 c) = unat c div 8" "unat (drop_bit 3 c) < 32" for c :: u8
proof -
  show 1: "unat (drop_bit 3 c) = unat c div 8" by (simp add: drop_bit_eq_div unat_div_distrib)
  show "unat (drop_bit 3 c) < 32" unfolding 1 using unat8_lt [of c] by linarith
qed

lemma cf_bit: "unat (c AND 7) = unat c mod 8" for c :: u8
proof -
  have "c AND 7 = take_bit 3 c" by (simp add: take_bit_eq_mask mask_eq_exp_minus_1)
  then show ?thesis by (simp add: take_bit_eq_mod unat_mod_distrib)
qed

lemma test_bit: "testInCharField cf c \<longleftrightarrow> bit (cf ! (unat c div 8)) (unat c mod 8)"
  by (simp only: testInCharField_def cf_index cf_bit bit_iff_and_push_bit_not_eq_0)

lemma test_set:
  assumes "length cf = 32"
  shows "testInCharField (setInCharField cf c) d \<longleftrightarrow> d = c \<or> testInCharField cf d"
proof -
  have c: "unat c div 8 < 32" "unat c mod 8 < 8" using unat8_lt [of c] by (linarith, simp)
  have "d = c \<longleftrightarrow> unat d div 8 = unat c div 8 \<and> unat d mod 8 = unat c mod 8"
    by (metis div_mult_mod_eq unat8_inject)
  then show ?thesis
    unfolding test_bit setInCharField_def cf_index cf_bit
    using c assms by (cases "unat d div 8 = unat c div 8") (auto simp: bit_simps)
qed

lemma test_invert:
  assumes "length cf = 32"
  shows "testInCharField (invertCharField cf) d \<longleftrightarrow> \<not> testInCharField cf d"
proof -
  have "unat d div 8 < 32" using unat8_lt [of d] by linarith
  then show ?thesis using assms by (simp add: test_bit invertCharField_def bit_simps)
qed

lemma build_loop_ok:
  "chars h p t \<Longrightarrow> n \<le> length t \<Longrightarrow> length cf = 32 \<Longrightarrow>
   \<exists>cf'. build_loop h p (int i) (int n) cf = Some cf' \<and> length cf' = 32 \<and>
     (\<forall>d. testInCharField cf' d \<longleftrightarrow> testInCharField cf d \<or> (\<exists>k. i \<le> k \<and> k < n \<and> t ! k = d))"
proof (induction "n - i" arbitrary: i cf)
  case 0
  then show ?case by (subst build_loop.simps) auto
next
  case (Suc m)
  then have i: "i < n" by simp
  have l: "length (setInCharField cf (t ! i)) = 32" using Suc.prems(3) by (simp add: setInCharField_def)
  obtain cf' where I: "build_loop h p (int (Suc i)) (int n) (setInCharField cf (t ! i)) = Some cf'" "length cf' = 32"
    "\<forall>d. testInCharField cf' d \<longleftrightarrow> testInCharField (setInCharField cf (t ! i)) d \<or> (\<exists>k. Suc i \<le> k \<and> k < n \<and> t ! k = d)"
  proof -
    have "m = n - Suc i" using Suc.hyps(2) by simp
    from Suc.hyps(1) [OF this Suc.prems(1,2) l] show thesis using that by blast
  qed
  have "build_loop h p (int i) (int n) cf = Some cf'"
    using I(1) i charsD [OF Suc.prems(1), of i] Suc.prems(2) by (subst build_loop.simps) (simp add: add.commute)
  moreover have "(\<exists>k. i \<le> k \<and> k < n \<and> t ! k = d) \<longleftrightarrow> t ! i = d \<or> (\<exists>k. Suc i \<le> k \<and> k < n \<and> t ! k = d)" for d
    using i by (metis Suc_leD Suc_leI le_neq_implies_less order_refl)
  ultimately show ?case using I(2,3) test_set [OF Suc.prems(3)] by auto
qed

lemma buildCharField_ok:
  assumes "reads h j t" "t \<noteq> []"
  obtains cf where "buildCharField (Some j) h = Some (Some cf)" "length cf = 32" "\<forall>d. testInCharField cf d \<longleftrightarrow> d \<in> set t"
proof -
  obtain hj p where T: "bm_hdr h j = Some hj" "b_slen hj = int (length t)" "b_data hj = Some p" "chars h (Some p) t"
    using reads_chars [OF assms(1)] .
  obtain cf where B: "build_loop h (Some p) (int 0) (int (length t)) (replicate 32 0) = Some cf" "length cf = 32"
    "\<forall>d. testInCharField cf d \<longleftrightarrow> testInCharField (replicate 32 0) d \<or> (\<exists>k. 0 \<le> k \<and> k < length t \<and> t ! k = d)"
    using build_loop_ok [OF T(4) order_refl, of "replicate 32 0" 0] by auto
  have "\<not> testInCharField (replicate 32 0) d" for d
    using cf_index(2) [of d] by (simp add: testInCharField_def)
  then show thesis using that [of cf] T(1-3) assms(2) B by (simp add: buildCharField_def in_set_conv_nth)
qed

lemma binchrCF_ok:
  assumes "chars h p s" "\<And>d. testInCharField cf d \<longleftrightarrow> P d"
  shows "binchrCF p (int (length s)) (int n) cf h = Some (pos_or_err (find (\<lambda>k. P (s ! k)) [n..<length s]))"
  unfolding binchrCF_def scan_loop_ok [OF assms(1) order_refl] or_err_map assms(2) ..

lemma binchrrCF_ok:
  assumes "chars h p s" "\<And>d. testInCharField cf d \<longleftrightarrow> P d" "n < length s"
  shows "binchrrCF p (int n) cf h = Some (pos_or_err (find (\<lambda>k. P (s ! k)) (rev [0..<Suc n])))"
  using rscan_loop_ok [OF assms(1), of "Suc n" "testInCharField cf"] assms(2,3)
  by (simp add: binchrrCF_def or_err_map del: upt_Suc)

lemma find_single: "length t = Suc 0 \<Longrightarrow> (\<lambda>k. s ! k \<in> set t) = (\<lambda>k. s ! k = t ! 0)"
  by (cases t) (auto intro!: ext)

text \<open>The four functions on a set that is not empty.\<close>

lemma binchr_ok:
  assumes "reads h i s" "reads h j t" "t \<noteq> []"
  shows "binchr (Some i) (int n) (Some j) h = Some (pos_or_err (find (\<lambda>k. s ! k \<in> set t) [n..<length s]))"
    "bninchr (Some i) (int n) (Some j) h = Some (pos_or_err (find (\<lambda>k. s ! k \<notin> set t) [n..<length s]))"
proof -
  obtain hi q where S: "bm_hdr h i = Some hi" "b_slen hi = int (length s)" "b_data hi = Some q" "chars h (Some q) s"
    using reads_chars [OF assms(1)] .
  obtain hj p where T: "bm_hdr h j = Some hj" "b_slen hj = int (length t)" "b_data hj = Some p" "chars h (Some p) t"
    using reads_chars [OF assms(2)] .
  obtain cf where C: "buildCharField (Some j) h = Some (Some cf)" "length cf = 32" "\<forall>d. testInCharField cf d \<longleftrightarrow> d \<in> set t"
    using buildCharField_ok [OF assms(2,3)] .
  have c: "rdb h (Some p) 0 = Some (t ! 0)" using charsD [OF T(4), of 0] assms(3) by simp
  show "binchr (Some i) (int n) (Some j) h = Some (pos_or_err (find (\<lambda>k. s ! k \<in> set t) [n..<length s]))"
  proof (cases "length t = Suc 0")
    case True
    then show ?thesis using S(1-3) T(1-3) c bstrchrp_ok [OF assms(1), of "t ! 0" n] find_single [of t s] by (simp add: binchr_def)
  next
    case False
    then show ?thesis using S(1-3) T(1-3) C(1) binchrCF_ok [OF S(4) C(3) [rule_format], of n] by (simp add: binchr_def)
  qed
  have "testInCharField (invertCharField cf) d \<longleftrightarrow> d \<notin> set t" for d using test_invert [OF C(2)] C(3) by simp
  from binchrCF_ok [OF S(4) this, of n] show "bninchr (Some i) (int n) (Some j) h = Some (pos_or_err (find (\<lambda>k. s ! k \<notin> set t) [n..<length s]))"
    using S(1-3) C(1) by (simp add: bninchr_def)
qed

lemma binchrr_ok:
  assumes "reads h i s" "reads h j t" "t \<noteq> []" "n \<le> length s" "s \<noteq> []"
  defines "m \<equiv> (if n = length s then n - 1 else n)"
  shows "binchrr (Some i) (int n) (Some j) h = Some (pos_or_err (find (\<lambda>k. s ! k \<in> set t) (rev [0..<Suc m])))"
    "bninchrr (Some i) (int n) (Some j) h = Some (pos_or_err (find (\<lambda>k. s ! k \<notin> set t) (rev [0..<Suc m])))"
proof -
  obtain hi q where S: "bm_hdr h i = Some hi" "b_slen hi = int (length s)" "b_data hi = Some q" "chars h (Some q) s"
    using reads_chars [OF assms(1)] .
  obtain hj p where T: "bm_hdr h j = Some hj" "b_slen hj = int (length t)" "b_data hj = Some p" "chars h (Some p) t"
    using reads_chars [OF assms(2)] .
  obtain cf where C: "buildCharField (Some j) h = Some (Some cf)" "length cf = 32" "\<forall>d. testInCharField cf d \<longleftrightarrow> d \<in> set t"
    using buildCharField_ok [OF assms(2,3)] .
  have c: "rdb h (Some p) 0 = Some (t ! 0)" using charsD [OF T(4), of 0] assms(3) by simp
  have m: "m < length s" "(if int n = int (length s) then int n - 1 else int n) = int m"
    using assms(4,5) by (cases s; auto simp: m_def)+
  show "binchrr (Some i) (int n) (Some j) h = Some (pos_or_err (find (\<lambda>k. s ! k \<in> set t) (rev [0..<Suc m])))"
  proof (cases "length t = Suc 0")
    case True
    then show ?thesis using S(1-3) T(1-3) c m assms(4) bstrrchrp_ok [OF assms(1) m(1), of "t ! 0"] find_single [of t s]
      by (simp add: binchrr_def del: upt_Suc)
  next
    case False
    then show ?thesis using S(1-3) T(1-3) C(1) m assms(4) binchrrCF_ok [OF S(4) C(3) [rule_format] m(1)] by (simp add: binchrr_def del: upt_Suc)
  qed
  have "testInCharField (invertCharField cf) d \<longleftrightarrow> d \<notin> set t" for d using test_invert [OF C(2)] C(3) by simp
  from binchrrCF_ok [OF S(4) this m(1)] show "bninchrr (Some i) (int n) (Some j) h = Some (pos_or_err (find (\<lambda>k. s ! k \<notin> set t) (rev [0..<Suc m])))"
    using S(1-3) C(1) m assms(4) by (simp add: bninchrr_def del: upt_Suc)
qed

text \<open>An empty set, a position behind the end, and an empty string.\<close>

lemma buildCharField_Nil: "reads h j [] \<Longrightarrow> buildCharField (Some j) h = Some None"
  by (auto simp: buildCharField_def elim!: reads_chars)

lemma binchr_Nil:
  assumes "reads h i s" "reads h j []"
  shows "binchr (Some i) (int n) (Some j) h = Some BSTR_ERR" "bninchr (Some i) (int n) (Some j) h = Some BSTR_ERR"
    "binchrr (Some i) (int n) (Some j) h = Some BSTR_ERR" "bninchrr (Some i) (int n) (Some j) h = Some BSTR_ERR"
proof -
  obtain hi q where S: "bm_hdr h i = Some hi" "b_slen hi = int (length s)" "b_data hi = Some q" "chars h (Some q) s"
    using reads_chars [OF assms(1)] .
  obtain hj p where T: "bm_hdr h j = Some hj" "b_slen hj = 0" "b_data hj = Some p"
    by (rule reads_chars [OF assms(2)]) simp
  note D = S(1-3) T buildCharField_Nil [OF assms(2)]
  show "binchr (Some i) (int n) (Some j) h = Some BSTR_ERR" "bninchr (Some i) (int n) (Some j) h = Some BSTR_ERR"
    "binchrr (Some i) (int n) (Some j) h = Some BSTR_ERR" "bninchrr (Some i) (int n) (Some j) h = Some BSTR_ERR"
    using D by (simp_all add: binchr_def bninchr_def binchrr_def bninchrr_def)
qed

lemma rscan_before: "rscan_loop P h p (-1) = Some None"
  by (subst rscan_loop.simps) simp

lemma binchrr_none:
  assumes "reads h i s" "reads h j t" "s = [] \<or> length s < n"
  shows "binchrr (Some i) (int n) (Some j) h = Some BSTR_ERR" "bninchrr (Some i) (int n) (Some j) h = Some BSTR_ERR"
proof -
  obtain hi q where S: "bm_hdr h i = Some hi" "b_slen hi = int (length s)" "b_data hi = Some q" "chars h (Some q) s"
    using reads_chars [OF assms(1)] .
  obtain hj p where T: "bm_hdr h j = Some hj" "b_slen hj = int (length t)" "b_data hj = Some p" "chars h (Some p) t"
    using reads_chars [OF assms(2)] .
  have "binchrr (Some i) (int n) (Some j) h = Some BSTR_ERR \<and> bninchrr (Some i) (int n) (Some j) h = Some BSTR_ERR"
  proof (cases "length s < n")
    case True
    then show ?thesis using S(1-3) T(1-3) by (simp add: binchrr_def bninchrr_def)
  next
    case False
    then have s: "s = []" using assms(3) by simp
    note D = S(1-3) [unfolded s, simplified] T(1-3)
    have r: "bstrrchrp (Some i) c (-1) h = Some BSTR_ERR" for c using bstrrchrp_behind [OF assms(1)] by simp
    have e: "binchrrCF q' (-1) cf h = Some BSTR_ERR" for q' cf by (simp add: binchrrCF_def rscan_before or_err_def)
    show ?thesis
    proof (cases "t = []")
      case True
      then show ?thesis using binchr_Nil [OF assms(1)] assms(2) by simp
    next
      case t: False
      obtain cf where C: "buildCharField (Some j) h = Some (Some cf)" using buildCharField_ok [OF assms(2) t] .
      have c: "rdb h (Some p) 0 = Some (t ! 0)" using charsD [OF T(4), of 0] t by simp
      show ?thesis
      proof (cases "n = 0")
        case True
        then show ?thesis using D C c r e by (simp add: binchrr_def bninchrr_def Let_def)
      next
        case False
        then show ?thesis using D by (simp add: binchrr_def bninchrr_def)
      qed
    qed
  qed
  then show "binchrr (Some i) (int n) (Some j) h = Some BSTR_ERR" "bninchrr (Some i) (int n) (Some j) h = Some BSTR_ERR" by simp_all
qed

section \<open>Comparison\<close>

text \<open>The comparison loop on lists: the first pair of characters that ends it.\<close>

fun first_end :: "(u8 \<Rightarrow> u8 \<Rightarrow> int option) \<Rightarrow> bytes \<Rightarrow> bytes \<Rightarrow> int option" where
  "first_end f (x # xs) (y # ys) = (case f x y of Some v \<Rightarrow> Some v | None \<Rightarrow> first_end f xs ys)"
| "first_end f _ _ = None"

lemma cmp_loop_ok:
  "chars h p s \<Longrightarrow> chars h q t \<Longrightarrow> i \<le> n \<Longrightarrow> n \<le> length s \<Longrightarrow> n \<le> length t \<Longrightarrow>
   cmp_loop f h p q (int i) (int n) = Some (first_end f (take (n - i) (drop i s)) (drop i t))"
proof (induction "n - i" arbitrary: i)
  case 0
  then show ?case by (subst cmp_loop.simps) simp
next
  case (Suc d)
  then have i: "i < n" by simp
  have d: "drop i s = s ! i # drop (Suc i) s" "drop i t = t ! i # drop (Suc i) t"
    using i Suc.prems(4,5) by (simp_all add: Cons_nth_drop_Suc)
  have t: "take (n - i) (drop i s) = s ! i # take (n - Suc i) (drop (Suc i) s)" using i d(1) by (simp add: take_Cons')
  have "cmp_loop f h p q (int i + 1) (int n) = Some (first_end f (take (n - Suc i) (drop (Suc i) s)) (drop (Suc i) t))"
    using Suc.hyps(1) [of "Suc i"] Suc.hyps(2) Suc.prems i by (simp add: add.commute)
  then show ?case using i charsD [OF Suc.prems(1), of i] charsD [OF Suc.prems(2), of i] Suc.prems(4,5)
    by (subst cmp_loop.simps) (simp add: t d(2) split: option.split)
qed

lemma cmp_loop_min:
  assumes "chars h p s" "chars h q t" "m = min (int (length s)) (int (length t))"
  shows "cmp_loop f h p q 0 m = Some (first_end f s t)"
proof -
  have e: "first_end f (take (length t) s) t = first_end f s t" for s t
    by (induction f s t rule: first_end.induct) (auto split: option.split)
  show ?thesis using cmp_loop_ok [OF assms(1,2), of 0 "min (length s) (length t)" f] assms(3) e [of t s]
    by (simp add: min_def e split: if_splits)
qed

lemma first_end_eq: "length s = length t \<Longrightarrow> first_end (\<lambda>x y. if x \<noteq> y then Some v else None) s t = (if s = t then None else Some v)"
  by (induction s t rule: list_induct2) auto

lemma first_end_nocase: "length s = length t \<Longrightarrow>
    first_end (\<lambda>x y. if x \<noteq> y then if c_tolower x \<noteq> c_tolower y then Some v else None else None) s t =
      (if map c_tolower s = map c_tolower t then None else Some v)"
  by (induction s t rule: list_induct2) auto

lemma chars_eq: "chars h p s \<Longrightarrow> chars h p t \<Longrightarrow> length s = length t \<Longrightarrow> s = t"
  using chars_same [of h p s t] by (simp add: list_eq_iff_nth_eq)

lemma chars_take: "chars h p s \<Longrightarrow> chars h p (take n s)"
  by (simp add: chars_def)

lemma biseq_ok:
  assumes "reads h i s" "reads h j t"
  shows "biseq (Some i) (Some j) h = Some (of_bool (s = t))"
    "biseqcaseless (Some i) (Some j) h = Some (of_bool (map c_tolower s = map c_tolower t))"
proof -
  obtain hi q where S: "bm_hdr h i = Some hi" "b_slen hi = int (length s)" "b_data hi = Some q" "chars h (Some q) s"
    using reads_chars [OF assms(1)] .
  obtain hj p where T: "bm_hdr h j = Some hj" "b_slen hj = int (length t)" "b_data hj = Some p" "chars h (Some p) t"
    using reads_chars [OF assms(2)] .
  note D = S(1-3) T(1-3)
  have m: "length s = length t \<Longrightarrow> int (length s) = min (int (length s)) (int (length t))" by simp
  show "biseq (Some i) (Some j) h = Some (of_bool (s = t))"
  proof (cases "length s = length t \<and> \<not> (q = p \<or> s = [])")
    case True
    then show ?thesis using D cmp_loop_min [OF S(4) T(4) m] first_end_eq [of s t 1] by (auto simp: biseq_def mem_eq_def)
  next
    case False
    then show ?thesis using D chars_eq [of h "Some q" s t] S(4) T(4) by (auto simp: biseq_def BSTR_OK_def)
  qed
  show "biseqcaseless (Some i) (Some j) h = Some (of_bool (map c_tolower s = map c_tolower t))"
  proof (cases "length s = length t \<and> \<not> (q = p \<or> s = [])")
    case True
    then show ?thesis using D cmp_loop_min [OF S(4) T(4) m] first_end_nocase [of s t 0]
      by (auto simp: biseqcaseless_def biseqcaselessblk_def bdata_def)
  next
    case False
    then show ?thesis using D chars_eq [of h "Some q" s t] S(4) T(4) map_eq_imp_length_eq [of c_tolower s c_tolower t]
      by (auto simp: biseqcaseless_def biseqcaselessblk_def bdata_def)
  qed
qed

text \<open>
  The order of \<open>bstrcmp\<close>: the first difference decides, as the difference of two signed characters; a NUL
  in both strings ends the comparison.
\<close>

fun bytes_cmp :: "bytes \<Rightarrow> bytes \<Rightarrow> int" where
  "bytes_cmp [] [] = 0"
| "bytes_cmp [] (y # ys) = -1"
| "bytes_cmp (x # xs) [] = 1"
| "bytes_cmp (x # xs) (y # ys) = (if x \<noteq> y then sint x - sint y else if x = 0 then 0 else bytes_cmp xs ys)"

lemma sint_inject8 [simp]: "sint x = sint y \<longleftrightarrow> x = y" for x y :: u8
  by (auto intro: signed_word_eqI)

abbreviation char_diff :: "u8 \<Rightarrow> u8 \<Rightarrow> int option" where
  "char_diff \<equiv> \<lambda>x y. let v = sint x - sint y in if v \<noteq> 0 then Some v else if x = 0 then Some BSTR_OK else None"

lemma first_end_cmp: "bytes_cmp s t = (case first_end char_diff s t of Some v \<Rightarrow> v
    | None \<Rightarrow> if length t < length s then 1 else if length s < length t then -1 else 0)"
  by (induction s t rule: bytes_cmp.induct) (auto simp: Let_def BSTR_OK_def)

lemma bytes_cmp_refl [simp]: "bytes_cmp s s = 0"
  by (induction s) auto

lemma bstrcmp_ok:
  assumes "reads h i s" "reads h j t"
  shows "bstrcmp (Some i) (Some j) h = Some (bytes_cmp s t)"
proof -
  obtain hi q where S: "bm_hdr h i = Some hi" "b_slen hi = int (length s)" "b_data hi = Some q" "chars h (Some q) s"
    using reads_chars [OF assms(1)] .
  obtain hj p where T: "bm_hdr h j = Some hj" "b_slen hj = int (length t)" "b_data hj = Some p" "chars h (Some p) t"
    using reads_chars [OF assms(2)] .
  note D = S(1-3) T(1-3)
  show ?thesis
  proof (cases "length s = length t \<and> (q = p \<or> s = [])")
    case True
    then have "s = t" using chars_eq [of h "Some q" s t] S(4) T(4) by auto
    then show ?thesis using D True by (simp add: bstrcmp_def BSTR_OK_def)
  next
    case False
    let ?n = "if int (length t) < int (length s) then int (length t) else int (length s)"
    have "?n = min (int (length s)) (int (length t))" by simp
    from cmp_loop_min [OF S(4) T(4) this, of char_diff] show ?thesis
      using D False first_end_cmp [of s t] by (auto simp: bstrcmp_def Let_def BSTR_OK_def split: option.splits)
  qed
qed

text \<open>\<open>bstrncmp\<close> on strings at different addresses is \<open>bstrcmp\<close> on their first \<open>n\<close> characters.\<close>

lemma bstrncmp_ok:
  assumes "reads h i s" "reads h j t" "bm_hdr h i = Some hi" "bm_hdr h j = Some hj" "b_data hi \<noteq> b_data hj"
  shows "bstrncmp (Some i) (Some j) (int n) h = Some (bytes_cmp (take n s) (take n t))"
proof -
  obtain hi' q where S': "bm_hdr h i = Some hi'" "b_slen hi' = int (length s)" "b_data hi' = Some q" "chars h (Some q) s"
    using reads_chars [OF assms(1)] .
  obtain hj' p where T': "bm_hdr h j = Some hj'" "b_slen hj' = int (length t)" "b_data hj' = Some p" "chars h (Some p) t"
    using reads_chars [OF assms(2)] .
  have S: "b_slen hi = int (length s)" "b_data hi = Some q" "chars h (Some q) (take n s)"
    using S' assms(3) chars_take [OF S'(4)] by simp_all
  have T: "b_slen hj = int (length t)" "b_data hj = Some p" "chars h (Some p) (take n t)"
    using T' assms(4) chars_take [OF T'(4)] by simp_all
  let ?a = "int (length s)" and ?b = "int (length t)"
  let ?m1 = "if int n > ?a then ?a else int n"
  let ?m = "if ?m1 > ?b then ?b else ?m1"
  have "?m = min (int (length (take n s))) (int (length (take n t)))" by simp
  from cmp_loop_min [OF S(3) T(3) this, of char_diff]
  have "bstrncmp (Some i) (Some j) (int n) h = Some (case first_end char_diff (take n s) (take n t) of Some v \<Rightarrow> v
      | None \<Rightarrow> if int n = ?m \<or> ?a = ?b then BSTR_OK else if ?a > ?m then 1 else -1)"
    using assms(3-5) S(1,2) T(1,2) by (simp add: bstrncmp_def Let_def del: length_take split del: if_split cong: if_cong option.case_cong)
  moreover have "(if int n = ?m \<or> ?a = ?b then BSTR_OK else if ?a > ?m then 1 else -1) =
      (if length (take n t) < length (take n s) then 1 else if length (take n s) < length (take n t) then -1 else 0)"
    by (auto simp: BSTR_OK_def)
  ultimately show ?thesis unfolding first_end_cmp [of "take n s" "take n t"] by (simp only:)
qed

text \<open>The order is a comparison in the sense of the containers.\<close>

lemma bytes_cmp_append: "0 \<notin> set r \<Longrightarrow> bytes_cmp (r @ s) (r @ t) = bytes_cmp s t"
  by (induction r) auto

lemma bytes_cmp_swap: "0 < bytes_cmp s t \<longleftrightarrow> bytes_cmp t s < 0"
  by (induction s t rule: bytes_cmp.induct) auto

lemma bytes_cmp_trans: "bytes_cmp s t \<le> 0 \<Longrightarrow> bytes_cmp t u \<le> 0 \<Longrightarrow> bytes_cmp s u \<le> 0"
proof (induction s t arbitrary: u rule: bytes_cmp.induct)
  case (4 x xs y ys)
  show ?case
  proof (cases u)
    case Nil
    then show ?thesis using 4 by simp
  next
    case (Cons z zs)
    show ?thesis
    proof (cases "x = y")
      case True
      then show ?thesis using 4(1) [of zs] 4(2,3) Cons by (cases "z = 0"; simp split: if_splits)
    next
      case False
      then have "sint x < sint y" using 4(2) by (simp add: order.strict_iff_order)
      moreover have "sint y \<le> sint z" using 4(3) Cons by (cases "y = z") simp_all
      ultimately show ?thesis using Cons by (cases "x = z") simp_all
    qed
  qed
next
  case 1
  then show ?case by simp
next
  case (2 y ys)
  then show ?case by (cases u) simp_all
next
  case (3 x xs)
  then show ?case by simp
qed

definition bstrcmp_order :: "bytes \<Rightarrow> bytes \<Rightarrow> int" where
  "bstrcmp_order s t = (case bstrcmp (Some 0) (Some 1)
       \<lparr>bm_hdr = [0 \<mapsto> \<lparr>b_mlen = -1, b_slen = int (length s), b_data = Some (0, 0)\<rparr>,
          1 \<mapsto> \<lparr>b_mlen = -1, b_slen = int (length t), b_data = Some (1, 0)\<rparr>],
        bm_blk = [0 \<mapsto> map Some s, 1 \<mapsto> map Some t], bm_next = 2, bm_alloc = []\<rparr> of Some v \<Rightarrow> v | None \<Rightarrow> 0)"

lemma bstrcmp_order_eq: "bstrcmp_order s t = bytes_cmp s t"
  unfolding bstrcmp_order_def by (subst bstrcmp_ok [of _ 0 s 1 t]) (auto simp: reads_def)

interpretation bstr_order: comparator bstrcmp_order
proof
  show "0 < bstrcmp_order s t \<longleftrightarrow> bstrcmp_order t s < 0" for s t
    unfolding bstrcmp_order_eq by (rule bytes_cmp_swap)
  show "bstrcmp_order s t \<le> 0 \<Longrightarrow> bstrcmp_order t u \<le> 0 \<Longrightarrow> bstrcmp_order s u \<le> 0" for s t u
    unfolding bstrcmp_order_eq by (rule bytes_cmp_trans)
qed

lemma bytes_cmp_0: "bytes_cmp s t = 0 \<longleftrightarrow> s = t \<or> (\<exists>r a b. s = r @ 0 # a \<and> t = r @ 0 # b)"
proof (induction s t rule: bytes_cmp.induct)
  case (4 x xs y ys)
  have e: "(\<exists>r a b. x # xs = r @ 0 # a \<and> y # ys = r @ 0 # b) \<longleftrightarrow> x = y \<and> (x = 0 \<or> (\<exists>r a b. xs = r @ 0 # a \<and> ys = r @ 0 # b))"
    (is "?l \<longleftrightarrow> ?r")
  proof
    assume ?l
    then obtain r a b where "x # xs = r @ 0 # a" "y # ys = r @ 0 # b" by blast
    then show ?r by (cases r) auto
  next
    assume ?r
    then show ?l
    proof (elim conjE disjE exE)
      assume "x = y" "x = 0"
      then show ?l by (intro exI [of _ "[]"] exI [of _ xs] exI [of _ ys]) simp
    next
      fix r a b assume "x = y" "xs = r @ 0 # a" "ys = r @ 0 # b"
      then show ?l by (intro exI [of _ "x # r"] exI [of _ a] exI [of _ b]) simp
    qed
  qed
  show ?case unfolding e using 4 by auto
qed auto

section \<open>Properties\<close>

text \<open>A memory with the string \<open>abcaBc\<close> and the string \<open>bc\<close>.\<close>

definition text_strings :: bmem where
  "text_strings = \<lparr>bm_hdr = [0 \<mapsto> \<lparr>b_mlen = 8, b_slen = 6, b_data = Some (0, 0)\<rparr>, 1 \<mapsto> \<lparr>b_mlen = -1, b_slen = 2, b_data = Some (1, 0)\<rparr>],
     bm_blk = [0 \<mapsto> [Some 0x61, Some 0x62, Some 0x63, Some 0x61, Some 0x42, Some 0x63, Some 0, None], 1 \<mapsto> [Some 0x62, Some 0x63, Some 0]],
     bm_next = 2, bm_alloc = []\<rparr>"

lemma text_strings_reads:
  "reads text_strings 0 [0x61, 0x62, 0x63, 0x61, 0x42, 0x63]" "reads text_strings 1 [0x62, 0x63]"
  by (simp_all add: text_strings_def reads_def)

text \<open>
  C30: Substring search, from a position \<open>pos\<close> that is not negative. \<open>binstr\<close> and \<open>binstrcaseless\<close> return the first position
  from \<open>pos\<close> on at which the second string occurs in the first one (for the latter up to letter case), and \<open>BSTR_ERR\<close> exactly
  when there is none; an empty string occurs at every position up to the length. \<open>bstrchrp\<close> does the same for a character. The
  backward searches look for the last position that is not behind \<open>pos\<close>, but refuse a \<open>pos\<close> outside of the string
  whatever occurs before it: \<open>binstrr\<close> and \<open>binstrrcaseless\<close> return \<open>BSTR_ERR\<close> for every \<open>pos\<close> above the length, and
  \<open>bstrrchrp\<close> also for the length itself. All of them terminate, and read no byte outside of the two strings.
\<close>
theorem bstr_search_positions:
  assumes "reads h i s" "reads h j t"
  shows "binstr (Some i) (int n) (Some j) h = Some (pos_or_err (find (occurs (=) t s) [n..<Suc (length s)])) \<and>
    binstrcaseless (Some i) (int n) (Some j) h = Some (pos_or_err (find (occurs same_nocase t s) [n..<Suc (length s)])) \<and>
    binstrr (Some i) (int n) (Some j) h = Some (if n \<le> length s then pos_or_err (find (occurs (=) t s) (rev [0..<Suc n])) else BSTR_ERR) \<and>
    binstrrcaseless (Some i) (int n) (Some j) h =
      Some (if n \<le> length s then pos_or_err (find (occurs same_nocase t s) (rev [0..<Suc n])) else BSTR_ERR) \<and>
    bstrchrp (Some i) (uint c) (int n) h = Some (pos_or_err (find (\<lambda>k. s ! k = c) [n..<length s])) \<and>
    bstrrchrp (Some i) (uint c) (int n) h =
      Some (if n < length s then pos_or_err (find (\<lambda>k. s ! k = c) (rev [0..<Suc n])) else BSTR_ERR)"
  by (simp add: binstr_ok [OF assms] binstrcaseless_ok [OF assms] binstrr_def binstrrcaseless_def nocase_eq rfind_ok [OF assms]
      same_nocase_def bstrchrp_ok [OF assms(1)] bstrrchrp_ok [OF assms(1)] bstrrchrp_behind [OF assms(1)] del: upt_Suc)

theorem bstr_search_positions_witness:
  "binstr (Some 0) 1 (Some 1) text_strings = Some 1 \<and> binstr (Some 0) 2 (Some 1) text_strings = Some BSTR_ERR \<and>
   binstrcaseless (Some 0) 2 (Some 1) text_strings = Some 4 \<and> binstrr (Some 0) 5 (Some 1) text_strings = Some 1"
proof (intro conjI)
  show "binstr (Some 0) 1 (Some 1) text_strings = Some 1" "binstr (Some 0) 2 (Some 1) text_strings = Some BSTR_ERR"
    using conjunct1 [OF bstr_search_positions [OF text_strings_reads, of 1]] conjunct1 [OF bstr_search_positions [OF text_strings_reads, of 2]]
    by (simp_all add: occurs_eq upt_conv_Cons)
  show "binstrcaseless (Some 0) 2 (Some 1) text_strings = Some 4"
    using conjunct1 [OF conjunct2 [OF bstr_search_positions [OF text_strings_reads, of 2]]]
    by (simp add: occurs_def upt_conv_Cons All_less_Suc same_nocase_def c_tolower_def)
  show "binstrr (Some 0) 5 (Some 1) text_strings = Some 1"
    using conjunct1 [OF conjunct2 [OF conjunct2 [OF bstr_search_positions [OF text_strings_reads, of 5]]]] by (simp add: occurs_eq upt_conv_Cons)
qed

text \<open>
  C31: Character sets, for every string, every set and every position that is not negative. \<open>binchr\<close> and \<open>bninchr\<close> return the
  first position from \<open>pos\<close> on with a character that is in the second string, or that is not in it; \<open>binchrr\<close> and \<open>bninchrr\<close> the
  last one that is not behind \<open>pos\<close>, where the length of the string counts as its last position, and \<open>BSTR_ERR\<close> for a \<open>pos\<close> above
  the length. They return \<open>BSTR_ERR\<close> when there is no such position; \<open>bninchr\<close> and \<open>bninchrr\<close> also for the empty set, although
  every character is outside of it. The bit fields that they build with shifts and masks are the sets of the
  characters of the string, all 256 of them possible.
\<close>
theorem bstr_character_sets:
  assumes "reads h i s" "reads h j t"
  shows "binchr (Some i) (int n) (Some j) h = Some (pos_or_err (find (\<lambda>k. s ! k \<in> set t) [n..<length s])) \<and>
    bninchr (Some i) (int n) (Some j) h =
      Some (if t = [] then BSTR_ERR else pos_or_err (find (\<lambda>k. s ! k \<notin> set t) [n..<length s])) \<and>
    binchrr (Some i) (int n) (Some j) h =
      Some (if n \<le> length s then pos_or_err (find (\<lambda>k. s ! k \<in> set t) (rev [0..<min (Suc n) (length s)])) else BSTR_ERR) \<and>
    bninchrr (Some i) (int n) (Some j) h =
      Some (if n \<le> length s \<and> t \<noteq> [] then pos_or_err (find (\<lambda>k. s ! k \<notin> set t) (rev [0..<min (Suc n) (length s)]))
            else BSTR_ERR)"
proof (cases "t = []")
  case True
  have "find (\<lambda>k. False) ks = None" for ks :: "nat list" by (simp add: find_None_iff)
  then show ?thesis using binchr_Nil [OF assms(1)] assms(2) True by simp
next
  case t: False
  show ?thesis
  proof (cases "s = [] \<or> length s < n")
    case True
    then show ?thesis using binchr_ok [OF assms t, of n] binchrr_none [OF assms True] t by auto
  next
    case False
    then have n: "n \<le> length s" "s \<noteq> []" by simp_all
    then have "Suc (if n = length s then n - 1 else n) = min (Suc n) (length s)" by (cases s) auto
    then show ?thesis using binchr_ok [OF assms t, of n] binchrr_ok [OF assms t n] n t by (simp del: upt_Suc)
  qed
qed

theorem bstr_character_sets_witness:
  "binchr (Some 0) 0 (Some 1) text_strings = Some 1 \<and> bninchr (Some 0) 1 (Some 1) text_strings = Some 3 \<and>
   bninchrr (Some 0) 6 (Some 1) text_strings = Some 4"
  using bstr_character_sets [OF text_strings_reads, of 0] bstr_character_sets [OF text_strings_reads, of 1]
    bstr_character_sets [OF text_strings_reads, of 6]
  by (simp add: upt_conv_Cons)

text \<open>
  C32: Comparison. \<open>biseq\<close> and \<open>biseqcaseless\<close> compare the whole strings, NULs included. \<open>bstrcmp\<close> compares up to the
  first difference or the first common NUL: a difference gives the difference of the two signed characters, a proper prefix
  gives -1 or 1, and the result is 0 exactly when the strings are equal or equal up to a NUL at the same place of
  both. It is a total preorder on byte strings. \<open>bstrncmp\<close> compares, in the same way, the first \<open>n\<close> characters of two strings
  that lie at different addresses.
\<close>
theorem bstr_comparison:
  assumes "reads h i s" "reads h j t" "reads h k u"
  shows "biseq (Some i) (Some j) h = Some (of_bool (s = t)) \<and>
    biseqcaseless (Some i) (Some j) h = Some (of_bool (map c_tolower s = map c_tolower t)) \<and>
    (\<exists>st ts tu su. bstrcmp (Some i) (Some j) h = Some st \<and> bstrcmp (Some j) (Some i) h = Some ts \<and>
      bstrcmp (Some j) (Some k) h = Some tu \<and> bstrcmp (Some i) (Some k) h = Some su \<and>
      (\<forall>r x y a b. s = r @ x # a \<and> t = r @ y # b \<and> 0 \<notin> set r \<and> x \<noteq> y \<longrightarrow> st = sint x - sint y) \<and>
      (\<forall>a. s = t @ a \<and> a \<noteq> [] \<and> 0 \<notin> set t \<longrightarrow> st = 1) \<and> (\<forall>b. t = s @ b \<and> b \<noteq> [] \<and> 0 \<notin> set s \<longrightarrow> st = -1) \<and>
      (st = 0 \<longleftrightarrow> s = t \<or> (\<exists>r a b. s = r @ 0 # a \<and> t = r @ 0 # b)) \<and>
      (0 < st \<longleftrightarrow> ts < 0) \<and> (st \<le> 0 \<and> tu \<le> 0 \<longrightarrow> su \<le> 0) \<and>
      (take n s = s \<and> take n t = t \<and> map_option b_data (bm_hdr h i) \<noteq> map_option b_data (bm_hdr h j) \<longrightarrow>
        bstrncmp (Some i) (Some j) (int n) h = Some st)) \<and>
    (map_option b_data (bm_hdr h i) \<noteq> map_option b_data (bm_hdr h j) \<longrightarrow>
      bstrncmp (Some i) (Some j) (int n) h = Some (bytes_cmp (take n s) (take n t)))"
proof -
  have ncmp: "bstrncmp (Some i) (Some j) (int n) h = Some (bytes_cmp (take n s) (take n t))"
    if ne: "map_option b_data (bm_hdr h i) \<noteq> map_option b_data (bm_hdr h j)"
  proof -
    obtain hi hj where "bm_hdr h i = Some hi" "bm_hdr h j = Some hj" using assms(1,2) by (auto simp: reads_def)
    then show ?thesis using ne bstrncmp_ok [OF assms(1,2)] by simp
  qed
  show ?thesis
  proof (intro conjI impI exI)
    show "biseq (Some i) (Some j) h = Some (of_bool (s = t))"
      "biseqcaseless (Some i) (Some j) h = Some (of_bool (map c_tolower s = map c_tolower t))"
      by (rule biseq_ok [OF assms(1,2)])+
    show "bstrcmp (Some i) (Some j) h = Some (bytes_cmp s t)" "bstrcmp (Some j) (Some i) h = Some (bytes_cmp t s)"
      "bstrcmp (Some j) (Some k) h = Some (bytes_cmp t u)" "bstrcmp (Some i) (Some k) h = Some (bytes_cmp s u)"
      by (rule bstrcmp_ok [OF assms(1,2)] bstrcmp_ok [OF assms(2,1)] bstrcmp_ok [OF assms(2,3)] bstrcmp_ok [OF assms(1,3)])+
    show "\<forall>r x y a b. s = r @ x # a \<and> t = r @ y # b \<and> 0 \<notin> set r \<and> x \<noteq> y \<longrightarrow> bytes_cmp s t = sint x - sint y"
      using bytes_cmp_append bytes_cmp.simps(4) by auto
    show "\<forall>a. s = t @ a \<and> a \<noteq> [] \<and> 0 \<notin> set t \<longrightarrow> bytes_cmp s t = 1"
      "\<forall>b. t = s @ b \<and> b \<noteq> [] \<and> 0 \<notin> set s \<longrightarrow> bytes_cmp s t = -1"
      using bytes_cmp_append [where t = "[]"] bytes_cmp_append [where s = "[]"] by (auto simp: neq_Nil_conv)
    show "bytes_cmp s t = 0 \<longleftrightarrow> s = t \<or> (\<exists>r a b. s = r @ 0 # a \<and> t = r @ 0 # b)" by (rule bytes_cmp_0)
    show "0 < bytes_cmp s t \<longleftrightarrow> bytes_cmp t s < 0" by (rule bytes_cmp_swap)
    show "bytes_cmp s u \<le> 0" if "bytes_cmp s t \<le> 0 \<and> bytes_cmp t u \<le> 0" using that bytes_cmp_trans by blast
    show "bstrncmp (Some i) (Some j) (int n) h = Some (bytes_cmp s t)"
      if "take n s = s \<and> take n t = t \<and> map_option b_data (bm_hdr h i) \<noteq> map_option b_data (bm_hdr h j)"
      using ncmp that by simp
    show "bstrncmp (Some i) (Some j) (int n) h = Some (bytes_cmp (take n s) (take n t))"
      if "map_option b_data (bm_hdr h i) \<noteq> map_option b_data (bm_hdr h j)" using that by (rule ncmp)
  qed
qed

theorem bstr_comparison_witness:
  "biseq (Some 0) (Some 1) text_strings = Some 0 \<and> bstrcmp (Some 0) (Some 0) text_strings = Some 0 \<and>
   bstrncmp (Some 0) (Some 1) 1 text_strings = Some (-1)"
proof (intro conjI)
  note E = bstr_comparison [OF text_strings_reads text_strings_reads(1), of 1]
  show "biseq (Some 0) (Some 1) text_strings = Some 0" using E by simp
  show "bstrcmp (Some 0) (Some 0) text_strings = Some 0"
    using bstr_comparison [OF text_strings_reads(1) text_strings_reads(1) text_strings_reads(1)] by auto
  have "map_option b_data (bm_hdr text_strings 0) \<noteq> map_option b_data (bm_hdr text_strings 1)" by (simp add: text_strings_def)
  then show "bstrncmp (Some 0) (Some 1) 1 text_strings = Some (-1)" using E by simp
qed

text \<open>
  Four places where the comparisons and searches do not do what their comments say. \<open>bstrnicmp\<close> finds a
  difference in lower case but returns the difference of the characters as they are, so that its sign
  contradicts \<open>bstricmp\<close>; \<open>bstrncmp\<close> skips the comparison for two strings at one address, so that it does
  not stop at a common NUL as \<open>bstrcmp\<close> does; \<open>bstrcmp\<close> orders characters from 0x80 on before the others;
  and with an empty set no search for a character that is not in it succeeds.
\<close>
theorem bstr_comparison_quirks:
  "let h = \<lparr>bm_hdr = [0 \<mapsto> \<lparr>b_mlen = 2, b_slen = 1, b_data = Some (0, 0)\<rparr>, 1 \<mapsto> \<lparr>b_mlen = 2, b_slen = 1, b_data = Some (1, 0)\<rparr>,
         2 \<mapsto> \<lparr>b_mlen = 4, b_slen = 3, b_data = Some (2, 0)\<rparr>, 3 \<mapsto> \<lparr>b_mlen = -1, b_slen = 2, b_data = Some (2, 0)\<rparr>,
         4 \<mapsto> \<lparr>b_mlen = 2, b_slen = 1, b_data = Some (3, 0)\<rparr>, 5 \<mapsto> \<lparr>b_mlen = 1, b_slen = 0, b_data = Some (4, 0)\<rparr>],
       bm_blk = [0 \<mapsto> [Some 0x41, Some 0], 1 \<mapsto> [Some 0x5f, Some 0], 2 \<mapsto> [Some 0x61, Some 0, Some 0x62, Some 0],
         3 \<mapsto> [Some 0xe9, Some 0], 4 \<mapsto> [Some 0]], bm_next = 6, bm_alloc = []\<rparr>
   in bstricmp (Some 0) (Some 1) h = Some 2 \<and> bstrnicmp (Some 0) (Some 1) 1 h = Some (-30) \<and>
     bstrcmp (Some 2) (Some 3) h = Some 0 \<and> bstrncmp (Some 2) (Some 3) 3 h = Some 1 \<and>
     bstrcmp (Some 4) (Some 0) h = Some (-88) \<and> bninchr (Some 0) 0 (Some 5) h = Some BSTR_ERR"
  by code_simp

end
