(* ===== verification/BstrReplace.thy ===== *)
theory BstrReplace
  imports BstrText
begin

text \<open>
  The functions of \<open>libs/bstrlib/bstrlib.c\<close> that insert and replace ranges of a string: \<open>bsetstr\<close>,
  \<open>binsertblk\<close>, \<open>binsert\<close>, \<open>breplace\<close>, \<open>binsertch\<close>, \<open>bpattern\<close> and the find-and-replace functions.
\<close>

section \<open>Insertion\<close>

definition bm_memset :: "bmem \<Rightarrow> ptr option \<Rightarrow> int \<Rightarrow> u8 \<Rightarrow> int \<Rightarrow> bmem option" where
  "bm_memset h p i c n = (if n < 0 then None else wrn h p i (replicate (nat n) (Some c)))"

definition bsetstr :: "bstring \<Rightarrow> int \<Rightarrow> bstring \<Rightarrow> u8 \<Rightarrow> bmem \<Rightarrow> (int \<times> bmem) option" where
  "bsetstr b0 pos b1 fill h =
     (if pos < 0 \<or> b0 = None then Some (BSTR_ERR, h)
      else do {
        h0 \<leftarrow> hdr_of h b0;
        if bad_hdr h0 then Some (BSTR_ERR, h)
        else do {
          bad1 \<leftarrow> if b1 \<noteq> None then do {
              h1 \<leftarrow> hdr_of h b1;
              Some (b_slen h1 < 0 \<or> b_data h1 = None)
            } else Some False;
          if bad1 then Some (BSTR_ERR, h)
          else do {
            (ok, aux, d, h) \<leftarrow>
              if b1 \<noteq> None then do {
                h1 \<leftarrow> hdr_of h b1;
                (aux, h) \<leftarrow> if ptr_within (b_data h1) (b_data h0) (b_mlen h0) then bstrcpy b1 h else Some (b1, h);
                if aux = None then Some (False, b1, pos, h)
                else do {
                  ha \<leftarrow> hdr_of h aux;
                  d \<leftarrow> cint (pos + b_slen ha);
                  Some (True, aux, d, h)
                }
              } else Some (True, None, pos, h);
            if \<not> ok then Some (BSTR_ERR, h)
            else do {
              d1 \<leftarrow> cint (d + 1);
              (r, h) \<leftarrow> balloc b0 d1 h;
              if r \<noteq> BSTR_OK then do {
                h \<leftarrow> drop_aux aux b1 h;
                Some (BSTR_ERR, h)
              } else do {
                h0 \<leftarrow> hdr_of h b0;
                let newlen = b_slen h0;
                h \<leftarrow> if pos > newlen then bm_memset h (b_data h0) (b_slen h0) fill (pos - b_slen h0) else Some h;
                let newlen = (if pos > newlen then pos else newlen);
                h \<leftarrow> if aux \<noteq> None then do {
                    ha \<leftarrow> hdr_of h aux;
                    h \<leftarrow> bBlockCopy h (b_data h0) pos (b_data ha) 0 (b_slen ha);
                    drop_aux aux b1 h
                  } else Some h;
                let newlen = (if d > newlen then d else newlen);
                h \<leftarrow> set_hdr h b0 (h0\<lparr>b_slen := newlen\<rparr>);
                h \<leftarrow> wrb h (b_data h0) newlen 0;
                Some (BSTR_OK, h)
              }
            }
          }
        }
      })"

text \<open>The aliasing test of \<open>binsertblk\<close> on the two ends of the block.\<close>

definition blk_overlaps :: "ptr option \<Rightarrow> int \<Rightarrow> ptr option \<Rightarrow> int \<Rightarrow> bool" where
  "blk_overlaps p len q mlen = (case (p, q) of
     (Some (k, off), Some (k', off')) \<Rightarrow> k = k' \<and> int off + len \<ge> int off' \<and> int off < int off' + mlen
   | _ \<Rightarrow> False)"

definition free_copy :: "ptr option \<Rightarrow> ptr option \<Rightarrow> bmem \<Rightarrow> bmem option" where
  "free_copy aux blk h = (if aux \<noteq> blk then bm_free aux h else Some h)"

definition binsertblk :: "bstring \<Rightarrow> int \<Rightarrow> ptr option \<Rightarrow> int \<Rightarrow> u8 \<Rightarrow> bmem \<Rightarrow> (int \<times> bmem) option" where
  "binsertblk b pos blk len fill h =
     (if b = None \<or> blk = None \<or> pos < 0 \<or> len < 0 then Some (BSTR_ERR, h)
      else do {
        bh \<leftarrow> hdr_of h b;
        if b_slen bh < 0 \<or> b_mlen bh \<le> 0 \<or> b_mlen bh < b_slen bh then Some (BSTR_ERR, h)
        else do {
          d \<leftarrow> cint (b_slen bh + len);
          l \<leftarrow> cint (pos + len);
          if (d OR l) < 0 then Some (BSTR_ERR, h)
          else do {
            (ok, aux, h) \<leftarrow>
              if blk_overlaps blk len (b_data bh) (b_mlen bh) then
                let (aux, h) = bm_malloc len h in
                if aux = None then Some (False, blk, h)
                else do {
                  h \<leftarrow> memcpy h aux 0 blk 0 len;
                  Some (True, aux, h)
                }
              else Some (True, blk, h);
            if \<not> ok then Some (BSTR_ERR, h)
            else do {
              e \<leftarrow> cint ((if l > d then l else d) + 1);
              (r, h) \<leftarrow> balloc b e h;
              if r \<noteq> BSTR_OK then do {
                h \<leftarrow> free_copy aux blk h;
                Some (BSTR_ERR, h)
              } else do {
                bh \<leftarrow> hdr_of h b;
                h \<leftarrow> if l > d then bm_memset h (b_data bh) (b_slen bh) fill (pos - b_slen bh)
                  else bBlockCopy h (b_data bh) l (b_data bh) pos (d - l);
                let n = (if l > d then l else d);
                h \<leftarrow> set_hdr h b (bh\<lparr>b_slen := n\<rparr>);
                h \<leftarrow> bBlockCopy h (b_data bh) pos aux 0 len;
                h \<leftarrow> wrb h (b_data bh) n 0;
                h \<leftarrow> free_copy aux blk h;
                Some (BSTR_OK, h)
              }
            }
          }
        }
      })"

definition binsert :: "bstring \<Rightarrow> int \<Rightarrow> bstring \<Rightarrow> u8 \<Rightarrow> bmem \<Rightarrow> (int \<times> bmem) option" where
  "binsert b1 pos b2 fill h =
     (if b2 = None then Some (BSTR_ERR, h)
      else do {
        h2 \<leftarrow> hdr_of h b2;
        if b_mlen h2 > 0 \<and> b_slen h2 > b_mlen h2 then Some (BSTR_ERR, h)
        else binsertblk b1 pos (b_data h2) (b_slen h2) fill h
      })"

section \<open>Replacement of a range\<close>

definition breplace :: "bstring \<Rightarrow> int \<Rightarrow> int \<Rightarrow> bstring \<Rightarrow> u8 \<Rightarrow> bmem \<Rightarrow> (int \<times> bmem) option" where
  "breplace b1 pos len b2 fill h =
     (if pos < 0 \<or> len < 0 then Some (BSTR_ERR, h)
      else if pos > INT_MAX - len then Some (BSTR_ERR, h)
      else
        let pl = pos + len in
        if b1 = None \<or> b2 = None then Some (BSTR_ERR, h)
        else do {
          h1 \<leftarrow> hdr_of h b1;
          h2 \<leftarrow> hdr_of h b2;
          if bad_hdr h1 \<or> b_data h2 = None \<or> b_slen h2 < 0 then Some (BSTR_ERR, h)
          else if pl \<ge> b_slen h1 then do {
            (ret, h) \<leftarrow> bsetstr b1 pos b2 fill h;
            if ret < 0 then Some (ret, h)
            else do {
              h1 \<leftarrow> hdr_of h b1;
              h2 \<leftarrow> hdr_of h b2;
              e \<leftarrow> cint (pos + b_slen h2);
              if e < b_slen h1 then do {
                h \<leftarrow> set_hdr h b1 (h1\<lparr>b_slen := e\<rparr>);
                h \<leftarrow> wrb h (b_data h1) e 0;
                Some (ret, h)
              } else Some (ret, h)
            }
          }
          else do {
            (aux, h) \<leftarrow> if ptr_within (b_data h2) (b_data h1) (b_slen h1) then bstrcpy b2 h else Some (b2, h);
            if aux = None then Some (BSTR_ERR, h)
            else do {
              ha \<leftarrow> hdr_of h aux;
              (r, h) \<leftarrow> if b_slen ha > len then do {
                  s \<leftarrow> cint (b_slen h1 + b_slen ha);
                  balloc b1 (s - len) h
                } else Some (BSTR_OK, h);
              if r \<noteq> BSTR_OK then do {
                h \<leftarrow> drop_aux aux b2 h;
                Some (BSTR_ERR, h)
              } else do {
                h1 \<leftarrow> hdr_of h b1;
                ha \<leftarrow> hdr_of h aux;
                h \<leftarrow> if b_slen ha \<noteq> len then
                    memmove h (b_data h1) (pos + b_slen ha) (b_data h1) pl (b_slen h1 - pl)
                  else Some h;
                h \<leftarrow> memcpy h (b_data h1) pos (b_data ha) 0 (b_slen ha);
                let n = b_slen h1 + (b_slen ha - len);
                h \<leftarrow> set_hdr h b1 (h1\<lparr>b_slen := n\<rparr>);
                h \<leftarrow> wrb h (b_data h1) n 0;
                h \<leftarrow> drop_aux aux b2 h;
                Some (BSTR_OK, h)
              }
            }
          }
        })"

section \<open>Repeated characters\<close>

text \<open>The loop of \<open>binsertch\<close> that moves the tail up, from its end.\<close>

function shift_loop :: "ptr option \<Rightarrow> int \<Rightarrow> int \<Rightarrow> int \<Rightarrow> bmem \<Rightarrow> bmem option" where
  "shift_loop p i l len h =
     (if i \<ge> l then do {
        c \<leftarrow> rdb h p (i - len);
        h' \<leftarrow> wrb h p i c;
        shift_loop p (i - 1) l len h'
      } else Some h)"
  by pat_completeness auto
termination by (relation "measure (\<lambda>(p, i, l, len, h). nat (i - l + 1))") auto

text \<open>The loop that fills with one character.\<close>

function fill_loop :: "ptr option \<Rightarrow> int \<Rightarrow> int \<Rightarrow> u8 \<Rightarrow> bmem \<Rightarrow> bmem option" where
  "fill_loop p i l c h =
     (if i < l then do {
        h' \<leftarrow> wrb h p i c;
        fill_loop p (i + 1) l c h'
      } else Some h)"
  by pat_completeness auto
termination by (relation "measure (\<lambda>(p, i, l, c, h). nat (l - i))") auto

definition binsertch :: "bstring \<Rightarrow> int \<Rightarrow> int \<Rightarrow> u8 \<Rightarrow> bmem \<Rightarrow> (int \<times> bmem) option" where
  "binsertch b pos len fill h =
     (if pos < 0 \<or> b = None then Some (BSTR_ERR, h)
      else do {
        bh \<leftarrow> hdr_of h b;
        if b_slen bh < 0 \<or> b_mlen bh < b_slen bh \<or> b_mlen bh \<le> 0 \<or> len < 0 then Some (BSTR_ERR, h)
        else do {
          d \<leftarrow> cint (b_slen bh + len);
          l \<leftarrow> cint (pos + len);
          if (d OR l) < 0 then Some (BSTR_ERR, h)
          else do {
            e \<leftarrow> cint ((if l > d then l else d) + 1);
            (r, h) \<leftarrow> balloc b e h;
            if r \<noteq> BSTR_OK then Some (BSTR_ERR, h)
            else do {
              bh \<leftarrow> hdr_of h b;
              h \<leftarrow> if l > d then Some h else shift_loop (b_data bh) (d - 1) l len h;
              let pos = (if l > d then b_slen bh else pos);
              let n = (if l > d then l else d);
              h \<leftarrow> set_hdr h b (bh\<lparr>b_slen := n\<rparr>);
              h \<leftarrow> fill_loop (b_data bh) pos l fill h;
              h \<leftarrow> wrb h (b_data bh) n 0;
              Some (BSTR_OK, h)
            }
          }
        }
      })"

text \<open>The loop of \<open>bpattern\<close>, which reads what it wrote before.\<close>

function pattern_loop :: "ptr option \<Rightarrow> int \<Rightarrow> int \<Rightarrow> int \<Rightarrow> bmem \<Rightarrow> bmem option" where
  "pattern_loop p i len d h =
     (if i < len then do {
        c \<leftarrow> rdb h p (i - d);
        h' \<leftarrow> wrb h p i c;
        pattern_loop p (i + 1) len d h'
      } else Some h)"
  by pat_completeness auto
termination by (relation "measure (\<lambda>(p, i, len, d, h). nat (len - i))") auto

text \<open>\<open>blength (b)\<close>\<close>

definition blength :: "bmem \<Rightarrow> bstring \<Rightarrow> int option" where
  "blength h b = (if b = None then Some 0 else do {
     bh \<leftarrow> hdr_of h b;
     Some (if b_slen bh < 0 then 0 else b_slen bh)
   })"

definition bpattern :: "bstring \<Rightarrow> int \<Rightarrow> bmem \<Rightarrow> (int \<times> bmem) option" where
  "bpattern b len h = do {
     d \<leftarrow> blength h b;
     if d \<le> 0 \<or> len < 0 then Some (BSTR_ERR, h)
     else do {
       e \<leftarrow> cint (len + 1);
       (r, h) \<leftarrow> balloc b e h;
       if r \<noteq> BSTR_OK then Some (BSTR_ERR, h)
       else do {
         bh \<leftarrow> hdr_of h b;
         if len > 0 \<and> d = 1 then do {
           c \<leftarrow> rdb h (b_data bh) 0;
           bsetstr b len None c h
         }
         else do {
           h \<leftarrow> if len > 0 then pattern_loop (b_data bh) d len d h else Some h;
           h \<leftarrow> wrb h (b_data bh) len 0;
           h \<leftarrow> set_hdr h b (bh\<lparr>b_slen := len\<rparr>);
           Some (BSTR_OK, h)
         }
       }
     }
   }"
end
