(* ===== verification/BstrReplaceAll.thy ===== *)
theory BstrReplaceAll
  imports BstrReplace
begin

text \<open>
  The find-and-replace functions of \<open>libs/bstrlib/bstrlib.c\<close>: \<open>findreplaceengine\<close> with its three cases,
  \<open>bfindreplace\<close> and \<open>bfindreplacecaseless\<close>.
\<close>

type_synonym instr_fn = "bstring \<Rightarrow> int \<Rightarrow> bstring \<Rightarrow> bmem \<Rightarrow> int option"

text \<open>
  The loop of the case in which both strings have the same length. \<open>None\<close> is undefined behaviour or a
  loop that does not end: the search function is a parameter here.
\<close>

partial_function (option) same_loop :: "instr_fn \<Rightarrow> bstring \<Rightarrow> bstring \<Rightarrow> bstring \<Rightarrow> int \<Rightarrow> bmem \<Rightarrow> bmem option" where
  "same_loop instr b auxf auxr pos h = do {
     i \<leftarrow> instr b pos auxf h;
     if i \<ge> 0 then do {
       bh \<leftarrow> hdr_of h b;
       fh \<leftarrow> hdr_of h auxf;
       rh \<leftarrow> hdr_of h auxr;
       h' \<leftarrow> memcpy h (b_data bh) i (b_data rh) 0 (b_slen rh);
       p \<leftarrow> cint (i + b_slen fh);
       same_loop instr b auxf auxr p h'
     } else Some h
   }"

text \<open>The loop of the shrinking case, with the last position and the number of characters saved.\<close>

partial_function (option) shrink_loop :: "instr_fn \<Rightarrow> bstring \<Rightarrow> bstring \<Rightarrow> bstring \<Rightarrow> int \<Rightarrow> int \<Rightarrow> int \<Rightarrow> bmem \<Rightarrow> (int \<times> int \<times> bmem) option" where
  "shrink_loop instr b auxf auxr delta pos acc h = do {
     i \<leftarrow> instr b pos auxf h;
     if i \<ge> 0 then do {
       bh \<leftarrow> hdr_of h b;
       fh \<leftarrow> hdr_of h auxf;
       rh \<leftarrow> hdr_of h auxr;
       h \<leftarrow> if acc \<noteq> 0 \<and> i > pos then memmove h (b_data bh) (pos - acc) (b_data bh) pos (i - pos) else Some h;
       h \<leftarrow> if b_slen rh \<noteq> 0 then memcpy h (b_data bh) (i - acc) (b_data rh) 0 (b_slen rh) else Some h;
       a \<leftarrow> cint (acc + delta);
       p \<leftarrow> cint (i + b_slen fh);
       shrink_loop instr b auxf auxr delta p a h
     } else Some (pos, acc, h)
   }"

definition shrink_end :: "bstring \<Rightarrow> int \<Rightarrow> int \<Rightarrow> bmem \<Rightarrow> bmem option" where
  "shrink_end b pos acc h =
     (if acc \<noteq> 0 then do {
        bh \<leftarrow> hdr_of h b;
        h \<leftarrow> if b_slen bh > pos then memmove h (b_data bh) (pos - acc) (b_data bh) pos (b_slen bh - pos) else Some h;
        h \<leftarrow> set_hdr h b (bh\<lparr>b_slen := b_slen bh - acc\<rparr>);
        wrb h (b_data bh) (b_slen bh - acc) 0
      } else Some h)"

text \<open>
  The array of the matches: its first \<open>length d\<close> entries. It has room for 33 numbers on the stack, or for
  \<open>sizeof (int *) * mlen\<close> bytes on the heap. A write behind its end is undefined.
\<close>

definition INITIAL_STATIC_FIND_INDEX_COUNT :: int where
  "INITIAL_STATIC_FIND_INDEX_COUNT = 32"

record matches =
  mt_pos :: "int list"
  mt_static :: bool
  mt_mlen :: int

definition mt_room :: "matches \<Rightarrow> int" where
  "mt_room d = (if mt_static d then INITIAL_STATIC_FIND_INDEX_COUNT + 1 else 8 * mt_mlen d div 4)"

definition mt_add :: "matches \<Rightarrow> int \<Rightarrow> matches option" where
  "mt_add d pos = (if int (length (mt_pos d)) < mt_room d then Some (d\<lparr>mt_pos := mt_pos d @ [pos]\<rparr>) else None)"

text \<open>The growth of the array before an entry is added: it fails, or doubles the array.\<close>

definition mt_grow :: "matches \<Rightarrow> bmem \<Rightarrow> (matches option \<times> bmem) option" where
  "mt_grow d h =
     (if int (length (mt_pos d)) \<ge> mt_mlen d - 1 then
        if mt_mlen d > INT_MAX div 8 div 2 then Some (None, h)
        else do {
          m \<leftarrow> cint (mt_mlen d + mt_mlen d);
          _ \<leftarrow> cint (8 * m);
          let (ok, al) = alloc_next (bm_alloc h);
          if ok then Some (Some (d\<lparr>mt_static := False, mt_mlen := m\<rparr>), h\<lparr>bm_alloc := al\<rparr>)
          else Some (None, h\<lparr>bm_alloc := al\<rparr>)
        }
      else Some (Some d, h))"

partial_function (option) collect_loop ::
  "instr_fn \<Rightarrow> bstring \<Rightarrow> bstring \<Rightarrow> int \<Rightarrow> matches \<Rightarrow> int \<Rightarrow> int \<Rightarrow> bmem \<Rightarrow> ((matches \<times> int) option \<times> bmem) option" where
  "collect_loop instr b auxf delta d acc pos h = do {
     i \<leftarrow> instr b pos auxf h;
     if i \<ge> 0 then do {
       (g, h) \<leftarrow> mt_grow d h;
       case g of
         None \<Rightarrow> Some (None, h)
       | Some d \<Rightarrow> do {
           d \<leftarrow> mt_add d i;
           a \<leftarrow> cint (acc - delta);
           fh \<leftarrow> hdr_of h auxf;
           p \<leftarrow> cint (i + b_slen fh);
           if p < 0 \<or> a < 0 then Some (None, h)
           else collect_loop instr b auxf delta d a p h
         }
     } else Some (Some (d, acc), h)
   }"

declare same_loop.simps [code] shrink_loop.simps [code] collect_loop.simps [code]

text \<open>The loop that moves the segments, from the last one down: \<open>n\<close> is \<open>i + 1\<close>.\<close>

primrec expand_loop :: "ptr option \<Rightarrow> int \<Rightarrow> ptr option \<Rightarrow> int \<Rightarrow> int \<Rightarrow> int list \<Rightarrow> nat \<Rightarrow> int \<Rightarrow> bmem \<Rightarrow> bmem option" where
  "expand_loop p fl q rl delta d 0 acc h = Some h"
| "expand_loop p fl q rl delta d (Suc n) acc h = do {
     s \<leftarrow> cint (d ! n + fl);
     l \<leftarrow> cint (d ! Suc n - s);
     h \<leftarrow> if l \<noteq> 0 then memmove h p (s + acc) p s l else Some h;
     h \<leftarrow> if rl \<noteq> 0 then memmove h p (s + acc - rl) q 0 rl else Some h;
     a \<leftarrow> cint (acc + delta);
     expand_loop p fl q rl delta d n a h
   }"

definition expand :: "instr_fn \<Rightarrow> bstring \<Rightarrow> bstring \<Rightarrow> bstring \<Rightarrow> int \<Rightarrow> int \<Rightarrow> bmem \<Rightarrow> (int \<times> bmem) option" where
  "expand instr b auxf auxr delta pos h = do {
     (c, h) \<leftarrow> collect_loop instr b auxf delta \<lparr>mt_pos = [], mt_static = True, mt_mlen = INITIAL_STATIC_FIND_INDEX_COUNT\<rparr> 0 pos h;
     case c of
       None \<Rightarrow> Some (BSTR_ERR, h)
     | Some (d, acc) \<Rightarrow> do {
         bh \<leftarrow> hdr_of h b;
         d' \<leftarrow> mt_add d (b_slen bh);
         e \<leftarrow> cint (b_slen bh + acc);
         e1 \<leftarrow> cint (e + 1);
         (r, h) \<leftarrow> balloc b e1 h;
         if r = BSTR_OK then do {
           bh \<leftarrow> hdr_of h b;
           fh \<leftarrow> hdr_of h auxf;
           rh \<leftarrow> hdr_of h auxr;
           h \<leftarrow> set_hdr h b (bh\<lparr>b_slen := b_slen bh + acc\<rparr>);
           h \<leftarrow> expand_loop (b_data bh) (b_slen fh) (b_data rh) (b_slen rh) delta (mt_pos d') (length (mt_pos d)) acc h;
           h \<leftarrow> wrb h (b_data bh) (b_slen bh + acc) 0;
           Some (r, h)
         } else Some (r, h)
       }
   }"

text \<open>The test of both arguments for lying in the string from the position on.\<close>

definition alias_from :: "ptr option \<Rightarrow> ptr option \<Rightarrow> int \<Rightarrow> int \<Rightarrow> bool" where
  "alias_from p q lo hi = (case (p, q) of
     (Some (k, off), Some (k', off')) \<Rightarrow> k = k' \<and> lo < int off - int off' \<and> int off - int off' < hi
   | _ \<Rightarrow> False)"

definition drop_both :: "bstring \<Rightarrow> bstring \<Rightarrow> bstring \<Rightarrow> bstring \<Rightarrow> int \<times> bmem \<Rightarrow> (int \<times> bmem) option" where
  "drop_both auxf f auxr r rh = do {
     h \<leftarrow> drop_aux auxf f (snd rh);
     h \<leftarrow> drop_aux auxr r h;
     Some (fst rh, h)
   }"

definition findreplaceengine :: "instr_fn \<Rightarrow> bstring \<Rightarrow> bstring \<Rightarrow> bstring \<Rightarrow> int \<Rightarrow> bmem \<Rightarrow> (int \<times> bmem) option" where
  "findreplaceengine instr b fnd repl pos h =
     (if b = None \<or> fnd = None \<or> repl = None then Some (BSTR_ERR, h)
      else do {
        bh \<leftarrow> hdr_of h b;
        fh \<leftarrow> hdr_of h fnd;
        rh \<leftarrow> hdr_of h repl;
        if b_data bh = None \<or> b_data fh = None \<or> b_data rh = None \<or> pos < 0 \<or> b_slen fh \<le> 0 \<or> b_mlen bh \<le> 0 \<or>
          b_slen bh > b_mlen bh \<or> b_slen bh < 0 \<or> b_slen rh < 0 then Some (BSTR_ERR, h)
        else if pos > b_slen bh - b_slen fh then Some (BSTR_OK, h)
        else do {
          (auxf, h) \<leftarrow> if alias_from (b_data fh) (b_data bh) (pos - b_slen fh) (b_slen bh) then bstrcpy fnd h else Some (fnd, h);
          if auxf = None then Some (BSTR_ERR, h)
          else do {
            (auxr, h) \<leftarrow> if alias_from (b_data rh) (b_data bh) (pos - b_slen rh) (b_slen bh) then bstrcpy repl h else Some (repl, h);
            if auxr = None then do {
              h \<leftarrow> drop_aux auxf fnd h;
              Some (BSTR_ERR, h)
            } else do {
              fh \<leftarrow> hdr_of h auxf;
              rh \<leftarrow> hdr_of h auxr;
              let delta = b_slen fh - b_slen rh;
              res \<leftarrow>
                if delta = 0 then map_option (Pair BSTR_OK) (same_loop instr b auxf auxr pos h)
                else if delta > 0 then do {
                  (p, acc, h) \<leftarrow> shrink_loop instr b auxf auxr delta pos 0 h;
                  map_option (Pair BSTR_OK) (shrink_end b p acc h)
                }
                else expand instr b auxf auxr delta pos h;
              drop_both auxf fnd auxr repl res
            }
          }
        }
      })"

definition bfindreplace :: "bstring \<Rightarrow> bstring \<Rightarrow> bstring \<Rightarrow> int \<Rightarrow> bmem \<Rightarrow> (int \<times> bmem) option" where
  "bfindreplace b fnd repl pos h = findreplaceengine binstr b fnd repl pos h"

definition bfindreplacecaseless :: "bstring \<Rightarrow> bstring \<Rightarrow> bstring \<Rightarrow> int \<Rightarrow> bmem \<Rightarrow> (int \<times> bmem) option" where
  "bfindreplacecaseless b fnd repl pos h = findreplaceengine binstrcaseless b fnd repl pos h"

end
