(* ===== verification/BstrChange.thy ===== *)
theory BstrChange
  imports BstrReplace BstrEditor BstrFind
begin

text \<open>
  The operations that change a string in the middle: deletion, trimming, insertion and overwriting. Their results
  are \<open>terminated\<close> states, and they keep the contract \<open>outcome\<close>.
\<close>

section \<open>Edits in place\<close>

text \<open>
  The state in which the string \<open>i\<close> has the characters \<open>u\<close> and the bytes of \<open>m\<close> behind its terminator.
\<close>

definition terminated :: "bmem \<Rightarrow> nat \<Rightarrow> nat \<Rightarrow> cell list \<Rightarrow> bytes \<Rightarrow> bmem" where
  "terminated h i k m u = h\<lparr>bm_blk := (bm_blk h)(k \<mapsto> map Some u @ Some 0 # drop (Suc (length u)) m),
     bm_hdr := (bm_hdr h)(i \<mapsto> \<lparr>b_mlen = int (length m), b_slen = int (length u), b_data = Some (k, 0)\<rparr>)\<rparr>"

lemma terminated_owns: "length u < length m \<Longrightarrow> owns (terminated h i k m u) i u k (drop (Suc (length u)) m)"
  by (simp add: terminated_def owns_def of_nat_diff Suc_diff_Suc)

lemma terminated_framed:
  "owns h i s k rest \<Longrightarrow> heap_ok h \<Longrightarrow> framed h (terminated h i k m u) i k k"
  by (auto simp: framed_def terminated_def heap_ok_def owns_def)

lemma terminated_outcome:
  assumes "owns h1 i s k' rest'" "framed h h1 i k k'" "length m = length s + 1 + length rest'" "length u < length m"
    "int (length m) \<le> max (int (length s) + 1 + int (length rest)) (snapUpSize (int (length u) + 1))"
  shows "outcome h BSTR_OK (terminated h1 i k' m u) i s k rest u"
proof -
  have "heap_ok h1" using assms(2) by (simp add: framed_def)
  moreover have "int (length u) + 1 + int (length (drop (Suc (length u)) m)) = int (length m)" using assms(4) by (simp add: of_nat_diff)
  ultimately show ?thesis
    using terminated_owns [OF assms(4), of h1 i k'] framed_trans [OF assms(2) terminated_framed [OF assms(1)]] assms(5)
    unfolding outcome_def by fastforce
qed

text \<open>The last two statements of an edit, in both orders.\<close>

lemma end_hdr_first:
  assumes "bm_blk h k = Some m" "take (length u) m = map Some u" "length u < length m" "bm_hdr h i = Some y"
    "y = \<lparr>b_mlen = int (length m), b_slen = l, b_data = Some (k, 0)\<rparr>" "n = int (length u)"
  shows "Option.bind (set_hdr h (Some i) (y\<lparr>b_slen := n\<rparr>)) (\<lambda>h. wrb h (Some (k, 0)) n 0) = Some (terminated h i k m u)"
proof -
  let ?h1 = "h\<lparr>bm_hdr := (bm_hdr h)(i \<mapsto> y\<lparr>b_slen := n\<rparr>)\<rparr>"
  have "bm_blk ?h1 k = Some (map Some u @ m ! length u # drop (Suc (length u)) m)"
    using assms(1) id_take_nth_drop [OF assms(3)] assms(2) by simp
  from wrb_eq [OF this, of 0 n 0] show ?thesis using assms(4-6) by (simp add: set_hdr_def terminated_def hdr_blk_commute)
qed

lemma end_blk_first:
  assumes "bm_blk h k = Some m" "take (length u) m = map Some u" "length u < length m" "bm_hdr h i = Some y"
    "y = \<lparr>b_mlen = int (length m), b_slen = l, b_data = Some (k, 0)\<rparr>" "n = int (length u)"
  shows "Option.bind (wrb h (Some (k, 0)) n 0) (\<lambda>h. set_hdr h (Some i) (y\<lparr>b_slen := n\<rparr>)) = Some (terminated h i k m u)"
proof -
  have "bm_blk h k = Some (map Some u @ m ! length u # drop (Suc (length u)) m)"
    using assms(1) id_take_nth_drop [OF assms(3)] assms(2) by simp
  from wrb_eq [OF this, of 0 n 0] show ?thesis using assms(4-6) by (simp add: set_hdr_def terminated_def)
qed

text \<open>An edit after one in place.\<close>

lemma outcome_after:
  assumes "heap_ok h" "owns h i s k rest" "framed h h1 i k k1" "length s1 + length r1 = length s + length rest"
    "outcome h1 BSTR_OK h2 i s1 k1 r1 u"
  shows "outcome h BSTR_OK h2 i s k rest u"
proof -
  have e: "int (length s1) + 1 + int (length r1) = int (length s) + 1 + int (length rest)" using assms(4) by linarith
  obtain k2 r2 where "owns h2 i u k2 r2" "framed h1 h2 i k1 k2"
    "int (length u) + 1 + int (length r2) \<le> max (int (length s) + 1 + int (length rest)) (snapUpSize (int (length u) + 1))"
    using assms(5) unfolding outcome_def e by auto
  then show ?thesis using framed_trans_any [OF assms(1) ownsD(2) [OF assms(2)] assms(3)] unfolding outcome_def by blast
qed

text \<open>Moving a range within a block.\<close>

lemma move_within:
  assumes "bm_blk h k = Some m" "s + n \<le> length m" "d + n \<le> length m"
  shows "bBlockCopy h (Some (k, 0)) (int d) (Some (k, 0)) (int s) (int n) =
    Some (h\<lparr>bm_blk := (bm_blk h)(k \<mapsto> take d m @ take n (drop s m) @ drop (d + n) m)\<rparr>)"
proof (cases "n = 0")
  case True
  then show ?thesis using assms(1) by (auto simp: bBlockCopy_def intro!: bmem.equality)
next
  case False
  have l: "length (take d m) = d" "length (take n (drop d m)) = n" "length (take n (drop s m)) = n"
    using assms(2,3) by simp_all
  have "rdn h (Some (k, 0)) (int s) (int n) = Some (take n (drop s m))" using rdn_eq [OF assms(1), of "int s" "int n" 0] assms(2) by simp
  moreover have "bm_blk h k = Some (take d m @ take n (drop d m) @ drop (d + n) m)"
    using assms(1) append_take_drop_id [of d m] append_take_drop_id [of n "drop d m"] by (simp add: add.commute)
  from wrn_eq [OF this, of 0 "int d" "take n (drop s m)"] l
  have "wrn h (Some (k, 0)) (int d) (take n (drop s m)) =
      Some (h\<lparr>bm_blk := (bm_blk h)(k \<mapsto> take d m @ take n (drop s m) @ drop (d + n) m)\<rparr>)"
    by simp
  ultimately show ?thesis using False by (simp add: bBlockCopy_def memmove_def)
qed

section \<open>Deletion and trimming\<close>

lemma drop_owned: "d \<le> length s \<Longrightarrow> n + d \<le> length s \<Longrightarrow> take n (drop d (map Some s @ r)) = map Some (take n (drop d s))"
  by (simp add: take_map drop_map)

lemma bdelete_ok:
  assumes "heap_ok h" "owns h i s k rest" "int (length s) + int len \<le> INT_MAX"
  shows "\<exists>h'. bdelete (Some i) (int pos) (int len) h = Some (BSTR_OK, h') \<and> outcome h BSTR_OK h' i s k rest (take pos s @ drop (pos + len) s)"
proof -
  note O = ownsD [OF assms(2)]
  let ?m = "map Some s @ Some 0 # rest"
  have fin: "outcome h BSTR_OK (terminated h i k m u) i s k rest u" if "length m = length ?m" "length u < length m" for m u
    using terminated_outcome [OF assms(2) framed_refl [OF assms(1)], of m u rest] that by simp
  consider "len = 0 \<or> length s \<le> pos" | "0 < len" "pos < length s" "length s \<le> pos + len" | "0 < len" "pos + len < length s" by linarith
  then show ?thesis
  proof cases
    case 1
    then have "bdelete (Some i) (int pos) (int len) h = Some (BSTR_OK, h)" using O(1) by (auto simp: bdelete_def not_bad_owned)
    moreover have "take pos s @ drop (pos + len) s = s" using 1 by (auto)
    ultimately show ?thesis using in_place_outcome [OF assms(2) framed_refl [OF assms(1)]] by simp
  next
    case 2
    let ?u = "take pos s"
    have u: "length ?u = pos" using 2 by simp
    have "Option.bind (set_hdr h (Some i) (\<lparr>b_mlen = int (length s) + 1 + int (length rest), b_slen = int (length s), b_data = Some (k, 0)\<rparr>\<lparr>b_slen := int pos\<rparr>))
        (\<lambda>h. wrb h (Some (k, 0)) (int pos) 0) = Some (terminated h i k ?m ?u)"
      by (rule end_hdr_first [OF O(2) _ _ O(1), where l = "int (length s)"]) (use 2 in \<open>auto simp: take_map\<close>)
    then have "bdelete (Some i) (int pos) (int len) h = Some (BSTR_OK, terminated h i k ?m ?u)"
      using 2 O(1) assms(3) by (auto simp: bdelete_def not_bad_owned INT_MIN_def bind_eq_Some_conv)
    moreover have "take pos s @ drop (pos + len) s = ?u" using 2 by simp
    ultimately show ?thesis using fin [of ?m ?u] 2 by auto
  next
    case 3
    let ?n = "length s - (pos + len)"
    let ?m1 = "take pos ?m @ take ?n (drop (pos + len) ?m) @ drop (pos + ?n) ?m"
    let ?h1 = "h\<lparr>bm_blk := (bm_blk h)(k \<mapsto> ?m1)\<rparr>"
    let ?u = "take pos s @ drop (pos + len) s"
    have mv: "bBlockCopy h (Some (k, 0)) (int pos) (Some (k, 0)) (int (pos + len)) (int ?n) = Some ?h1"
      by (rule move_within [OF O(2)]) (use 3 in simp_all)
    have n: "int ?n = int (length s) - (int pos + int len)" using 3 by (simp add: of_nat_diff)
    have u: "length ?u = length s - len" "int (length s) - int len = int (length ?u)" using 3 by (simp_all add: of_nat_diff)
    have l: "length ?m1 = length ?m" using 3 by simp
    have "take pos ?m = map Some (take pos s)" "take ?n (drop (pos + len) ?m) = map Some (drop (pos + len) s)"
      using 3 drop_owned [of "pos + len" s ?n] by (simp_all add: take_map)
    then have t: "take (length ?u) ?m1 = map Some ?u" using 3 by simp
    have "Option.bind (set_hdr ?h1 (Some i) (\<lparr>b_mlen = int (length s) + 1 + int (length rest), b_slen = int (length s), b_data = Some (k, 0)\<rparr>
          \<lparr>b_slen := int (length s) - int len\<rparr>)) (\<lambda>h. wrb h (Some (k, 0)) (int (length s) - int len) 0) = Some (terminated ?h1 i k ?m1 ?u)"
      by (rule end_hdr_first [OF _ t, where l = "int (length s)"]) (use 3 l u O(1) in auto)
    moreover have "terminated ?h1 i k ?m1 ?u = terminated h i k ?m1 ?u" by (simp add: terminated_def)
    ultimately have "bdelete (Some i) (int pos) (int len) h = Some (BSTR_OK, terminated h i k ?m1 ?u)"
      using 3 O(1) assms(3) mv n by (auto simp: bdelete_def not_bad_owned INT_MIN_def bind_eq_Some_conv)
    then show ?thesis using fin [OF l, of ?u] u 3 by auto
  qed
qed

text \<open>Trimming on lists.\<close>

definition ltrim :: "bytes \<Rightarrow> bytes" where
  "ltrim s = dropWhile c_isspace s"

definition rtrim :: "bytes \<Rightarrow> bytes" where
  "rtrim s = rev (dropWhile c_isspace (rev s))"

lemma ltrim_find:
  "ltrim s = (case find (\<lambda>k. \<not> c_isspace (s ! k)) [0..<length s] of Some i \<Rightarrow> drop i s | None \<Rightarrow> [])"
proof (cases "find (\<lambda>k. \<not> c_isspace (s ! k)) [0..<length s]")
  case None
  then have "\<forall>c \<in> set s. c_isspace c" unfolding find_upt_none by (auto simp: in_set_conv_nth)
  then show ?thesis using None by (simp add: ltrim_def)
next
  case (Some i)
  then have "i < length s" "\<not> c_isspace (s ! i)" "\<And>m. m < i \<Longrightarrow> c_isspace (s ! m)" unfolding find_upt_first by auto
  then have "takeWhile c_isspace s = take i s" by (intro takeWhile_eq_take_P_nth) auto
  then show ?thesis using Some \<open>i < length s\<close> by (simp add: ltrim_def dropWhile_eq_drop)
qed

lemma rtrim_find:
  "rtrim s = (case find (\<lambda>k. \<not> c_isspace (s ! k)) (rev [0..<length s]) of Some i \<Rightarrow> take (Suc i) s | None \<Rightarrow> [])"
proof (induction s rule: rev_induct)
  case (snoc x s)
  show ?case
  proof (cases "c_isspace x")
    case False
    then show ?thesis by (simp add: rtrim_def)
  next
    case True
    have "find (\<lambda>k. \<not> c_isspace ((s @ [x]) ! k)) (rev [0..<length s]) = find (\<lambda>k. \<not> c_isspace (s ! k)) (rev [0..<length s])"
      by (rule find_cong) (auto simp: nth_append)
    moreover have "i < length s" if "find (\<lambda>k. \<not> c_isspace (s ! k)) (rev [0..<length s]) = Some i" for i
      using that by (auto simp: find_Some_iff rev_nth)
    ultimately show ?thesis using True snoc by (auto simp: rtrim_def split: option.split)
  qed
qed (simp add: rtrim_def)

lemma set_empty_ok:
  assumes "heap_ok h" "owns h i s k rest" "bm_hdr h i = Some y"
  shows "\<exists>h'. set_empty (Some i) y h = Some (BSTR_OK, h') \<and> outcome h BSTR_OK h' i s k rest []"
proof -
  note O = ownsD [OF assms(2)]
  let ?m = "map Some s @ Some 0 # rest"
  have "Option.bind (wrb h (Some (k, 0)) 0 0) (\<lambda>h. set_hdr h (Some i) (y\<lparr>b_slen := 0\<rparr>)) = Some (terminated h i k ?m [])"
    by (rule end_blk_first [OF O(2) _ _ assms(3), where l = "int (length s)"]) (use O(1) assms(3) in auto)
  then have "set_empty (Some i) y h = Some (BSTR_OK, terminated h i k ?m [])"
    using O(1) assms(3) by (auto simp: set_empty_def bind_eq_Some_conv)
  then show ?thesis using terminated_outcome [OF assms(2) framed_refl [OF assms(1)], of ?m "[]" rest] by simp
qed

lemma owns_chars: "owns h i s k rest \<Longrightarrow> chars h (Some (k, 0)) s"
  using rdb_eq [OF ownsD(2)] by (auto simp: chars_def nth_append)

lemma bltrimws_ok:
  assumes "heap_ok h" "owns h i s k rest" "2 * int (length s) \<le> INT_MAX"
  shows "\<exists>h'. bltrimws (Some i) h = Some (BSTR_OK, h') \<and> outcome h BSTR_OK h' i s k rest (ltrim s)"
proof -
  note O = ownsD [OF assms(2)]
  have sc: "scan_loop (\<lambda>c. \<not> c_isspace c) h (Some (k, 0)) 0 (int (length s)) =
      Some (map_option int (find (\<lambda>k. \<not> c_isspace (s ! k)) [0..<length s]))"
    using scan_loop_ok [OF owns_chars [OF assms(2)] order_refl, of _ 0] by simp
  show ?thesis
  proof (cases "find (\<lambda>k. \<not> c_isspace (s ! k)) [0..<length s]")
    case None
    then show ?thesis using set_empty_ok [OF assms(1,2) O(1)] sc O(1) by (simp add: bltrimws_def not_bad_owned ltrim_find)
  next
    case (Some m)
    then have m: "m < length s" unfolding find_upt_first by simp
    have "ltrim s = take 0 s @ drop (0 + m) s" using Some by (simp add: ltrim_find)
    moreover have "bltrimws (Some i) h = bdelete (Some i) (int 0) (int m) h" using sc Some O(1) by (simp add: bltrimws_def not_bad_owned)
    ultimately show ?thesis using bdelete_ok [OF assms(1,2), of m 0] m assms(3) by simp
  qed
qed

lemma cut_after_ok:
  assumes "heap_ok h" "owns h i s k rest" "bm_hdr h i = Some y" "m < length s"
  shows "\<exists>h'. cut_after (Some i) y (int m) h = Some h' \<and> owns h' i (take (Suc m) s) k (drop (Suc (Suc m)) (map Some s @ Some 0 # rest)) \<and> framed h h' i k k"
proof -
  note O = ownsD [OF assms(2)]
  let ?m = "map Some s @ Some 0 # rest"
  let ?u = "take (Suc m) s"
  have u: "length ?u = Suc m" using assms(4) by simp
  have "Option.bind (wrb h (Some (k, 0)) (int m + 1) 0) (\<lambda>h. set_hdr h (Some i) (y\<lparr>b_slen := int m + 1\<rparr>)) = Some (terminated h i k ?m ?u)"
    by (rule end_blk_first [OF O(2) _ _ assms(3), where l = "int (length s)"]) (use O(1) assms(3,4) u in \<open>auto simp: take_map\<close>)
  then have "cut_after (Some i) y (int m) h = Some (terminated h i k ?m ?u)"
    using O(1) assms(3,4) by (auto simp: cut_after_def)
  moreover have "owns (terminated h i k ?m ?u) i ?u k (drop (Suc (Suc m)) ?m)"
    using terminated_owns [of ?u ?m h i k] u assms(4) by simp
  ultimately show ?thesis using terminated_framed [OF assms(2,1), of ?m ?u] by blast
qed

lemma brtrimws_ok:
  assumes "heap_ok h" "owns h i s k rest"
  shows "\<exists>h'. brtrimws (Some i) h = Some (BSTR_OK, h') \<and> outcome h BSTR_OK h' i s k rest (rtrim s)"
proof -
  note O = ownsD [OF assms(2)]
  note sc = rscan_loop_ok [OF owns_chars [OF assms(2)] order_refl, of "\<lambda>c. \<not> c_isspace c"]
  show ?thesis
  proof (cases "find (\<lambda>k. \<not> c_isspace (s ! k)) (rev [0..<length s])")
    case None
    then show ?thesis using set_empty_ok [OF assms(1,2) O(1)] sc O(1) by (simp add: brtrimws_def not_bad_owned rtrim_find)
  next
    case (Some m)
    then have m: "m < length s" by (auto simp: find_Some_iff rev_nth)
    obtain h' where h': "cut_after (Some i) \<lparr>b_mlen = int (length s) + 1 + int (length rest), b_slen = int (length s), b_data = Some (k, 0)\<rparr> (int m) h = Some h'"
      "owns h' i (take (Suc m) s) k (drop (Suc (Suc m)) (map Some s @ Some 0 # rest))" "framed h h' i k k"
      using cut_after_ok [OF assms O(1) m] by blast
    have "length (take (Suc m) s) + length (drop (Suc (Suc m)) (map Some s @ Some 0 # rest)) = length s + length rest" using m by simp
    from in_place_outcome [OF h'(2,3) this] show ?thesis using sc Some O(1) h'(1) by (simp add: brtrimws_def not_bad_owned rtrim_find)
  qed
qed

text \<open>The inner loop of \<open>btrimws\<close> stops at the character that the outer one has found.\<close>

lemma space_run_ok:
  "chars h p s \<Longrightarrow> find (\<lambda>k. \<not> c_isspace (s ! k)) [j..<length s] = Some m \<Longrightarrow> space_run h p (int j) = Some (int m)"
proof (induction "m - j" arbitrary: j)
  case 0
  then have "j = m" "m < length s" "\<not> c_isspace (s ! m)" unfolding find_upt_first by auto
  then show ?case using charsD [OF 0(2), of m] by (subst space_run.simps) simp
next
  case (Suc d)
  then have j: "j < length s" "c_isspace (s ! j)" "find (\<lambda>k. \<not> c_isspace (s ! k)) [Suc j..<length s] = Some m"
    unfolding find_upt_first by auto
  have "space_run h p (int (Suc j)) = Some (int m)" using Suc.hyps(1) [of "Suc j"] Suc.hyps(2) Suc.prems(1) j(3) by simp
  then show ?case using charsD [OF Suc.prems(1) j(1)] j(2) by (subst space_run.simps) (simp add: add.commute)
qed

lemma rtrim_last: "rtrim s \<noteq> [] \<Longrightarrow> \<not> c_isspace (last (rtrim s))"
  unfolding rtrim_def by (metis hd_dropWhile last_rev rev_is_Nil_conv)

lemma btrimws_ok:
  assumes "heap_ok h" "owns h i s k rest" "2 * int (length s) \<le> INT_MAX"
  shows "\<exists>h'. btrimws (Some i) h = Some (BSTR_OK, h') \<and> outcome h BSTR_OK h' i s k rest (ltrim (rtrim s))"
proof -
  note O = ownsD [OF assms(2)]
  note sc = rscan_loop_ok [OF owns_chars [OF assms(2)] order_refl, of "\<lambda>c. \<not> c_isspace c"]
  show ?thesis
  proof (cases "find (\<lambda>k. \<not> c_isspace (s ! k)) (rev [0..<length s])")
    case None
    then show ?thesis using set_empty_ok [OF assms(1,2) O(1)] sc O(1) by (simp add: btrimws_def not_bad_owned rtrim_find ltrim_def)
  next
    case (Some m)
    then have m: "m < length s" "\<not> c_isspace (s ! m)" by (auto simp: find_Some_iff rev_nth)
    let ?u = "take (Suc m) s" and ?r = "drop (Suc (Suc m)) (map Some s @ Some 0 # rest)"
    obtain h' where h': "cut_after (Some i) \<lparr>b_mlen = int (length s) + 1 + int (length rest), b_slen = int (length s), b_data = Some (k, 0)\<rparr> (int m) h = Some h'"
      "owns h' i ?u k ?r" "framed h h' i k k"
      using cut_after_ok [OF assms(1,2) O(1) m(1)] by blast
    have u: "length ?u = Suc m" "rtrim s = ?u" using m(1) Some by (simp_all add: rtrim_find)
    have "find (\<lambda>k. \<not> c_isspace (?u ! k)) [0..<length ?u] \<noteq> None"
      using u m(2) unfolding find_upt_none by (intro notI) auto
    then obtain j where j: "find (\<lambda>k. \<not> c_isspace (?u ! k)) [0..<length ?u] = Some j" by blast
    have jl: "j < length ?u" using j unfolding find_upt_first by simp
    have "space_run h' (Some (k, 0)) 0 = Some (int j)" using space_run_ok [OF owns_chars [OF h'(2)] j] by simp
    then have run: "btrimws (Some i) h = bdelete (Some i) (int 0) (int j) h'"
      using sc Some O(1) h'(1) by (simp add: btrimws_def not_bad_owned)
    have hk: "heap_ok h'" using h'(3) by (simp add: framed_def)
    have "int (length ?u) + int j \<le> INT_MAX" using u(1) jl m(1) assms(3) by simp
    from bdelete_ok [OF hk h'(2) this, of 0] obtain h2 where h2: "bdelete (Some i) (int 0) (int j) h' = Some (BSTR_OK, h2)"
      "outcome h' BSTR_OK h2 i ?u k ?r (drop j ?u)" by auto
    have e: "drop j ?u = ltrim (rtrim s)" using j u(2) by (simp add: ltrim_find)
    have "length ?u + length ?r = length s + length rest" using m(1) by simp
    from outcome_after [OF assms(1,2) h'(3) this h2(2)] have "outcome h BSTR_OK h2 i s k rest (drop j ?u)" .
    then show ?thesis using run h2(1) e by simp
  qed
qed

section \<open>Insertion\<close>

text \<open>A block in which the bytes from \<open>d\<close> on are replaced by \<open>xs\<close>.\<close>

definition put :: "cell list \<Rightarrow> nat \<Rightarrow> cell list \<Rightarrow> cell list" where
  "put m d xs = take d m @ xs @ drop (d + length xs) m"

lemma length_put [simp]: "d + length xs \<le> length m \<Longrightarrow> length (put m d xs) = length m"
  by (simp add: put_def)

lemma wrn_put:
  assumes "bm_blk h k = Some m" "d + length xs \<le> length m"
  shows "wrn h (Some (k, 0)) (int d) xs = Some (h\<lparr>bm_blk := (bm_blk h)(k \<mapsto> put m d xs)\<rparr>)"
proof -
  have "bm_blk h k = Some (take d m @ take (length xs) (drop d m) @ drop (d + length xs) m)"
    using assms(1) append_take_drop_id [of d m] append_take_drop_id [of "length xs" "drop d m"] by (simp add: add.commute)
  moreover have "length (take d m) = d" "length (take (length xs) (drop d m)) = length xs" using assms(2) by simp_all
  ultimately show ?thesis using wrn_eq [of h k "take d m" "take (length xs) (drop d m)" "drop (d + length xs) m" 0 "int d" xs]
    by (simp add: put_def)
qed

lemma wrb_put:
  assumes "bm_blk h k = Some m" "d < length m"
  shows "wrb h (Some (k, 0)) (int d) c = Some (h\<lparr>bm_blk := (bm_blk h)(k \<mapsto> put m d [Some c])\<rparr>)"
  using wrn_put [OF assms(1), of d "[Some c]"] assms(2) by (simp add: wrb_def)

lemma copy_put:
  assumes "bm_blk h k = Some m" "d + length t \<le> length m" "src_ok h p off t"
  shows "bBlockCopy h (Some (k, 0)) (int d) p off (int (length t)) = Some (h\<lparr>bm_blk := (bm_blk h)(k \<mapsto> put m d (map Some t))\<rparr>)"
proof (cases "t = []")
  case True
  then show ?thesis using assms(1) by (auto simp: bBlockCopy_def put_def intro!: bmem.equality)
next
  case False
  then show ?thesis using wrn_put [OF assms(1), of d "map Some t"] assms(2,3) by (simp add: bBlockCopy_def memmove_def src_ok_def)
qed

lemma put_end: "put m d [Some 0] = take d m @ Some 0 # drop (Suc d) m"
  by (simp add: put_def)

text \<open>The last write of the terminator.\<close>

lemma terminated_wrb:
  assumes "bm_blk h k = Some m" "take (length u) m = map Some u" "length u < length m"
    "bm_hdr h i = Some \<lparr>b_mlen = int (length m), b_slen = int (length u), b_data = Some (k, 0)\<rparr>"
  shows "wrb h (Some (k, 0)) (int (length u)) 0 = Some (terminated h i k m u)"
proof -
  have "h\<lparr>bm_hdr := (bm_hdr h)(i \<mapsto> \<lparr>b_mlen = int (length m), b_slen = int (length u), b_data = Some (k, 0)\<rparr>)\<rparr> = h"
    using assms(4) by (auto intro!: bmem.equality)
  then have "h\<lparr>bm_blk := f, bm_hdr := (bm_hdr h)(i \<mapsto> \<lparr>b_mlen = int (length m), b_slen = int (length u), b_data = Some (k, 0)\<rparr>)\<rparr> = h\<lparr>bm_blk := f\<rparr>" for f
    by (metis hdr_blk_commute)
  then show ?thesis using wrb_put [OF assms(1,3), of 0] assms(2) by (simp add: put_end terminated_def)
qed

definition insert_at :: "nat \<Rightarrow> bytes \<Rightarrow> u8 \<Rightarrow> bytes \<Rightarrow> bytes" where
  "insert_at pos t fill s = (if pos \<le> length s then take pos s @ t @ drop pos s else s @ replicate (pos - length s) fill @ t)"

lemma length_insert_at: "length (insert_at pos t fill s) = max (length s) pos + length t"
  by (simp add: insert_at_def)

text \<open>The block after the gap was filled or the tail moved, and the new characters were written.\<close>

definition opened :: "cell list \<Rightarrow> nat \<Rightarrow> nat \<Rightarrow> u8 \<Rightarrow> nat \<Rightarrow> cell list" where
  "opened m n pos fill len =
     (if n < pos then put m n (replicate (pos - n) (Some fill)) else put m (pos + len) (take (n - pos) (drop pos m)))"

lemma insert_block:
  assumes "m = map Some s @ Some 0 # rest" "max (length s) pos + length t < length m"
  shows "take (max (length s) pos + length t) (put (opened m (length s) pos fill (length t)) pos (map Some t)) = map Some (insert_at pos t fill s)"
    "length (put (opened m (length s) pos fill (length t)) pos (map Some t)) = length m"
    "length (opened m (length s) pos fill (length t)) = length m"
proof -
  have l: "length (opened m (length s) pos fill (length t)) = length m"
    using assms(2) by (auto simp: opened_def max_def split: if_splits)
  then show "length (opened m (length s) pos fill (length t)) = length m"
    "length (put (opened m (length s) pos fill (length t)) pos (map Some t)) = length m" using assms(2) by simp_all
  show "take (max (length s) pos + length t) (put (opened m (length s) pos fill (length t)) pos (map Some t)) = map Some (insert_at pos t fill s)"
  proof (cases "length s < pos")
    case True
    then have "take pos (opened m (length s) pos fill (length t)) = map Some s @ replicate (pos - length s) (Some fill)"
      using assms by (simp add: opened_def put_def)
    then show ?thesis using True l assms(2) by (simp add: put_def insert_at_def)
  next
    case False
    have "take pos (opened m (length s) pos fill (length t)) = map Some (take pos s)"
      using False assms by (simp add: opened_def put_def take_map)
    moreover have "take (length s - pos) (drop (pos + length t) (opened m (length s) pos fill (length t))) = map Some (drop pos s)"
      using False assms by (simp add: opened_def put_def drop_map)
    ultimately show ?thesis using False l assms(2) by (simp add: put_def insert_at_def max_def)
  qed
qed

lemma src_ok_other: "src_ok h (Some (kp, po)) off t \<Longrightarrow> kp \<noteq> k \<Longrightarrow> src_ok (h\<lparr>bm_blk := (bm_blk h)(k \<mapsto> m), bm_hdr := y\<rparr>) (Some (kp, po)) off t"
  by (simp add: src_ok_def rdn_def)

lemma insert_tail:
  assumes "owns h i s k rest" "src_ok h (Some (kp, po)) off t" "kp \<noteq> k"
    "max (length s) pos + length t \<le> length s + length rest" "m = map Some s @ Some 0 # rest" "l = int pos + int (length t)" "d = int (length s) + int (length t)"
  shows "do {
      bh \<leftarrow> hdr_of h (Some i);
      h \<leftarrow> if l > d then bm_memset h (b_data bh) (b_slen bh) fill (int pos - b_slen bh)
        else bBlockCopy h (b_data bh) l (b_data bh) (int pos) (d - l);
      h \<leftarrow> set_hdr h (Some i) (bh\<lparr>b_slen := if l > d then l else d\<rparr>);
      h \<leftarrow> bBlockCopy h (b_data bh) (int pos) (Some (kp, po)) off (int (length t));
      wrb h (b_data bh) (if l > d then l else d) 0
    } = Some (terminated h i k (put (opened m (length s) pos fill (length t)) pos (map Some t)) (insert_at pos t fill s))"
proof -
  note O = ownsD [OF assms(1), folded assms(5)]
  have lt: "max (length s) pos + length t < length m" using assms(4,5) by simp
  let ?m1 = "opened m (length s) pos fill (length t)"
  let ?m2 = "put ?m1 pos (map Some t)"
  let ?u = "insert_at pos t fill s"
  note ins = insert_block [OF assms(5) lt, of fill]
  have n: "(if l > d then l else d) = int (length ?u)" using assms(6,7) by (simp add: length_insert_at max_def)
  have 1: "(if l > d then bm_memset h (Some (k, 0)) (int (length s)) fill (int pos - int (length s))
        else bBlockCopy h (Some (k, 0)) l (Some (k, 0)) (int pos) (d - l)) = Some (h\<lparr>bm_blk := (bm_blk h)(k \<mapsto> ?m1)\<rparr>)"
  proof (cases "length s < pos")
    case True
    have p: "int pos - int (length s) = int (pos - length s)" using True by simp
    have len: "length s + length (replicate (pos - length s) (Some fill)) \<le> length m" using True lt by simp
    have ld: "l > d" using True assms(6,7) by simp
    have "bm_memset h (Some (k, 0)) (int (length s)) fill (int (pos - length s)) = wrn h (Some (k, 0)) (int (length s)) (replicate (pos - length s) (Some fill))"
      by (simp add: bm_memset_def)
    also have "\<dots> = Some (h\<lparr>bm_blk := (bm_blk h)(k \<mapsto> put m (length s) (replicate (pos - length s) (Some fill)))\<rparr>)"
      by (rule wrn_put [OF O(2) len])
    also have "put m (length s) (replicate (pos - length s) (Some fill)) = ?m1" using True by (simp only: opened_def if_True)
    finally show ?thesis unfolding p by (simp only: ld if_True)
  next
    case False
    have e: "l = int (pos + length t)" "d - l = int (length s - pos)" using False assms(6,7) by simp_all
    have "bBlockCopy h (Some (k, 0)) (int (pos + length t)) (Some (k, 0)) (int pos) (int (length s - pos)) =
        Some (h\<lparr>bm_blk := (bm_blk h)(k \<mapsto> ?m1)\<rparr>)"
      using move_within [OF O(2), of pos "length s - pos" "pos + length t"] False lt
      by (simp add: opened_def put_def max_def min_def)
    moreover have "\<not> l > d" using False assms(6,7) by simp
    ultimately show ?thesis using e by simp
  qed
  let ?y = "\<lparr>b_mlen = int (length s) + 1 + int (length rest), b_slen = int (length ?u), b_data = Some (k, 0)\<rparr>"
  let ?h2 = "h\<lparr>bm_blk := (bm_blk h)(k \<mapsto> ?m1), bm_hdr := (bm_hdr h)(i \<mapsto> ?y)\<rparr>"
  have 2: "set_hdr (h\<lparr>bm_blk := (bm_blk h)(k \<mapsto> ?m1)\<rparr>) (Some i) ?y = Some ?h2" using O(1) by (simp add: set_hdr_def)
  have b2: "bm_blk ?h2 k = Some ?m1" by simp
  have 3: "bBlockCopy ?h2 (Some (k, 0)) (int pos) (Some (kp, po)) off (int (length t)) = Some (?h2\<lparr>bm_blk := (bm_blk ?h2)(k \<mapsto> ?m2)\<rparr>)" (is "_ = Some ?h3")
    by (rule copy_put [OF b2 _ src_ok_other [OF assms(2,3)]]) (use ins(3) lt in \<open>simp add: max_def split: if_splits\<close>)
  have lu: "length ?u < length ?m2" "length ?u = max (length s) pos + length t" using ins(2) lt by (simp_all add: length_insert_at)
  have "wrb ?h3 (Some (k, 0)) (int (length ?u)) 0 = Some (terminated ?h3 i k ?m2 ?u)"
    by (rule terminated_wrb) (use ins lu assms(5) in simp_all)
  moreover have "terminated ?h3 i k ?m2 ?u = terminated h i k ?m2 ?u" by (simp add: terminated_def hdr_blk_commute)
  ultimately have 4: "wrb ?h3 (Some (k, 0)) (int (length ?u)) 0 = Some (terminated h i k ?m2 ?u)" by simp
  show ?thesis unfolding n hdr_of_Some O(1) Option.bind.simps bhdr.simps 1 2 3 4 ..
qed

lemma opened_outcome:
  assumes "owns h1 i s k' rest'" "framed h h1 i k k'" "max (length s) pos + length t \<le> length s + length rest'"
    "int (length s) + 1 + int (length rest') \<le> max (int (length s) + 1 + int (length rest)) (snapUpSize (int (max (length s) pos + length t) + 1))"
  shows "outcome h BSTR_OK (terminated h1 i k' (put (opened (map Some s @ Some 0 # rest') (length s) pos fill (length t)) pos (map Some t)) (insert_at pos t fill s))
    i s k rest (insert_at pos t fill s)"
proof (rule terminated_outcome [OF assms(1,2)])
  have lt: "max (length s) pos + length t < length (map Some s @ Some 0 # rest')" using assms(3) by simp
  note l = insert_block(2) [OF refl lt, of fill]
  show "length (put (opened (map Some s @ Some 0 # rest') (length s) pos fill (length t)) pos (map Some t)) = length s + 1 + length rest'" using l by simp
  show "length (insert_at pos t fill s) < length (put (opened (map Some s @ Some 0 # rest') (length s) pos fill (length t)) pos (map Some t))"
    using l lt by (simp add: length_insert_at)
  show "int (length (put (opened (map Some s @ Some 0 # rest') (length s) pos fill (length t)) pos (map Some t))) \<le>
      max (int (length s) + 1 + int (length rest)) (snapUpSize (int (length (insert_at pos t fill s)) + 1))"
    using assms(4) l by (simp add: length_insert_at algebra_simps)
qed

lemma binsertblk_ok:
  assumes "heap_ok h" "owns h i s k rest" "src_ok h (Some (kp, po)) 0 t" "kp \<noteq> k" "kp < bm_next h"
    "int (max (length s) pos) + int (length t) < INT_MAX" "8 * (int (length s) + 1 + int (length rest)) \<le> INT_MAX"
  shows "\<exists>r h'. binsertblk (Some i) (int pos) (Some (kp, po)) (int (length t)) fill h = Some (r, h') \<and> outcome h r h' i s k rest (insert_at pos t fill s)"
proof -
  let ?l = "int pos + int (length t)" and ?d = "int (length s) + int (length t)"
  let ?n = "if ?l > ?d then ?l else ?d"
  note O = ownsD [OF assms(2)]
  let ?cont = "\<lambda>(r, h). if r \<noteq> BSTR_OK then do {
        h \<leftarrow> free_copy (Some (kp, po)) (Some (kp, po)) h;
        Some (BSTR_ERR, h)
      } else do {
        bh \<leftarrow> hdr_of h (Some i);
        h \<leftarrow> if ?l > ?d then bm_memset h (b_data bh) (b_slen bh) fill (int pos - b_slen bh)
          else bBlockCopy h (b_data bh) ?l (b_data bh) (int pos) (?d - ?l);
        h \<leftarrow> set_hdr h (Some i) (bh\<lparr>b_slen := ?n\<rparr>);
        h \<leftarrow> bBlockCopy h (b_data bh) (int pos) (Some (kp, po)) 0 (int (length t));
        h \<leftarrow> wrb h (b_data bh) ?n 0;
        h \<leftarrow> free_copy (Some (kp, po)) (Some (kp, po)) h;
        Some (BSTR_OK, h)
      }"
  have m: "?n = int (max (length s) pos + length t)" by (simp add: max_def)
  have c: "cint ?l = Some ?l" "cint ?d = Some ?d" "cint (?n + 1) = Some (?n + 1)"
    using assms(6) by (auto simp: cint_def INT_MIN_def max_def split: if_splits)
  have "\<not> (?d OR ?l) < 0" by (simp add: or_negative_int_iff)
  then have run: "binsertblk (Some i) (int pos) (Some (kp, po)) (int (length t)) fill h = Option.bind (balloc (Some i) (?n + 1) h) ?cont"
    using c O(1) assms(4) by (simp add: binsertblk_def Let_def blk_overlaps_def cong: if_cong split del: if_split)
  have n: "0 < ?n + 1" "?n + 1 \<le> INT_MAX" using assms(6) m by (simp_all del: of_nat_add)
  show ?thesis
  proof (cases rule: balloc_room [OF assms(1,2) n assms(7), case_names ok fail])
    case (ok h1 k' rest')
    have l: "max (length s) pos + length t \<le> length s + length rest'" using ok(4) unfolding m by linarith
    have f: "src_ok h1 (Some (kp, po)) 0 t" "kp \<noteq> k'"
      using foreign_src [OF assms(1) ok(3) assms(3,4)] framed_blk [OF assms(1) ok(3) assms(4,5)] by simp_all
    let ?h2 = "terminated h1 i k' (put (opened (map Some s @ Some 0 # rest') (length s) pos fill (length t)) pos (map Some t)) (insert_at pos t fill s)"
    have "?cont (BSTR_OK, h1) = Option.bind (Some ?h2) (\<lambda>h. Some (BSTR_OK, h))"
      unfolding insert_tail [OF ok(2) f l refl refl refl, of fill, symmetric]
      by (simp add: free_copy_def cong: if_cong split del: if_split)
    then have "binsertblk (Some i) (int pos) (Some (kp, po)) (int (length t)) fill h = Some (BSTR_OK, ?h2)"
      using run ok(1) by simp
    then show ?thesis using opened_outcome [OF ok(2,3) l, of rest fill] ok(5) unfolding m by blast
  next
    case (fail al)
    then show ?thesis using run owned_failed [OF assms(2,1)] by (auto simp: free_copy_def)
  qed
qed

section \<open>Repeated characters\<close>

lemma put_put: "d + length xs \<le> length m \<Longrightarrow> put (put m d xs) (d + length xs) ys = put m d (xs @ ys)"
  by (simp add: put_def ac_simps)

declare shift_loop.simps [simp del] fill_loop.simps [simp del] pattern_loop.simps [simp del]

lemma fill_loop_ok:
  "bm_blk h k = Some m \<Longrightarrow> a + j \<le> length m \<Longrightarrow>
   fill_loop (Some (k, 0)) (int a) (int (a + j)) c h = Some (h\<lparr>bm_blk := (bm_blk h)(k \<mapsto> put m a (replicate j (Some c)))\<rparr>)"
proof (induction j arbitrary: a m h)
  case 0
  then show ?case by (subst fill_loop.simps) (auto simp: put_def intro!: bmem.equality)
next
  case (Suc j)
  let ?m1 = "put m a [Some c]"
  let ?h1 = "h\<lparr>bm_blk := (bm_blk h)(k \<mapsto> ?m1)\<rparr>"
  have w: "wrb h (Some (k, 0)) (int a) c = Some ?h1" using wrb_put [OF Suc.prems(1)] Suc.prems(2) by simp
  have "fill_loop (Some (k, 0)) (int (Suc a)) (int (Suc a + j)) c ?h1 = Some (?h1\<lparr>bm_blk := (bm_blk ?h1)(k \<mapsto> put ?m1 (Suc a) (replicate j (Some c)))\<rparr>)"
    by (rule Suc.IH) (use Suc.prems in simp_all)
  moreover have "put ?m1 (Suc a) (replicate j (Some c)) = put m a (replicate (Suc j) (Some c))"
    using put_put [of a "[Some c]" m "replicate j (Some c)"] Suc.prems(2) by simp
  moreover have "int a + 1 = int (Suc a)" "int (a + Suc j) = int (Suc a + j)" "int a < int (Suc a + j)" by simp_all
  ultimately show ?case using w
    by (subst fill_loop.simps) (simp only: if_True Option.bind.simps bmem.simps fun_upd_upd fun_upd_same, simp)
qed

lemma shift_loop_ok:
  "bm_blk h k = Some m \<Longrightarrow> pos + len + j \<le> length m \<Longrightarrow> \<forall>x. pos \<le> x \<and> x < pos + j \<longrightarrow> m ! x \<noteq> None \<Longrightarrow>
   shift_loop (Some (k, 0)) (int (pos + len + j) - 1) (int (pos + len)) (int len) h =
     Some (h\<lparr>bm_blk := (bm_blk h)(k \<mapsto> put m (pos + len) (take j (drop pos m)))\<rparr>)"
proof (induction j arbitrary: m h)
  case 0
  then show ?case by (subst shift_loop.simps) (auto simp: put_def intro!: bmem.equality)
next
  case (Suc j)
  obtain c where c: "m ! (pos + j) = Some c" using Suc.prems(3) by fastforce
  let ?m1 = "put m (pos + len + j) [Some c]"
  let ?h1 = "h\<lparr>bm_blk := (bm_blk h)(k \<mapsto> ?m1)\<rparr>"
  have i: "int (pos + len + Suc j) - 1 = int (pos + len + j)" "int (pos + len + j) - int len = int (pos + j)"
    "int (pos + len + j) \<ge> int (pos + len)" by simp_all
  have l: "pos + len + j < length m" using Suc.prems(2) by simp
  have r: "rdb h (Some (k, 0)) (int (pos + j)) = Some c" using rdb_eq [OF Suc.prems(1), of "int (pos + j)" 0] c l by (simp del: of_nat_add)
  have w: "wrb h (Some (k, 0)) (int (pos + len + j)) c = Some ?h1" by (rule wrb_put [OF Suc.prems(1) l])
  have n: "?m1 ! x = m ! x" if "x < pos + len + j" for x using that l by (simp add: put_def nth_append)
  have t: "take j (drop pos ?m1) = take j (drop pos m)" using l n by (intro nth_equalityI) (simp_all add: put_def)
  have "shift_loop (Some (k, 0)) (int (pos + len + j) - 1) (int (pos + len)) (int len) ?h1 =
      Some (?h1\<lparr>bm_blk := (bm_blk ?h1)(k \<mapsto> put ?m1 (pos + len) (take j (drop pos ?m1)))\<rparr>)"
    by (rule Suc.IH) (use Suc.prems n l in auto)
  moreover have "put ?m1 (pos + len) (take j (drop pos ?m1)) = put m (pos + len) (take (Suc j) (drop pos m))"
  proof -
    have "take (Suc j) (drop pos m) = take j (drop pos m) @ [Some c]" using c l by (simp add: take_Suc_conv_app_nth)
    then show ?thesis unfolding t using l by (simp add: put_def take_append drop_take add.assoc min_def)
  qed
  ultimately show ?case using r w i by (subst shift_loop.simps) (simp only: i if_True Option.bind.simps bmem.simps fun_upd_upd fun_upd_same, simp)
qed

lemma insertch_tail:
  assumes "owns h i s k rest" "max (length s) pos + len \<le> length s + length rest" "m = map Some s @ Some 0 # rest"
    "l = int pos + int len" "d = int (length s) + int len"
  shows "do {
      bh \<leftarrow> hdr_of h (Some i);
      h \<leftarrow> if l > d then Some h else shift_loop (b_data bh) (d - 1) l (int len) h;
      h \<leftarrow> set_hdr h (Some i) (bh\<lparr>b_slen := if l > d then l else d\<rparr>);
      h \<leftarrow> fill_loop (b_data bh) (if l > d then b_slen bh else int pos) l fill h;
      wrb h (b_data bh) (if l > d then l else d) 0
    } = Some (terminated h i k (put (opened m (length s) pos fill len) pos (map Some (replicate len fill))) (insert_at pos (replicate len fill) fill s))"
proof -
  note O = ownsD [OF assms(1), folded assms(3)]
  let ?t = "replicate len fill"
  have lt: "max (length s) pos + length ?t < length m" using assms(2,3) by simp
  let ?m1 = "if length s < pos then m else opened m (length s) pos fill len"
  let ?m2 = "put (opened m (length s) pos fill len) pos (map Some ?t)"
  let ?u = "insert_at pos ?t fill s"
  note ins = insert_block [OF assms(3) lt, of fill, simplified]
  have ld: "(l > d) = (length s < pos)" using assms(4,5) by simp
  have n: "(if l > d then l else d) = int (length ?u)" using assms(4,5) by (simp add: length_insert_at max_def)
  have 1: "(if l > d then Some h else shift_loop (Some (k, 0)) (d - 1) l (int len) h) = Some (h\<lparr>bm_blk := (bm_blk h)(k \<mapsto> ?m1)\<rparr>)"
  proof (cases "length s < pos")
    case True
    then show ?thesis using ld O(2) by (auto intro!: bmem.equality)
  next
    case False
    have e: "l = int (pos + len)" "d = int (pos + len + (length s - pos))" using False assms(4,5) by simp_all
    have "shift_loop (Some (k, 0)) (int (pos + len + (length s - pos)) - 1) (int (pos + len)) (int len) h =
        Some (h\<lparr>bm_blk := (bm_blk h)(k \<mapsto> put m (pos + len) (take (length s - pos) (drop pos m)))\<rparr>)"
      by (rule shift_loop_ok [OF O(2)]) (use False lt in \<open>simp_all add: assms(3) nth_append\<close>)
    then show ?thesis using False ld e by (simp only: opened_def if_False)
  qed
  let ?y = "\<lparr>b_mlen = int (length s) + 1 + int (length rest), b_slen = int (length ?u), b_data = Some (k, 0)\<rparr>"
  let ?h2 = "h\<lparr>bm_blk := (bm_blk h)(k \<mapsto> ?m1), bm_hdr := (bm_hdr h)(i \<mapsto> ?y)\<rparr>"
  have 2: "set_hdr (h\<lparr>bm_blk := (bm_blk h)(k \<mapsto> ?m1)\<rparr>) (Some i) ?y = Some ?h2" using O(1) by (simp add: set_hdr_def)
  have b2: "bm_blk ?h2 k = Some ?m1" by simp
  have 3: "fill_loop (Some (k, 0)) (if l > d then int (length s) else int pos) l fill ?h2 = Some (?h2\<lparr>bm_blk := (bm_blk ?h2)(k \<mapsto> ?m2)\<rparr>)" (is "_ = Some ?h3")
  proof (cases "length s < pos")
    case True
    have l: "l = int (length s + (pos - length s + len))" using True assms(4) by simp
    have a: "length s + (pos - length s) = pos" using True by simp
    have "put m (length s) (replicate (pos - length s + len) (Some fill)) = ?m2"
      using put_put [of "length s" "replicate (pos - length s) (Some fill)" m "replicate len (Some fill)"] True lt
      by (simp only: opened_def replicate_add a if_True length_replicate map_replicate)
    moreover have "fill_loop (Some (k, 0)) (int (length s)) (int (length s + (pos - length s + len))) fill ?h2 =
        Some (?h2\<lparr>bm_blk := (bm_blk ?h2)(k \<mapsto> put ?m1 (length s) (replicate (pos - length s + len) (Some fill)))\<rparr>)"
      by (rule fill_loop_ok [OF b2]) (use True lt in simp)
    ultimately show ?thesis using True ld l by (simp only: if_True)
  next
    case False
    have l: "l = int (pos + len)" using assms(4) by simp
    have "fill_loop (Some (k, 0)) (int pos) (int (pos + len)) fill ?h2 = Some (?h2\<lparr>bm_blk := (bm_blk ?h2)(k \<mapsto> put ?m1 pos (replicate len (Some fill)))\<rparr>)"
      by (rule fill_loop_ok [OF b2]) (use False lt ins(3) in \<open>simp add: max_def split: if_splits\<close>)
    then show ?thesis using False ld l by (simp only: if_False map_replicate)
  qed
  have lu: "length ?u < length ?m2" "length ?u = max (length s) pos + len" using ins(2) lt by (simp_all add: length_insert_at)
  have "wrb ?h3 (Some (k, 0)) (int (length ?u)) 0 = Some (terminated ?h3 i k ?m2 ?u)"
    by (rule terminated_wrb) (use ins lu assms(3) in simp_all)
  moreover have "terminated ?h3 i k ?m2 ?u = terminated h i k ?m2 ?u" by (simp add: terminated_def hdr_blk_commute)
  ultimately have 4: "wrb ?h3 (Some (k, 0)) (int (length ?u)) 0 = Some (terminated h i k ?m2 ?u)" by simp
  show ?thesis unfolding n hdr_of_Some O(1) Option.bind.simps bhdr.simps 1 2 3 4 ..
qed

lemma binsertch_ok:
  assumes "heap_ok h" "owns h i s k rest" "int (max (length s) pos) + int len < INT_MAX" "8 * (int (length s) + 1 + int (length rest)) \<le> INT_MAX"
  shows "\<exists>r h'. binsertch (Some i) (int pos) (int len) fill h = Some (r, h') \<and> outcome h r h' i s k rest (insert_at pos (replicate len fill) fill s)"
proof -
  let ?l = "int pos + int len" and ?d = "int (length s) + int len"
  let ?n = "if ?l > ?d then ?l else ?d"
  let ?t = "replicate len fill"
  note O = ownsD [OF assms(2)]
  let ?cont = "\<lambda>(r, h). if r \<noteq> BSTR_OK then Some (BSTR_ERR, h)
      else do {
        bh \<leftarrow> hdr_of h (Some i);
        h \<leftarrow> if ?l > ?d then Some h else shift_loop (b_data bh) (?d - 1) ?l (int len) h;
        h \<leftarrow> set_hdr h (Some i) (bh\<lparr>b_slen := ?n\<rparr>);
        h \<leftarrow> fill_loop (b_data bh) (if ?l > ?d then b_slen bh else int pos) ?l fill h;
        h \<leftarrow> wrb h (b_data bh) ?n 0;
        Some (BSTR_OK, h)
      }"
  have m: "?n = int (max (length s) pos + length ?t)" by (simp add: max_def)
  have c: "cint ?l = Some ?l" "cint ?d = Some ?d" "cint (?n + 1) = Some (?n + 1)"
    using assms(3) by (auto simp: cint_def INT_MIN_def max_def split: if_splits)
  have "\<not> (?d OR ?l) < 0" by (simp add: or_negative_int_iff)
  then have run: "binsertch (Some i) (int pos) (int len) fill h = Option.bind (balloc (Some i) (?n + 1) h) ?cont"
    using c O(1) by (simp add: binsertch_def Let_def cong: if_cong split del: if_split)
  have n: "0 < ?n + 1" "?n + 1 \<le> INT_MAX" using assms(3) m by (simp_all del: of_nat_add)
  show ?thesis
  proof (cases rule: balloc_room [OF assms(1,2) n assms(4), case_names ok fail])
    case (ok h1 k' rest')
    have l: "max (length s) pos + length ?t \<le> length s + length rest'" using ok(4) unfolding m by linarith
    let ?h2 = "terminated h1 i k' (put (opened (map Some s @ Some 0 # rest') (length s) pos fill (length ?t)) pos (map Some ?t)) (insert_at pos ?t fill s)"
    have "?cont (BSTR_OK, h1) = Option.bind (Some ?h2) (\<lambda>h. Some (BSTR_OK, h))"
      unfolding insertch_tail [OF ok(2) l [unfolded length_replicate] refl refl refl, of fill, symmetric] length_replicate
      by (simp cong: if_cong split del: if_split)
    then have "binsertch (Some i) (int pos) (int len) fill h = Some (BSTR_OK, ?h2)" using run ok(1) by simp
    then show ?thesis using opened_outcome [OF ok(2,3) l, of rest fill] ok(5) unfolding m by blast
  next
    case (fail al)
    then show ?thesis using run owned_failed [OF assms(2,1)] by auto
  qed
qed

section \<open>Overwriting\<close>

text \<open>\<open>bsetstr\<close> writes over the characters from \<open>pos\<close> on.\<close>

definition overlay :: "nat \<Rightarrow> bytes \<Rightarrow> u8 \<Rightarrow> bytes \<Rightarrow> bytes" where
  "overlay pos t fill s = (if pos \<le> length s then take pos s @ t @ drop (pos + length t) s else s @ replicate (pos - length s) fill @ t)"

lemma length_overlay: "length (overlay pos t fill s) = max (length s) (pos + length t)"
  by (auto simp: overlay_def)

definition padded :: "cell list \<Rightarrow> nat \<Rightarrow> nat \<Rightarrow> u8 \<Rightarrow> cell list" where
  "padded m n pos fill = (if n < pos then put m n (replicate (pos - n) (Some fill)) else m)"

lemma overlay_block:
  assumes "m = map Some s @ Some 0 # rest" "max (length s) (pos + length t) < length m"
  shows "take (max (length s) (pos + length t)) (put (padded m (length s) pos fill) pos (map Some t)) = map Some (overlay pos t fill s)"
    "length (put (padded m (length s) pos fill) pos (map Some t)) = length m" "length (padded m (length s) pos fill) = length m"
proof -
  have l: "length (padded m (length s) pos fill) = length m"
    using assms(2) by (auto simp: padded_def max_def split: if_splits)
  then show "length (padded m (length s) pos fill) = length m" "length (put (padded m (length s) pos fill) pos (map Some t)) = length m"
    using assms(2) by simp_all
  show "take (max (length s) (pos + length t)) (put (padded m (length s) pos fill) pos (map Some t)) = map Some (overlay pos t fill s)"
  proof (cases "length s < pos")
    case True
    then have "take pos (padded m (length s) pos fill) = map Some s @ replicate (pos - length s) (Some fill)"
      using assms by (simp add: padded_def put_def)
    then show ?thesis using True assms(2) by (simp add: put_def overlay_def)
  next
    case False
    then show ?thesis using assms(1) by (cases "length s \<le> pos + length t") (simp_all add: padded_def put_def overlay_def take_map drop_map max_def)
  qed
qed


text \<open>The source of \<open>bsetstr\<close>: no string, or one in another block.\<close>

definition set_src :: "bmem \<Rightarrow> nat \<Rightarrow> bstring \<Rightarrow> bytes \<Rightarrow> bool" where
  "set_src h k b t \<longleftrightarrow> b = None \<and> t = [] \<or>
     (\<exists>j n kp po. b = Some j \<and> bm_hdr h j = Some \<lparr>b_mlen = n, b_slen = int (length t), b_data = Some (kp, po)\<rparr> \<and>
        kp \<noteq> k \<and> src_ok h (Some (kp, po)) 0 t)"

lemma put_Nil [simp]: "d \<le> length m \<Longrightarrow> put m d [] = m"
  by (simp add: put_def)

lemma setstr_tail:
  assumes "owns h i s k rest" "max (length s) (pos + length t) \<le> length s + length rest" "m = map Some s @ Some 0 # rest"
    "set_src h k b t" "d = int pos + int (length t)"
  shows "do {
      h0 \<leftarrow> hdr_of h (Some i);
      h \<leftarrow> if int pos > b_slen h0 then bm_memset h (b_data h0) (b_slen h0) fill (int pos - b_slen h0) else Some h;
      h \<leftarrow> if b \<noteq> None then do {
          ha \<leftarrow> hdr_of h b;
          h \<leftarrow> bBlockCopy h (b_data h0) (int pos) (b_data ha) 0 (b_slen ha);
          drop_aux b b h
        } else Some h;
      h \<leftarrow> set_hdr h (Some i) (h0\<lparr>b_slen := if d > (if int pos > b_slen h0 then int pos else b_slen h0) then d else (if int pos > b_slen h0 then int pos else b_slen h0)\<rparr>);
      wrb h (b_data h0) (if d > (if int pos > b_slen h0 then int pos else b_slen h0) then d else (if int pos > b_slen h0 then int pos else b_slen h0)) 0
    } = Some (terminated h i k (put (padded m (length s) pos fill) pos (map Some t)) (overlay pos t fill s))"
proof -
  note O = ownsD [OF assms(1), folded assms(3)]
  have lt: "max (length s) (pos + length t) < length m" using assms(2,3) by simp
  let ?m1 = "padded m (length s) pos fill"
  let ?m2 = "put ?m1 pos (map Some t)"
  let ?u = "overlay pos t fill s"
  note ins = overlay_block [OF assms(3) lt, of fill]
  have n: "(if d > (if int pos > int (length s) then int pos else int (length s)) then d else (if int pos > int (length s) then int pos else int (length s))) =
      int (length ?u)" using assms(5) by (simp add: length_overlay max_def)
  have 1: "(if int pos > int (length s) then bm_memset h (Some (k, 0)) (int (length s)) fill (int pos - int (length s)) else Some h) =
      Some (h\<lparr>bm_blk := (bm_blk h)(k \<mapsto> ?m1)\<rparr>)"
  proof (cases "length s < pos")
    case True
    have p: "int pos - int (length s) = int (pos - length s)" "int pos > int (length s)" using True by simp_all
    have len: "length s + length (replicate (pos - length s) (Some fill)) \<le> length m" using True lt by simp
    have "bm_memset h (Some (k, 0)) (int (length s)) fill (int (pos - length s)) = wrn h (Some (k, 0)) (int (length s)) (replicate (pos - length s) (Some fill))"
      by (simp add: bm_memset_def)
    also have "\<dots> = Some (h\<lparr>bm_blk := (bm_blk h)(k \<mapsto> put m (length s) (replicate (pos - length s) (Some fill)))\<rparr>)"
      by (rule wrn_put [OF O(2) len])
    also have "put m (length s) (replicate (pos - length s) (Some fill)) = ?m1" using True by (simp only: padded_def if_True)
    finally show ?thesis unfolding p(1) by (simp only: p(2) if_True)
  next
    case False
    then show ?thesis using O(2) by (auto simp: padded_def intro!: bmem.equality)
  qed
  let ?h1 = "h\<lparr>bm_blk := (bm_blk h)(k \<mapsto> ?m1)\<rparr>"
  let ?h2 = "h\<lparr>bm_blk := (bm_blk h)(k \<mapsto> ?m2)\<rparr>"
  have 2: "(if b \<noteq> None then do {
          ha \<leftarrow> hdr_of ?h1 b;
          h \<leftarrow> bBlockCopy ?h1 (Some (k, 0)) (int pos) (b_data ha) 0 (b_slen ha);
          drop_aux b b h
        } else Some ?h1) = Some ?h2"
    using assms(4) unfolding set_src_def
  proof (elim disjE conjE exE)
    assume "b = None" "t = []"
    then show ?thesis using ins(3) lt by simp
  next
    fix j n kp po
    assume j: "b = Some j" "bm_hdr h j = Some \<lparr>b_mlen = n, b_slen = int (length t), b_data = Some (kp, po)\<rparr>" "kp \<noteq> k" "src_ok h (Some (kp, po)) 0 t"
    have "src_ok ?h1 (Some (kp, po)) 0 t" using j(3,4) by (simp add: src_ok_def rdn_def)
    from copy_put [OF _ _ this, of k ?m1 pos] ins(3) lt
    have "bBlockCopy ?h1 (Some (k, 0)) (int pos) (Some (kp, po)) 0 (int (length t)) = Some ?h2" by simp
    then show ?thesis using j(1,2) by (simp add: drop_aux_def)
  qed
  let ?y = "\<lparr>b_mlen = int (length s) + 1 + int (length rest), b_slen = int (length ?u), b_data = Some (k, 0)\<rparr>"
  let ?h3 = "?h2\<lparr>bm_hdr := (bm_hdr h)(i \<mapsto> ?y)\<rparr>"
  have 3: "set_hdr ?h2 (Some i) ?y = Some ?h3" using O(1) by (simp add: set_hdr_def)
  have lu: "length ?u < length ?m2" "length ?u = max (length s) (pos + length t)" using ins(2) lt by (simp_all add: length_overlay)
  have "wrb ?h3 (Some (k, 0)) (int (length ?u)) 0 = Some (terminated ?h3 i k ?m2 ?u)"
    by (rule terminated_wrb) (use ins lu assms(3) in simp_all)
  moreover have "terminated ?h3 i k ?m2 ?u = terminated h i k ?m2 ?u" by (simp add: terminated_def hdr_blk_commute)
  ultimately have 4: "wrb ?h3 (Some (k, 0)) (int (length ?u)) 0 = Some (terminated h i k ?m2 ?u)" by simp
  show ?thesis unfolding hdr_of_Some O(1) Option.bind.simps bhdr.simps n 1 2 3 4 ..
qed

lemma overlaid_outcome:
  assumes "owns h1 i s k' rest'" "framed h h1 i k k'" "max (length s) (pos + length t) \<le> length s + length rest'"
    "int (length s) + 1 + int (length rest') \<le> max (int (length s) + 1 + int (length rest)) (snapUpSize (int (pos + length t) + 1))"
    "int (max (length s) (pos + length t)) < INT_MAX"
  shows "outcome h BSTR_OK (terminated h1 i k' (put (padded (map Some s @ Some 0 # rest') (length s) pos fill) pos (map Some t)) (overlay pos t fill s))
    i s k rest (overlay pos t fill s)"
proof (rule terminated_outcome [OF assms(1,2)])
  have lt: "max (length s) (pos + length t) < length (map Some s @ Some 0 # rest')" using assms(3) by simp
  note l = overlay_block(2) [OF refl lt, of fill]
  show "length (put (padded (map Some s @ Some 0 # rest') (length s) pos fill) pos (map Some t)) = length s + 1 + length rest'" using l by simp
  show "length (overlay pos t fill s) < length (put (padded (map Some s @ Some 0 # rest') (length s) pos fill) pos (map Some t))"
    using l lt by (simp add: length_overlay)
  have e: "int (length (put (padded (map Some s @ Some 0 # rest') (length s) pos fill) pos (map Some t))) = int (length s) + 1 + int (length rest')"
    unfolding l by simp
  have g: "snapUpSize (int (pos + length t) + 1) \<le> snapUpSize (int (length (overlay pos t fill s)) + 1)"
    by (rule snapUpSize_mono) (use assms(5) in \<open>simp_all add: length_overlay\<close>)
  show "int (length (put (padded (map Some s @ Some 0 # rest') (length s) pos fill) pos (map Some t))) \<le>
      max (int (length s) + 1 + int (length rest)) (snapUpSize (int (length (overlay pos t fill s)) + 1))"
    unfolding e using assms(4) g by linarith
qed

lemma set_src_framed:
  assumes "heap_ok h" "framed h h' i k k'" "b \<noteq> Some i" "set_src h k b t" "\<forall>j x kp po. b = Some j \<longrightarrow> bm_hdr h j = Some x \<longrightarrow> b_data x = Some (kp, po) \<longrightarrow> kp < bm_next h"
  shows "set_src h' k' b t"
  using assms(4) unfolding set_src_def
proof (elim disjE conjE exE)
  fix j n kp po
  assume j: "b = Some j" "bm_hdr h j = Some \<lparr>b_mlen = n, b_slen = int (length t), b_data = Some (kp, po)\<rparr>" "kp \<noteq> k" "src_ok h (Some (kp, po)) 0 t"
  have "src_ok h' (Some (kp, po)) 0 t" by (rule foreign_src [OF assms(1,2) j(4,3)])
  moreover have "bm_hdr h' j = bm_hdr h j" using assms(2,3) j(1) by (simp add: framed_def)
  moreover have "kp \<noteq> k'" using framed_blk [OF assms(1,2) j(3)] assms(5) j(1,2) by simp
  ultimately show "b = None \<and> t = [] \<or> (\<exists>j n kp po. b = Some j \<and> bm_hdr h' j = Some \<lparr>b_mlen = n, b_slen = int (length t), b_data = Some (kp, po)\<rparr> \<and>
        kp \<noteq> k' \<and> src_ok h' (Some (kp, po)) 0 t)" using j(1,2) by auto
qed simp

text \<open>The argument of \<open>bsetstr\<close> is absent, or a readable string in another block.\<close>

definition set_arg :: "bmem \<Rightarrow> nat \<Rightarrow> nat \<Rightarrow> bstring \<Rightarrow> bytes \<Rightarrow> bool" where
  "set_arg h i k b t \<longleftrightarrow> (case b of None \<Rightarrow> t = [] | Some j \<Rightarrow> foreign_str h i k j t)"

lemma set_arg_src:
  assumes "heap_ok h" "set_arg h i k b t"
  shows "set_src h k b t" "b \<noteq> Some i" "\<forall>j x kp po. b = Some j \<longrightarrow> bm_hdr h j = Some x \<longrightarrow> b_data x = Some (kp, po) \<longrightarrow> kp < bm_next h"
proof -
  have "set_src h k b t \<and> b \<noteq> Some i \<and> (\<forall>j x kp po. b = Some j \<longrightarrow> bm_hdr h j = Some x \<longrightarrow> b_data x = Some (kp, po) \<longrightarrow> kp < bm_next h)"
  proof (cases b)
    case None
    then show ?thesis using assms(2) by (simp add: set_arg_def set_src_def)
  next
    case (Some j)
    have v: "foreign_str h i k j t" using assms(2) Some by (simp add: set_arg_def)
    then have r: "reads h j t" "j \<noteq> i" by (simp_all add: foreign_str_def)
    obtain n kp po m where R: "bm_hdr h j = Some \<lparr>b_mlen = n, b_slen = int (length t), b_data = Some (kp, po)\<rparr>" "bm_blk h kp = Some m"
      using readsE [OF r(1)] by metis
    have "kp \<noteq> k" using v R(1) by (simp add: foreign_str_def)
    moreover have "src_ok h (Some (kp, po)) 0 t" using reads_src [OF r(1) R(1)] by simp
    ultimately show ?thesis using Some R(1) r(2) heap_okD(1) [OF assms(1) R(2)] by (auto simp: set_src_def)
  qed
  then show "set_src h k b t" "b \<noteq> Some i" "\<forall>j x kp po. b = Some j \<longrightarrow> bm_hdr h j = Some x \<longrightarrow> b_data x = Some (kp, po) \<longrightarrow> kp < bm_next h" by blast+
qed

lemma bsetstr_steps:
  assumes "heap_ok h" "owns h i s k rest" "set_arg h i k b t" "int pos + int (length t) < INT_MAX"
  shows "balloc (Some i) (int pos + int (length t) + 1) h = Some (BSTR_OK, h1) \<Longrightarrow> owns h1 i s k' rest' \<Longrightarrow> framed h h1 i k k' \<Longrightarrow>
      max (length s) (pos + length t) \<le> length s + length rest' \<Longrightarrow>
      bsetstr (Some i) (int pos) b fill h = Some (BSTR_OK,
        terminated h1 i k' (put (padded (map Some s @ Some 0 # rest') (length s) pos fill) pos (map Some t)) (overlay pos t fill s))"
    and "balloc (Some i) (int pos + int (length t) + 1) h = Some (BSTR_ERR, h1) \<Longrightarrow> bsetstr (Some i) (int pos) b fill h = Some (BSTR_ERR, h1)"
proof -
  let ?d = "int pos + int (length t)"
  note O = ownsD [OF assms(2)]
  note A = set_arg_src [OF assms(1,3)]
  let ?cont = "\<lambda>(r, h). if r \<noteq> BSTR_OK then do {
        h \<leftarrow> drop_aux b b h;
        Some (BSTR_ERR, h)
      } else do {
        h0 \<leftarrow> hdr_of h (Some i);
        h \<leftarrow> if int pos > b_slen h0 then bm_memset h (b_data h0) (b_slen h0) fill (int pos - b_slen h0) else Some h;
        h \<leftarrow> if b \<noteq> None then do {
            ha \<leftarrow> hdr_of h b;
            h \<leftarrow> bBlockCopy h (b_data h0) (int pos) (b_data ha) 0 (b_slen ha);
            drop_aux b b h
          } else Some h;
        h \<leftarrow> set_hdr h (Some i) (h0\<lparr>b_slen := if ?d > (if int pos > b_slen h0 then int pos else b_slen h0) then ?d else (if int pos > b_slen h0 then int pos else b_slen h0)\<rparr>);
        h \<leftarrow> wrb h (b_data h0) (if ?d > (if int pos > b_slen h0 then int pos else b_slen h0) then ?d else (if int pos > b_slen h0 then int pos else b_slen h0)) 0;
        Some (BSTR_OK, h)
      }"
  have c: "cint ?d = Some ?d" "cint (?d + 1) = Some (?d + 1)"
    using assms(4) by (auto simp: cint_def INT_MIN_def)
  have run: "bsetstr (Some i) (int pos) b fill h = Option.bind (balloc (Some i) (?d + 1) h) ?cont"
    using A(1) unfolding set_src_def
  proof (elim disjE conjE exE)
    assume "b = None" "t = []"
    then show ?thesis using c O(1) by (simp add: bsetstr_def Let_def not_bad_owned cong: if_cong split del: if_split)
  next
    fix j n kp po
    assume j: "b = Some j" "bm_hdr h j = Some \<lparr>b_mlen = n, b_slen = int (length t), b_data = Some (kp, po)\<rparr>" "kp \<noteq> k"
    then have "\<not> ptr_within (Some (kp, po)) (Some (k, 0)) x" for x by (simp add: ptr_within_def)
    then show ?thesis using j c O(1) by (simp add: bsetstr_def Let_def not_bad_owned cong: if_cong split del: if_split)
  qed
  show "bsetstr (Some i) (int pos) b fill h = Some (BSTR_OK,
        terminated h1 i k' (put (padded (map Some s @ Some 0 # rest') (length s) pos fill) pos (map Some t)) (overlay pos t fill s))"
    if b: "balloc (Some i) (?d + 1) h = Some (BSTR_OK, h1)" and o: "owns h1 i s k' rest'" and f: "framed h h1 i k k'"
      and l: "max (length s) (pos + length t) \<le> length s + length rest'"
  proof -
    let ?h2 = "terminated h1 i k' (put (padded (map Some s @ Some 0 # rest') (length s) pos fill) pos (map Some t)) (overlay pos t fill s)"
    have "?cont (BSTR_OK, h1) = Option.bind (Some ?h2) (\<lambda>h. Some (BSTR_OK, h))"
      unfolding setstr_tail [OF o l refl set_src_framed [OF assms(1) f A(2,1,3)] refl, of fill, symmetric]
      by (simp cong: if_cong split del: if_split)
    then show ?thesis using run b by simp
  qed
  show "bsetstr (Some i) (int pos) b fill h = Some (BSTR_ERR, h1)" if "balloc (Some i) (?d + 1) h = Some (BSTR_ERR, h1)"
    using run that by (simp add: drop_aux_def)
qed

lemma bsetstr_ok:
  assumes "heap_ok h" "owns h i s k rest" "set_arg h i k b t" "int pos + int (length t) < INT_MAX" "8 * (int (length s) + 1 + int (length rest)) \<le> INT_MAX"
  shows "\<exists>r h'. bsetstr (Some i) (int pos) b fill h = Some (r, h') \<and> outcome h r h' i s k rest (overlay pos t fill s)"
proof -
  note S = bsetstr_steps [OF assms(1-4)]
  let ?d = "int pos + int (length t)"
  have n: "0 < ?d + 1" "?d + 1 \<le> INT_MAX" using assms(4) by simp_all
  show ?thesis
  proof (cases rule: balloc_room [OF assms(1,2) n assms(5), case_names ok fail])
    case (ok h1 k' rest')
    have l: "max (length s) (pos + length t) \<le> length s + length rest'" using ok(4) by linarith
    have b: "int (max (length s) (pos + length t)) < INT_MAX" using assms(4,5) by (simp add: INT_MAX_def)
    show ?thesis using S(1) [OF ok(1,2,3) l, of fill] overlaid_outcome [OF ok(2,3) l _ b, of rest fill] ok(5) by auto
  next
    case (fail al)
    show ?thesis using S(2) [OF fail(1), of fill] owned_failed [OF assms(2,1) fail(2)] by blast
  qed
qed

lemma bsetstr_inside:
  assumes "heap_ok h" "owns h i s k rest" "set_arg h i k b t" "pos + length t < length s" "8 * (int (length s) + 1 + int (length rest)) \<le> INT_MAX"
  shows "\<exists>h' rest'. bsetstr (Some i) (int pos) b fill h = Some (BSTR_OK, h') \<and> owns h' i (overlay pos t fill s) k rest' \<and> framed h h' i k k \<and>
    length rest' = length rest"
proof -
  let ?m = "put (padded (map Some s @ Some 0 # rest) (length s) pos fill) pos (map Some t)"
  have l: "max (length s) (pos + length t) \<le> length s + length rest" "int pos + int (length t) < INT_MAX" using assms(4,5) by (simp_all add: INT_MAX_def)
  have "balloc (Some i) (int pos + int (length t) + 1) h = Some (BSTR_OK, h)"
    using ownsD(1) [OF assms(2)] assms(4) by (simp add: balloc_def not_bad_owned)
  note S = bsetstr_steps(1) [OF assms(1-3) l(2) this assms(2) framed_refl [OF assms(1)] l(1), of fill]
  have "length ?m = length s + 1 + length rest"
    using overlay_block(2) [of _ s rest pos t fill, OF refl] l(1) by simp
  moreover have "length (overlay pos t fill s) = length s" using assms(4) by (simp add: length_overlay)
  ultimately have "owns (terminated h i k ?m (overlay pos t fill s)) i (overlay pos t fill s) k (drop (Suc (length s)) ?m)"
    "length (drop (Suc (length s)) ?m) = length rest"
    using terminated_owns [of "overlay pos t fill s" ?m h i k] by simp_all
  then show ?thesis using S terminated_framed [OF assms(2,1), of ?m "overlay pos t fill s"] by blast
qed

end
