(* ===== verification/BstrRange.thy ===== *)
theory BstrRange
  imports BstrChange
begin

text \<open>
  Replacement of a range and repetition: \<open>breplace\<close>, when it is right and when it writes behind the block, and
  \<open>bpattern\<close>.
\<close>

section \<open>Replacement of a range\<close>

definition replaced :: "nat \<Rightarrow> nat \<Rightarrow> bytes \<Rightarrow> u8 \<Rightarrow> bytes \<Rightarrow> bytes" where
  "replaced pos len t fill s = take pos s @ replicate (pos - length s) fill @ t @ drop (pos + len) s"

lemma replaced_overlay: "length s \<le> pos + len \<Longrightarrow> replaced pos len t fill s = take (pos + length t) (overlay pos t fill s)"
  by (cases "pos \<le> length s") (simp_all add: replaced_def overlay_def)

text \<open>Room for the terminator as well: \<open>balloc\<close> rounds up when it gets the larger block.\<close>

lemma balloc_snug:
  assumes "heap_ok h" "owns h i s k rest" "0 < n" "n < 2 ^ 30" "8 * (int (length s) + 1 + int (length rest)) \<le> INT_MAX" "bm_alloc h = []"
  obtains h' k' rest' where "balloc (Some i) n h = Some (BSTR_OK, h')" "owns h' i s k' rest'" "framed h h' i k k'"
    "n < int (length s) + 1 + int (length rest')" "int (length s) + 1 + int (length rest') \<le> max (int (length s) + 1 + int (length rest)) (snapUpSize n)"
proof -
  have m: "n \<le> INT_MAX" using assms(4) by (simp add: INT_MAX_def)
  obtain h' where B: "balloc (Some i) n h = Some (BSTR_OK, h')" "ready h h' i s k n"
    using balloc_ok [OF assms(1-3) m assms(5)] assms(6) by auto
  obtain k' rest' where R: "owns h' i s k' rest'" "framed h h' i k k'" "n < int (length s) + 1 + int (length rest')"
    using B(2) assms(4,6) unfolding ready_def by blast
  obtain k2 rest2 where R2: "owns h' i s k2 rest2" "int (length s) + 1 + int (length rest2) \<le> max (int (length s) + 1 + int (length rest)) (snapUpSize n)"
    using ready_bound [OF assms(2) B(2)] by blast
  have "int (length rest2) = int (length rest')" using ownsD(1) [OF R(1)] ownsD(1) [OF R2(1)] by simp
  then show thesis using that [OF B(1) R] R2(2) by simp
qed

lemma replace_block:
  assumes "m = map Some s @ Some 0 # rest" "pos + len < length s" "length s - len + length t < length m"
    "m1 = take (pos + length t) m @ take (length s - (pos + len)) (drop (pos + len) m) @ drop (length s - len + length t) m"
  shows "take (length s - len + length t) (put m1 pos (map Some t)) = map Some (replaced pos len t fill s)"
    "length (put m1 pos (map Some t)) = length m" "length m1 = length m" "length (replaced pos len t fill s) = length s - len + length t"
proof -
  have n: "length s - len + length t = pos + length t + (length s - (pos + len))" using assms(2) by simp
  show l1: "length m1 = length m" unfolding assms(4) using assms(1,2,3) n by simp
  then show l: "length (put m1 pos (map Some t)) = length m" using assms(2,3) by simp
  show "length (replaced pos len t fill s) = length s - len + length t" using assms(2) by (simp add: replaced_def)
  have a: "take pos m1 = map Some (take pos s)" using assms(1,2,4) by (simp add: take_map)
  have "take (length s - (pos + len)) (drop (pos + length t) m1) = map Some (drop (pos + len) s)"
    using assms(1-4) by (simp add: drop_map)
  then show "take (length s - len + length t) (put m1 pos (map Some t)) = map Some (replaced pos len t fill s)"
    unfolding n using a assms(2) l1 assms(3) by (simp add: put_def replaced_def add.commute [of len pos])
qed

text \<open>The bytes that \<open>breplace\<close> moves, and the write of the new ones.\<close>

lemma replace_tail:
  assumes "owns h i s k rest" "pos + len < length s" "length s - len + length t \<le> length s + length rest" "m = map Some s @ Some 0 # rest"
    "bm_hdr h j = Some \<lparr>b_mlen = n, b_slen = int (length t), b_data = Some (kp, po)\<rparr>" "kp \<noteq> k"
    "rdn h (Some (kp, po)) 0 (int (length t)) = Some (map Some t)"
    "m1 = take (pos + length t) m @ take (length s - (pos + len)) (drop (pos + len) m) @ drop (length s - len + length t) m"
  shows "do {
      h1 \<leftarrow> hdr_of h (Some i);
      ha \<leftarrow> hdr_of h (Some j);
      h \<leftarrow> if b_slen ha \<noteq> int len then
          memmove h (b_data h1) (int pos + b_slen ha) (b_data h1) (int pos + int len) (b_slen h1 - (int pos + int len))
        else Some h;
      h \<leftarrow> memcpy h (b_data h1) (int pos) (b_data ha) 0 (b_slen ha);
      h \<leftarrow> set_hdr h (Some i) (h1\<lparr>b_slen := b_slen h1 + (b_slen ha - int len)\<rparr>);
      wrb h (b_data h1) (b_slen h1 + (b_slen ha - int len)) 0
    } = Some (terminated h i k (put m1 pos (map Some t)) (replaced pos len t fill s))"
proof -
  note O = ownsD [OF assms(1), folded assms(4)]
  let ?u = "replaced pos len t fill s"
  let ?h1 = "h\<lparr>bm_blk := (bm_blk h)(k \<mapsto> m1)\<rparr>"
  let ?m2 = "put m1 pos (map Some t)"
  let ?h2 = "h\<lparr>bm_blk := (bm_blk h)(k \<mapsto> ?m2)\<rparr>"
  have lt: "length s - len + length t < length m" using assms(3,4) by simp
  note R = replace_block [OF assms(4,2) lt assms(8)]
  have e: "int pos + int (length t) = int (pos + length t)" "int pos + int len = int (pos + len)"
    "int (length s) - int (pos + len) = int (length s - (pos + len))" "0 < length s - (pos + len)"
    using assms(2) by simp_all
  have n: "int (length s) + (int (length t) - int len) = int (length ?u)" using R(4) assms(2) by (simp add: of_nat_diff)
  have lt2: "pos + length t + (length s - (pos + len)) = length s - len + length t" using assms(2) by simp
  have 1: "(if int (length t) \<noteq> int len then memmove h (Some (k, 0)) (int pos + int (length t)) (Some (k, 0)) (int pos + int len) (int (length s) - (int pos + int len)) else Some h) = Some ?h1"
  proof (cases "length t = len")
    case True
    have p: "length s - len + length t = pos + len + (length s - (pos + len))" "pos + length t = pos + len" using True assms(2) by simp_all
    have "m1 = m" unfolding assms(8) p
      using append_take_drop_id [of "pos + len" m] append_take_drop_id [of "length s - (pos + len)" "drop (pos + len) m"] by (simp add: add.commute)
    then show ?thesis using True O(2) by (auto intro!: bmem.equality)
  next
    case False
    have "bBlockCopy h (Some (k, 0)) (int (pos + length t)) (Some (k, 0)) (int (pos + len)) (int (length s - (pos + len))) = Some ?h1"
      using move_within [OF O(2), of "pos + len" "length s - (pos + len)" "pos + length t"] lt lt2 assms(2,4) unfolding assms(8) by simp
    then have "memmove h (Some (k, 0)) (int (pos + length t)) (Some (k, 0)) (int (pos + len)) (int (length s - (pos + len))) = Some ?h1"
      using e(4) by (simp only: bBlockCopy_def of_nat_0_less_iff if_True)
    then show ?thesis using False unfolding e by (simp only: of_nat_eq_iff if_True not_False_eq_True)
  qed
  have 2: "memcpy ?h1 (Some (k, 0)) (int pos) (Some (kp, po)) 0 (int (length t)) = Some ?h2"
  proof -
    have "rdn ?h1 (Some (kp, po)) 0 (int (length t)) = Some (map Some t)" using assms(6,7) by (simp add: rdn_def)
    moreover have "wrn ?h1 (Some (k, 0)) (int pos) (map Some t) = Some ?h2"
      using wrn_put [of ?h1 k m1 pos "map Some t"] R(3) lt assms(2) by simp
    ultimately show ?thesis using assms(6) by (simp add: memcpy_def overlap_def memmove_def)
  qed
  let ?y = "\<lparr>b_mlen = int (length s) + 1 + int (length rest), b_slen = int (length ?u), b_data = Some (k, 0)\<rparr>"
  let ?h3 = "?h2\<lparr>bm_hdr := (bm_hdr h)(i \<mapsto> ?y)\<rparr>"
  have 3: "set_hdr ?h2 (Some i) ?y = Some ?h3" using O(1) by (simp add: set_hdr_def)
  have "wrb ?h3 (Some (k, 0)) (int (length ?u)) 0 = Some (terminated ?h3 i k ?m2 ?u)"
    by (rule terminated_wrb) (use R lt assms(4) in simp_all)
  moreover have "terminated ?h3 i k ?m2 ?u = terminated h i k ?m2 ?u" by (simp add: terminated_def hdr_blk_commute)
  ultimately have 4: "wrb ?h3 (Some (k, 0)) (int (length ?u)) 0 = Some (terminated h i k ?m2 ?u)" by simp
  show ?thesis unfolding hdr_of_Some O(1) assms(5) Option.bind.simps bhdr.simps 1 2 n 3 4 ..
qed

lemma replaced_outcome:
  assumes "owns h1 i s k' rest'" "framed h h1 i k k'" "pos + len < length s" "length s - len + length t \<le> length s + length rest'"
    "int (length s) + 1 + int (length rest') \<le> max (int (length s) + 1 + int (length rest)) (snapUpSize (int (length s - len + length t) + 1))"
    "m = map Some s @ Some 0 # rest'"
    "m1 = take (pos + length t) m @ take (length s - (pos + len)) (drop (pos + len) m) @ drop (length s - len + length t) m"
  shows "outcome h BSTR_OK (terminated h1 i k' (put m1 pos (map Some t)) (replaced pos len t fill s)) i s k rest (replaced pos len t fill s)"
proof (rule terminated_outcome [OF assms(1,2)])
  have lt: "length s - len + length t < length m" using assms(4,6) by simp
  note R = replace_block(2) [OF assms(6,3) lt assms(7)] replace_block(4) [OF assms(6,3) lt assms(7), of fill]
  show "length (put m1 pos (map Some t)) = length s + 1 + length rest'" unfolding R assms(6) by simp
  show "length (replaced pos len t fill s) < length (put m1 pos (map Some t))" unfolding R by (rule lt)
  have e: "int (length m) = int (length s) + 1 + int (length rest')" unfolding assms(6) by simp
  show "int (length (put m1 pos (map Some t))) \<le> max (int (length s) + 1 + int (length rest)) (snapUpSize (int (length (replaced pos len t fill s)) + 1))"
    unfolding R e by (rule assms(5))
qed

lemma breplace_end:
  assumes "heap_ok h" "owns h i s k rest" "set_arg h i k (Some j) t" "length s \<le> pos + len" "int pos + int len \<le> INT_MAX"
    "int pos + int (length t) < INT_MAX" "8 * (int (length s) + 1 + int (length rest)) \<le> INT_MAX"
  shows "\<exists>r h'. breplace (Some i) (int pos) (int len) (Some j) fill h = Some (r, h') \<and> outcome h r h' i s k rest (replaced pos len t fill s)"
proof -
  note O = ownsD [OF assms(2)]
  note A = set_arg_src [OF assms(1,3)]
  obtain n kp po where J: "bm_hdr h j = Some \<lparr>b_mlen = n, b_slen = int (length t), b_data = Some (kp, po)\<rparr>" "j \<noteq> i"
    using A(1,2) by (auto simp: set_src_def)
  let ?cont = "\<lambda>(ret, h). if ret < 0 then Some (ret, h)
            else do {
              h1 \<leftarrow> hdr_of h (Some i);
              h2 \<leftarrow> hdr_of h (Some j);
              e \<leftarrow> cint (int pos + b_slen h2);
              if e < b_slen h1 then do {
                h \<leftarrow> set_hdr h (Some i) (h1\<lparr>b_slen := e\<rparr>);
                h \<leftarrow> wrb h (b_data h1) e 0;
                Some (ret, h)
              } else Some (ret, h)
            }"
  have c: "\<not> int pos > INT_MAX - int len" "int pos + int len \<ge> int (length s)" using assms(4,5) by linarith+
  have run: "breplace (Some i) (int pos) (int len) (Some j) fill h = Option.bind (bsetstr (Some i) (int pos) (Some j) fill h) ?cont"
    using c O(1) J(1) by (simp add: breplace_def Let_def not_bad_owned cong: if_cong split del: if_split)
  have u: "replaced pos len t fill s = take (pos + length t) (overlay pos t fill s)" by (rule replaced_overlay [OF assms(4)])
  have ce: "cint (int pos + int (length t)) = Some (int pos + int (length t))" using assms(6) by (simp add: cint_def INT_MIN_def)
  have hj: "bm_hdr h1 j = bm_hdr h j" if "framed h h1 i k k'" for h1 k' using that J(2) by (simp add: framed_def)
  show ?thesis
  proof (cases "pos + length t < length s")
    case False
    then have whole: "length (overlay pos t fill s) = pos + length t" by (simp add: length_overlay)
    obtain r h1 where S: "bsetstr (Some i) (int pos) (Some j) fill h = Some (r, h1)" "outcome h r h1 i s k rest (overlay pos t fill s)"
      using bsetstr_ok [OF assms(1,2,3,6,7)] by blast
    have "?cont (r, h1) = Some (r, h1)"
      using S(2) whole ce hj J(1) by (auto simp: outcome_def dest!: ownsD(1))
    then show ?thesis using run S whole unfolding u by simp
  next
    case True
    let ?o = "overlay pos t fill s"
    let ?u = "take (pos + length t) ?o"
    have ls: "length ?o = length s" using True by (simp add: length_overlay)
    obtain h1 rest' where S: "bsetstr (Some i) (int pos) (Some j) fill h = Some (BSTR_OK, h1)" "owns h1 i ?o k rest'" "framed h h1 i k k" "length rest' = length rest"
      using bsetstr_inside [OF assms(1-3) True assms(7)] by blast
    let ?m = "map Some ?o @ Some 0 # rest'"
    note O1 = ownsD [OF S(2)]
    have lu: "length ?u = pos + length t" using True ls by simp
    have "Option.bind (set_hdr h1 (Some i) (\<lparr>b_mlen = int (length ?o) + 1 + int (length rest'), b_slen = int (length ?o), b_data = Some (k, 0)\<rparr>
        \<lparr>b_slen := int pos + int (length t)\<rparr>)) (\<lambda>h. wrb h (Some (k, 0)) (int pos + int (length t)) 0) = Some (terminated h1 i k ?m ?u)"
      by (rule end_hdr_first [OF O1(2) _ _ O1(1), where l = "int (length ?o)"]) (use True lu in \<open>auto simp: take_map\<close>)
    moreover have "int pos + int (length t) < int (length ?o)" using True ls by linarith
    ultimately have "?cont (BSTR_OK, h1) = Some (BSTR_OK, terminated h1 i k ?m ?u)"
      using O1(1) hj [OF S(3)] J(1) ce by (auto simp: bind_eq_Some_conv)
    then have "breplace (Some i) (int pos) (int len) (Some j) fill h = Some (BSTR_OK, terminated h1 i k ?m ?u)" using run S(1) by simp
    moreover have "outcome h1 BSTR_OK (terminated h1 i k ?m ?u) i ?o k rest' ?u"
      by (rule terminated_outcome [OF S(2) framed_refl]) (use S(3) True lu ls in \<open>simp_all add: framed_def\<close>)
    then have "outcome h BSTR_OK (terminated h1 i k ?m ?u) i s k rest ?u"
      by (rule outcome_after [OF assms(1,2) S(3), rotated]) (simp add: ls S(4))
    ultimately show ?thesis unfolding u by blast
  qed
qed

lemma breplace_middle:
  assumes "heap_ok h" "owns h i s k rest" "set_arg h i k (Some j) t" "pos + len < length s" "bm_alloc h = [] \<or> length t \<le> len"
    "int (length s) + int (length t) < 2 ^ 30" "8 * (int (length s) + 1 + int (length rest)) \<le> INT_MAX"
  shows "\<exists>r h'. breplace (Some i) (int pos) (int len) (Some j) fill h = Some (r, h') \<and> outcome h r h' i s k rest (replaced pos len t fill s)"
proof -
  note O = ownsD [OF assms(2)]
  note A = set_arg_src [OF assms(1,3)]
  have r: "reads h j t" using assms(3) by (simp add: set_arg_def foreign_str_def)
  obtain n kp po mj where J: "bm_hdr h j = Some \<lparr>b_mlen = n, b_slen = int (length t), b_data = Some (kp, po)\<rparr>" "bm_blk h kp = Some mj"
    "po + length t \<le> length mj" "take (length t) (drop po mj) = map Some t"
    using readsE [OF r] .
  have ne: "j \<noteq> i" "kp \<noteq> k" "kp < bm_next h" using A J heap_okD(1) [OF assms(1)] by (auto simp: set_src_def)
  let ?n = "int (length s) + int (length t) - int len"
  let ?cont = "\<lambda>(r, h). if r \<noteq> BSTR_OK then do {
                h \<leftarrow> drop_aux (Some j) (Some j) h;
                Some (BSTR_ERR, h)
              } else do {
                h1 \<leftarrow> hdr_of h (Some i);
                ha \<leftarrow> hdr_of h (Some j);
                h \<leftarrow> if b_slen ha \<noteq> int len then
                    memmove h (b_data h1) (int pos + b_slen ha) (b_data h1) (int pos + int len) (b_slen h1 - (int pos + int len))
                  else Some h;
                h \<leftarrow> memcpy h (b_data h1) (int pos) (b_data ha) 0 (b_slen ha);
                h \<leftarrow> set_hdr h (Some i) (h1\<lparr>b_slen := b_slen h1 + (b_slen ha - int len)\<rparr>);
                h \<leftarrow> wrb h (b_data h1) (b_slen h1 + (b_slen ha - int len)) 0;
                h \<leftarrow> drop_aux (Some j) (Some j) h;
                Some (BSTR_OK, h)
              }"
  have c: "\<not> int pos > INT_MAX - int len" "\<not> int pos + int len \<ge> int (length s)" "cint (int (length s) + int (length t)) = Some (int (length s) + int (length t))"
    using assms(4,6,7) by (auto simp: cint_def INT_MIN_def INT_MAX_def)
  have pw: "\<not> ptr_within (Some (kp, po)) (Some (k, 0)) x" for x using ne by (simp add: ptr_within_def)
  have run: "breplace (Some i) (int pos) (int len) (Some j) fill h =
      Option.bind (if int (length t) > int len then balloc (Some i) ?n h else Some (BSTR_OK, h)) ?cont"
    using c O(1) J(1) pw by (simp add: breplace_def Let_def not_bad_owned cong: if_cong split del: if_split)
  have "\<exists>h1 k' rest'. (if int (length t) > int len then balloc (Some i) ?n h else Some (BSTR_OK, h)) = Some (BSTR_OK, h1) \<and>
      owns h1 i s k' rest' \<and> framed h h1 i k k' \<and> length s - len + length t \<le> length s + length rest' \<and>
      int (length s) + 1 + int (length rest') \<le> max (int (length s) + 1 + int (length rest)) (snapUpSize (int (length s - len + length t) + 1))"
  proof (cases "len < length t")
    case False
    then show ?thesis using assms(1,2,4) framed_refl [OF assms(1)] by (intro exI [of _ h] exI [of _ k] exI [of _ rest]) auto
  next
    case True
    have e: "?n = int (length s - len + length t)" using assms(4) by (simp add: of_nat_diff)
    have n: "0 < ?n" "?n < 2 ^ 30" using assms(4,6) True by linarith+
    have al: "bm_alloc h = []" using True assms(5) by simp
    obtain h1 k' rest' where B: "balloc (Some i) ?n h = Some (BSTR_OK, h1)" "owns h1 i s k' rest'" "framed h h1 i k k'"
      "?n < int (length s) + 1 + int (length rest')" "int (length s) + 1 + int (length rest') \<le> max (int (length s) + 1 + int (length rest)) (snapUpSize ?n)"
      by (rule balloc_snug [OF assms(1,2) n assms(7) al])
    have "snapUpSize ?n \<le> snapUpSize (int (length s - len + length t) + 1)"
      by (rule snapUpSize_mono [OF n(1)]) (use e n in \<open>simp_all add: INT_MAX_def\<close>)
    then have "int (length s) + 1 + int (length rest') \<le> max (int (length s) + 1 + int (length rest)) (snapUpSize (int (length s - len + length t) + 1))"
      using B(5) by linarith
    moreover have "length s - len + length t \<le> length s + length rest'" using B(4) e by linarith
    moreover have "(if int (length t) > int len then balloc (Some i) ?n h else Some (BSTR_OK, h)) = Some (BSTR_OK, h1)" using True B(1) by simp
    ultimately show ?thesis using B(2,3) by blast
  qed
  then obtain h1 k' rest' where B: "(if int (length t) > int len then balloc (Some i) ?n h else Some (BSTR_OK, h)) = Some (BSTR_OK, h1)"
    "owns h1 i s k' rest'" "framed h h1 i k k'" "length s - len + length t \<le> length s + length rest'"
    "int (length s) + 1 + int (length rest') \<le> max (int (length s) + 1 + int (length rest)) (snapUpSize (int (length s - len + length t) + 1))"
    by blast
  have k': "kp \<noteq> k'" "bm_blk h1 kp = bm_blk h kp" using framed_blk [OF assms(1) B(3) ne(2,3)] by simp_all
  have rd: "rdn h1 (Some (kp, po)) 0 (int (length t)) = Some (map Some t)" using rdn_eq [of h1 kp mj 0 "int (length t)" po] J k'(2) by simp
  have j1: "bm_hdr h1 j = Some \<lparr>b_mlen = n, b_slen = int (length t), b_data = Some (kp, po)\<rparr>" using B(3) ne(1) J(1) by (simp add: framed_def)
  let ?m = "map Some s @ Some 0 # rest'"
  let ?m1 = "take (pos + length t) ?m @ take (length s - (pos + len)) (drop (pos + len) ?m) @ drop (length s - len + length t) ?m"
  let ?h2 = "terminated h1 i k' (put ?m1 pos (map Some t)) (replaced pos len t fill s)"
  have "?cont (BSTR_OK, h1) = Option.bind (Some ?h2) (\<lambda>h. Some (BSTR_OK, h))"
    unfolding replace_tail [OF B(2) assms(4) B(4) refl j1 k'(1) rd refl, of fill, symmetric]
    by (simp add: drop_aux_def cong: if_cong split del: if_split)
  then have "breplace (Some i) (int pos) (int len) (Some j) fill h = Some (BSTR_OK, ?h2)" using run B(1) by simp
  then show ?thesis using replaced_outcome [OF B(2,3) assms(4) B(4,5) refl refl, of fill] by blast
qed

section \<open>Repetition\<close>

definition cycle :: "bytes \<Rightarrow> nat \<Rightarrow> bytes" where
  "cycle s n = map (\<lambda>j. s ! (j mod length s)) [0..<n]"

lemma length_cycle [simp]: "length (cycle s n) = n"
  by (simp add: cycle_def)

lemma cycle_Suc: "s \<noteq> [] \<Longrightarrow> cycle s (Suc n) = cycle s n @ [s ! (n mod length s)]"
  by (simp add: cycle_def)

lemma cycle_id [simp]: "cycle s (length s) = s"
  by (rule nth_equalityI) (simp_all add: cycle_def)

lemma nth_cycle: "j < n \<Longrightarrow> cycle s n ! j = s ! (j mod length s)"
  by (simp add: cycle_def)

lemma take_cycle: "m \<le> n \<Longrightarrow> take m (cycle s n) = cycle s m"
  by (simp add: cycle_def take_map)

lemma pattern_loop_ok:
  assumes "s \<noteq> []"
  shows "bm_blk h k = Some m \<Longrightarrow> length s \<le> i \<Longrightarrow> i + j \<le> length m \<Longrightarrow> take i m = map Some (cycle s i) \<Longrightarrow>
    \<exists>m'. pattern_loop (Some (k, 0)) (int i) (int (i + j)) (int (length s)) h = Some (h\<lparr>bm_blk := (bm_blk h)(k \<mapsto> m')\<rparr>) \<and>
      length m' = length m \<and> take (i + j) m' = map Some (cycle s (i + j))"
proof (induction j arbitrary: i m h)
  case 0
  then show ?case by (subst pattern_loop.simps) (auto intro!: exI [of _ m] bmem.equality)
next
  case (Suc j)
  let ?c = "s ! (i mod length s)"
  let ?m1 = "put m i [Some ?c]"
  let ?h1 = "h\<lparr>bm_blk := (bm_blk h)(k \<mapsto> ?m1)\<rparr>"
  have l: "i < length m" using Suc.prems(3) by simp
  have d: "0 < length s" using assms by simp
  have ij: "i - length s < i" using Suc.prems(2) d by linarith
  have "m ! (i - length s) = take i m ! (i - length s)" using ij by simp
  also have "\<dots> = Some (s ! ((i - length s) mod length s))" unfolding Suc.prems(4) using ij by (simp add: nth_cycle)
  also have "(i - length s) mod length s = i mod length s" using Suc.prems(2) by (simp add: le_mod_geq)
  finally have "rdb h (Some (k, 0)) (int (i - length s)) = Some ?c" using rdb_eq [OF Suc.prems(1), of "int (i - length s)" 0] ij l by simp
  then have r: "rdb h (Some (k, 0)) (int i - int (length s)) = Some ?c" using Suc.prems(2) by (simp add: of_nat_diff)
  have w: "wrb h (Some (k, 0)) (int i) ?c = Some ?h1" by (rule wrb_put [OF Suc.prems(1) l])
  have "take (Suc i) ?m1 = map Some (cycle s (Suc i))" using Suc.prems(4) l assms by (simp add: put_def cycle_Suc)
  then have "\<exists>m'. pattern_loop (Some (k, 0)) (int (Suc i)) (int (Suc i + j)) (int (length s)) ?h1 = Some (?h1\<lparr>bm_blk := (bm_blk ?h1)(k \<mapsto> m')\<rparr>) \<and>
      length m' = length ?m1 \<and> take (Suc i + j) m' = map Some (cycle s (Suc i + j))"
    by (intro Suc.IH) (use Suc.prems l in simp_all)
  then obtain m' where m': "pattern_loop (Some (k, 0)) (int (Suc i)) (int (Suc i + j)) (int (length s)) ?h1 = Some (?h1\<lparr>bm_blk := (bm_blk ?h1)(k \<mapsto> m')\<rparr>)"
    "length m' = length ?m1" "take (Suc i + j) m' = map Some (cycle s (Suc i + j))"
    by blast
  have e: "int i + 1 = int (Suc i)" "int (i + Suc j) = int (Suc i + j)" "int i < int (Suc i + j)" "i + Suc j = Suc i + j" by simp_all
  have "pattern_loop (Some (k, 0)) (int i) (int (i + Suc j)) (int (length s)) h = Some (h\<lparr>bm_blk := (bm_blk h)(k \<mapsto> m')\<rparr>)"
    using r w m'(1) by (subst pattern_loop.simps) (simp only: e if_True Option.bind.simps, simp)
  then show ?case using m'(2,3) l unfolding e(4) by (intro exI [of _ m'] conjI) (simp_all add: fun_upd_def)
qed

lemma bpattern_ok:
  assumes "heap_ok h" "owns h i s k rest" "s \<noteq> []" "int n + 1 < 2 ^ 27" "length s + 1 + length rest \<le> 2 ^ 27"
  shows "\<exists>r h' k' rest'. bpattern (Some i) (int n) h = Some (r, h') \<and> framed h h' i k k' \<and>
    (r = BSTR_OK \<and> owns h' i (cycle s n) k' rest' \<or> r = BSTR_ERR \<and> bm_alloc h \<noteq> [] \<and> owns h' i s k' rest')"
proof -
  note O = ownsD [OF assms(2)]
  let ?cont = "\<lambda>(r, h). if r \<noteq> BSTR_OK then Some (BSTR_ERR, h)
       else do {
         bh \<leftarrow> hdr_of h (Some i);
         if int n > 0 \<and> int (length s) = 1 then do {
           c \<leftarrow> rdb h (b_data bh) 0;
           bsetstr (Some i) (int n) None c h
         }
         else do {
           h \<leftarrow> if int n > 0 then pattern_loop (b_data bh) (int (length s)) (int n) (int (length s)) h else Some h;
           h \<leftarrow> wrb h (b_data bh) (int n) 0;
           h \<leftarrow> set_hdr h (Some i) (bh\<lparr>b_slen := int n\<rparr>);
           Some (BSTR_OK, h)
         }
       }"
  have b: "8 * (int (length s) + 1 + int (length rest)) \<le> INT_MAX" using assms(5) by (simp add: INT_MAX_def)
  have c: "cint (int n + 1) = Some (int n + 1)" "0 < length s" using assms(3,4) by (auto simp: cint_def INT_MIN_def INT_MAX_def)
  have run: "bpattern (Some i) (int n) h = Option.bind (balloc (Some i) (int n + 1) h) ?cont"
    using c O(1) by (simp add: bpattern_def blength_def cong: if_cong split del: if_split)
  have nn: "0 < int n + 1" "int n + 1 \<le> INT_MAX" using assms(4) by (simp_all add: INT_MAX_def)
  show ?thesis
  proof (cases rule: balloc_room [OF assms(1,2) nn b, case_names ok fail])
    case (fail al)
    then show ?thesis using run assms(1,2) by (auto intro!: framed_alloc)
  next
    case (ok h1 k' rest')
    note O1 = ownsD [OF ok(2)]
    have h1: "heap_ok h1" "bm_alloc h = [] \<Longrightarrow> bm_alloc h1 = []" using ok(3) by (simp_all add: framed_def)
    let ?m = "map Some s @ Some 0 # rest'"
    have room: "n < length ?m" using ok(4) by simp
    show ?thesis
    proof (cases "0 < n \<and> length s = 1")
      case True
      then obtain c where s: "s = [c]" by (cases s) auto
      have "rdb h1 (Some (k', 0)) 0 = Some c" using rdb_eq [OF O1(2), of 0 0] s by simp
      then have run2: "bpattern (Some i) (int n) h = bsetstr (Some i) (int n) None c h1"
        using run ok(1) O1(1) True by simp
      have "snapUpSize (int n + 1) \<le> 2 ^ 27"
        using snapUpSize_mono [OF nn(1), of "2 ^ 27 - 1"] snapUpSize_pow [of "2 ^ 27 - 1" 26] assms(4) by (simp add: INT_MAX_def)
      then have b1: "8 * (int (length s) + 1 + int (length rest')) \<le> INT_MAX" using ok(5) assms(5) by (simp add: INT_MAX_def)
      obtain r h2 where S: "bsetstr (Some i) (int n) None c h1 = Some (r, h2)" "outcome h1 r h2 i s k' rest' (overlay n [] c s)"
        using bsetstr_ok [OF h1(1) ok(2) _ _ b1, of None "[]" n c] assms(4) by (auto simp: set_arg_def INT_MAX_def)
      have e: "overlay n [] c s = cycle s n"
        using True s by (cases n) (auto simp: overlay_def cycle_def map_replicate_const)
      show ?thesis
        using S(2) unfolding outcome_def e
      proof (elim disjE conjE exE)
        fix k2 r2 assume a: "r = BSTR_OK" "owns h2 i (cycle s n) k2 r2" "framed h1 h2 i k' k2"
        from framed_trans_any [OF assms(1) O(2) ok(3) a(3)] show ?thesis using run2 S(1) a by auto
      next
        assume a: "r = BSTR_ERR" "bm_alloc h1 \<noteq> []" "owns h2 i s k' rest'" "framed h1 h2 i k' k'"
        from framed_trans_any [OF assms(1) O(2) ok(3) a(4)] show ?thesis using run2 S(1) a h1(2) by auto
      qed
    next
      case False
      let ?u = "cycle s n"
      let ?y = "\<lparr>b_mlen = int (length s) + 1 + int (length rest'), b_slen = int (length s), b_data = Some (k', 0)\<rparr>"
      have "\<exists>m2. (if int n > 0 then pattern_loop (Some (k', 0)) (int (length s)) (int n) (int (length s)) h1 else Some h1) =
          Some (h1\<lparr>bm_blk := (bm_blk h1)(k' \<mapsto> m2)\<rparr>) \<and> length m2 = length ?m \<and> take n m2 = map Some ?u"
      proof (cases "length s < n")
        case True
        obtain m2 where "pattern_loop (Some (k', 0)) (int (length s)) (int (length s + (n - length s))) (int (length s)) h1 =
            Some (h1\<lparr>bm_blk := (bm_blk h1)(k' \<mapsto> m2)\<rparr>)" "length m2 = length ?m" "take (length s + (n - length s)) m2 = map Some (cycle s (length s + (n - length s)))"
          using pattern_loop_ok [OF assms(3) O1(2) order_refl, of "n - length s"] True room by auto
        then show ?thesis using True by (intro exI [of _ m2]) simp
      next
        case False
        have "pattern_loop (Some (k', 0)) (int (length s)) (int n) (int (length s)) h1 = Some h1"
          using False by (subst pattern_loop.simps) simp
        moreover have "take n s = cycle s n" using take_cycle [of n "length s" s] False by simp
        ultimately show ?thesis using False O1(2) by (intro exI [of _ ?m]) (auto simp: take_map intro!: bmem.equality)
      qed
      then obtain m2 where m2: "(if int n > 0 then pattern_loop (Some (k', 0)) (int (length s)) (int n) (int (length s)) h1 else Some h1) =
          Some (h1\<lparr>bm_blk := (bm_blk h1)(k' \<mapsto> m2)\<rparr>)" "length m2 = length ?m" "take n m2 = map Some ?u" by blast
      let ?h2 = "h1\<lparr>bm_blk := (bm_blk h1)(k' \<mapsto> m2)\<rparr>"
      have "Option.bind (wrb ?h2 (Some (k', 0)) (int n) 0) (\<lambda>h. set_hdr h (Some i) (?y\<lparr>b_slen := int n\<rparr>)) = Some (terminated ?h2 i k' m2 ?u)"
        by (rule end_blk_first [where l = "int (length s)" and y = ?y]) (use O1(1) m2 room in simp_all)
      from arg_cong [OF this, of "\<lambda>x. Option.bind x (\<lambda>h. Some (BSTR_OK, h))"]
      have w: "Option.bind (wrb ?h2 (Some (k', 0)) (int n) 0) (\<lambda>h. Option.bind (set_hdr h (Some i) (?y\<lparr>b_slen := int n\<rparr>)) (\<lambda>h. Some (BSTR_OK, h))) =
          Some (BSTR_OK, terminated ?h2 i k' m2 ?u)" by simp
      moreover have "terminated ?h2 i k' m2 ?u = terminated h1 i k' m2 ?u" by (simp add: terminated_def)
      moreover have cond: "(0 < int n \<and> int (length s) = 1) = False" using False by simp
      have "?cont (BSTR_OK, h1) = Some (BSTR_OK, terminated ?h2 i k' m2 ?u)"
        by (simp only: prod.case not_True_eq_False if_False hdr_of_Some O1(1) Option.bind.simps bhdr.simps cond m2(1) w [unfolded bhdr.simps] simp_thms)
      ultimately have "bpattern (Some i) (int n) h = Some (BSTR_OK, terminated h1 i k' m2 ?u)" using run ok(1) by simp
      moreover have "owns (terminated h1 i k' m2 ?u) i ?u k' (drop (Suc n) m2)" using terminated_owns [of ?u m2 h1 i k'] m2(2) room by simp
      moreover have "framed h (terminated h1 i k' m2 ?u) i k k'"
        using framed_trans_any [OF assms(1) O(2) ok(3) terminated_framed [OF ok(2) h1(1)]] .
      ultimately show ?thesis by blast
    qed
  qed
qed

lemma breplace_overflow_ok:
  assumes "heap_ok h" "owns h i s k rest" "set_arg h i k (Some j) t" "pos + len < length s" "len < length t"
    "length s + 1 + length rest \<le> length s - len + length t" "int (length s) + int (length t) < 2 ^ 27" "8 * length s \<le> 7 * (length s + 1 + length rest)"
    "bm_alloc h = False # False # True # al"
  shows "breplace (Some i) (int pos) (int len) (Some j) fill h = None"
proof -
  note O = ownsD [OF assms(2)]
  note A = set_arg_src [OF assms(1,3)]
  obtain n kp po where J: "bm_hdr h j = Some \<lparr>b_mlen = n, b_slen = int (length t), b_data = Some (kp, po)\<rparr>" "j \<noteq> i" "kp \<noteq> k"
    using A(1,2) by (auto simp: set_src_def)
  let ?n = "length s - len + length t"
  have e: "int (length s) + int (length t) - int len = int ?n" using assms(4) by (simp add: of_nat_diff)
  have e2: "int (length s) + (int (length t) - int len) = int ?n" using e by simp
  have n: "int ?n < 2 ^ 27" using assms(7) by simp
  obtain h2 k2 m2 where B: "balloc (Some i) (int ?n) h = Some (BSTR_OK, h2)" "bm_hdr h2 i = Some \<lparr>b_mlen = int ?n, b_slen = int (length s), b_data = Some (k2, 0)\<rparr>"
    "bm_blk h2 k2 = Some m2" "length m2 = ?n" "\<forall>j. j \<noteq> i \<longrightarrow> bm_hdr h2 j = bm_hdr h j"
    using balloc_tight [OF assms(1,2,6) n assms(8,9)] by blast
  have j: "bm_hdr h2 j = Some \<lparr>b_mlen = n, b_slen = int (length t), b_data = Some (kp, po)\<rparr>" using B(5) J(1,2) by simp
  have c: "\<not> int pos > INT_MAX - int len" "\<not> int pos + int len \<ge> int (length s)" "cint (int (length s) + int (length t)) = Some (int (length s) + int (length t))"
    using assms(4,7) by (auto simp: cint_def INT_MIN_def INT_MAX_def)
  have pw: "\<not> ptr_within (Some (kp, po)) (Some (k, 0)) x" for x using J(3) by (simp add: ptr_within_def)
  have run: "breplace (Some i) (int pos) (int len) (Some j) fill h = do {
      h3 \<leftarrow> memmove h2 (Some (k2, 0)) (int pos + int (length t)) (Some (k2, 0)) (int pos + int len) (int (length s) - (int pos + int len));
      h4 \<leftarrow> memcpy h3 (Some (k2, 0)) (int pos) (Some (kp, po)) 0 (int (length t));
      h5 \<leftarrow> set_hdr h4 (Some i) \<lparr>b_mlen = int ?n, b_slen = int ?n, b_data = Some (k2, 0)\<rparr>;
      h6 \<leftarrow> wrb h5 (Some (k2, 0)) (int ?n) 0;
      Some (BSTR_OK, h6)
    }"
    using c O(1) J(1) pw assms(5) B(1,2) j by (simp add: breplace_def Let_def not_bad_owned drop_aux_def e e2 del: of_nat_add of_nat_diff)
  show ?thesis
  proof (rule ccontr)
    assume "\<not> ?thesis"
    then obtain h3 h4 h5 where S: "memmove h2 (Some (k2, 0)) (int pos + int (length t)) (Some (k2, 0)) (int pos + int len) (int (length s) - (int pos + int len)) = Some h3"
      "memcpy h3 (Some (k2, 0)) (int pos) (Some (kp, po)) 0 (int (length t)) = Some h4"
      "set_hdr h4 (Some i) \<lparr>b_mlen = int ?n, b_slen = int ?n, b_data = Some (k2, 0)\<rparr> = Some h5" "wrb h5 (Some (k2, 0)) (int ?n) 0 \<noteq> None"
      unfolding run by (auto simp: bind_eq_Some_conv)
    obtain m3 where m3: "bm_blk h3 k2 = Some m3" "length m3 = ?n" using memmove_len [OF S(1) B(3)] B(4) by auto
    have "memmove h3 (Some (k2, 0)) (int pos) (Some (kp, po)) 0 (int (length t)) = Some h4" using S(2) by (simp add: memcpy_def split: if_splits)
    then obtain m4 where "bm_blk h4 k2 = Some m4" "length m4 = ?n" using memmove_len [OF _ m3(1)] m3(2) by metis
    then have "bm_blk h5 k2 = Some m4" "length m4 = ?n" using S(3) by (auto simp: set_hdr_def bind_eq_Some_conv)
    then show False using S(4) wrb_out [of h5 k2 m4 ?n 0] by simp
  qed
qed

end
