(* ===== verification/BstrFindReplace.thy ===== *)
theory BstrFindReplace
  imports BstrReplaceAll BstrRange
begin

text \<open>
  Replacement of all occurrences: the list function \<open>replace_all\<close>, and the three cases of \<open>findreplaceengine\<close> for any
  search function that keeps the contract \<open>bstr_search\<close>.
\<close>

section \<open>Replacement of all occurrences, on lists\<close>

type_synonym same_fn = "u8 \<Rightarrow> u8 \<Rightarrow> bool"

definition next_match :: "same_fn \<Rightarrow> bytes \<Rightarrow> bytes \<Rightarrow> nat \<Rightarrow> nat option" where
  "next_match same t s n = find (occurs same t s) [n..<Suc (length s)]"

lemma next_match_Some:
  "next_match same t s n = Some i \<Longrightarrow> n \<le> i \<and> i + length t \<le> length s"
  unfolding next_match_def find_upt_first by (auto simp: occurs_def)

lemma next_match_less:
  assumes "next_match same t s n = Some i" "t \<noteq> []"
  shows "Suc (length s) - (i + length t) < Suc (length s) - n"
proof -
  have "0 < length t" using assms(2) by simp
  then show ?thesis using next_match_Some [OF assms(1)] by linarith
qed

text \<open>The characters from \<open>n\<close> on, with all occurrences of \<open>t\<close> replaced by \<open>r\<close> from left to right.\<close>

function replaced_from :: "same_fn \<Rightarrow> bytes \<Rightarrow> bytes \<Rightarrow> bytes \<Rightarrow> nat \<Rightarrow> bytes" where
  "replaced_from same t r s n =
     (case next_match same t s n of
        None \<Rightarrow> drop n s
      | Some i \<Rightarrow> if t = [] then drop n s else take (i - n) (drop n s) @ r @ replaced_from same t r s (i + length t))"
  by pat_completeness auto
termination by (relation "measure (\<lambda>(same, t, r, s, n). Suc (length s) - n)") (auto dest: next_match_less)

definition replace_all :: "same_fn \<Rightarrow> bytes \<Rightarrow> bytes \<Rightarrow> nat \<Rightarrow> bytes \<Rightarrow> bytes" where
  "replace_all same t r n s = take n s @ replaced_from same t r s n"

declare replaced_from.simps [simp del]

lemma replaced_from_None: "next_match same t s n = None \<Longrightarrow> replaced_from same t r s n = drop n s"
  by (subst replaced_from.simps) simp

lemma replaced_from_Some: "next_match same t s n = Some i \<Longrightarrow> t \<noteq> [] \<Longrightarrow>
    replaced_from same t r s n = take (i - n) (drop n s) @ r @ replaced_from same t r s (i + length t)"
  by (subst replaced_from.simps) simp

text \<open>Only the characters from \<open>n\<close> on matter.\<close>

lemma occurs_suffix:
  assumes "drop n x = drop n s" "n \<le> k" "length x = length s"
  shows "occurs same t x k \<longleftrightarrow> occurs same t s k"
proof -
  have "x ! (k + m) = s ! (k + m)" if "k + m < length s" for m
    using that assms nth_drop [of n x "k - n + m"] nth_drop [of n s "k - n + m"] by simp
  then show ?thesis unfolding occurs_def using assms(3) by auto
qed

lemma next_match_suffix: "drop n x = drop n s \<Longrightarrow> length x = length s \<Longrightarrow> next_match same t x n = next_match same t s n"
  unfolding next_match_def using occurs_suffix [of n x s _ same t] by (intro find_cong) auto

lemma drop_more: "drop n x = drop n s \<Longrightarrow> n \<le> m \<Longrightarrow> drop m x = drop m s"
  by (metis drop_drop le_add_diff_inverse2)

lemma replaced_from_suffix:
  "drop n x = drop n s \<Longrightarrow> length x = length s \<Longrightarrow> replaced_from same t r x n = replaced_from same t r s n"
proof (induction "Suc (length s) - n" arbitrary: n rule: less_induct)
  case less
  note e = next_match_suffix [OF less.prems, of same t]
  show ?case
  proof (cases "next_match same t s n")
    case None
    then show ?thesis using e less.prems by (simp add: replaced_from_None)
  next
    case (Some i)
    note N = next_match_Some [OF Some]
    show ?thesis
    proof (cases "t = []")
      case True
      then show ?thesis using e Some less.prems by (simp add: replaced_from.simps)
    next
      case False
      have "replaced_from same t r x (i + length t) = replaced_from same t r s (i + length t)"
        by (rule less.hyps) (use next_match_less [OF Some False] N less.prems drop_more [OF less.prems(1)] in auto)
      then show ?thesis using e Some False less.prems by (simp add: replaced_from_Some)
    qed
  qed
qed

section \<open>The loops\<close>

text \<open>The search function that the engine is given.\<close>

locale bstr_search =
  fixes instr :: instr_fn
    and same :: same_fn
  assumes instr_ok: "reads h i s \<Longrightarrow> reads h j t \<Longrightarrow> instr (Some i) (int n) (Some j) h = Some (pos_or_err (next_match same t s n))"

interpretation exact_search: bstr_search binstr "(=)"
  by unfold_locales (simp add: binstr_ok next_match_def)

interpretation nocase_search: bstr_search binstrcaseless same_nocase
  by unfold_locales (simp add: binstrcaseless_ok next_match_def)

text \<open>Copies within a string and into it, on its characters.\<close>

definition with_chars :: "bmem \<Rightarrow> nat \<Rightarrow> bytes \<Rightarrow> cell list \<Rightarrow> bmem" where
  "with_chars h k x rest = h\<lparr>bm_blk := (bm_blk h)(k \<mapsto> map Some x @ Some 0 # rest)\<rparr>"

lemma with_chars_owns: "owns h i s k rest \<Longrightarrow> length x = length s \<Longrightarrow> owns (with_chars h k x rest) i x k rest"
  by (simp add: owns_def with_chars_def)

lemma with_chars_framed: "owns h i s k rest \<Longrightarrow> heap_ok h \<Longrightarrow> framed h (with_chars h k x rest) i k k"
  by (auto simp: framed_def with_chars_def heap_ok_def owns_def)

lemma with_chars_same: "owns h i s k rest \<Longrightarrow> with_chars h k s rest = h"
  by (auto simp: owns_def with_chars_def intro!: bmem.equality)

lemma move_chars:
  assumes "owns h i x k rest" "a + n \<le> length x" "d + n \<le> length x"
  shows "memmove h (Some (k, 0)) (int d) (Some (k, 0)) (int a) (int n) =
    Some (with_chars h k (take d x @ take n (drop a x) @ drop (d + n) x) rest)"
proof -
  let ?m = "map Some x @ Some 0 # rest"
  have "rdn h (Some (k, 0)) (int a) (int n) = Some (take n (drop a ?m))" using rdn_eq [OF ownsD(2) [OF assms(1)], of "int a" "int n" 0] assms(2) by simp
  moreover have "take n (drop a ?m) = map Some (take n (drop a x))" using assms(2) by (simp add: take_map drop_map)
  moreover have "wrn h (Some (k, 0)) (int d) (map Some (take n (drop a x))) =
      Some (h\<lparr>bm_blk := (bm_blk h)(k \<mapsto> put ?m d (map Some (take n (drop a x))))\<rparr>)"
    by (rule wrn_put [OF ownsD(2) [OF assms(1)]]) (use assms(2,3) in simp)
  moreover have "put ?m d (map Some (take n (drop a x))) = map Some (take d x @ take n (drop a x) @ drop (d + n) x) @ Some 0 # rest"
    using assms(2,3) by (simp add: put_def take_map drop_map)
  ultimately show ?thesis by (simp add: memmove_def with_chars_def)
qed

lemma copy_chars:
  assumes "owns h i x k rest" "d + length t \<le> length x" "rdn h (Some (kp, po)) 0 (int (length t)) = Some (map Some t)" "kp \<noteq> k"
  shows "memcpy h (Some (k, 0)) (int d) (Some (kp, po)) 0 (int (length t)) =
    Some (with_chars h k (take d x @ t @ drop (d + length t) x) rest)"
proof -
  let ?m = "map Some x @ Some 0 # rest"
  have "wrn h (Some (k, 0)) (int d) (map Some t) = Some (h\<lparr>bm_blk := (bm_blk h)(k \<mapsto> put ?m d (map Some t))\<rparr>)"
    by (rule wrn_put [OF ownsD(2) [OF assms(1)]]) (use assms(2) in simp)
  moreover have "put ?m d (map Some t) = map Some (take d x @ t @ drop (d + length t) x) @ Some 0 # rest"
    using assms(2) by (simp add: put_def take_map drop_map)
  ultimately show ?thesis using assms(3,4) by (simp add: memcpy_def overlap_def memmove_def with_chars_def)
qed

text \<open>An argument in another block, with its header, its pointer and its characters.\<close>

lemma argE:
  assumes "heap_ok h" "foreign_str h i k j t"
  obtains n kp po where "bm_hdr h j = Some \<lparr>b_mlen = n, b_slen = int (length t), b_data = Some (kp, po)\<rparr>" "kp \<noteq> k" "kp < bm_next h" "j \<noteq> i"
    "rdn h (Some (kp, po)) 0 (int (length t)) = Some (map Some t)" "reads h j t"
proof -
  have r: "reads h j t" "j \<noteq> i" using assms(2) by (simp_all add: foreign_str_def)
  obtain n kp po m where R: "bm_hdr h j = Some \<lparr>b_mlen = n, b_slen = int (length t), b_data = Some (kp, po)\<rparr>" "bm_blk h kp = Some m"
    "po + length t \<le> length m" "take (length t) (drop po m) = map Some t"
    using readsE [OF r(1)] .
  have "kp \<noteq> k" using assms(2) R(1) by (simp add: foreign_str_def)
  moreover have "rdn h (Some (kp, po)) 0 (int (length t)) = Some (map Some t)" using rdn_eq [OF R(2), of 0 "int (length t)" po] R(3,4) by simp
  ultimately show thesis using that R(1) heap_okD(1) [OF assms(1) R(2)] r by blast
qed

context bstr_search begin

lemma same_loop_ok:
  assumes "length r = length t" "t \<noteq> []"
  shows "heap_ok h \<Longrightarrow> owns h i x k rest \<Longrightarrow> foreign_str h i k jt t \<Longrightarrow> foreign_str h i k jr r \<Longrightarrow>
    length x = l \<Longrightarrow> int l \<le> INT_MAX \<Longrightarrow>
    \<exists>h'. same_loop instr (Some i) (Some jt) (Some jr) (int n) h = Some h' \<and>
      owns h' i (replace_all same t r n x) k rest \<and> framed h h' i k k"
proof (induction "Suc l - n" arbitrary: n x h rule: less_induct)
  case less
  note O = ownsD [OF less.prems(2)]
  obtain nt kt pt where T: "bm_hdr h jt = Some \<lparr>b_mlen = nt, b_slen = int (length t), b_data = Some (kt, pt)\<rparr>" "reads h jt t"
    using argE [OF less.prems(1,3)] .
  obtain nr kr pr where R: "bm_hdr h jr = Some \<lparr>b_mlen = nr, b_slen = int (length r), b_data = Some (kr, pr)\<rparr>" "kr \<noteq> k"
    "rdn h (Some (kr, pr)) 0 (int (length r)) = Some (map Some r)"
    using argE [OF less.prems(1,4)] .
  note I = instr_ok [OF owns_reads [OF less.prems(2)] T(2), of n]
  show ?case
  proof (cases "next_match same t x n")
    case None
    then have "same_loop instr (Some i) (Some jt) (Some jr) (int n) h = Some h"
      using I by (subst same_loop.simps) (simp add: BSTR_ERR_def)
    moreover have "replace_all same t r n x = x" using None by (simp add: replace_all_def replaced_from_None)
    ultimately show ?thesis using less.prems(1,2) framed_refl by auto
  next
    case (Some m)
    note N = next_match_Some [OF Some]
    let ?x = "take m x @ r @ drop (m + length r) x"
    let ?h = "with_chars h k ?x rest"
    have c: "memcpy h (Some (k, 0)) (int m) (Some (kr, pr)) 0 (int (length r)) = Some ?h"
      by (rule copy_chars [OF less.prems(2) _ R(3,2)]) (use N assms(1) in simp)
    have lx: "length ?x = l" using N assms(1) less.prems(5) by simp
    have o: "owns ?h i ?x k rest" using with_chars_owns [OF less.prems(2)] lx less.prems(5) by simp
    have f: "framed h ?h i k k" by (rule with_chars_framed [OF less.prems(2,1)])
    have p: "int m + int (length t) = int (m + length t)" "cint (int (m + length t)) = Some (int (m + length t))"
      using N less.prems(5,6) by (auto simp: cint_def INT_MIN_def)
    have step: "same_loop instr (Some i) (Some jt) (Some jr) (int n) h = same_loop instr (Some i) (Some jt) (Some jr) (int (m + length t)) ?h"
      using I Some O(1) T(1) R(1) c by (subst same_loop.simps) (simp add: p del: of_nat_add)
    have "\<exists>h'. same_loop instr (Some i) (Some jt) (Some jr) (int (m + length t)) ?h = Some h' \<and>
        owns h' i (replace_all same t r (m + length t) ?x) k rest \<and> framed ?h h' i k k"
    proof (rule less.hyps)
      show "Suc l - (m + length t) < Suc l - n" using next_match_less [OF Some assms(2)] less.prems(5) by simp
      show "heap_ok ?h" using f by (simp add: framed_def)
      show "foreign_str ?h i k jt t" "foreign_str ?h i k jr r" using reads_framed [OF less.prems(1) f] less.prems(3,4) by blast+
    qed (use o lx less.prems(6) in auto)
    then obtain h' where h': "same_loop instr (Some i) (Some jt) (Some jr) (int (m + length t)) ?h = Some h'"
      "owns h' i (replace_all same t r (m + length t) ?x) k rest" "framed ?h h' i k k" by blast
    have "replaced_from same t r ?x (m + length t) = replaced_from same t r x (m + length t)"
      by (rule replaced_from_suffix) (use N lx less.prems(5) assms(1) in auto)
    then have "replace_all same t r (m + length t) ?x = replace_all same t r n x"
      using N Some assms by (simp add: replace_all_def replaced_from_Some take_add [of n "m - n", symmetric])
    then show ?thesis using step h' framed_trans [OF f h'(3)] by auto
  qed
qed

end

text \<open>
  The shrinking case: the characters from \<open>n\<close> on are those of \<open>s\<close>, the first \<open>n - acc\<close> ones are the
  result so far.
\<close>

definition shrunk :: "bytes \<Rightarrow> nat \<Rightarrow> nat \<Rightarrow> bytes \<Rightarrow> bool" where
  "shrunk s n acc x \<longleftrightarrow> length x = length s \<and> drop n x = drop n s \<and> n \<le> length s \<and> acc \<le> n"

lemma shrink_step_chars:
  assumes "shrunk s n acc x" "n \<le> m" "m + lt \<le> length s" "length r \<le> lt"
    "x1 = take (n - acc) x @ take (m - n) (drop n x) @ drop (m - acc) x" "x2 = take (m - acc) x1 @ r @ drop (m - acc + length r) x1"
  shows "length x1 = length s" "shrunk s (m + lt) (acc + (lt - length r)) x2"
    "take (m + lt - (acc + (lt - length r))) x2 = take (n - acc) x @ take (m - n) (drop n s) @ r"
proof -
  have S: "length x = length s" "drop n x = drop n s" "n \<le> length s" "acc \<le> n" using assms(1) by (auto simp: shrunk_def)
  show l1: "length x1 = length s" using S assms(2-5) by simp
  have l2: "length x2 = length s" using l1 S assms(2-4,6) by simp
  have t1: "take (m - acc) x1 = take (n - acc) x @ take (m - n) (drop n s)"
  proof -
    have "length (take (n - acc) x @ take (m - n) (drop n x)) = m - acc" using S assms(2,3) by simp
    then show ?thesis unfolding assms(5) using S(2) by (metis append.assoc append_eq_conv_conj)
  qed
  have "m + lt - (acc + (lt - length r)) = m - acc + length r" using assms(2,4) S(4) by simp
  moreover have "length (take (m - acc) x1 @ r) = m - acc + length r" using l1 assms(3) by simp
  then have "take (m - acc + length r) x2 = take (m - acc) x1 @ r" unfolding assms(6) by (metis append.assoc append_eq_conv_conj)
  ultimately show "take (m + lt - (acc + (lt - length r))) x2 = take (n - acc) x @ take (m - n) (drop n s) @ r" by (simp only: t1 append_assoc)
  have "drop (m + lt) x2 = drop (m + lt) x1" unfolding assms(6) using l1 assms(3,4) by simp
  also have "\<dots> = drop (m + lt) x" unfolding assms(5) using S assms(2,3) by (simp add: add.commute [of lt m])
  also have "\<dots> = drop (m + lt) s" by (rule drop_more [OF S(2)]) (use assms(2) in simp)
  finally show "shrunk s (m + lt) (acc + (lt - length r)) x2" using l2 assms(2,3,4) S(4) by (simp add: shrunk_def)
qed

lemma take_owned: "n \<le> length x \<Longrightarrow> take n (map Some x @ r) = map Some (take n x)"
  by (simp add: take_map)

context bstr_search begin

lemma shrink_loop_ok:
  assumes "length r < length t"
  shows "heap_ok h \<Longrightarrow> owns h i x k rest \<Longrightarrow> foreign_str h i k jt t \<Longrightarrow> foreign_str h i k jr r \<Longrightarrow>
    shrunk s n acc x \<Longrightarrow> int (length s) \<le> INT_MAX \<Longrightarrow>
    \<exists>n' acc' x' h'. shrink_loop instr (Some i) (Some jt) (Some jr) (int (length t) - int (length r)) (int n) (int acc) h = Some (int n', int acc', h') \<and>
      owns h' i x' k rest \<and> framed h h' i k k \<and> shrunk s n' acc' x' \<and> (acc' = 0 \<longrightarrow> h' = h \<and> acc = 0 \<and> n' = n) \<and>
      take (n' - acc') x' @ drop n' s = take (n - acc) x @ replaced_from same t r s n"
proof (induction "Suc (length s) - n" arbitrary: n acc x h rule: less_induct)
  case less
  let ?delta = "int (length t) - int (length r)"
  note O = ownsD [OF less.prems(2)]
  have S: "length x = length s" "drop n x = drop n s" "n \<le> length s" "acc \<le> n" using less.prems(5) by (auto simp: shrunk_def)
  obtain nt kt pt where T: "bm_hdr h jt = Some \<lparr>b_mlen = nt, b_slen = int (length t), b_data = Some (kt, pt)\<rparr>" "reads h jt t"
    using argE [OF less.prems(1,3)] .
  obtain nr kr pr where R: "bm_hdr h jr = Some \<lparr>b_mlen = nr, b_slen = int (length r), b_data = Some (kr, pr)\<rparr>" "kr \<noteq> k"
    "rdn h (Some (kr, pr)) 0 (int (length r)) = Some (map Some r)"
    using argE [OF less.prems(1,4)] .
  note I = instr_ok [OF owns_reads [OF less.prems(2)] T(2), of n, unfolded next_match_suffix [OF S(2,1)]]
  show ?case
  proof (cases "next_match same t s n")
    case None
    then have "shrink_loop instr (Some i) (Some jt) (Some jr) ?delta (int n) (int acc) h = Some (int n, int acc, h)"
      using I by (subst shrink_loop.simps) (simp add: BSTR_ERR_def)
    moreover have "take (n - acc) x @ drop n s = take (n - acc) x @ replaced_from same t r s n" using None by (simp add: replaced_from_None)
    ultimately show ?thesis using less.prems(1,2,5) framed_refl by blast
  next
    case (Some m)
    note N = next_match_Some [OF Some]
    have tne: "t \<noteq> []" using assms by auto
    define x1 where "x1 = take (n - acc) x @ take (m - n) (drop n x) @ drop (m - acc) x"
    define x2 where "x2 = take (m - acc) x1 @ r @ drop (m - acc + length r) x1"
    let ?h1 = "with_chars h k x1 rest"
    let ?h2 = "with_chars ?h1 k x2 rest"
    let ?n = "m + length t" and ?acc = "acc + (length t - length r)"
    note C = shrink_step_chars [OF less.prems(5) conjunct1 [OF N] conjunct2 [OF N] less_imp_le [OF assms] x1_def x2_def]
    have l: "length x1 = length x" "length x2 = length x1" using C(1,2) S(1) by (simp_all only: shrunk_def)
    have o1: "owns ?h1 i x1 k rest" by (rule with_chars_owns [OF less.prems(2) l(1)])
    have f1: "framed h ?h1 i k k" by (rule with_chars_framed [OF less.prems(2,1)])
    have o2: "owns ?h2 i x2 k rest" by (rule with_chars_owns [OF o1 l(2)])
    have ok1: "heap_ok ?h1" using f1 by (simp add: framed_def)
    have f2: "framed ?h1 ?h2 i k k" by (rule with_chars_framed [OF o1 ok1])
    have f: "framed h ?h2 i k k" by (rule framed_trans [OF f1 f2])
    have e: "int n - int acc = int (n - acc)" "int m - int n = int (m - n)" "int m - int acc = int (m - acc)" using S(4) N by simp_all
    have 1: "(if int acc \<noteq> 0 \<and> int m > int n then memmove h (Some (k, 0)) (int n - int acc) (Some (k, 0)) (int n) (int m - int n) else Some h) = Some ?h1"
    proof (cases "acc \<noteq> 0 \<and> m > n")
      case True
      have "n - acc + (m - n) = m - acc" using S(4) N by simp
      then show ?thesis unfolding e using True move_chars [OF less.prems(2), of n "m - n" "n - acc"] N S by (simp add: x1_def)
    next
      case False
      have "x1 = x"
      proof (cases "acc = 0")
        case True
        then show ?thesis using N append_take_drop_id [of n x] append_take_drop_id [of "m - n" "drop n x"] by (simp add: x1_def)
      next
        case f: False
        then have "m = n" using False N by simp
        then show ?thesis by (simp add: x1_def)
      qed
      then show ?thesis using False with_chars_same [OF less.prems(2)] by auto
    qed
    have R1: "rdn ?h1 (Some (kr, pr)) 0 (int (length r)) = Some (map Some r)" using R(2,3) by (simp add: rdn_def with_chars_def)
    have 2: "(if int (length r) \<noteq> 0 then memcpy ?h1 (Some (k, 0)) (int m - int acc) (Some (kr, pr)) 0 (int (length r)) else Some ?h1) = Some ?h2"
    proof (cases "r = []")
      case True
      then have "x2 = x1" by (simp only: x2_def append_Nil append_take_drop_id list.size add_0_right)
      then have "?h2 = ?h1" using with_chars_same [OF o1] by (simp only:)
      moreover have "\<not> int (length r) \<noteq> 0" using True by simp
      ultimately show ?thesis by (simp only: if_False)
    next
      case False
      have "m - acc + length r \<le> length x1" unfolding l(1) using N assms S(1) by linarith
      from copy_chars [OF o1 this R1 R(2), folded x2_def] show ?thesis unfolding e by (simp only: of_nat_eq_0_iff length_0_conv False not_False_eq_True if_True)
    qed
    have p: "int m + int (length t) = int ?n" "cint (int ?n) = Some (int ?n)" "int acc + ?delta = int ?acc" "cint (int ?acc) = Some (int ?acc)"
      using N S(4) assms less.prems(6) by (auto simp: cint_def INT_MIN_def)
    have step: "shrink_loop instr (Some i) (Some jt) (Some jr) ?delta (int n) (int acc) h =
        shrink_loop instr (Some i) (Some jt) (Some jr) ?delta (int ?n) (int ?acc) ?h2"
      unfolding shrink_loop.simps [of instr "Some i" "Some jt" "Some jr" ?delta "int n" "int acc" h]
      using I Some by (simp only: hdr_of_Some O(1) T(1) R(1) Option.bind.simps bhdr.simps 1 2 p pos_or_err_simps if_True of_nat_0_le_iff)
    have "\<exists>n' acc' x' h'. shrink_loop instr (Some i) (Some jt) (Some jr) ?delta (int ?n) (int ?acc) ?h2 = Some (int n', int acc', h') \<and>
        owns h' i x' k rest \<and> framed ?h2 h' i k k \<and> shrunk s n' acc' x' \<and> (acc' = 0 \<longrightarrow> h' = ?h2 \<and> ?acc = 0 \<and> n' = ?n) \<and>
        take (n' - acc') x' @ drop n' s = take (?n - ?acc) x2 @ replaced_from same t r s ?n"
    proof (rule less.hyps)
      show "Suc (length s) - ?n < Suc (length s) - n" by (rule next_match_less [OF Some tne])
      show "heap_ok ?h2" using f2 by (simp add: framed_def)
      show "foreign_str ?h2 i k jt t" "foreign_str ?h2 i k jr r" using reads_framed [OF less.prems(1) f] less.prems(3,4) by blast+
    qed (use o2 C(2) less.prems(6) in blast)+
    then obtain n' acc' x' h' where H: "shrink_loop instr (Some i) (Some jt) (Some jr) ?delta (int ?n) (int ?acc) ?h2 = Some (int n', int acc', h')"
      "owns h' i x' k rest" "framed ?h2 h' i k k" "shrunk s n' acc' x'" "acc' = 0 \<longrightarrow> ?acc = 0"
      "take (n' - acc') x' @ drop n' s = take (?n - ?acc) x2 @ replaced_from same t r s ?n" by blast
    have "acc' \<noteq> 0" using H(5) assms by auto
    moreover have "take (n' - acc') x' @ drop n' s = take (n - acc) x @ replaced_from same t r s n"
      unfolding H(6) C(3) replaced_from_Some [OF Some tne] by simp
    ultimately show ?thesis using step H(1-4) framed_trans [OF f H(3)] by fastforce
  qed
qed

lemma shrink_ok:
  assumes "heap_ok h" "owns h i s k rest" "foreign_str h i k jt t" "foreign_str h i k jr r" "length r < length t" "n \<le> length s" "int (length s) \<le> INT_MAX"
  shows "\<exists>p a h1 h'. shrink_loop instr (Some i) (Some jt) (Some jr) (int (length t) - int (length r)) (int n) 0 h = Some (p, a, h1) \<and>
    shrink_end (Some i) p a h1 = Some h' \<and> outcome h BSTR_OK h' i s k rest (replace_all same t r n s)"
proof -
  have "shrunk s n 0 s" using assms(6) by (simp add: shrunk_def)
  from shrink_loop_ok [OF assms(5,1-4) this assms(7)]
  obtain n' acc x h1 where L: "shrink_loop instr (Some i) (Some jt) (Some jr) (int (length t) - int (length r)) (int n) 0 h = Some (int n', int acc, h1)"
    "owns h1 i x k rest" "framed h h1 i k k" "shrunk s n' acc x" "acc = 0 \<longrightarrow> h1 = h \<and> n' = n" "take (n' - acc) x @ drop n' s = replace_all same t r n s"
    by (auto simp: replace_all_def)
  have S: "length x = length s" "drop n' x = drop n' s" "n' \<le> length s" "acc \<le> n'" using L(4) by (auto simp: shrunk_def)
  show ?thesis
  proof (cases "acc = 0")
    case True
    then have "h1 = h" "n' = n" using L(5) by simp_all
    then have "x = s" using ownsD(2) [OF assms(2)] ownsD(2) [OF L(2)] S(1) by (simp add: map_injective append_eq_append_conv inj_on_def)
    then have "replace_all same t r n s = s" using L(6) True by simp
    moreover have "shrink_end (Some i) (int n') (int acc) h1 = Some h1" using True by (simp add: shrink_end_def)
    ultimately show ?thesis using L(1) \<open>h1 = h\<close> in_place_outcome [OF assms(2) framed_refl [OF assms(1)] refl] by fastforce
  next
    case False
    let ?u = "replace_all same t r n s"
    define y where "y = take (n' - acc) x @ take (length s - n') (drop n' x) @ drop (n' - acc + (length s - n')) x"
    let ?h2 = "with_chars h1 k y rest"
    note O = ownsD [OF L(2)]
    have ok1: "heap_ok h1" using L(3) by (simp add: framed_def)
    have lu: "length ?u = length s - acc" using S unfolding L(6) [symmetric] by simp
    have e: "int n' - int acc = int (n' - acc)" "int (length x) - int n' = int (length s - n')" "int (length x) - int acc = int (length ?u)"
      using S by (simp_all add: lu of_nat_diff)
    have mv: "(if int (length x) > int n' then memmove h1 (Some (k, 0)) (int n' - int acc) (Some (k, 0)) (int n') (int (length x) - int n') else Some h1) = Some ?h2"
    proof (cases "n' < length s")
      case True
      then show ?thesis unfolding e using move_chars [OF L(2), of n' "length s - n'" "n' - acc", folded y_def] S by simp
    next
      case False
      then have "y = x" using S by (simp add: y_def)
      then show ?thesis using False S(1) with_chars_same [OF L(2)] by simp
    qed
    have lx: "length y = length x" using S by (simp add: y_def)
    have o2: "owns ?h2 i y k rest" by (rule with_chars_owns [OF L(2) lx])
    have f2: "framed h1 ?h2 i k k" by (rule with_chars_framed [OF L(2) ok1])
    note O2 = ownsD [OF o2]
    let ?m = "map Some y @ Some 0 # rest"
    have lm: "length ?u < length ?m" using S(1) lu lx by simp
    have "take (length ?u) y = ?u"
    proof -
      have "length (take (n' - acc) x @ take (length s - n') (drop n' x)) = length ?u" using S lu by simp
      moreover have "take (n' - acc) x @ take (length s - n') (drop n' x) = ?u" using S L(6) by simp
      ultimately show ?thesis unfolding y_def by (metis append.assoc append_eq_conv_conj)
    qed
    moreover have "length ?u \<le> length y" using lx S(1) lu by simp
    ultimately have tk: "take (length ?u) ?m = map Some ?u" by (simp only: take_owned)
    have "Option.bind (set_hdr ?h2 (Some i) (\<lparr>b_mlen = int (length y) + 1 + int (length rest), b_slen = int (length y), b_data = Some (k, 0)\<rparr>
        \<lparr>b_slen := int (length ?u)\<rparr>)) (\<lambda>h. wrb h (Some (k, 0)) (int (length ?u)) 0) = Some (terminated ?h2 i k ?m ?u)"
      by (rule end_hdr_first [OF O2(2) tk lm O2(1), where l = "int (length y)"]) simp_all
    then have "shrink_end (Some i) (int n') (int acc) h1 = Some (terminated ?h2 i k ?m ?u)"
      unfolding lx using False by (simp only: shrink_end_def hdr_of_Some O(1) Option.bind.simps bhdr.simps mv e(3) of_nat_eq_0_iff if_True not_False_eq_True)
    moreover have "outcome ?h2 BSTR_OK (terminated ?h2 i k ?m ?u) i y k rest ?u"
      by (rule terminated_outcome [OF o2 framed_refl _ lm]) (use f2 in \<open>simp_all add: framed_def\<close>)
    then have "outcome h BSTR_OK (terminated ?h2 i k ?m ?u) i s k rest ?u"
      by (rule outcome_after [OF assms(1,2) framed_trans [OF L(3) f2], rotated]) (use lx S(1) in simp)
    ultimately show ?thesis using L(1) by blast
  qed
qed

end

section \<open>The expanding case\<close>

text \<open>The positions of the matches, and the result in terms of them.\<close>

function match_list :: "same_fn \<Rightarrow> bytes \<Rightarrow> bytes \<Rightarrow> nat \<Rightarrow> nat list" where
  "match_list same t s n =
     (case next_match same t s n of None \<Rightarrow> [] | Some i \<Rightarrow> if t = [] then [] else i # match_list same t s (i + length t))"
  by pat_completeness auto
termination by (relation "measure (\<lambda>(same, t, s, n). Suc (length s) - n)") (auto dest: next_match_less)

declare match_list.simps [simp del]

lemma match_list_None: "next_match same t s n = None \<Longrightarrow> match_list same t s n = []"
  by (subst match_list.simps) simp

lemma match_list_Some: "next_match same t s n = Some i \<Longrightarrow> t \<noteq> [] \<Longrightarrow> match_list same t s n = i # match_list same t s (i + length t)"
  by (subst match_list.simps) simp

definition upto_next :: "bytes \<Rightarrow> nat list \<Rightarrow> nat" where
  "upto_next s ps = (case ps of [] \<Rightarrow> length s | p # _ \<Rightarrow> p)"

lemma upto_next_simps [simp]: "upto_next s [] = length s" "upto_next s (p # ps) = p"
  by (simp_all add: upto_next_def)

text \<open>The result from the first match on: \<open>l\<close> is the length of the matches.\<close>

primrec rebuilt :: "nat \<Rightarrow> bytes \<Rightarrow> bytes \<Rightarrow> nat list \<Rightarrow> bytes" where
  "rebuilt l r s [] = []"
| "rebuilt l r s (p # ps) = r @ take (upto_next s ps - (p + l)) (drop (p + l) s) @ rebuilt l r s ps"

fun spaced :: "nat \<Rightarrow> bytes \<Rightarrow> nat \<Rightarrow> nat list \<Rightarrow> bool" where
  "spaced l s n [] \<longleftrightarrow> n \<le> length s"
| "spaced l s n (p # ps) \<longleftrightarrow> n \<le> p \<and> p + l \<le> length s \<and> spaced l s (p + l) ps"

lemma match_list_spaced: "n \<le> length s \<Longrightarrow> t \<noteq> [] \<Longrightarrow> spaced (length t) s n (match_list same t s n)"
proof (induction "Suc (length s) - n" arbitrary: n rule: less_induct)
  case less
  show ?case
  proof (cases "next_match same t s n")
    case None
    then show ?thesis using less.prems by (simp add: match_list_None)
  next
    case (Some i)
    then show ?thesis using next_match_Some [OF Some] less.hyps [OF next_match_less [OF Some less.prems(2)]] less.prems
      by (simp add: match_list_Some)
  qed
qed

lemma replaced_from_rebuilt:
  "n \<le> length s \<Longrightarrow> t \<noteq> [] \<Longrightarrow> replaced_from same t r s n =
    take (upto_next s (match_list same t s n) - n) (drop n s) @ rebuilt (length t) r s (match_list same t s n)"
proof (induction "Suc (length s) - n" arbitrary: n rule: less_induct)
  case less
  show ?case
  proof (cases "next_match same t s n")
    case None
    then show ?thesis using less.prems by (simp add: match_list_None replaced_from_None)
  next
    case (Some i)
    then show ?thesis using next_match_Some [OF Some] less.hyps [OF next_match_less [OF Some less.prems(2)]] less.prems
      by (simp add: match_list_Some replaced_from_Some)
  qed
qed

lemma upto_next_bounds: "spaced l s n ps \<Longrightarrow> n \<le> upto_next s ps \<and> upto_next s ps \<le> length s"
  by (cases ps) auto

lemma length_rebuilt:
  "spaced l s n ps \<Longrightarrow> l \<le> length r \<Longrightarrow> length (rebuilt l r s ps) + upto_next s ps = length s + length ps * (length r - l)"
proof (induction ps arbitrary: n)
  case (Cons p ps)
  have "length (rebuilt l r s ps) + upto_next s ps = length s + length ps * (length r - l)" using Cons by auto
  moreover have U: "p + l \<le> upto_next s ps" "upto_next s ps \<le> length s" using Cons.prems upto_next_bounds [of l s "p + l" ps] by auto
  moreover obtain g where "length r = g + l" using Cons.prems(2) by (metis le_add_diff_inverse2)
  moreover have "length (take (upto_next s ps - (p + l)) (drop (p + l) s)) = upto_next s ps - (p + l)" using U by simp
  ultimately show ?case by (simp del: length_take length_drop)
qed simp

lemma spaced_length: "spaced l s n ps \<Longrightarrow> 0 < l \<Longrightarrow> length ps + n \<le> length s"
  by (induction ps arbitrary: n) fastforce+

lemma replace_all_rebuilt:
  assumes "n \<le> length s" "t \<noteq> []"
  shows "replace_all same t r n s = take (upto_next s (match_list same t s n)) s @ rebuilt (length t) r s (match_list same t s n)"
proof -
  have "n \<le> upto_next s (match_list same t s n)" using upto_next_bounds [OF match_list_spaced [OF assms]] by simp
  then have "take n s @ take (upto_next s (match_list same t s n) - n) (drop n s) = take (upto_next s (match_list same t s n)) s"
    by (metis take_add le_add_diff_inverse)
  then show ?thesis unfolding replace_all_def replaced_from_rebuilt [OF assms] by (simp only: append_assoc [symmetric])
qed

lemma length_replace_all:
  assumes "n \<le> length s" "t \<noteq> []" "length t \<le> length r"
  shows "length (replace_all same t r n s) = length s + length (match_list same t s n) * (length r - length t)"
  using length_rebuilt [OF match_list_spaced [OF assms(1,2), of same] assms(3)] upto_next_bounds [OF match_list_spaced [OF assms(1,2), of same]]
  unfolding replace_all_rebuilt [OF assms(1,2)] by simp

text \<open>The array of positions.\<close>

definition mt_ok :: "matches \<Rightarrow> bool" where
  "mt_ok d \<longleftrightarrow> int (length (mt_pos d)) < mt_mlen d \<and> 32 \<le> mt_mlen d \<and> (mt_static d \<longrightarrow> mt_mlen d = 32)"

lemma mt_grow_ok:
  assumes "mt_ok d" "length (mt_pos d) < 2 ^ 27 - 2"
  shows "\<exists>g al. mt_grow d h = Some (g, h\<lparr>bm_alloc := al\<rparr>) \<and> (bm_alloc h = [] \<longrightarrow> al = []) \<and>
    (g = None \<and> bm_alloc h \<noteq> [] \<or> (\<exists>d'. g = Some d' \<and> mt_pos d' = mt_pos d \<and> mt_ok d' \<and> int (length (mt_pos d)) < mt_mlen d' - 1))"
proof (cases "int (length (mt_pos d)) \<ge> mt_mlen d - 1")
  case False
  then show ?thesis using assms(1) by (intro exI [of _ "Some d"] exI [of _ "bm_alloc h"]) (auto simp: mt_grow_def)
next
  case True
  have m: "mt_mlen d \<le> 134217727" "32 \<le> mt_mlen d" using True assms by (auto simp: mt_ok_def)
  have c: "cint (mt_mlen d + mt_mlen d) = Some (mt_mlen d + mt_mlen d)" "cint (8 * (mt_mlen d + mt_mlen d)) = Some (8 * (mt_mlen d + mt_mlen d))"
    using m by (simp_all add: cint_def INT_MIN_def INT_MAX_def)
  obtain ok al where al: "alloc_next (bm_alloc h) = (ok, al)" by (cases "alloc_next (bm_alloc h)")
  have e: "mt_grow d h = Some (if ok then Some (d\<lparr>mt_static := False, mt_mlen := mt_mlen d + mt_mlen d\<rparr>) else None, h\<lparr>bm_alloc := al\<rparr>)"
    using True m c al by (simp add: mt_grow_def INT_MAX_def)
  have "bm_alloc h = [] \<longrightarrow> ok \<and> al = []" using alloc_next_Nil_iff [OF al] by simp
  then show ?thesis using e True m assms(1) by (cases ok) (auto simp: mt_ok_def)
qed

lemma mt_add_ok: "mt_ok d \<Longrightarrow> mt_add d p = Some (d\<lparr>mt_pos := mt_pos d @ [p]\<rparr>)"
  by (auto simp: mt_add_def mt_room_def mt_ok_def INITIAL_STATIC_FIND_INDEX_COUNT_def)

lemma reads_alloc [simp]: "reads (h\<lparr>bm_alloc := al\<rparr>) i s = reads h i s"
  by (simp add: reads_def)

context bstr_search begin

lemma collect_loop_ok:
  assumes "bm_hdr h jt = Some ht" "b_slen ht = int (length t)" "t \<noteq> []" "length t < length r" "reads h i s" "reads h jt t"
    "length s < 2 ^ 27 - 1"
  shows "n \<le> length s \<Longrightarrow> mt_ok d \<Longrightarrow> mt_pos d = map int ps \<Longrightarrow> length ps \<le> n \<Longrightarrow> (bm_alloc h = [] \<longrightarrow> al = []) \<Longrightarrow>
    int (length (ps @ match_list same t s n) * (length r - length t)) \<le> INT_MAX \<Longrightarrow>
    \<exists>c al'. collect_loop instr (Some i) (Some jt) (int (length t) - int (length r)) d (int (length ps * (length r - length t))) (int n) (h\<lparr>bm_alloc := al\<rparr>) =
        Some (c, h\<lparr>bm_alloc := al'\<rparr>) \<and> (bm_alloc h = [] \<longrightarrow> al' = []) \<and>
      (c = None \<and> bm_alloc h \<noteq> [] \<or> (\<exists>d'. c = Some (d', int (length (ps @ match_list same t s n) * (length r - length t))) \<and>
         mt_ok d' \<and> mt_pos d' = map int (ps @ match_list same t s n)))"
proof (induction "Suc (length s) - n" arbitrary: n d ps al rule: less_induct)
  case less
  let ?delta = "int (length t) - int (length r)" and ?g = "length r - length t"
  let ?h = "h\<lparr>bm_alloc := al\<rparr>"
  have I: "instr (Some i) (int n) (Some jt) ?h = Some (pos_or_err (next_match same t s n))"
    by (rule instr_ok) (use assms(5,6) in simp_all)
  show ?case
  proof (cases "next_match same t s n")
    case None
    have "collect_loop instr (Some i) (Some jt) ?delta d (int (length ps * ?g)) (int n) ?h = Some (Some (d, int (length ps * ?g)), ?h)"
      using I None by (subst collect_loop.simps) (simp add: BSTR_ERR_def)
    then show ?thesis using less.prems None by (intro exI [of _ "Some (d, int (length ps * ?g))"] exI [of _ al]) (simp add: match_list_None)
  next
    case (Some m)
    note N = next_match_Some [OF Some]
    have lt: "0 < length t" using assms(3) by simp
    have ml: "match_list same t s n = m # match_list same t s (m + length t)" by (rule match_list_Some [OF Some assms(3)])
    have "length (mt_pos d) = length ps" using less.prems(3) by simp
    then have "length (mt_pos d) < 2 ^ 27 - 2" using less.prems(4) N lt assms(7) by linarith
    from mt_grow_ok [OF less.prems(2) this, of ?h] obtain g al1 where G: "mt_grow d ?h = Some (g, h\<lparr>bm_alloc := al1\<rparr>)" "al = [] \<longrightarrow> al1 = []"
      "g = None \<and> al \<noteq> [] \<or> (\<exists>d'. g = Some d' \<and> mt_pos d' = mt_pos d \<and> mt_ok d' \<and> int (length (mt_pos d)) < mt_mlen d' - 1)"
      by auto
    show ?thesis
    proof (cases g)
      case None
      have "collect_loop instr (Some i) (Some jt) ?delta d (int (length ps * ?g)) (int n) ?h = Some (None, h\<lparr>bm_alloc := al1\<rparr>)"
        using I Some G(1) None by (subst collect_loop.simps) simp
      then show ?thesis using G None less.prems(5) by auto
    next
      case g: (Some d1)
      have D: "mt_pos d1 = map int ps" "mt_ok d1" "int (length ps) < mt_mlen d1 - 1" using G(3) g less.prems(3) by auto
      let ?d2 = "d1\<lparr>mt_pos := mt_pos d1 @ [int m]\<rparr>"
      let ?ps = "ps @ [m]"
      have bound: "int (length ?ps * ?g) \<le> INT_MAX"
        by (rule order_trans [OF _ less.prems(6)]) (simp add: ml add_mult_distrib del: of_nat_mult of_nat_diff)
      have a: "int (length ps * ?g) - ?delta = int (length ?ps * ?g)" 
      proof -
        have "?delta = - int ?g" using assms(4) by (simp add: of_nat_diff)
        moreover have "length ?ps * ?g = length ps * ?g + ?g" by simp
        ultimately show ?thesis by (simp only: of_nat_add diff_minus_eq_add)
      qed
      have ca: "cint (int (length ?ps * ?g)) = Some (int (length ?ps * ?g))" using bound by (simp add: cint_def INT_MIN_def del: of_nat_mult of_nat_diff)
      have p: "int m + int (length t) = int (m + length t)" "cint (int (m + length t)) = Some (int (m + length t))"
        using N assms(7) by (simp_all add: cint_def INT_MIN_def INT_MAX_def)
      have step: "collect_loop instr (Some i) (Some jt) ?delta d (int (length ps * ?g)) (int n) ?h =
          collect_loop instr (Some i) (Some jt) ?delta ?d2 (int (length ?ps * ?g)) (int (m + length t)) (h\<lparr>bm_alloc := al1\<rparr>)"
        unfolding collect_loop.simps [of instr "Some i" "Some jt" ?delta d "int (length ps * ?g)" "int n" ?h]
        using I Some G(1) g mt_add_ok [OF D(2), of "int m"] assms(1,2)
        by (simp add: a ca p del: of_nat_add of_nat_mult of_nat_diff length_append)
      have "\<exists>c al'. collect_loop instr (Some i) (Some jt) ?delta ?d2 (int (length ?ps * ?g)) (int (m + length t)) (h\<lparr>bm_alloc := al1\<rparr>) =
          Some (c, h\<lparr>bm_alloc := al'\<rparr>) \<and> (bm_alloc h = [] \<longrightarrow> al' = []) \<and>
        (c = None \<and> bm_alloc h \<noteq> [] \<or> (\<exists>d'. c = Some (d', int (length (?ps @ match_list same t s (m + length t)) * ?g)) \<and>
           mt_ok d' \<and> mt_pos d' = map int (?ps @ match_list same t s (m + length t))))"
      proof (rule less.hyps)
        show "Suc (length s) - (m + length t) < Suc (length s) - n" by (rule next_match_less [OF Some assms(3)])
        show "mt_ok ?d2" using D by (simp add: mt_ok_def)
        show "length ?ps \<le> m + length t" unfolding length_append list.size using less.prems(4) N lt by linarith
        show "int (length (?ps @ match_list same t s (m + length t)) * ?g) \<le> INT_MAX" using less.prems(6) by (simp add: ml)
      qed (use N lt D less.prems(4,5) G(2) in auto)
      then show ?thesis using step by (simp add: ml del: of_nat_mult of_nat_diff)
    qed
  qed
qed

end

lemma spaced_drop: "spaced l s n ps \<Longrightarrow> j < length ps \<Longrightarrow> n \<le> ps ! j \<and> ps ! j + l \<le> length s \<and> spaced l s (ps ! j + l) (drop (Suc j) ps)"
proof (induction ps arbitrary: n j)
  case (Cons p ps)
  show ?case
  proof (cases j)
    case 0
    then show ?thesis using Cons.prems by simp
  next
    case (Suc i)
    then have "p + l \<le> ps ! i \<and> ps ! i + l \<le> length s \<and> spaced l s (ps ! i + l) (drop (Suc i) ps)"
      using Cons.IH [of "p + l" i] Cons.prems by simp
    then show ?thesis using Suc Cons.prems(1) by simp
  qed
qed simp

lemma nth_upto_next: "n \<le> length ps \<Longrightarrow> (map int ps @ [int (length s)]) ! n = int (upto_next s (drop n ps))"
  by (cases "n = length ps") (simp_all add: nth_append upto_next_def Cons_nth_drop_Suc [symmetric])

lemma put_take: "n \<le> d \<Longrightarrow> d \<le> length m \<Longrightarrow> take n (put m d xs) = take n m"
  by (simp add: put_def)

lemma put_drop: "d \<le> length m \<Longrightarrow> drop d (put m d xs) = xs @ drop (d + length xs) m"
  by (simp add: put_def)

lemma rdn_nat: "bm_blk h k = Some m \<Longrightarrow> a + n \<le> length m \<Longrightarrow> rdn h (Some (k, 0)) (int a) (int n) = Some (take n (drop a m))"
  by (simp add: rdn_def)

text \<open>One segment: the characters behind the match move up, then the replacement is written before them.\<close>

lemma segment_block:
  assumes "take u m = map Some (take u s)" "u \<le> length s" "p + l \<le> u" "length r = l + g" "u + Suc n * g + length x \<le> length m"
    "take (length x) (drop (u + Suc n * g) m) = map Some x"
    "m1 = put m (p + l + Suc n * g) (take (u - (p + l)) (drop (p + l) m))" "m2 = put m1 (p + n * g) (map Some r)"
  shows "length m1 = length m" "length m2 = length m" "take p m2 = map Some (take p s)"
    "take (length (r @ take (u - (p + l)) (drop (p + l) s) @ x)) (drop (p + n * g) m2) = map Some (r @ take (u - (p + l)) (drop (p + l) s) @ x)"
proof -
  let ?y = "take (u - (p + l)) (drop (p + l) s)"
  have um: "u \<le> length m" using assms(5) by simp
  have "take (u - (p + l)) (drop (p + l) m) = drop (p + l) (take u m)" by (simp add: drop_take)
  also have "\<dots> = map Some ?y" unfolding assms(1) by (simp add: drop_map drop_take)
  finally have y: "take (u - (p + l)) (drop (p + l) m) = map Some ?y" .
  have ly: "length ?y = u - (p + l)" using assms(2,3) by simp
  have d: "p + l + Suc n * g + length ?y = u + Suc n * g" using ly assms(3) by simp
  have e: "p + n * g + length r = p + l + Suc n * g" using assms(4) by simp
  show l1: "length m1 = length m" unfolding assms(7) y using d assms(5) by (intro length_put) simp
  show l2: "length m2 = length m" unfolding assms(8) l1 [symmetric] using e d assms(5) l1 by (intro length_put) simp
  have b1: "p + l + Suc n * g \<le> length m" "p + n * g \<le> length m1" using d e assms(5) l1 by linarith+
  have "take p m2 = take p m1" unfolding assms(8) by (rule put_take) (use b1 in simp_all)
  also have "\<dots> = take p m" unfolding assms(7) by (rule put_take) (use b1 in simp_all)
  also have "\<dots> = take p (take u m)" using assms(3) by simp
  also have "\<dots> = map Some (take p s)" unfolding assms(1) using assms(3) by (simp add: take_map)
  finally show "take p m2 = map Some (take p s)" .
  have "drop (p + n * g) m2 = map Some r @ drop (p + l + Suc n * g) m1"
    unfolding assms(8) put_drop [OF b1(2)] length_map e ..
  also have "drop (p + l + Suc n * g) m1 = map Some ?y @ drop (u + Suc n * g) m"
    unfolding assms(7) y put_drop [OF b1(1)] length_map d ..
  finally show "take (length (r @ ?y @ x)) (drop (p + n * g) m2) = map Some (r @ ?y @ x)"
    using assms(6) by simp
qed

lemma expand_loop_ok:
  assumes "spaced l s n0 ps" "length r = l + g" "int (length s + length ps * g) \<le> INT_MAX" "kr \<noteq> k"
  shows "n \<le> length ps \<Longrightarrow> bm_blk h k = Some m \<Longrightarrow> length s + length ps * g < length m \<Longrightarrow>
    take (upto_next s (drop n ps)) m = map Some (take (upto_next s (drop n ps)) s) \<Longrightarrow>
    take (length (rebuilt l r s (drop n ps))) (drop (upto_next s (drop n ps) + n * g) m) = map Some (rebuilt l r s (drop n ps)) \<Longrightarrow>
    rdn h (Some (kr, pr)) 0 (int (length r)) = Some (map Some r) \<Longrightarrow>
    \<exists>m'. expand_loop (Some (k, 0)) (int l) (Some (kr, pr)) (int (length r)) (int l - int (length r)) (map int ps @ [int (length s)]) n (int (n * g)) h =
        Some (h\<lparr>bm_blk := (bm_blk h)(k \<mapsto> m')\<rparr>) \<and> length m' = length m \<and>
      take (length s + length ps * g) m' = map Some (take (upto_next s ps) s @ rebuilt l r s ps)"
proof (induction n arbitrary: m h)
  case 0
  have lr: "l \<le> length r" using assms(2) by simp
  have L: "length (rebuilt l r s ps) + upto_next s ps = length s + length ps * g" using length_rebuilt [OF assms(1) lr] assms(2) by simp
  have u: "upto_next s ps \<le> length s" using upto_next_bounds [OF assms(1)] by simp
  have "take (length s + length ps * g) m = take (upto_next s ps) m @ take (length (rebuilt l r s ps)) (drop (upto_next s ps) m)"
    unfolding L [symmetric] by (simp add: take_add add.commute)
  then show ?case using 0 u by (intro exI [of _ m]) (auto intro!: bmem.equality)
next
  case (Suc n)
  let ?p = "ps ! n" and ?u = "upto_next s (drop (Suc n) ps)" and ?x = "rebuilt l r s (drop (Suc n) ps)"
  let ?d = "map int ps @ [int (length s)]"
  have n: "n < length ps" using Suc.prems(1) by simp
  note P = spaced_drop [OF assms(1) n]
  have dn: "drop n ps = ?p # drop (Suc n) ps" using n by (simp add: Cons_nth_drop_Suc)
  have U: "?p + l \<le> ?u" "?u \<le> length s" using upto_next_bounds [OF conjunct2 [OF conjunct2 [OF P]]] by simp_all
  have lr: "l \<le> length r" using assms(2) by simp
  have g: "length r - l = g" using assms(2) by simp
  have "length ?x + ?u = length s + length (drop (Suc n) ps) * g"
    using length_rebuilt [OF conjunct2 [OF conjunct2 [OF P]] lr] unfolding g .
  moreover have "Suc n * g + length (drop (Suc n) ps) * g = length ps * g" 
  proof -
    have "Suc n + length (drop (Suc n) ps) = length ps" using n by simp
    then show ?thesis by (metis add_mult_distrib)
  qed
  ultimately have L: "?u + Suc n * g + length ?x = length s + length ps * g" by linarith
  have Lm: "?u + Suc n * g + length ?x \<le> length m" using L Suc.prems(3) by simp
  define m1 where "m1 = put m (?p + l + Suc n * g) (take (?u - (?p + l)) (drop (?p + l) m))"
  define m2 where "m2 = put m1 (?p + n * g) (map Some r)"
  note B = segment_block [OF Suc.prems(4) U(2,1) assms(2) Lm Suc.prems(5) m1_def m2_def]
  let ?h1 = "h\<lparr>bm_blk := (bm_blk h)(k \<mapsto> m1)\<rparr>"
  let ?h2 = "h\<lparr>bm_blk := (bm_blk h)(k \<mapsto> m2)\<rparr>"
  have bs: "int (length s) \<le> INT_MAX" "int (n * g) \<le> INT_MAX"
  proof -
    show "int (length s) \<le> INT_MAX" by (rule order_trans [OF _ assms(3)]) simp
    have "n * g \<le> length ps * g" using n by simp
    then show "int (n * g) \<le> INT_MAX" using assms(3) by linarith
  qed
  have c1: "cint (?d ! n + int l) = Some (int (?p + l))" using nth_upto_next [of n ps s] n dn P bs(1) by (simp add: cint_def INT_MIN_def)
  have c2: "cint (?d ! Suc n - int (?p + l)) = Some (int (?u - (?p + l)))"
    unfolding nth_upto_next [OF Suc.prems(1)] using U bs(1) by (simp add: cint_def INT_MIN_def of_nat_diff)
  have a: "int (Suc n * g) + (int l - int (length r)) = int (n * g)" using assms(2) by simp
  have c3: "cint (int (n * g)) = Some (int (n * g))" using bs(2) by (simp add: cint_def INT_MIN_def del: of_nat_mult)
  have 1: "(if int (?u - (?p + l)) \<noteq> 0 then memmove h (Some (k, 0)) (int (?p + l) + int (Suc n * g)) (Some (k, 0)) (int (?p + l)) (int (?u - (?p + l))) else Some h) = Some ?h1"
  proof (cases "?u = ?p + l")
    case True
    then have "m1 = m" unfolding m1_def using Lm by simp
    then show ?thesis using True Suc.prems(2) by (auto intro!: bmem.equality)
  next
    case False
    have "rdn h (Some (k, 0)) (int (?p + l)) (int (?u - (?p + l))) = Some (take (?u - (?p + l)) (drop (?p + l) m))"
      by (rule rdn_nat [OF Suc.prems(2)]) (use U Lm in simp)
    moreover have "wrn h (Some (k, 0)) (int (?p + l + Suc n * g)) (take (?u - (?p + l)) (drop (?p + l) m)) = Some ?h1"
      unfolding m1_def by (rule wrn_put [OF Suc.prems(2)]) (use U Lm in simp)
    moreover have "int (?u - (?p + l)) \<noteq> 0" using False U by simp
    ultimately show ?thesis by (simp only: memmove_def of_nat_add [symmetric] Option.bind.simps if_True not_False_eq_True)
  qed
  have 2: "(if int (length r) \<noteq> 0 then memmove ?h1 (Some (k, 0)) (int (?p + l) + int (Suc n * g) - int (length r)) (Some (kr, pr)) 0 (int (length r)) else Some ?h1) = Some ?h2"
  proof (cases "r = []")
    case True
    have "?p + n * g \<le> length m1" using U Lm unfolding B(1) by simp
    then have "m2 = m1" unfolding m2_def True by simp
    then show ?thesis using True by simp
  next
    case False
    have e: "int (?p + l) + int (Suc n * g) - int (length r) = int (?p + n * g)" using assms(2) by simp
    have "rdn ?h1 (Some (kr, pr)) 0 (int (length r)) = Some (map Some r)" using Suc.prems(6) assms(4) by (simp add: rdn_def)
    moreover have "wrn ?h1 (Some (k, 0)) (int (?p + n * g)) (map Some r) = Some ?h2"
    proof -
      have "bm_blk ?h1 k = Some m1" by simp
      moreover have "?p + n * g + length (map Some r) \<le> length m1" unfolding B(1) length_map assms(2) using U Lm by simp
      ultimately show ?thesis using wrn_put [of ?h1 k m1 "?p + n * g" "map Some r"] unfolding m2_def by simp
    qed
    ultimately show ?thesis unfolding e using False by (simp only: memmove_def Option.bind.simps of_nat_eq_0_iff length_0_conv if_True not_False_eq_True)
  qed
  have "\<exists>m'. expand_loop (Some (k, 0)) (int l) (Some (kr, pr)) (int (length r)) (int l - int (length r)) ?d n (int (n * g)) ?h2 =
        Some (?h2\<lparr>bm_blk := (bm_blk ?h2)(k \<mapsto> m')\<rparr>) \<and> length m' = length m2 \<and>
      take (length s + length ps * g) m' = map Some (take (upto_next s ps) s @ rebuilt l r s ps)"
  proof (rule Suc.IH)
    show "length s + length ps * g < length m2" using Suc.prems(3) B(2) by simp
    show "take (upto_next s (drop n ps)) m2 = map Some (take (upto_next s (drop n ps)) s)" unfolding dn upto_next_simps by (rule B(3))
    show "take (length (rebuilt l r s (drop n ps))) (drop (upto_next s (drop n ps) + n * g) m2) = map Some (rebuilt l r s (drop n ps))"
      unfolding dn upto_next_simps rebuilt.simps by (rule B(4))
    show "rdn ?h2 (Some (kr, pr)) 0 (int (length r)) = Some (map Some r)" using Suc.prems(6) assms(4) by (simp add: rdn_def)
  qed (use n in simp_all)
  then obtain m' where M: "expand_loop (Some (k, 0)) (int l) (Some (kr, pr)) (int (length r)) (int l - int (length r)) ?d n (int (n * g)) ?h2 =
        Some (?h2\<lparr>bm_blk := (bm_blk ?h2)(k \<mapsto> m')\<rparr>)" "length m' = length m2"
      "take (length s + length ps * g) m' = map Some (take (upto_next s ps) s @ rebuilt l r s ps)" by blast
  have "expand_loop (Some (k, 0)) (int l) (Some (kr, pr)) (int (length r)) (int l - int (length r)) ?d (Suc n) (int (Suc n * g)) h =
      Some (h\<lparr>bm_blk := (bm_blk h)(k \<mapsto> m')\<rparr>)"
    unfolding expand_loop.simps c1 c2 Option.bind.simps 1 2 a c3 M(1) by simp
  moreover have "length m' = length m" using M(2) B(2) by simp
  ultimately show ?case using M(3) by blast
qed

context bstr_search begin

lemma expand_ok:
  assumes "heap_ok h" "owns h i s k rest" "foreign_str h i k jt t" "foreign_str h i k jr r" "t \<noteq> []" "length t < length r" "n \<le> length s"
    "length s < 2 ^ 27 - 1" "int (length (replace_all same t r n s)) < INT_MAX" "length s + 1 + length rest \<le> 2 ^ 27"
  shows "\<exists>res h'. expand instr (Some i) (Some jt) (Some jr) (int (length t) - int (length r)) (int n) h = Some (res, h') \<and>
    outcome h res h' i s k rest (replace_all same t r n s)"
proof -
  note O = ownsD [OF assms(2)]
  let ?ps = "match_list same t s n" and ?g = "length r - length t" and ?delta = "int (length t) - int (length r)"
  let ?u = "replace_all same t r n s"
  let ?d0 = "\<lparr>mt_pos = [], mt_static = True, mt_mlen = INITIAL_STATIC_FIND_INDEX_COUNT\<rparr>"
  obtain nt kt pt where T: "bm_hdr h jt = Some \<lparr>b_mlen = nt, b_slen = int (length t), b_data = Some (kt, pt)\<rparr>" "jt \<noteq> i" "reads h jt t"
    using argE [OF assms(1,3)] .
  obtain nr kr pr where R: "bm_hdr h jr = Some \<lparr>b_mlen = nr, b_slen = int (length r), b_data = Some (kr, pr)\<rparr>" "kr \<noteq> k" "kr < bm_next h" "jr \<noteq> i"
    "rdn h (Some (kr, pr)) 0 (int (length r)) = Some (map Some r)"
    using argE [OF assms(1,4)] .
  have lu: "length ?u = length s + length ?ps * ?g" by (rule length_replace_all) (use assms(5-7) in auto)
  have lg: "length r = length t + ?g" using assms(6) by simp
  note SP = match_list_spaced [OF assms(7,5), of same]
  have h0: "h\<lparr>bm_alloc := bm_alloc h\<rparr> = h" by simp
  have bl: "int (length ?u) \<le> INT_MAX" "int (length ?ps * ?g) \<le> INT_MAX" "int (length s) \<le> INT_MAX"
    using assms(9) unfolding lu by linarith+
  have "mt_ok ?d0" by (simp add: mt_ok_def INITIAL_STATIC_FIND_INDEX_COUNT_def)
  from collect_loop_ok [OF T(1) _ assms(5,6) owns_reads [OF assms(2)] T(3) assms(8,7) this, of "[]" "bm_alloc h", unfolded h0 list.size mult_0 of_nat_0 append_Nil] bl(2)
  obtain c al where C: "collect_loop instr (Some i) (Some jt) ?delta ?d0 0 (int n) h = Some (c, h\<lparr>bm_alloc := al\<rparr>)" "bm_alloc h = [] \<longrightarrow> al = []"
    "c = None \<and> bm_alloc h \<noteq> [] \<or> (\<exists>d. c = Some (d, int (length ?ps * ?g)) \<and> mt_ok d \<and> mt_pos d = map int ?ps)"
    by auto
  show ?thesis
  proof (cases c)
    case None
    then show ?thesis using C owned_failed [OF assms(2,1)] by (auto simp: expand_def)
  next
    case (Some p)
    then obtain d where d: "c = Some (d, int (length ?ps * ?g))" "mt_ok d" "mt_pos d = map int ?ps" using C(3) by auto
    let ?h = "h\<lparr>bm_alloc := al\<rparr>"
    let ?d = "map int ?ps @ [int (length s)]"
    have add: "mt_add d (int (length s)) = Some (d\<lparr>mt_pos := ?d\<rparr>)" using mt_add_ok [OF d(2)] d(3) by simp
    have ok0: "heap_ok ?h" "owns ?h i s k rest" using assms(1,2) by simp_all
    have e: "int (length s) + int (length ?ps * ?g) = int (length ?u)" unfolding lu by simp
    have c1: "cint (int (length ?u)) = Some (int (length ?u))" "cint (int (length ?u) + 1) = Some (int (length ?u) + 1)"
      using assms(9) by (simp_all add: cint_def INT_MIN_def)
    let ?cont = "\<lambda>(res, h). if res = BSTR_OK then do {
           bh \<leftarrow> hdr_of h (Some i);
           fh \<leftarrow> hdr_of h (Some jt);
           rh \<leftarrow> hdr_of h (Some jr);
           h \<leftarrow> set_hdr h (Some i) (bh\<lparr>b_slen := b_slen bh + int (length ?ps * ?g)\<rparr>);
           h \<leftarrow> expand_loop (b_data bh) (b_slen fh) (b_data rh) (b_slen rh) ?delta ?d (length ?ps) (int (length ?ps * ?g)) h;
           h \<leftarrow> wrb h (b_data bh) (b_slen bh + int (length ?ps * ?g)) 0;
           Some (res, h)
         } else Some (res, h)"
    have run: "expand instr (Some i) (Some jt) (Some jr) ?delta (int n) h = Option.bind (balloc (Some i) (int (length ?u) + 1) ?h) ?cont"
      unfolding expand_def C(1) d(1)
      by (simp add: O(1) add e c1 d(3) del: of_nat_mult of_nat_diff cong: if_cong)
    have nn: "0 < int (length ?u) + 1" "int (length ?u) + 1 \<le> INT_MAX" using assms(9) by simp_all
    have b8: "8 * (int (length s) + 1 + int (length rest)) \<le> INT_MAX" using assms(10) by (simp add: INT_MAX_def)
    show ?thesis
    proof (cases rule: balloc_room [OF ok0 nn b8, case_names ok fail])
      case (fail al2)
      then show ?thesis using run C(2) owned_failed [OF assms(2,1)] by (auto simp: BSTR_neq)
    next
      case (ok h1 k' rest')
      note O1 = ownsD [OF ok(2)]
      have f1: "framed h h1 i k k'" using ok(3) C(2) by (simp add: framed_def)
      have ok1: "heap_ok h1" using f1 by (simp add: framed_def)
      note V = reads_framed [OF assms(1) f1 assms(3)] reads_framed [OF assms(1) f1 assms(4)]
      have kr: "kr \<noteq> k'" "bm_blk h1 kr = bm_blk h kr" using framed_blk [OF assms(1) f1 R(2,3)] by simp_all
      have hd: "bm_hdr h1 jt = bm_hdr h jt" "bm_hdr h1 jr = bm_hdr h jr" using f1 T(2) R(4) by (simp_all add: framed_def)
      let ?y = "\<lparr>b_mlen = int (length s) + 1 + int (length rest'), b_slen = int (length ?u), b_data = Some (k', 0)\<rparr>"
      let ?h2 = "h1\<lparr>bm_hdr := (bm_hdr h1)(i \<mapsto> ?y)\<rparr>"
      let ?m = "map Some s @ Some 0 # rest'"
      have "\<exists>m'. expand_loop (Some (k', 0)) (int (length t)) (Some (kr, pr)) (int (length r)) ?delta ?d (length ?ps) (int (length ?ps * ?g)) ?h2 =
          Some (?h2\<lparr>bm_blk := (bm_blk ?h2)(k' \<mapsto> m')\<rparr>) \<and> length m' = length ?m \<and>
        take (length s + length ?ps * ?g) m' = map Some (take (upto_next s ?ps) s @ rebuilt (length t) r s ?ps)"
      proof (rule expand_loop_ok [OF SP lg _ kr(1)])
        show "int (length s + length ?ps * ?g) \<le> INT_MAX" using bl(1) unfolding lu .
        show "bm_blk ?h2 k' = Some ?m" using O1(2) by simp
        show "length s + length ?ps * ?g < length ?m" using ok(4) unfolding lu [symmetric] by simp
        show "rdn ?h2 (Some (kr, pr)) 0 (int (length r)) = Some (map Some r)" using R(5) kr(2) by (simp add: rdn_def)
      qed simp_all
      then obtain m' where M: "expand_loop (Some (k', 0)) (int (length t)) (Some (kr, pr)) (int (length r)) ?delta ?d (length ?ps) (int (length ?ps * ?g)) ?h2 =
          Some (?h2\<lparr>bm_blk := (bm_blk ?h2)(k' \<mapsto> m')\<rparr>)" "length m' = length ?m" "take (length ?u) m' = map Some ?u"
        unfolding replace_all_rebuilt [OF assms(7,5), symmetric] lu [symmetric] by blast
      let ?h3 = "?h2\<lparr>bm_blk := (bm_blk ?h2)(k' \<mapsto> m')\<rparr>"
      have lm: "length ?u < length m'" using ok(4) M(2) by simp
      have y: "bm_hdr ?h3 i = Some \<lparr>b_mlen = int (length m'), b_slen = int (length ?u), b_data = Some (k', 0)\<rparr>" using M(2) by simp
      have w: "wrb ?h3 (Some (k', 0)) (int (length ?u)) 0 = Some (terminated ?h3 i k' m' ?u)"
        by (rule terminated_wrb [OF _ M(3) lm y]) simp
      have te: "terminated ?h3 i k' m' ?u = terminated h1 i k' m' ?u" by (simp add: terminated_def hdr_blk_commute)
      have sh: "set_hdr h1 (Some i) ?y = Some ?h2" using O1(1) by (simp add: set_hdr_def)
      have "?cont (BSTR_OK, h1) = Some (BSTR_OK, terminated h1 i k' m' ?u)"
        by (simp only: prod.case if_True simp_thms hdr_of_Some O1(1) hd T(1) R(1) Option.bind.simps bhdr.simps e sh M(1) w te)
      then have "expand instr (Some i) (Some jt) (Some jr) ?delta (int n) h = Some (BSTR_OK, terminated h1 i k' m' ?u)" using run ok(1) by simp
      moreover have "outcome h BSTR_OK (terminated h1 i k' m' ?u) i s k rest ?u"
        by (rule terminated_outcome [OF ok(2) f1 _ lm]) (use M(2) ok(5) in simp_all)
      ultimately show ?thesis by blast
    qed
  qed
qed

end

text \<open>The part of \<open>findreplaceengine\<close> between the copies of its arguments and their release.\<close>

definition engine_core :: "instr_fn \<Rightarrow> bstring \<Rightarrow> bstring \<Rightarrow> bstring \<Rightarrow> int \<Rightarrow> bmem \<Rightarrow> (int \<times> bmem) option" where
  "engine_core instr b auxf auxr pos h = do {
     fh \<leftarrow> hdr_of h auxf;
     rh \<leftarrow> hdr_of h auxr;
     let delta = b_slen fh - b_slen rh;
     if delta = 0 then map_option (Pair BSTR_OK) (same_loop instr b auxf auxr pos h)
     else if delta > 0 then do {
       (p, acc, h) \<leftarrow> shrink_loop instr b auxf auxr delta pos 0 h;
       map_option (Pair BSTR_OK) (shrink_end b p acc h)
     }
     else expand instr b auxf auxr delta pos h
   }"

context bstr_search begin

lemma engine_core_ok:
  assumes "heap_ok h" "owns h i s k rest" "foreign_str h i k jt t" "foreign_str h i k jr r" "t \<noteq> []" "n \<le> length s"
    "length s < 2 ^ 27 - 1" "int (length (replace_all same t r n s)) < INT_MAX" "length s + 1 + length rest \<le> 2 ^ 27"
  shows "\<exists>res h'. engine_core instr (Some i) (Some jt) (Some jr) (int n) h = Some (res, h') \<and>
    outcome h res h' i s k rest (replace_all same t r n s)"
proof -
  let ?delta = "int (length t) - int (length r)"
  let ?u = "replace_all same t r n s"
  obtain nt kt pt where T: "bm_hdr h jt = Some \<lparr>b_mlen = nt, b_slen = int (length t), b_data = Some (kt, pt)\<rparr>"
    using argE [OF assms(1,3)] .
  obtain nr kr pr where R: "bm_hdr h jr = Some \<lparr>b_mlen = nr, b_slen = int (length r), b_data = Some (kr, pr)\<rparr>"
    using argE [OF assms(1,4)] .
  have run: "engine_core instr (Some i) (Some jt) (Some jr) (int n) h =
      (if ?delta = 0 then map_option (Pair BSTR_OK) (same_loop instr (Some i) (Some jt) (Some jr) (int n) h)
        else if ?delta > 0 then do {
          (p, acc, h) \<leftarrow> shrink_loop instr (Some i) (Some jt) (Some jr) ?delta (int n) 0 h;
          map_option (Pair BSTR_OK) (shrink_end (Some i) p acc h)
        }
        else expand instr (Some i) (Some jt) (Some jr) ?delta (int n) h)"
    using T R by (simp add: engine_core_def Let_def)
  have s30: "int (length s) \<le> INT_MAX" using assms(7) by (simp add: INT_MAX_def)
  consider "length r = length t" | "length r < length t" | "length t < length r" by linarith
  then show ?thesis
  proof cases
    case 1
    obtain h' where "same_loop instr (Some i) (Some jt) (Some jr) (int n) h = Some h'" "owns h' i ?u k rest" "framed h h' i k k"
      using same_loop_ok [OF 1 assms(5,1-4) refl s30] by blast
    moreover have "length ?u = length s" using length_replace_all [OF assms(6,5), of r same] 1 by simp
    ultimately show ?thesis using run 1 in_place_outcome [of h' i ?u k rest h s rest] by auto
  next
    case 2
    obtain p a h1 h' where "shrink_loop instr (Some i) (Some jt) (Some jr) ?delta (int n) 0 h = Some (p, a, h1)"
      "shrink_end (Some i) p a h1 = Some h'" "outcome h BSTR_OK h' i s k rest ?u"
      using shrink_ok [OF assms(1-4) 2 assms(6) s30] by blast
    then show ?thesis using run 2 by auto
  next
    case 3
    obtain res h' where "expand instr (Some i) (Some jt) (Some jr) ?delta (int n) h = Some (res, h')" "outcome h res h' i s k rest ?u"
      using expand_ok [OF assms(1-5) 3 assms(6-9)] by blast
    then show ?thesis using run 3 by auto
  qed
qed

end

section \<open>Arguments that lie in the string\<close>

text \<open>
  An argument lies in another block, or in the block of the string itself (it may be the string): then it must
  begin before the end of the characters and reach behind the position, which is when the engine makes a copy of it.
\<close>

definition replace_arg :: "bmem \<Rightarrow> nat \<Rightarrow> bytes \<Rightarrow> nat \<Rightarrow> nat \<Rightarrow> bytes \<Rightarrow> bool" where
  "replace_arg h k s n j t \<longleftrightarrow> reads h j t \<and>
     (case bm_hdr h j of Some hj \<Rightarrow> (case b_data hj of Some (kp, po) \<Rightarrow> kp = k \<longrightarrow> n < po + length t \<and> po < length s | None \<Rightarrow> True)
      | None \<Rightarrow> True)"

text \<open>What the engine works with: the argument itself, or a new string with its characters.\<close>

definition copied :: "bmem \<Rightarrow> bmem \<Rightarrow> nat \<Rightarrow> nat \<Rightarrow> nat \<Rightarrow> nat \<Rightarrow> bytes \<Rightarrow> bool" where
  "copied h h1 i k j a t \<longleftrightarrow> a = j \<and> h1 = h \<and> foreign_str h i k j t \<or>
     a \<noteq> j \<and> (\<exists>ka ra. owns h1 a t ka ra \<and> extended h h1 a ka)"

lemma foreign_replace_arg: "foreign_str h i k j t \<Longrightarrow> replace_arg h k s n j t"
  by (auto simp: foreign_str_def replace_arg_def split: option.splits prod.splits)

lemma copy_arg:
  assumes "heap_ok h" "owns h i s k rest" "replace_arg h k s n j t" "bm_hdr h j = Some hj" "length s + 1 + length rest \<le> 2 ^ 27"
  shows "\<exists>aux h1. (if alias_from (b_data hj) (Some (k, 0)) (int n - b_slen hj) (int (length s)) then bstrcpy (Some j) h
      else Some (Some j, h)) = Some (aux, h1) \<and>
    (aux = None \<and> bm_alloc h \<noteq> [] \<and> quiet h h1 \<or> (\<exists>a. aux = Some a \<and> copied h h1 i k j a t))"
proof -
  have r: "reads h j t" using assms(3) by (simp add: replace_arg_def)
  obtain m kp po bs where R: "hj = \<lparr>b_mlen = m, b_slen = int (length t), b_data = Some (kp, po)\<rparr>"
    "bm_blk h kp = Some bs" "po + length t \<le> length bs"
    using readsE [OF r] assms(4) by (metis option.inject)
  have a: "alias_from (b_data hj) (Some (k, 0)) (int n - b_slen hj) (int (length s)) \<longleftrightarrow> kp = k"
    using assms(3) by (auto simp: alias_from_def R(1) replace_arg_def assms(4))
  show ?thesis
  proof (cases "kp = k")
    case True
    have "int (length t) < INT_MAX" using R(2,3) ownsD(2) [OF assms(2)] True assms(5) by (auto simp: INT_MAX_def)
    from bstrcpy_ok [OF assms(1) r this] obtain b h1 where b: "bstrcpy (Some j) h = Some (b, h1)"
      "b = None \<and> bm_alloc h \<noteq> [] \<and> quiet h h1 \<or> (\<exists>a k rest. b = Some a \<and> owns h1 a t k rest \<and> extended h h1 a k)" by blast
    have "j < bm_next h" using heap_okD(2) [OF assms(1,4)] .
    then have "copied h h1 i k j a t" if "owns h1 a t ka ra" "extended h h1 a ka" for a ka ra
      using that unfolding copied_def by (metis extended_def not_less)
    then have "b = None \<and> bm_alloc h \<noteq> [] \<and> quiet h h1 \<or> (\<exists>a. b = Some a \<and> copied h h1 i k j a t)"
      using b(2) by blast
    then show ?thesis using b(1) a True by simp
  next
    case False
    have "j \<noteq> i" using False R(1) assms(4) ownsD(1) [OF assms(2)] by auto
    then have "foreign_str h i k j t" using r False by (simp add: foreign_str_def assms(4) R(1))
    with a False show ?thesis by (simp add: copied_def)
  qed
qed

lemma copied_ok:
  assumes "heap_ok h" "owns h i s k rest" "copied h h1 i k j a t"
  shows "heap_ok h1" "owns h1 i s k rest" "foreign_str h1 i k a t" "bm_alloc h = [] \<longrightarrow> bm_alloc h1 = []"
proof -
  have O: "i < bm_next h" "k < bm_next h" using heap_okD(2) [OF assms(1) ownsD(1) [OF assms(2)]] heap_okD(1) [OF assms(1) ownsD(2) [OF assms(2)]] .
  show "heap_ok h1" "bm_alloc h = [] \<longrightarrow> bm_alloc h1 = []" using assms(1,3) by (auto simp: copied_def extended_def)
  show "owns h1 i s k rest" using assms(2,3) O by (auto simp: copied_def extended_def owns_def)
  show "foreign_str h1 i k a t"
    using assms(3) O owns_reads [of h1 a t] by (auto simp: copied_def extended_def foreign_str_def dest: ownsD(1))
qed

text \<open>A copy leaves what the other argument refers to.\<close>

lemma copied_reads:
  assumes "heap_ok h" "copied h h1 i k j a t" "reads h j' r"
  shows "reads h1 j' r" "bm_hdr h1 j' = bm_hdr h j'"
proof -
  obtain n kp po m where R: "bm_hdr h j' = Some \<lparr>b_mlen = n, b_slen = int (length r), b_data = Some (kp, po)\<rparr>" "bm_blk h kp = Some m"
    "po + length r \<le> length m" "take (length r) (drop po m) = map Some r"
    using readsE [OF assms(3)] .
  have "j' < bm_next h" "kp < bm_next h" using heap_okD(2) [OF assms(1) R(1)] heap_okD(1) [OF assms(1) R(2)] .
  then have e: "bm_hdr h1 j' = bm_hdr h j'" "bm_blk h1 kp = bm_blk h kp" using assms(2) by (auto simp: copied_def extended_def)
  then show "bm_hdr h1 j' = bm_hdr h j'" by simp
  show "reads h1 j' r" unfolding reads_def using R e by auto
qed

text \<open>At the end the copies are freed; the second one first, or, as the engine does, the first one first.\<close>

lemma drop_copied:
  assumes "heap_ok h" "owns h i s k rest" "copied h h1 i k j a t" "outcome h1 res h2 i s k rest u"
  shows "\<exists>h3. drop_aux (Some a) (Some j) h2 = Some h3 \<and> outcome h res h3 i s k rest u"
proof (cases "a = j")
  case True
  then have "h1 = h" using assms(3) by (simp add: copied_def)
  then show ?thesis using True assms(4) by (simp add: drop_aux_def)
next
  case False
  then obtain ka ra where a: "owns h1 a t ka ra" "extended h h1 a ka" using assms(3) by (auto simp: copied_def)
  note O = ownsD [OF assms(2)]
  have "i < bm_next h" using heap_okD(2) [OF assms(1) O(1)] .
  then have ai: "a \<noteq> i" using a(2) by (auto simp: extended_def)
  have al: "bm_alloc h \<noteq> []" if "bm_alloc h1 \<noteq> []" using that a(2) by (auto simp: extended_def)
  obtain k' u' rest' where F: "framed h1 h2 i k k'" "owns h2 i u' k' rest'"
    "res = BSTR_OK \<and> u' = u \<and> int (length u) + 1 + int (length rest') \<le> max (int (length s) + 1 + int (length rest)) (snapUpSize (int (length u) + 1)) \<or>
     res = BSTR_ERR \<and> bm_alloc h1 \<noteq> [] \<and> u' = s \<and> k' = k \<and> rest' = rest"
    using assms(4) unfolding outcome_def by blast
  have "Some a \<noteq> Some j" using False by simp
  from drop_copy [OF assms(1) a(2) F(1) a(1) O ai this] obtain h3 where
    "drop_aux (Some a) (Some j) h2 = Some h3" "framed h h3 i k k'" "owns h3 i u' k' rest'" using F(2) by blast
  then show ?thesis using F(3) al unfolding outcome_def by blast
qed

lemma copied_survives:
  assumes "owns h1 a t ka ra" "copied h1 h2 i k j b r" "a < bm_next h1" "ka < bm_next h1" "ka \<noteq> k" "a \<noteq> i"
    "outcome h2 res h3 i s k rest u" "heap_ok h2"
  shows "owns h3 a t ka ra"
proof -
  have 2: "owns h2 a t ka ra" using assms(1-4) by (auto simp: copied_def extended_def owns_def)
  obtain k' where F: "framed h2 h3 i k k'" using assms(7) unfolding outcome_def by blast
  have "ka < bm_next h2" using heap_okD(1) [OF assms(8) ownsD(2) [OF 2]] .
  then have "ka \<noteq> k'" using F assms(5) by (auto simp: framed_def)
  then show ?thesis using 2 F assms(5,6) by (simp add: framed_def owns_def)
qed

lemma drop_both_copied:
  assumes "heap_ok h" "owns h i s k rest" "copied h h1 i k j a t" "copied h1 h2 i k j' b r" "outcome h2 res h3 i s k rest u"
  shows "\<exists>h5. drop_both (Some a) (Some j) (Some b) (Some j') (res, h3) = Some (res, h5) \<and> outcome h res h5 i s k rest u"
proof -
  note C1 = copied_ok [OF assms(1-3)]
  note C2 = copied_ok [OF C1(1,2) assms(4)]
  obtain h4 where h4: "drop_aux (Some b) (Some j') h3 = Some h4" "outcome h1 res h4 i s k rest u"
    using drop_copied [OF C1(1,2) assms(4,5)] by blast
  obtain h5 where h5: "drop_aux (Some a) (Some j) h4 = Some h5" "outcome h res h5 i s k rest u"
    using drop_copied [OF assms(1-3) h4(2)] by blast
  have "Option.bind (drop_aux (Some a) (Some j) h3) (drop_aux (Some b) (Some j')) = Some h5"
  proof (cases "a = j \<or> b = j'")
    case True
    then show ?thesis using h4(1) h5(1) by (auto simp: drop_aux_def)
  next
    case False
    then obtain ka ra kb rb where a: "owns h1 a t ka ra" "extended h h1 a ka" and b: "owns h2 b r kb rb" "extended h1 h2 b kb"
      using assms(3,4) by (auto simp: copied_def)
    have an: "a < bm_next h1" "ka < bm_next h1" using heap_okD(2) [OF C1(1) ownsD(1) [OF a(1)]] heap_okD(1) [OF C1(1) ownsD(2) [OF a(1)]] .
    have ik: "i < bm_next h" "k < bm_next h" using heap_okD(2) [OF assms(1) ownsD(1) [OF assms(2)]] heap_okD(1) [OF assms(1) ownsD(2) [OF assms(2)]] .
    have ne: "a \<noteq> i" "ka \<noteq> k" "b \<noteq> i" "kb \<noteq> k" "a \<noteq> b" "ka \<noteq> kb" using a(2) b(2) an ik by (auto simp: extended_def)
    have oa: "owns h3 a t ka ra" using copied_survives [OF a(1) assms(4) an ne(2,1) assms(5) C2(1)] .
    have bn: "b < bm_next h2" "kb < bm_next h2" using heap_okD(2) [OF C2(1) ownsD(1) [OF b(1)]] heap_okD(1) [OF C2(1) ownsD(2) [OF b(1)]] .
    have "copied h2 h2 i k b b r" using C2(3) by (simp add: copied_def)
    from copied_survives [OF b(1) this bn ne(4,3) assms(5) C2(1)] have ob: "owns h3 b r kb rb" .
    let ?da = "\<lambda>h. h\<lparr>bm_blk := (bm_blk h)(ka := None), bm_hdr := (bm_hdr h)(a := None)\<rparr>"
    let ?db = "\<lambda>h. h\<lparr>bm_blk := (bm_blk h)(kb := None), bm_hdr := (bm_hdr h)(b := None)\<rparr>"
    have "owns (?db h3) a t ka ra" "owns (?da h3) b r kb rb" using oa ob ne(5,6) by (simp_all add: owns_def)
    then have "drop_aux (Some b) (Some j') h3 = Some (?db h3)" "drop_aux (Some a) (Some j) (?db h3) = Some (?da (?db h3))"
      "drop_aux (Some a) (Some j) h3 = Some (?da h3)" "drop_aux (Some b) (Some j') (?da h3) = Some (?db (?da h3))"
      using oa ob False bdestroy_ok by (simp_all add: drop_aux_def)
    moreover have "?da (?db h3) = ?db (?da h3)" using ne(5,6) by (auto simp: fun_upd_twist intro!: bmem.equality)
    ultimately show ?thesis using h4(1) h5(1) by simp
  qed
  then have "drop_both (Some a) (Some j) (Some b) (Some j') (res, h3) = Some (res, h5)"
    by (auto simp: drop_both_def bind_eq_Some_conv)
  with h5(2) show ?thesis by blast
qed

context bstr_search begin

lemma findreplaceengine_ok:
  assumes "heap_ok h" "owns h i s k rest" "replace_arg h k s n jt t" "replace_arg h k s n jr r" "t \<noteq> []"
    "length s < 2 ^ 27 - 1" "int (length (replace_all same t r n s)) < INT_MAX" "length s + 1 + length rest \<le> 2 ^ 27"
  shows "\<exists>res h'. findreplaceengine instr (Some i) (Some jt) (Some jr) (int n) h = Some (res, h') \<and>
    outcome h res h' i s k rest (replace_all same t r n s)"
proof -
  note O = ownsD [OF assms(2)]
  let ?u = "replace_all same t r n s"
  have rd: "reads h jt t" "reads h jr r" using assms(3,4) by (simp_all add: replace_arg_def)
  obtain ht pt hr pr where T: "bm_hdr h jt = Some ht" "b_slen ht = int (length t)" "b_data ht = Some pt"
    and R: "bm_hdr h jr = Some hr" "b_slen hr = int (length r)" "b_data hr = Some pr"
    using rd by (auto simp: reads_def)
  show ?thesis
  proof (cases "n + length t \<le> length s")
    case False
    have "next_match same t s n = None" unfolding next_match_def find_upt_none occurs_def using False by auto
    then have "?u = s" by (simp add: replace_all_def replaced_from_None)
    moreover have "findreplaceengine instr (Some i) (Some jt) (Some jr) (int n) h = Some (BSTR_OK, h)"
      using O(1) T R False assms(5) by (simp add: findreplaceengine_def)
    ultimately show ?thesis using in_place_outcome [OF assms(2) framed_refl [OF assms(1)] refl] by auto
  next
    case True
    have n: "n \<le> length s" "\<not> int n > int (length s) - int (length t)" using True by linarith+
    let ?copy = "\<lambda>hj j h. if alias_from (b_data hj) (Some (k, 0)) (int n - b_slen hj) (int (length s)) then bstrcpy (Some j) h else Some (Some j, h)"
    have run: "findreplaceengine instr (Some i) (Some jt) (Some jr) (int n) h = do {
        (auxf, h) \<leftarrow> ?copy ht jt h;
        if auxf = None then Some (BSTR_ERR, h)
        else do {
          (auxr, h) \<leftarrow> ?copy hr jr h;
          if auxr = None then do { h \<leftarrow> drop_aux auxf (Some jt) h; Some (BSTR_ERR, h) }
          else Option.bind (engine_core instr (Some i) auxf auxr (int n) h) (drop_both auxf (Some jt) auxr (Some jr))
        }
      }"
      using O(1) T R n(2) assms(5)
      by (simp add: findreplaceengine_def engine_core_def Let_def cong: if_cong split del: if_split)
    obtain auxf h1 where F: "?copy ht jt h = Some (auxf, h1)"
      "auxf = None \<and> bm_alloc h \<noteq> [] \<and> quiet h h1 \<or> (\<exists>a. auxf = Some a \<and> copied h h1 i k jt a t)"
      using copy_arg [OF assms(1,2,3) T(1) assms(8)] by blast
    from F(2) show ?thesis
    proof (elim disjE conjE exE)
      assume q: "auxf = None" "bm_alloc h \<noteq> []" "quiet h h1"
      then have "outcome h BSTR_ERR h1 i s k rest ?u"
        using quiet_framed [OF q(3) assms(1)] quiet_owns [OF q(3)] assms(2) by (simp add: outcome_def)
      then show ?thesis using run F(1) q(1) by auto
    next
      fix a assume a: "auxf = Some a" "copied h h1 i k jt a t"
      note C1 = copied_ok [OF assms(1,2) a(2)]
      note V = copied_reads [OF assms(1) a(2) rd(2)]
      have ar: "replace_arg h1 k s n jr r" using assms(4) V by (simp add: replace_arg_def)
      have hr: "bm_hdr h1 jr = Some hr" using V(2) R(1) by simp
      obtain auxr h2 where G: "?copy hr jr h1 = Some (auxr, h2)"
        "auxr = None \<and> bm_alloc h1 \<noteq> [] \<and> quiet h1 h2 \<or> (\<exists>b. auxr = Some b \<and> copied h1 h2 i k jr b r)"
        using copy_arg [OF C1(1,2) ar hr assms(8)] by blast
      from G(2) show ?thesis
      proof (elim disjE conjE exE)
        assume q: "auxr = None" "bm_alloc h1 \<noteq> []" "quiet h1 h2"
        then have "outcome h1 BSTR_ERR h2 i s k rest ?u"
          using quiet_framed [OF q(3) C1(1)] quiet_owns [OF q(3)] C1(2) by (simp add: outcome_def)
        from drop_copied [OF assms(1,2) a(2) this] obtain h3 where
          "drop_aux (Some a) (Some jt) h2 = Some h3" "outcome h BSTR_ERR h3 i s k rest ?u" by blast
        then show ?thesis using run F(1) G(1) a(1) q(1) by auto
      next
        fix b assume b: "auxr = Some b" "copied h1 h2 i k jr b r"
        note C2 = copied_ok [OF C1(1,2) b(2)]
        have af: "foreign_str h2 i k a t"
          using C1(3) copied_reads [OF C1(1) b(2), of a t] by (auto simp: foreign_str_def)
        from engine_core_ok [OF C2(1,2) af C2(3) assms(5) n(1) assms(6-8)] obtain res h3 where E:
          "engine_core instr (Some i) (Some a) (Some b) (int n) h2 = Some (res, h3)" "outcome h2 res h3 i s k rest ?u" by blast
        from drop_both_copied [OF assms(1,2) a(2) b(2) E(2)] obtain h5 where
          "drop_both (Some a) (Some jt) (Some b) (Some jr) (res, h3) = Some (res, h5)" "outcome h res h5 i s k rest ?u" by blast
        then show ?thesis using run F(1) G(1) a(1) b(1) E(1) by auto
      qed
    qed
  qed
qed

end

end
