(* ===== verification/BstrHistory.thy ===== *)
theory BstrHistory
  imports BstrFindReplace
begin

text \<open>
  The operations of \<open>bstrlib\<close> as an instance of \<open>bstr_editor\<close>, and the properties of the operations that
  change strings.
\<close>

section \<open>The edits of the library\<close>

text \<open>The edits, with the characters that are found at their source.\<close>

datatype bstr_edit = Conchar u8 | Catblk ptr int bytes | Concat nat bytes | Assignblk ptr bytes | Trunc nat | ToUpper | ToLower
  | Delete nat nat | LTrim | RTrim | Trim | InsertCh nat nat u8 | InsertBlk nat ptr bytes u8 | SetStr nat bstring bytes u8

fun bstr_run :: "bstring \<Rightarrow> bstr_edit \<Rightarrow> bmem \<Rightarrow> (int \<times> bmem) option" where
  "bstr_run b (Conchar c) h = bconchar b c h"
| "bstr_run b (Catblk p off t) h = bcatblk b (Some p) off (int (length t)) h"
| "bstr_run b (Concat j t) h = bconcat b (Some j) h"
| "bstr_run b (Assignblk p t) h = bassignblk b (Some p) (int (length t)) h"
| "bstr_run b (Trunc n) h = btrunc b (int n) h"
| "bstr_run b ToUpper h = btoupper b h"
| "bstr_run b ToLower h = btolower b h"
| "bstr_run b (Delete pos len) h = bdelete b (int pos) (int len) h"
| "bstr_run b LTrim h = bltrimws b h"
| "bstr_run b RTrim h = brtrimws b h"
| "bstr_run b Trim h = btrimws b h"
| "bstr_run b (InsertCh pos len fill) h = binsertch b (int pos) (int len) fill h"
| "bstr_run b (InsertBlk pos p t fill) h = binsertblk b (int pos) (Some p) (int (length t)) fill h"
| "bstr_run b (SetStr pos b1 t fill) h = bsetstr b (int pos) b1 fill h"

fun edit_valid :: "bmem \<Rightarrow> nat \<Rightarrow> nat \<Rightarrow> bstr_edit \<Rightarrow> bool" where
  "edit_valid h i k (Catblk (kp, po) off t) \<longleftrightarrow> kp \<noteq> k \<and> kp < bm_next h \<and> src_ok h (Some (kp, po)) off t"
| "edit_valid h i k (Assignblk (kp, po) t) \<longleftrightarrow> kp \<noteq> k \<and> kp < bm_next h \<and> src_ok h (Some (kp, po)) 0 t"
| "edit_valid h i k (InsertBlk pos (kp, po) t fill) \<longleftrightarrow> kp \<noteq> k \<and> kp < bm_next h \<and> src_ok h (Some (kp, po)) 0 t"
| "edit_valid h i k (Concat j t) \<longleftrightarrow> foreign_str h i k j t"
| "edit_valid h i k (SetStr pos b1 t fill) \<longleftrightarrow> set_arg h i k b1 t"
| "edit_valid h i k _ \<longleftrightarrow> True"

fun edited :: "bstr_edit \<Rightarrow> bytes \<Rightarrow> bytes" where
  "edited (Conchar c) s = s @ [c]"
| "edited (Catblk p off t) s = s @ t"
| "edited (Concat j t) s = s @ t"
| "edited (Assignblk p t) s = t"
| "edited (Trunc n) s = take n s"
| "edited ToUpper s = map c_toupper s"
| "edited ToLower s = map c_tolower s"
| "edited (Delete pos len) s = take pos s @ drop (pos + len) s"
| "edited LTrim s = ltrim s"
| "edited RTrim s = rtrim s"
| "edited Trim s = ltrim (rtrim s)"
| "edited (InsertCh pos len fill) s = insert_at pos (replicate len fill) fill s"
| "edited (InsertBlk pos p t fill) s = insert_at pos t fill s"
| "edited (SetStr pos b1 t fill) s = overlay pos t fill s"

fun edit_max :: "bstr_edit \<Rightarrow> nat" where
  "edit_max (Conchar c) = 1"
| "edit_max (Catblk p off t) = length t"
| "edit_max (Concat j t) = length t"
| "edit_max (Assignblk p t) = length t"
| "edit_max (Delete pos len) = len"
| "edit_max (InsertCh pos len fill) = pos + len"
| "edit_max (InsertBlk pos p t fill) = pos + length t"
| "edit_max (SetStr pos b1 t fill) = pos + length t"
| "edit_max _ = 0"

lemma length_ltrim: "length (ltrim s) \<le> length s" and length_rtrim: "length (rtrim s) \<le> length s"
  using length_dropWhile_le [of c_isspace s] length_dropWhile_le [of c_isspace "rev s"] by (simp_all add: ltrim_def rtrim_def)

lemma set_arg_framed:
  assumes "heap_ok h" "framed h h' i k k'" "set_arg h i k b t"
  shows "set_arg h' i k' b t"
  using assms(3) reads_framed [OF assms(1,2)] by (auto simp: set_arg_def split: option.splits)

interpretation edits: bstr_editor bstr_run edit_valid edited edit_max
proof
  fix h :: bmem and i s k rest e
  assume a: "heap_ok h" "owns h i s k rest" "edit_valid h i k e" "int (length s) + int (edit_max e) < INT_MAX"
    "8 * (int (length s) + 1 + int (length rest)) \<le> INT_MAX"
  have two: "2 * int (length s) \<le> INT_MAX" using a(5) by simp
  show "\<exists>r h'. bstr_run (Some i) e h = Some (r, h') \<and> outcome h r h' i s k rest (edited e s)"
  proof (cases e)
    case (Conchar c)
    then show ?thesis using bconchar_ok [OF a(1,2,5)] by simp
  next
    case (Catblk p off t)
    then show ?thesis using bcatblk_ok [OF a(1,2) _ _ _ a(5)] a(3,4) by (cases p) simp
  next
    case (Concat j t)
    then show ?thesis using bconcat_ok [OF a(1,2) _ _ a(5)] a(3,4) by (simp add: foreign_str_def)
  next
    case (Assignblk p t)
    then show ?thesis using bassignblk_ok [OF a(1,2) _ _ _ a(5)] a(3,4) by (cases p) simp
  next
    case (Trunc n)
    then show ?thesis using btrunc_ok [OF a(1,2), of "int n"] in_place_outcome [of _ i _ k _ h s rest] by fastforce
  next
    case ToUpper
    then show ?thesis using btoupper_ok [OF a(1,2)] in_place_outcome [of _ i _ k rest h s rest] by fastforce
  next
    case ToLower
    then show ?thesis using btolower_ok [OF a(1,2)] in_place_outcome [of _ i _ k rest h s rest] by fastforce
  next
    case (Delete pos len)
    then show ?thesis using bdelete_ok [OF a(1,2), of len pos] a(4) by auto
  next
    case LTrim
    then show ?thesis using bltrimws_ok [OF a(1,2) two] by auto
  next
    case RTrim
    then show ?thesis using brtrimws_ok [OF a(1,2)] by auto
  next
    case Trim
    then show ?thesis using btrimws_ok [OF a(1,2) two] by auto
  next
    case (InsertCh pos len fill)
    have "int (max (length s) pos) + int len < INT_MAX" using a(4) InsertCh by simp
    from binsertch_ok [OF a(1,2) this a(5)] show ?thesis using InsertCh by simp
  next
    case (InsertBlk pos p t fill)
    have b: "int (max (length s) pos) + int (length t) < INT_MAX" using a(4) InsertBlk by simp
    obtain kp po where "p = (kp, po)" "kp \<noteq> k" "kp < bm_next h" "src_ok h (Some (kp, po)) 0 t" using a(3) InsertBlk by (cases p) simp
    with binsertblk_ok [OF a(1,2) _ _ _ b a(5)] show ?thesis using InsertBlk by simp
  next
    case (SetStr pos b1 t fill)
    have b: "int pos + int (length t) < INT_MAX" using a(4) SetStr by simp
    have "set_arg h i k b1 t" using a(3) SetStr by simp
    from bsetstr_ok [OF a(1,2) this b a(5)] show ?thesis using SetStr by simp
  qed
next
  fix e s show "length (edited e s) \<le> length s + edit_max e"
    using length_ltrim [of s] length_rtrim [of s] length_ltrim [of "rtrim s"]
    by (cases e) (auto simp: length_insert_at length_overlay)
next
  fix h h' :: bmem and i s k rest k' e
  assume a: "heap_ok h" "owns h i s k rest" "framed h h' i k k'" "edit_valid h i k e"
  have n: "bm_next h \<le> bm_next h'" using a(3) by (simp add: framed_def)
  show "edit_valid h' i k' e"
  proof (cases e)
    case (Catblk p off t)
    then show ?thesis using a(4) foreign_src [OF a(1,3)] framed_blk [OF a(1,3)] n by (cases p) auto
  next
    case (Assignblk p t)
    then show ?thesis using a(4) foreign_src [OF a(1,3)] framed_blk [OF a(1,3)] n by (cases p) auto
  next
    case (InsertBlk pos p t fill)
    then show ?thesis using a(4) foreign_src [OF a(1,3)] framed_blk [OF a(1,3)] n by (cases p) auto
  next
    case (Concat j t)
    then show ?thesis using reads_framed [OF a(1,3)] a(4) by simp
  next
    case (SetStr pos b1 t fill)
    then show ?thesis using set_arg_framed [OF a(1,3)] a(4) by simp
  qed simp_all
qed

section \<open>Properties\<close>

text \<open>A memory with the string \<open>ab\<close> in a block of 8 bytes, and with another one of 24 characters.\<close>

definition two_strings :: "alloc \<Rightarrow> bmem" where
  "two_strings al = \<lparr>bm_hdr = [0 \<mapsto> \<lparr>b_mlen = 8, b_slen = 2, b_data = Some (0, 0)\<rparr>,
       1 \<mapsto> \<lparr>b_mlen = 32, b_slen = 24, b_data = Some (1, 0)\<rparr>],
     bm_blk = [0 \<mapsto> [Some 0x61, Some 0x62, Some 0, None, None, None, None, None],
       1 \<mapsto> replicate 24 (Some 0x78) @ Some 0 # replicate 7 None],
     bm_next = 2, bm_alloc = al\<rparr>"

lemma two_strings_ok:
  "heap_ok (two_strings al)" "owns (two_strings al) 0 [0x61, 0x62] 0 [None, None, None, None, None]"
  "reads (two_strings al) 1 (replicate 24 0x78)" "bm_alloc (two_strings al) = al" "bm_next (two_strings al) = 2"
  by (auto simp: two_strings_def heap_ok_def owns_def reads_def take_append)

text \<open>
  C28: \<open>bconcat\<close> appends the characters of any readable string, which may be the destination itself or
  lie inside of its block: it never runs into undefined behaviour, whatever the allocator answers; it
  returns \<open>BSTR_OK\<close> with the concatenation, terminated and in bounds, or \<open>BSTR_ERR\<close> with the
  destination unchanged, which happens only when an allocation fails; no other string is touched and
  no block is leaked.
\<close>
theorem bconcat_appends:
  assumes "heap_ok h" "owns h i s k rest" "reads h j t" "int (length s) + int (length t) < INT_MAX"
    "8 * (int (length s) + 1 + int (length rest)) \<le> INT_MAX"
  shows "\<exists>r h'. bconcat (Some i) (Some j) h = Some (r, h') \<and>
    (r = BSTR_OK \<and> (\<exists>k' rest'. owns h' i (s @ t) k' rest' \<and> framed h h' i k k') \<or>
     r = BSTR_ERR \<and> bm_alloc h \<noteq> [] \<and> owns h' i s k rest \<and> framed h h' i k k)"
  using bconcat_ok [OF assms] unfolding outcome_def by blast

theorem bconcat_appends_witness:
  "\<exists>r h'. bconcat (Some 0) (Some 0) (two_strings [False]) = Some (r, h') \<and>
    (r = BSTR_OK \<and> (\<exists>k' rest'. owns h' 0 [0x61, 0x62, 0x61, 0x62] k' rest' \<and> framed (two_strings [False]) h' 0 0 k') \<or>
     r = BSTR_ERR \<and> [False] \<noteq> [] \<and> owns h' 0 [0x61, 0x62] 0 [None, None, None, None, None] \<and> framed (two_strings [False]) h' 0 0 0)"
  using bconcat_appends [OF two_strings_ok(1,2) owns_reads [OF two_strings_ok(2)], of "[False]"]
  by (simp add: INT_MAX_def two_strings_ok)

text \<open>
  C2: Sequences of edits. Whatever sequence of \<open>bconchar\<close>, \<open>bcatblk\<close>, \<open>bconcat\<close>, \<open>bassignblk\<close>, \<open>btrunc\<close>,
  \<open>btoupper\<close>, \<open>btolower\<close>, \<open>bdelete\<close>, \<open>bltrimws\<close>, \<open>brtrimws\<close>, \<open>btrimws\<close>, \<open>binsertch\<close>, \<open>binsertblk\<close> and \<open>bsetstr\<close>
  runs on a string, with sources outside of its block, and whatever the allocator answers in between, all
  calls are defined, and the string is at the end what the calls that returned \<open>BSTR_OK\<close> make of the
  character list; every call returns \<open>BSTR_OK\<close> when no allocation fails. The block grows to a power of two,
  so that strings of less than \<open>2 ^ 27\<close> characters stay clear of the overflows in \<open>balloc\<close>.
\<close>
theorem bstr_edit_history:
  assumes "heap_ok h" "owns h i s k rest" "\<forall>e \<in> set es. edit_valid h i k e"
    "length s + 1 + length rest \<le> 2 ^ 27" "length s + sum_list (map edit_max es) + 1 < 2 ^ 27"
  shows "\<exists>rs h' k' rest'. run_edits bstr_run (Some i) es h = Some (rs, h') \<and> length rs = length es \<and>
    owns h' i (apply_edits edited rs es s) k' rest' \<and> framed h h' i k k' \<and>
    set rs \<subseteq> {BSTR_OK, BSTR_ERR} \<and> (bm_alloc h = [] \<longrightarrow> set rs \<subseteq> {BSTR_OK})"
  by (rule edits.run_edits_ok [OF assms])

theorem bstr_edit_history_witness:
  "let es = [Conchar 0x63, InsertCh 1 2 0x2d, Concat 1 (replicate 24 0x78), Delete 0 1, Trunc 9, Trim, SetStr 12 (Some 1) (replicate 24 0x78) 0x20, ToUpper] in
   \<exists>rs h' k' rest'. run_edits bstr_run (Some 0) es (two_strings []) = Some (rs, h') \<and> length rs = length es \<and>
    owns h' 0 (apply_edits edited rs es [0x61, 0x62]) k' rest' \<and> framed (two_strings []) h' 0 0 k' \<and>
    set rs \<subseteq> {BSTR_OK, BSTR_ERR} \<and> set rs \<subseteq> {BSTR_OK}"
proof -
  let ?es = "[Conchar 0x63, InsertCh 1 2 0x2d, Concat 1 (replicate 24 0x78), Delete 0 1, Trunc 9, Trim, SetStr 12 (Some 1) (replicate 24 0x78) 0x20, ToUpper]"
  have f: "foreign_str (two_strings []) 0 0 1 (replicate 24 0x78)" using two_strings_ok(3) by (simp add: two_strings_def foreign_str_def)
  have v: "\<forall>e \<in> set ?es. edit_valid (two_strings []) 0 0 e" using f by (simp add: set_arg_def)
  have b: "length [0x61, 0x62 :: u8] + 1 + length [None, None, None, None, None :: cell] \<le> 2 ^ 27"
    "length [0x61, 0x62 :: u8] + sum_list (map edit_max ?es) + 1 < 2 ^ 27"
    by simp_all
  show ?thesis
    using bstr_edit_history [OF two_strings_ok(1,2) v b] by (simp only: Let_def two_strings_ok(4) simp_thms)
qed

text \<open>
  C10: \<open>bfindreplace\<close> and \<open>bfindreplacecaseless\<close> replace all occurrences of a string from a position on, from left to
  right and without overlaps, as one pass over the character list does, whether the replacement is of the
  same length, shorter or longer: the loops end, the moves inside of the block lose nothing, the array of
  positions is large enough at every time, and when an allocation fails the string is as before. The two arguments lie
  in other blocks, or in the string (also the string itself) so that they reach behind the position: then the engine
  works with copies, which it frees. The string has less than 2^27 - 1 characters in a block of at most 2^27 bytes, and the
  result has less than INT_MAX. An argument that lies in the string in front of the position is not copied; theorem
  \<open>bfindreplace_dangling\<close> shows that a replacement there is read after it has been freed.
\<close>
theorem bfindreplace_all:
  assumes "heap_ok h" "owns h i s k rest" "replace_arg h k s n jt t" "replace_arg h k s n jr r" "t \<noteq> []"
    "length s < 2 ^ 27 - 1" "length s + 1 + length rest \<le> 2 ^ 27"
  shows "(int (length (replace_all (=) t r n s)) < INT_MAX \<longrightarrow>
      (\<exists>res h'. bfindreplace (Some i) (Some jt) (Some jr) (int n) h = Some (res, h') \<and>
        (res = BSTR_OK \<and> (\<exists>k' rest'. owns h' i (replace_all (=) t r n s) k' rest' \<and> framed h h' i k k') \<or>
         res = BSTR_ERR \<and> bm_alloc h \<noteq> [] \<and> owns h' i s k rest \<and> framed h h' i k k))) \<and>
    (int (length (replace_all same_nocase t r n s)) < INT_MAX \<longrightarrow>
      (\<exists>res h'. bfindreplacecaseless (Some i) (Some jt) (Some jr) (int n) h = Some (res, h') \<and>
        (res = BSTR_OK \<and> (\<exists>k' rest'. owns h' i (replace_all same_nocase t r n s) k' rest' \<and> framed h h' i k k') \<or>
         res = BSTR_ERR \<and> bm_alloc h \<noteq> [] \<and> owns h' i s k rest \<and> framed h h' i k k)))"
  unfolding bfindreplace_def bfindreplacecaseless_def
  using exact_search.findreplaceengine_ok [OF assms(1-6) _ assms(7)] nocase_search.findreplaceengine_ok [OF assms(1-6) _ assms(7)]
  unfolding outcome_def by blast

text \<open>A memory with \<open>aXaX\<close>, and with the strings \<open>X\<close> and \<open>yz\<close>.\<close>

definition replace_strings :: bmem where
  "replace_strings = \<lparr>bm_hdr = [0 \<mapsto> \<lparr>b_mlen = 8, b_slen = 4, b_data = Some (0, 0)\<rparr>,
       1 \<mapsto> \<lparr>b_mlen = -1, b_slen = 1, b_data = Some (1, 0)\<rparr>, 2 \<mapsto> \<lparr>b_mlen = -1, b_slen = 2, b_data = Some (2, 0)\<rparr>],
     bm_blk = [0 \<mapsto> [Some 0x61, Some 0x58, Some 0x61, Some 0x58, Some 0, None, None, None],
       1 \<mapsto> [Some 0x58, Some 0], 2 \<mapsto> [Some 0x79, Some 0x7a, Some 0]],
     bm_next = 3, bm_alloc = []\<rparr>"

lemma replace_strings_ok:
  "heap_ok replace_strings" "owns replace_strings 0 [0x61, 0x58, 0x61, 0x58] 0 [None, None, None]"
  "foreign_str replace_strings 0 0 1 [0x58]" "foreign_str replace_strings 0 0 2 [0x79, 0x7a]" "bm_alloc replace_strings = []"
  by (auto simp: replace_strings_def heap_ok_def owns_def reads_def foreign_str_def)

lemma replace_strings_all:
  "replace_all (=) [0x58] [0x79, 0x7a] 0 [0x61, 0x58, 0x61, 0x58] = [0x61, 0x79, 0x7a, 0x61, 0x79, 0x7a]"
  "replace_all (=) [0x58] [0x61, 0x58, 0x61, 0x58] 2 [0x61, 0x58, 0x61, 0x58] = [0x61, 0x58, 0x61, 0x61, 0x58, 0x61, 0x58]"
  by (simp_all add: replace_all_def replaced_from.simps next_match_def occurs_eq upt_conv_Cons)

text \<open>A replacement from another block, and the string itself as the replacement.\<close>

theorem bfindreplace_all_witness:
  "(\<exists>h' k' rest'. bfindreplace (Some 0) (Some 1) (Some 2) 0 replace_strings = Some (BSTR_OK, h') \<and>
      owns h' 0 [0x61, 0x79, 0x7a, 0x61, 0x79, 0x7a] k' rest' \<and> framed replace_strings h' 0 0 k') \<and>
   (\<exists>h' k' rest'. bfindreplace (Some 0) (Some 1) (Some 0) 2 replace_strings = Some (BSTR_OK, h') \<and>
      owns h' 0 [0x61, 0x58, 0x61, 0x61, 0x58, 0x61, 0x58] k' rest' \<and> framed replace_strings h' 0 0 k')"
proof -
  note S = replace_strings_ok
  have self: "replace_arg replace_strings 0 [0x61, 0x58, 0x61, 0x58] 2 0 [0x61, 0x58, 0x61, 0x58]"
    using owns_reads [OF S(2)] ownsD(1) [OF S(2)] by (simp add: replace_arg_def)
  show ?thesis
    using bfindreplace_all [OF S(1,2) foreign_replace_arg [OF S(3)] foreign_replace_arg [OF S(4)], of 0]
      bfindreplace_all [OF S(1,2) foreign_replace_arg [OF S(3)] self] S(5)
    by (simp add: replace_strings_all INT_MAX_def)
qed

text \<open>
  \<open>abX\<close> in a full block, and a string that refers to its first two characters: to replace \<open>X\<close> by this string from
  position 2 on, the block is reallocated, and the characters of the replacement are read from the freed one.
\<close>

definition dangling_strings :: bmem where
  "dangling_strings = \<lparr>bm_hdr = [0 \<mapsto> \<lparr>b_mlen = 4, b_slen = 3, b_data = Some (0, 0)\<rparr>,
       1 \<mapsto> \<lparr>b_mlen = -1, b_slen = 1, b_data = Some (1, 0)\<rparr>, 2 \<mapsto> \<lparr>b_mlen = -1, b_slen = 2, b_data = Some (0, 0)\<rparr>],
     bm_blk = [0 \<mapsto> [Some 0x61, Some 0x62, Some 0x58, Some 0], 1 \<mapsto> [Some 0x58, Some 0]],
     bm_next = 3, bm_alloc = []\<rparr>"

lemma bfindreplace_dangling:
  "heap_ok dangling_strings \<and> owns dangling_strings 0 [0x61, 0x62, 0x58] 0 [] \<and> reads dangling_strings 2 [0x61, 0x62] \<and>
   bfindreplace (Some 0) (Some 1) (Some 2) 2 dangling_strings = None"
proof (intro conjI)
  show "heap_ok dangling_strings" "owns dangling_strings 0 [0x61, 0x62, 0x58] 0 []" "reads dangling_strings 2 [0x61, 0x62]"
    by (auto simp: dangling_strings_def heap_ok_def owns_def reads_def)
  show "bfindreplace (Some 0) (Some 1) (Some 2) 2 dangling_strings = None" by code_simp
qed

text \<open>
  C29: \<open>breplace\<close> replaces \<open>len\<close> characters from \<open>pos\<close> on by another string, filling a gap behind the end: when
  the range reaches the end, when the string does not grow, or when no allocation fails.
\<close>
theorem breplace_range:
  assumes "heap_ok h" "owns h i s k rest" "foreign_str h i k j t" "int pos + int len \<le> INT_MAX"
    "int (length s) + int pos + int (length t) < 2 ^ 30" "8 * (int (length s) + 1 + int (length rest)) \<le> INT_MAX"
    "length s \<le> pos + len \<or> length t \<le> len \<or> bm_alloc h = []"
  shows "\<exists>r h'. breplace (Some i) (int pos) (int len) (Some j) fill h = Some (r, h') \<and>
    (r = BSTR_OK \<and> (\<exists>k' rest'. owns h' i (take pos s @ replicate (pos - length s) fill @ t @ drop (pos + len) s) k' rest' \<and> framed h h' i k k') \<or>
     r = BSTR_ERR \<and> bm_alloc h \<noteq> [] \<and> owns h' i s k rest \<and> framed h h' i k k)"
proof -
  have a: "set_arg h i k (Some j) t" using assms(3) by (simp add: set_arg_def)
  have b: "int pos + int (length t) < INT_MAX" "int (length s) + int (length t) < 2 ^ 30" using assms(5) by (simp_all add: INT_MAX_def)
  have "\<exists>r h'. breplace (Some i) (int pos) (int len) (Some j) fill h = Some (r, h') \<and> outcome h r h' i s k rest (replaced pos len t fill s)"
  proof (cases "length s \<le> pos + len")
    case True
    then show ?thesis using breplace_end [OF assms(1,2) a True assms(4) b(1) assms(6)] by blast
  next
    case False
    then have "pos + len < length s" "bm_alloc h = [] \<or> length t \<le> len" using assms(7) by auto
    then show ?thesis using breplace_middle [OF assms(1,2) a _ _ b(2) assms(6)] by blast
  qed
  then show ?thesis unfolding outcome_def replaced_def by blast
qed

theorem breplace_range_witness:
  "\<exists>r h'. breplace (Some 0) 1 2 (Some 2) 0x20 replace_strings = Some (r, h') \<and>
    (r = BSTR_OK \<and> (\<exists>k' rest'. owns h' 0 [0x61, 0x79, 0x7a, 0x58] k' rest' \<and> framed replace_strings h' 0 0 k') \<or>
     r = BSTR_ERR \<and> [] \<noteq> [] \<and> owns h' 0 [0x61, 0x58, 0x61, 0x58] 0 [None, None, None] \<and> framed replace_strings h' 0 0 0)"
  using breplace_range [OF replace_strings_ok(1,2,4), where pos = 1 and len = 2 and fill = "0x20"] by (simp add: INT_MAX_def replace_strings_ok(5))

text \<open>
  C33: \<open>bassign\<close> and \<open>breplace\<close> ask \<open>balloc\<close> for the length of the result only, without its terminator. \<open>balloc\<close>
  rounds the size up, but falls back to exactly this size when that much cannot be had: then the terminator
  is written one byte behind the block.
\<close>
theorem bstr_terminator_overflow:
  assumes "heap_ok h" "owns h i s k rest" "foreign_str h i k j t" "int (length s) + int (length t) < 2 ^ 27"
    "8 * length s \<le> 7 * (length s + 1 + length rest)" "bm_alloc h = False # False # True # al"
  shows "(length s + 1 + length rest \<le> length t \<longrightarrow> bassign (Some i) (Some j) h = None) \<and>
    (pos + len < length s \<and> len < length t \<and> length s + 1 + length rest \<le> length s - len + length t \<longrightarrow>
      breplace (Some i) (int pos) (int len) (Some j) fill h = None)"
proof -
  obtain n kp po where J: "bm_hdr h j = Some \<lparr>b_mlen = n, b_slen = int (length t), b_data = Some (kp, po)\<rparr>" "kp \<noteq> k"
    using argE [OF assms(1,3)] .
  have a: "set_arg h i k (Some j) t" using assms(3) by (simp add: set_arg_def)
  have 1: "bassign (Some i) (Some j) h = None" if "length s + 1 + length rest \<le> length t"
    by (rule bassign_overflow_ok [OF assms(1,2) J(1) _ _ J(2) that _ assms(5,6)]) (use assms(4) in simp_all)
  have "breplace (Some i) (int pos) (int len) (Some j) fill h = None"
    if "pos + len < length s" "len < length t" "length s + 1 + length rest \<le> length s - len + length t"
    by (rule breplace_overflow_ok [OF assms(1,2) a that assms(4-6)])
  with 1 show ?thesis by blast
qed

theorem bstr_terminator_overflow_witness:
  "bassign (Some 0) (Some 1) (two_strings [False, False, True]) = None \<and>
   breplace (Some 0) 0 1 (Some 1) 0x20 (two_strings [False, False, True]) = None"
proof -
  have f: "foreign_str (two_strings [False, False, True]) 0 0 1 (replicate 24 0x78)"
    using two_strings_ok(3) by (simp add: two_strings_def foreign_str_def)
  show ?thesis
    using bstr_terminator_overflow [OF two_strings_ok(1,2) f _ _ two_strings_ok(4), where pos = 0 and len = 1] by simp
qed

text \<open>
  \<open>bdelete\<close> adds the position and the length as \<open>int\<close>: to delete up to the end with a large length, such as
  \<open>INT_MAX\<close>, is a signed overflow at every position but the first one.
\<close>
theorem bdelete_int_overflow:
  assumes "owns h i s k rest" "pos < length s" "0 < len" "int len > INT_MAX - int pos"
  shows "bdelete (Some i) (int pos) (int len) h = None"
proof -
  have "cint (int pos + int len) = None" using assms(4) by (simp add: cint_def)
  then show ?thesis using ownsD(1) [OF assms(1)] assms(2,3) by (simp add: bdelete_def not_bad_owned)
qed

theorem bdelete_int_overflow_witness:
  "bdelete (Some 0) 1 2147483647 (two_strings []) = None"
  using bdelete_int_overflow [OF two_strings_ok(2), of 1 2147483647] by (simp add: INT_MAX_def)

declare rangealloc_loop.simps [simp del]

text \<open>
  \<open>bfromcstrrangealloc\<close> halves the sizes that it tries: an odd lower bound \<open>j + 1\<close> becomes \<open>j\<close>, and the loop takes the
  block of this size when it can be had, one byte short.
\<close>
theorem bfromcstralloc_overflow:
  assumes "heap_ok h" "bm_strlen h (Some (kp, po)) 0 = Some j" "even j" "0 < j" "j < INT_MAX"
    "bm_alloc h = True # False # True # al"
  shows "bfromcstralloc (j + 1) (Some (kp, po)) h = None"
proof -
  have k: "drop_bit 1 (j + 1) + drop_bit 1 (j + 1) = j" using assms(3) by (auto simp: drop_bit_eq_div elim!: evenE)
  have c: "cint (j + 1) = Some (j + 1)" using assms(4,5) by (simp add: cint_def INT_MIN_def)
  let ?h1 = "h\<lparr>bm_hdr := (bm_hdr h)(bm_next h \<mapsto> \<lparr>b_mlen = 0, b_slen = 0, b_data = None\<rparr>), bm_next := bm_next h + 1, bm_alloc := False # True # al\<rparr>"
  let ?h2 = "?h1\<lparr>bm_blk := (bm_blk h)(bm_next h + 1 \<mapsto> replicate (nat j) None), bm_next := bm_next h + 2, bm_alloc := al\<rparr>"
  have n: "new_hdr h = (Some (bm_next h), ?h1)" using assms(6) by (simp add: new_hdr_def)
  have l: "rangealloc_loop (j + 1) (j + 1) ?h1 = (Some (bm_next h + 1, 0), j, ?h2)"
  proof -
    have "bm_malloc (j + 1) ?h1 = (None, ?h1\<lparr>bm_alloc := True # al\<rparr>)" by (simp add: bm_malloc_def)
    moreover have "bm_malloc j (?h1\<lparr>bm_alloc := True # al\<rparr>) = (Some (bm_next h + 1, 0), ?h2)" by (simp add: bm_malloc_def)
    moreover from this have "rangealloc_loop (j + 1) j (?h1\<lparr>bm_alloc := True # al\<rparr>) = (Some (bm_next h + 1, 0), j, ?h2)"
      by (subst rangealloc_loop.simps) simp
    ultimately show ?thesis using k by (subst rangealloc_loop.simps) simp
  qed
  have m: "memcpy g (Some (bm_next h + 1, 0)) 0 p 0 (j + 1) = None" if "bm_blk g = bm_blk ?h2" for g p
  proof (cases "rdn g p 0 (j + 1)")
    case (Some cs)
    then have "length cs = nat (j + 1)" using assms(4) by (auto simp: rdn_def bind_eq_Some_conv mget_Some_iff split: if_splits)
    then have "wrn g (Some (bm_next h + 1, 0)) 0 cs = None" using that assms(4) by (simp add: wrn_def mput_def)
    then show ?thesis using Some by (simp add: memcpy_def memmove_def)
  qed (simp add: memcpy_def memmove_def)
  show ?thesis
    using assms(2,4) c n l m by (simp add: bfromcstralloc_def bfromcstrrangealloc_def set_hdr_def)
qed

theorem bfromcstralloc_overflow_witness:
  "bfromcstralloc 3 (Some (0, 0)) (two_strings [True, False, True]) = None"
proof -
  have "bm_strlen (two_strings [True, False, True]) (Some (0, 0)) 0 = Some 2"
    by (simp add: two_strings_def bm_strlen_def)
  from bfromcstralloc_overflow [OF two_strings_ok(1) this _ _ _ two_strings_ok(4)] show ?thesis
    by (simp add: INT_MAX_def)
qed

end
