(* ===== verification/Spec2Isabelle.thy ===== *)
theory Spec2Isabelle
  imports CPrelude Comparator History AvlTree PQueue Base64 Md5 Chain
    HashFunc HashTable HashInv HashOps HashHistory HashThreads HashProps
    Utf8 Utf8Codec Utf8Valid Utf8Case Utf8Text
    Bstr BstrMem BstrEdit BstrEditor BstrText BstrFind BstrReplace BstrReplaceAll BstrChange BstrRange BstrFindReplace BstrHistory
begin

text \<open>
  A model of the C libraries of this repository that carry logic of their own, and the theorems that make
  them correct. All sources are below \<open>src/c/libs\<close>.

  \<^bold>\<open>Parts.\<close> The libraries do not call each other; they meet in the callbacks of the containers (a hash function, for the
  hash table). A
  comparison callback is a \<open>comparator\<close> (theory \<open>Comparator\<close>: the contract, and the reference operations on
  sorted lists that the ordered containers are specified by). Theory \<open>History\<close> holds the interface \<open>store\<close> of a component
  whose operations refine a specification, and what follows for sequences of them; the AVL tree and the hash table are instances.

  \<^item> \<open>AvlTree\<close>: \<open>fastcommon/src/avl_tree.c\<close>. A tree with balance factors; insertion, replacement, deletion,
    lookup, traversals and depth. Shown: balance and order are kept by every operation, the operations are those of the
    sorted list of the elements, over whole histories as well (locale \<open>store\<close>) and with any of the \<open>malloc\<close> calls failing,
    and the depth is logarithmic. The lookups return a datum or the null pointer, which is an argument of their models: a
    stored null pointer looks like a miss.
  \<^item> \<open>PQueue\<close>: \<open>pqueue/pqueue.c\<close>. A binary heap in a block that grows; the caller's callbacks keep priorities and
    positions (locales \<open>pri_callbacks\<close> and \<open>pos_callbacks\<close>, interpreted on the callbacks of \<open>sample.c\<close>). Shown:
    the heap is a priority queue on multisets, every allocation failure included; the checks and
    printing functions; an unchecked size product.
  \<^item> \<open>Base64\<close>: \<open>fastcommon/src/base64.c\<close>. Encoding with lines, decoding of any input. The lengths and the position in a line
    are \<open>int\<close> with its range checks. Shown: round trips, exact buffer sizes, the reaction to every input that does not have more padding
    than its digits allow, and two defects, one of which is what happens when it has.
  \<^item> \<open>Md5\<close>: \<open>fastcommon/src/md5.c\<close>. Shown: the unrolled rounds are those of RFC 1321, which is written with the rotation
    \<open>word_rotl\<close> of the word library and shares nothing with the program; streaming is equal to hashing the whole message; and how the index of the
    loop wraps. The specification is checked against test vectors of the RFC (\<open>md5_test_suite\<close>).
  \<^item> \<open>Chain\<close>: \<open>fastcommon/src/chain.c\<close>. A singly linked list on an explicit heap. Shown: every operation
    refines one on lists, frees what it removes exactly once and touches no other node.
  \<^item> \<open>HashFunc\<close>: the hash functions of \<open>fastcommon/src/hash.c\<close>, on 32-bit words. Shown: \<open>CRC32\<close> is the
    remainder of the polynomial division, and finds every burst of errors up to 32 bits; the multiplicative functions are
    polynomials; where \<open>PJWHash\<close> and \<open>ELFHash\<close> differ.
  \<^item> \<open>HashTable\<close> (definitions): the chained hash table of \<open>fastcommon/src/hash.c\<close>: buckets, chains of nodes, counters,
    memory limit, values that are copied or borrowed. \<open>HashInv\<close>: the invariant \<open>hash_ok\<close>, the map \<open>hash_map\<close> that a table stands for,
    rehashing, and the search for a capacity without conflicts. \<open>HashOps\<close>: every operation against the map, with its exact result (when an
    insertion updates in place, replaces the node, breaks the limit, or runs out of memory). \<open>HashHistory\<close>: any
    sequence of operations refines the map (locale \<open>store\<close>); iteration with any callback, statistics. \<open>HashThreads\<close>: threads that insert, as
    a step relation whose steps are the critical sections (\<open>thread_step\<close>); in \<open>racy_step\<close> the counters \<open>bytes_used\<close> and \<open>item_count\<close>, which the
    threads change under different locks or none, have any values before and after each step. \<open>HashProps\<close>: the properties. Shown: histories, insertion, counters,
    termination of \<open>hash_best_op\<close> and its reasons to fail, threads with different keys always finish with the right map, whatever becomes of the counters; and what goes wrong: lost values,
    a dangling pointer, two nodes of one key.
  \<^item> \<open>Utf8\<close> (definitions), \<open>Utf8Codec\<close>, \<open>Utf8Valid\<close>, \<open>Utf8Case\<close>, \<open>Utf8Text\<close>: \<open>utf8.h\<close>. The string functions on a block
    of bytes. Shown: what is accepted as valid, that codepoints and bytes correspond, that case conversion
    works in place (locale \<open>case_conversion\<close>), and that copying, comparison, search and the set
    functions (locale \<open>set_scan\<close>) are the functions on codepoint lists; where they are not is stated as well.
  \<^item> \<open>Bstr\<close>, \<open>BstrText\<close>, \<open>BstrReplace\<close>, \<open>BstrReplaceAll\<close> (definitions): \<open>bstrlib/bstrlib.c\<close>. Strings with a header that holds the size
    of the block, the length and a pointer to the characters. The memory is explicit: headers, blocks of bytes
    that may not be written yet, and the answers of the allocator. \<open>BstrMem\<close> and \<open>BstrEdit\<close>: growth, and
    the operations that build strings, with the contract \<open>outcome\<close>. \<open>BstrFind\<close>: comparison, search and
    character sets. \<open>BstrChange\<close> and \<open>BstrRange\<close>: deletion, trimming, insertion, replacement of a range.
    \<open>BstrFindReplace\<close>: replacement of all occurrences, for any search function (locale \<open>bstr_search\<close>), with arguments in
    other blocks or in the string itself behind the position; a replacement in front of it dangles when the block moves.
    \<open>BstrEditor\<close> and \<open>BstrHistory\<close>: any sequence of edits of one string (locale \<open>bstr_editor\<close>). Shown: every operation computes the
    list function it stands for, stays in bounds, touches nothing else and leaves the string unchanged when an
    allocation fails; where that is not so, there is a theorem that shows it.
  \<^bold>\<open>Conventions.\<close> \<open>CPrelude\<close> holds what is shared. A C function returns \<open>option\<close>: \<open>None\<close> is undefined
  behaviour, that is, an access outside of a block or to a byte that was never written, a null pointer
  dereference, use after free, an overflow of a signed operation, or a loop that does not end. So \<open>f x = Some y\<close>
  states memory safety and termination together with the result. \<open>malloc\<close> and its relatives are a
  parameter: a list of outcomes of the next calls (\<open>alloc\<close>), or the flag of the one call, or the block
  that is returned; the properties hold for every value of it. Signed integers are \<open>int\<close> with the range check
  \<open>cint\<close> where the code can leave the range; unsigned ones are words. Structs are records, pointers into a
  block are a block and an offset.

  \<^bold>\<open>Bounds.\<close> There is no fuel. Loops are structural or have a measure, or are partial functions whose
  \<open>None\<close> is excluded by the theorems. Size hypotheses of the properties are those under which the \<open>int\<close> or \<open>size_t\<close>
  expressions of the code do not wrap; the properties named \<open>overflow\<close>, \<open>wraps\<close> or \<open>bugs\<close> show what happens
  otherwise.

  \<^bold>\<open>Not modelled.\<close> Of \<open>bstrlib\<close>: splitting, formatting and streams. Of \<open>fastcommon\<close>: sockets, threads, timers, logging, ini files,
  skip lists, JSON and the memory pools. Of the hash table: the configuration \<open>HASH_STORE_HASH_CODE\<close>, \<open>hash_stat_print\<close>,
  load factors that are no numbers, counters that leave the range of their types, and values that point into the table itself
  (a \<open>memcpy\<close> between a borrowed value and an overlapping buffer of the caller is undefined in the model, as in C).
  The steps of a thread are atomic; the races on the two counters are the arbitrary values of \<open>racy_step\<close>. \<open>uthash\<close>, \<open>munit\<close> and
  the C++ headers are vendored. Pointers into different blocks are never equal and never in each other's
  range; alignment and padding of structs play no role.
\<close>

end
